(* ===== verification/Prelude.thy ===== *)
theory Prelude
  imports Main "HOL-Library.Word" "HOL-Library.Monad_Syntax"
begin

text \<open>
  What every component shares: the ways a C operation can go wrong, the result type
  \<open>c_error + 'a\<close> with its sequencing, C's \<open>int\<close> as a bounded integer, pointers as 64-bit
  words, and a few lemmas on lists and maps.
\<close>

section \<open>Failures of a C program and results\<close>

text \<open>
  \<open>InvalidAccess\<close>: a load or store through a NULL, freed or never allocated pointer.
  \<open>AssertFailed\<close>: an \<open>assert\<close> of the source. \<open>SignedOverflow\<close>: an \<open>int\<close> result out of
  range, undefined in C. \<open>OutOfBounds\<close>: an array access past the end of its array.
  \<open>DivByZero\<close>: \<open>/\<close> or \<open>%\<close> by zero. \<open>NoReturn\<close>: the call never returns.
\<close>

datatype c_error = InvalidAccess | AssertFailed | SignedOverflow | OutOfBounds | DivByZero | NoReturn

primrec and_then :: "'e + 'a \<Rightarrow> ('a \<Rightarrow> 'e + 'b) \<Rightarrow> 'e + 'b" where
  "and_then (Inl e) f = Inl e"
| "and_then (Inr a) f = f a"

primrec or_fail :: "'e \<Rightarrow> 'a option \<Rightarrow> 'e + 'a" where
  "or_fail e None = Inl e"
| "or_fail e (Some a) = Inr a"

lemma and_then_eq_Inr [simp]:
  "and_then m f = Inr b \<longleftrightarrow> (\<exists>a. m = Inr a \<and> f a = Inr b)"
  by (cases m) auto

lemma and_then_eq_Inl:
  "and_then m f = Inl e \<longleftrightarrow> m = Inl e \<or> (\<exists>a. m = Inr a \<and> f a = Inl e)"
  by (cases m) auto

lemma and_then_assoc: "and_then (and_then m f) g = and_then m (\<lambda>a. and_then (f a) g)"
  by (cases m) auto

lemma or_fail_eq_Inr [simp]: "or_fail e m = Inr a \<longleftrightarrow> m = Some a"
  by (cases m) auto

section \<open>Pointers and C integers\<close>

type_synonym ptr = "64 word"

abbreviation (input) NULL :: ptr where "NULL \<equiv> 0"

text \<open>\<open>container_of (address, type, field)\<close>: the address less the field's offset.\<close>

definition container_of :: "ptr \<Rightarrow> ptr \<Rightarrow> ptr" where
  "container_of address offset = address - offset"

lemma container_of_field [simp]: "container_of (p + off) off = p"
  by (simp add: container_of_def)

text \<open>
  A C \<open>int\<close> of 32 bits is an \<^typ>\<open>int\<close> in range; an arithmetic result out of range is an
  error, because signed overflow is undefined.
\<close>

definition INT_MAX :: int where "INT_MAX = 2147483647"
definition INT_MIN :: int where "INT_MIN = - 2147483648"

definition in_int :: "int \<Rightarrow> bool" where
  "in_int i \<longleftrightarrow> INT_MIN \<le> i \<and> i \<le> INT_MAX"

definition c_int :: "int \<Rightarrow> c_error + int" where
  "c_int i = (if in_int i then Inr i else Inl SignedOverflow)"

lemma c_int_eq_Inr [simp]: "c_int i = Inr j \<longleftrightarrow> in_int i \<and> j = i"
  by (auto simp: c_int_def)

lemma c_int_in: "in_int i \<Longrightarrow> c_int i = Inr i"
  by simp

lemmas c_int_bounds = in_int_def INT_MAX_def INT_MIN_def

section \<open>Lists and maps\<close>

lemma distinct_butlast_notin: "distinct xs \<Longrightarrow> xs \<noteq> [] \<Longrightarrow> last xs \<notin> set (butlast xs)"
  by (metis append_butlast_last_id distinct_append disjoint_insert(1) list.simps(15))

text \<open>
  Two memories that differ at most on \<open>A\<close> and have the same allocated addresses: what a
  routine leaves alone.
\<close>

named_theorems frame "introduction rules for what an operation leaves as it was"

definition agree_off :: "'p set \<Rightarrow> ('p \<rightharpoonup> 'e) \<Rightarrow> ('p \<rightharpoonup> 'e) \<Rightarrow> bool" where
  "agree_off A h h' \<longleftrightarrow> (\<forall>x. x \<notin> A \<longrightarrow> h' x = h x) \<and> dom h' = dom h"

lemma agree_off_refl [simp, frame]: "agree_off A h h"
  by (simp add: agree_off_def)

lemma agree_off_trans: "agree_off A h h1 \<Longrightarrow> agree_off B h1 h2 \<Longrightarrow> agree_off (A \<union> B) h h2"
  by (simp add: agree_off_def)

lemma agree_off_mono: "agree_off A h h' \<Longrightarrow> A \<subseteq> B \<Longrightarrow> agree_off B h h'"
  by (auto simp: agree_off_def)

lemma agree_off_upd [simp, frame]: "p \<in> A \<Longrightarrow> p \<in> dom h \<Longrightarrow> agree_off A h (h(p \<mapsto> e))"
  by (auto simp: agree_off_def)

lemma agree_off_dom: "agree_off A h h' \<Longrightarrow> dom h' = dom h"
  by (simp add: agree_off_def)

lemma agree_off_at: "agree_off A h h' \<Longrightarrow> x \<notin> A \<Longrightarrow> h' x = h x"
  by (simp add: agree_off_def)

end
