(* ===== verification/Intrusive_List.thy ===== *)
theory Intrusive_List
  imports Prelude
begin

text \<open>
  Circular doubly linked lists with a sentinel, as both \<open>list.h\<close> files of the repository
  build them. \<open>dring N P root xs\<close> says that following the next links \<open>N\<close> from the sentinel
  \<open>root\<close> visits exactly \<open>xs\<close> and comes back, that the previous links \<open>P\<close> go the other way
  round, and that no entry occurs twice. The locale \<open>intrusive_list\<close> is the contract the
  clients (ready queue, wait lists, monitor queues) rely on; each \<open>list.h\<close> interprets it.
\<close>

section \<open>Chains of links\<close>

fun chain :: "('p \<rightharpoonup> 'p) \<Rightarrow> ('p \<rightharpoonup> 'p) \<Rightarrow> 'p list \<Rightarrow> bool" where
  "chain N P (a # b # r) \<longleftrightarrow> N a = Some b \<and> P b = Some a \<and> chain N P (b # r)"
| "chain N P _ \<longleftrightarrow> True"

lemma chain_join: "chain N P (xs @ a # ys) \<longleftrightarrow> chain N P (xs @ [a]) \<and> chain N P (a # ys)"
proof (induction xs)
  case Nil
  then show ?case by simp
next
  case (Cons x xs)
  then show ?case by (cases xs) auto
qed

lemma chain_cong:
  assumes "\<And>x. x \<in> set (butlast L) \<Longrightarrow> N' x = N x" and "\<And>x. x \<in> set (tl L) \<Longrightarrow> P' x = P x"
  shows "chain N' P' L = chain N P L"
  using assms
proof (induction N P L rule: chain.induct)
  case (1 N P a b r)
  have "chain N' P' (b # r) = chain N P (b # r)"
    by (rule 1) (use 1(2,3) in \<open>cases r; auto\<close>)+
  with 1(2)[of a] 1(3)[of b] show ?case by simp
qed auto

definition dring :: "('p \<rightharpoonup> 'p) \<Rightarrow> ('p \<rightharpoonup> 'p) \<Rightarrow> 'p \<Rightarrow> 'p list \<Rightarrow> bool" where
  "dring N P root xs \<longleftrightarrow> distinct (root # xs) \<and> chain N P (root # xs @ [root])"

lemma ring_empty [simp]: "dring N P p [] \<longleftrightarrow> N p = Some p \<and> P p = Some p"
  by (simp add: dring_def)

lemma ring_distinct: "dring N P root xs \<Longrightarrow> distinct (root # xs)"
  by (simp add: dring_def)

lemma ring_cong:
  assumes "\<And>x. x \<in> set (root # xs) \<Longrightarrow> N' x = N x \<and> P' x = P x"
  shows "dring N' P' root xs = dring N P root xs"
proof -
  have "chain N' P' (root # xs @ [root]) = chain N P (root # xs @ [root])"
    by (rule chain_cong) (use assms in \<open>auto simp: butlast_append\<close>)
  then show ?thesis by (simp add: dring_def)
qed

section \<open>Reading the links of a ring\<close>

abbreviation first_or :: "'p \<Rightarrow> 'p list \<Rightarrow> 'p" where
  "first_or p xs \<equiv> hd (xs @ [p])"

abbreviation last_or :: "'p \<Rightarrow> 'p list \<Rightarrow> 'p" where
  "last_or p xs \<equiv> last (p # xs)"

lemma chain_next: "chain N P (as @ e # bs) \<Longrightarrow> bs \<noteq> [] \<Longrightarrow> N e = Some (hd bs)"
  by (drule chain_join[THEN iffD1]) (cases bs; simp)

lemma chain_prev: "chain N P (as @ e # bs) \<Longrightarrow> as \<noteq> [] \<Longrightarrow> P e = Some (last as)"
proof -
  assume c: "chain N P (as @ e # bs)" and "as \<noteq> []"
  then obtain as' a where as: "as = as' @ [a]" by (cases as rule: rev_cases) auto
  from c have "chain N P (as' @ a # e # bs)" by (simp add: as)
  then have "chain N P (a # e # bs)" by (rule chain_join[THEN iffD1, THEN conjunct2])
  then show ?thesis by (simp add: as)
qed

lemma ring_links:
  assumes "dring N P root (as @ e # bs)"
  shows "N e = Some (first_or root bs)" and "P e = Some (last_or root as)"
proof -
  have c: "chain N P ((root # as) @ e # (bs @ [root]))"
    using assms by (simp add: dring_def)
  show "N e = Some (first_or root bs)" using chain_next[OF c] by simp
  show "P e = Some (last_or root as)" using chain_prev[OF c] by simp
qed

lemma ring_head_links:
  assumes "dring N P root xs"
  shows "N root = Some (first_or root xs)" and "P root = Some (last_or root xs)"
proof -
  have "chain N P ([] @ root # (xs @ [root]))" and "chain N P ((root # xs) @ root # [])"
    using assms by (simp_all add: dring_def)
  from chain_next[OF this(1)] chain_prev[OF this(2)]
  show "N root = Some (first_or root xs)" and "P root = Some (last_or root xs)" by simp_all
qed

lemma ring_mem_links:
  assumes "dring N P root xs" "x \<in> set (root # xs)"
  shows "x \<in> dom N \<and> x \<in> dom P"
proof (cases "x = root")
  case True
  then show ?thesis using ring_head_links[OF assms(1)] by auto
next
  case False
  with assms(2) obtain as bs where "xs = as @ x # bs" by (auto dest: split_list)
  then show ?thesis using ring_links[of N P root as x bs] assms(1) by auto
qed

section \<open>Inserting and removing\<close>

lemma ring_split:
  assumes "root # xs @ [root] = as @ a # b # bs" "distinct (root # xs)"
  shows "a \<notin> set as" "a \<notin> set (butlast (b # bs))" "b \<notin> set (tl (as @ [a]))" "b \<notin> set bs"
proof -
  have "distinct (butlast (as @ a # b # bs))" "distinct (tl (as @ a # b # bs))"
    using assms(2) unfolding assms(1)[symmetric] by (auto simp: butlast_append)
  then show "a \<notin> set as" "a \<notin> set (butlast (b # bs))" "b \<notin> set (tl (as @ [a]))" "b \<notin> set bs"
    by (cases as; auto simp: butlast_append split: if_splits)+
qed

lemma chain_insert:
  assumes "root # xs @ [root] = as @ a # b # bs" "dring N P root xs" "e \<notin> set (root # xs)"
  shows "chain (N(e \<mapsto> b, a \<mapsto> e)) (P(e \<mapsto> a, b \<mapsto> e)) (as @ a # e # b # bs)"
proof -
  let ?N = "N(e \<mapsto> b, a \<mapsto> e)" and ?P = "P(e \<mapsto> a, b \<mapsto> e)"
  have d: "distinct (root # xs)" using assms(2) by (rule ring_distinct)
  note s = ring_split[OF assms(1) d]
  have e: "e \<notin> set (as @ a # b # bs)" using assms(3) unfolding assms(1)[symmetric] by simp
  have c: "chain N P (as @ a # b # bs)" using assms(2) unfolding assms(1)[symmetric]
    by (simp add: dring_def)
  have "chain ?N ?P (as @ [a]) = chain N P (as @ [a])"
    by (rule chain_cong) (use s e in \<open>auto dest: list.set_sel(2)[rotated]\<close>)
  moreover have "chain ?N ?P (b # bs) = chain N P (b # bs)"
    by (rule chain_cong) (use s e in \<open>auto dest: in_set_butlastD split: if_splits\<close>)
  moreover have "a \<noteq> e" "b \<noteq> e" using e by auto
  moreover have "chain N P (as @ [a])" "chain N P (a # b # bs)"
    using c chain_join[of N P as a "b # bs"] by blast+
  ultimately have "chain ?N ?P (as @ [a])" "chain ?N ?P (a # e # b # bs)" by simp_all
  then show ?thesis using chain_join[of ?N ?P as a "e # b # bs"] by blast
qed

lemma ring_insert_first:
  assumes "dring N P root xs" "e \<notin> set (root # xs)"
  shows "dring (N(e \<mapsto> first_or root xs, root \<mapsto> e)) (P(e \<mapsto> root, first_or root xs \<mapsto> e)) root (e # xs)"
proof -
  have "root # xs @ [root] = [] @ root # first_or root xs # tl (xs @ [root])" by (cases xs) auto
  from chain_insert[OF this assms] show ?thesis
    using assms by (cases xs) (auto simp: dring_def)
qed

lemma ring_insert_last:
  assumes "dring N P root xs" "e \<notin> set (root # xs)"
  shows "dring (N(e \<mapsto> root, last_or root xs \<mapsto> e)) (P(e \<mapsto> last_or root xs, root \<mapsto> e)) root (xs @ [e])"
proof -
  have eq: "root # xs @ [root] = butlast (root # xs) @ last_or root xs # root # []"
    by (metis append_Cons append_assoc append_butlast_last_id append_Nil list.distinct(1))
  have "butlast (root # xs) @ last_or root xs # e # root # [] = root # (xs @ [e]) @ [root]"
    by (metis append_Cons append_assoc append_butlast_last_id append_Nil list.distinct(1))
  then have "chain (N(e \<mapsto> root, last_or root xs \<mapsto> e)) (P(e \<mapsto> last_or root xs, root \<mapsto> e))
      (root # (xs @ [e]) @ [root])"
    using chain_insert[OF eq assms] by metis
  moreover have "distinct (root # xs @ [e])" using assms by (auto dest: ring_distinct)
  ultimately show ?thesis unfolding dring_def by blast
qed

lemma ring_remove:
  assumes "dring N P root (as @ e # bs)"
  shows "dring (N(last_or root as \<mapsto> first_or root bs)) (P(first_or root bs \<mapsto> last_or root as)) root (as @ bs)"
proof -
  let ?a = "last_or root as" and ?b = "first_or root bs"
  let ?N = "N(?a \<mapsto> ?b)" and ?P = "P(?b \<mapsto> ?a)"
  obtain L where L: "root # as = L @ [?a]" by (metis append_butlast_last_id list.distinct(1))
  obtain R where R: "bs @ [root] = ?b # R" by (cases bs) auto
  have d: "distinct (root # as @ e # bs)" using assms by (rule ring_distinct)
  have "root # (as @ e # bs) @ [root] = (root # as) @ e # (bs @ [root])" by simp
  also have "\<dots> = L @ ?a # e # ?b # R"
    using arg_cong2[OF L R, of "\<lambda>x y. x @ e # y"] by simp
  finally have c: "chain N P (L @ ?a # e # ?b # R)"
    using assms unfolding dring_def by metis
  have "root # (as @ bs) @ [root] = (root # as) @ (bs @ [root])" by simp
  also have "\<dots> = L @ ?a # ?b # R"
    using arg_cong2[OF L R, of "\<lambda>x y. x @ y"] by simp
  finally have eq: "root # (as @ bs) @ [root] = L @ ?a # ?b # R" .
  note s = ring_split[OF eq]
  have d': "distinct (root # as @ bs)" using d by auto
  have "chain ?N ?P (L @ [?a]) = chain N P (L @ [?a])"
    by (rule chain_cong) (use s d' in \<open>auto\<close>)
  moreover have "chain ?N ?P (?b # R) = chain N P (?b # R)"
    by (rule chain_cong) (use s d' in \<open>auto\<close>)
  moreover have "chain N P (L @ [?a])" "chain N P (?a # e # ?b # R)"
    using c chain_join[of N P L ?a "e # ?b # R"] by blast+
  ultimately have "chain ?N ?P (L @ [?a])" "chain ?N ?P (?a # ?b # R)" by simp_all
  then have "chain ?N ?P (L @ ?a # ?b # R)" using chain_join[of ?N ?P L ?a "?b # R"] by blast
  then show ?thesis using d' unfolding dring_def eq[symmetric] by simp
qed

section \<open>The contract of an intrusive list\<close>

text \<open>
  A memory of list entries is a partial map: \<open>None\<close> is an address that holds no entry, and
  an operation that touches one returns \<open>None\<close>. \<open>list_at h p xs\<close> is the representation
  predicate. Each law gives the result, the new list, and the addresses that may change.
\<close>

locale intrusive_list =
  fixes init :: "('p \<rightharpoonup> 'e) \<Rightarrow> 'p \<Rightarrow> ('p \<rightharpoonup> 'e) option"
    and is_empty :: "('p \<rightharpoonup> 'e) \<Rightarrow> 'p \<Rightarrow> bool option"
    and remove_entry :: "('p \<rightharpoonup> 'e) \<Rightarrow> 'p \<Rightarrow> (('p \<rightharpoonup> 'e) \<times> bool) option"
    and remove_first :: "('p \<rightharpoonup> 'e) \<Rightarrow> 'p \<Rightarrow> (('p \<rightharpoonup> 'e) \<times> 'p) option"
    and remove_last :: "('p \<rightharpoonup> 'e) \<Rightarrow> 'p \<Rightarrow> (('p \<rightharpoonup> 'e) \<times> 'p) option"
    and insert_first :: "('p \<rightharpoonup> 'e) \<Rightarrow> 'p \<Rightarrow> 'p \<Rightarrow> ('p \<rightharpoonup> 'e) option"
    and insert_last :: "('p \<rightharpoonup> 'e) \<Rightarrow> 'p \<Rightarrow> 'p \<Rightarrow> ('p \<rightharpoonup> 'e) option"
    and list_at :: "('p \<rightharpoonup> 'e) \<Rightarrow> 'p \<Rightarrow> 'p list \<Rightarrow> bool"
  assumes list_at_wf: "list_at h p xs \<Longrightarrow> distinct (p # xs) \<and> set (p # xs) \<subseteq> dom h"
    and list_at_local: "list_at h p xs \<Longrightarrow> (\<And>x. x \<in> set (p # xs) \<Longrightarrow> h' x = h x) \<Longrightarrow> list_at h' p xs"
    and init_law: "p \<in> dom h \<Longrightarrow> \<exists>h'. init h p = Some h' \<and> list_at h' p [] \<and> agree_off {p} h h'"
    and is_empty_law: "list_at h p xs \<Longrightarrow> is_empty h p = Some (xs = [])"
    and remove_entry_law: "list_at h p (as @ e # bs) \<Longrightarrow>
      \<exists>h'. remove_entry h e = Some (h', as @ bs = []) \<and> list_at h' p (as @ bs)
        \<and> agree_off (set (p # as @ bs)) h h'"
    and remove_first_law: "list_at h p (e # xs) \<Longrightarrow>
      \<exists>h'. remove_first h p = Some (h', e) \<and> list_at h' p xs \<and> agree_off (set (p # xs)) h h'"
    and remove_last_law: "list_at h p (xs @ [e]) \<Longrightarrow>
      \<exists>h'. remove_last h p = Some (h', e) \<and> list_at h' p xs \<and> agree_off (set (p # xs)) h h'"
    and insert_first_law: "list_at h p xs \<Longrightarrow> e \<in> dom h \<Longrightarrow> e \<notin> set (p # xs) \<Longrightarrow>
      \<exists>h'. insert_first h p e = Some h' \<and> list_at h' p (e # xs) \<and> agree_off (set (p # e # xs)) h h'"
    and insert_last_law: "list_at h p xs \<Longrightarrow> e \<in> dom h \<Longrightarrow> e \<notin> set (p # xs) \<Longrightarrow>
      \<exists>h'. insert_last h p e = Some h' \<and> list_at h' p (xs @ [e]) \<and> agree_off (set (p # e # xs)) h h'"

text \<open>Clients: insert a batch of entries, take a number of them out again.\<close>

fun insert_each :: "('h \<Rightarrow> 'p \<Rightarrow> 'p \<Rightarrow> 'h option) \<Rightarrow> 'h \<Rightarrow> 'p \<Rightarrow> 'p list \<Rightarrow> 'h option" where
  "insert_each ins h p [] = Some h"
| "insert_each ins h p (e # es) = do { h1 \<leftarrow> ins h p e; insert_each ins h1 p es }"

fun take_each :: "('h \<Rightarrow> 'p \<Rightarrow> ('h \<times> 'p) option) \<Rightarrow> 'h \<Rightarrow> 'p \<Rightarrow> nat \<Rightarrow> ('h \<times> 'p list) option" where
  "take_each rem h p 0 = Some (h, [])"
| "take_each rem h p (Suc n) = do {
     (h1, e) \<leftarrow> rem h p; (h2, es) \<leftarrow> take_each rem h1 p n; Some (h2, e # es) }"

text \<open>
  Several lists in one memory: \<open>L\<close> gives the entries of the list rooted at each sentinel, and
  no two lists share a node.
\<close>

definition nodes :: "('p \<rightharpoonup> 'p list) \<Rightarrow> 'p set" where
  "nodes L = {x. \<exists>q xs. L q = Some xs \<and> x \<in> set (q # xs)}"

definition disjoint_lists :: "(('p \<rightharpoonup> 'e) \<Rightarrow> 'p \<Rightarrow> 'p list \<Rightarrow> bool) \<Rightarrow> ('p \<rightharpoonup> 'e) \<Rightarrow> ('p \<rightharpoonup> 'p list) \<Rightarrow> bool" where
  "disjoint_lists list_at h L \<longleftrightarrow> (\<forall>q xs. L q = Some xs \<longrightarrow> list_at h q xs)
     \<and> (\<forall>q q' xs xs'. L q = Some xs \<longrightarrow> L q' = Some xs' \<longrightarrow> q \<noteq> q' \<longrightarrow>
          set (q # xs) \<inter> set (q' # xs') = {})"

lemma nodes_sub: "L q = Some xs \<Longrightarrow> set (q # xs) \<subseteq> nodes L"
  by (auto simp: nodes_def)

lemma nodes_iff: "x \<in> nodes L \<longleftrightarrow> (\<exists>q xs. L q = Some xs \<and> x \<in> set (q # xs))"
  by (simp add: nodes_def)

lemma nodes_upd: "nodes (L(q \<mapsto> xs)) = set (q # xs) \<union> nodes (L(q := None))"
proof (rule set_eqI)
  fix x
  show "x \<in> nodes (L(q \<mapsto> xs)) \<longleftrightarrow> x \<in> set (q # xs) \<union> nodes (L(q := None))"
    unfolding Un_iff nodes_iff by (metis fun_upd_apply option.discI option.inject)
qed

lemma nodes_at: "L q = Some xs \<Longrightarrow> nodes L = set (q # xs) \<union> nodes (L(q := None))"
  using nodes_upd[of L q xs] by (simp add: fun_upd_idem)

lemma nodes_new: "L q = None \<Longrightarrow> nodes (L(q := None)) = nodes L"
  by (simp add: fun_upd_idem)

context intrusive_list
begin

lemma list_at_frame:
  assumes "list_at h p xs" "agree_off A h h'" "A \<inter> set (p # xs) = {}"
  shows "list_at h' p xs"
proof (rule list_at_local[OF assms(1)])
  fix x assume "x \<in> set (p # xs)"
  with assms(3) have "x \<notin> A" by blast
  then show "h' x = h x" by (rule agree_off_at[OF assms(2)])
qed

lemma lists_nodes_dom: "disjoint_lists list_at h L \<Longrightarrow> nodes L \<subseteq> dom h"
proof
  fix x assume "disjoint_lists list_at h L" "x \<in> nodes L"
  then obtain q xs where "list_at h q xs" "x \<in> set (q # xs)"
    unfolding disjoint_lists_def nodes_iff by blast
  then show "x \<in> dom h" using list_at_wf by blast
qed

lemma lists_frame:
  assumes "disjoint_lists list_at h L" "agree_off A h h'" "A \<inter> nodes L = {}"
  shows "disjoint_lists list_at h' L"
proof -
  have "list_at h' q xs" if "L q = Some xs" for q xs
  proof (rule list_at_frame[OF _ assms(2)])
    show "list_at h q xs" using assms(1) that by (simp add: disjoint_lists_def)
    show "A \<inter> set (q # xs) = {}" using assms(3) nodes_sub[of L q xs, OF that] by blast
  qed
  then show ?thesis using assms(1) unfolding disjoint_lists_def by blast
qed

lemma lists_update:
  assumes "disjoint_lists list_at h L" "agree_off A h h'" "list_at h' q xs'"
    and "A \<inter> nodes (L(q := None)) = {}" "set (q # xs') \<inter> nodes (L(q := None)) = {}"
  shows "disjoint_lists list_at h' (L(q \<mapsto> xs'))"
proof -
  have off: "list_at h' q' ys \<and> set (q # xs') \<inter> set (q' # ys) = {}" if "L q' = Some ys" "q' \<noteq> q" for q' ys
  proof
    have L': "(L(q := None)) q' = Some ys" using that by simp
    have "list_at h q' ys" using assms(1) that by (simp add: disjoint_lists_def)
    then show "list_at h' q' ys"
      by (rule list_at_frame[OF _ assms(2)]) (use assms(4) nodes_sub[of "L(q := None)" q' ys, OF L'] in blast)
    show "set (q # xs') \<inter> set (q' # ys) = {}" using assms(5) nodes_sub[of "L(q := None)" q' ys, OF L'] by blast
  qed
  show ?thesis unfolding disjoint_lists_def
  proof (intro conjI allI impI)
    fix q' ys assume "(L(q \<mapsto> xs')) q' = Some ys"
    then show "list_at h' q' ys" using off assms(3) by (cases "q' = q") auto
  next
    fix q1 q2 ys1 ys2
    assume l: "(L(q \<mapsto> xs')) q1 = Some ys1" "(L(q \<mapsto> xs')) q2 = Some ys2" "q1 \<noteq> q2"
    consider "q1 = q" | "q2 = q" | "q1 \<noteq> q" "q2 \<noteq> q" by blast
    then show "set (q1 # ys1) \<inter> set (q2 # ys2) = {}"
    proof cases
      case 1
      with l off[of q2 ys2] show ?thesis by auto
    next
      case 2
      with l off[of q1 ys1] show ?thesis by auto
    next
      case 3
      with l assms(1) show ?thesis unfolding disjoint_lists_def by (metis fun_upd_apply)
    qed
  qed
qed

lemma lists_others:
  assumes "disjoint_lists list_at h L" "L q = Some xs"
  shows "set (q # xs) \<inter> nodes (L(q := None)) = {}"
proof -
  have "set (q # xs) \<inter> set (q' # ys) = {}" if "L q' = Some ys" "q' \<noteq> q" for q' ys
    using assms that unfolding disjoint_lists_def by metis
  then show ?thesis unfolding disjoint_iff nodes_iff by (metis fun_upd_apply option.discI)
qed

lemma lists_insert_last:
  assumes "disjoint_lists list_at h L" "L q = Some xs" "e \<in> dom h" "e \<notin> nodes L"
  shows "\<exists>h'. insert_last h q e = Some h' \<and> disjoint_lists list_at h' (L(q \<mapsto> xs @ [e]))
    \<and> dom h' = dom h"
proof -
  have l: "list_at h q xs" using assms(1,2) by (simp add: disjoint_lists_def)
  have n: "nodes L = set (q # xs) \<union> nodes (L(q := None))" by (rule nodes_at[of L, OF assms(2)])
  then have "e \<notin> set (q # xs)" using assms(4) by blast
  from insert_last_law[OF l assms(3) this] obtain h' where
    h': "insert_last h q e = Some h'" "list_at h' q (xs @ [e])" "agree_off (set (q # e # xs)) h h'"
    by blast
  have "set (q # e # xs) \<inter> nodes (L(q := None)) = {}"
    using lists_others[OF assms(1,2)] assms(4) n by auto
  then have "disjoint_lists list_at h' (L(q \<mapsto> xs @ [e]))"
    by (intro lists_update[OF assms(1) h'(3,2)]) auto
  then show ?thesis using h' agree_off_dom by blast
qed

lemma lists_remove_first:
  assumes "disjoint_lists list_at h L" "L q = Some (e # xs)"
  shows "\<exists>h'. remove_first h q = Some (h', e) \<and> disjoint_lists list_at h' (L(q \<mapsto> xs))
    \<and> dom h' = dom h \<and> e \<notin> nodes (L(q \<mapsto> xs))"
proof -
  have l: "list_at h q (e # xs)" using assms by (simp add: disjoint_lists_def)
  from remove_first_law[OF l] obtain h' where
    h': "remove_first h q = Some (h', e)" "list_at h' q xs" "agree_off (set (q # xs)) h h'" by blast
  have o: "set (q # e # xs) \<inter> nodes (L(q := None)) = {}" by (rule lists_others[OF assms])
  then have "disjoint_lists list_at h' (L(q \<mapsto> xs))"
    by (intro lists_update[OF assms(1) h'(3,2)]) auto
  moreover have "e \<notin> nodes (L(q \<mapsto> xs))"
    using o list_at_wf[OF l] unfolding nodes_upd by auto
  ultimately show ?thesis using h' agree_off_dom by blast
qed

lemma lists_is_empty:
  "disjoint_lists list_at h L \<Longrightarrow> L q = Some xs \<Longrightarrow> is_empty h q = Some (xs = [])"
  by (rule is_empty_law) (simp add: disjoint_lists_def)

lemma lists_new:
  assumes "disjoint_lists list_at h L" "q \<in> dom h" "q \<notin> nodes L"
  shows "\<exists>h'. init h q = Some h' \<and> disjoint_lists list_at h' (L(q \<mapsto> [])) \<and> dom h' = dom h"
proof -
  from init_law[OF assms(2)] obtain h' where
    h': "init h q = Some h'" "list_at h' q []" "agree_off {q} h h'" by blast
  have n: "nodes (L(q := None)) \<subseteq> nodes L"
    unfolding nodes_iff subset_iff by (metis fun_upd_apply option.discI)
  have "disjoint_lists list_at h' (L(q \<mapsto> []))"
    using assms(3) n by (intro lists_update[OF assms(1) h'(3,2)]) auto
  then show ?thesis using h' agree_off_dom by blast
qed

lemma lists_alloc:
  assumes "disjoint_lists list_at h L" "x \<notin> nodes L"
  shows "disjoint_lists list_at (h(x := e)) L"
proof -
  have "list_at (h(x := e)) q xs" if l: "L q = Some xs" for q xs
  proof (rule list_at_local)
    show "list_at h q xs" using assms(1) l unfolding disjoint_lists_def by blast
    fix y assume "y \<in> set (q # xs)"
    then have "y \<noteq> x" using nodes_sub[of L q xs, OF l] assms(2) by blast
    then show "(h(x := e)) y = h y" by simp
  qed
  then show ?thesis using assms(1) unfolding disjoint_lists_def by blast
qed

lemma insert_each_last:
  "list_at h p xs \<Longrightarrow> set es \<subseteq> dom h \<Longrightarrow> distinct es \<Longrightarrow> set es \<inter> set (p # xs) = {} \<Longrightarrow>
   \<exists>h'. insert_each insert_last h p es = Some h' \<and> list_at h' p (xs @ es) \<and> dom h' = dom h"
proof (induction es arbitrary: h xs)
  case Nil
  then show ?case by simp
next
  case (Cons e es)
  obtain h1 where h1: "insert_last h p e = Some h1" "list_at h1 p (xs @ [e])" "dom h1 = dom h"
    using insert_last_law[OF Cons.prems(1), of e] Cons.prems by (auto simp: agree_off_def)
  have "set es \<subseteq> dom h1" "distinct es" "set es \<inter> set (p # xs @ [e]) = {}"
    using Cons.prems h1(3) by auto
  from Cons.IH[OF h1(2) this] h1 show ?case by simp
qed

lemma insert_each_first:
  "list_at h p xs \<Longrightarrow> set es \<subseteq> dom h \<Longrightarrow> distinct es \<Longrightarrow> set es \<inter> set (p # xs) = {} \<Longrightarrow>
   \<exists>h'. insert_each insert_first h p es = Some h' \<and> list_at h' p (rev es @ xs) \<and> dom h' = dom h"
proof (induction es arbitrary: h xs)
  case Nil
  then show ?case by simp
next
  case (Cons e es)
  obtain h1 where h1: "insert_first h p e = Some h1" "list_at h1 p (e # xs)" "dom h1 = dom h"
    using insert_first_law[OF Cons.prems(1), of e] Cons.prems by (auto simp: agree_off_def)
  have "set es \<subseteq> dom h1" "distinct es" "set es \<inter> set (p # e # xs) = {}"
    using Cons.prems h1(3) by auto
  from Cons.IH[OF h1(2) this] h1 show ?case by simp
qed

lemma take_each_first:
  "list_at h p (xs @ ys) \<Longrightarrow>
   \<exists>h'. take_each remove_first h p (length xs) = Some (h', xs) \<and> list_at h' p ys \<and> dom h' = dom h"
proof (induction xs arbitrary: h)
  case Nil
  then show ?case by simp
next
  case (Cons e xs)
  then obtain h1 where h1: "remove_first h p = Some (h1, e)" "list_at h1 p (xs @ ys)" "dom h1 = dom h"
    using remove_first_law[of h p e "xs @ ys"] by (auto simp: agree_off_def)
  from Cons.IH[OF h1(2)] h1 show ?case by auto
qed

lemma take_each_last:
  "list_at h p (ys @ rev xs) \<Longrightarrow>
   \<exists>h'. take_each remove_last h p (length xs) = Some (h', xs) \<and> list_at h' p ys \<and> dom h' = dom h"
proof (induction xs arbitrary: h)
  case Nil
  then show ?case by simp
next
  case (Cons e xs)
  then obtain h1 where h1: "remove_last h p = Some (h1, e)" "list_at h1 p (ys @ rev xs)" "dom h1 = dom h"
    using remove_last_law[of h p "ys @ rev xs" e] by (auto simp: agree_off_def)
  from Cons.IH[OF h1(2)] h1 show ?case by auto
qed

lemma fifo:
  assumes "list_at h p []" "set es \<subseteq> dom h" "distinct es" "p \<notin> set es"
  shows "\<exists>h1 h2. insert_each insert_last h p es = Some h1
    \<and> take_each remove_first h1 p (length es) = Some (h2, es) \<and> list_at h2 p []"
proof -
  obtain h1 where "insert_each insert_last h p es = Some h1" "list_at h1 p es"
    using insert_each_last[OF assms(1-3)] assms(4) by auto
  then show ?thesis using take_each_first[of h1 p es "[]"] by auto
qed

lemma lifo:
  assumes "list_at h p []" "set es \<subseteq> dom h" "distinct es" "p \<notin> set es"
  shows "\<exists>h1 h2. insert_each insert_first h p es = Some h1
    \<and> take_each remove_first h1 p (length es) = Some (h2, rev es) \<and> list_at h2 p []"
proof -
  obtain h1 where "insert_each insert_first h p es = Some h1" "list_at h1 p (rev es)"
    using insert_each_first[OF assms(1-3)] assms(4) by auto
  then show ?thesis using take_each_first[of h1 p "rev es" "[]"] by auto
qed

lemma fifo_backwards:
  assumes "list_at h p []" "set es \<subseteq> dom h" "distinct es" "p \<notin> set es"
  shows "\<exists>h1 h2. insert_each insert_first h p es = Some h1
    \<and> take_each remove_last h1 p (length es) = Some (h2, es) \<and> list_at h2 p []"
proof -
  obtain h1 where "insert_each insert_first h p es = Some h1" "list_at h1 p (rev es)"
    using insert_each_first[OF assms(1-3)] assms(4) by auto
  then show ?thesis using take_each_last[of h1 p "[]" es] by auto
qed

end

end
