(* ===== verification/List_H.thy ===== *)
theory List_H
  imports Intrusive_List
begin

text \<open>
  \<open>list.h\<close> as used by the uthread library, the monitors and the thread pools
  (\<open>15-uthread-synch/uthreads/include/list.h\<close>; the copies under 17, 18 and 20 are the same
  file). A \<open>struct list_entry\<close> is a record of its two links, the memory of entries a partial
  map from addresses; a load or store at an address with no entry is \<open>None\<close>.
\<close>

record 'p list_entry =
  nxt :: 'p
  prv :: 'p

type_synonym 'p lmem = "'p \<rightharpoonup> 'p list_entry"

definition set_next :: "'p lmem \<Rightarrow> 'p \<Rightarrow> 'p \<Rightarrow> 'p lmem option" where
  "set_next h p v = do { e \<leftarrow> h p; Some (h(p \<mapsto> e\<lparr>nxt := v\<rparr>)) }"

definition set_prev :: "'p lmem \<Rightarrow> 'p \<Rightarrow> 'p \<Rightarrow> 'p lmem option" where
  "set_prev h p v = do { e \<leftarrow> h p; Some (h(p \<mapsto> e\<lparr>prv := v\<rparr>)) }"

section \<open>The operations\<close>

definition init_list_head :: "'p lmem \<Rightarrow> 'p \<Rightarrow> 'p lmem option" where
  "init_list_head h listhead = do {
     h1 \<leftarrow> set_prev h listhead listhead;
     set_next h1 listhead listhead }"

definition is_list_empty :: "'p lmem \<Rightarrow> 'p \<Rightarrow> bool option" where
  "is_list_empty h listhead = do { e \<leftarrow> h listhead; Some (nxt e = listhead) }"

definition remove_list_entry :: "'p lmem \<Rightarrow> 'p \<Rightarrow> ('p lmem \<times> bool) option" where
  "remove_list_entry h entry = do {
     e \<leftarrow> h entry;
     let next = nxt e;
     let prev = prv e;
     h1 \<leftarrow> set_next h prev next;
     h2 \<leftarrow> set_prev h1 next prev;
     Some (h2, next = prev) }"

definition remove_list_first :: "'p lmem \<Rightarrow> 'p \<Rightarrow> ('p lmem \<times> 'p) option" where
  "remove_list_first h listhead = do {
     e \<leftarrow> h listhead;
     let entry = nxt e;
     (h1, _) \<leftarrow> remove_list_entry h entry;
     Some (h1, entry) }"

definition remove_list_last :: "'p lmem \<Rightarrow> 'p \<Rightarrow> ('p lmem \<times> 'p) option" where
  "remove_list_last h listhead = do {
     e \<leftarrow> h listhead;
     let entry = prv e;
     (h1, _) \<leftarrow> remove_list_entry h entry;
     Some (h1, entry) }"

definition insert_list_after :: "'p lmem \<Rightarrow> 'p \<Rightarrow> 'p \<Rightarrow> 'p lmem option" where
  "insert_list_after h ref_entry new_entry = do {
     e \<leftarrow> h ref_entry;
     let prev = ref_entry;
     let next = nxt e;
     h1 \<leftarrow> set_prev h new_entry prev;
     h2 \<leftarrow> set_next h1 new_entry next;
     h3 \<leftarrow> set_next h2 prev new_entry;
     set_prev h3 next new_entry }"

definition insert_list_last :: "'p lmem \<Rightarrow> 'p \<Rightarrow> 'p \<Rightarrow> 'p lmem option" where
  "insert_list_last h listhead entry = do {
     e \<leftarrow> h listhead;
     insert_list_after h (prv e) entry }"

definition insert_list_first :: "'p lmem \<Rightarrow> 'p \<Rightarrow> 'p \<Rightarrow> 'p lmem option" where
  "insert_list_first h listhead entry = insert_list_after h listhead entry"

section \<open>The representation and the effect of each store\<close>

definition nexts :: "'p lmem \<Rightarrow> ('p \<rightharpoonup> 'p)" where
  "nexts h = (\<lambda>p. map_option nxt (h p))"

definition prevs :: "'p lmem \<Rightarrow> ('p \<rightharpoonup> 'p)" where
  "prevs h = (\<lambda>p. map_option prv (h p))"

definition dlist :: "'p lmem \<Rightarrow> 'p \<Rightarrow> 'p list \<Rightarrow> bool" where
  "dlist h listhead xs \<longleftrightarrow> dring (nexts h) (prevs h) listhead xs"

lemma dom_links [simp]: "dom (nexts h) = dom h" "dom (prevs h) = dom h"
  by (auto simp: nexts_def prevs_def)

lemma links_at: "h p = Some e \<Longrightarrow> nexts h p = Some (nxt e) \<and> prevs h p = Some (prv e)"
  by (simp add: nexts_def prevs_def)

lemma nextsD: "nexts h p = Some n \<Longrightarrow> \<exists>e. h p = Some e \<and> nxt e = n"
  by (auto simp: nexts_def)

lemma prevsD: "prevs h p = Some n \<Longrightarrow> \<exists>e. h p = Some e \<and> prv e = n"
  by (auto simp: prevs_def)

lemma set_next_ok: "p \<in> dom h \<Longrightarrow> \<exists>h'. set_next h p v = Some h' \<and> nexts h' = (nexts h)(p \<mapsto> v)
    \<and> prevs h' = prevs h \<and> agree_off {p} h h'"
proof -
  assume "p \<in> dom h"
  then obtain e where "h p = Some e" by blast
  then show ?thesis
    by (intro exI[of _ "h(p \<mapsto> e\<lparr>nxt := v\<rparr>)"])
       (auto simp: set_next_def nexts_def prevs_def agree_off_def fun_eq_iff)
qed

lemma set_prev_ok: "p \<in> dom h \<Longrightarrow> \<exists>h'. set_prev h p v = Some h' \<and> nexts h' = nexts h
    \<and> prevs h' = (prevs h)(p \<mapsto> v) \<and> agree_off {p} h h'"
proof -
  assume "p \<in> dom h"
  then obtain e where "h p = Some e" by blast
  then show ?thesis
    by (intro exI[of _ "h(p \<mapsto> e\<lparr>prv := v\<rparr>)"])
       (auto simp: set_prev_def nexts_def prevs_def agree_off_def fun_eq_iff)
qed

lemma dlist_wf: "dlist h p xs \<Longrightarrow> distinct (p # xs) \<and> set (p # xs) \<subseteq> dom h"
  using ring_mem_links[of "nexts h" "prevs h" p xs] ring_distinct[of "nexts h" "prevs h" p xs]
  unfolding dlist_def dom_links by blast

lemma dlist_local:
  assumes "dlist h p xs" "\<And>x. x \<in> set (p # xs) \<Longrightarrow> h' x = h x"
  shows "dlist h' p xs"
proof -
  have "x \<in> set (p # xs) \<Longrightarrow> nexts h' x = nexts h x \<and> prevs h' x = prevs h x" for x
    using assms(2) by (simp add: nexts_def prevs_def)
  from ring_cong[of p xs "nexts h'" "nexts h" "prevs h'" "prevs h", OF this]
  show ?thesis using assms(1) unfolding dlist_def by blast
qed

section \<open>The operations on a well-formed list\<close>

lemma init_list_head_ok:
  assumes "p \<in> dom h"
  shows "\<exists>h'. init_list_head h p = Some h' \<and> dlist h' p [] \<and> agree_off {p} h h'"
proof -
  obtain h1 where h1: "set_prev h p p = Some h1" "nexts h1 = nexts h"
    "prevs h1 = (prevs h)(p \<mapsto> p)" "agree_off {p} h h1"
    using set_prev_ok[OF assms] by blast
  then obtain h2 where "set_next h1 p p = Some h2" "nexts h2 = (nexts h1)(p \<mapsto> p)"
    "prevs h2 = prevs h1" "agree_off {p} h1 h2"
    using set_next_ok[of p h1 p] assms by (metis agree_off_dom)
  with h1 show ?thesis
    using agree_off_trans[of "{p}" h h1 "{p}" h2] by (simp add: init_list_head_def dlist_def)
qed

lemma is_list_empty_ok: "dlist h p xs \<Longrightarrow> is_list_empty h p = Some (xs = [])"
proof -
  assume d: "dlist h p xs"
  then have "nexts h p = Some (first_or p xs)"
    unfolding dlist_def by (rule ring_head_links)
  moreover have "(first_or p xs = p) = (xs = [])"
    using dlist_wf[OF d] by (cases xs) auto
  ultimately show ?thesis by (auto simp: is_list_empty_def dest!: nextsD)
qed

lemma remove_list_entry_ok:
  assumes "dlist h p (as @ e # bs)"
  shows "\<exists>h'. remove_list_entry h e = Some (h', as @ bs = []) \<and> dlist h' p (as @ bs)
    \<and> agree_off (set (p # as @ bs)) h h'"
proof -
  let ?n = "first_or p bs" and ?q = "last_or p as"
  have d: "dring (nexts h) (prevs h) p (as @ e # bs)" using assms by (simp add: dlist_def)
  note wf = dlist_wf[OF assms]
  have mem: "?n \<in> set (p # as @ bs)" "?q \<in> set (p # as @ bs)"
    by (cases bs; simp) (cases as rule: rev_cases; simp)
  have dom: "?n \<in> dom h" "?q \<in> dom h" using wf mem by (auto simp del: last.simps)
  from ring_links[OF d] have "nexts h e = Some ?n" "prevs h e = Some ?q" by blast+
  then obtain r where r: "h e = Some r" "nxt r = ?n" "prv r = ?q"
    by (metis nextsD prevsD option.inject)
  obtain h1 where h1: "set_next h ?q ?n = Some h1" "nexts h1 = (nexts h)(?q \<mapsto> ?n)"
    "prevs h1 = prevs h" "agree_off {?q} h h1"
    using set_next_ok[OF dom(2)] by blast
  then obtain h2 where h2: "set_prev h1 ?n ?q = Some h2" "nexts h2 = nexts h1"
    "prevs h2 = (prevs h1)(?n \<mapsto> ?q)" "agree_off {?n} h1 h2"
    using set_prev_ok[of ?n h1 ?q] dom(1) by (metis agree_off_dom)
  have "dlist h2 p (as @ bs)"
    using ring_remove[OF d] h1 h2 by (simp add: dlist_def)
  moreover have "(?n = ?q) = (as @ bs = [])" using wf by (cases bs) auto
  moreover have "agree_off (set (p # as @ bs)) h h2"
    by (rule agree_off_mono[OF agree_off_trans[OF h1(4) h2(4)]]) (use mem in auto)
  ultimately show ?thesis using r h1 h2 by (simp add: remove_list_entry_def)
qed

lemma insert_list_after_ok:
  assumes "e \<in> dom h" "q \<in> dom h" "nexts h q = Some n" "n \<in> dom h" "e \<noteq> q"
  shows "\<exists>h'. insert_list_after h q e = Some h' \<and> nexts h' = (nexts h)(e \<mapsto> n, q \<mapsto> e)
    \<and> prevs h' = (prevs h)(e \<mapsto> q, n \<mapsto> e) \<and> agree_off {e, q, n} h h'"
proof -
  obtain r where r: "h q = Some r" "nxt r = n" using assms(3) nextsD by metis
  obtain h1 where h1: "set_prev h e q = Some h1" "nexts h1 = nexts h"
    "prevs h1 = (prevs h)(e \<mapsto> q)" "agree_off {e} h h1"
    using set_prev_ok[OF assms(1)] by blast
  then obtain h2 where h2: "set_next h1 e n = Some h2" "nexts h2 = (nexts h1)(e \<mapsto> n)"
    "prevs h2 = prevs h1" "agree_off {e} h1 h2"
    using set_next_ok[of e h1 n] assms by (metis agree_off_dom)
  then obtain h3 where h3: "set_next h2 q e = Some h3" "nexts h3 = (nexts h2)(q \<mapsto> e)"
    "prevs h3 = prevs h2" "agree_off {q} h2 h3"
    using set_next_ok[of q h2 e] assms h1 by (metis agree_off_dom)
  then obtain h4 where h4: "set_prev h3 n e = Some h4" "nexts h4 = nexts h3"
    "prevs h4 = (prevs h3)(n \<mapsto> e)" "agree_off {n} h3 h4"
    using set_prev_ok[of n h3 e] assms h1 h2 by (metis agree_off_dom)
  have "agree_off {e, q, n} h h4"
    by (rule agree_off_mono[OF agree_off_trans[OF h1(4) agree_off_trans[OF h2(4)
      agree_off_trans[OF h3(4) h4(4)]]]]) auto
  then show ?thesis using r h1 h2 h3 h4 by (simp add: insert_list_after_def)
qed

lemma insert_list_last_ok:
  assumes "dlist h p xs" "e \<in> dom h" "e \<notin> set (p # xs)"
  shows "\<exists>h'. insert_list_last h p e = Some h' \<and> dlist h' p (xs @ [e])
    \<and> agree_off (set (p # e # xs)) h h'"
proof -
  have d: "dring (nexts h) (prevs h) p xs" using assms(1) by (simp add: dlist_def)
  let ?q = "last_or p xs"
  have q: "nexts h ?q = Some p"
    using ring_head_links[OF d] ring_links[of "nexts h" "prevs h" p "butlast xs" "last xs" "[]"] d
    by (cases "xs = []") (simp_all add: append_butlast_last_id)
  have mem: "?q \<in> set (p # xs)" by simp
  obtain h' where h': "insert_list_after h ?q e = Some h'"
      "nexts h' = (nexts h)(e \<mapsto> p, ?q \<mapsto> e)" "prevs h' = (prevs h)(e \<mapsto> ?q, p \<mapsto> e)"
      "agree_off {e, ?q, p} h h'"
    using insert_list_after_ok[of e h ?q p] q assms(2,3) dlist_wf[OF assms(1)] mem
    by (metis list.set_intros(1) subsetD)
  have "dlist h' p (xs @ [e])"
    using ring_insert_last[OF d assms(3)] h' by (simp add: dlist_def)
  moreover obtain r where "h p = Some r" "prv r = ?q"
    using ring_head_links(2)[OF d] prevsD by metis
  moreover have "agree_off (set (p # e # xs)) h h'"
    by (rule agree_off_mono[OF h'(4)]) (use mem in auto)
  ultimately show ?thesis using h' by (simp add: insert_list_last_def)
qed

lemma insert_list_first_ok:
  assumes "dlist h p xs" "e \<in> dom h" "e \<notin> set (p # xs)"
  shows "\<exists>h'. insert_list_first h p e = Some h' \<and> dlist h' p (e # xs)
    \<and> agree_off (set (p # e # xs)) h h'"
proof -
  have d: "dring (nexts h) (prevs h) p xs" using assms(1) by (simp add: dlist_def)
  let ?n = "first_or p xs"
  have mem: "?n \<in> set (p # xs)" by (cases xs) auto
  obtain h' where h': "insert_list_after h p e = Some h'"
      "nexts h' = (nexts h)(e \<mapsto> ?n, p \<mapsto> e)" "prevs h' = (prevs h)(e \<mapsto> p, ?n \<mapsto> e)"
      "agree_off {e, p, ?n} h h'"
    using insert_list_after_ok[of e h p ?n] ring_head_links(1)[OF d] assms(2,3)
      dlist_wf[OF assms(1)] mem by (metis list.set_intros(1) subsetD)
  have "dlist h' p (e # xs)"
    using ring_insert_first[OF d assms(3)] h' by (simp add: dlist_def)
  moreover have "agree_off (set (p # e # xs)) h h'"
    by (rule agree_off_mono[OF h'(4)]) (use mem in auto)
  ultimately show ?thesis using h' by (simp add: insert_list_first_def)
qed

lemma remove_list_first_ok:
  assumes "dlist h p (e # xs)"
  shows "\<exists>h'. remove_list_first h p = Some (h', e) \<and> dlist h' p xs \<and> agree_off (set (p # xs)) h h'"
proof -
  have "nexts h p = Some e"
    using assms ring_head_links(1)[of "nexts h" "prevs h" p "e # xs"] by (simp add: dlist_def)
  then obtain r where r: "h p = Some r" "nxt r = e" using nextsD by metis
  then show ?thesis
    using remove_list_entry_ok[of h p "[]" e xs] assms by (auto simp: remove_list_first_def)
qed

lemma remove_list_last_ok:
  assumes "dlist h p (xs @ [e])"
  shows "\<exists>h'. remove_list_last h p = Some (h', e) \<and> dlist h' p xs \<and> agree_off (set (p # xs)) h h'"
proof -
  have "prevs h p = Some e"
    using assms ring_head_links(2)[of "nexts h" "prevs h" p "xs @ [e]"] by (simp add: dlist_def)
  then obtain r where r: "h p = Some r" "prv r = e" using prevsD by metis
  then show ?thesis
    using remove_list_entry_ok[of h p xs e "[]"] assms by (auto simp: remove_list_last_def)
qed

interpretation lh: intrusive_list init_list_head is_list_empty remove_list_entry
  remove_list_first remove_list_last insert_list_first insert_list_last dlist
  by unfold_locales
    (fact dlist_wf dlist_local init_list_head_ok is_list_empty_ok remove_list_entry_ok
      remove_list_first_ok remove_list_last_ok insert_list_first_ok insert_list_last_ok)+

end
