(* ===== verification/List14_H.thy ===== *)
theory List14_H
  imports Intrusive_List
begin

text \<open>
  The earlier \<open>list.h\<close> of \<open>14-uthread-scheduling\<close>: the same circular list with fields
  \<open>flink\<close> and \<open>blink\<close>, where each operation writes its own four links instead of going
  through \<open>insert_list_after\<close> or \<open>remove_list_entry\<close>. It meets the same contract.
\<close>

record 'p link_entry =
  flink :: 'p
  blink :: 'p

type_synonym 'p fmem = "'p \<rightharpoonup> 'p link_entry"

definition set_flink :: "'p fmem \<Rightarrow> 'p \<Rightarrow> 'p \<Rightarrow> 'p fmem option" where
  "set_flink h p v = do { e \<leftarrow> h p; Some (h(p \<mapsto> e\<lparr>flink := v\<rparr>)) }"

definition set_blink :: "'p fmem \<Rightarrow> 'p \<Rightarrow> 'p \<Rightarrow> 'p fmem option" where
  "set_blink h p v = do { e \<leftarrow> h p; Some (h(p \<mapsto> e\<lparr>blink := v\<rparr>)) }"

section \<open>The operations\<close>

definition init_list_head_14 :: "'p fmem \<Rightarrow> 'p \<Rightarrow> 'p fmem option" where
  "init_list_head_14 h listhead = do {
     h1 \<leftarrow> set_blink h listhead listhead;
     set_flink h1 listhead listhead }"

definition is_list_empty_14 :: "'p fmem \<Rightarrow> 'p \<Rightarrow> bool option" where
  "is_list_empty_14 h listhead = do { e \<leftarrow> h listhead; Some (flink e = listhead) }"

definition remove_entry_list :: "'p fmem \<Rightarrow> 'p \<Rightarrow> ('p fmem \<times> bool) option" where
  "remove_entry_list h entry = do {
     e \<leftarrow> h entry;
     let fl = flink e;
     let bl = blink e;
     h1 \<leftarrow> set_flink h bl fl;
     h2 \<leftarrow> set_blink h1 fl bl;
     Some (h2, fl = bl) }"

definition remove_head_list :: "'p fmem \<Rightarrow> 'p \<Rightarrow> ('p fmem \<times> 'p) option" where
  "remove_head_list h listhead = do {
     r \<leftarrow> h listhead;
     let entry = flink r;
     e \<leftarrow> h entry;
     let fl = flink e;
     h1 \<leftarrow> set_flink h listhead fl;
     h2 \<leftarrow> set_blink h1 fl listhead;
     Some (h2, entry) }"

definition remove_tail_list :: "'p fmem \<Rightarrow> 'p \<Rightarrow> ('p fmem \<times> 'p) option" where
  "remove_tail_list h listhead = do {
     r \<leftarrow> h listhead;
     let entry = blink r;
     e \<leftarrow> h entry;
     let bl = blink e;
     h1 \<leftarrow> set_blink h listhead bl;
     h2 \<leftarrow> set_flink h1 bl listhead;
     Some (h2, entry) }"

definition insert_tail_list :: "'p fmem \<Rightarrow> 'p \<Rightarrow> 'p \<Rightarrow> 'p fmem option" where
  "insert_tail_list h listhead entry = do {
     r \<leftarrow> h listhead;
     let bl = blink r;
     h1 \<leftarrow> set_flink h entry listhead;
     h2 \<leftarrow> set_blink h1 entry bl;
     h3 \<leftarrow> set_flink h2 bl entry;
     set_blink h3 listhead entry }"

definition insert_head_list :: "'p fmem \<Rightarrow> 'p \<Rightarrow> 'p \<Rightarrow> 'p fmem option" where
  "insert_head_list h listhead entry = do {
     r \<leftarrow> h listhead;
     let fl = flink r;
     h1 \<leftarrow> set_flink h entry fl;
     h2 \<leftarrow> set_blink h1 entry listhead;
     h3 \<leftarrow> set_blink h2 fl entry;
     set_flink h3 listhead entry }"

section \<open>The representation and the effect of each store\<close>

definition flinks :: "'p fmem \<Rightarrow> ('p \<rightharpoonup> 'p)" where
  "flinks h = (\<lambda>p. map_option flink (h p))"

definition blinks :: "'p fmem \<Rightarrow> ('p \<rightharpoonup> 'p)" where
  "blinks h = (\<lambda>p. map_option blink (h p))"

definition flist :: "'p fmem \<Rightarrow> 'p \<Rightarrow> 'p list \<Rightarrow> bool" where
  "flist h listhead xs \<longleftrightarrow> dring (flinks h) (blinks h) listhead xs"

lemma dom_flinks [simp]: "dom (flinks h) = dom h" "dom (blinks h) = dom h"
  by (auto simp: flinks_def blinks_def)

lemma flinksD: "flinks h p = Some n \<Longrightarrow> \<exists>e. h p = Some e \<and> flink e = n"
  by (auto simp: flinks_def)

lemma blinksD: "blinks h p = Some n \<Longrightarrow> \<exists>e. h p = Some e \<and> blink e = n"
  by (auto simp: blinks_def)

lemma set_flink_ok:
  assumes "p \<in> dom h"
  shows "\<exists>h'. set_flink h p v = Some h' \<and> flinks h' = (flinks h)(p \<mapsto> v)
    \<and> blinks h' = blinks h \<and> agree_off {p} h h'"
proof -
  from assms obtain e where "h p = Some e" by blast
  then show ?thesis
    by (intro exI[of _ "h(p \<mapsto> e\<lparr>flink := v\<rparr>)"])
       (auto simp: set_flink_def flinks_def blinks_def agree_off_def fun_eq_iff)
qed

lemma set_blink_ok:
  assumes "p \<in> dom h"
  shows "\<exists>h'. set_blink h p v = Some h' \<and> flinks h' = flinks h
    \<and> blinks h' = (blinks h)(p \<mapsto> v) \<and> agree_off {p} h h'"
proof -
  from assms obtain e where "h p = Some e" by blast
  then show ?thesis
    by (intro exI[of _ "h(p \<mapsto> e\<lparr>blink := v\<rparr>)"])
       (auto simp: set_blink_def flinks_def blinks_def agree_off_def fun_eq_iff)
qed

lemma flist_wf: "flist h p xs \<Longrightarrow> distinct (p # xs) \<and> set (p # xs) \<subseteq> dom h"
  using ring_mem_links[of "flinks h" "blinks h" p xs] ring_distinct[of "flinks h" "blinks h" p xs]
  unfolding flist_def dom_flinks by blast

lemma flist_local:
  assumes "flist h p xs" "\<And>x. x \<in> set (p # xs) \<Longrightarrow> h' x = h x"
  shows "flist h' p xs"
proof -
  have "x \<in> set (p # xs) \<Longrightarrow> flinks h' x = flinks h x \<and> blinks h' x = blinks h x" for x
    using assms(2) by (simp add: flinks_def blinks_def)
  from ring_cong[of p xs "flinks h'" "flinks h" "blinks h'" "blinks h", OF this]
  show ?thesis using assms(1) unfolding flist_def by blast
qed

text \<open>Two link stores in a row, in the order in which each operation makes them.\<close>

lemma set_flink_blink:
  assumes "p \<in> dom h" "q \<in> dom h"
  shows "\<exists>h1 h2. set_flink h p v = Some h1 \<and> set_blink h1 q w = Some h2
    \<and> flinks h2 = (flinks h)(p \<mapsto> v) \<and> blinks h2 = (blinks h)(q \<mapsto> w) \<and> agree_off {p, q} h h2"
proof -
  obtain h1 where h1: "set_flink h p v = Some h1" "flinks h1 = (flinks h)(p \<mapsto> v)"
    "blinks h1 = blinks h" "agree_off {p} h h1" using set_flink_ok[OF assms(1)] by blast
  then obtain h2 where h2: "set_blink h1 q w = Some h2" "flinks h2 = flinks h1"
    "blinks h2 = (blinks h1)(q \<mapsto> w)" "agree_off {q} h1 h2"
    using set_blink_ok[of q h1 w] assms(2) by (metis agree_off_dom)
  show ?thesis using h1 h2 agree_off_trans[OF h1(4) h2(4)] by (simp add: insert_commute)
qed

lemma set_blink_flink:
  assumes "p \<in> dom h" "q \<in> dom h"
  shows "\<exists>h1 h2. set_blink h p v = Some h1 \<and> set_flink h1 q w = Some h2
    \<and> blinks h2 = (blinks h)(p \<mapsto> v) \<and> flinks h2 = (flinks h)(q \<mapsto> w) \<and> agree_off {p, q} h h2"
proof -
  obtain h1 where h1: "set_blink h p v = Some h1" "flinks h1 = flinks h"
    "blinks h1 = (blinks h)(p \<mapsto> v)" "agree_off {p} h h1" using set_blink_ok[OF assms(1)] by blast
  then obtain h2 where h2: "set_flink h1 q w = Some h2" "blinks h2 = blinks h1"
    "flinks h2 = (flinks h1)(q \<mapsto> w)" "agree_off {q} h1 h2"
    using set_flink_ok[of q h1 w] assms(2) by (metis agree_off_dom)
  show ?thesis using h1 h2 agree_off_trans[OF h1(4) h2(4)] by (simp add: insert_commute)
qed

section \<open>The operations on a well-formed list\<close>

lemma init_list_head_14_ok:
  assumes "p \<in> dom h"
  shows "\<exists>h'. init_list_head_14 h p = Some h' \<and> flist h' p [] \<and> agree_off {p} h h'"
  using set_blink_flink[OF assms assms, of p p]
  by (auto simp: init_list_head_14_def flist_def)

lemma flist_links:
  assumes "flist h p (as @ e # bs)"
  shows "\<exists>r. h e = Some r \<and> flink r = first_or p bs \<and> blink r = last_or p as"
proof -
  have "dring (flinks h) (blinks h) p (as @ e # bs)" using assms by (simp add: flist_def)
  from ring_links[OF this] show ?thesis by (metis flinksD blinksD option.inject)
qed

lemma flist_head_links:
  assumes "flist h p xs"
  shows "\<exists>r. h p = Some r \<and> flink r = first_or p xs \<and> blink r = last_or p xs"
proof -
  have "dring (flinks h) (blinks h) p xs" using assms by (simp add: flist_def)
  from ring_head_links[OF this] show ?thesis by (metis flinksD blinksD option.inject)
qed

lemma is_list_empty_14_ok: "flist h p xs \<Longrightarrow> is_list_empty_14 h p = Some (xs = [])"
  using flist_head_links[of h p xs] flist_wf[of h p xs]
  by (cases xs) (auto simp: is_list_empty_14_def)

lemma flist_bounds:
  assumes "flist h p (as @ e # bs)"
  shows "first_or p bs \<in> dom h" "last_or p as \<in> dom h"
    and "first_or p bs \<in> set (p # as @ bs)" "last_or p as \<in> set (p # as @ bs)"
    and "(first_or p bs = last_or p as) = (as @ bs = [])"
proof -
  note wf = flist_wf[OF assms]
  show mem: "first_or p bs \<in> set (p # as @ bs)" "last_or p as \<in> set (p # as @ bs)"
    by (cases bs; simp) (cases as rule: rev_cases; simp)
  show "first_or p bs \<in> dom h" "last_or p as \<in> dom h"
    using mem wf by (auto simp del: last.simps)
  show "(first_or p bs = last_or p as) = (as @ bs = [])" using wf by (cases bs) auto
qed

lemma remove_entry_list_ok:
  assumes "flist h p (as @ e # bs)"
  shows "\<exists>h'. remove_entry_list h e = Some (h', as @ bs = []) \<and> flist h' p (as @ bs)
    \<and> agree_off (set (p # as @ bs)) h h'"
proof -
  have d: "dring (flinks h) (blinks h) p (as @ e # bs)" using assms by (simp add: flist_def)
  note b = flist_bounds[OF assms]
  obtain r where r: "h e = Some r" "flink r = first_or p bs" "blink r = last_or p as"
    using flist_links[OF assms] by blast
  obtain h1 h2 where h: "set_flink h (last_or p as) (first_or p bs) = Some h1"
    "set_blink h1 (first_or p bs) (last_or p as) = Some h2"
    "flinks h2 = (flinks h)(last_or p as \<mapsto> first_or p bs)"
    "blinks h2 = (blinks h)(first_or p bs \<mapsto> last_or p as)"
    "agree_off {last_or p as, first_or p bs} h h2"
    using set_flink_blink[OF b(2,1)] by blast
  have "flist h2 p (as @ bs)" using ring_remove[OF d] h by (simp add: flist_def)
  moreover have "agree_off (set (p # as @ bs)) h h2"
    by (rule agree_off_mono[OF h(5)]) (use b in auto)
  ultimately show ?thesis using r h b(5) by (simp add: remove_entry_list_def)
qed

lemma remove_head_list_ok:
  assumes "flist h p (e # xs)"
  shows "\<exists>h'. remove_head_list h p = Some (h', e) \<and> flist h' p xs \<and> agree_off (set (p # xs)) h h'"
proof -
  have a: "flist h p ([] @ e # xs)" using assms by simp
  then have d: "dring (flinks h) (blinks h) p ([] @ e # xs)" by (simp add: flist_def)
  note b = flist_bounds[OF a, simplified]
  obtain r s where r: "h p = Some s" "flink s = e" "h e = Some r" "flink r = first_or p xs"
    using flist_links[OF a] flist_head_links[OF assms] by auto
  obtain h1 h2 where h: "set_flink h p (first_or p xs) = Some h1"
    "set_blink h1 (first_or p xs) p = Some h2"
    "flinks h2 = (flinks h)(p \<mapsto> first_or p xs)"
    "blinks h2 = (blinks h)(first_or p xs \<mapsto> p)" "agree_off {p, first_or p xs} h h2"
    using set_flink_blink[of p h "first_or p xs"] b by blast
  have "flist h2 p xs" using ring_remove[OF d] h by (simp add: flist_def)
  moreover have "agree_off (set (p # xs)) h h2"
    by (rule agree_off_mono[OF h(5)]) (use b in auto)
  ultimately show ?thesis using r h by (simp add: remove_head_list_def)
qed

lemma remove_tail_list_ok:
  assumes "flist h p (xs @ [e])"
  shows "\<exists>h'. remove_tail_list h p = Some (h', e) \<and> flist h' p xs \<and> agree_off (set (p # xs)) h h'"
proof -
  have d: "dring (flinks h) (blinks h) p (xs @ e # [])" using assms by (simp add: flist_def)
  have b: "last_or p xs \<in> dom h" "last_or p xs \<in> set (p # xs)" "p \<in> dom h"
    using flist_bounds[of h p xs e "[]"] assms flist_wf[OF assms] by auto
  obtain r s where r: "h p = Some s" "blink s = e" "h e = Some r" "blink r = last_or p xs"
    using flist_links[of h p xs e "[]"] flist_head_links[OF assms] assms by auto
  obtain h1 h2 where h: "set_blink h p (last_or p xs) = Some h1"
    "set_flink h1 (last_or p xs) p = Some h2"
    "flinks h2 = (flinks h)(last_or p xs \<mapsto> p)"
    "blinks h2 = (blinks h)(p \<mapsto> last_or p xs)" "agree_off {p, last_or p xs} h h2"
    using set_blink_flink[of p h "last_or p xs"] b by blast
  have "flist h2 p xs" using ring_remove[OF d] h by (simp add: flist_def)
  moreover have "agree_off (set (p # xs)) h h2"
    by (rule agree_off_mono[OF h(5)]) (use b in auto)
  ultimately show ?thesis using r h by (simp add: remove_tail_list_def)
qed

lemma insert_tail_list_ok:
  assumes "flist h p xs" "e \<in> dom h" "e \<notin> set (p # xs)"
  shows "\<exists>h'. insert_tail_list h p e = Some h' \<and> flist h' p (xs @ [e])
    \<and> agree_off (set (p # e # xs)) h h'"
proof -
  have d: "dring (flinks h) (blinks h) p xs" using assms(1) by (simp add: flist_def)
  let ?q = "last_or p xs"
  obtain r where r: "h p = Some r" "blink r = ?q" using flist_head_links[OF assms(1)] by blast
  have mem: "?q \<in> set (p # xs)" by (cases xs rule: rev_cases) auto
  have dom: "p \<in> dom h" "?q \<in> dom h" using flist_wf[OF assms(1)] mem by auto
  obtain h1 h2 where h: "set_flink h e p = Some h1" "set_blink h1 e ?q = Some h2"
    "flinks h2 = (flinks h)(e \<mapsto> p)" "blinks h2 = (blinks h)(e \<mapsto> ?q)" "agree_off {e, e} h h2"
    using set_flink_blink[OF assms(2,2)] by blast
  then obtain h3 h4 where g: "set_flink h2 ?q e = Some h3" "set_blink h3 p e = Some h4"
    "flinks h4 = (flinks h2)(?q \<mapsto> e)" "blinks h4 = (blinks h2)(p \<mapsto> e)" "agree_off {?q, p} h2 h4"
    using set_flink_blink[of ?q h2 p e e] dom by (metis agree_off_dom)
  have "flist h4 p (xs @ [e])" using ring_insert_last[OF d assms(3)] h g by (simp add: flist_def)
  moreover have "agree_off (set (p # e # xs)) h h4"
    by (rule agree_off_mono[OF agree_off_trans[OF h(5) g(5)]]) (use mem in auto)
  ultimately show ?thesis using r h g by (simp add: insert_tail_list_def)
qed

lemma insert_head_list_ok:
  assumes "flist h p xs" "e \<in> dom h" "e \<notin> set (p # xs)"
  shows "\<exists>h'. insert_head_list h p e = Some h' \<and> flist h' p (e # xs)
    \<and> agree_off (set (p # e # xs)) h h'"
proof -
  have d: "dring (flinks h) (blinks h) p xs" using assms(1) by (simp add: flist_def)
  let ?n = "first_or p xs"
  obtain r where r: "h p = Some r" "flink r = ?n" using flist_head_links[OF assms(1)] by blast
  have mem: "?n \<in> set (p # xs)" by (cases xs) auto
  have dom: "p \<in> dom h" "?n \<in> dom h" using flist_wf[OF assms(1)] mem by auto
  obtain h1 h2 where h: "set_flink h e ?n = Some h1" "set_blink h1 e p = Some h2"
    "flinks h2 = (flinks h)(e \<mapsto> ?n)" "blinks h2 = (blinks h)(e \<mapsto> p)" "agree_off {e, e} h h2"
    using set_flink_blink[OF assms(2,2)] by blast
  then obtain h3 h4 where g: "set_blink h2 ?n e = Some h3" "set_flink h3 p e = Some h4"
    "blinks h4 = (blinks h2)(?n \<mapsto> e)" "flinks h4 = (flinks h2)(p \<mapsto> e)" "agree_off {?n, p} h2 h4"
    using set_blink_flink[of ?n h2 p e e] dom by (metis agree_off_dom)
  have "flist h4 p (e # xs)" using ring_insert_first[OF d assms(3)] h g by (simp add: flist_def)
  moreover have "agree_off (set (p # e # xs)) h h4"
    by (rule agree_off_mono[OF agree_off_trans[OF h(5) g(5)]]) (use mem in auto)
  ultimately show ?thesis using r h g by (simp add: insert_head_list_def)
qed

interpretation lf: intrusive_list init_list_head_14 is_list_empty_14 remove_entry_list
  remove_head_list remove_tail_list insert_head_list insert_tail_list flist
  by unfold_locales
    (fact flist_wf flist_local init_list_head_14_ok is_list_empty_14_ok remove_entry_list_ok
      remove_head_list_ok remove_tail_list_ok insert_head_list_ok insert_tail_list_ok)+

end
