(* ===== verification/List_Props.thy ===== *)
theory List_Props
  imports List_H List14_H
begin

text \<open>
  The lists of both \<open>list.h\<close> files as their users see them, obtained from the interpretations
  \<open>lh\<close> and \<open>lf\<close> of the list contract: a queue, a stack, and removal from the middle.
\<close>

text \<open>C33: From \<open>init_list_head\<close> on, inserting entries at the end and removing from the front
  returns them in insertion order and leaves the list empty, for any number of entries in
  distinct allocated memory.\<close>

theorem list_is_fifo:
  assumes "p \<in> dom h" "set es \<subseteq> dom h" "distinct (p # es)"
  shows "\<exists>h0 h1 h2. init_list_head h p = Some h0 \<and> insert_each insert_list_last h0 p es = Some h1
    \<and> take_each remove_list_first h1 p (length es) = Some (h2, es) \<and> is_list_empty h2 p = Some True"
proof -
  from lh.init_law[OF assms(1)] obtain h0 where
    h0: "init_list_head h p = Some h0" "dlist h0 p []" "dom h0 = dom h" by (auto simp: agree_off_def)
  from lh.fifo[OF h0(2), of es] h0(3) assms(2,3) obtain h1 h2 where
    "insert_each insert_list_last h0 p es = Some h1"
    "take_each remove_list_first h1 p (length es) = Some (h2, es)" "dlist h2 p []" by auto
  with h0(1) lh.is_empty_law[of h2 p "[]"] show ?thesis by auto
qed

definition demo_links :: "nat lmem" where
  "demo_links = (\<lambda>x. if x < 10 then Some \<lparr>nxt = 0, prv = 0\<rparr> else None)"

lemma demo_links_dom [simp]: "x \<in> dom demo_links \<longleftrightarrow> x < 10"
  by (auto simp: demo_links_def split: if_splits)

lemma list_is_fifo_witness:
  "\<exists>h0 h1 h2. init_list_head demo_links 1 = Some h0 \<and> insert_each insert_list_last h0 1 [5, 2, 7] = Some h1
    \<and> take_each remove_list_first h1 1 3 = Some (h2, [5, 2, 7]) \<and> is_list_empty h2 1 = Some True"
  using list_is_fifo[of 1 demo_links "[5, 2, 7]"] by (simp add: numeral_3_eq_3)

text \<open>Inserting at the front makes the list a stack towards its front and a queue towards its
  end.\<close>

theorem list_front_insertion:
  assumes "p \<in> dom h" "set es \<subseteq> dom h" "distinct (p # es)"
  shows "\<exists>h0 h1 h2 h3. init_list_head h p = Some h0 \<and> insert_each insert_list_first h0 p es = Some h1
    \<and> take_each remove_list_first h1 p (length es) = Some (h2, rev es)
    \<and> take_each remove_list_last h1 p (length es) = Some (h3, es)
    \<and> is_list_empty h2 p = Some True \<and> is_list_empty h3 p = Some True"
proof -
  from lh.init_law[OF assms(1)] obtain h0 where
    h0: "init_list_head h p = Some h0" "dlist h0 p []" "dom h0 = dom h" by (auto simp: agree_off_def)
  from lh.lifo[OF h0(2), of es] h0(3) assms(2,3) obtain h1 h2 where
    a: "insert_each insert_list_first h0 p es = Some h1"
    "take_each remove_list_first h1 p (length es) = Some (h2, rev es)" "dlist h2 p []" by auto
  from lh.fifo_backwards[OF h0(2), of es] h0(3) assms(2,3) a(1) obtain h3 where
    b: "take_each remove_list_last h1 p (length es) = Some (h3, es)" "dlist h3 p []" by auto
  from h0(1) a b lh.is_empty_law[of h2 p "[]"] lh.is_empty_law[of h3 p "[]"] show ?thesis by auto
qed

lemma list_front_insertion_witness:
  "\<exists>h0 h1 h2 h3. init_list_head demo_links 1 = Some h0 \<and> insert_each insert_list_first h0 1 [5, 2, 7] = Some h1
    \<and> take_each remove_list_first h1 1 3 = Some (h2, [7, 2, 5])
    \<and> take_each remove_list_last h1 1 3 = Some (h3, [5, 2, 7])
    \<and> is_list_empty h2 1 = Some True \<and> is_list_empty h3 1 = Some True"
  using list_front_insertion[of 1 demo_links "[5, 2, 7]"] by (simp add: numeral_3_eq_3)

text \<open>\<open>remove_list_entry\<close> takes an entry out of any place of its list, knowing only the entry,
  and returns true exactly when the list has become empty; memory outside the list is not
  touched.\<close>

theorem list_remove_anywhere:
  assumes "dlist h p (as @ e # bs)"
  shows "\<exists>h'. remove_list_entry h e = Some (h', as @ bs = []) \<and> dlist h' p (as @ bs)
    \<and> (\<forall>x. x \<notin> set (p # as @ bs) \<longrightarrow> h' x = h x)"
  using lh.remove_entry_law[OF assms] by (auto simp: agree_off_def)

lemma list_remove_anywhere_witness:
  "\<exists>h h'. dlist h (1::nat) [5, 2, 7] \<and> remove_list_entry h 2 = Some (h', False) \<and> dlist h' 1 [5, 7]"
proof -
  let ?h = "[1 \<mapsto> \<lparr>nxt = 5, prv = 7\<rparr>, 5 \<mapsto> \<lparr>nxt = 2, prv = 1\<rparr>, 2 \<mapsto> \<lparr>nxt = 7, prv = 5\<rparr>,
    7 \<mapsto> \<lparr>nxt = 1, prv = 2\<rparr>] :: nat lmem"
  have d: "dlist ?h 1 ([5] @ 2 # [7])" by (simp add: dlist_def dring_def nexts_def prevs_def)
  from list_remove_anywhere[OF d] d show ?thesis by fastforce
qed

text \<open>The list of \<open>14-uthread-scheduling\<close> is the same queue, and the same stack, although its
  head and tail removals relink the sentinel themselves.\<close>

theorem list_14_order:
  assumes "p \<in> dom h" "set es \<subseteq> dom h" "distinct (p # es)"
  shows "\<exists>h0 h1 h2 g1 g2. init_list_head_14 h p = Some h0
    \<and> insert_each insert_tail_list h0 p es = Some h1
    \<and> take_each remove_head_list h1 p (length es) = Some (h2, es) \<and> is_list_empty_14 h2 p = Some True
    \<and> insert_each insert_head_list h0 p es = Some g1
    \<and> take_each remove_tail_list g1 p (length es) = Some (g2, es) \<and> is_list_empty_14 g2 p = Some True"
proof -
  from lf.init_law[OF assms(1)] obtain h0 where
    h0: "init_list_head_14 h p = Some h0" "flist h0 p []" "dom h0 = dom h" by (auto simp: agree_off_def)
  from lf.fifo[OF h0(2), of es] h0(3) assms(2,3) obtain h1 h2 where
    a: "insert_each insert_tail_list h0 p es = Some h1"
    "take_each remove_head_list h1 p (length es) = Some (h2, es)" "flist h2 p []" by auto
  from lf.fifo_backwards[OF h0(2), of es] h0(3) assms(2,3) obtain g1 g2 where
    b: "insert_each insert_head_list h0 p es = Some g1"
    "take_each remove_tail_list g1 p (length es) = Some (g2, es)" "flist g2 p []" by auto
  from h0(1) a b lf.is_empty_law[of h2 p "[]"] lf.is_empty_law[of g2 p "[]"] show ?thesis by auto
qed

lemma list_14_order_witness:
  "\<exists>h0 h1 h2 g1 g2. init_list_head_14 (\<lambda>x::nat. Some \<lparr>flink = x, blink = x\<rparr>) 1 = Some h0
    \<and> insert_each insert_tail_list h0 1 [5, 2] = Some h1
    \<and> take_each remove_head_list h1 1 2 = Some (h2, [5, 2]) \<and> is_list_empty_14 h2 1 = Some True
    \<and> insert_each insert_head_list h0 1 [5, 2] = Some g1
    \<and> take_each remove_tail_list g1 1 2 = Some (g2, [5, 2]) \<and> is_list_empty_14 g2 1 = Some True"
  using list_14_order[of 1 "\<lambda>x::nat. Some \<lparr>flink = x, blink = x\<rparr>" "[5, 2]"]
  by (simp add: dom_def numeral_2_eq_2)

end
