(* ===== verification/Ctxsw.thy ===== *)
theory Ctxsw
  imports Prelude
begin

text \<open>
  The machine level of the uthread library: the few x86-64 instructions that
  \<open>ctxswitch.s\<close> is made of, its two routines \<open>context_switch\<close> and \<open>internal_exit\<close>, and the
  initial contexts that \<open>ut_create\<close> (15 and 14) and \<open>prepare_thread\<close> (13) build on a new
  stack. Memory is a partial map from the addresses of mapped 8-byte words to their values;
  every access of these routines is a whole aligned word. An access to an unmapped word is
  a fault (\<open>None\<close>).
\<close>

section \<open>The machine\<close>

datatype reg = RBX | RBP | R12 | R13 | R14 | R15 | RSP | RDI | RSI

type_synonym memory = "ptr \<rightharpoonup> 64 word"

record cpu =
  gpr :: "reg \<Rightarrow> 64 word"
  rip :: ptr
  mem :: memory

datatype instr =
    PUSH reg
  | POP reg
  | STORE reg reg   \<comment> \<open>\<open>mov %src, (%base)\<close>\<close>
  | STOREG reg ptr  \<comment> \<open>\<open>mov %src, symbol(%rip)\<close>\<close>
  | LOAD reg reg    \<comment> \<open>\<open>mov (%base), %dst\<close>\<close>
  | CALL ptr
  | RET

definition store :: "memory \<Rightarrow> ptr \<Rightarrow> 64 word \<Rightarrow> memory option" where
  "store m a v = (case m a of None \<Rightarrow> None | Some _ \<Rightarrow> Some (m(a \<mapsto> v)))"

text \<open>
  \<open>callee\<close> gives the effect of a called C function from its entry to just before its own
  \<open>ret\<close>; \<open>CALL\<close> pushes the return address, runs it and drops the return address again.
\<close>

fun exec1 :: "(cpu \<Rightarrow> cpu option) \<Rightarrow> instr \<Rightarrow> cpu \<Rightarrow> cpu option" where
  "exec1 callee (PUSH r) s = do {
     let sp = gpr s RSP - 8;
     m \<leftarrow> store (mem s) sp (gpr s r);
     Some (s\<lparr>gpr := (gpr s)(RSP := sp), mem := m\<rparr>) }"
| "exec1 callee (POP r) s = do {
     v \<leftarrow> mem s (gpr s RSP);
     Some (s\<lparr>gpr := (gpr s)(RSP := gpr s RSP + 8, r := v)\<rparr>) }"
| "exec1 callee (STORE src base) s = do {
     m \<leftarrow> store (mem s) (gpr s base) (gpr s src);
     Some (s\<lparr>mem := m\<rparr>) }"
| "exec1 callee (STOREG src gaddr) s = do {
     m \<leftarrow> store (mem s) gaddr (gpr s src);
     Some (s\<lparr>mem := m\<rparr>) }"
| "exec1 callee (LOAD base dst) s = do {
     v \<leftarrow> mem s (gpr s base);
     Some (s\<lparr>gpr := (gpr s)(dst := v)\<rparr>) }"
| "exec1 callee (CALL ret) s = do {
     let sp = gpr s RSP - 8;
     m \<leftarrow> store (mem s) sp ret;
     s1 \<leftarrow> callee (s\<lparr>gpr := (gpr s)(RSP := sp), mem := m\<rparr>);
     _ \<leftarrow> mem s1 (gpr s1 RSP);
     Some (s1\<lparr>gpr := (gpr s1)(RSP := gpr s1 RSP + 8)\<rparr>) }"
| "exec1 callee RET s = do {
     v \<leftarrow> mem s (gpr s RSP);
     Some (s\<lparr>gpr := (gpr s)(RSP := gpr s RSP + 8), rip := v\<rparr>) }"

fun exec :: "(cpu \<Rightarrow> cpu option) \<Rightarrow> instr list \<Rightarrow> cpu \<Rightarrow> cpu option" where
  "exec callee [] s = Some s"
| "exec callee (i # is) s = do { s1 \<leftarrow> exec1 callee i s; exec callee is s1 }"

section \<open>The routines of ctxswitch.s\<close>

text \<open>\<open>running_thread\<close> is the address of the global variable.\<close>

definition context_switch :: "ptr \<Rightarrow> instr list" where
  "context_switch running_thread =
     [PUSH RBP, PUSH RBX, PUSH R12, PUSH R13, PUSH R14, PUSH R15,
      STORE RSP RDI,
      STOREG RSI running_thread,
      LOAD RSI RSP,
      POP R15, POP R14, POP R13, POP R12, POP RBX, POP RBP,
      RET]"

text \<open>The routine of 13, which knows no global.\<close>

definition context_switch_13 :: "instr list" where
  "context_switch_13 =
     [PUSH RBP, PUSH RBX, PUSH R12, PUSH R13, PUSH R14, PUSH R15,
      STORE RSP RDI,
      LOAD RSI RSP,
      POP R15, POP R14, POP R13, POP R12, POP RBX, POP RBP,
      RET]"

definition internal_exit :: "ptr \<Rightarrow> ptr \<Rightarrow> instr list" where
  "internal_exit running_thread ret =
     [STOREG RSI running_thread,
      LOAD RSI RSP,
      CALL ret,
      POP R15, POP R14, POP R13, POP R12, POP RBX, POP RBP,
      RET]"

text \<open>
  The layout of \<open>struct uthread\<close> (15): \<open>context\<close> at 0, \<open>entry\<close> at 8, \<open>function\<close> at 24,
  \<open>argument\<close> at 32, \<open>stack\<close> at 40; 48 bytes in all.
\<close>

definition STACK_SIZE :: "64 word" where "STACK_SIZE = 8 * 4096"
definition OFF_ENTRY :: "64 word" where "OFF_ENTRY = 8"
definition OFF_FUNCTION :: "64 word" where "OFF_FUNCTION = 24"
definition OFF_ARGUMENT :: "64 word" where "OFF_ARGUMENT = 32"
definition OFF_STACK :: "64 word" where "OFF_STACK = 40"
definition SIZEOF_UTHREAD :: "64 word" where "SIZEOF_UTHREAD = 48"
definition SIZEOF_CONTEXT :: "64 word" where "SIZEOF_CONTEXT = 56"

lemmas layout_defs = STACK_SIZE_def OFF_ENTRY_def OFF_FUNCTION_def OFF_ARGUMENT_def OFF_STACK_def SIZEOF_UTHREAD_def
  SIZEOF_CONTEXT_def

definition in_block :: "ptr \<Rightarrow> ptr \<Rightarrow> 64 word \<Rightarrow> bool" where
  "in_block a p n \<longleftrightarrow> a - p < n"

definition free_block :: "memory \<Rightarrow> ptr \<Rightarrow> 64 word \<Rightarrow> memory" where
  "free_block m p n = (\<lambda>a. if in_block a p n then None else m a)"

text \<open>
  \<open>internal_cleanup\<close> as called from \<open>internal_exit\<close>: its argument is in RDI. A C function
  keeps RBX, RBP, R12 to R15 and RSP; RDI and RSI may hold anything afterwards (\<open>junk\<close>).
\<close>

definition internal_cleanup :: "(reg \<Rightarrow> 64 word) \<Rightarrow> cpu \<Rightarrow> cpu option" where
  "internal_cleanup junk s = do {
     let thread = gpr s RDI;
     stack \<leftarrow> mem s (thread + OFF_STACK);
     let m1 = free_block (mem s) stack STACK_SIZE;
     _ \<leftarrow> m1 thread;
     Some (s\<lparr>gpr := (gpr s)(RDI := junk RDI, RSI := junk RSI),
             mem := free_block m1 thread SIZEOF_UTHREAD\<rparr>) }"

section \<open>Saved contexts\<close>

record uthread_context =
  c_r15 :: "64 word"
  c_r14 :: "64 word"
  c_r13 :: "64 word"
  c_r12 :: "64 word"
  c_rbx :: "64 word"
  c_rbp :: "64 word"
  c_ret_addr :: ptr

definition load_context :: "memory \<Rightarrow> ptr \<Rightarrow> uthread_context option" where
  "load_context m p = do {
     a \<leftarrow> m p; b \<leftarrow> m (p + 8); c \<leftarrow> m (p + 16); d \<leftarrow> m (p + 24);
     e \<leftarrow> m (p + 32); f \<leftarrow> m (p + 40); g \<leftarrow> m (p + 48);
     Some \<lparr>c_r15 = a, c_r14 = b, c_r13 = c, c_r12 = d, c_rbx = e, c_rbp = f, c_ret_addr = g\<rparr> }"

text \<open>The context a caller of \<open>context_switch\<close> has: its callee-saved registers and the
  return address on top of its stack.\<close>

definition cpu_context :: "cpu \<Rightarrow> ptr \<Rightarrow> uthread_context" where
  "cpu_context s ra = \<lparr>c_r15 = gpr s R15, c_r14 = gpr s R14, c_r13 = gpr s R13,
     c_r12 = gpr s R12, c_rbx = gpr s RBX, c_rbp = gpr s RBP, c_ret_addr = ra\<rparr>"

definition context_words :: "ptr \<Rightarrow> ptr set" where
  "context_words p = {p, p + 8, p + 16, p + 24, p + 32, p + 40, p + 48}"

definition push_words :: "ptr \<Rightarrow> ptr set" where
  "push_words sp = {sp - 8, sp - 16, sp - 24, sp - 32, sp - 40, sp - 48}"

lemma load_context_Some:
  "load_context m p = Some c \<longleftrightarrow> m p = Some (c_r15 c) \<and> m (p + 8) = Some (c_r14 c)
     \<and> m (p + 16) = Some (c_r13 c) \<and> m (p + 24) = Some (c_r12 c) \<and> m (p + 32) = Some (c_rbx c)
     \<and> m (p + 40) = Some (c_rbp c) \<and> m (p + 48) = Some (c_ret_addr c)"
  by (cases c) (auto simp: load_context_def split: bind_splits)

lemma load_context_cong:
  "(\<And>a. a \<in> context_words p \<Longrightarrow> m' a = m a) \<Longrightarrow> load_context m' p = load_context m p"
  by (simp add: load_context_def context_words_def)

lemma store_at: "a \<in> dom m \<Longrightarrow> store m a v = Some (m(a \<mapsto> v))"
  by (auto simp: store_def)

lemma exec_append: "exec f (is @ js) s = Option.bind (exec f is s) (exec f js)"
proof (induction "is" arbitrary: s)
  case Nil
  then show ?case by simp
next
  case (Cons i "is")
  then show ?case by (cases "exec1 f i s") auto
qed

text \<open>Popping a saved context and returning through it.\<close>

definition resume :: "instr list" where
  "resume = [POP R15, POP R14, POP R13, POP R12, POP RBX, POP RBP, RET]"

lemma exec_resume:
  assumes "load_context (mem s) (gpr s RSP) = Some c"
  shows "\<exists>s'. exec f resume s = Some s' \<and> cpu_context s' (rip s') = c
    \<and> gpr s' RSP = gpr s RSP + 56 \<and> mem s' = mem s"
  using assms by (simp add: resume_def load_context_Some cpu_context_def add.assoc)

lemma resume_runs:
  assumes "context_words p \<subseteq> dom m" "m (p + 48) = Some ra" "mem s = m" "gpr s RSP = p"
  shows "\<exists>s'. exec f resume s = Some s' \<and> rip s' = ra \<and> gpr s' RSP = p + 56"
proof -
  obtain c where c: "load_context m p = Some c"
    using assms(1) by (auto simp: load_context_def context_words_def split: bind_splits)
  then have "c_ret_addr c = ra" using assms(2) by (simp add: load_context_Some)
  moreover obtain s' where "exec f resume s = Some s'" "cpu_context s' (rip s') = c" "gpr s' RSP = p + 56"
    using exec_resume[of s c f] c assms(3,4) by auto
  ultimately show ?thesis by (auto simp: cpu_context_def)
qed

text \<open>Saving: the six pushes and the store of RSP.\<close>

definition save :: "instr list" where
  "save = [PUSH RBP, PUSH RBX, PUSH R12, PUSH R13, PUSH R14, PUSH R15, STORE RSP RDI]"

lemma exec_save:
  assumes "push_words (gpr s RSP) \<subseteq> dom (mem s)" "gpr s RDI \<in> dom (mem s)"
    and "gpr s RDI \<notin> context_words (gpr s RSP - 48)" "mem s (gpr s RSP) = Some ra"
  shows "\<exists>s'. exec f save s = Some s'
    \<and> load_context (mem s') (gpr s RSP - 48) = Some (cpu_context s ra)
    \<and> mem s' (gpr s RDI) = Some (gpr s RSP - 48)
    \<and> gpr s' RSI = gpr s RSI \<and> gpr s' RDI = gpr s RDI \<and> dom (mem s') = dom (mem s)
    \<and> (\<forall>a. a \<notin> push_words (gpr s RSP) \<and> a \<noteq> gpr s RDI \<longrightarrow> mem s' a = mem s a)"
proof -
  let ?p = "gpr s RSP" and ?m = "mem s"
  let ?m' = "?m(?p - 8 \<mapsto> gpr s RBP, ?p - 16 \<mapsto> gpr s RBX, ?p - 24 \<mapsto> gpr s R12,
     ?p - 32 \<mapsto> gpr s R13, ?p - 40 \<mapsto> gpr s R14, ?p - 48 \<mapsto> gpr s R15, gpr s RDI \<mapsto> ?p - 48)"
  have x: "exec f save s = Some (s\<lparr>gpr := (gpr s)(RSP := ?p - 48), mem := ?m'\<rparr>)"
    using assms(1,2) by (simp add: save_def store_at push_words_def diff_diff_eq Let_def)
  have e: "?p - 48 + 8 = ?p - 40" "?p - 48 + 16 = ?p - 32" "?p - 48 + 24 = ?p - 24"
    "?p - 48 + 32 = ?p - 16" "?p - 48 + 40 = ?p - 8" "?p - 48 + 48 = ?p" by simp_all
  have "gpr s RDI \<notin> {?p - 48, ?p - 40, ?p - 32, ?p - 24, ?p - 16, ?p - 8, ?p}"
    using assms(3) unfolding context_words_def e .
  then have "?p - 48 \<noteq> gpr s RDI" "?p - 40 \<noteq> gpr s RDI" "?p - 32 \<noteq> gpr s RDI"
    "?p - 24 \<noteq> gpr s RDI" "?p - 16 \<noteq> gpr s RDI" "?p - 8 \<noteq> gpr s RDI" "?p \<noteq> gpr s RDI"
    by (simp_all add: eq_commute)
  then have l: "load_context ?m' (?p - 48) = Some (cpu_context s ra)"
    using assms(4) unfolding load_context_Some cpu_context_def e by simp
  have "dom ?m' = dom ?m"
    using assms(1,2) by (auto simp: push_words_def)
  then show ?thesis
    by (intro exI[of _ "s\<lparr>gpr := (gpr s)(RSP := ?p - 48), mem := ?m'\<rparr>"])
       (use x l in \<open>auto simp: push_words_def\<close>)
qed


section \<open>Switching\<close>

text \<open>
  When \<open>context_switch\<close> may be called: the running thread has room for six words, the two
  descriptors and the global are mapped, and none of the stores hits the saved context of
  the next thread, its descriptor, or the words just pushed.
\<close>

definition switch_pre :: "ptr \<Rightarrow> cpu \<Rightarrow> bool" where
  "switch_pre g s \<longleftrightarrow>
     (let sp = gpr s RSP; cur = gpr s RDI; nx = gpr s RSI in
      push_words sp \<subseteq> dom (mem s) \<and> sp \<in> dom (mem s) \<and> {cur, nx, g} \<subseteq> dom (mem s)
      \<and> cur \<noteq> nx \<and> cur \<noteq> g \<and> nx \<noteq> g
      \<and> nx \<notin> push_words sp \<and> {cur, g} \<inter> context_words (sp - 48) = {}
      \<and> (\<forall>p. mem s nx = Some p \<longrightarrow>
           context_words p \<inter> (push_words sp \<union> {cur, g}) = {}))"

lemma push_context: "push_words sp \<subseteq> context_words (sp - 48)"
  by (simp add: push_words_def context_words_def)

lemma context_switch_split:
  "context_switch g = save @ [STOREG RSI g, LOAD RSI RSP] @ resume"
  by (simp add: context_switch_def save_def resume_def)

lemma context_switch_ok:
  assumes pre: "switch_pre g s" and ra: "mem s (gpr s RSP) = Some ra"
    and nx: "mem s (gpr s RSI) = Some p" and c: "load_context (mem s) p = Some c"
  shows "\<exists>s'. exec f (context_switch g) s = Some s'
    \<and> cpu_context s' (rip s') = c \<and> gpr s' RSP = p + 56
    \<and> mem s' g = Some (gpr s RSI) \<and> mem s' (gpr s RDI) = Some (gpr s RSP - 48)
    \<and> load_context (mem s') (gpr s RSP - 48) = Some (cpu_context s ra)
    \<and> (\<forall>a. a \<notin> push_words (gpr s RSP) \<union> {gpr s RDI, g} \<longrightarrow> mem s' a = mem s a)"
proof -
  let ?sp = "gpr s RSP" and ?cur = "gpr s RDI" and ?nx = "gpr s RSI"
  have P: "push_words ?sp \<subseteq> dom (mem s)" "?cur \<in> dom (mem s)" "g \<in> dom (mem s)"
    "?cur \<noteq> ?nx" "?cur \<noteq> g" "?nx \<noteq> g" "?nx \<notin> push_words ?sp" "?cur \<notin> context_words (?sp - 48)"
    "g \<notin> context_words (?sp - 48)" "context_words p \<inter> (push_words ?sp \<union> {?cur, g}) = {}"
    using pre nx by (auto simp: switch_pre_def Let_def)
  obtain s1 where s1: "exec f save s = Some s1"
    "load_context (mem s1) (?sp - 48) = Some (cpu_context s ra)"
    "mem s1 ?cur = Some (?sp - 48)" "gpr s1 RSI = ?nx" "gpr s1 RDI = ?cur"
    "dom (mem s1) = dom (mem s)"
    "\<forall>a. a \<notin> push_words ?sp \<and> a \<noteq> ?cur \<longrightarrow> mem s1 a = mem s a"
    using exec_save[OF P(1,2,8) ra, of f] by blast
  define s2 where "s2 = s1\<lparr>mem := (mem s1)(g \<mapsto> ?nx), gpr := (gpr s1)(RSP := p)\<rparr>"
  have "mem s1 ?nx = Some p" using s1(7) P(4,7) nx by simp
  then have x: "exec f [STOREG RSI g, LOAD RSI RSP] s1 = Some s2"
    using s1(4,6) P(3,6) by (simp add: store_at s2_def)
  have m2: "a \<notin> push_words ?sp \<union> {?cur, g} \<Longrightarrow> mem s2 a = mem s a" for a
    using s1(7) by (simp add: s2_def)
  have "load_context (mem s2) p = Some c"
    using load_context_cong[of p "mem s2" "mem s"] m2 P(10) c by (metis disjoint_iff)
  then obtain s' where s': "exec f resume s2 = Some s'" "cpu_context s' (rip s') = c"
    "gpr s' RSP = p + 56" "mem s' = mem s2"
    using exec_resume[of s2 c f] by (auto simp: s2_def)
  have "load_context (mem s2) (?sp - 48) = load_context (mem s1) (?sp - 48)"
    by (rule load_context_cong) (use P(9) in \<open>auto simp: s2_def\<close>)
  then have "exec f (context_switch g) s = Some s'"
    "load_context (mem s') (?sp - 48) = Some (cpu_context s ra)"
    using s1(1,2) x s' by (simp_all only: context_switch_split exec_append bind.bind_lunit)
  moreover have "mem s' g = Some ?nx" "mem s' ?cur = Some (?sp - 48)"
    using s1(3) P(5) s' by (simp_all add: s2_def)
  ultimately show ?thesis using s' m2 by (intro exI[of _ s']) auto
qed

text \<open>The routine of 13 does the same without the global.\<close>

lemma context_switch_13_ok:
  assumes "push_words (gpr s RSP) \<subseteq> dom (mem s)" "gpr s RDI \<in> dom (mem s)" "gpr s RDI \<notin> context_words (gpr s RSP - 48)"
    and "mem s (gpr s RSP) = Some ra" "mem s (gpr s RSI) = Some p" "gpr s RSI \<notin> push_words (gpr s RSP) \<union> {gpr s RDI}"
    and "load_context (mem s) p = Some c" "context_words p \<inter> (push_words (gpr s RSP) \<union> {gpr s RDI}) = {}"
  shows "\<exists>s'. exec f context_switch_13 s = Some s'
    \<and> cpu_context s' (rip s') = c \<and> gpr s' RSP = p + 56 \<and> mem s' (gpr s RDI) = Some (gpr s RSP - 48)
    \<and> load_context (mem s') (gpr s RSP - 48) = Some (cpu_context s ra)
    \<and> (\<forall>a. a \<notin> push_words (gpr s RSP) \<union> {gpr s RDI} \<longrightarrow> mem s' a = mem s a)"
proof -
  obtain s1 where s1: "exec f save s = Some s1" "load_context (mem s1) (gpr s RSP - 48) = Some (cpu_context s ra)"
    "mem s1 (gpr s RDI) = Some (gpr s RSP - 48)" "gpr s1 RSI = gpr s RSI"
    "\<forall>a. a \<notin> push_words (gpr s RSP) \<and> a \<noteq> gpr s RDI \<longrightarrow> mem s1 a = mem s a"
    using exec_save[OF assms(1-4), of f] by blast
  let ?s2 = "s1\<lparr>gpr := (gpr s1)(RSP := p)\<rparr>"
  have x: "exec f [LOAD RSI RSP] s1 = Some ?s2" using s1(4,5) assms(5,6) by simp
  have "load_context (mem s1) p = Some c"
    using load_context_cong[of p "mem s1" "mem s"] s1(5) assms(7,8) by (metis UnI1 UnI2 disjoint_iff singletonI)
  then obtain s' where s': "exec f resume ?s2 = Some s'" "cpu_context s' (rip s') = c" "gpr s' RSP = p + 56" "mem s' = mem s1"
    using exec_resume[of ?s2 c f] by auto
  have split: "context_switch_13 = save @ [LOAD RSI RSP] @ resume"
    by (simp add: context_switch_13_def save_def resume_def)
  have "exec f context_switch_13 s = Some s'"
    unfolding split exec_append s1(1) by (simp only: x s'(1) bind.bind_lunit)
  then show ?thesis using s1 s' by auto
qed

text \<open>
  Leaving a thread for good: \<open>internal_exit\<close> moves to the next thread's stack before the
  exiting thread's stack and descriptor are freed.
\<close>

definition exit_pre :: "ptr \<Rightarrow> cpu \<Rightarrow> ptr \<Rightarrow> ptr \<Rightarrow> bool" where
  "exit_pre g s p stack \<longleftrightarrow>
     (let cur = gpr s RDI; nx = gpr s RSI;
          kept = (\<lambda>a. \<not> in_block a stack STACK_SIZE \<and> \<not> in_block a cur SIZEOF_UTHREAD) in
      {nx, g, p - 8, cur} \<subseteq> dom (mem s) \<and> nx \<noteq> g
      \<and> g \<notin> {cur, cur + OFF_STACK} \<and> p - 8 \<notin> {cur, cur + OFF_STACK}
      \<and> \<not> in_block cur stack STACK_SIZE
      \<and> mem s nx = Some p \<and> mem s (cur + OFF_STACK) = Some stack
      \<and> g \<notin> context_words p \<and> g \<noteq> p - 8
      \<and> kept g \<and> kept (p - 8) \<and> (\<forall>a\<in>context_words p. kept a))"

lemma internal_exit_ok:
  assumes pre: "exit_pre g s p stack" and c: "load_context (mem s) p = Some c"
  shows "\<exists>s'. exec (internal_cleanup junk) (internal_exit g ret) s = Some s'
    \<and> cpu_context s' (rip s') = c \<and> gpr s' RSP = p + 56 \<and> mem s' g = Some (gpr s RSI)
    \<and> (\<forall>a. in_block a stack STACK_SIZE \<or> in_block a (gpr s RDI) SIZEOF_UTHREAD
          \<longrightarrow> mem s' a = None)
    \<and> (\<forall>a. \<not> in_block a stack STACK_SIZE \<and> \<not> in_block a (gpr s RDI) SIZEOF_UTHREAD \<and> a \<notin> {g, p - 8}
          \<longrightarrow> mem s' a = mem s a)"
proof -
  let ?cur = "gpr s RDI" and ?nx = "gpr s RSI"
  note P = pre[unfolded exit_pre_def Let_def]
  let ?m1 = "(mem s)(g \<mapsto> ?nx, p - 8 \<mapsto> ret)"
  let ?m2 = "free_block (free_block ?m1 stack STACK_SIZE) ?cur SIZEOF_UTHREAD"
  let ?s2 = "s\<lparr>gpr := (gpr s)(RSP := p, RDI := junk RDI, RSI := junk RSI), mem := ?m2\<rparr>"
  have st: "store (mem s) g ?nx = Some ((mem s)(g \<mapsto> ?nx))"
    "store ((mem s)(g \<mapsto> ?nx)) (p - 8) ret = Some ?m1"
    using P by (auto intro!: store_at)
  have rd: "?m1 (?cur + OFF_STACK) = Some stack" using P by auto
  have fr: "\<exists>v. free_block ?m1 stack STACK_SIZE ?cur = Some v" "?m2 (p - 8) = Some ret"
    using P by (auto simp: free_block_def)
  have nx: "((mem s)(g \<mapsto> ?nx)) ?nx = Some p" using P by simp
  have x: "exec (internal_cleanup junk) [STOREG RSI g, LOAD RSI RSP, CALL ret] s = Some ?s2"
    using st nx rd fr by (auto simp: internal_cleanup_def Let_def fun_upd_twist)
  have "p - 8 \<notin> context_words p" by (simp add: context_words_def)
  then have "load_context ?m2 p = load_context (mem s) p"
    by (intro load_context_cong) (use P in \<open>auto simp: free_block_def\<close>)
  then obtain s' where s': "exec (internal_cleanup junk) resume ?s2 = Some s'"
    "cpu_context s' (rip s') = c" "gpr s' RSP = p + 56" "mem s' = ?m2"
    using exec_resume[of ?s2 c "internal_cleanup junk"] c by auto
  have "internal_exit g ret = [STOREG RSI g, LOAD RSI RSP, CALL ret] @ resume"
    by (simp add: internal_exit_def resume_def)
  then have "exec (internal_cleanup junk) (internal_exit g ret) s = Some s'"
    using x s'(1) by (simp only: exec_append bind.bind_lunit)
  moreover have "mem s' g = Some ?nx" using P s'(4) by (simp add: free_block_def)
  ultimately show ?thesis using s' by (auto simp: free_block_def)
qed

section \<open>The first context of a thread\<close>

text \<open>
  \<open>memset (p, 0, n)\<close> on whole words; every word of the range must be mapped.
\<close>

definition memset0 :: "memory \<Rightarrow> ptr \<Rightarrow> nat \<Rightarrow> memory option" where
  "memset0 m p words =
     (if (\<forall>i<words. p + 8 * of_nat i \<in> dom m)
      then Some (\<lambda>a. if a \<in> dom m \<and> in_block a p (8 * of_nat words) then Some 0 else m a)
      else None)"

definition store_context :: "memory \<Rightarrow> ptr \<Rightarrow> uthread_context \<Rightarrow> memory option" where
  "store_context m p c = do {
     m1 \<leftarrow> store m p (c_r15 c); m2 \<leftarrow> store m1 (p + 8) (c_r14 c);
     m3 \<leftarrow> store m2 (p + 16) (c_r13 c); m4 \<leftarrow> store m3 (p + 24) (c_r12 c);
     m5 \<leftarrow> store m4 (p + 32) (c_rbx c); m6 \<leftarrow> store m5 (p + 40) (c_rbp c);
     store m6 (p + 48) (c_ret_addr c) }"

text \<open>\<open>ut_create\<close> of 15, from the store of the stack's address to the initial context.\<close>

definition create_context :: "memory \<Rightarrow> ptr \<Rightarrow> ptr \<Rightarrow> ptr \<Rightarrow> ptr \<Rightarrow> ptr \<Rightarrow> memory option" where
  "create_context m thread stack start_routine arg internal_start = do {
     m1 \<leftarrow> store m (thread + OFF_STACK) stack;
     m2 \<leftarrow> memset0 m1 stack 4096;
     m3 \<leftarrow> store m2 (thread + OFF_FUNCTION) start_routine;
     m4 \<leftarrow> store m3 (thread + OFF_ARGUMENT) arg;
     let context = stack + STACK_SIZE - SIZEOF_CONTEXT - 8;
     m5 \<leftarrow> store m4 thread context;
     store_context m5 context
       \<lparr>c_r15 = 0x55555555, c_r14 = 0x44444444, c_r13 = 0x33333333, c_r12 = 0x22222222,
        c_rbx = 0x11111111, c_rbp = 0, c_ret_addr = internal_start\<rparr> }"

text \<open>
  14 puts the descriptor (\<open>rsp\<close>, \<open>start_routine\<close>, \<open>arg\<close> and the entry) and the stack in one
  mapping of \<open>STACK_SIZE\<close> bytes, with the context at its very end and only RBP and the return
  address set; 13 does the same with the stack array that follows the saved RSP in
  \<open>struct uthread\<close>.
\<close>

definition create_context_14 :: "memory \<Rightarrow> ptr \<Rightarrow> ptr \<Rightarrow> ptr \<Rightarrow> ptr \<Rightarrow> memory option" where
  "create_context_14 m puthread start_routine arg internal_start = do {
     let pctx = puthread + STACK_SIZE - SIZEOF_CONTEXT;
     m1 \<leftarrow> store m (pctx + 40) 0;
     m2 \<leftarrow> store m1 (pctx + 48) internal_start;
     m3 \<leftarrow> store m2 puthread pctx;
     m4 \<leftarrow> store m3 (puthread + 8) start_routine;
     store m4 (puthread + 16) arg }"

definition prepare_thread :: "memory \<Rightarrow> ptr \<Rightarrow> ptr \<Rightarrow> memory option" where
  "prepare_thread m thread func = do {
     let pctx = (thread + 8 + STACK_SIZE) - SIZEOF_CONTEXT;
     m1 \<leftarrow> store m (pctx + 40) 0;
     m2 \<leftarrow> store m1 (pctx + 48) func;
     store m2 thread pctx }"

lemma store_eq_Some: "store m a v = Some m' \<longleftrightarrow> a \<in> dom m \<and> m' = m(a \<mapsto> v)"
  by (auto simp: store_def split: option.splits)

lemma store_context_eq_Some:
  "store_context m p c = Some m' \<Longrightarrow>
     load_context m' p = Some c \<and> (\<forall>a. a \<notin> context_words p \<longrightarrow> m' a = m a)"
  by (auto simp: store_context_def store_eq_Some load_context_Some context_words_def split: bind_splits)

lemma in_block_top: "k < n \<Longrightarrow> in_block (p + k) p n"
  by (simp add: in_block_def)

lemma top_words_in_block:
  "\<forall>a\<in>insert (stack + STACK_SIZE - 8) (context_words (stack + STACK_SIZE - SIZEOF_CONTEXT - 8)).
     in_block a stack STACK_SIZE"
  by (simp add: context_words_def in_block_def layout_defs)

lemma create_context_result:
  assumes "create_context m thread stack f x start = Some m'"
    and "\<forall>k\<in>{0, OFF_FUNCTION, OFF_ARGUMENT, OFF_STACK}. \<not> in_block (thread + k) stack STACK_SIZE"
  defines "p \<equiv> stack + STACK_SIZE - SIZEOF_CONTEXT - 8"
  shows "m' thread = Some p" "m' (thread + OFF_STACK) = Some stack"
    and "m' (thread + OFF_FUNCTION) = Some f" "m' (thread + OFF_ARGUMENT) = Some x"
    and "m' (stack + STACK_SIZE - 8) = Some 0"
    and "load_context m' p = Some \<lparr>c_r15 = 0x55555555, c_r14 = 0x44444444, c_r13 = 0x33333333,
        c_r12 = 0x22222222, c_rbx = 0x11111111, c_rbp = 0, c_ret_addr = start\<rparr>"
proof -
  let ?c = "\<lparr>c_r15 = 0x55555555, c_r14 = 0x44444444, c_r13 = 0x33333333,
        c_r12 = 0x22222222, c_rbx = 0x11111111, c_rbp = 0, c_ret_addr = start\<rparr> :: uthread_context"
  obtain m1 m2 m3 where m: "m1 = m(thread + OFF_STACK \<mapsto> stack)" "memset0 m1 stack 4096 = Some m2"
      "m3 = m2(thread + OFF_FUNCTION \<mapsto> f, thread + OFF_ARGUMENT \<mapsto> x, thread \<mapsto> p)"
      "store_context m3 p ?c = Some m'"
    using assms(1) by (auto simp: create_context_def store_eq_Some p_def Let_def split: bind_splits)
  have m2: "m2 = (\<lambda>a. if a \<in> dom m1 \<and> in_block a stack STACK_SIZE then Some 0 else m1 a)"
    and all: "\<forall>i<4096. stack + 8 * of_nat i \<in> dom m1"
    using m(2) by (auto simp: memset0_def STACK_SIZE_def split: if_splits)
  note sc = store_context_eq_Some[OF m(4)]
  note blk = top_words_in_block[of stack, folded p_def]
  have sep: "\<not> in_block thread stack STACK_SIZE" "\<not> in_block (thread + OFF_FUNCTION) stack STACK_SIZE"
    "\<not> in_block (thread + OFF_ARGUMENT) stack STACK_SIZE" "\<not> in_block (thread + OFF_STACK) stack STACK_SIZE"
    using assms(2) by simp_all
  then have nt: "thread \<notin> context_words p" "thread + OFF_FUNCTION \<notin> context_words p"
    "thread + OFF_ARGUMENT \<notin> context_words p" "thread + OFF_STACK \<notin> context_words p"
    using blk by blast+
  have ne: "thread + OFF_STACK \<notin> {thread, thread + OFF_FUNCTION, thread + OFF_ARGUMENT}"
    "thread \<noteq> thread + OFF_FUNCTION" "thread \<noteq> thread + OFF_ARGUMENT"
    "thread + OFF_FUNCTION \<noteq> thread + OFF_ARGUMENT"
    by (simp_all add: layout_defs)
  show "m' thread = Some p" using sc nt m(3) by simp
  show "m' (thread + OFF_STACK) = Some stack"
    using sc nt(4) m(1,3) m2 sep(4) ne(1) by simp
  show "m' (thread + OFF_FUNCTION) = Some f" using sc nt(2) m(3) ne(2,4) by simp
  show "m' (thread + OFF_ARGUMENT) = Some x" using sc nt(3) m(3) ne(3) by simp
  show "load_context m' p = Some ?c" using sc by blast
  have "stack + 8 * of_nat (4095::nat) \<in> dom m1" by (rule all[rule_format]) simp
  then have "stack + STACK_SIZE - 8 \<in> dom m1" by (simp add: STACK_SIZE_def add.commute)
  moreover have "stack + STACK_SIZE - 8 \<notin> context_words p"
    by (simp add: context_words_def p_def layout_defs)
  moreover have b: "in_block (stack + STACK_SIZE - 8) stack STACK_SIZE" using blk by blast
  moreover have "stack + STACK_SIZE - 8 \<noteq> thread" "stack + STACK_SIZE - 8 \<noteq> thread + OFF_FUNCTION"
    "stack + STACK_SIZE - 8 \<noteq> thread + OFF_ARGUMENT"
    using b sep(1-3) by metis+
  ultimately show "m' (stack + STACK_SIZE - 8) = Some 0"
    using sc m(3) m2 by simp
qed

section \<open>Stack alignment\<close>

text \<open>
  The System V calling convention wants RSP + 8 to be a multiple of 16 at the entry of a
  function, that is, RSP a multiple of 16 at each \<open>call\<close>.
\<close>

definition aligned16 :: "ptr \<Rightarrow> bool" where
  "aligned16 p \<longleftrightarrow> unat p mod 16 = 0"

lemma aligned16_add: "aligned16 p \<Longrightarrow> aligned16 (p + k) = aligned16 k"
proof -
  assume "aligned16 p"
  moreover have "unat (p + k) mod 16 = (unat p + unat k) mod 16"
    by (simp add: unat_word_ariths mod_mod_cancel)
  ultimately show ?thesis by (simp add: aligned16_def mod_add_eq[symmetric])
qed

lemma aligned_stack_size: "aligned16 STACK_SIZE" "\<not> aligned16 (STACK_SIZE + 8)" "\<not> aligned16 (- 56)"
  by (simp_all add: aligned16_def STACK_SIZE_def)

text \<open>RSP at the \<open>call internal_cleanup\<close> of \<open>internal_exit\<close>.\<close>

definition rsp_at_cleanup_call :: "ptr \<Rightarrow> ptr \<Rightarrow> cpu \<Rightarrow> ptr option" where
  "rsp_at_cleanup_call g ret s =
     map_option (\<lambda>t. gpr t RSP)
       (exec (\<lambda>_. None) (takeWhile (\<lambda>i. i \<noteq> CALL ret) (internal_exit g ret)) s)"

section \<open>What the routines guarantee\<close>

text \<open>Two concrete machines for the witnesses.\<close>

definition demo_cpu :: cpu where
  "demo_cpu = \<lparr>gpr = (\<lambda>_. 7)(RSP := 0x1008, RDI := 0x100, RSI := 0x200), rip = 0,
     mem = (\<lambda>_. Some 9)(0x200 \<mapsto> 0x2000)\<rparr>"

definition demo_back :: "cpu \<Rightarrow> cpu" where
  "demo_back s1 = \<lparr>gpr = (\<lambda>_. 5)(RSP := 0x2800, RDI := 0x200, RSI := 0x100), rip = 0, mem = mem s1\<rparr>"

definition demo_s1 :: cpu where
  "demo_s1 = the (exec (\<lambda>_. None) (context_switch 0x300) demo_cpu)"

lemmas demo_defs = demo_cpu_def demo_back_def switch_pre_def push_words_def context_words_def

lemma demo_switch: "exec (\<lambda>_. None) (context_switch 0x300) demo_cpu = Some demo_s1"
  by (simp add: demo_s1_def demo_cpu_def context_switch_def store_def Let_def)

lemma demo_pre: "switch_pre 0x300 demo_cpu" "switch_pre 0x300 (demo_back demo_s1)"
  "mem demo_s1 0x100 = Some 0xFD8" "mem demo_s1 0x300 = Some 0x200"
  by (simp_all add: demo_defs demo_s1_def context_switch_def store_def Let_def)

lemma demo_load: "load_context (mem demo_cpu) 0x2000 = Some \<lparr>c_r15 = 9, c_r14 = 9, c_r13 = 9,
  c_r12 = 9, c_rbx = 9, c_rbp = 9, c_ret_addr = 9\<rparr>" "mem demo_cpu 0x200 = Some 0x2000"
  "mem demo_cpu 0x1008 = Some 9"
  by (simp_all add: load_context_def demo_cpu_def)

text \<open>C12: Switching away from a thread and later back to it is, for that thread, an ordinary
  return of \<open>context_switch\<close>: when the thread is next switched to, from whatever state, with
  its descriptor word and saved frame untouched, execution goes on at its own return address
  with its six callee-saved registers and RSP just above that address.
\<close>

theorem context_roundtrip:
  assumes s: "switch_pre g s" "mem s (gpr s RSP) = Some ra" "mem s (gpr s RSI) = Some p"
    "load_context (mem s) p = Some c"
    and s1: "exec f (context_switch g) s = Some s1"
    and t: "switch_pre g t" "gpr t RSI = gpr s RDI"
    and kept: "\<forall>a \<in> insert (gpr s RDI) (context_words (gpr s RSP - 48)). mem t a = mem s1 a"
  shows "\<exists>t1. exec f (context_switch g) t = Some t1
    \<and> cpu_context t1 (rip t1) = cpu_context s ra \<and> gpr t1 RSP = gpr s RSP + 8
    \<and> mem t1 g = Some (gpr s RDI)"
proof -
  have s1': "mem s1 (gpr s RDI) = Some (gpr s RSP - 48)"
    "load_context (mem s1) (gpr s RSP - 48) = Some (cpu_context s ra)"
    using context_switch_ok[OF s, of f] s1 by auto
  then have m: "mem t (gpr t RSI) = Some (gpr s RSP - 48)"
    "load_context (mem t) (gpr s RSP - 48) = Some (cpu_context s ra)"
    using kept t(2) load_context_cong[of "gpr s RSP - 48" "mem t" "mem s1"] by auto
  obtain rt where "mem t (gpr t RSP) = Some rt" using t(1) by (auto simp: switch_pre_def Let_def)
  from context_switch_ok[OF t(1) this m, of f] t(2) show ?thesis by auto
qed

theorem context_roundtrip_witness:
  "\<exists>t1. exec (\<lambda>_. None) (context_switch 0x300) (demo_back demo_s1) = Some t1
    \<and> cpu_context t1 (rip t1) = cpu_context demo_cpu 9 \<and> gpr t1 RSP = 0x1010
    \<and> mem t1 0x300 = Some 0x100"
proof -
  have g: "gpr demo_cpu RSP = 0x1008" "gpr demo_cpu RDI = 0x100" "gpr demo_cpu RSI = 0x200"
    "gpr (demo_back demo_s1) RSI = 0x100" "mem (demo_back demo_s1) = mem demo_s1"
    by (simp_all add: demo_cpu_def demo_back_def)
  show ?thesis
    using context_roundtrip[OF demo_pre(1) _ _ demo_load(1) demo_switch demo_pre(2)] demo_load g by simp
qed

text \<open>A thread made by \<open>ut_create\<close> starts, at the first switch to it, at \<open>internal_start\<close>
  with RBP zero and RSP eight bytes below the top of its stack, where a zero return address
  lies, which is the alignment the calling convention wants at a function's entry if
  \<open>malloc\<close> returns 16-byte aligned stacks.
\<close>

theorem new_thread_first_switch:
  assumes c: "create_context m thread stack start_routine arg start = Some m'"
    and sep: "\<forall>k\<in>{0, OFF_FUNCTION, OFF_ARGUMENT, OFF_STACK}. \<not> in_block (thread + k) stack STACK_SIZE"
    and s: "mem s = m'" "gpr s RSI = thread" "switch_pre g s"
    and al: "aligned16 stack"
  shows "\<exists>s'. exec f (context_switch g) s = Some s' \<and> rip s' = start \<and> gpr s' RBP = 0
     \<and> gpr s' RSP = stack + STACK_SIZE - 8 \<and> aligned16 (gpr s' RSP + 8)"
proof -
  note r = create_context_result[OF c sep]
  obtain ra where ra: "mem s (gpr s RSP) = Some ra" using s(3) by (auto simp: switch_pre_def Let_def)
  have "mem s (gpr s RSI) = Some (stack + STACK_SIZE - SIZEOF_CONTEXT - 8)" using r(1) s by simp
  from context_switch_ok[OF s(3) ra this r(6)[folded s(1)], of f] obtain s' where
    s': "exec f (context_switch g) s = Some s'" "rip s' = start" "gpr s' RBP = 0"
    "gpr s' RSP = stack + STACK_SIZE - SIZEOF_CONTEXT - 8 + 56"
    unfolding cpu_context_def by auto
  moreover have "gpr s' RSP = stack + STACK_SIZE - 8" using s'(4) by (simp add: layout_defs)
  moreover have "aligned16 (stack + STACK_SIZE - 8 + 8)"
    using aligned16_add[OF al, of STACK_SIZE] aligned_stack_size(1) by (simp add: add.commute)
  ultimately show ?thesis by auto
qed

definition demo_heap :: memory where
  "demo_heap = the (create_context (\<lambda>_. Some 1) 0x100 0x10000 0x5000 3 0x4000)"

definition demo_starter :: cpu where
  "demo_starter = \<lparr>gpr = (\<lambda>_. 7)(RSP := 0x1000, RDI := 0x800, RSI := 0x100), rip = 0,
     mem = demo_heap\<rparr>"

lemma demo_create: "create_context (\<lambda>_. Some 1) 0x100 0x10000 0x5000 3 0x4000 = Some demo_heap"
  by (simp add: demo_heap_def create_context_def store_context_def store_def memset0_def Let_def
    layout_defs dom_def)

lemma demo_heap_dom: "a \<in> dom demo_heap" "demo_heap 0x100 = Some 0x17FC0"
proof -
  have m: "demo_heap = (let m2 = (\<lambda>a. if in_block a 0x10000 0x8000 then Some 0 else
      ((\<lambda>_. Some 1)(0x128 \<mapsto> 0x10000)) a) in m2(0x118 \<mapsto> 0x5000, 0x120 \<mapsto> 3, 0x100 \<mapsto> 0x17FC0, 0x17FC0 \<mapsto> 0x55555555,
      0x17FC8 \<mapsto> 0x44444444, 0x17FD0 \<mapsto> 0x33333333, 0x17FD8 \<mapsto> 0x22222222,
      0x17FE0 \<mapsto> 0x11111111, 0x17FE8 \<mapsto> 0, 0x17FF0 \<mapsto> 0x4000))"
    by (simp add: demo_heap_def create_context_def store_context_def store_def memset0_def Let_def
      layout_defs dom_def in_block_def fun_eq_iff)
  show "a \<in> dom demo_heap" by (simp add: m Let_def dom_def)
  show "demo_heap 0x100 = Some 0x17FC0" by (simp add: m Let_def)
qed

theorem new_thread_first_switch_witness:
  "\<exists>s'. exec (\<lambda>_. None) (context_switch 0x300) demo_starter = Some s' \<and> rip s' = 0x4000
     \<and> gpr s' RBP = 0 \<and> gpr s' RSP = 0x17FF8 \<and> aligned16 (gpr s' RSP + 8)"
proof -
  have "switch_pre 0x300 demo_starter"
    using demo_heap_dom by (auto simp: demo_starter_def switch_pre_def push_words_def context_words_def)
  moreover have "\<forall>k\<in>{0, OFF_FUNCTION, OFF_ARGUMENT, OFF_STACK}. \<not> in_block (0x100 + k) 0x10000 STACK_SIZE"
    "aligned16 0x10000"
    by (simp_all add: in_block_def layout_defs aligned16_def)
  ultimately show ?thesis
    using new_thread_first_switch[OF demo_create, where s = demo_starter and g = "0x300" and f = "\<lambda>_. None"]
    by (simp add: demo_starter_def STACK_SIZE_def)
qed

text \<open>\<open>internal_exit\<close> resumes the next thread from its saved context with the exiting
  thread's stack and descriptor both freed: no access of the routine, the call of
  \<open>internal_cleanup\<close> and the pops included, touches freed or unmapped memory.
\<close>

theorem internal_exit_frees_and_resumes:
  assumes "exit_pre g s p stack" "load_context (mem s) p = Some c"
  shows "\<exists>s'. exec (internal_cleanup junk) (internal_exit g ret) s = Some s'
    \<and> cpu_context s' (rip s') = c \<and> gpr s' RSP = p + 56 \<and> mem s' g = Some (gpr s RSI)
    \<and> (\<forall>a. in_block a stack STACK_SIZE \<or> in_block a (gpr s RDI) SIZEOF_UTHREAD
          \<longrightarrow> mem s' a = None)"
  using internal_exit_ok[OF assms] by blast

definition demo_exit :: cpu where
  "demo_exit = \<lparr>gpr = (\<lambda>_. 7)(RSP := 0x200100, RDI := 0x100000, RSI := 0x100), rip = 0,
     mem = (\<lambda>_. Some 9)(0x100 \<mapsto> 0x1000, 0x100028 \<mapsto> 0x200000)\<rparr>"

theorem internal_exit_frees_and_resumes_witness:
  "\<exists>s'. exec (internal_cleanup (\<lambda>_. 0)) (internal_exit 0x300 0x44) demo_exit = Some s'
    \<and> rip s' = 9 \<and> gpr s' RSP = 0x1038 \<and> mem s' 0x300 = Some 0x100 \<and> mem s' 0x200100 = None"
proof -
  have p: "exit_pre 0x300 demo_exit 0x1000 0x200000"
    by (simp add: demo_exit_def exit_pre_def in_block_def layout_defs context_words_def Let_def)
  have c: "load_context (mem demo_exit) 0x1000 = Some \<lparr>c_r15 = 9, c_r14 = 9, c_r13 = 9,
      c_r12 = 9, c_rbx = 9, c_rbp = 9, c_ret_addr = 9\<rparr>"
    by (simp add: demo_exit_def load_context_def)
  have b: "in_block 0x200100 0x200000 STACK_SIZE" "gpr demo_exit RSI = 0x100"
    by (simp_all add: in_block_def STACK_SIZE_def demo_exit_def)
  show ?thesis
    using internal_exit_frees_and_resumes[OF p c, where junk = "\<lambda>_. 0" and ret = "0x44"] b
    by (auto simp: cpu_context_def)
qed

text \<open>Every thread that gave up the processor through \<open>context_switch\<close> on a stack that
  follows the calling convention has its context saved at an address that is 8 modulo 16, so
  \<open>internal_exit\<close>, when it is the next thread, calls \<open>internal_cleanup\<close> with a misaligned
  stack pointer, against the calling convention.
\<close>

theorem cleanup_call_misaligned:
  assumes abi: "aligned16 (gpr s RSP + 8)"
    and s: "switch_pre g s" "mem s (gpr s RSP) = Some ra" "mem s (gpr s RSI) = Some p"
      "load_context (mem s) p = Some c" "exec f (context_switch g) s = Some s1"
    and t: "gpr t RSI = gpr s RDI" "mem t (gpr s RDI) = mem s1 (gpr s RDI)" "g \<in> dom (mem t)" 
  shows "\<exists>sp. rsp_at_cleanup_call g ret t = Some sp \<and> \<not> aligned16 sp"
proof -
  have m: "mem s1 (gpr s RDI) = Some (gpr s RSP - 48)"
    using context_switch_ok[OF s(1-4), of f] s(5) by auto
  have ne: "gpr s RDI \<noteq> g" using s(1) by (auto simp: switch_pre_def Let_def)
  have "rsp_at_cleanup_call g ret t = Some (gpr s RSP - 48)"
    using t m ne by (simp add: rsp_at_cleanup_call_def internal_exit_def store_at)
  moreover have "\<not> aligned16 (gpr s RSP - 48)"
    using aligned16_add[OF abi, of "- 56"] aligned_stack_size(3) by simp
  ultimately show ?thesis by blast
qed

theorem cleanup_call_misaligned_witness:
  "\<exists>sp. rsp_at_cleanup_call 0x300 0x44
      \<lparr>gpr = (\<lambda>_. 5)(RDI := 0x800, RSI := 0x100), rip = 0, mem = mem demo_s1\<rparr> = Some sp
    \<and> \<not> aligned16 sp"
proof (rule cleanup_call_misaligned[OF _ demo_pre(1) _ _ demo_load(1) demo_switch])
  show "aligned16 (gpr demo_cpu RSP + 8)" by (simp add: demo_cpu_def aligned16_def)
  show "mem demo_cpu (gpr demo_cpu RSP) = Some 9" "mem demo_cpu (gpr demo_cpu RSI) = Some 0x2000"
    using demo_load by (simp_all add: demo_cpu_def)
  show "0x300 \<in> dom (mem \<lparr>gpr = (\<lambda>_. 5)(RDI := 0x800, RSI := 0x100), rip = 0, mem = mem demo_s1\<rparr>)"
    using demo_pre(4) by auto
qed (simp_all add: demo_cpu_def)

text \<open>In 14 a thread's context lies at the very end of its mapping, so on a page-aligned (or
  just 16-byte aligned) mapping its first function starts with RSP a multiple of 16, which is
  the misaligned case of the calling convention.
\<close>

theorem stack_14_misaligned:
  assumes "create_context_14 m puthread start_routine arg start = Some m'" "aligned16 puthread"
    "context_words (puthread + STACK_SIZE - SIZEOF_CONTEXT) \<subseteq> dom m"
    "s = \<lparr>gpr = r, rip = ip, mem = m'\<rparr>" "r RSP = puthread + STACK_SIZE - SIZEOF_CONTEXT"
  shows "\<exists>s'. exec f resume s = Some s' \<and> rip s' = start \<and> gpr s' RSP = puthread + STACK_SIZE
    \<and> \<not> aligned16 (gpr s' RSP + 8)"
proof -
  let ?p = "puthread + STACK_SIZE - SIZEOF_CONTEXT"
  have m: "m' = m(?p + 40 \<mapsto> 0, ?p + 48 \<mapsto> start, puthread \<mapsto> ?p, puthread + 8 \<mapsto> start_routine,
      puthread + 16 \<mapsto> arg)"
    using assms(1) by (auto simp: create_context_14_def store_eq_Some Let_def split: bind_splits)
  have "?p + 48 \<notin> {puthread, puthread + 8, puthread + 16}" by (simp add: layout_defs)
  moreover have "context_words ?p \<subseteq> dom m'" using assms(3) m by auto
  moreover have "m' (?p + 48) = Some start" using m calculation(1) by simp
  ultimately obtain s' where x: "exec f resume s = Some s'" "rip s' = start" "gpr s' RSP = ?p + 56"
    using resume_runs[of ?p m' start s f] assms(4,5) by auto
  have sp: "gpr s' RSP = puthread + STACK_SIZE" using x(3) by (simp add: layout_defs add.commute)
  have "\<not> aligned16 (gpr s' RSP + 8)"
    using aligned16_add[OF assms(2), of "STACK_SIZE + 8"] aligned_stack_size(2)
    by (simp add: sp add.assoc)
  with x(1,2) sp show ?thesis by blast
qed

theorem stack_14_misaligned_witness:
  "\<exists>m' s'. create_context_14 (\<lambda>_. Some 1) 0x10000 0x5000 3 0x4000 = Some m' \<and>
     exec (\<lambda>_. None) resume
        \<lparr>gpr = (\<lambda>_. 0)(RSP := 0x10000 + STACK_SIZE - SIZEOF_CONTEXT), rip = 0, mem = m'\<rparr> = Some s'
     \<and> rip s' = 0x4000 \<and> gpr s' RSP = 0x10000 + STACK_SIZE \<and> \<not> aligned16 (gpr s' RSP + 8)"
proof -
  have "create_context_14 (\<lambda>_. Some 1) 0x10000 0x5000 3 0x4000 \<noteq> None"
    by (simp add: create_context_14_def store_def Let_def)
  then obtain m' where m: "create_context_14 (\<lambda>_. Some 1) 0x10000 0x5000 3 0x4000 = Some m'" by blast
  have "aligned16 0x10000" "context_words (0x10000 + STACK_SIZE - SIZEOF_CONTEXT) \<subseteq> dom (\<lambda>_. Some (1::64 word))"
    by (auto simp: aligned16_def)
  from stack_14_misaligned[OF m this refl, of "(\<lambda>_. 0)(RSP := 0x10000 + STACK_SIZE - SIZEOF_CONTEXT)" "\<lambda>_. None" 0]
  show ?thesis using m by auto
qed

end
