(* ===== verification/Ctxsw_Threads.thy ===== *)
theory Ctxsw_Threads
  imports Ctxsw
begin

text \<open>
  All threads of a machine together. \<open>Ctxsw\<close> says what one run of \<open>context_switch\<close>,
  \<open>internal_exit\<close> and the context part of \<open>ut_create\<close> does to registers and memory. Here any
  number of threads share one processor and one memory, and between two calls of these routines
  the running thread computes as it likes, as long as it keeps off the stacks of the others. The
  machine then refines a machine of coroutines that has no shared registers at all: each
  suspended thread is a value, and resuming it gives that value back.
\<close>

section \<open>Coroutines\<close>

text \<open>What a suspended thread will find when it is resumed: its callee-saved registers and its
  next instruction, its RSP, and the live part of its stack.\<close>

record view =
  v_ctx :: uthread_context
  v_sp :: ptr
  v_mem :: memory

datatype co_event =
    Runs                       \<comment> \<open>the running thread computes\<close>
  | Switches view ptr view     \<comment> \<open>it leaves with a view, another one is resumed with a view\<close>
  | Creates ptr view
  | Exits ptr view             \<comment> \<open>it ends, another one is resumed\<close>
  | Faults

text \<open>A thread starts at \<open>internal_start\<close> with RBP zero and a zero return address on its stack.\<close>

definition is_new :: "ptr \<Rightarrow> view \<Rightarrow> bool" where
  "is_new start v \<longleftrightarrow> c_ret_addr (v_ctx v) = start \<and> c_rbp (v_ctx v) = 0 \<and> v_mem v (v_sp v) = Some 0"

fun co_step :: "ptr \<Rightarrow> co_event \<Rightarrow> (ptr \<rightharpoonup> view) \<times> ptr \<Rightarrow> ((ptr \<rightharpoonup> view) \<times> ptr) option" where
  "co_step start Runs (m, t) = Some (m, t)"
| "co_step start (Switches v u w) (m, t) = (if u \<noteq> t \<and> m u = Some w then Some (m(t \<mapsto> v, u := None), u) else None)"
| "co_step start (Creates d v) (m, t) = (if d \<noteq> t \<and> m d = None \<and> is_new start v then Some (m(d \<mapsto> v), t) else None)"
| "co_step start (Exits u w) (m, t) = (if u \<noteq> t \<and> m u = Some w then Some (m(u := None), u) else None)"
| "co_step start Faults (m, t) = None"

fun co_run :: "ptr \<Rightarrow> co_event list \<Rightarrow> (ptr \<rightharpoonup> view) \<times> ptr \<Rightarrow> ((ptr \<rightharpoonup> view) \<times> ptr) option" where
  "co_run start [] c = Some c"
| "co_run start (e # es) c = Option.bind (co_step start e c) (co_run start es)"

lemma co_run_snoc: "co_run start (es @ [e]) c = Option.bind (co_run start es c) (co_step start e)"
  by (induction es arbitrary: c) (auto split: bind_splits)

section \<open>The machine\<close>

text \<open>
  \<open>stacks\<close> gives the stack area of every live thread, a thread being its descriptor's address;
  \<open>bases\<close> the block that \<open>malloc\<close> gave for it, which the main thread does not have.
\<close>

record machine =
  m_cpu :: cpu
  live :: "ptr set"
  stacks :: "ptr \<Rightarrow> ptr set"
  bases :: "ptr \<rightharpoonup> ptr"

definition block :: "ptr \<Rightarrow> 64 word \<Rightarrow> ptr set" where
  "block p n = {a. in_block a p n}"

definition area :: "machine \<Rightarrow> ptr \<Rightarrow> ptr set" where
  "area M d = stacks M d \<union> block d SIZEOF_UTHREAD"

definition live_words :: "ptr set \<Rightarrow> ptr \<Rightarrow> memory \<Rightarrow> memory" where
  "live_words S p m = m |` (S - insert (p - 8) (context_words p))"

text \<open>The view of a thread that returns from \<open>context_switch\<close> with this processor, and the one
  of a thread that calls it, with return address \<open>ra\<close>.\<close>

definition resumed :: "ptr set \<Rightarrow> cpu \<Rightarrow> view" where
  "resumed S s = \<lparr>v_ctx = cpu_context s (rip s), v_sp = gpr s RSP, v_mem = live_words S (gpr s RSP - 56) (mem s)\<rparr>"

definition leaving :: "ptr set \<Rightarrow> ptr \<Rightarrow> cpu \<Rightarrow> view" where
  "leaving S ra s = \<lparr>v_ctx = cpu_context s ra, v_sp = gpr s RSP + 8, v_mem = live_words S (gpr s RSP - 48) (mem s)\<rparr>"

text \<open>Room for a saved context and one more word below RSP.\<close>

definition room :: "ptr set \<Rightarrow> cpu \<Rightarrow> bool" where
  "room S s \<longleftrightarrow> insert (gpr s RSP - 56) (context_words (gpr s RSP - 48)) \<subseteq> S \<inter> dom (mem s)"

text \<open>What a thread may not write while it computes.\<close>

definition computes :: "ptr \<Rightarrow> machine \<Rightarrow> ptr \<Rightarrow> cpu \<Rightarrow> bool" where
  "computes g M t s' \<longleftrightarrow>
     (\<forall>a \<in> {g, t + OFF_STACK} \<union> (\<Union>u \<in> live M - {t}. stacks M u \<union> {u, u + OFF_STACK}). mem s' a = mem (m_cpu M) a)
     \<and> t \<in> dom (mem s')"

text \<open>\<open>malloc\<close> gives blocks apart from each other and from what is in use.\<close>

definition fresh_blocks :: "ptr \<Rightarrow> machine \<Rightarrow> ptr \<Rightarrow> ptr \<Rightarrow> bool" where
  "fresh_blocks g M d stk \<longleftrightarrow> (let new = block stk STACK_SIZE \<union> block d SIZEOF_UTHREAD in
     g \<notin> new \<and> block stk STACK_SIZE \<inter> block d SIZEOF_UTHREAD = {} \<and> (\<forall>u \<in> live M. area M u \<inter> new = {}))"

definition new_view :: "ptr \<Rightarrow> memory \<Rightarrow> uthread_context \<Rightarrow> view" where
  "new_view stk m c = (let p = stk + STACK_SIZE - SIZEOF_CONTEXT - 8 in
     \<lparr>v_ctx = c, v_sp = p + 56, v_mem = live_words (block stk STACK_SIZE) p m\<rparr>)"

inductive machine_step :: "ptr \<Rightarrow> ptr \<Rightarrow> machine \<Rightarrow> co_event \<Rightarrow> machine \<Rightarrow> bool" for g start where
  compute: "mem (m_cpu M) g = Some t \<Longrightarrow> computes g M t s' \<Longrightarrow> machine_step g start M Runs (M\<lparr>m_cpu := s'\<rparr>)"
| switch: "mem s g = Some t \<Longrightarrow> u \<in> live M - {t} \<Longrightarrow> gpr s RDI = t \<Longrightarrow> gpr s RSI = u \<Longrightarrow> room (stacks M t) s \<Longrightarrow>
    mem s (gpr s RSP) = Some ra \<Longrightarrow> m_cpu M = s \<Longrightarrow>
    exec (\<lambda>_. None) (context_switch g) s = Some s' \<Longrightarrow>
    machine_step g start M (Switches (leaving (stacks M t) ra s) u (resumed (stacks M u) s')) (M\<lparr>m_cpu := s'\<rparr>)"
| switch_fault: "mem s g = Some t \<Longrightarrow> u \<in> live M - {t} \<Longrightarrow> gpr s RDI = t \<Longrightarrow> gpr s RSI = u \<Longrightarrow> room (stacks M t) s \<Longrightarrow>
    m_cpu M = s \<Longrightarrow> exec (\<lambda>_. None) (context_switch g) s = None \<Longrightarrow> machine_step g start M Faults M"
| create: "fresh_blocks g M d stk \<Longrightarrow> create_context (mem (m_cpu M)) d stk f x start = Some m' \<Longrightarrow>
    load_context m' (stk + STACK_SIZE - SIZEOF_CONTEXT - 8) = Some c \<Longrightarrow>
    machine_step g start M (Creates d (new_view stk m' c))
      (M\<lparr>m_cpu := (m_cpu M)\<lparr>mem := m'\<rparr>, live := insert d (live M), stacks := (stacks M)(d := block stk STACK_SIZE),
         bases := (bases M)(d \<mapsto> stk)\<rparr>)"
| exit: "mem s g = Some t \<Longrightarrow> bases M t = Some stk \<Longrightarrow> u \<in> live M - {t} \<Longrightarrow> gpr s RDI = t \<Longrightarrow> gpr s RSI = u \<Longrightarrow>
    m_cpu M = s \<Longrightarrow> exec (internal_cleanup junk) (internal_exit g ret) s = Some s' \<Longrightarrow>
    machine_step g start M (Exits u (resumed (stacks M u) s')) (M\<lparr>m_cpu := s', live := live M - {t}\<rparr>)"
| exit_fault: "mem s g = Some t \<Longrightarrow> bases M t = Some stk \<Longrightarrow> u \<in> live M - {t} \<Longrightarrow> gpr s RDI = t \<Longrightarrow> gpr s RSI = u \<Longrightarrow>
    m_cpu M = s \<Longrightarrow> exec (internal_cleanup junk) (internal_exit g ret) s = None \<Longrightarrow>
    machine_step g start M Faults M"

inductive machine_run :: "ptr \<Rightarrow> ptr \<Rightarrow> machine \<Rightarrow> co_event list \<Rightarrow> machine \<Rightarrow> bool" for g start M where
  start: "machine_run g start M [] M"
| more: "machine_run g start M es M1 \<Longrightarrow> machine_step g start M1 e M2 \<Longrightarrow> machine_run g start M (es @ [e]) M2"

text \<open>\<open>ut_init\<close>: one thread, whose descriptor is apart from its stack and the global.\<close>

definition start_machine :: "ptr \<Rightarrow> ptr \<Rightarrow> machine \<Rightarrow> bool" where
  "start_machine g main M \<longleftrightarrow> live M = {main} \<and> bases M = Map.empty \<and> mem (m_cpu M) g = Some main
     \<and> main \<in> dom (mem (m_cpu M)) \<and> g \<notin> area M main \<and> stacks M main \<inter> block main SIZEOF_UTHREAD = {}"

section \<open>The relation between the machines\<close>

definition suspended :: "ptr set \<Rightarrow> ptr \<Rightarrow> memory \<Rightarrow> view \<Rightarrow> bool" where
  "suspended S u m v \<longleftrightarrow> (\<exists>p. m u = Some p \<and> insert (p - 8) (context_words p) \<subseteq> S \<and> p - 8 \<in> dom m
     \<and> load_context m p = Some (v_ctx v) \<and> v_sp v = p + 56 \<and> v_mem v = live_words S p m)"

definition layout :: "ptr \<Rightarrow> machine \<Rightarrow> bool" where
  "layout g M \<longleftrightarrow> (\<forall>u \<in> live M. g \<notin> area M u \<and> stacks M u \<inter> block u SIZEOF_UTHREAD = {})
     \<and> (\<forall>u \<in> live M. \<forall>w \<in> live M. u \<noteq> w \<longrightarrow> area M u \<inter> area M w = {})"

definition coupled :: "ptr \<Rightarrow> machine \<Rightarrow> (ptr \<rightharpoonup> view) \<times> ptr \<Rightarrow> bool" where
  "coupled g M c \<longleftrightarrow> (case c of (m, t) \<Rightarrow>
     mem (m_cpu M) g = Some t \<and> t \<in> live M \<and> t \<in> dom (mem (m_cpu M)) \<and> layout g M \<and> dom m = live M - {t}
     \<and> (\<forall>u v. m u = Some v \<longrightarrow> suspended (stacks M u) u (mem (m_cpu M)) v)
     \<and> (\<forall>u \<in> live M. \<forall>stk. bases M u = Some stk \<longrightarrow>
          stacks M u = block stk STACK_SIZE \<and> mem (m_cpu M) (u + OFF_STACK) = Some stk))"

lemma in_own_block: "u \<in> block u SIZEOF_UTHREAD" "u + OFF_STACK \<in> block u SIZEOF_UTHREAD"
  by (simp_all add: block_def in_block_def layout_defs)

lemma suspended_cong:
  assumes "suspended S u m v" "\<And>a. a \<in> insert u S \<Longrightarrow> m' a = m a"
  shows "suspended S u m' v"
proof -
  obtain p where p: "m u = Some p" "insert (p - 8) (context_words p) \<subseteq> S" "p - 8 \<in> dom m"
    "load_context m p = Some (v_ctx v)" "v_sp v = p + 56" "v_mem v = live_words S p m"
    using assms(1) by (auto simp: suspended_def)
  have "load_context m' p = load_context m p"
    by (rule load_context_cong) (use assms(2) p(2) in auto)
  moreover have "live_words S p m' = live_words S p m"
    using assms(2) by (auto simp: live_words_def restrict_map_def)
  moreover have "m' (p - 8) = m (p - 8)" "m' u = m u" using assms(2) p(2) by auto
  ultimately show ?thesis using p by (auto simp: suspended_def dom_def)
qed

lemma apart:
  assumes "layout g M" "u \<in> live M" "w \<in> live M" "u \<noteq> w" "a \<in> area M u"
  shows "a \<noteq> g" "a \<notin> area M w"
proof -
  show "a \<noteq> g" using assms(1,2,5) by (auto simp: layout_def)
  show "a \<notin> area M w" using assms by (metis disjoint_iff layout_def)
qed

lemma in_area: "a \<in> insert u (stacks M u) \<Longrightarrow> a \<in> area M u" "u + OFF_STACK \<in> area M u"
  using in_own_block by (auto simp: area_def)

section \<open>One lemma per step\<close>

lemma compute_coupled:
  assumes "coupled g M (m, t)" "computes g M t s'"
  shows "coupled g (M\<lparr>m_cpu := s'\<rparr>) (m, t)"
proof -
  have C: "mem (m_cpu M) g = Some t" "t \<in> live M" "layout g M" "dom m = live M - {t}"
    "\<And>u v. m u = Some v \<Longrightarrow> suspended (stacks M u) u (mem (m_cpu M)) v"
    "\<And>u stk. u \<in> live M \<Longrightarrow> bases M u = Some stk \<Longrightarrow>
        stacks M u = block stk STACK_SIZE \<and> mem (m_cpu M) (u + OFF_STACK) = Some stk"
    using assms(1) by (auto simp: coupled_def)
  have k: "mem s' g = mem (m_cpu M) g" "mem s' (t + OFF_STACK) = mem (m_cpu M) (t + OFF_STACK)" "t \<in> dom (mem s')"
    "\<And>u a. u \<in> live M - {t} \<Longrightarrow> a \<in> insert u (stacks M u) \<Longrightarrow> mem s' a = mem (m_cpu M) a"
    "\<And>u. u \<in> live M - {t} \<Longrightarrow> mem s' (u + OFF_STACK) = mem (m_cpu M) (u + OFF_STACK)"
    using assms(2) unfolding computes_def by blast+
  have "suspended (stacks M u) u (mem s') v" if mu: "m u = Some v" for u v
    by (rule suspended_cong[OF C(5)[OF mu]]) (use k(4) C(4) mu in blast)
  moreover have "mem s' (u + OFF_STACK) = mem (m_cpu M) (u + OFF_STACK)" if "u \<in> live M" for u
    using that k(2,5) by (cases "u = t") auto
  moreover have "layout g (M\<lparr>m_cpu := s'\<rparr>)" using C(3) by (simp add: layout_def area_def)
  ultimately show ?thesis using C(1,2,4,6) k(1,3) by (auto simp: coupled_def)
qed

lemma coupled_switch_pre:
  assumes c: "coupled g M (m, t)" and u: "m u = Some v" and r: "gpr s RDI = t" "gpr s RSI = u" "room (stacks M t) s"
    and s: "m_cpu M = s"
  shows "\<exists>p. switch_pre g s \<and> mem s u = Some p \<and> load_context (mem s) p = Some (v_ctx v) \<and> v_sp v = p + 56
    \<and> v_mem v = live_words (stacks M u) p (mem s) \<and> insert (p - 8) (context_words p) \<subseteq> stacks M u"
proof -
  have C: "mem s g = Some t" "t \<in> live M" "t \<in> dom (mem s)" "layout g M" "u \<in> live M" "u \<noteq> t"
    "suspended (stacks M u) u (mem s) v"
    using c u s by (auto simp: coupled_def)
  obtain p where p: "mem s u = Some p" "insert (p - 8) (context_words p) \<subseteq> stacks M u"
    "load_context (mem s) p = Some (v_ctx v)" "v_sp v = p + 56" "v_mem v = live_words (stacks M u) p (mem s)"
    using C(7) by (auto simp: suspended_def)
  have cw: "context_words (gpr s RSP - 48) \<subseteq> stacks M t" "context_words (gpr s RSP - 48) \<subseteq> dom (mem s)"
    using r(3) by (auto simp: room_def)
  have sp: "gpr s RSP \<in> context_words (gpr s RSP - 48)" by (simp add: context_words_def)
  have ut: "a \<in> insert u (stacks M u) \<Longrightarrow> a \<noteq> g \<and> a \<notin> area M t" for a
    using apart[OF C(4,5,2,6)] in_area(1) by blast
  have tt: "t \<notin> stacks M t" "g \<notin> area M t" "t \<in> area M t" "stacks M t \<subseteq> area M t"
    using C(2,4) in_own_block(1)[of t] by (auto simp: layout_def area_def)
  have U: "insert u (stacks M u) \<inter> insert g (area M t) = {}" using ut by blast
  have T: "push_words (gpr s RSP) \<subseteq> area M t" using push_context[of "gpr s RSP"] cw(1) tt(4) by (meson subset_trans)
  have "switch_pre g s"
    unfolding switch_pre_def Let_def r(1,2)
  proof (intro conjI allI impI)
    show "push_words (gpr s RSP) \<subseteq> dom (mem s)" using push_context cw(2) by blast
    show "gpr s RSP \<in> dom (mem s)" using sp cw(2) by blast
    show "{t, u, g} \<subseteq> dom (mem s)" using C(1,3) p(1) by auto
    show "t \<noteq> u" "t \<noteq> g" "u \<noteq> g" using C(6) U tt by auto
    show "u \<notin> push_words (gpr s RSP)" using U T by blast
    show "{t, g} \<inter> context_words (gpr s RSP - 48) = {}" using tt cw(1) by blast
    show "context_words q \<inter> (push_words (gpr s RSP) \<union> {t, g}) = {}" if "mem s u = Some q" for q
    proof -
      have "context_words q \<subseteq> insert u (stacks M u)" using that p(1,2) by auto
      moreover have "push_words (gpr s RSP) \<union> {t, g} \<subseteq> insert g (area M t)" using T tt(3) by auto
      ultimately show ?thesis using U by blast
    qed
  qed
  with p show ?thesis by blast
qed

lemma switch_coupled:
  assumes c: "coupled g M (m, t)" and u: "u \<in> live M - {t}" and r: "gpr s RDI = t" "gpr s RSI = u" "room (stacks M t) s"
    and s: "m_cpu M = s" "mem s (gpr s RSP) = Some ra"
  shows "\<exists>s'. exec f (context_switch g) s = Some s' \<and> m u = Some (resumed (stacks M u) s')
    \<and> coupled g (M\<lparr>m_cpu := s'\<rparr>) (m(t \<mapsto> leaving (stacks M t) ra s, u := None), u)"
proof -
  have C: "t \<in> live M" "t \<in> dom (mem s)" "layout g M" "dom m = live M - {t}"
    "\<And>u v. m u = Some v \<Longrightarrow> suspended (stacks M u) u (mem s) v"
    "\<And>u stk. u \<in> live M \<Longrightarrow> bases M u = Some stk \<Longrightarrow> stacks M u = block stk STACK_SIZE \<and> mem s (u + OFF_STACK) = Some stk"
    using c s(1) by (auto simp: coupled_def)
  obtain v where v: "m u = Some v" using u C(4) by blast
  obtain p where p: "switch_pre g s" "mem s u = Some p" "load_context (mem s) p = Some (v_ctx v)" "v_sp v = p + 56"
    "v_mem v = live_words (stacks M u) p (mem s)" "insert (p - 8) (context_words p) \<subseteq> stacks M u"
    using coupled_switch_pre[OF c v r s(1)] by blast
  obtain s' where s': "exec f (context_switch g) s = Some s'" "cpu_context s' (rip s') = v_ctx v" "gpr s' RSP = p + 56"
    "mem s' g = Some u" "mem s' t = Some (gpr s RSP - 48)"
    "load_context (mem s') (gpr s RSP - 48) = Some (cpu_context s ra)"
    "\<And>a. a \<notin> push_words (gpr s RSP) \<union> {t, g} \<Longrightarrow> mem s' a = mem s a"
    using context_switch_ok[OF p(1) s(2) p(2)[folded r(2)] p(3), of f] r(1,2) by auto
  let ?q = "gpr s RSP - 48"
  have cw: "insert (?q - 8) (context_words ?q) \<subseteq> stacks M t" "?q - 8 \<in> dom (mem s)"
    using r(3) by (auto simp: room_def diff_diff_eq)
  have off: "mem s' a = mem s a" if "a \<in> area M w" "w \<in> live M" "w \<noteq> t" for a w
    using apart[OF C(3) that(2) C(1) that(3,1)] push_context[of "gpr s RSP"] cw(1) in_own_block(1)[of t]
    by (intro s'(7)) (auto simp: area_def)
  have own: "mem s' a = mem s a" if "a \<in> stacks M t - context_words ?q \<union> {t + OFF_STACK}" for a
  proof (rule s'(7))
    have "t + OFF_STACK \<notin> stacks M t" "t \<notin> stacks M t" "g \<notin> area M t"
      using C(1,3) in_own_block[of t] by (auto simp: layout_def)
    moreover have "t \<noteq> t + OFF_STACK" by (simp add: layout_defs)
    ultimately show "a \<notin> push_words (gpr s RSP) \<union> {t, g}"
      using that push_context[of "gpr s RSP"] cw(1) in_own_block[of t] by (auto simp: area_def)
  qed
  have q8: "?q - 8 \<notin> context_words ?q" by (simp add: context_words_def)
  have live_t: "live_words (stacks M t) ?q (mem s') = live_words (stacks M t) ?q (mem s)"
    using own by (auto simp: live_words_def restrict_map_def)
  have live_u: "live_words (stacks M u) p (mem s') = live_words (stacks M u) p (mem s)"
    using off[of _ u] u by (auto simp: live_words_def restrict_map_def area_def)
  have "resumed (stacks M u) s' = v" using s'(2,3) p(4,5) live_u by (simp add: resumed_def)
  moreover have "suspended (stacks M t) t (mem s') (leaving (stacks M t) ra s)"
    unfolding suspended_def leaving_def
    using s'(5,6) cw q8 own[of "?q - 8"] live_t by (intro exI[of _ ?q]) (auto simp: dom_def)
  moreover have "suspended (stacks M w) w (mem s') x" if "m w = Some x" "w \<noteq> t" for w x
    using suspended_cong[OF C(5)[OF that(1)], of "mem s'"] off[of _ w] in_area(1)[of _ w M] that C(4) by blast
  moreover have "mem s' (w + OFF_STACK) = mem s (w + OFF_STACK)" if "w \<in> live M" for w
    using that own off[of "w + OFF_STACK" w] in_area(2)[of w M] by (cases "w = t") auto
  moreover have "u \<in> dom (mem s')" using off[of u u] u p(2) in_area(1)[of u u M] by auto
  moreover have "layout g (M\<lparr>m_cpu := s'\<rparr>)" using C(3) by (simp add: layout_def area_def)
  ultimately have "coupled g (M\<lparr>m_cpu := s'\<rparr>) (m(t \<mapsto> leaving (stacks M t) ra s, u := None), u)"
    using s'(4) u C(1,4,6) by (auto simp: coupled_def)
  with s'(1) v \<open>resumed (stacks M u) s' = v\<close> show ?thesis by blast
qed

lemma create_context_frame:
  assumes "create_context m d stk f x start = Some m'"
  shows "\<And>a. a \<notin> block stk STACK_SIZE \<union> block d SIZEOF_UTHREAD \<Longrightarrow> m' a = m a" "dom m \<subseteq> dom m'"
    "stk + STACK_SIZE - 72 \<in> dom m'"
proof -
  let ?p = "stk + STACK_SIZE - SIZEOF_CONTEXT - 8"
  obtain m1 m2 m3 c where m: "m1 = m(d + OFF_STACK \<mapsto> stk)" "memset0 m1 stk 4096 = Some m2"
      "m3 = m2(d + OFF_FUNCTION \<mapsto> f, d + OFF_ARGUMENT \<mapsto> x, d \<mapsto> ?p)" "store_context m3 ?p c = Some m'"
    using assms by (auto simp: create_context_def store_eq_Some Let_def split: bind_splits)
  have m2: "m2 = (\<lambda>a. if a \<in> dom m1 \<and> in_block a stk STACK_SIZE then Some 0 else m1 a)"
    and all: "\<forall>i<4096. stk + 8 * of_nat i \<in> dom m1"
    using m(2) by (auto simp: memset0_def STACK_SIZE_def split: if_splits)
  note sc = store_context_eq_Some[OF m(4)]
  have w: "context_words ?p \<subseteq> block stk STACK_SIZE" using top_words_in_block[of stk] by (auto simp: block_def)
  have b: "{d, d + OFF_FUNCTION, d + OFF_ARGUMENT, d + OFF_STACK} \<subseteq> block d SIZEOF_UTHREAD"
    by (simp add: block_def in_block_def layout_defs)
  show "m' a = m a" if "a \<notin> block stk STACK_SIZE \<union> block d SIZEOF_UTHREAD" for a
  proof -
    have "m' a = m3 a" using sc w that by blast
    also have "\<dots> = m2 a" using b that m(3) by auto
    also have "\<dots> = m a" using b that m(1) m2 by (auto simp: block_def)
    finally show ?thesis .
  qed
  have "dom m3 \<subseteq> dom m'"
    using m(4) by (auto simp: store_context_def store_eq_Some split: bind_splits)
  moreover have "dom m1 \<subseteq> dom m2" by (auto simp: m2)
  moreover have "dom m2 \<subseteq> dom m3" by (auto simp: m(3))
  ultimately have d: "dom m1 \<subseteq> dom m'" by blast
  then show "dom m \<subseteq> dom m'" using m(1) by auto
  have "stk + 8 * of_nat (4087::nat) \<in> dom m1" by (rule all[rule_format]) simp
  then show "stk + STACK_SIZE - 72 \<in> dom m'" using d by (auto simp: STACK_SIZE_def add.commute)
qed

lemma create_coupled:
  assumes c: "coupled g M (m, t)" and f: "fresh_blocks g M d stk"
    and cr: "create_context (mem (m_cpu M)) d stk fn x start = Some m'"
    and l: "load_context m' (stk + STACK_SIZE - SIZEOF_CONTEXT - 8) = Some k"
  shows "d \<noteq> t \<and> m d = None \<and> is_new start (new_view stk m' k)
    \<and> coupled g (M\<lparr>m_cpu := (m_cpu M)\<lparr>mem := m'\<rparr>, live := insert d (live M),
        stacks := (stacks M)(d := block stk STACK_SIZE), bases := (bases M)(d \<mapsto> stk)\<rparr>) (m(d \<mapsto> new_view stk m' k), t)"
proof -
  let ?p = "stk + STACK_SIZE - SIZEOF_CONTEXT - 8" and ?S = "block stk STACK_SIZE" and ?m = "mem (m_cpu M)"
  let ?M = "M\<lparr>m_cpu := (m_cpu M)\<lparr>mem := m'\<rparr>, live := insert d (live M), stacks := (stacks M)(d := ?S),
      bases := (bases M)(d \<mapsto> stk)\<rparr>"
  have C: "?m g = Some t" "t \<in> live M" "t \<in> dom ?m" "layout g M" "dom m = live M - {t}"
    "\<And>u v. m u = Some v \<Longrightarrow> suspended (stacks M u) u ?m v"
    "\<And>u stk. u \<in> live M \<Longrightarrow> bases M u = Some stk \<Longrightarrow> stacks M u = block stk STACK_SIZE \<and> ?m (u + OFF_STACK) = Some stk"
    using c by (auto simp: coupled_def)
  have F: "g \<notin> ?S \<union> block d SIZEOF_UTHREAD" "?S \<inter> block d SIZEOF_UTHREAD = {}"
    "\<And>u. u \<in> live M \<Longrightarrow> area M u \<inter> (?S \<union> block d SIZEOF_UTHREAD) = {}"
    using f by (auto simp: fresh_blocks_def Let_def)
  note fr = create_context_frame[OF cr]
  have b: "\<And>k. k \<in> {0, OFF_FUNCTION, OFF_ARGUMENT, OFF_STACK} \<Longrightarrow> d + k \<in> block d SIZEOF_UTHREAD"
    by (auto simp: block_def in_block_def layout_defs)
  have sep: "\<forall>k\<in>{0, OFF_FUNCTION, OFF_ARGUMENT, OFF_STACK}. \<not> in_block (d + k) stk STACK_SIZE"
    using F(2) b unfolding block_def disjoint_iff mem_Collect_eq by blast
  note R = create_context_result[OF cr sep]
  have nd: "d \<notin> live M" using F(3)[of d] in_own_block(1)[of d] by (auto simp: area_def)
  have off: "m' a = ?m a" if "u \<in> live M" "a \<in> area M u" for u a
    using fr(1) F(3)[OF that(1)] that(2) by blast
  have p56: "?p + 56 = stk + STACK_SIZE - 8" "?p - 8 = stk + STACK_SIZE - 72"
    by (simp_all add: layout_defs)
  have cw: "insert (?p - 8) (context_words ?p) \<subseteq> ?S"
    using top_words_in_block[of stk] by (auto simp: block_def in_block_def layout_defs)
  have top: "live_words ?S ?p m' (?p + 56) = Some 0"
    unfolding live_words_def
    using R(5) p56(1) top_words_in_block[of stk] by (simp add: context_words_def block_def in_block_def layout_defs)
  have new: "is_new start (new_view stk m' k)"
    using top R(6) l by (auto simp: is_new_def new_view_def Let_def)
  have "suspended ?S d m' (new_view stk m' k)"
    unfolding suspended_def new_view_def Let_def
  proof (intro exI[of _ ?p] conjI)
    show "?p - 8 \<in> dom m'" using fr(3) unfolding p56(2) .
  qed (use R(1) cw l in simp_all)
  moreover have "suspended (stacks M u) u m' v" if "m u = Some v" for u v
    using suspended_cong[OF C(6)[OF that], of m'] off[of u] in_area(1)[of _ u M] that C(5) by blast
  moreover have "layout g ?M" unfolding layout_def
  proof (intro conjI ballI impI)
    show "g \<notin> area ?M u" "stacks ?M u \<inter> block u SIZEOF_UTHREAD = {}" if "u \<in> live ?M" for u
      using that C(4) F(1,2) by (auto simp: layout_def area_def)
    show "area ?M u \<inter> area ?M w = {}" if uw: "u \<in> live ?M" "w \<in> live ?M" "u \<noteq> w" for u w
    proof -
      have a: "area ?M d = ?S \<union> block d SIZEOF_UTHREAD" "\<And>v. v \<noteq> d \<Longrightarrow> area ?M v = area M v" by (simp_all add: area_def)
      consider "u = d" "w \<in> live M" | "w = d" "u \<in> live M" | "u \<in> live M" "w \<in> live M" using uw by auto
      then show ?thesis
      proof cases
        case 1
        then show ?thesis using a(1) a(2)[of w] F(3)[of w] nd by blast
      next
        case 2
        then show ?thesis using a(1) a(2)[of u] F(3)[of u] nd by blast
      next
        case 3
        then have "area M u \<inter> area M w = {}" using C(4) uw(3) by (simp add: layout_def)
        then show ?thesis using a(2)[of u] a(2)[of w] 3 nd by auto
      qed
    qed
  qed
  moreover have "m' g = Some t" using fr(1) F(1) C(1) by auto
  moreover have "t \<in> dom m'" using fr(2) C(3) by blast
  moreover have "m' (u + OFF_STACK) = ?m (u + OFF_STACK)" if "u \<in> live M" for u
    using off[OF that in_area(2)] .
  ultimately have "coupled g ?M (m(d \<mapsto> new_view stk m' k), t)"
    unfolding coupled_def using C(2,5,7) R(2) nd by auto
  moreover have "m d = None" "d \<noteq> t" using nd C(2,5) by auto
  ultimately show ?thesis using new by blast
qed

lemma exit_coupled:
  assumes c: "coupled g M (m, t)" and b: "bases M t = Some stk" and u: "u \<in> live M - {t}"
    and r: "gpr s RDI = t" "gpr s RSI = u" and s: "m_cpu M = s"
  shows "\<exists>s'. exec (internal_cleanup junk) (internal_exit g ret) s = Some s' \<and> m u = Some (resumed (stacks M u) s')
    \<and> coupled g (M\<lparr>m_cpu := s', live := live M - {t}\<rparr>) (m(u := None), u)"
proof -
  have C: "mem s g = Some t" "t \<in> live M" "t \<in> dom (mem s)" "layout g M" "dom m = live M - {t}"
    "\<And>u v. m u = Some v \<Longrightarrow> suspended (stacks M u) u (mem s) v"
    "\<And>u stk. u \<in> live M \<Longrightarrow> bases M u = Some stk \<Longrightarrow> stacks M u = block stk STACK_SIZE \<and> mem s (u + OFF_STACK) = Some stk"
    using c s by (auto simp: coupled_def)
  obtain v where v: "m u = Some v" using u C(5) by blast
  obtain p where p: "mem s u = Some p" "insert (p - 8) (context_words p) \<subseteq> stacks M u" "p - 8 \<in> dom (mem s)"
    "load_context (mem s) p = Some (v_ctx v)" "v_sp v = p + 56" "v_mem v = live_words (stacks M u) p (mem s)"
    using C(6)[OF v] by (auto simp: suspended_def)
  have T: "area M t = block stk STACK_SIZE \<union> block t SIZEOF_UTHREAD" "mem s (t + OFF_STACK) = Some stk"
    "block stk STACK_SIZE \<inter> block t SIZEOF_UTHREAD = {}" "g \<notin> area M t"
    using C(2,4) C(7)[OF C(2) b] unfolding area_def layout_def by blast+
  have ap: "a \<noteq> g \<and> a \<notin> area M t" if "w \<in> live M" "w \<noteq> t" "a \<in> area M w" for w a
    using apart[OF C(4) that(1) C(2) that(2,3)] by blast
  have kept: "a \<notin> area M t \<longleftrightarrow> \<not> in_block a stk STACK_SIZE \<and> \<not> in_block a t SIZEOF_UTHREAD" for a
    by (simp add: T(1) block_def)
  have au: "insert u (insert (p - 8) (context_words p)) \<subseteq> area M u" using p(2) in_area(1)[of _ u M] by blast
  have kp: "a \<noteq> g \<and> a \<notin> area M t" if "a \<in> insert u (insert (p - 8) (context_words p))" for a
    using ap[of u a] u au that by blast
  have bt: "t \<in> area M t" "t + OFF_STACK \<in> area M t" using in_own_block by (auto simp: area_def)
  have "exit_pre g s p stk"
    unfolding exit_pre_def Let_def r(1,2)
  proof (intro conjI)
    show "{u, g, p - 8, t} \<subseteq> dom (mem s)" using C(1,3) p(1,3) by auto
    show "u \<noteq> g" "g \<notin> context_words p" "g \<noteq> p - 8" using kp by blast+
    show "g \<notin> {t, t + OFF_STACK}" "p - 8 \<notin> {t, t + OFF_STACK}" using T(4) bt kp[of "p - 8"] by auto
    show "\<not> in_block t stk STACK_SIZE" using T(3) in_own_block(1)[of t] by (auto simp: block_def)
    show "mem s u = Some p" "mem s (t + OFF_STACK) = Some stk" by fact+
    show "\<not> in_block g stk STACK_SIZE" "\<not> in_block g t SIZEOF_UTHREAD" using kept[of g] T(4) by auto
    show "\<not> in_block (p - 8) stk STACK_SIZE" "\<not> in_block (p - 8) t SIZEOF_UTHREAD" using kept[of "p - 8"] kp by auto
    show "\<forall>a\<in>context_words p. \<not> in_block a stk STACK_SIZE \<and> \<not> in_block a t SIZEOF_UTHREAD" using kept kp by auto
  qed
  from internal_exit_ok[OF this p(4), of junk ret] obtain s' where
    s': "exec (internal_cleanup junk) (internal_exit g ret) s = Some s'" "cpu_context s' (rip s') = v_ctx v"
    "gpr s' RSP = p + 56" "mem s' g = Some u" "\<And>a. a \<notin> area M t \<Longrightarrow> a \<notin> {g, p - 8} \<Longrightarrow> mem s' a = mem s a"
    using kept r by auto
  have off: "mem s' a = mem s a" if "w \<in> live M - {t}" "a \<in> area M w" "a \<noteq> p - 8" for w a
    using ap[of w a] that s'(5)[of a] by blast
  have p8: "p - 8 \<notin> area M w" if "w \<in> live M" "w \<noteq> u" for w
    using apart(2)[OF C(4) _ that(1), of u "p - 8"] u au that(2) by blast
  have "u \<notin> stacks M u" "u + OFF_STACK \<notin> stacks M u"
    using u C(4) in_own_block[of u] by (auto simp: layout_def)
  then have pu: "p - 8 \<noteq> u" "p - 8 \<noteq> u + OFF_STACK" using p(2) by auto
  have "live_words (stacks M u) p (mem s') = live_words (stacks M u) p (mem s)"
    using off[OF u] in_area(1)[of _ u M] by (auto simp: live_words_def restrict_map_def)
  then have "resumed (stacks M u) s' = v" using s'(2,3) p(5,6) by (simp add: resumed_def)
  moreover have "suspended (stacks M w) w (mem s') x" if "m w = Some x" "w \<noteq> u" for w x
  proof (rule suspended_cong[OF C(6)[OF that(1)]])
    have w: "w \<in> live M - {t}" using that C(5) by blast
    show "mem s' a = mem s a" if "a \<in> insert w (stacks M w)" for a
      using off[OF w] in_area(1)[OF that] p8[of w] w \<open>w \<noteq> u\<close> by blast
  qed
  moreover have "mem s' (w + OFF_STACK) = mem s (w + OFF_STACK)" if "w \<in> live M - {t}" for w
  proof (rule off[OF that in_area(2)])
    show "w + OFF_STACK \<noteq> p - 8" using p8[of w] that in_area(2)[of w M] pu(2) by (cases "w = u") auto
  qed
  moreover have "u \<in> dom (mem s')" using off[OF u, of u] in_area(1)[of u u M] pu(1) p(1) by auto
  moreover have "layout g (M\<lparr>m_cpu := s', live := live M - {t}\<rparr>)" using C(4) by (auto simp: layout_def area_def)
  ultimately have "coupled g (M\<lparr>m_cpu := s', live := live M - {t}\<rparr>) (m(u := None), u)"
    using s'(4) u C(5,7) by (auto simp: coupled_def)
  with s'(1) v \<open>resumed (stacks M u) s' = v\<close> show ?thesis by blast
qed

section \<open>Refinement\<close>

lemma step_coupled:
  assumes "machine_step g start M e M'" "coupled g M c"
  shows "\<exists>c'. co_step start e c = Some c' \<and> coupled g M' c'"
proof -
  obtain m t where c: "c = (m, t)" by (cases c)
  have cp: "coupled g M (m, t)" and g: "mem (m_cpu M) g = Some t" using assms(2) by (auto simp: c coupled_def)
  have same: "t' = t" if "mem (m_cpu M) g = Some t'" for t' using that g by simp
  show ?thesis using assms(1)
  proof cases
    case (compute t' s')
    then show ?thesis using compute_coupled[OF cp] same by (auto simp: c)
  next
    case (switch s t' u ra s')
    have t: "t' = t" using switch same by simp
    from switch_coupled[OF cp, of u s ra "\<lambda>_. None"] switch t show ?thesis by (auto simp: c)
  next
    case (switch_fault s t' u)
    have t: "t' = t" using switch_fault same by simp
    obtain ra where "mem s (gpr s RSP) = Some ra"
      using switch_fault by (auto simp: room_def context_words_def)
    from switch_coupled[OF cp, of u s ra "\<lambda>_. None"] this switch_fault t show ?thesis by auto
  next
    case (create d stk f x m' k)
    from create_coupled[OF cp create(3,4,5)] create show ?thesis by (auto simp: c)
  next
    case (exit s t' stk u junk ret s')
    have t: "t' = t" using exit same by simp
    from exit_coupled[OF cp, of stk u s junk ret] exit t show ?thesis by (auto simp: c)
  next
    case (exit_fault s t' stk u junk ret)
    have t: "t' = t" using exit_fault same by simp
    from exit_coupled[OF cp, of stk u s junk ret] exit_fault t show ?thesis by auto
  qed
qed

lemma run_coupled:
  assumes "machine_run g start M es M'" "coupled g M c"
  shows "\<exists>c'. co_run start es c = Some c' \<and> coupled g M' c'"
  using assms(1)
proof induction
  case start
  then show ?case using assms(2) by simp
next
  case (more es M1 e M2)
  then obtain c1 where c1: "co_run start es c = Some c1" "coupled g M1 c1" by blast
  from step_coupled[OF more.hyps(2) c1(2)] c1(1) show ?case by (auto simp: co_run_snoc)
qed

lemma start_coupled: "start_machine g main M \<Longrightarrow> coupled g M (Map.empty, main)"
  by (auto simp: start_machine_def coupled_def layout_def)

text \<open>C2: Threads that are switched by \<open>context_switch\<close>, made by \<open>ut_create\<close> and ended by
  \<open>internal_exit\<close> are coroutines. Whatever the threads compute in between on their own stacks and on
  shared memory, each one that is resumed, after any number of switches, creations and exits of
  others, finds its callee-saved registers, its next instruction, its RSP and every word of its
  stack as it left them; a new one starts at \<open>internal_start\<close>; the global names the running
  thread; and no run of the routines faults.\<close>

theorem threads_are_coroutines:
  assumes "start_machine g main M" "machine_run g start M es M'"
  shows "\<exists>m t. co_run start es (Map.empty, main) = Some (m, t)
    \<and> mem (m_cpu M') g = Some t \<and> t \<in> live M' \<and> dom m = live M' - {t}"
  using run_coupled[OF assms(2) start_coupled[OF assms(1)]] by (auto simp: coupled_def)

definition lone_machine :: machine where
  "lone_machine = \<lparr>m_cpu = \<lparr>gpr = (\<lambda>_. 7)(RSP := 0x1000, RDI := 0x800, RSI := 0x100), rip = 0,
     mem = (\<lambda>_. Some 1)(0x300 \<mapsto> 0x800)\<rparr>, live = {0x800},
     stacks = (\<lambda>_. insert (0x1000 - 56) (context_words (0x1000 - 48))), bases = Map.empty\<rparr>"

lemma store_total: "dom m = UNIV \<Longrightarrow> store m a v = Some (m(a \<mapsto> v))"
  by (rule store_at) simp

lemma create_total:
  assumes "dom m = UNIV"
  shows "\<exists>m'. create_context m d stk f x start = Some m'"
proof -
  let ?m1 = "m(d + OFF_STACK \<mapsto> stk)"
  have "\<forall>i<4096. stk + 8 * of_nat i \<in> dom ?m1" using assms by auto
  then obtain m2 where m2: "memset0 ?m1 stk 4096 = Some m2"
      "m2 = (\<lambda>a. if a \<in> dom ?m1 \<and> in_block a stk (8 * of_nat 4096) then Some 0 else ?m1 a)"
    by (simp add: memset0_def)
  moreover have "a \<in> dom m2" for a
  proof -
    have "a \<in> dom m" using assms by simp
    then show ?thesis by (auto simp: m2(2))
  qed
  then have "dom m2 = UNIV" by blast
  ultimately have "memset0 ?m1 stk 4096 = Some m2" "dom m2 = UNIV" by blast+
  then show ?thesis
    using assms by (simp add: create_context_def store_context_def store_total Let_def)
qed

lemma block_disjoint:
  assumes "unat p + unat n \<le> unat q" "unat q + unat k \<le> 2 ^ 64"
  shows "block p n \<inter> block q k = {}"
proof -
  have "unat r \<le> unat a \<and> unat a < unat r + unat j" if "in_block a r j" "unat r + unat j \<le> 2 ^ 64" for a r j :: ptr
    using that unsigned_less[of a] unsigned_less[of r]
    by (auto simp: in_block_def word_less_nat_alt unat_sub_if_size word_size split: if_splits)
  from this[of _ p n] this[of _ q k] assms show ?thesis by (force simp: block_def)
qed

lemma lone_start: "start_machine 0x300 0x800 lone_machine"
  by (auto simp: start_machine_def lone_machine_def area_def block_def in_block_def layout_defs context_words_def)

lemma lone_create:
  "\<exists>m' k. create_context (mem (m_cpu lone_machine)) 0x100 0x10000 0x5000 3 0x4000 = Some m'
    \<and> load_context m' (0x10000 + STACK_SIZE - SIZEOF_CONTEXT - 8) = Some k \<and> fresh_blocks 0x300 lone_machine 0x100 0x10000"
proof -
  have "dom (mem (m_cpu lone_machine)) = UNIV" by (auto simp: lone_machine_def)
  from create_total[OF this] obtain m' where
    m: "create_context (mem (m_cpu lone_machine)) 0x100 0x10000 0x5000 3 0x4000 = Some m'" by blast
  have sep: "\<forall>k\<in>{0, OFF_FUNCTION, OFF_ARGUMENT, OFF_STACK}. \<not> in_block (0x100 + k) 0x10000 STACK_SIZE"
    by (simp add: in_block_def layout_defs)
  have "block 0x100 SIZEOF_UTHREAD \<inter> block 0x10000 STACK_SIZE = {}" "block 0x100 SIZEOF_UTHREAD \<inter> block 0x800 SIZEOF_UTHREAD = {}"
    "block 0x800 SIZEOF_UTHREAD \<inter> block 0x10000 STACK_SIZE = {}"
    by (rule block_disjoint; simp add: layout_defs)+
  then have "fresh_blocks 0x300 lone_machine 0x100 0x10000"
    by (auto simp: fresh_blocks_def lone_machine_def area_def block_def in_block_def layout_defs context_words_def)
  with m create_context_result(6)[OF m sep] show ?thesis by blast
qed

lemma threads_are_coroutines_witness:
  "\<exists>M' v w m. machine_run 0x300 0x4000 lone_machine [Creates 0x100 v, Switches w 0x100 v] M'
    \<and> co_run 0x4000 [Creates 0x100 v, Switches w 0x100 v] (Map.empty, 0x800) = Some (m, 0x100)
    \<and> mem (m_cpu M') 0x300 = Some 0x100 \<and> dom m = {0x800} \<and> v_sp v = 0x17FF8"
proof -
  obtain m' k where cr: "create_context (mem (m_cpu lone_machine)) 0x100 0x10000 0x5000 3 0x4000 = Some m'"
    "load_context m' (0x10000 + STACK_SIZE - SIZEOF_CONTEXT - 8) = Some k" "fresh_blocks 0x300 lone_machine 0x100 0x10000"
    using lone_create by blast
  let ?s = "(m_cpu lone_machine)\<lparr>mem := m'\<rparr>"
  define M1 where "M1 = lone_machine\<lparr>m_cpu := ?s, live := insert 0x100 (live lone_machine),
      stacks := (stacks lone_machine)(0x100 := block 0x10000 STACK_SIZE), bases := (bases lone_machine)(0x100 \<mapsto> 0x10000)\<rparr>"
  let ?v = "new_view 0x10000 m' k"
  have st1: "machine_step 0x300 0x4000 lone_machine (Creates 0x100 ?v) M1"
    unfolding M1_def by (rule machine_step.create[OF cr(3,1,2)])
  have cp: "coupled 0x300 M1 ([0x100 \<mapsto> ?v], 0x800)"
    using create_coupled[OF start_coupled[OF lone_start] cr(3,1,2)] by (simp add: M1_def)
  have "UNIV \<subseteq> dom m'" using create_context_frame(2)[OF cr(1)] by (auto simp: lone_machine_def)
  then have m: "a \<in> dom m'" for a by blast
  then obtain ra where ra: "m' 0x1000 = Some ra" by blast
  have g: "mem ?s 0x300 = Some 0x800" "m_cpu M1 = ?s" "live M1 = {0x100, 0x800}" "gpr ?s RDI = 0x800" "gpr ?s RSI = 0x100"
    "gpr ?s RSP = 0x1000"
    using cp by (auto simp: coupled_def M1_def lone_machine_def)
  have rm: "room (stacks M1 0x800) ?s"
    unfolding room_def g(6) using m by (auto simp: M1_def lone_machine_def)
  have u: "0x100 \<in> live M1 - {0x800}" using g(3) by simp
  have r: "mem ?s (gpr ?s RSP) = Some ra" using ra g(6) by simp
  from switch_coupled[OF cp u g(4,5) rm g(2) r, of "\<lambda>_. None"] obtain s' where
    s': "exec (\<lambda>_. None) (context_switch 0x300) ?s = Some s'" "resumed (stacks M1 0x100) s' = ?v" by auto
  define w where "w = leaving (stacks M1 0x800) ra ?s"
  have st2: "machine_step 0x300 0x4000 M1 (Switches w 0x100 ?v) (M1\<lparr>m_cpu := s'\<rparr>)"
    using machine_step.switch[OF g(1) u g(4,5) rm r g(2) s'(1)] s'(2) by (simp add: w_def)
  have run: "machine_run 0x300 0x4000 lone_machine [Creates 0x100 ?v, Switches w 0x100 ?v] (M1\<lparr>m_cpu := s'\<rparr>)"
    using machine_run.more[OF machine_run.more[OF machine_run.start st1] st2] by simp
  obtain mm t where t: "co_run 0x4000 [Creates 0x100 ?v, Switches w 0x100 ?v] (Map.empty, 0x800) = Some (mm, t)"
    "mem (m_cpu (M1\<lparr>m_cpu := s'\<rparr>)) 0x300 = Some t" "dom mm = live (M1\<lparr>m_cpu := s'\<rparr>) - {t}"
    using threads_are_coroutines[OF lone_start run] by blast
  have "t = 0x100" using t(1) by (simp split: if_splits)
  then have "dom mm = {0x800}" using t(3) g(3) by auto
  moreover have "v_sp ?v = 0x17FF8" by (simp add: new_view_def Let_def layout_defs)
  ultimately show ?thesis using run t(1,2) \<open>t = 0x100\<close> by blast
qed

end
