(* ===== verification/Uthread.thy ===== *)
theory Uthread
  imports List_H Ctxsw
begin

text \<open>
  The user threads library of \<open>15-uthread-synch/uthreads\<close>: \<open>uthread.c\<close>, \<open>event.c\<close> and
  \<open>semaphore.c\<close>. A \<open>process\<close> is the memory these files work on: the list entries (of the
  ready queue, the thread descriptors, the synchronizers and the wait blocks), the static
  variables, and the other fields of each structure, keyed by its address.

  Control: a thread that gave up the processor continues, when it is switched back in, where
  it stopped (theorem \<open>context_roundtrip\<close> of \<open>Ctxsw\<close>). What it will still do is its saved
  context; here it is the list of the library calls it has left. A call that blocks puts its
  own remaining work (popping the wait block off the stack) in front of that list.
\<close>

section \<open>Memory of the process\<close>

record uthread =
  ut_function :: ptr
  ut_argument :: ptr
  ut_stack :: ptr

record waitblock =
  wb_thread :: ptr
  wb_units :: int      \<comment> \<open>\<open>units\<close> of a semaphore wait block, 0 in an event's\<close>

record semaphore =
  sem_units :: int
  sem_limit :: int

text \<open>
  The calls of a thread's code. The addresses in them are the choices of the environment:
  what \<open>malloc\<close> returns to \<open>UtCreate\<close> (descriptor and stack, 0 for NULL), and where on the
  caller's stack the wait block of \<open>EventWait\<close> and \<open>SemWait\<close> lies. \<open>Leave wb\<close> is the end of
  a blocking call, where its wait block goes out of scope.
\<close>

datatype action =
    UtCreate ptr ptr ptr ptr   \<comment> \<open>start routine, argument, descriptor, stack\<close>
  | UtYield
  | UtExit
  | EventInit ptr
  | EventWait ptr ptr
  | EventSet ptr
  | SemInit ptr int int
  | SemWait ptr int ptr
  | SemPost ptr int
  | Print string
  | is_leave: Leave ptr

record process =
  links :: "ptr lmem"
  ready_queue :: ptr                 \<comment> \<open>address of the static sentinel\<close>
  number_of_threads :: "32 word"
  running_thread :: ptr
  main_thread :: ptr
  threads :: "ptr \<rightharpoonup> uthread"
  contexts :: "ptr \<rightharpoonup> action list"
  blocks :: "ptr \<rightharpoonup> waitblock"
  events :: "ptr \<rightharpoonup> bool"
  sems :: "ptr \<rightharpoonup> semaphore"
  printed :: "string list"

definition entry_of :: "ptr \<Rightarrow> ptr" where
  "entry_of t = t + OFF_ENTRY"

text \<open>\<open>event_t\<close> has \<open>waiters\<close> at offset 8, \<open>semaphore_t\<close> and \<open>waitblock_t\<close> their list entry
  at offset 0.\<close>

definition event_waiters :: "ptr \<Rightarrow> ptr" where
  "event_waiters e = e + 8"

definition fresh_entry :: "ptr list_entry" where
  "fresh_entry = \<lparr>nxt = 0, prv = 0\<rparr>"

definition with_links :: "process \<Rightarrow> ptr lmem option \<Rightarrow> c_error + process" where
  "with_links s r = and_then (or_fail InvalidAccess r) (\<lambda>h. Inr (s\<lparr>links := h\<rparr>))"

section \<open>uthread.c\<close>

definition ready_is_empty :: "process \<Rightarrow> c_error + bool" where
  "ready_is_empty s = or_fail InvalidAccess (is_list_empty (links s) (ready_queue s))"

definition extract_next_thread :: "process \<Rightarrow> c_error + (process \<times> ptr)" where
  "extract_next_thread s = and_then (ready_is_empty s) (\<lambda>empty.
     if empty then Inr (s, main_thread s)
     else and_then (or_fail InvalidAccess (remove_list_first (links s) (ready_queue s)))
       (\<lambda>(h, entry). Inr (s\<lparr>links := h\<rparr>, container_of entry OFF_ENTRY)))"

text \<open>What \<open>context_switch\<close> does to the C state; there must be a saved context to load.\<close>

definition switch_to :: "process \<Rightarrow> ptr \<Rightarrow> c_error + process" where
  "switch_to s nx =
     (if contexts s nx = None then Inl InvalidAccess else Inr (s\<lparr>running_thread := nx\<rparr>))"

definition schedule :: "process \<Rightarrow> c_error + process" where
  "schedule s = and_then (extract_next_thread s) (\<lambda>(s1, next_thread). switch_to s1 next_thread)"

definition ut_init :: "process \<Rightarrow> c_error + process" where
  "ut_init s = with_links s (init_list_head (links s) (ready_queue s))"

definition ut_end :: "process \<Rightarrow> process" where
  "ut_end s = s"

definition ut_self :: "process \<Rightarrow> ptr" where
  "ut_self s = running_thread s"

definition ut_deactivate :: "process \<Rightarrow> c_error + process" where
  "ut_deactivate s = schedule s"

definition ut_activate :: "process \<Rightarrow> ptr \<Rightarrow> c_error + process" where
  "ut_activate s thread = with_links s (insert_list_last (links s) (ready_queue s) (entry_of thread))"

definition ut_yield :: "process \<Rightarrow> c_error + process" where
  "ut_yield s = and_then (ready_is_empty s) (\<lambda>empty.
     if empty then Inr s
     else and_then (with_links s (insert_list_last (links s) (ready_queue s)
                                    (entry_of (running_thread s)))) schedule)"

text \<open>\<open>internal_cleanup\<close> at this level: the descriptor, its list entry and its stack with the
  context saved on it are gone.\<close>

definition cleanup_thread :: "process \<Rightarrow> ptr \<Rightarrow> c_error + process" where
  "cleanup_thread s thread =
     (case threads s thread of
        None \<Rightarrow> Inl InvalidAccess
      | Some _ \<Rightarrow> Inr (s\<lparr>threads := (threads s)(thread := None),
                          contexts := (contexts s)(thread := None),
                          links := (links s)(entry_of thread := None)\<rparr>))"

definition ut_exit :: "process \<Rightarrow> c_error + process" where
  "ut_exit s =
     (let cur = running_thread s;
          s1 = s\<lparr>number_of_threads := number_of_threads s - 1\<rparr> in
      and_then (extract_next_thread s1) (\<lambda>(s2, next_thread).
      and_then (switch_to s2 next_thread) (\<lambda>s3. cleanup_thread s3 cur)))"

text \<open>
  \<open>ut_create\<close>: the first store, \<open>thread->stack\<close>, is made before the \<open>assert\<close> on the two
  \<open>malloc\<close> results. \<open>code f a\<close> is the calls made by the C function at address \<open>f\<close> when
  run on argument \<open>a\<close>; \<open>internal_start\<close> runs it and then \<open>ut_exit\<close>, which is what an
  empty context stands for.
\<close>

definition ut_create :: "(ptr \<Rightarrow> ptr \<Rightarrow> action list) \<Rightarrow> process \<Rightarrow> ptr \<Rightarrow> ptr \<Rightarrow> ptr \<Rightarrow> ptr
    \<Rightarrow> c_error + process" where
  "ut_create code s start_routine arg thread stack =
     (if thread = NULL then Inl InvalidAccess
      else if stack = NULL then Inl AssertFailed
      else
        let s1 = s\<lparr>threads := (threads s)(thread \<mapsto>
                     \<lparr>ut_function = start_routine, ut_argument = arg, ut_stack = stack\<rparr>),
                   contexts := (contexts s)(thread \<mapsto> code start_routine arg),
                   links := (links s)(entry_of thread \<mapsto> fresh_entry),
                   number_of_threads := number_of_threads s + 1\<rparr> in
        ut_activate s1 thread)"

text \<open>
  \<open>ut_run\<close> up to the switch (the flag is False when it returns at once), and from the moment
  the main thread is switched back in. \<open>thread\<close> is the address of its local descriptor.
\<close>

definition ut_run_enter :: "process \<Rightarrow> ptr \<Rightarrow> c_error + (process \<times> bool)" where
  "ut_run_enter s thread =
     (if running_thread s \<noteq> NULL then Inl AssertFailed
      else and_then (ready_is_empty s) (\<lambda>empty.
        if empty then Inr (s, False)
        else
          let s1 = s\<lparr>main_thread := thread, running_thread := thread,
                     contexts := (contexts s)(thread \<mapsto> [])\<rparr> in
          and_then (schedule s1) (\<lambda>s2. Inr (s2, True))))"

definition ut_run_leave :: "process \<Rightarrow> c_error + process" where
  "ut_run_leave s = and_then (ready_is_empty s) (\<lambda>empty.
     if \<not> empty then Inl AssertFailed
     else if number_of_threads s \<noteq> 0 then Inl AssertFailed
     else Inr (s\<lparr>contexts := (contexts s)(main_thread s := None),
                 running_thread := NULL, main_thread := NULL\<rparr>))"

section \<open>Wait blocks\<close>

definition init_waitblock :: "process \<Rightarrow> waitblock" where
  "init_waitblock s = \<lparr>wb_thread = ut_self s, wb_units = 0\<rparr>"

definition init_sem_waitblock :: "process \<Rightarrow> int \<Rightarrow> waitblock" where
  "init_sem_waitblock s units = (init_waitblock s)\<lparr>wb_units := units\<rparr>"

text \<open>The wait block as a local variable at \<open>wb\<close>: it appears with the call and goes away
  when the call returns, which the running thread's context now begins with.\<close>

definition push_block :: "process \<Rightarrow> ptr \<Rightarrow> waitblock \<Rightarrow> process" where
  "push_block s wb b =
     s\<lparr>blocks := (blocks s)(wb \<mapsto> b), links := (links s)(wb \<mapsto> fresh_entry),
       contexts := (contexts s)(running_thread s \<mapsto>
         Leave wb # (case contexts s (running_thread s) of None \<Rightarrow> [] | Some cs \<Rightarrow> cs))\<rparr>"

definition pop_block :: "process \<Rightarrow> ptr \<Rightarrow> process" where
  "pop_block s wb = s\<lparr>blocks := (blocks s)(wb := None), links := (links s)(wb := None)\<rparr>"

text \<open>Waking the thread of the wait block whose entry was taken off a wait list.\<close>

definition wake :: "process \<Rightarrow> ptr \<Rightarrow> c_error + process" where
  "wake s wb = (case blocks s wb of
      None \<Rightarrow> Inl InvalidAccess
    | Some b \<Rightarrow> ut_activate s (wb_thread b))"

section \<open>event.c\<close>

text \<open>The event is a variable of the program at \<open>event\<close>; its memory is there before
  \<open>event_init\<close> is called.\<close>

definition declare_event :: "process \<Rightarrow> ptr \<Rightarrow> process" where
  "declare_event s event = s\<lparr>links := (links s)(event_waiters event \<mapsto> fresh_entry)\<rparr>"

definition event_init :: "process \<Rightarrow> ptr \<Rightarrow> c_error + process" where
  "event_init s event =
     (let s1 = s\<lparr>events := (events s)(event \<mapsto> False)\<rparr> in
      with_links s1 (init_list_head (links s1) (event_waiters event)))"

definition event_wait :: "process \<Rightarrow> ptr \<Rightarrow> ptr \<Rightarrow> c_error + process" where
  "event_wait s event wblock =
     (case events s event of
        None \<Rightarrow> Inl InvalidAccess
      | Some True \<Rightarrow> Inr s
      | Some False \<Rightarrow>
          let s1 = push_block s wblock (init_waitblock s) in
          and_then (with_links s1 (insert_list_last (links s1) (event_waiters event) wblock))
            ut_deactivate)"

text \<open>The loop of \<open>event_set\<close>; \<open>None\<close> is a loop that does not end.\<close>

partial_function (option) event_drain :: "process \<Rightarrow> ptr \<Rightarrow> (c_error + process) option" where
  "event_drain s event =
     (case is_list_empty (links s) (event_waiters event) of
        None \<Rightarrow> Some (Inl InvalidAccess)
      | Some no_waiter \<Rightarrow>
          if no_waiter then Some (Inr s)
          else (case remove_list_first (links s) (event_waiters event) of
                  None \<Rightarrow> Some (Inl InvalidAccess)
                | Some (h, entry) \<Rightarrow>
                    (case wake (s\<lparr>links := h\<rparr>) entry of
                       Inl err \<Rightarrow> Some (Inl err)
                     | Inr s1 \<Rightarrow> event_drain s1 event)))"

definition event_set :: "process \<Rightarrow> ptr \<Rightarrow> c_error + process" where
  "event_set s event =
     (case events s event of
        None \<Rightarrow> Inl InvalidAccess
      | Some _ \<Rightarrow>
          (case event_drain (s\<lparr>events := (events s)(event \<mapsto> True)\<rparr>) event of
             None \<Rightarrow> Inl NoReturn
           | Some r \<Rightarrow> r))"

definition event_value :: "process \<Rightarrow> ptr \<Rightarrow> c_error + bool" where
  "event_value s event = or_fail InvalidAccess (events s event)"

section \<open>semaphore.c\<close>

definition declare_sem :: "process \<Rightarrow> ptr \<Rightarrow> process" where
  "declare_sem s sem = s\<lparr>links := (links s)(sem \<mapsto> fresh_entry)\<rparr>"

definition sem_init :: "process \<Rightarrow> ptr \<Rightarrow> int \<Rightarrow> int \<Rightarrow> c_error + process" where
  "sem_init s sem units limit =
     and_then (with_links s (init_list_head (links s) sem)) (\<lambda>s1.
       Inr (s1\<lparr>sems := (sems s1)(sem \<mapsto> \<lparr>sem_units = units, sem_limit = limit\<rparr>)\<rparr>))"

definition sem_wait :: "process \<Rightarrow> ptr \<Rightarrow> int \<Rightarrow> ptr \<Rightarrow> c_error + process" where
  "sem_wait s sem units wblock =
     (case sems s sem of
        None \<Rightarrow> Inl InvalidAccess
      | Some r \<Rightarrow>
          and_then (or_fail InvalidAccess (is_list_empty (links s) sem)) (\<lambda>empty.
          if empty \<and> sem_units r \<ge> units
          then and_then (c_int (sem_units r - units)) (\<lambda>u.
                 Inr (s\<lparr>sems := (sems s)(sem \<mapsto> r\<lparr>sem_units := u\<rparr>)\<rparr>))
          else
            let s1 = push_block s wblock (init_sem_waitblock s units) in
            and_then (with_links s1 (insert_list_last (links s1) sem wblock)) ut_deactivate))"

text \<open>The loop of \<open>sem_post\<close>, on the semaphore's record \<open>r\<close>.\<close>

partial_function (option) sem_release :: "process \<Rightarrow> ptr \<Rightarrow> (c_error + process) option" where
  "sem_release s sem =
     (case sems s sem of
        None \<Rightarrow> Some (Inl InvalidAccess)
      | Some r \<Rightarrow>
          if \<not> sem_units r > 0 then Some (Inr s)
          else (case links s sem of
             None \<Rightarrow> Some (Inl InvalidAccess)
           | Some waiters \<Rightarrow>
               if nxt waiters = sem then Some (Inr s)
               else (case blocks s (nxt waiters) of
                  None \<Rightarrow> Some (Inl InvalidAccess)
                | Some waitblock \<Rightarrow>
                    if sem_units r < wb_units waitblock then Some (Inr s)
                    else (case c_int (sem_units r - wb_units waitblock) of
                       Inl err \<Rightarrow> Some (Inl err)
                     | Inr u \<Rightarrow>
                         (case remove_list_first (links s) sem of
                            None \<Rightarrow> Some (Inl InvalidAccess)
                          | Some (h, _) \<Rightarrow>
                              (case ut_activate (s\<lparr>sems := (sems s)(sem \<mapsto> r\<lparr>sem_units := u\<rparr>),
                                                  links := h\<rparr>) (wb_thread waitblock) of
                                 Inl err \<Rightarrow> Some (Inl err)
                               | Inr s1 \<Rightarrow> sem_release s1 sem))))))"

definition sem_post :: "process \<Rightarrow> ptr \<Rightarrow> int \<Rightarrow> c_error + process" where
  "sem_post s sem units =
     (case sems s sem of
        None \<Rightarrow> Inl InvalidAccess
      | Some r \<Rightarrow>
          and_then (c_int (sem_units r + units)) (\<lambda>u.
            let u1 = (if u > sem_limit r then sem_limit r else u) in
            (case sem_release (s\<lparr>sems := (sems s)(sem \<mapsto> r\<lparr>sem_units := u1\<rparr>)\<rparr>) sem of
               None \<Rightarrow> Inl NoReturn
             | Some res \<Rightarrow> res)))"

declare event_drain.simps [code] sem_release.simps [code]

section \<open>Threads running\<close>

definition perform :: "(ptr \<Rightarrow> ptr \<Rightarrow> action list) \<Rightarrow> process \<Rightarrow> action \<Rightarrow> c_error + process" where
  "perform code s a =
     (case a of
        UtCreate f arg thread stack \<Rightarrow> ut_create code s f arg thread stack
      | UtYield \<Rightarrow> ut_yield s
      | UtExit \<Rightarrow> ut_exit s
      | EventInit e \<Rightarrow> event_init (declare_event s e) e
      | EventWait e wb \<Rightarrow> event_wait s e wb
      | EventSet e \<Rightarrow> event_set s e
      | SemInit p units limit \<Rightarrow> sem_init (declare_sem s p) p units limit
      | SemWait p units wb \<Rightarrow> sem_wait s p units wb
      | SemPost p units \<Rightarrow> sem_post s p units
      | Print str \<Rightarrow> Inr (s\<lparr>printed := printed s @ [str]\<rparr>)
      | Leave wb \<Rightarrow> Inr (pop_block s wb))"

text \<open>The running thread makes its next call; with none left its function has returned and
  \<open>internal_start\<close> calls \<open>ut_exit\<close>.\<close>

definition run_step :: "(ptr \<Rightarrow> ptr \<Rightarrow> action list) \<Rightarrow> process \<Rightarrow> c_error + process" where
  "run_step code s =
     (case contexts s (running_thread s) of
        None \<Rightarrow> Inl InvalidAccess
      | Some [] \<Rightarrow> ut_exit s
      | Some (a # as) \<Rightarrow>
          perform code (s\<lparr>contexts := (contexts s)(running_thread s \<mapsto> as)\<rparr>) a)"

text \<open>Calls made by the main thread before \<open>ut_run\<close>, and \<open>ut_run\<close> itself with fuel for the
  steps of the user threads.\<close>

fun perform_all :: "(ptr \<Rightarrow> ptr \<Rightarrow> action list) \<Rightarrow> process \<Rightarrow> action list \<Rightarrow> c_error + process" where
  "perform_all code s [] = Inr s"
| "perform_all code s (a # as) = and_then (perform code s a) (\<lambda>s1. perform_all code s1 as)"

fun run_threads :: "(ptr \<Rightarrow> ptr \<Rightarrow> action list) \<Rightarrow> nat \<Rightarrow> process \<Rightarrow> (c_error + process) option" where
  "run_threads code 0 s = (if running_thread s = main_thread s then Some (Inr s) else None)"
| "run_threads code (Suc n) s =
     (if running_thread s = main_thread s then Some (Inr s)
      else (case run_step code s of
              Inl err \<Rightarrow> Some (Inl err)
            | Inr s1 \<Rightarrow> run_threads code n s1))"

definition ut_run :: "(ptr \<Rightarrow> ptr \<Rightarrow> action list) \<Rightarrow> nat \<Rightarrow> process \<Rightarrow> ptr \<Rightarrow> (c_error + process) option" where
  "ut_run code fuel s thread =
     (case ut_run_enter s thread of
        Inl err \<Rightarrow> Some (Inl err)
      | Inr (s1, False) \<Rightarrow> Some (Inr s1)
      | Inr (s1, True) \<Rightarrow>
          (case run_threads code fuel s1 of
             None \<Rightarrow> None
           | Some (Inl err) \<Rightarrow> Some (Inl err)
           | Some (Inr s2) \<Rightarrow> Some (ut_run_leave s2)))"

end
