(* ===== verification/Uthread_Spec.thy ===== *)
theory Uthread_Spec
  imports Uthread
begin

text \<open>
  What the uthread library promises, over plain lists: a FIFO of ready threads and a FIFO of
  waiting threads per synchronizer. The specification of each call is a function on this
  state; \<open>spec_inv\<close> says that every live thread is in exactly one place, and each call keeps
  it. Nothing here mentions links, addresses of entries or wait blocks.
\<close>

record sched =
  s_ready :: "ptr list"
  s_running :: ptr
  s_main :: ptr
  s_live :: "ptr set"
  s_conts :: "ptr \<rightharpoonup> action list"
  s_event :: "ptr \<rightharpoonup> bool"
  s_sem :: "ptr \<rightharpoonup> semaphore"
  s_wait :: "ptr \<Rightarrow> (ptr \<times> int) list"   \<comment> \<open>waiting threads and the units they asked for\<close>
  s_out :: "string list"

section \<open>Specification of the calls\<close>

definition sp_next :: "sched \<Rightarrow> sched" where
  "sp_next a = (case s_ready a of
      [] \<Rightarrow> a\<lparr>s_running := s_main a\<rparr>
    | t # ts \<Rightarrow> a\<lparr>s_running := t, s_ready := ts\<rparr>)"

definition sp_yield :: "sched \<Rightarrow> sched" where
  "sp_yield a = (if s_ready a = [] then a
     else sp_next (a\<lparr>s_ready := s_ready a @ [s_running a]\<rparr>))"

definition sp_exit :: "sched \<Rightarrow> sched" where
  "sp_exit a = (sp_next a)\<lparr>s_live := s_live a - {s_running a},
     s_conts := (s_conts a)(s_running a := None)\<rparr>"

definition sp_create :: "(ptr \<Rightarrow> ptr \<Rightarrow> action list) \<Rightarrow> ptr \<Rightarrow> ptr \<Rightarrow> ptr \<Rightarrow> sched \<Rightarrow> sched" where
  "sp_create code f x t a = a\<lparr>s_ready := s_ready a @ [t], s_live := insert t (s_live a),
     s_conts := (s_conts a)(t \<mapsto> code f x)\<rparr>"

definition sp_block :: "ptr \<Rightarrow> ptr \<Rightarrow> int \<Rightarrow> sched \<Rightarrow> sched" where
  "sp_block q wb n a = sp_next (a\<lparr>s_wait := (s_wait a)(q := s_wait a q @ [(s_running a, n)]),
     s_conts := (s_conts a)(s_running a \<mapsto> Leave wb #
       (case s_conts a (s_running a) of None \<Rightarrow> [] | Some cs \<Rightarrow> cs))\<rparr>)"

definition sp_event_init :: "ptr \<Rightarrow> sched \<Rightarrow> sched" where
  "sp_event_init e a = a\<lparr>s_event := (s_event a)(e \<mapsto> False),
     s_wait := (s_wait a)(event_waiters e := [])\<rparr>"

definition sp_event_wait :: "ptr \<Rightarrow> ptr \<Rightarrow> sched \<Rightarrow> sched" where
  "sp_event_wait e wb a =
     (if s_event a e = Some True then a else sp_block (event_waiters e) wb 0 a)"

definition sp_event_set :: "ptr \<Rightarrow> sched \<Rightarrow> sched" where
  "sp_event_set e a = a\<lparr>s_event := (s_event a)(e \<mapsto> True),
     s_ready := s_ready a @ map fst (s_wait a (event_waiters e)),
     s_wait := (s_wait a)(event_waiters e := [])\<rparr>"

definition sp_sem_init :: "ptr \<Rightarrow> int \<Rightarrow> int \<Rightarrow> sched \<Rightarrow> sched" where
  "sp_sem_init p u l a = a\<lparr>s_sem := (s_sem a)(p \<mapsto> \<lparr>sem_units = u, sem_limit = l\<rparr>),
     s_wait := (s_wait a)(p := [])\<rparr>"

definition sp_sem_wait :: "ptr \<Rightarrow> int \<Rightarrow> ptr \<Rightarrow> sched \<Rightarrow> sched" where
  "sp_sem_wait p n wb a = (case s_sem a p of None \<Rightarrow> a | Some r \<Rightarrow>
     if s_wait a p = [] \<and> n \<le> sem_units r
     then a\<lparr>s_sem := (s_sem a)(p \<mapsto> r\<lparr>sem_units := sem_units r - n\<rparr>)\<rparr>
     else sp_block p wb n a)"

text \<open>Which waiters a number of units satisfies: those released, those left, units left.\<close>

fun grant :: "int \<Rightarrow> (ptr \<times> int) list \<Rightarrow> (ptr \<times> int) list \<times> (ptr \<times> int) list \<times> int" where
  "grant u [] = ([], [], u)"
| "grant u ((t, n) # ws) =
     (if u > 0 \<and> n \<le> u
      then (let (rel, left, u') = grant (u - n) ws in ((t, n) # rel, left, u'))
      else ([], (t, n) # ws, u))"

definition sp_sem_grant :: "ptr \<Rightarrow> sched \<Rightarrow> sched" where
  "sp_sem_grant p a = (case s_sem a p of None \<Rightarrow> a | Some r \<Rightarrow>
     (case grant (sem_units r) (s_wait a p) of (rel, left, u) \<Rightarrow>
        a\<lparr>s_sem := (s_sem a)(p \<mapsto> r\<lparr>sem_units := u\<rparr>),
          s_ready := s_ready a @ map fst rel,
          s_wait := (s_wait a)(p := left)\<rparr>))"

definition sp_sem_post :: "ptr \<Rightarrow> int \<Rightarrow> sched \<Rightarrow> sched" where
  "sp_sem_post p n a = (case s_sem a p of None \<Rightarrow> a | Some r \<Rightarrow>
     sp_sem_grant p (a\<lparr>s_sem := (s_sem a)(p \<mapsto>
       r\<lparr>sem_units := min (sem_units r + n) (sem_limit r)\<rparr>)\<rparr>))"

definition sp_perform :: "(ptr \<Rightarrow> ptr \<Rightarrow> action list) \<Rightarrow> action \<Rightarrow> sched \<Rightarrow> sched" where
  "sp_perform code c a =
     (case c of
        UtCreate f x t st \<Rightarrow> sp_create code f x t a
      | UtYield \<Rightarrow> sp_yield a
      | UtExit \<Rightarrow> sp_exit a
      | EventInit e \<Rightarrow> sp_event_init e a
      | EventWait e wb \<Rightarrow> sp_event_wait e wb a
      | EventSet e \<Rightarrow> sp_event_set e a
      | SemInit p u l \<Rightarrow> sp_sem_init p u l a
      | SemWait p n wb \<Rightarrow> sp_sem_wait p n wb a
      | SemPost p n \<Rightarrow> sp_sem_post p n a
      | Print str \<Rightarrow> a\<lparr>s_out := s_out a @ [str]\<rparr>
      | Leave wb \<Rightarrow> a)"

definition sp_step :: "(ptr \<Rightarrow> ptr \<Rightarrow> action list) \<Rightarrow> sched \<Rightarrow> sched" where
  "sp_step code a = (case s_conts a (s_running a) of
      None \<Rightarrow> a
    | Some [] \<Rightarrow> sp_exit a
    | Some (c # cs) \<Rightarrow> sp_perform code c (a\<lparr>s_conts := (s_conts a)(s_running a \<mapsto> cs)\<rparr>))"

section \<open>Every live thread in one place\<close>

definition waiting :: "sched \<Rightarrow> ptr \<Rightarrow> ptr set" where
  "waiting a q = fst ` set (s_wait a q)"

definition on_cpu :: "sched \<Rightarrow> ptr set" where
  "on_cpu a = (if s_running a = s_main a then {} else {s_running a})"

definition spec_inv :: "sched \<Rightarrow> bool" where
  "spec_inv a \<longleftrightarrow>
     distinct (s_ready a) \<and> (\<forall>q. distinct (map fst (s_wait a q)))
     \<and> on_cpu a \<inter> set (s_ready a) = {}
     \<and> (\<forall>q. waiting a q \<inter> (on_cpu a \<union> set (s_ready a)) = {})
     \<and> (\<forall>q q'. q \<noteq> q' \<longrightarrow> waiting a q \<inter> waiting a q' = {})
     \<and> s_live a = on_cpu a \<union> set (s_ready a) \<union> (\<Union>q. waiting a q)
     \<and> s_main a \<notin> s_live a
     \<and> (\<forall>t. t \<in> s_live a \<longrightarrow> s_conts a t \<noteq> None)
     \<and> (on_cpu a \<noteq> {} \<longrightarrow> s_conts a (s_main a) \<noteq> None)"

lemma spec_invD:
  assumes "spec_inv a"
  shows "distinct (s_ready a)" "distinct (map fst (s_wait a q))"
    "on_cpu a \<inter> set (s_ready a) = {}" "waiting a q \<inter> (on_cpu a \<union> set (s_ready a)) = {}"
    "q \<noteq> q' \<Longrightarrow> waiting a q \<inter> waiting a q' = {}"
    "s_live a = on_cpu a \<union> set (s_ready a) \<union> (\<Union>q. waiting a q)"
    "s_main a \<notin> s_live a" "t \<in> s_live a \<Longrightarrow> s_conts a t \<noteq> None"
    "on_cpu a \<noteq> {} \<Longrightarrow> s_conts a (s_main a) \<noteq> None"
proof -
  note i = assms[unfolded spec_inv_def]
  show "distinct (s_ready a)" by (rule i[THEN conjunct1, rule_format])
  show "distinct (map fst (s_wait a q))" by (rule i[THEN conjunct2, THEN conjunct1, rule_format])
  show "on_cpu a \<inter> set (s_ready a) = {}" by (rule i[THEN conjunct2, THEN conjunct2, THEN conjunct1, rule_format])
  show "waiting a q \<inter> (on_cpu a \<union> set (s_ready a)) = {}" by (rule i[THEN conjunct2, THEN conjunct2, THEN conjunct2, THEN conjunct1, rule_format])
  show "q \<noteq> q' \<Longrightarrow> waiting a q \<inter> waiting a q' = {}" by (rule i[THEN conjunct2, THEN conjunct2, THEN conjunct2, THEN conjunct2, THEN conjunct1, rule_format])
  show "s_live a = on_cpu a \<union> set (s_ready a) \<union> (\<Union>q. waiting a q)" by (rule i[THEN conjunct2, THEN conjunct2, THEN conjunct2, THEN conjunct2, THEN conjunct2, THEN conjunct1, rule_format])
  show "s_main a \<notin> s_live a" by (rule i[THEN conjunct2, THEN conjunct2, THEN conjunct2, THEN conjunct2, THEN conjunct2, THEN conjunct2, THEN conjunct1, rule_format])
  show "t \<in> s_live a \<Longrightarrow> s_conts a t \<noteq> None" by (rule i[THEN conjunct2, THEN conjunct2, THEN conjunct2, THEN conjunct2, THEN conjunct2, THEN conjunct2, THEN conjunct2, THEN conjunct1, rule_format])
  show "on_cpu a \<noteq> {} \<Longrightarrow> s_conts a (s_main a) \<noteq> None" by (rule i[THEN conjunct2, THEN conjunct2, THEN conjunct2, THEN conjunct2, THEN conjunct2, THEN conjunct2, THEN conjunct2, THEN conjunct2, rule_format])
qed

lemma waiting_simps [simp]:
  "waiting (a\<lparr>s_ready := r\<rparr>) = waiting a" "waiting (a\<lparr>s_running := t\<rparr>) = waiting a"
  "waiting (a\<lparr>s_live := l\<rparr>) = waiting a" "waiting (a\<lparr>s_conts := c\<rparr>) = waiting a"
  "waiting (a\<lparr>s_event := v\<rparr>) = waiting a" "waiting (a\<lparr>s_sem := m\<rparr>) = waiting a"
  "waiting (a\<lparr>s_out := ss\<rparr>) = waiting a"
  "waiting (a\<lparr>s_wait := w\<rparr>) q = fst ` set (w q)"
  by (simp_all add: waiting_def fun_eq_iff)

lemma on_cpu_simps [simp]:
  "on_cpu (a\<lparr>s_ready := r\<rparr>) = on_cpu a" "on_cpu (a\<lparr>s_wait := w\<rparr>) = on_cpu a"
  "on_cpu (a\<lparr>s_live := l\<rparr>) = on_cpu a" "on_cpu (a\<lparr>s_conts := c\<rparr>) = on_cpu a"
  "on_cpu (a\<lparr>s_event := v\<rparr>) = on_cpu a" "on_cpu (a\<lparr>s_sem := m\<rparr>) = on_cpu a"
  "on_cpu (a\<lparr>s_out := ss\<rparr>) = on_cpu a"
  by (simp_all add: on_cpu_def)

text \<open>
  \<open>placed a x\<close>: like \<open>spec_inv\<close>, but the thread \<open>x\<close> that was running has already been put
  somewhere (ready or waiting), or is the one about to be freed: the state in the middle of
  a blocking call, just before the next thread is picked.
\<close>

definition parked :: "sched \<Rightarrow> bool" where
  "parked a \<longleftrightarrow>
     distinct (s_ready a) \<and> (\<forall>q. distinct (map fst (s_wait a q)))
     \<and> (\<forall>q. waiting a q \<inter> set (s_ready a) = {})
     \<and> (\<forall>q q'. q \<noteq> q' \<longrightarrow> waiting a q \<inter> waiting a q' = {})
     \<and> s_live a = set (s_ready a) \<union> (\<Union>q. waiting a q)
     \<and> s_main a \<notin> s_live a
     \<and> (\<forall>t. t \<in> s_live a \<longrightarrow> s_conts a t \<noteq> None)
     \<and> s_conts a (s_main a) \<noteq> None"

lemma sp_next_inv: "parked a \<Longrightarrow> spec_inv (sp_next a)"
proof (cases "s_ready a")
  case Nil
  moreover assume "parked a"
  ultimately show ?thesis by (auto simp: parked_def spec_inv_def sp_next_def on_cpu_def)
next
  case (Cons t ts)
  moreover assume p: "parked a"
  moreover have "s_main a \<noteq> t" using p Cons by (auto simp: parked_def)
  ultimately show ?thesis
    by (auto simp: parked_def spec_inv_def sp_next_def on_cpu_def)
qed

lemma sp_yield_inv:
  assumes "spec_inv a" "s_running a \<noteq> s_main a"
  shows "spec_inv (sp_yield a)"
proof (cases "s_ready a = []")
  case True
  with assms show ?thesis by (simp add: sp_yield_def)
next
  case False
  have "parked (a\<lparr>s_ready := s_ready a @ [s_running a]\<rparr>)"
    using assms by (auto simp: parked_def spec_inv_def on_cpu_def)
  from sp_next_inv[OF this] False show ?thesis by (simp add: sp_yield_def)
qed

lemma sp_next_fields [simp]:
  "s_live (sp_next a) = s_live a" "s_conts (sp_next a) = s_conts a" "s_main (sp_next a) = s_main a"
  "s_event (sp_next a) = s_event a" "s_sem (sp_next a) = s_sem a" "s_wait (sp_next a) = s_wait a"
  "s_out (sp_next a) = s_out a"
  by (simp_all add: sp_next_def split: list.splits)

lemma sp_next_upd:
  "(sp_next a)\<lparr>s_live := l, s_conts := c\<rparr> = sp_next (a\<lparr>s_live := l, s_conts := c\<rparr>)"
  by (simp add: sp_next_def split: list.splits)

lemma sp_exit_inv:
  assumes "spec_inv a" "s_running a \<noteq> s_main a"
  shows "spec_inv (sp_exit a)"
proof -
  have "parked (a\<lparr>s_live := s_live a - {s_running a}, s_conts := (s_conts a)(s_running a := None)\<rparr>)"
    using assms by (auto simp: parked_def spec_inv_def on_cpu_def)
  from sp_next_inv[OF this] show ?thesis by (simp add: sp_exit_def sp_next_upd)
qed

lemma sp_create_inv:
  assumes "spec_inv a" "t \<notin> s_live a" "t \<noteq> s_main a"
  shows "spec_inv (sp_create code f x t a)"
  using assms by (auto simp: spec_inv_def sp_create_def)

lemma sp_block_inv:
  assumes "spec_inv a" "s_running a \<noteq> s_main a"
  shows "spec_inv (sp_block q wb n a)"
proof -
  let ?b = "a\<lparr>s_wait := (s_wait a)(q := s_wait a q @ [(s_running a, n)]),
     s_conts := (s_conts a)(s_running a \<mapsto> Leave wb #
       (case s_conts a (s_running a) of None \<Rightarrow> [] | Some cs \<Rightarrow> cs))\<rparr>"
  have w: "waiting ?b q' = (if q' = q then insert (s_running a) (waiting a q) else waiting a q')" for q'
    by (auto simp: waiting_def)
  have r: "s_running a \<notin> waiting a q'" "s_running a \<notin> set (s_ready a)" for q'
    using assms by (auto simp: spec_inv_def on_cpu_def)
  have d: "distinct (map fst (s_wait ?b q'))" for q'
    using assms r(1)[of q] by (auto simp: spec_inv_def waiting_def)
  have u: "(\<Union>q'. waiting ?b q') = insert (s_running a) (\<Union>q'. waiting a q')"
    unfolding w by auto
  have "parked ?b"
    unfolding parked_def
  proof (intro conjI allI impI)
    fix q' show "distinct (map fst (s_wait ?b q'))" by (rule d)
    show "waiting ?b q' \<inter> set (s_ready ?b) = {}"
      using assms r unfolding w by (auto simp: spec_inv_def)
    fix q'' :: ptr assume "q' \<noteq> q''"
    then show "waiting ?b q' \<inter> waiting ?b q'' = {}"
      using assms r unfolding w by (auto simp: spec_inv_def)
  next
    show "s_live ?b = set (s_ready ?b) \<union> (\<Union>q. waiting ?b q)"
      using assms unfolding u by (auto simp: spec_inv_def on_cpu_def)
  qed (use assms in \<open>auto simp: spec_inv_def on_cpu_def\<close>)
  from sp_next_inv[OF this] show ?thesis by (simp add: sp_block_def)
qed

lemma sp_event_init_eq:
  "s_wait a (event_waiters e) = [] \<Longrightarrow> sp_event_init e a = a\<lparr>s_event := (s_event a)(e \<mapsto> False)\<rparr>"
  by (cases a) (simp add: sp_event_init_def fun_upd_idem)

lemma sp_sem_init_eq:
  "s_wait a p = [] \<Longrightarrow> sp_sem_init p u l a =
     a\<lparr>s_sem := (s_sem a)(p \<mapsto> \<lparr>sem_units = u, sem_limit = l\<rparr>)\<rparr>"
  by (cases a) (simp add: sp_sem_init_def fun_upd_idem)

lemma spec_inv_other [simp]:
  "spec_inv (a\<lparr>s_event := v\<rparr>) = spec_inv a" "spec_inv (a\<lparr>s_sem := m\<rparr>) = spec_inv a"
  "spec_inv (a\<lparr>s_out := ss\<rparr>) = spec_inv a"
  by (simp_all add: spec_inv_def)

lemma sp_event_init_inv:
  "spec_inv a \<Longrightarrow> s_wait a (event_waiters e) = [] \<Longrightarrow> spec_inv (sp_event_init e a)"
  by (simp add: sp_event_init_eq)

lemma sp_sem_init_inv:
  "spec_inv a \<Longrightarrow> s_wait a p = [] \<Longrightarrow> spec_inv (sp_sem_init p u l a)"
  by (simp add: sp_sem_init_eq)

text \<open>Moving a prefix of a wait list to the end of the ready queue.\<close>

lemma release_inv:
  assumes "spec_inv a" "s_wait a q = rel @ left"
  shows "spec_inv (a\<lparr>s_ready := s_ready a @ map fst rel, s_wait := (s_wait a)(q := left)\<rparr>)"
    (is "spec_inv ?b")
proof -
  note I = spec_invD[OF assms(1)]
  have "distinct (map fst (s_wait a q))" by (rule I)
  then have "distinct (map fst rel) \<and> distinct (map fst left) \<and> fst ` set rel \<inter> fst ` set left = {}"
    unfolding assms(2) map_append distinct_append set_map .
  moreover have "waiting a q = fst ` set rel \<union> fst ` set left"
    unfolding waiting_def assms(2) set_append image_Un ..
  ultimately have wq: "waiting a q = fst ` set rel \<union> fst ` set left"
    "fst ` set rel \<inter> fst ` set left = {}" "distinct (map fst rel)" "distinct (map fst left)" by blast+
  have w: "waiting ?b q' = (if q' = q then fst ` set left else waiting a q')" for q'
    by (auto simp: waiting_def)
  have u: "fst ` set rel \<union> (\<Union>q'. waiting ?b q') = (\<Union>q'. waiting a q')"
  proof -
    have "(\<Union>q'. waiting ?b q') = fst ` set left \<union> (\<Union>q'\<in>-{q}. waiting a q')"
      unfolding w by auto
    moreover have "(\<Union>q'. waiting a q') = waiting a q \<union> (\<Union>q'\<in>-{q}. waiting a q')" by auto
    ultimately show ?thesis using wq(1) by auto
  qed
  have sub: "fst ` set rel \<subseteq> waiting a q" "fst ` set left \<subseteq> waiting a q" using wq(1) by auto
  have W: "waiting a q' \<inter> (on_cpu a \<union> set (s_ready a)) = {}" "q' \<noteq> q'' \<Longrightarrow> waiting a q' \<inter> waiting a q'' = {}"
    for q' q'' by (rule I, simp?)+
  show ?thesis
    unfolding spec_inv_def
  proof (intro conjI allI impI)
    have R: "distinct (s_ready a)" "on_cpu a \<inter> set (s_ready a) = {}" by (rule I)+
    show "distinct (s_ready ?b)" using R wq(1,3) W(1)[of q] by auto
    show "on_cpu ?b \<inter> set (s_ready ?b) = {}" using R sub W(1)[of q] by auto
    fix q'
    have "distinct (map fst (s_wait a q'))" by (rule I)
    then show "distinct (map fst (s_wait ?b q'))" using wq(4) by simp
    show "waiting ?b q' \<inter> (on_cpu ?b \<union> set (s_ready ?b)) = {}"
      using W(1)[of q'] W(2)[of q' q] sub wq(2) unfolding w by auto
    fix q'' assume "q' \<noteq> q''"
    then show "waiting ?b q' \<inter> waiting ?b q'' = {}"
      using W(2)[of q' q''] W(2)[of q q''] W(2)[of q' q] sub unfolding w by auto
  next
    have "s_live a = on_cpu a \<union> set (s_ready a) \<union> (\<Union>q. waiting a q)" by (rule I)
    then show "s_live ?b = on_cpu ?b \<union> set (s_ready ?b) \<union> (\<Union>q. waiting ?b q)"
      unfolding u[symmetric] by auto
  qed (use I(7-9) in \<open>simp_all\<close>)
qed

lemma sp_event_set_inv: "spec_inv a \<Longrightarrow> spec_inv (sp_event_set e a)"
  using release_inv[of "a\<lparr>s_event := (s_event a)(e \<mapsto> True)\<rparr>" "event_waiters e"
      "s_wait a (event_waiters e)" "[]"]
  by (simp add: sp_event_set_def)

lemma grant_split: "grant u ws = (rel, left, u') \<Longrightarrow> ws = rel @ left"
  by (induction u ws arbitrary: rel left u' rule: grant.induct)
     (auto split: if_splits prod.splits)

lemma sp_sem_grant_inv:
  assumes "spec_inv a"
  shows "spec_inv (sp_sem_grant p a)"
proof (cases "s_sem a p")
  case None
  with assms show ?thesis by (simp add: sp_sem_grant_def)
next
  case (Some r)
  obtain rel left u where g: "grant (sem_units r) (s_wait a p) = (rel, left, u)"
    by (cases "grant (sem_units r) (s_wait a p)") auto
  have "spec_inv ((a\<lparr>s_sem := (s_sem a)(p \<mapsto> r\<lparr>sem_units := u\<rparr>)\<rparr>)
      \<lparr>s_ready := s_ready a @ map fst rel, s_wait := (s_wait a)(p := left)\<rparr>)"
    using release_inv[of "a\<lparr>s_sem := (s_sem a)(p \<mapsto> r\<lparr>sem_units := u\<rparr>)\<rparr>" p rel left]
      assms grant_split[OF g] by simp
  with Some g show ?thesis by (simp add: sp_sem_grant_def)
qed

lemma sp_sem_post_inv: "spec_inv a \<Longrightarrow> spec_inv (sp_sem_post p n a)"
  by (simp add: sp_sem_post_def sp_sem_grant_inv split: option.splits)

lemma sp_sem_wait_inv:
  "spec_inv a \<Longrightarrow> s_running a \<noteq> s_main a \<Longrightarrow> spec_inv (sp_sem_wait p n wb a)"
  by (simp add: sp_sem_wait_def sp_block_inv split: option.splits)

lemma sp_event_wait_inv:
  "spec_inv a \<Longrightarrow> s_running a \<noteq> s_main a \<Longrightarrow> spec_inv (sp_event_wait e wb a)"
  by (simp add: sp_event_wait_def sp_block_inv)

lemma spec_inv_pop:
  "spec_inv a \<Longrightarrow> spec_inv (a\<lparr>s_conts := (s_conts a)(t \<mapsto> cs)\<rparr>)"
  by (auto simp: spec_inv_def)

end
