(* ===== verification/Uthread_Refine.thy ===== *)
theory Uthread_Refine
  imports Uthread_Spec
begin

text \<open>
  The code on linked memory against the specification on lists: \<open>heap_inv s R W\<close> relates the
  links to the ready threads \<open>R\<close> and to the wait blocks \<open>W q\<close> of each synchronizer, \<open>abs_of\<close>
  is the specification state they stand for. One lemma per routine gives its result; the
  simulation theorem covers every call.
\<close>

section \<open>The lists in memory\<close>

definition sentinels :: "process \<Rightarrow> ptr set" where
  "sentinels s = event_waiters ` dom (events s) \<union> dom (sems s)"

definition lists_of :: "process \<Rightarrow> ptr list \<Rightarrow> (ptr \<Rightarrow> ptr list) \<Rightarrow> ptr \<rightharpoonup> ptr list" where
  "lists_of s R W = (\<lambda>q. if q = ready_queue s then Some (map entry_of R)
     else if q \<in> sentinels s then Some (W q) else None)"

definition heap_inv :: "process \<Rightarrow> ptr list \<Rightarrow> (ptr \<Rightarrow> ptr list) \<Rightarrow> bool" where
  "heap_inv s R W \<longleftrightarrow>
     disjoint_lists dlist (links s) (lists_of s R W)
     \<and> ready_queue s \<notin> sentinels s
     \<and> event_waiters ` dom (events s) \<inter> dom (sems s) = {}
     \<and> entry_of ` dom (threads s) \<union> dom (blocks s) \<union> sentinels s \<union> {ready_queue s} \<subseteq> dom (links s)
     \<and> entry_of ` dom (threads s) \<inter> dom (blocks s) = {}
     \<and> (entry_of ` dom (threads s) \<union> dom (blocks s)) \<inter> insert (ready_queue s) (sentinels s) = {}
     \<and> set R \<subseteq> dom (threads s)
     \<and> (\<forall>q\<in>sentinels s. set (W q) \<subseteq> dom (blocks s))"

lemma heap_invD:
  assumes "heap_inv s R W"
  shows "disjoint_lists dlist (links s) (lists_of s R W)"
    "ready_queue s \<notin> sentinels s"
    "event_waiters ` dom (events s) \<inter> dom (sems s) = {}"
    "entry_of ` dom (threads s) \<union> dom (blocks s) \<union> sentinels s \<union> {ready_queue s} \<subseteq> dom (links s)"
    "entry_of ` dom (threads s) \<inter> dom (blocks s) = {}"
    "(entry_of ` dom (threads s) \<union> dom (blocks s)) \<inter> insert (ready_queue s) (sentinels s) = {}"
    "set R \<subseteq> dom (threads s)" "q \<in> sentinels s \<Longrightarrow> set (W q) \<subseteq> dom (blocks s)"
  using assms unfolding heap_inv_def by simp_all

lemma heap_invI:
  assumes "disjoint_lists dlist (links s) (lists_of s R W)"
    "ready_queue s \<notin> sentinels s"
    "event_waiters ` dom (events s) \<inter> dom (sems s) = {}"
    "entry_of ` dom (threads s) \<union> dom (blocks s) \<union> sentinels s \<union> {ready_queue s} \<subseteq> dom (links s)"
    "entry_of ` dom (threads s) \<inter> dom (blocks s) = {}"
    "(entry_of ` dom (threads s) \<union> dom (blocks s)) \<inter> insert (ready_queue s) (sentinels s) = {}"
    "set R \<subseteq> dom (threads s)" "\<And>q. q \<in> sentinels s \<Longrightarrow> set (W q) \<subseteq> dom (blocks s)"
  shows "heap_inv s R W"
  using assms unfolding heap_inv_def by simp

lemma entry_of_inj [simp]: "entry_of t = entry_of t' \<longleftrightarrow> t = t'"
  by (simp add: entry_of_def)

lemma entry_of_mem [simp]: "entry_of t \<in> entry_of ` A \<longleftrightarrow> t \<in> A"
  by auto

lemma container_entry [simp]: "container_of (entry_of t) OFF_ENTRY = t"
  by (simp add: entry_of_def)

lemma sentinels_simps [simp]:
  "sentinels (s\<lparr>links := h\<rparr>) = sentinels s" "sentinels (s\<lparr>running_thread := t\<rparr>) = sentinels s"
  "sentinels (s\<lparr>main_thread := t\<rparr>) = sentinels s" "sentinels (s\<lparr>contexts := c\<rparr>) = sentinels s"
  "sentinels (s\<lparr>number_of_threads := n\<rparr>) = sentinels s" "sentinels (s\<lparr>threads := th\<rparr>) = sentinels s"
  "sentinels (s\<lparr>blocks := b\<rparr>) = sentinels s" "sentinels (s\<lparr>printed := ss\<rparr>) = sentinels s"
  by (simp_all add: sentinels_def)

lemma lists_of_simps [simp]:
  "lists_of (s\<lparr>links := h\<rparr>) R W = lists_of s R W" "lists_of (s\<lparr>running_thread := t\<rparr>) R W = lists_of s R W"
  "lists_of (s\<lparr>main_thread := t\<rparr>) R W = lists_of s R W" "lists_of (s\<lparr>contexts := c\<rparr>) R W = lists_of s R W"
  "lists_of (s\<lparr>number_of_threads := n\<rparr>) R W = lists_of s R W"
  "lists_of (s\<lparr>threads := th\<rparr>) R W = lists_of s R W"
  "lists_of (s\<lparr>blocks := b\<rparr>) R W = lists_of s R W" "lists_of (s\<lparr>printed := ss\<rparr>) R W = lists_of s R W"
  by (simp_all add: lists_of_def fun_eq_iff cong: if_cong)

lemma heap_inv_simps [simp]:
  "heap_inv (s\<lparr>running_thread := t\<rparr>) R W = heap_inv s R W"
  "heap_inv (s\<lparr>main_thread := t\<rparr>) R W = heap_inv s R W"
  "heap_inv (s\<lparr>contexts := c\<rparr>) R W = heap_inv s R W"
  "heap_inv (s\<lparr>number_of_threads := n\<rparr>) R W = heap_inv s R W"
  "heap_inv (s\<lparr>printed := ss\<rparr>) R W = heap_inv s R W"
  by (simp_all add: heap_inv_def)

lemma lists_of_ready: "lists_of s R W (ready_queue s) = Some (map entry_of R)"
  by (simp add: lists_of_def)

lemma lists_of_wait: "q \<in> sentinels s \<Longrightarrow> q \<noteq> ready_queue s \<Longrightarrow> lists_of s R W q = Some (W q)"
  by (simp add: lists_of_def)

lemma lists_of_upd_ready: "(lists_of s R W)(ready_queue s \<mapsto> map entry_of R') = lists_of s R' W"
  by (simp add: lists_of_def fun_eq_iff)

lemma lists_of_upd_wait:
  "q \<in> sentinels s \<Longrightarrow> q \<noteq> ready_queue s \<Longrightarrow> (lists_of s R W)(q \<mapsto> xs) = lists_of s R (W(q := xs))"
  by (simp add: lists_of_def fun_eq_iff)

lemma nodes_lists_of:
  "x \<in> nodes (lists_of s R W) \<longleftrightarrow> x = ready_queue s \<or> x \<in> entry_of ` set R
     \<or> (\<exists>q\<in>sentinels s. q \<noteq> ready_queue s \<and> (x = q \<or> x \<in> set (W q)))"
  unfolding nodes_iff lists_of_def by (auto split: if_splits)

lemma thread_not_node:
  assumes "heap_inv s R W" "t \<in> dom (threads s)" "t \<notin> set R"
  shows "entry_of t \<notin> nodes (lists_of s R W)"
proof -
  note D = heap_invD[OF assms(1)]
  have "entry_of t \<in> entry_of ` dom (threads s)" using assms(2) by simp
  then have "entry_of t \<noteq> ready_queue s" "entry_of t \<notin> sentinels s" "entry_of t \<notin> dom (blocks s)"
    using D(5,6) by blast+
  moreover have "entry_of t \<notin> entry_of ` set R" using assms(3) by simp
  moreover have "entry_of t \<notin> set (W q)" if "q \<in> sentinels s" for q
    using D(8)[OF that] calculation(3) by blast
  ultimately show ?thesis unfolding nodes_lists_of by auto
qed

lemma block_not_node:
  assumes "heap_inv s R W" "wb \<in> dom (blocks s)" "\<forall>q\<in>sentinels s. wb \<notin> set (W q)"
  shows "wb \<notin> nodes (lists_of s R W)"
proof -
  note D = heap_invD[OF assms(1)]
  have "wb \<notin> entry_of ` set R" using D(5,7) assms(2) by blast
  moreover have "wb \<noteq> ready_queue s" "wb \<notin> sentinels s" using D(6) assms(2) by blast+
  ultimately show ?thesis unfolding nodes_lists_of using assms(3) by auto
qed

section \<open>The ready queue\<close>

lemma ready_is_empty_ok: "heap_inv s R W \<Longrightarrow> ready_is_empty s = Inr (R = [])"
  using lh.lists_is_empty[OF heap_invD(1) lists_of_ready] by (simp add: ready_is_empty_def)

lemma heap_inv_relink:
  assumes "heap_inv s R W" "disjoint_lists dlist h (lists_of s R' W')" "dom h = dom (links s)"
    "set R' \<subseteq> dom (threads s)" "\<forall>q\<in>sentinels s. set (W' q) \<subseteq> dom (blocks s)"
  shows "heap_inv (s\<lparr>links := h\<rparr>) R' W'"
  using assms unfolding heap_inv_def by simp

lemma ut_activate_ok:
  assumes i: "heap_inv s R W" and t: "t \<in> dom (threads s)" "t \<notin> set R"
  shows "\<exists>h. ut_activate s t = Inr (s\<lparr>links := h\<rparr>) \<and> heap_inv (s\<lparr>links := h\<rparr>) (R @ [t]) W"
proof -
  note D = heap_invD[OF i]
  have "entry_of t \<in> dom (links s)" using D(4) t(1) by blast
  from lh.lists_insert_last[OF D(1) lists_of_ready this thread_not_node[OF i t]]
  obtain h where h: "insert_list_last (links s) (ready_queue s) (entry_of t) = Some h"
    "disjoint_lists dlist h (lists_of s (R @ [t]) W)" "dom h = dom (links s)"
    using lists_of_upd_ready[of s R W "R @ [t]"] by auto
  have "heap_inv (s\<lparr>links := h\<rparr>) (R @ [t]) W"
    by (rule heap_inv_relink[OF i h(2,3)]) (use D(7,8) t in auto)
  with h(1) show ?thesis by (auto simp: ut_activate_def with_links_def)
qed

lemma extract_next_thread_ok:
  assumes i: "heap_inv s R W"
  shows "\<exists>h. extract_next_thread s = Inr (s\<lparr>links := h\<rparr>, case R of [] \<Rightarrow> main_thread s | t # _ \<Rightarrow> t)
    \<and> heap_inv (s\<lparr>links := h\<rparr>) (tl R) W"
proof (cases R)
  case Nil
  then show ?thesis using i ready_is_empty_ok[OF i]
    by (intro exI[of _ "links s"]) (simp add: extract_next_thread_def)
next
  case (Cons t ts)
  note D = heap_invD[OF i]
  have "lists_of s R W (ready_queue s) = Some (entry_of t # map entry_of ts)"
    by (simp add: lists_of_ready Cons)
  from lh.lists_remove_first[OF D(1) this] obtain h where
    h: "remove_list_first (links s) (ready_queue s) = Some (h, entry_of t)"
    "disjoint_lists dlist h (lists_of s ts W)" "dom h = dom (links s)"
    using lists_of_upd_ready[of s R W ts] by auto
  have "heap_inv (s\<lparr>links := h\<rparr>) ts W"
    by (rule heap_inv_relink[OF i h(2,3)]) (use D(7,8) Cons in auto)
  then show ?thesis using h(1) ready_is_empty_ok[OF i] Cons
    by (intro exI[of _ h]) (simp add: extract_next_thread_def)
qed

text \<open>\<open>schedule\<close>: the head of the ready queue runs, or the main thread.\<close>

lemma schedule_ok:
  assumes i: "heap_inv s R W"
    and c: "contexts s (case R of [] \<Rightarrow> main_thread s | t # _ \<Rightarrow> t) \<noteq> None"
  shows "\<exists>h. schedule s = Inr (s\<lparr>links := h,
        running_thread := (case R of [] \<Rightarrow> main_thread s | t # _ \<Rightarrow> t)\<rparr>)
    \<and> heap_inv (s\<lparr>links := h\<rparr>) (tl R) W"
proof -
  from extract_next_thread_ok[OF i] obtain h where
    h: "extract_next_thread s = Inr (s\<lparr>links := h\<rparr>, case R of [] \<Rightarrow> main_thread s | t # _ \<Rightarrow> t)"
    "heap_inv (s\<lparr>links := h\<rparr>) (tl R) W" by blast
  show ?thesis
    using c h(2) unfolding schedule_def h(1) and_then.simps prod.case switch_to_def by auto
qed

section \<open>Wait lists\<close>

lemma enqueue_block_ok:
  assumes i: "heap_inv s R W" and q: "q \<in> sentinels s" and b: "wb \<in> dom (blocks s)"
    "\<forall>q\<in>sentinels s. wb \<notin> set (W q)"
  shows "\<exists>h. with_links s (insert_list_last (links s) q wb) = Inr (s\<lparr>links := h\<rparr>)
    \<and> heap_inv (s\<lparr>links := h\<rparr>) R (W(q := W q @ [wb]))"
proof -
  note D = heap_invD[OF i]
  have qr: "q \<noteq> ready_queue s" using q D(2) by blast
  have "wb \<in> dom (links s)" using D(4) b(1) by blast
  from lh.lists_insert_last[OF D(1) lists_of_wait[OF q qr] this block_not_node[OF i b]]
  obtain h where h: "insert_list_last (links s) q wb = Some h"
    "disjoint_lists dlist h (lists_of s R (W(q := W q @ [wb])))" "dom h = dom (links s)"
    using lists_of_upd_wait[OF q qr] by auto
  have "heap_inv (s\<lparr>links := h\<rparr>) R (W(q := W q @ [wb]))"
    by (rule heap_inv_relink[OF i h(2,3)]) (use D(7,8) b(1) q in auto)
  with h(1) show ?thesis by (auto simp: with_links_def)
qed

lemma dequeue_block_ok:
  assumes i: "heap_inv s R W" and q: "q \<in> sentinels s" "W q = wb # ws"
  shows "\<exists>h. remove_list_first (links s) q = Some (h, wb)
    \<and> heap_inv (s\<lparr>links := h\<rparr>) R (W(q := ws))"
proof -
  note D = heap_invD[OF i]
  have qr: "q \<noteq> ready_queue s" using q D(2) by blast
  have "lists_of s R W q = Some (wb # ws)" using lists_of_wait[OF q(1) qr] q(2) by simp
  from lh.lists_remove_first[OF D(1) this] obtain h where
    h: "remove_list_first (links s) q = Some (h, wb)"
    "disjoint_lists dlist h (lists_of s R (W(q := ws)))" "dom h = dom (links s)"
    using lists_of_upd_wait[OF q(1) qr] by auto
  have "heap_inv (s\<lparr>links := h\<rparr>) R (W(q := ws))"
  proof (rule heap_inv_relink[OF i h(2,3) D(7)], intro ballI)
    fix q' assume "q' \<in> sentinels s"
    then show "set ((W(q := ws)) q') \<subseteq> dom (blocks s)"
      using D(8)[of q'] q(2) by (cases "q' = q") auto
  qed
  with h(1) show ?thesis by blast
qed

lemma wait_is_empty_ok:
  assumes "heap_inv s R W" "q \<in> sentinels s"
  shows "is_list_empty (links s) q = Some (W q = [])"
proof -
  have "q \<noteq> ready_queue s" using assms heap_invD(2) by blast
  from lh.lists_is_empty[OF heap_invD(1)[OF assms(1)] lists_of_wait[OF assms(2) this]]
  show ?thesis .
qed

lemma wait_head_ok:
  assumes "heap_inv s R W" "q \<in> sentinels s"
  shows "\<exists>e. links s q = Some e \<and> nxt e = first_or q (W q)"
proof -
  have "q \<noteq> ready_queue s" using assms heap_invD(2) by blast
  then have "dlist (links s) q (W q)"
    using heap_invD(1)[OF assms(1)] lists_of_wait[OF assms(2)] by (simp add: disjoint_lists_def)
  then have "nexts (links s) q = Some (first_or q (W q))"
    unfolding dlist_def by (rule ring_head_links)
  then show ?thesis by (rule nextsD)
qed

section \<open>Allocation\<close>

lemma heap_inv_change:
  assumes i: "heap_inv s R W"
    and eq: "ready_queue s' = ready_queue s" "events s' = events s" "sems s' = sems s"
      "dom (threads s') = T" "dom (blocks s') = B" "dom (links s') = L"
    and l: "disjoint_lists dlist (links s') (lists_of s R W)"
    and c: "entry_of ` T \<union> B \<union> sentinels s \<union> {ready_queue s} \<subseteq> L" "entry_of ` T \<inter> B = {}"
      "(entry_of ` T \<union> B) \<inter> insert (ready_queue s) (sentinels s) = {}" "set R \<subseteq> T"
      "\<And>q. q \<in> sentinels s \<Longrightarrow> set (W q) \<subseteq> B"
  shows "heap_inv s' R W"
proof -
  note D = heap_invD[OF i]
  have q: "sentinels s' = sentinels s" by (simp add: sentinels_def eq)
  have "lists_of s' R W = lists_of s R W" by (simp add: lists_of_def q eq(1) cong: if_cong)
  with l c D(2,3) show ?thesis by (intro heap_invI; simp only: eq q)
qed

lemma add_block_ok:
  assumes i: "heap_inv s R W" and f: "wb \<notin> dom (links s)"
  shows "heap_inv (push_block s wb b) R W" "\<forall>q\<in>sentinels s. wb \<notin> set (W q)"
proof -
  note D = heap_invD[OF i]
  show n: "\<forall>q\<in>sentinels s. wb \<notin> set (W q)" using D(4) D(8) f by blast
  have "wb \<notin> nodes (lists_of s R W)" using lh.lists_nodes_dom[OF D(1)] f by blast
  from lh.lists_alloc[OF D(1) this]
  have "disjoint_lists dlist ((links s)(wb \<mapsto> fresh_entry)) (lists_of s R W)" .
  moreover have "wb \<notin> entry_of ` dom (threads s)" "wb \<notin> sentinels s" "wb \<noteq> ready_queue s"
    using D(4) f by blast+
  ultimately have x: "disjoint_lists dlist ((links s)(wb \<mapsto> fresh_entry)) (lists_of s R W)"
    "wb \<notin> entry_of ` dom (threads s)" "wb \<notin> insert (ready_queue s) (sentinels s)" by blast+
  show "heap_inv (push_block s wb b) R W"
  proof (rule heap_inv_change[OF i])
    show "entry_of ` dom (threads s) \<union> insert wb (dom (blocks s)) \<union> sentinels s \<union> {ready_queue s}
      \<subseteq> insert wb (dom (links s))" using D(4) by blast
    show "entry_of ` dom (threads s) \<inter> insert wb (dom (blocks s)) = {}" using D(5) x(2) by blast
    show "(entry_of ` dom (threads s) \<union> insert wb (dom (blocks s))) \<inter> insert (ready_queue s) (sentinels s) = {}"
      using D(6) x(3) by blast
    show "set (W q) \<subseteq> insert wb (dom (blocks s))" if "q \<in> sentinels s" for q using D(8)[OF that] by blast
  qed (use x(1) D(7) in \<open>simp_all add: push_block_def\<close>)
qed

lemma pop_block_ok:
  assumes i: "heap_inv s R W" and b: "wb \<in> dom (blocks s)" "\<forall>q\<in>sentinels s. wb \<notin> set (W q)"
  shows "heap_inv (pop_block s wb) R W"
proof -
  note D = heap_invD[OF i]
  from lh.lists_alloc[OF D(1) block_not_node[OF i b]]
  have "disjoint_lists dlist ((links s)(wb := None)) (lists_of s R W)" .
  moreover have "wb \<notin> entry_of ` dom (threads s)" "wb \<notin> sentinels s" "wb \<noteq> ready_queue s"
    using D(5,6) b(1) by blast+
  ultimately have x: "disjoint_lists dlist ((links s)(wb := None)) (lists_of s R W)"
    "wb \<notin> entry_of ` dom (threads s)" "wb \<notin> insert (ready_queue s) (sentinels s)" by blast+
  show ?thesis
  proof (rule heap_inv_change[OF i])
    show "entry_of ` dom (threads s) \<union> (dom (blocks s) - {wb}) \<union> sentinels s \<union> {ready_queue s}
      \<subseteq> dom (links s) - {wb}" using D(4) x(2,3) by blast
    show "entry_of ` dom (threads s) \<inter> (dom (blocks s) - {wb}) = {}" using D(5) by blast
    show "(entry_of ` dom (threads s) \<union> (dom (blocks s) - {wb})) \<inter> insert (ready_queue s) (sentinels s) = {}"
      using D(6) by blast
    show "set (W q) \<subseteq> dom (blocks s) - {wb}" if "q \<in> sentinels s" for q
      using D(8)[OF that] b(2) that by blast
  qed (use x(1) D(7) in \<open>simp_all add: pop_block_def\<close>)
qed

definition add_thread :: "process \<Rightarrow> ptr \<Rightarrow> uthread \<Rightarrow> process" where
  "add_thread s t u = s\<lparr>threads := (threads s)(t \<mapsto> u), links := (links s)(entry_of t \<mapsto> fresh_entry)\<rparr>"

lemma add_thread_ok:
  assumes i: "heap_inv s R W" and f: "entry_of t \<notin> dom (links s)"
  shows "heap_inv (add_thread s t u) R W" "t \<notin> set R"
proof -
  note D = heap_invD[OF i]
  show "t \<notin> set R" using D(4,7) f by blast
  have "entry_of t \<notin> nodes (lists_of s R W)" using lh.lists_nodes_dom[OF D(1)] f by blast
  from lh.lists_alloc[OF D(1) this]
  have "disjoint_lists dlist ((links s)(entry_of t \<mapsto> fresh_entry)) (lists_of s R W)" .
  moreover have "entry_of t \<notin> dom (blocks s)" "entry_of t \<notin> sentinels s" "entry_of t \<noteq> ready_queue s"
    using D(4) f by blast+
  ultimately have x: "disjoint_lists dlist ((links s)(entry_of t \<mapsto> fresh_entry)) (lists_of s R W)"
    "entry_of t \<notin> dom (blocks s)" "entry_of t \<notin> insert (ready_queue s) (sentinels s)" by blast+
  show "heap_inv (add_thread s t u) R W"
  proof (rule heap_inv_change[OF i])
    show "entry_of ` insert t (dom (threads s)) \<union> dom (blocks s) \<union> sentinels s \<union> {ready_queue s}
      \<subseteq> insert (entry_of t) (dom (links s))" using D(4) by blast
    show "entry_of ` insert t (dom (threads s)) \<inter> dom (blocks s) = {}" using D(5) x(2) by blast
    show "(entry_of ` insert t (dom (threads s)) \<union> dom (blocks s))
        \<inter> insert (ready_queue s) (sentinels s) = {}" using D(6) x(3) by blast
    show "set R \<subseteq> insert t (dom (threads s))" using D(7) by blast
  qed (use x(1) D(8) in \<open>simp_all add: add_thread_def\<close>)
qed

lemma free_thread_ok:
  assumes i: "heap_inv s R W" and t: "t \<in> dom (threads s)" "t \<notin> set R"
  shows "heap_inv (s\<lparr>threads := (threads s)(t := None), links := (links s)(entry_of t := None)\<rparr>) R W"
proof -
  note D = heap_invD[OF i]
  from lh.lists_alloc[OF D(1) thread_not_node[OF i t]]
  have "disjoint_lists dlist ((links s)(entry_of t := None)) (lists_of s R W)" .
  moreover have "entry_of t \<in> entry_of ` dom (threads s)" using t(1) by simp
  ultimately have x: "disjoint_lists dlist ((links s)(entry_of t := None)) (lists_of s R W)"
    "entry_of t \<notin> dom (blocks s)" "entry_of t \<notin> insert (ready_queue s) (sentinels s)"
    using D(5,6) by blast+
  have e: "entry_of ` (dom (threads s) - {t}) = entry_of ` dom (threads s) - {entry_of t}" by auto
  show ?thesis
  proof (rule heap_inv_change[OF i])
    show "entry_of ` (dom (threads s) - {t}) \<union> dom (blocks s) \<union> sentinels s \<union> {ready_queue s}
      \<subseteq> dom (links s) - {entry_of t}" unfolding e using D(4) x(2,3) by blast
    show "entry_of ` (dom (threads s) - {t}) \<inter> dom (blocks s) = {}" unfolding e using D(5) by blast
    show "(entry_of ` (dom (threads s) - {t}) \<union> dom (blocks s))
        \<inter> insert (ready_queue s) (sentinels s) = {}" unfolding e using D(6) by blast
    show "set R \<subseteq> dom (threads s) - {t}" using D(7) t(2) by blast
  qed (use x(1) D(8) in simp_all)
qed

end
