(* ===== verification/Uthread_Sim.thy ===== *)
theory Uthread_Sim
  imports Uthread_Refine
begin

text \<open>
  The simulation: the state of the code, with its ready list \<open>R\<close> and wait lists \<open>W\<close>, stands for
  the specification state \<open>abs_of s R W\<close>, and each library call takes it to the state its
  specification gives, never touching memory that is not allocated.
\<close>

section \<open>The specification state of a process\<close>

definition block_info :: "process \<Rightarrow> ptr \<Rightarrow> ptr \<times> int" where
  "block_info s wb = (case blocks s wb of None \<Rightarrow> (0, 0) | Some b \<Rightarrow> (wb_thread b, wb_units b))"

definition abs_of :: "process \<Rightarrow> ptr list \<Rightarrow> (ptr \<Rightarrow> ptr list) \<Rightarrow> sched" where
  "abs_of s R W = \<lparr>s_ready = R, s_running = running_thread s, s_main = main_thread s,
     s_live = dom (threads s), s_conts = contexts s, s_event = events s, s_sem = sems s,
     s_wait = (\<lambda>q. if q \<in> sentinels s then map (block_info s) (W q) else []),
     s_out = printed s\<rparr>"

lemma abs_of_fields [simp]:
  "s_ready (abs_of s R W) = R" "s_running (abs_of s R W) = running_thread s"
  "s_main (abs_of s R W) = main_thread s" "s_live (abs_of s R W) = dom (threads s)"
  "s_conts (abs_of s R W) = contexts s" "s_event (abs_of s R W) = events s"
  "s_sem (abs_of s R W) = sems s" "s_out (abs_of s R W) = printed s"
  by (simp_all add: abs_of_def)

lemma abs_of_wait: "s_wait (abs_of s R W) q = (if q \<in> sentinels s then map (block_info s) (W q) else [])"
  by (simp add: abs_of_def)

lemma block_info_simps [simp]:
  "block_info (s\<lparr>links := h\<rparr>) = block_info s" "block_info (s\<lparr>running_thread := t\<rparr>) = block_info s"
  "block_info (s\<lparr>main_thread := t\<rparr>) = block_info s" "block_info (s\<lparr>contexts := c\<rparr>) = block_info s"
  "block_info (s\<lparr>number_of_threads := n\<rparr>) = block_info s"
  "block_info (s\<lparr>threads := th\<rparr>) = block_info s" "block_info (s\<lparr>printed := ss\<rparr>) = block_info s"
  "block_info (s\<lparr>sems := m\<rparr>) = block_info s" "block_info (s\<lparr>events := ev\<rparr>) = block_info s"
  by (simp_all add: block_info_def fun_eq_iff)

lemma abs_of_simps [simp]:
  "abs_of (s\<lparr>links := h\<rparr>) R W = abs_of s R W"
  "abs_of (s\<lparr>number_of_threads := n\<rparr>) R W = abs_of s R W"
  "abs_of (s\<lparr>running_thread := t\<rparr>) R W = (abs_of s R W)\<lparr>s_running := t\<rparr>"
  "abs_of (s\<lparr>main_thread := t\<rparr>) R W = (abs_of s R W)\<lparr>s_main := t\<rparr>"
  "abs_of (s\<lparr>contexts := c\<rparr>) R W = (abs_of s R W)\<lparr>s_conts := c\<rparr>"
  "abs_of (s\<lparr>threads := th\<rparr>) R W = (abs_of s R W)\<lparr>s_live := dom th\<rparr>"
  "abs_of (s\<lparr>printed := ss\<rparr>) R W = (abs_of s R W)\<lparr>s_out := ss\<rparr>"
  by (simp_all add: abs_of_def cong: if_cong)

lemma sentinels_sems: "dom m = dom (sems s) \<Longrightarrow> sentinels (s\<lparr>sems := m\<rparr>) = sentinels s"
  by (simp add: sentinels_def)

lemma sentinels_events: "dom m = dom (events s) \<Longrightarrow> sentinels (s\<lparr>events := m\<rparr>) = sentinels s"
  by (simp add: sentinels_def)

lemma abs_of_sems: "dom m = dom (sems s) \<Longrightarrow> abs_of (s\<lparr>sems := m\<rparr>) R W = (abs_of s R W)\<lparr>s_sem := m\<rparr>"
  by (simp add: abs_of_def sentinels_sems cong: if_cong)

lemma abs_of_events:
  "dom m = dom (events s) \<Longrightarrow> abs_of (s\<lparr>events := m\<rparr>) R W = (abs_of s R W)\<lparr>s_event := m\<rparr>"
  by (simp add: abs_of_def sentinels_events cong: if_cong)

lemma heap_inv_sems: "dom m = dom (sems s) \<Longrightarrow> heap_inv (s\<lparr>sems := m\<rparr>) R W = heap_inv s R W"
  by (simp add: heap_inv_def lists_of_def sentinels_sems cong: if_cong)

lemma heap_inv_events: "dom m = dom (events s) \<Longrightarrow> heap_inv (s\<lparr>events := m\<rparr>) R W = heap_inv s R W"
  by (simp add: heap_inv_def lists_of_def sentinels_events cong: if_cong)

lemma abs_of_ready: "abs_of s R' W = (abs_of s R W)\<lparr>s_ready := R'\<rparr>"
  by (simp add: abs_of_def)

lemma abs_of_upd_wait:
  "q \<in> sentinels s \<Longrightarrow> abs_of s R (W(q := ws)) =
     (abs_of s R W)\<lparr>s_wait := (s_wait (abs_of s R W))(q := map (block_info s) ws)\<rparr>"
  by (simp add: abs_of_def fun_eq_iff)

lemma sentinel_event: "e \<in> dom (events s) \<Longrightarrow> event_waiters e \<in> sentinels s"
  by (simp add: sentinels_def)

lemma sentinel_sem: "p \<in> dom (sems s) \<Longrightarrow> p \<in> sentinels s"
  by (simp add: sentinels_def)

section \<open>Switching to the next thread\<close>

lemma next_has_context:
  assumes "spec_inv a" "s_running a \<noteq> s_main a" "set R \<subseteq> s_live a"
  shows "s_conts a (case R of [] \<Rightarrow> s_main a | t # _ \<Rightarrow> t) \<noteq> None"
proof (cases R)
  case Nil
  then show ?thesis using spec_invD(9)[OF assms(1)] assms(2) by (simp add: on_cpu_def)
next
  case (Cons t ts)
  then have "t \<in> s_live a" using assms(3) by auto
  from spec_invD(8)[OF assms(1) this] Cons show ?thesis by simp
qed

lemma schedule_sim:
  assumes i: "heap_inv s R W"
    and c: "contexts s (case R of [] \<Rightarrow> main_thread s | t # _ \<Rightarrow> t) \<noteq> None"
  shows "\<exists>h t. schedule s = Inr (s\<lparr>links := h, running_thread := t\<rparr>)
    \<and> heap_inv (s\<lparr>links := h, running_thread := t\<rparr>) (tl R) W
    \<and> abs_of (s\<lparr>links := h, running_thread := t\<rparr>) (tl R) W = sp_next (abs_of s R W)"
proof -
  let ?t = "case R of [] \<Rightarrow> main_thread s | t # _ \<Rightarrow> t"
  from schedule_ok[OF i c] obtain h where
    h: "schedule s = Inr (s\<lparr>links := h, running_thread := ?t\<rparr>)" "heap_inv (s\<lparr>links := h\<rparr>) (tl R) W"
    by blast
  have "abs_of (s\<lparr>links := h, running_thread := ?t\<rparr>) (tl R) W = sp_next (abs_of s R W)"
    by (cases R) (simp_all add: sp_next_def abs_of_def cong: if_cong)
  with h show ?thesis by (intro exI[of _ h] exI[of _ ?t]) simp
qed

section \<open>Waking the first waiter\<close>

lemma wake_sim:
  assumes i: "heap_inv s R W" and v: "spec_inv (abs_of s R W)"
    and q: "q \<in> sentinels s" "W q = wb # ws"
  shows "\<exists>b h1 h2. blocks s wb = Some b \<and> remove_list_first (links s) q = Some (h1, wb)
    \<and> ut_activate (s\<lparr>links := h1\<rparr>) (wb_thread b) = Inr (s\<lparr>links := h2\<rparr>)
    \<and> heap_inv (s\<lparr>links := h2\<rparr>) (R @ [wb_thread b]) (W(q := ws))
    \<and> spec_inv (abs_of s (R @ [wb_thread b]) (W(q := ws)))"
proof -
  from dequeue_block_ok[of s R W q wb ws, OF i q] obtain h1 where
    h1: "remove_list_first (links s) q = Some (h1, wb)" "heap_inv (s\<lparr>links := h1\<rparr>) R (W(q := ws))"
    by blast
  have "wb \<in> dom (blocks s)" using heap_invD(8)[OF i q(1)] q(2) by auto
  then obtain b where b: "blocks s wb = Some b" by blast
  have info: "block_info s wb = (wb_thread b, wb_units b)" using b by (simp add: block_info_def)
  have w: "s_wait (abs_of s R W) q = [block_info s wb] @ map (block_info s) ws"
    using q by (simp add: abs_of_wait)
  then have "wb_thread b \<in> waiting (abs_of s R W) q" using info by (simp add: waiting_def)
  then have t: "wb_thread b \<in> dom (threads s)" "wb_thread b \<notin> set R"
    using spec_invD(4)[OF v, of q] spec_invD(6)[OF v] by auto
  have "wb_thread b \<in> dom (threads (s\<lparr>links := h1\<rparr>))" using t(1) by simp
  from ut_activate_ok[OF h1(2) this t(2)] obtain h2 where
    h2: "ut_activate (s\<lparr>links := h1\<rparr>) (wb_thread b) = Inr (s\<lparr>links := h2\<rparr>)"
    "heap_inv (s\<lparr>links := h2\<rparr>) (R @ [wb_thread b]) (W(q := ws))" by auto
  have "abs_of s (R @ [wb_thread b]) (W(q := ws)) =
      (abs_of s R W)\<lparr>s_ready := s_ready (abs_of s R W) @ map fst [block_info s wb],
        s_wait := (s_wait (abs_of s R W))(q := map (block_info s) ws)\<rparr>"
    by (subst abs_of_upd_wait[OF q(1)], subst abs_of_ready[of s "R @ [wb_thread b]" W R]) (simp add: info abs_of_def)
  then have "spec_inv (abs_of s (R @ [wb_thread b]) (W(q := ws)))"
    using release_inv[of "abs_of s R W", OF v w] by simp
  with b h1(1) h2 show ?thesis by blast
qed

section \<open>The loop of event_set\<close>

lemma event_drain_sim:
  "heap_inv s R W \<Longrightarrow> spec_inv (abs_of s R W) \<Longrightarrow> event_waiters e \<in> sentinels s \<Longrightarrow>
   W (event_waiters e) = ws \<Longrightarrow>
   \<exists>h. event_drain s e = Some (Inr (s\<lparr>links := h\<rparr>))
     \<and> heap_inv (s\<lparr>links := h\<rparr>) (R @ map (\<lambda>wb. fst (block_info s wb)) ws) (W(event_waiters e := []))"
proof (induction ws arbitrary: s R W)
  case Nil
  have "W(event_waiters e := []) = W" using Nil.prems(4) by auto
  moreover have "event_drain s e = Some (Inr s)"
    using wait_is_empty_ok[OF Nil.prems(1,3)] Nil.prems(4) by (simp add: event_drain.simps)
  ultimately show ?case using Nil.prems(1) by (intro exI[of _ "links s"]) simp
next
  case (Cons wb ws)
  from wake_sim[OF Cons.prems] obtain b h1 h2 where
    b: "blocks s wb = Some b" and r: "remove_list_first (links s) (event_waiters e) = Some (h1, wb)"
    and a: "ut_activate (s\<lparr>links := h1\<rparr>) (wb_thread b) = Inr (s\<lparr>links := h2\<rparr>)"
    and i: "heap_inv (s\<lparr>links := h2\<rparr>) (R @ [wb_thread b]) (W(event_waiters e := ws))"
    and v: "spec_inv (abs_of s (R @ [wb_thread b]) (W(event_waiters e := ws)))" by blast
  have "\<exists>h. event_drain (s\<lparr>links := h2\<rparr>) e = Some (Inr (s\<lparr>links := h2\<rparr>\<lparr>links := h\<rparr>))
     \<and> heap_inv (s\<lparr>links := h2\<rparr>\<lparr>links := h\<rparr>)
         ((R @ [wb_thread b]) @ map (\<lambda>wb. fst (block_info (s\<lparr>links := h2\<rparr>) wb)) ws)
         ((W(event_waiters e := ws))(event_waiters e := []))"
    by (rule Cons.IH[OF i], unfold abs_of_simps, rule v) (simp_all add: Cons.prems(3))
  moreover have "event_drain s e = event_drain (s\<lparr>links := h2\<rparr>) e"
    using wait_is_empty_ok[OF Cons.prems(1,3)] Cons.prems(4) r a b
    by (subst event_drain.simps) (simp add: wake_def)
  moreover have "fst (block_info s wb) = wb_thread b" by (simp add: block_info_def b)
  ultimately show ?case by (simp del: fun_upd_apply)
qed

section \<open>The loop of sem_post\<close>

lemma grant_Cons_no: "\<not> (u > 0 \<and> n \<le> u) \<Longrightarrow> grant u ((t, n) # ws) = ([], (t, n) # ws, u)"
  by auto

lemma grant_stop: "u \<le> 0 \<Longrightarrow> grant u ws = ([], ws, u)"
  by (cases ws) auto

lemma same_units: "sems s p = Some r \<Longrightarrow> s\<lparr>sems := (sems s)(p \<mapsto> r)\<rparr> = s"
  by (cases s) (auto simp: fun_upd_idem)

lemma sem_release_sim:
  "heap_inv s R W \<Longrightarrow> spec_inv (abs_of s R W) \<Longrightarrow> sems s p = Some r \<Longrightarrow> sem_units r \<le> INT_MAX \<Longrightarrow>
   (\<forall>wb b. blocks s wb = Some b \<longrightarrow> 0 \<le> wb_units b) \<Longrightarrow> W p = ws \<Longrightarrow>
   grant (sem_units r) (map (block_info s) ws) = (rel, left, u) \<Longrightarrow>
   \<exists>h. sem_release s p = Some (Inr (s\<lparr>links := h, sems := (sems s)(p \<mapsto> r\<lparr>sem_units := u\<rparr>)\<rparr>))
     \<and> heap_inv (s\<lparr>links := h\<rparr>) (R @ map fst rel) (W(p := drop (length rel) ws))"
proof (induction ws arbitrary: s R W r rel)
  case Nil
  have "p \<in> sentinels s" using Nil.prems(3) sentinel_sem by blast
  from wait_head_ok[OF Nil.prems(1) this] Nil.prems(6) obtain e where "links s p = Some e" "nxt e = p"
    by auto
  then have "sem_release s p = Some (Inr s)" using Nil.prems(3) by (simp add: sem_release.simps)
  moreover have "W(p := []) = W" using Nil.prems(6) by auto
  moreover have "rel = []" "u = sem_units r" using Nil.prems(7) by simp_all
  ultimately show ?case using Nil.prems(1)
    by (intro exI[of _ "links s"]) (simp add: same_units[OF Nil.prems(3)] del: fun_upd_apply)
next
  case (Cons wb ws)
  have q: "p \<in> sentinels s" using Cons.prems(3) sentinel_sem by blast
  from wake_sim[OF Cons.prems(1,2) q Cons.prems(6)] obtain b where b: "blocks s wb = Some b" by blast
  have bi: "block_info s wb = (wb_thread b, wb_units b)" by (simp add: block_info_def b)
  have n: "0 \<le> wb_units b" using Cons.prems(5) b by blast
  from wait_head_ok[OF Cons.prems(1) q] Cons.prems(6) obtain en where
    en: "links s p = Some en" "nxt en = wb" by auto
  have ne: "wb \<noteq> p" using heap_invD(6)[OF Cons.prems(1)] b q by blast
  show ?case
  proof (cases "sem_units r > 0 \<and> wb_units b \<le> sem_units r")
    case False
    then have "grant (sem_units r) (map (block_info s) (wb # ws)) = ([], map (block_info s) (wb # ws), sem_units r)"
      using bi by auto
    then have g: "rel = []" "u = sem_units r" using Cons.prems(7) by auto
    have "sem_release s p = Some (Inr s)"
      using False en b ne Cons.prems(3) by (subst sem_release.simps) auto
    moreover have "W(p := wb # ws) = W" using Cons.prems(6) by auto
    ultimately show ?thesis using Cons.prems(1) g
      by (intro exI[of _ "links s"]) (simp add: same_units[OF Cons.prems(3)] del: fun_upd_apply)
  next
    case True
    let ?r = "r\<lparr>sem_units := sem_units r - wb_units b\<rparr>"
    let ?s = "s\<lparr>sems := (sems s)(p \<mapsto> ?r)\<rparr>"
    obtain rel' where g: "grant (sem_units ?r) (map (block_info s) ws) = (rel', left, u)"
      "rel = block_info s wb # rel'"
      using Cons.prems(7) True bi by (auto split: prod.splits)
    have d: "dom ((sems s)(p \<mapsto> ?r)) = dom (sems s)" using Cons.prems(3) by auto
    have i0: "heap_inv ?s R W" using heap_inv_sems[OF d] Cons.prems(1) by simp
    have v0: "spec_inv (abs_of ?s R W)" using abs_of_sems[OF d] Cons.prems(2) by simp
    have q0: "p \<in> sentinels ?s" using q sentinels_sems[OF d] by simp
    from wake_sim[OF i0 v0 q0 Cons.prems(6)] b obtain h1 h2 where
      r: "remove_list_first (links s) p = Some (h1, wb)"
      and a: "ut_activate (?s\<lparr>links := h1\<rparr>) (wb_thread b) = Inr (?s\<lparr>links := h2\<rparr>)"
      and i: "heap_inv (?s\<lparr>links := h2\<rparr>) (R @ [wb_thread b]) (W(p := ws))"
      and v: "spec_inv (abs_of ?s (R @ [wb_thread b]) (W(p := ws)))" by auto
    have IH: "\<exists>h. sem_release (?s\<lparr>links := h2\<rparr>) p = Some (Inr (?s\<lparr>links := h2\<rparr>\<lparr>links := h,
          sems := (sems (?s\<lparr>links := h2\<rparr>))(p \<mapsto> ?r\<lparr>sem_units := u\<rparr>)\<rparr>))
       \<and> heap_inv (?s\<lparr>links := h2\<rparr>\<lparr>links := h\<rparr>) ((R @ [wb_thread b]) @ map fst rel')
           ((W(p := ws))(p := drop (length rel') ws))"
      by (rule Cons.IH[OF i], unfold abs_of_simps, rule v) (use g Cons.prems(4,5) n in simp_all)
    have "in_int (sem_units r - wb_units b)" using True n Cons.prems(4) by (simp add: c_int_bounds)
    then have "sem_release s p = sem_release (?s\<lparr>links := h2\<rparr>) p"
      using True en b ne r a Cons.prems(3)
      by (subst sem_release.simps) (simp add: c_int_in)
    moreover have "heap_inv (?s\<lparr>links := h\<rparr>) R' W' = heap_inv (s\<lparr>links := h\<rparr>) R' W'" for h R' W'
      using heap_inv_sems[of "(sems s)(p \<mapsto> ?r)" "s\<lparr>links := h\<rparr>" R' W'] d by (cases s) simp
    ultimately show ?thesis
      using IH g(2) bi by (simp del: fun_upd_apply)
  qed
qed

section \<open>The invariant of the library\<close>

text \<open>
  A wait block exists exactly while the call of its owner is under way: the owner's saved
  context begins with leaving it, and no \<open>Leave\<close> occurs anywhere else.
\<close>

definition no_leave :: "action list \<Rightarrow> bool" where
  "no_leave cs \<longleftrightarrow> list_all (\<lambda>a. \<not> is_leave a) cs"

lemma no_leave_iff: "no_leave cs \<longleftrightarrow> (\<forall>wb. Leave wb \<notin> set cs)"
  by (auto simp: no_leave_def list_all_iff is_leave_def)

definition blocks_owned :: "(ptr \<rightharpoonup> waitblock) \<Rightarrow> (ptr \<rightharpoonup> action list) \<Rightarrow> bool" where
  "blocks_owned bs cx \<longleftrightarrow>
     (\<forall>t cs. cx t = Some cs \<longrightarrow> no_leave (tl cs))
     \<and> (\<forall>wb b. bs wb = Some b \<longrightarrow> (\<exists>cs. cx (wb_thread b) = Some (Leave wb # cs)))
     \<and> (\<forall>t wb cs. cx t = Some (Leave wb # cs) \<longrightarrow> (\<exists>b. bs wb = Some b \<and> wb_thread b = t))"

definition counters_ok :: "process \<Rightarrow> bool" where
  "counters_ok s \<longleftrightarrow> finite (dom (threads s)) \<and> card (dom (threads s)) < 2 ^ 32
     \<and> number_of_threads s = of_nat (card (dom (threads s)))
     \<and> (\<forall>p r. sems s p = Some r \<longrightarrow> 0 \<le> sem_units r \<and> sem_units r \<le> sem_limit r \<and> sem_limit r \<le> INT_MAX)
     \<and> (\<forall>wb b. blocks s wb = Some b \<longrightarrow> 0 \<le> wb_units b)"

definition um_inv :: "process \<Rightarrow> ptr list \<Rightarrow> (ptr \<Rightarrow> ptr list) \<Rightarrow> bool" where
  "um_inv s R W \<longleftrightarrow> heap_inv s R W \<and> spec_inv (abs_of s R W) \<and> counters_ok s
     \<and> blocks_owned (blocks s) (contexts s)"

lemma um_invD:
  assumes "um_inv s R W"
  shows "heap_inv s R W" "spec_inv (abs_of s R W)" "counters_ok s" "blocks_owned (blocks s) (contexts s)"
  using assms by (simp_all add: um_inv_def)

lemma counters_okD:
  assumes "counters_ok s"
  shows "finite (dom (threads s))" "card (dom (threads s)) < 2 ^ 32"
    "number_of_threads s = of_nat (card (dom (threads s)))"
    "sems s p = Some r \<Longrightarrow> 0 \<le> sem_units r" "sems s p = Some r \<Longrightarrow> sem_units r \<le> sem_limit r"
    "sems s p = Some r \<Longrightarrow> sem_limit r \<le> INT_MAX"
    "blocks s wb = Some b \<Longrightarrow> 0 \<le> wb_units b"
  using assms by (simp_all add: counters_ok_def)

lemma counters_ok_simps [simp]:
  "counters_ok (s\<lparr>links := h\<rparr>) = counters_ok s" "counters_ok (s\<lparr>running_thread := t\<rparr>) = counters_ok s"
  "counters_ok (s\<lparr>main_thread := t\<rparr>) = counters_ok s" "counters_ok (s\<lparr>contexts := c\<rparr>) = counters_ok s"
  "counters_ok (s\<lparr>events := ev\<rparr>) = counters_ok s" "counters_ok (s\<lparr>printed := ss\<rparr>) = counters_ok s"
  by (simp_all add: counters_ok_def)

lemma blocks_ownedD:
  assumes "blocks_owned bs cx"
  shows "cx t = Some cs \<Longrightarrow> no_leave (tl cs)"
    "bs wb = Some b \<Longrightarrow> \<exists>cs. cx (wb_thread b) = Some (Leave wb # cs)"
    "cx t = Some (Leave wb # cs) \<Longrightarrow> \<exists>b. bs wb = Some b \<and> wb_thread b = t"
  using assms by (simp_all add: blocks_owned_def)

text \<open>The running thread takes its next call off its context.\<close>

lemma blocks_owned_pop:
  assumes o: "blocks_owned bs cx" and c: "cx t = Some (a # cs)" and a: "\<forall>wb. a \<noteq> Leave wb"
  shows "blocks_owned bs (cx(t \<mapsto> cs)) \<and> no_leave cs"
proof
  have nl: "no_leave cs" using blocks_ownedD(1)[OF o c] by simp
  then show "no_leave cs" .
  have tl: "no_leave (tl cs)" using nl by (cases cs) (simp_all add: no_leave_iff)
  have hd: "cs \<noteq> Leave wb # cs'" for wb cs' using nl by (auto simp: no_leave_iff)
  show "blocks_owned bs (cx(t \<mapsto> cs))"
    unfolding blocks_owned_def
  proof (intro conjI allI impI)
    fix t' cs' assume "(cx(t \<mapsto> cs)) t' = Some cs'"
    then show "no_leave (tl cs')" using tl blocks_ownedD(1)[OF o] by (cases "t' = t") auto
  next
    fix wb b assume "bs wb = Some b"
    from blocks_ownedD(2)[OF o this] obtain cs' where "cx (wb_thread b) = Some (Leave wb # cs')" by blast
    then show "\<exists>cs'. (cx(t \<mapsto> cs)) (wb_thread b) = Some (Leave wb # cs')"
      using c a by (cases "wb_thread b = t") auto
  next
    fix t' wb cs' assume "(cx(t \<mapsto> cs)) t' = Some (Leave wb # cs')"
    then show "\<exists>b. bs wb = Some b \<and> wb_thread b = t'"
      using hd blocks_ownedD(3)[OF o] by (cases "t' = t") auto
  qed
qed

lemma blocks_owned_leave:
  assumes o: "blocks_owned bs cx" and c: "cx t = Some (Leave wb # cs)"
  shows "blocks_owned (bs(wb := None)) (cx(t \<mapsto> cs)) \<and> no_leave cs"
proof
  have nl: "no_leave cs" using blocks_ownedD(1)[OF o c] by simp
  then show "no_leave cs" .
  have tl: "no_leave (tl cs)" using nl by (cases cs) (simp_all add: no_leave_iff)
  have hd: "cs \<noteq> Leave wb # cs'" for wb cs' using nl by (auto simp: no_leave_iff)
  show "blocks_owned (bs(wb := None)) (cx(t \<mapsto> cs))"
    unfolding blocks_owned_def
  proof (intro conjI allI impI)
    fix t' cs' assume "(cx(t \<mapsto> cs)) t' = Some cs'"
    then show "no_leave (tl cs')" using tl blocks_ownedD(1)[OF o] by (cases "t' = t") auto
  next
    fix w b assume "(bs(wb := None)) w = Some b"
    then have "w \<noteq> wb" "bs w = Some b" by (auto split: if_splits)
    moreover from blocks_ownedD(2)[OF o this(2)] obtain cs' where
      "cx (wb_thread b) = Some (Leave w # cs')" by blast
    ultimately show "\<exists>cs'. (cx(t \<mapsto> cs)) (wb_thread b) = Some (Leave w # cs')"
      using c by (cases "wb_thread b = t") auto
  next
    fix t' w cs' assume "(cx(t \<mapsto> cs)) t' = Some (Leave w # cs')"
    then have "t' \<noteq> t" "cx t' = Some (Leave w # cs')" using hd by (auto split: if_splits)
    moreover from blocks_ownedD(3)[OF o this(2)] blocks_ownedD(3)[OF o c]
    have "w \<noteq> wb" using calculation(1) by auto
    ultimately show "\<exists>b. (bs(wb := None)) w = Some b \<and> wb_thread b = t'"
      using blocks_ownedD(3)[OF o] by auto
  qed
qed

lemma blocks_owned_push:
  assumes o: "blocks_owned bs cx" and c: "cx t = Some cs" "no_leave cs" and w: "bs wb = None"
    and b: "wb_thread b = t"
  shows "blocks_owned (bs(wb \<mapsto> b)) (cx(t \<mapsto> Leave wb # cs))"
  unfolding blocks_owned_def
proof (intro conjI allI impI)
  fix t' cs' assume "(cx(t \<mapsto> Leave wb # cs)) t' = Some cs'"
  then show "no_leave (tl cs')" using c(2) blocks_ownedD(1)[OF o] by (cases "t' = t") auto
next
  fix w' b' assume "(bs(wb \<mapsto> b)) w' = Some b'"
  then show "\<exists>cs'. (cx(t \<mapsto> Leave wb # cs)) (wb_thread b') = Some (Leave w' # cs')"
    using blocks_ownedD(2)[OF o, of w' b'] b c by (cases "w' = wb") (auto simp: no_leave_iff)
next
  fix t' w' cs' assume e: "(cx(t \<mapsto> Leave wb # cs)) t' = Some (Leave w' # cs')"
  show "\<exists>b'. (bs(wb \<mapsto> b)) w' = Some b' \<and> wb_thread b' = t'"
  proof (cases "t' = t")
    case True
    then show ?thesis using e b by auto
  next
    case False
    then have "cx t' = Some (Leave w' # cs')" using e by simp
    from blocks_ownedD(3)[OF o this] obtain b' where "bs w' = Some b'" "wb_thread b' = t'" by blast
    then show ?thesis using w by (intro exI[of _ b']) auto
  qed
qed

lemma blocks_owned_drop:
  assumes o: "blocks_owned bs cx" and c: "\<And>cs. cx t = Some cs \<Longrightarrow> no_leave cs" and n: "no_leave cs'"
  shows "blocks_owned bs (cx(t := None))" "blocks_owned bs (cx(t \<mapsto> cs'))"
proof -
  have own: "wb_thread b \<noteq> t" if "bs wb = Some b" for wb b
    using blocks_ownedD(2)[OF o that] c by (auto simp: no_leave_iff)
  have tl: "no_leave (tl cs')" using n by (cases cs') (simp_all add: no_leave_iff)
  show "blocks_owned bs (cx(t := None))"
    using o own unfolding blocks_owned_def by auto
  show "blocks_owned bs (cx(t \<mapsto> cs'))"
    using o own n tl unfolding blocks_owned_def by (auto simp: no_leave_iff)
qed

end
