(* ===== verification/Uthread_Steps.thy ===== *)
theory Uthread_Steps
  imports Uthread_Sim
begin

text \<open>
  One simulation lemma per library call, and the theorem that covers them all: from a state in
  the invariant a call whose arguments are valid returns, and the new state is in the
  invariant and stands for the state the specification gives.
\<close>

section \<open>Valid calls\<close>

text \<open>
  What a caller has to respect: descriptors, stacks, wait blocks and synchronizers lie in
  memory that is not in use, only user threads block, yield or exit, requested units are not
  negative and posted units do not overflow an \<open>int\<close>.
\<close>

definition call_ok :: "(ptr \<Rightarrow> ptr \<Rightarrow> action list) \<Rightarrow> process \<Rightarrow> action \<Rightarrow> bool" where
  "call_ok code s a =
     (case a of
        UtCreate f x t st \<Rightarrow> t \<noteq> NULL \<and> st \<noteq> NULL \<and> threads s t = None \<and> contexts s t = None
          \<and> t \<noteq> main_thread s \<and> links s (entry_of t) = None
          \<and> number_of_threads s + 1 \<noteq> 0 \<and> no_leave (code f x)
      | UtYield \<Rightarrow> running_thread s \<noteq> main_thread s
      | UtExit \<Rightarrow> running_thread s \<noteq> main_thread s
      | EventInit e \<Rightarrow> events s e = None \<and> links s (event_waiters e) = None
      | EventWait e wb \<Rightarrow> events s e \<noteq> None \<and> links s wb = None
          \<and> running_thread s \<noteq> main_thread s
      | EventSet e \<Rightarrow> events s e \<noteq> None
      | SemInit p u l \<Rightarrow> sems s p = None \<and> links s p = None \<and> 0 \<le> u \<and> u \<le> l \<and> l \<le> INT_MAX
      | SemWait p n wb \<Rightarrow> sems s p \<noteq> None \<and> links s wb = None \<and> 0 \<le> n
          \<and> running_thread s \<noteq> main_thread s
      | SemPost p n \<Rightarrow> 0 \<le> n \<and> (case sems s p of None \<Rightarrow> False | Some r \<Rightarrow> sem_units r + n \<le> INT_MAX)
      | Print str \<Rightarrow> True
      | Leave wb \<Rightarrow> False)"

text \<open>The running thread is not in the middle of a blocking call.\<close>

definition plain_context :: "process \<Rightarrow> bool" where
  "plain_context s \<longleftrightarrow> (\<forall>cs. contexts s (running_thread s) = Some cs \<longrightarrow> no_leave cs)"

lemma running_live:
  assumes "um_inv s R W" "running_thread s \<noteq> main_thread s"
  shows "running_thread s \<in> dom (threads s)" "running_thread s \<notin> set R"
    "running_thread s \<in> dom (contexts s)"
proof -
  note v = um_invD(2)[OF assms(1)]
  have c: "on_cpu (abs_of s R W) = {running_thread s}" using assms(2) by (simp add: on_cpu_def)
  have l: "running_thread s \<in> s_live (abs_of s R W)" using spec_invD(6)[OF v] c by blast
  then show "running_thread s \<in> dom (threads s)" by simp
  show "running_thread s \<notin> set R" using spec_invD(3)[OF v] c by simp
  show "running_thread s \<in> dom (contexts s)" using spec_invD(8)[OF v l] by auto
qed

lemma ready_live: "um_inv s R W \<Longrightarrow> set R \<subseteq> dom (threads s)"
  using heap_invD(7) um_invD(1) by blast

section \<open>Threads\<close>

lemma live_count: "counters_ok s \<Longrightarrow> unat (number_of_threads s) = card (dom (threads s))"
  using counters_okD(2,3) by (simp add: unsigned_of_nat take_bit_nat_eq_self)

lemma unat_plus_one:
  fixes n :: "32 word"
  assumes "n + 1 \<noteq> 0"
  shows "unat n + 1 < 2 ^ 32"
proof (rule ccontr)
  assume "\<not> unat n + 1 < 2 ^ 32"
  moreover have "unat n < 2 ^ 32" using unsigned_less[of n] by simp
  ultimately have "unat n = unat (- 1 :: 32 word)" by (simp add: unsigned_minus_1_eq_mask mask_eq_exp_minus_1)
  then have "n = - 1" by (simp only: word_unat_eq_iff)
  with assms show False by simp
qed

lemma ut_create_sim:
  assumes i: "um_inv s R W" and ok: "call_ok code s (UtCreate f x t st)"
  shows "\<exists>s'. ut_create code s f x t st = Inr s' \<and> um_inv s' (R @ [t]) W
    \<and> abs_of s' (R @ [t]) W = sp_create code f x t (abs_of s R W)"
proof -
  note I = um_invD[OF i]
  have ok': "t \<noteq> 0" "st \<noteq> 0" "t \<notin> dom (threads s)" "t \<notin> dom (contexts s)" "t \<noteq> main_thread s"
    "entry_of t \<notin> dom (links s)" "number_of_threads s + 1 \<noteq> 0" "no_leave (code f x)"
    using ok by (simp_all add: call_ok_def domIff)
  let ?u = "\<lparr>ut_function = f, ut_argument = x, ut_stack = st\<rparr>"
  let ?s1 = "s\<lparr>threads := (threads s)(t \<mapsto> ?u), contexts := (contexts s)(t \<mapsto> code f x),
    links := (links s)(entry_of t \<mapsto> fresh_entry), number_of_threads := number_of_threads s + 1\<rparr>"
  have e: "?s1 = (add_thread s t ?u)\<lparr>contexts := (contexts s)(t \<mapsto> code f x),
      number_of_threads := number_of_threads s + 1\<rparr>"
    by (cases s) (simp add: add_thread_def)
  have h1: "heap_inv ?s1 R W" using add_thread_ok(1)[OF I(1) ok'(6)] by (simp only: e heap_inv_simps)
  have tR: "t \<notin> set R" using add_thread_ok(2)[OF I(1) ok'(6)] .
  have "t \<in> dom (threads ?s1)" by simp
  from ut_activate_ok[OF h1 this tR] obtain h where
    h: "ut_activate ?s1 t = Inr (?s1\<lparr>links := h\<rparr>)" "heap_inv (?s1\<lparr>links := h\<rparr>) (R @ [t]) W" by blast
  have a: "abs_of (?s1\<lparr>links := h\<rparr>) (R @ [t]) W = sp_create code f x t (abs_of s R W)"
    by (rule sched.equality) (simp_all add: sp_create_def abs_of_ready[of s "R @ [t]" W R])
  have v: "spec_inv (abs_of (?s1\<lparr>links := h\<rparr>) (R @ [t]) W)"
    unfolding a by (rule sp_create_inv[OF I(2)]) (use ok' in simp_all)
  have c: "counters_ok (?s1\<lparr>links := h\<rparr>)"
    using I(3) ok'(3) unat_plus_one[OF ok'(7)] live_count[OF I(3)] by (auto simp: counters_ok_def)
  have b: "blocks_owned (blocks s) ((contexts s)(t \<mapsto> code f x))"
    by (rule blocks_owned_drop(2)[OF I(4)]) (use ok'(4,8) in auto)
  have "ut_create code s f x t st = Inr (?s1\<lparr>links := h\<rparr>)"
    using h(1) ok'(1,2) by (simp add: ut_create_def)
  moreover have "um_inv (?s1\<lparr>links := h\<rparr>) (R @ [t]) W"
    unfolding um_inv_def using h(2) v c b by simp
  ultimately show ?thesis using a by blast
qed

lemma ut_yield_sim:
  assumes i: "um_inv s R W" and ok: "call_ok code s UtYield"
  shows "\<exists>s' R'. ut_yield s = Inr s' \<and> um_inv s' R' W \<and> abs_of s' R' W = sp_yield (abs_of s R W)"
proof (cases "R = []")
  case True
  then show ?thesis using i ready_is_empty_ok[OF um_invD(1)[OF i]]
    by (intro exI[of _ s] exI[of _ R]) (simp add: ut_yield_def sp_yield_def)
next
  case False
  note I = um_invD[OF i]
  have rm: "running_thread s \<noteq> main_thread s" using ok by (simp add: call_ok_def domIff)
  note L = running_live[OF i rm]
  let ?r = "running_thread s"
  from ut_activate_ok[OF I(1) L(1,2)] obtain h1 where
    h1: "ut_activate s ?r = Inr (s\<lparr>links := h1\<rparr>)" "heap_inv (s\<lparr>links := h1\<rparr>) (R @ [?r]) W" by blast
  have "contexts s (case R @ [?r] of [] \<Rightarrow> main_thread s | t # _ \<Rightarrow> t) \<noteq> None"
    using next_has_context[OF I(2), of "R @ [?r]"] rm ready_live[OF i] L(1) by (simp cong: list.case_cong)
  then have "contexts (s\<lparr>links := h1\<rparr>) (case R @ [?r] of [] \<Rightarrow> main_thread (s\<lparr>links := h1\<rparr>) | t # _ \<Rightarrow> t) \<noteq> None"
    by (simp cong: list.case_cong)
  from schedule_sim[OF h1(2) this] obtain h t where
    h: "schedule (s\<lparr>links := h1\<rparr>) = Inr (s\<lparr>links := h, running_thread := t\<rparr>)"
    "heap_inv (s\<lparr>links := h, running_thread := t\<rparr>) (tl (R @ [?r])) W"
    "abs_of (s\<lparr>links := h, running_thread := t\<rparr>) (tl (R @ [?r])) W = sp_next (abs_of (s\<lparr>links := h1\<rparr>) (R @ [?r]) W)"
    by auto
  let ?s' = "s\<lparr>links := h, running_thread := t\<rparr>"
  have a: "abs_of ?s' (tl (R @ [?r])) W = sp_yield (abs_of s R W)"
    using False abs_of_ready[of s "R @ [?r]" W R] unfolding h(3) by (simp add: sp_yield_def)
  have "spec_inv (abs_of ?s' (tl (R @ [?r])) W)"
    unfolding a by (rule sp_yield_inv[OF I(2)]) (simp add: rm)
  then have "um_inv ?s' (tl (R @ [?r])) W"
    unfolding um_inv_def using h(2) I(3,4) by simp
  moreover have "ut_yield s = Inr ?s'"
    using h1(1) h(1) ready_is_empty_ok[OF I(1)] False by (simp add: ut_yield_def ut_activate_def)
  ultimately show ?thesis using a by blast
qed

lemma ut_exit_sim:
  assumes i: "um_inv s R W" and ok: "call_ok code s UtExit" and p: "plain_context s"
  shows "\<exists>s'. ut_exit s = Inr s' \<and> um_inv s' (tl R) W \<and> abs_of s' (tl R) W = sp_exit (abs_of s R W)"
proof -
  note I = um_invD[OF i]
  have rm: "running_thread s \<noteq> main_thread s" using ok by (simp add: call_ok_def domIff)
  note L = running_live[OF i rm]
  let ?r = "running_thread s" and ?nx = "case R of [] \<Rightarrow> main_thread s | t # _ \<Rightarrow> t"
  let ?s1 = "s\<lparr>number_of_threads := number_of_threads s - 1\<rparr>"
  have "heap_inv ?s1 R W" using I(1) by simp
  moreover have "main_thread ?s1 = main_thread s" by simp
  ultimately obtain h where
    h: "extract_next_thread ?s1 = Inr (?s1\<lparr>links := h\<rparr>, ?nx)" "heap_inv (?s1\<lparr>links := h\<rparr>) (tl R) W"
    using extract_next_thread_ok[of ?s1 R W] by metis
  have c: "contexts s ?nx \<noteq> None"
    using next_has_context[OF I(2), of R] rm ready_live[OF i] by (simp cong: list.case_cong)
  let ?s3 = "?s1\<lparr>links := h, running_thread := ?nx\<rparr>"
  let ?s' = "?s3\<lparr>threads := (threads s)(?r := None), contexts := (contexts s)(?r := None),
    links := h(entry_of ?r := None)\<rparr>"
  have "ut_exit s = cleanup_thread ?s3 ?r"
    unfolding ut_exit_def Let_def h(1) and_then.simps prod.case switch_to_def using c by auto
  moreover have "cleanup_thread ?s3 ?r = Inr ?s'" using L(1) by (auto simp: cleanup_thread_def)
  ultimately have ex: "ut_exit s = Inr ?s'" by simp
  have "?r \<notin> set (tl R)" using L(2) by (cases R) auto
  with free_thread_ok[of ?s3 "tl R" W ?r] h(2) L(1)
  have "heap_inv (?s3\<lparr>threads := (threads s)(?r := None), links := h(entry_of ?r := None)\<rparr>) (tl R) W"
    by simp
  moreover have "?s' = (?s3\<lparr>threads := (threads s)(?r := None),
      links := h(entry_of ?r := None)\<rparr>)\<lparr>contexts := (contexts s)(?r := None)\<rparr>" by simp
  ultimately have h': "heap_inv ?s' (tl R) W" by (simp only: heap_inv_simps)
  have a: "abs_of ?s' (tl R) W = sp_exit (abs_of s R W)"
    by (rule sched.equality) (cases R; simp add: sp_exit_def sp_next_def abs_of_def cong: if_cong)+
  have v: "spec_inv (abs_of ?s' (tl R) W)"
    unfolding a by (rule sp_exit_inv[OF I(2)]) (simp add: rm)
  note C = counters_okD[OF I(3)]
  have "card (dom (threads s)) = Suc (card (dom (threads s) - {?r}))"
    using card.remove[OF C(1) L(1)] .
  then have "counters_ok ?s'" using I(3) by (auto simp: counters_ok_def)
  moreover have "blocks_owned (blocks s) ((contexts s)(?r := None))"
    by (rule blocks_owned_drop(1)[OF I(4), of ?r "[]"]) (use p in \<open>auto simp: plain_context_def no_leave_iff\<close>)
  ultimately have "um_inv ?s' (tl R) W" unfolding um_inv_def using h' v by simp
  with ex a show ?thesis by blast
qed

section \<open>Blocking\<close>

text \<open>Both blocking calls push a wait block, link it at the end of a wait list and give up
  the processor.\<close>

lemma block_sim:
  assumes i: "um_inv s R W" and p: "plain_context s" and rm: "running_thread s \<noteq> main_thread s"
    and q: "q \<in> sentinels s" and wb: "wb \<notin> dom (links s)"
    and b: "wb_thread b = running_thread s" "0 \<le> wb_units b"
  shows "\<exists>h1 s' R' W'. with_links (push_block s wb b) (insert_list_last (links (push_block s wb b)) q wb)
        = Inr ((push_block s wb b)\<lparr>links := h1\<rparr>)
    \<and> schedule ((push_block s wb b)\<lparr>links := h1\<rparr>) = Inr s' \<and> um_inv s' R' W'
    \<and> abs_of s' R' W' = sp_block q wb (wb_units b) (abs_of s R W)"
proof -
  note I = um_invD[OF i]
  note L = running_live[OF i rm]
  let ?s1 = "push_block s wb b" and ?W = "W(q := W q @ [wb])"
  obtain cs where cs: "contexts s (running_thread s) = Some cs" using L(3) by blast
  have nl: "no_leave cs" using p cs by (simp add: plain_context_def)
  have c1: "contexts ?s1 = (contexts s)(running_thread s \<mapsto> Leave wb # cs)"
    using cs by (simp add: push_block_def)
  have same: "sentinels ?s1 = sentinels s" "threads ?s1 = threads s" "events ?s1 = events s" "sems ?s1 = sems s"
    "running_thread ?s1 = running_thread s" "main_thread ?s1 = main_thread s" "printed ?s1 = printed s"
    "number_of_threads ?s1 = number_of_threads s" "blocks ?s1 = (blocks s)(wb \<mapsto> b)"
    by (simp_all add: push_block_def)
  have wbn: "blocks s wb = None" using wb heap_invD(4)[OF I(1)] by blast
  note h0 = add_block_ok(1)[OF I(1) wb, of b] add_block_ok(2)[OF I(1) wb]
  have "wb \<in> dom (blocks ?s1)" "\<forall>q\<in>sentinels ?s1. wb \<notin> set (W q)" using h0(2) by (simp_all add: same)
  with enqueue_block_ok[OF h0(1)] q obtain h1 where
    h1: "with_links ?s1 (insert_list_last (links ?s1) q wb) = Inr (?s1\<lparr>links := h1\<rparr>)"
    "heap_inv (?s1\<lparr>links := h1\<rparr>) R ?W" by (metis same(1))
  have bi: "block_info ?s1 w = block_info s w" if "w \<noteq> wb" for w
    using that by (simp add: block_info_def same)
  have binew: "block_info ?s1 wb = (running_thread s, wb_units b)"
    using b by (simp add: block_info_def same)
  have wait: "s_wait (abs_of ?s1 R ?W) = (s_wait (abs_of s R W))(q := s_wait (abs_of s R W) q
      @ [(running_thread s, wb_units b)])"
  proof
    fix q'
    have "map (block_info ?s1) (W q') = map (block_info s) (W q')" if "q' \<in> sentinels s"
      by (intro map_cong refl bi) (use h0(2) that in metis)
    then show "s_wait (abs_of ?s1 R ?W) q' = ((s_wait (abs_of s R W))(q := s_wait (abs_of s R W) q
      @ [(running_thread s, wb_units b)])) q'"
      using q binew by (auto simp: abs_of_wait same)
  qed
  have a1: "abs_of (?s1\<lparr>links := h1\<rparr>) R ?W = (abs_of s R W)\<lparr>s_wait := (s_wait (abs_of s R W))(q :=
      s_wait (abs_of s R W) q @ [(running_thread s, wb_units b)]),
      s_conts := (contexts s)(running_thread s \<mapsto> Leave wb # cs)\<rparr>"
    by (rule sched.equality) (simp_all add: wait c1 same del: fun_upd_apply)
  have "contexts s (case R of [] \<Rightarrow> main_thread s | t # _ \<Rightarrow> t) \<noteq> None"
    using next_has_context[OF I(2), of R] rm ready_live[OF i] by (simp cong: list.case_cong)
  then have "contexts (?s1\<lparr>links := h1\<rparr>) (case R of [] \<Rightarrow> main_thread (?s1\<lparr>links := h1\<rparr>) | t # _ \<Rightarrow> t) \<noteq> None"
    by (simp add: c1 same cong: list.case_cong)
  from schedule_sim[OF h1(2) this] obtain h t where
    h: "schedule (?s1\<lparr>links := h1\<rparr>) = Inr (?s1\<lparr>links := h, running_thread := t\<rparr>)"
    "heap_inv (?s1\<lparr>links := h, running_thread := t\<rparr>) (tl R) ?W"
    "abs_of (?s1\<lparr>links := h, running_thread := t\<rparr>) (tl R) ?W = sp_next (abs_of (?s1\<lparr>links := h1\<rparr>) R ?W)"
    by auto
  have a: "abs_of (?s1\<lparr>links := h, running_thread := t\<rparr>) (tl R) ?W = sp_block q wb (wb_units b) (abs_of s R W)"
    unfolding h(3) a1 by (simp add: sp_block_def cs)
  have "spec_inv (abs_of (?s1\<lparr>links := h, running_thread := t\<rparr>) (tl R) ?W)"
    unfolding a by (rule sp_block_inv[OF I(2)]) (simp add: rm)
  moreover have "counters_ok ?s1" using I(3) b(2) by (auto simp: counters_ok_def same)
  moreover have "blocks_owned (blocks ?s1) (contexts ?s1)"
    unfolding same c1 by (rule blocks_owned_push[OF I(4) cs nl wbn b(1)])
  ultimately have "um_inv (?s1\<lparr>links := h, running_thread := t\<rparr>) (tl R) ?W"
    unfolding um_inv_def using h(2) by simp
  with h1(1) h(1) a show ?thesis by blast
qed

section \<open>Events\<close>

text \<open>A new sentinel with an empty list.\<close>

lemma new_sentinel:
  assumes h: "heap_inv s R W" and q: "q \<notin> dom (links s)"
  shows "\<exists>h1. init_list_head ((links s)(q \<mapsto> fresh_entry)) q = Some h1
    \<and> disjoint_lists dlist h1 ((lists_of s R W)(q \<mapsto> [])) \<and> dom h1 = insert q (dom (links s))"
proof -
  note D = heap_invD[OF h]
  have n: "q \<notin> nodes (lists_of s R W)" using lh.lists_nodes_dom[OF D(1)] q by blast
  from lh.lists_alloc[OF D(1) n]
  have "disjoint_lists dlist ((links s)(q \<mapsto> fresh_entry)) (lists_of s R W)" .
  from lh.lists_new[OF this _ n] show ?thesis by auto
qed

lemma heap_inv_new_sentinel:
  assumes h: "heap_inv s R W" and q: "q \<notin> dom (links s)"
    and eq: "ready_queue s' = ready_queue s" "threads s' = threads s" "blocks s' = blocks s"
    and sn: "sentinels s' = insert q (sentinels s)" "event_waiters ` dom (events s') \<inter> dom (sems s') = {}"
    and l: "disjoint_lists dlist (links s') ((lists_of s R W)(q \<mapsto> []))" "dom (links s') = insert q (dom (links s))"
  shows "heap_inv s' R (W(q := []))" "q \<notin> sentinels s"
proof -
  note D = heap_invD[OF h]
  have f: "q \<noteq> ready_queue s" "q \<notin> dom (blocks s)" "q \<notin> entry_of ` dom (threads s)"
    using q D(4) by blast+
  show qs: "q \<notin> sentinels s" using q D(4) by blast
  have ls: "lists_of s' R (W(q := [])) = (lists_of s R W)(q \<mapsto> [])"
    using f(1) by (auto simp: lists_of_def eq sn)
  show "heap_inv s' R (W(q := []))"
  proof (rule heap_invI)
    show "disjoint_lists dlist (links s') (lists_of s' R (W(q := [])))" unfolding ls by (rule l)
    show "ready_queue s' \<notin> sentinels s'" unfolding eq sn using D(2) f(1) by blast
    show "entry_of ` dom (threads s') \<union> dom (blocks s') \<union> sentinels s' \<union> {ready_queue s'} \<subseteq> dom (links s')"
      unfolding eq sn l using D(4) by blast
    show "entry_of ` dom (threads s') \<inter> dom (blocks s') = {}" unfolding eq by (rule D)
    show "(entry_of ` dom (threads s') \<union> dom (blocks s')) \<inter> insert (ready_queue s') (sentinels s') = {}"
      unfolding eq sn using D(6) f(2,3) by blast
    show "set R \<subseteq> dom (threads s')" unfolding eq by (rule D)
    show "set ((W(q := [])) x) \<subseteq> dom (blocks s')" if "x \<in> sentinels s'" for x
      using D(8)[of x] that unfolding eq sn by (cases "x = q") auto
  qed (rule sn)
qed

lemma event_init_sim:
  assumes i: "um_inv s R W" and ok: "call_ok code s (EventInit e)"
  shows "\<exists>s' W'. event_init (declare_event s e) e = Inr s' \<and> um_inv s' R W'
    \<and> abs_of s' R W' = sp_event_init e (abs_of s R W)"
proof -
  note I = um_invD[OF i]
  let ?q = "event_waiters e"
  have ok': "e \<notin> dom (events s)" "?q \<notin> dom (links s)" using ok by (simp_all add: call_ok_def domIff)
  from new_sentinel[OF I(1) ok'(2)] obtain h1 where
    h1: "init_list_head ((links s)(?q \<mapsto> fresh_entry)) ?q = Some h1"
    "disjoint_lists dlist h1 ((lists_of s R W)(?q \<mapsto> []))" "dom h1 = insert ?q (dom (links s))" by blast
  let ?s' = "s\<lparr>links := h1, events := (events s)(e \<mapsto> False)\<rparr>"
  have sn: "sentinels ?s' = insert ?q (sentinels s)" by (auto simp: sentinels_def)
  have "?q \<notin> dom (sems s)" using ok'(2) heap_invD(4)[OF I(1)] by (auto simp: sentinels_def)
  then have dj: "event_waiters ` dom (events ?s') \<inter> dom (sems ?s') = {}"
    using heap_invD(3)[OF I(1)] by auto
  have h: "heap_inv ?s' R (W(?q := []))" and qs: "?q \<notin> sentinels s"
    using heap_inv_new_sentinel[OF I(1) ok'(2) _ _ _ sn dj] h1(2,3) by simp_all
  have bi: "block_info ?s' = block_info s" by simp
  have w: "s_wait (abs_of ?s' R (W(?q := []))) = (s_wait (abs_of s R W))(?q := [])"
    using qs by (auto simp: abs_of_wait sn bi)
  have a: "abs_of ?s' R (W(?q := [])) = sp_event_init e (abs_of s R W)"
    by (rule sched.equality) (simp_all add: sp_event_init_def w)
  have "s_wait (abs_of s R W) ?q = []" using qs by (simp add: abs_of_wait)
  then have "spec_inv (abs_of ?s' R (W(?q := [])))"
    unfolding a by (rule sp_event_init_inv[OF I(2)])
  then have "um_inv ?s' R (W(?q := []))" unfolding um_inv_def using h I(3,4) by simp
  moreover have "event_init (declare_event s e) e = Inr ?s'"
    using h1(1) by (cases s) (simp add: event_init_def declare_event_def with_links_def)
  ultimately show ?thesis using a by blast
qed

lemma event_wait_sim:
  assumes i: "um_inv s R W" and ok: "call_ok code s (EventWait e wb)" and p: "plain_context s"
  shows "\<exists>s' R' W'. event_wait s e wb = Inr s' \<and> um_inv s' R' W'
    \<and> abs_of s' R' W' = sp_event_wait e wb (abs_of s R W)"
proof -
  have ok': "e \<in> dom (events s)" "wb \<notin> dom (links s)" "running_thread s \<noteq> main_thread s"
    using ok by (simp_all add: call_ok_def domIff)
  then obtain v where v: "events s e = Some v" by blast
  show ?thesis
  proof (cases v)
    case True
    then show ?thesis using i v
      by (intro exI[of _ s] exI[of _ R] exI[of _ W]) (simp add: event_wait_def sp_event_wait_def)
  next
    case False
    have b: "wb_thread (init_waitblock s) = running_thread s" "wb_units (init_waitblock s) = 0"
      by (simp_all add: init_waitblock_def ut_self_def)
    from block_sim[OF i p ok'(3) sentinel_event[OF ok'(1)] ok'(2) b(1)] b(2) obtain h1 s' R' W' where
      h: "with_links (push_block s wb (init_waitblock s)) (insert_list_last
          (links (push_block s wb (init_waitblock s))) (event_waiters e) wb)
        = Inr ((push_block s wb (init_waitblock s))\<lparr>links := h1\<rparr>)"
      "schedule ((push_block s wb (init_waitblock s))\<lparr>links := h1\<rparr>) = Inr s'" "um_inv s' R' W'"
      "abs_of s' R' W' = sp_block (event_waiters e) wb 0 (abs_of s R W)" by auto
    have "event_wait s e wb = Inr s'"
      using v False h(1,2) by (simp add: event_wait_def Let_def ut_deactivate_def)
    moreover have "sp_event_wait e wb (abs_of s R W) = sp_block (event_waiters e) wb 0 (abs_of s R W)"
      using v False by (simp add: sp_event_wait_def)
    ultimately show ?thesis using h(3,4) by auto
  qed
qed

lemma event_set_sim:
  assumes i: "um_inv s R W" and ok: "call_ok code s (EventSet e)"
  shows "\<exists>s'. let R' = R @ map (\<lambda>wb. fst (block_info s wb)) (W (event_waiters e));
      W' = W(event_waiters e := []) in
    event_set s e = Inr s' \<and> um_inv s' R' W' \<and> abs_of s' R' W' = sp_event_set e (abs_of s R W)"
proof -
  note I = um_invD[OF i]
  let ?q = "event_waiters e"
  have ok': "e \<in> dom (events s)" using ok by (simp add: call_ok_def domIff)
  let ?s1 = "s\<lparr>events := (events s)(e \<mapsto> True)\<rparr>"
  have d: "dom ((events s)(e \<mapsto> True)) = dom (events s)" using ok' by auto
  have h0: "heap_inv ?s1 R W" using I(1) heap_inv_events[OF d] by simp
  have a0: "abs_of ?s1 R' W' = (abs_of s R' W')\<lparr>s_event := (events s)(e \<mapsto> True)\<rparr>" for R' W'
    by (rule abs_of_events[OF d])
  have v0: "spec_inv (abs_of ?s1 R W)" unfolding a0 using I(2) by simp
  have q: "?q \<in> sentinels s" "?q \<in> sentinels ?s1"
    using sentinel_event[OF ok'] sentinels_events[OF d] by simp_all
  let ?R = "R @ map (\<lambda>wb. fst (block_info s wb)) (W ?q)" and ?W = "W(?q := [])"
  from event_drain_sim[OF h0 v0 q(2) refl] obtain h where
    h: "event_drain ?s1 e = Some (Inr (?s1\<lparr>links := h\<rparr>))" "heap_inv (?s1\<lparr>links := h\<rparr>) ?R ?W" by auto
  have "abs_of s ?R ?W = (abs_of s R W)\<lparr>s_ready := ?R, s_wait := (s_wait (abs_of s R W))(?q := [])\<rparr>"
    using abs_of_upd_wait[OF q(1), of ?R W "[]"] abs_of_ready[of s ?R W R]
    by (simp add: abs_of_def)
  then have a: "abs_of (?s1\<lparr>links := h\<rparr>) ?R ?W = sp_event_set e (abs_of s R W)"
    using q(1) by (simp add: a0 sp_event_set_def abs_of_wait comp_def)
  have "spec_inv (abs_of (?s1\<lparr>links := h\<rparr>) ?R ?W)" unfolding a by (rule sp_event_set_inv[OF I(2)])
  then have "um_inv (?s1\<lparr>links := h\<rparr>) ?R ?W" unfolding um_inv_def using h(2) I(3,4) by simp
  moreover have "event_set s e = Inr (?s1\<lparr>links := h\<rparr>)"
    using h(1) ok' by (auto simp: event_set_def)
  ultimately show ?thesis unfolding Let_def using a by blast
qed

section \<open>Semaphores\<close>

lemma sem_init_sim:
  assumes i: "um_inv s R W" and ok: "call_ok code s (SemInit p u l)"
  shows "\<exists>s' W'. sem_init (declare_sem s p) p u l = Inr s' \<and> um_inv s' R W'
    \<and> abs_of s' R W' = sp_sem_init p u l (abs_of s R W)"
proof -
  note I = um_invD[OF i]
  have ok': "p \<notin> dom (sems s)" "p \<notin> dom (links s)" "0 \<le> u" "u \<le> l" "l \<le> INT_MAX"
    using ok by (simp_all add: call_ok_def domIff)
  from new_sentinel[OF I(1) ok'(2)] obtain h1 where
    h1: "init_list_head ((links s)(p \<mapsto> fresh_entry)) p = Some h1"
    "disjoint_lists dlist h1 ((lists_of s R W)(p \<mapsto> []))" "dom h1 = insert p (dom (links s))" by blast
  let ?m = "(sems s)(p \<mapsto> \<lparr>sem_units = u, sem_limit = l\<rparr>)"
  let ?s' = "s\<lparr>links := h1, sems := ?m\<rparr>"
  have sn: "sentinels ?s' = insert p (sentinels s)" by (auto simp: sentinels_def)
  have "p \<notin> event_waiters ` dom (events s)" using ok'(2) heap_invD(4)[OF I(1)]
    unfolding sentinels_def by blast
  then have dj: "event_waiters ` dom (events ?s') \<inter> dom (sems ?s') = {}"
    using heap_invD(3)[OF I(1)] by auto
  have h: "heap_inv ?s' R (W(p := []))" and qs: "p \<notin> sentinels s"
    using heap_inv_new_sentinel[OF I(1) ok'(2) _ _ _ sn dj] h1(2,3) by simp_all
  have bi: "block_info ?s' = block_info s" by simp
  have w: "s_wait (abs_of ?s' R (W(p := []))) = (s_wait (abs_of s R W))(p := [])"
    using qs by (auto simp: abs_of_wait sn bi)
  have a: "abs_of ?s' R (W(p := [])) = sp_sem_init p u l (abs_of s R W)"
    by (rule sched.equality) (simp_all add: sp_sem_init_def w)
  have "s_wait (abs_of s R W) p = []" using qs by (simp add: abs_of_wait)
  then have "spec_inv (abs_of ?s' R (W(p := [])))"
    unfolding a by (rule sp_sem_init_inv[OF I(2)])
  moreover have "counters_ok ?s'" using I(3) ok'(3-5) by (auto simp: counters_ok_def)
  ultimately have "um_inv ?s' R (W(p := []))" unfolding um_inv_def using h I(4) by simp
  moreover have "sem_init (declare_sem s p) p u l = Inr ?s'"
    using h1(1) by (cases s) (simp add: sem_init_def declare_sem_def with_links_def)
  ultimately show ?thesis using a by blast
qed

lemma sem_wait_sim:
  assumes i: "um_inv s R W" and ok: "call_ok code s (SemWait p n wb)" and pl: "plain_context s"
  shows "\<exists>s' R' W'. sem_wait s p n wb = Inr s' \<and> um_inv s' R' W'
    \<and> abs_of s' R' W' = sp_sem_wait p n wb (abs_of s R W)"
proof -
  note I = um_invD[OF i]
  have ok': "p \<in> dom (sems s)" "wb \<notin> dom (links s)" "0 \<le> n" "running_thread s \<noteq> main_thread s"
    using ok by (simp_all add: call_ok_def domIff)
  then obtain r where r: "sems s p = Some r" by blast
  have q: "p \<in> sentinels s" by (rule sentinel_sem[OF ok'(1)])
  have em: "is_list_empty (links s) p = Some (W p = [])" by (rule wait_is_empty_ok[OF I(1) q])
  have ab: "s_wait (abs_of s R W) p = [] \<longleftrightarrow> W p = []" using q by (simp add: abs_of_wait)
  show ?thesis
  proof (cases "W p = [] \<and> n \<le> sem_units r")
    case True
    let ?m = "(sems s)(p \<mapsto> r\<lparr>sem_units := sem_units r - n\<rparr>)"
    have d: "dom ?m = dom (sems s)" using r by auto
    have "in_int (sem_units r - n)"
      using True ok'(3) counters_okD(4-6)[OF I(3) r] by (simp add: c_int_bounds)
    then have "sem_wait s p n wb = Inr (s\<lparr>sems := ?m\<rparr>)"
      using r em True by (simp add: sem_wait_def c_int_in)
    moreover have a: "abs_of (s\<lparr>sems := ?m\<rparr>) R W = sp_sem_wait p n wb (abs_of s R W)"
      using True r ab by (simp add: abs_of_sems[OF d] sp_sem_wait_def)
    moreover have "um_inv (s\<lparr>sems := ?m\<rparr>) R W"
    proof -
      have "spec_inv (abs_of (s\<lparr>sems := ?m\<rparr>) R W)" using I(2) by (simp add: abs_of_sems[OF d])
      moreover have "counters_ok (s\<lparr>sems := ?m\<rparr>)"
        using I(3) True ok'(3) counters_okD(4-6)[OF I(3) r] by (auto simp: counters_ok_def)
      ultimately show ?thesis unfolding um_inv_def using I(1,4) by (simp add: heap_inv_sems[OF d])
    qed
    ultimately show ?thesis by blast
  next
    case False
    have b: "wb_thread (init_sem_waitblock s n) = running_thread s" "wb_units (init_sem_waitblock s n) = n"
      by (simp_all add: init_sem_waitblock_def init_waitblock_def ut_self_def)
    from block_sim[OF i pl ok'(4) q ok'(2) b(1)] b(2) ok'(3) obtain h1 s' R' W' where
      h: "with_links (push_block s wb (init_sem_waitblock s n)) (insert_list_last
          (links (push_block s wb (init_sem_waitblock s n))) p wb)
        = Inr ((push_block s wb (init_sem_waitblock s n))\<lparr>links := h1\<rparr>)"
      "schedule ((push_block s wb (init_sem_waitblock s n))\<lparr>links := h1\<rparr>) = Inr s'" "um_inv s' R' W'"
      "abs_of s' R' W' = sp_block p wb n (abs_of s R W)" by auto
    have "sem_wait s p n wb = Inr s'"
      using r em False h(1,2) by (auto simp add: sem_wait_def Let_def ut_deactivate_def)
    moreover have "sp_sem_wait p n wb (abs_of s R W) = sp_block p wb n (abs_of s R W)"
      using r False ab by (auto simp add: sp_sem_wait_def)
    ultimately show ?thesis using h(3,4) by auto
  qed
qed

lemma grant_units:
  "grant u ws = (rel, left, u') \<Longrightarrow> (\<forall>x\<in>set ws. 0 \<le> snd x) \<Longrightarrow> 0 \<le> u \<Longrightarrow>
   0 \<le> u' \<and> u' = u - sum_list (map snd rel) \<and> u' \<le> u"
  by (induction u ws arbitrary: rel left u' rule: grant.induct)
     (force split: if_splits prod.splits)+

lemma sp_sem_post_eq:
  assumes "s_sem a p = Some r" "grant (min (sem_units r + n) (sem_limit r)) (s_wait a p) = (rel, left, u)"
  shows "sp_sem_post p n a = a\<lparr>s_sem := (s_sem a)(p \<mapsto> r\<lparr>sem_units := u\<rparr>),
    s_ready := s_ready a @ map fst rel, s_wait := (s_wait a)(p := left)\<rparr>"
  using assms by (simp add: sp_sem_post_def sp_sem_grant_def)

lemma sem_post_grant_sim:
  assumes i: "um_inv s R W" and r: "sems s p = Some r" and n: "0 \<le> n" "sem_units r + n \<le> INT_MAX"
    and g0: "grant (min (sem_units r + n) (sem_limit r)) (map (block_info s) (W p)) = (rel, left, u)"
  shows "\<exists>s'. sem_post s p n = Inr s' \<and> um_inv s' (R @ map fst rel) (W(p := drop (length rel) (W p)))
    \<and> abs_of s' (R @ map fst rel) (W(p := drop (length rel) (W p))) = sp_sem_post p n (abs_of s R W)"
proof -
  note I = um_invD[OF i]
  note C = counters_okD(4-6)[OF I(3) r]
  have q: "p \<in> sentinels s" using sentinel_sem r by blast
  let ?r1 = "r\<lparr>sem_units := min (sem_units r + n) (sem_limit r)\<rparr>"
  let ?s1 = "s\<lparr>sems := (sems s)(p \<mapsto> ?r1)\<rparr>"
  have d: "dom ((sems s)(p \<mapsto> ?r1)) = dom (sems s)" using r by auto
  have h0: "heap_inv ?s1 R W" using I(1) heap_inv_sems[OF d] by simp
  have v0: "spec_inv (abs_of ?s1 R W)" using I(2) by (simp add: abs_of_sems[OF d])
  have nn: "\<forall>wb b. blocks ?s1 wb = Some b \<longrightarrow> 0 \<le> wb_units b" using counters_okD(7)[OF I(3)] by simp
  have g: "grant (sem_units ?r1) (map (block_info s) (W p)) = (rel, left, u)" using g0 by simp
  have u1: "sem_units ?r1 \<le> INT_MAX" "sems ?s1 p = Some ?r1" using C by simp_all
  have g': "grant (sem_units ?r1) (map (block_info ?s1) (W p)) = (rel, left, u)" using g by simp
  let ?R = "R @ map fst rel" and ?W = "W(p := drop (length rel) (W p))"
  let ?m = "(sems s)(p \<mapsto> r\<lparr>sem_units := u\<rparr>)"
  from sem_release_sim[OF h0 v0 u1(2) u1(1) nn refl g'] obtain h where
    h: "sem_release ?s1 p = Some (Inr (s\<lparr>links := h, sems := ?m\<rparr>))"
    "heap_inv (?s1\<lparr>links := h\<rparr>) ?R ?W" by (cases s) auto
  let ?s' = "s\<lparr>links := h, sems := ?m\<rparr>"
  have d': "dom ?m = dom (sems (s\<lparr>links := h\<rparr>))" "dom ((sems s)(p \<mapsto> ?r1)) = dom (sems (s\<lparr>links := h\<rparr>))"
    using r by auto
  have h': "heap_inv ?s' ?R ?W"
    using h(2) heap_inv_sems[OF d'(1)] heap_inv_sems[OF d'(2)] by (cases s) simp
  have split: "map (block_info s) (W p) = rel @ left" by (rule grant_split[OF g])
  have left: "map (block_info s) (drop (length rel) (W p)) = left"
    unfolding drop_map[symmetric] split by simp
  have a: "abs_of ?s' ?R ?W = sp_sem_post p n (abs_of s R W)"
  proof -
    have "abs_of ?s' ?R ?W = (abs_of s ?R ?W)\<lparr>s_sem := ?m\<rparr>"
      using abs_of_sems[OF d'(1)] by simp
    also have "abs_of s ?R ?W = (abs_of s R W)\<lparr>s_ready := ?R, s_wait := (s_wait (abs_of s R W))(p := left)\<rparr>"
      using abs_of_upd_wait[OF q] abs_of_ready[of s ?R W R] left by (simp add: abs_of_def)
    finally have e: "abs_of ?s' ?R ?W = (abs_of s R W)\<lparr>s_ready := ?R,
      s_wait := (s_wait (abs_of s R W))(p := left), s_sem := ?m\<rparr>" .
    have "grant (min (sem_units r + n) (sem_limit r)) (s_wait (abs_of s R W) p) = (rel, left, u)"
      using g q by (simp add: abs_of_wait)
    from sp_sem_post_eq[of "abs_of s R W", OF _ this] r show ?thesis
      unfolding e by (simp del: fun_upd_apply)
  qed
  have "\<forall>x\<in>set (map (block_info s) (W p)). 0 \<le> snd x"
    using counters_okD(7)[OF I(3)] by (auto simp: block_info_def split: option.splits)
  then have u: "0 \<le> u" "u \<le> sem_units ?r1" using grant_units[OF g] C n by auto
  have "counters_ok ?s'" using I(3) u C by (auto simp: counters_ok_def)
  moreover have "spec_inv (abs_of ?s' ?R ?W)" unfolding a by (rule sp_sem_post_inv[OF I(2)])
  ultimately have "um_inv ?s' ?R ?W" unfolding um_inv_def using h' I(4) by simp
  moreover have "sem_post s p n = Inr ?s'"
  proof -
    have "in_int (sem_units r + n)" using n C by (simp add: c_int_bounds)
    moreover have "(if sem_units r + n > sem_limit r then sem_limit r else sem_units r + n)
        = min (sem_units r + n) (sem_limit r)" by auto
    ultimately show ?thesis using r h(1) by (simp add: sem_post_def c_int_in Let_def)
  qed
  ultimately show ?thesis using a by blast
qed

lemma sem_post_sim:
  assumes i: "um_inv s R W" and ok: "call_ok code s (SemPost p n)"
  shows "\<exists>s' R' W'. sem_post s p n = Inr s' \<and> um_inv s' R' W'
    \<and> abs_of s' R' W' = sp_sem_post p n (abs_of s R W)"
proof -
  obtain r where r: "sems s p = Some r" "0 \<le> n" "sem_units r + n \<le> INT_MAX"
    using ok by (auto simp: call_ok_def split: option.splits)
  obtain rel left u where
    "grant (min (sem_units r + n) (sem_limit r)) (map (block_info s) (W p)) = (rel, left, u)"
    using prod_cases3 by blast
  from sem_post_grant_sim[OF i r this] show ?thesis by blast
qed

section \<open>Every call\<close>

theorem perform_sim:
  assumes i: "um_inv s R W" and ok: "call_ok code s a" and p: "plain_context s"
  shows "\<exists>s' R' W'. perform code s a = Inr s' \<and> um_inv s' R' W'
    \<and> abs_of s' R' W' = sp_perform code a (abs_of s R W)"
proof (cases a)
  case (UtCreate f x t st)
  then show ?thesis using ut_create_sim[OF i] ok by (fastforce simp: perform_def sp_perform_def)
next
  case UtYield
  then show ?thesis using ut_yield_sim[OF i] ok by (fastforce simp: perform_def sp_perform_def)
next
  case UtExit
  then show ?thesis using ut_exit_sim[OF i _ p] ok by (fastforce simp: perform_def sp_perform_def)
next
  case (EventInit e)
  then show ?thesis using event_init_sim[OF i] ok by (fastforce simp: perform_def sp_perform_def)
next
  case (EventWait e wb)
  then show ?thesis using event_wait_sim[OF i _ p] ok by (fastforce simp: perform_def sp_perform_def)
next
  case (EventSet e)
  then show ?thesis using event_set_sim[OF i] ok by (fastforce simp: perform_def sp_perform_def Let_def)
next
  case (SemInit q u l)
  then show ?thesis using sem_init_sim[OF i] ok by (fastforce simp: perform_def sp_perform_def)
next
  case (SemWait q n wb)
  then show ?thesis using sem_wait_sim[OF i _ p] ok by (fastforce simp: perform_def sp_perform_def)
next
  case (SemPost q n)
  then show ?thesis using sem_post_sim[OF i] ok by (fastforce simp: perform_def sp_perform_def)
next
  case (Print str)
  have "um_inv (s\<lparr>printed := printed s @ [str]\<rparr>) R W"
    using um_invD[OF i] by (simp add: um_inv_def)
  then show ?thesis using Print
    by (intro exI[of _ "s\<lparr>printed := printed s @ [str]\<rparr>"] exI[of _ R] exI[of _ W])
       (simp add: perform_def sp_perform_def)
next
  case (Leave wb)
  then show ?thesis using ok by (simp add: call_ok_def domIff)
qed

section \<open>A step of the running thread\<close>

text \<open>The next call of the running thread is valid; the returning of a blocking call and of
  the thread's function always are.\<close>

definition step_ok :: "(ptr \<Rightarrow> ptr \<Rightarrow> action list) \<Rightarrow> process \<Rightarrow> bool" where
  "step_ok code s \<longleftrightarrow> running_thread s \<noteq> main_thread s \<and>
     (case contexts s (running_thread s) of
        None \<Rightarrow> False
      | Some [] \<Rightarrow> True
      | Some (a # cs) \<Rightarrow> is_leave a \<or>
          call_ok code (s\<lparr>contexts := (contexts s)(running_thread s \<mapsto> cs)\<rparr>) a)"

lemma um_inv_pop:
  assumes i: "um_inv s R W" and c: "contexts s (running_thread s) = Some (a # cs)" "\<forall>wb. a \<noteq> Leave wb"
  defines "s1 \<equiv> s\<lparr>contexts := (contexts s)(running_thread s \<mapsto> cs)\<rparr>"
  shows "um_inv s1 R W \<and> plain_context s1"
proof -
  note I = um_invD[OF i]
  from blocks_owned_pop[OF I(4) c]
  have o: "blocks_owned (blocks s1) (contexts s1)" "no_leave cs" by (simp_all add: s1_def)
  have "spec_inv (abs_of s1 R W)" unfolding s1_def using spec_inv_pop[OF I(2)] by simp
  then have "um_inv s1 R W" unfolding um_inv_def using I(1,3) o(1) by (simp add: s1_def)
  then show ?thesis using o(2) by (simp add: plain_context_def s1_def)
qed

lemma leave_sim:
  assumes i: "um_inv s R W" and c: "contexts s (running_thread s) = Some (Leave wb # cs)"
    and rm: "running_thread s \<noteq> main_thread s"
  defines "s1 \<equiv> s\<lparr>contexts := (contexts s)(running_thread s \<mapsto> cs)\<rparr>"
  shows "um_inv (pop_block s1 wb) R W \<and> abs_of (pop_block s1 wb) R W = abs_of s1 R W"
proof -
  note I = um_invD[OF i]
  from blocks_ownedD(3)[OF I(4) c] obtain b where b: "blocks s wb = Some b" "wb_thread b = running_thread s"
    by blast
  have notin: "wb \<notin> set (W q)" if "q \<in> sentinels s" for q
  proof
    assume "wb \<in> set (W q)"
    then have "block_info s wb \<in> set (s_wait (abs_of s R W) q)" using that by (simp add: abs_of_wait)
    moreover have "block_info s wb = (running_thread s, wb_units b)" using b by (simp add: block_info_def)
    ultimately have "running_thread s \<in> waiting (abs_of s R W) q" unfolding waiting_def by force
    moreover have "on_cpu (abs_of s R W) = {running_thread s}" using rm by (simp add: on_cpu_def)
    ultimately show False using spec_invD(4)[OF I(2), of q] by blast
  qed
  have h1: "heap_inv s1 R W" using I(1) by (simp add: s1_def)
  have "wb \<in> dom (blocks s1)" "\<forall>q\<in>sentinels s1. wb \<notin> set (W q)" using b notin by (auto simp: s1_def)
  from pop_block_ok[OF h1 this] have h: "heap_inv (pop_block s1 wb) R W" .
  have same: "sentinels (pop_block s1 wb) = sentinels s1" by (simp add: pop_block_def)
  have bi: "block_info (pop_block s1 wb) w = block_info s1 w" if "w \<noteq> wb" for w
    using that by (simp add: block_info_def pop_block_def)
  have w: "s_wait (abs_of (pop_block s1 wb) R W) = s_wait (abs_of s1 R W)"
  proof
    fix q
    have "map (block_info (pop_block s1 wb)) (W q) = map (block_info s1) (W q)" if "q \<in> sentinels s1"
      by (intro map_cong refl bi) (use notin that in \<open>auto simp: s1_def\<close>)
    then show "s_wait (abs_of (pop_block s1 wb) R W) q = s_wait (abs_of s1 R W) q"
      by (simp add: abs_of_wait same)
  qed
  have a: "abs_of (pop_block s1 wb) R W = abs_of s1 R W"
    by (rule sched.equality) (simp_all add: w, simp_all add: pop_block_def)
  have "spec_inv (abs_of s1 R W)" unfolding s1_def using spec_inv_pop[OF I(2)] by simp
  moreover have "counters_ok (pop_block s1 wb)"
    using I(3) by (auto simp: counters_ok_def pop_block_def s1_def)
  moreover have "blocks_owned (blocks (pop_block s1 wb)) (contexts (pop_block s1 wb))"
    using blocks_owned_leave[OF I(4) c] by (simp add: pop_block_def s1_def)
  ultimately show ?thesis unfolding um_inv_def using h a by simp
qed

theorem run_step_sim:
  assumes i: "um_inv s R W" and ok: "step_ok code s"
  shows "\<exists>s' R' W'. run_step code s = Inr s' \<and> um_inv s' R' W'
    \<and> abs_of s' R' W' = sp_step code (abs_of s R W)"
proof -
  have rm: "running_thread s \<noteq> main_thread s" using ok by (simp add: step_ok_def is_leave_def)
  obtain c where c: "contexts s (running_thread s) = Some c"
    using ok by (auto simp: step_ok_def split: option.splits)
  show ?thesis
  proof (cases c)
    case Nil
    have "plain_context s" using c Nil by (simp add: plain_context_def no_leave_iff)
    from ut_exit_sim[OF i _ this, of code] rm c Nil show ?thesis
      by (fastforce simp: call_ok_def run_step_def sp_step_def)
  next
    case (Cons a cs)
    let ?s1 = "s\<lparr>contexts := (contexts s)(running_thread s \<mapsto> cs)\<rparr>"
    have run: "run_step code s = perform code ?s1 a" using c Cons by (simp add: run_step_def)
    have sp: "sp_step code (abs_of s R W) = sp_perform code a (abs_of ?s1 R W)"
      using c Cons by (simp add: sp_step_def)
    show ?thesis
    proof (cases "\<exists>wb. a = Leave wb")
      case True
      then obtain wb where wb: "a = Leave wb" by blast
      from leave_sim[OF i c[unfolded Cons wb] rm] show ?thesis
        unfolding run sp wb
        by (intro exI[of _ "pop_block ?s1 wb"] exI[of _ R] exI[of _ W])
           (simp add: perform_def sp_perform_def)
    next
      case False
      then have nl: "\<forall>wb. a \<noteq> Leave wb" by blast
      have "call_ok code ?s1 a" using ok c Cons nl by (simp add: step_ok_def is_leave_def)
      with um_inv_pop[OF i c[unfolded Cons] nl] show ?thesis
        unfolding run sp using perform_sim by blast
    qed
  qed
qed

end
