(* ===== verification/Uthread_Reach.thy ===== *)
theory Uthread_Reach
  imports Uthread_Steps
begin

text \<open>
  All the states a program using the library can reach: the main thread initialises it, makes
  calls, enters \<open>ut_run\<close>; the user threads step; the main thread comes back. The invariant
  holds in each of them, by induction on how the state was reached.
\<close>

section \<open>Initialisation, entering and leaving ut_run\<close>

definition fresh_process :: "process \<Rightarrow> bool" where
  "fresh_process s \<longleftrightarrow> ready_queue s \<in> dom (links s) \<and> number_of_threads s = 0
     \<and> running_thread s = NULL \<and> main_thread s = NULL \<and> threads s = Map.empty
     \<and> contexts s = Map.empty \<and> blocks s = Map.empty \<and> events s = Map.empty \<and> sems s = Map.empty"

lemma ut_init_inv:
  assumes f: "fresh_process s"
  shows "\<exists>h. ut_init s = Inr (s\<lparr>links := h\<rparr>) \<and> um_inv (s\<lparr>links := h\<rparr>) [] (\<lambda>q. [])"
proof -
  have f': "ready_queue s \<in> dom (links s)" using f by (simp add: fresh_process_def)
  have "disjoint_lists dlist (links s) Map.empty" by (simp add: disjoint_lists_def)
  from lh.lists_new[OF this f'] obtain h where
    h: "init_list_head (links s) (ready_queue s) = Some h"
    "disjoint_lists dlist h [ready_queue s \<mapsto> []]" "dom h = dom (links s)" by (auto simp: nodes_def)
  have sn: "sentinels s = {}" using f by (simp add: fresh_process_def sentinels_def)
  have "lists_of s [] (\<lambda>q. []) = [ready_queue s \<mapsto> []]" by (auto simp: lists_of_def sn)
  with h have "heap_inv (s\<lparr>links := h\<rparr>) [] (\<lambda>q. [])"
    using f by (simp add: heap_inv_def sn fresh_process_def)
  moreover have "spec_inv (abs_of s [] (\<lambda>q. []))"
    using f by (simp add: spec_inv_def waiting_def on_cpu_def abs_of_def fresh_process_def sn)
  moreover have "counters_ok s" using f by (simp add: counters_ok_def fresh_process_def)
  moreover have "blocks_owned (blocks s) (contexts s)" using f by (simp add: blocks_owned_def fresh_process_def)
  ultimately have "um_inv (s\<lparr>links := h\<rparr>) [] (\<lambda>q. [])" by (simp add: um_inv_def)
  with h(1) show ?thesis by (auto simp: ut_init_def with_links_def)
qed

definition sp_enter :: "ptr \<Rightarrow> sched \<Rightarrow> sched" where
  "sp_enter m a = (if s_ready a = [] then a
     else sp_next (a\<lparr>s_main := m, s_running := m, s_conts := (s_conts a)(m \<mapsto> [])\<rparr>))"

lemma sp_enter_inv:
  assumes "spec_inv a" "s_running a = s_main a" "m \<notin> s_live a"
  shows "spec_inv (sp_enter m a)"
proof (cases "s_ready a = []")
  case True
  then show ?thesis using assms by (simp add: sp_enter_def)
next
  case False
  have w: "waiting (a\<lparr>s_main := m\<rparr>) = waiting a" by (simp add: waiting_def fun_eq_iff)
  have "parked (a\<lparr>s_main := m, s_running := m, s_conts := (s_conts a)(m \<mapsto> [])\<rparr>)"
    using assms by (auto simp: parked_def spec_inv_def on_cpu_def w)
  from sp_next_inv[OF this] False show ?thesis by (simp add: sp_enter_def)
qed

lemma ut_run_enter_sim:
  assumes i: "um_inv s R W" and r: "running_thread s = NULL" "main_thread s = NULL"
    and m: "m \<notin> dom (threads s)" "m \<notin> dom (contexts s)"
  shows "\<exists>s'. ut_run_enter s m = Inr (s', R \<noteq> []) \<and> um_inv s' (tl R) W
    \<and> abs_of s' (tl R) W = sp_enter m (abs_of s R W)"
proof (cases R)
  case Nil
  then show ?thesis using i r ready_is_empty_ok[OF um_invD(1)[OF i]]
    by (intro exI[of _ s]) (simp add: ut_run_enter_def sp_enter_def)
next
  case (Cons t ts)
  note I = um_invD[OF i]
  let ?s1 = "s\<lparr>main_thread := m, running_thread := m, contexts := (contexts s)(m \<mapsto> [])\<rparr>"
  have h1: "heap_inv ?s1 R W" using I(1) by simp
  have "t \<in> s_live (abs_of s R W)" using ready_live[OF i] Cons by auto
  then have "contexts s t \<noteq> None" using spec_invD(8)[OF I(2)] by simp
  then have "contexts ?s1 (case R of [] \<Rightarrow> main_thread ?s1 | t # _ \<Rightarrow> t) \<noteq> None" by (simp add: Cons)
  from schedule_sim[OF h1 this] obtain h t where
    h: "schedule ?s1 = Inr (?s1\<lparr>links := h, running_thread := t\<rparr>)"
    "heap_inv (?s1\<lparr>links := h, running_thread := t\<rparr>) (tl R) W"
    "abs_of (?s1\<lparr>links := h, running_thread := t\<rparr>) (tl R) W = sp_next (abs_of ?s1 R W)" by blast
  let ?s' = "?s1\<lparr>links := h, running_thread := t\<rparr>"
  have a: "abs_of ?s' (tl R) W = sp_enter m (abs_of s R W)"
    unfolding h(3) by (rule arg_cong[where f = sp_next, THEN trans]) (simp_all add: sp_enter_def Cons)
  have "spec_inv (abs_of ?s' (tl R) W)"
    unfolding a by (rule sp_enter_inv[OF I(2)]) (use r m in simp_all)
  moreover have "blocks_owned (blocks s) ((contexts s)(m \<mapsto> []))"
    by (rule blocks_owned_drop(2)[OF I(4)]) (use m in \<open>auto simp: no_leave_iff\<close>)
  ultimately have "um_inv ?s' (tl R) W" unfolding um_inv_def using h(2) I(3) by simp
  moreover have "ut_run_enter s m = Inr (?s', True)"
    using r ready_is_empty_ok[OF I(1)] Cons h(1) by (simp add: ut_run_enter_def Let_def)
  ultimately show ?thesis using a Cons by auto
qed

definition sp_leave :: "sched \<Rightarrow> sched" where
  "sp_leave a = a\<lparr>s_conts := (s_conts a)(s_main a := None), s_running := NULL, s_main := NULL\<rparr>"

lemma live_zero:
  assumes "counters_ok s" "number_of_threads s = 0"
  shows "dom (threads s) = {}"
proof -
  have "card (dom (threads s)) = 0" using live_count[OF assms(1)] assms(2) by simp
  with counters_okD(1)[OF assms(1)] show ?thesis by simp
qed

text \<open>The main thread comes back: the two assertions of \<open>ut_run\<close> are what can happen.\<close>

lemma ut_run_leave_sim:
  assumes i: "um_inv s R W" and r: "running_thread s = main_thread s" "R = []"
    and c: "\<forall>cs. contexts s (main_thread s) = Some cs \<longrightarrow> cs = []"
  shows "if dom (threads s) = {}
    then \<exists>s'. ut_run_leave s = Inr s' \<and> um_inv s' [] W \<and> abs_of s' [] W = sp_leave (abs_of s [] W)
    else ut_run_leave s = Inl AssertFailed"
proof (cases "dom (threads s) = {}")
  case False
  then have "number_of_threads s \<noteq> 0" using live_zero[OF um_invD(3)[OF i]] by blast
  then show ?thesis using False r ready_is_empty_ok[OF um_invD(1)[OF i]] by (simp add: ut_run_leave_def)
next
  case True
  note I = um_invD[OF i]
  have "number_of_threads s = 0" using counters_okD(3)[OF I(3)] True by simp
  let ?s' = "s\<lparr>contexts := (contexts s)(main_thread s := None), running_thread := NULL, main_thread := NULL\<rparr>"
  have e: "ut_run_leave s = Inr ?s'"
    using \<open>number_of_threads s = 0\<close> r ready_is_empty_ok[OF I(1)] by (simp add: ut_run_leave_def)
  have a: "abs_of ?s' [] W = sp_leave (abs_of s [] W)" by (simp add: sp_leave_def)
  have "\<And>q. waiting (sp_leave (abs_of s [] W)) q = waiting (abs_of s [] W) q"
    by (simp add: sp_leave_def waiting_def)
  then have "spec_inv (sp_leave (abs_of s [] W))"
    using I(2) True r unfolding spec_inv_def by (auto simp: sp_leave_def on_cpu_def)
  moreover have "blocks_owned (blocks s) ((contexts s)(main_thread s := None))"
    by (rule blocks_owned_drop(1)[OF I(4), of _ "[]"]) (use c in \<open>auto simp: no_leave_iff\<close>)
  ultimately have "um_inv ?s' [] W" using I(1,3) r a by (simp add: um_inv_def)
  then show ?thesis using True e a by auto
qed

section \<open>Reachable states\<close>

inductive ut_reach :: "(ptr \<Rightarrow> ptr \<Rightarrow> action list) \<Rightarrow> process \<Rightarrow> bool" for code where
  start: "fresh_process s \<Longrightarrow> ut_init s = Inr s' \<Longrightarrow> ut_reach code s'"
| main_call: "ut_reach code s \<Longrightarrow> running_thread s = NULL \<Longrightarrow> call_ok code s a \<Longrightarrow>
    perform code s a = Inr s' \<Longrightarrow> ut_reach code s'"
| enter: "ut_reach code s \<Longrightarrow> m \<noteq> NULL \<Longrightarrow> m \<notin> dom (threads s) \<Longrightarrow> m \<notin> dom (contexts s) \<Longrightarrow>
    ut_run_enter s m = Inr (s', b) \<Longrightarrow> ut_reach code s'"
| thread_step: "ut_reach code s \<Longrightarrow> step_ok code s \<Longrightarrow> run_step code s = Inr s' \<Longrightarrow> ut_reach code s'"
| leave: "ut_reach code s \<Longrightarrow> running_thread s = main_thread s \<Longrightarrow> main_thread s \<noteq> NULL \<Longrightarrow>
    ut_run_leave s = Inr s' \<Longrightarrow> ut_reach code s'"

text \<open>Outside \<open>ut_run\<close> there is no main thread; inside, it runs only when no thread is ready.\<close>

definition phase_ok :: "sched \<Rightarrow> bool" where
  "phase_ok a \<longleftrightarrow> (s_main a = NULL \<longrightarrow> s_running a = NULL) \<and> s_conts a NULL = None
     \<and> (s_main a \<noteq> NULL \<longrightarrow> s_running a = s_main a \<longrightarrow> s_ready a = [])
     \<and> (s_main a \<noteq> NULL \<longrightarrow> s_running a \<noteq> NULL)
     \<and> (\<forall>cs. s_conts a (s_main a) = Some cs \<longrightarrow> cs = [])
     \<and> NULL \<notin> s_live a"

lemma phase_okD:
  assumes "phase_ok a"
  shows "s_main a = NULL \<Longrightarrow> s_running a = NULL" "s_conts a NULL = None"
    "s_main a \<noteq> NULL \<Longrightarrow> s_running a = s_main a \<Longrightarrow> s_ready a = []"
    "s_running a = NULL \<Longrightarrow> s_main a = NULL"
    "s_conts a (s_main a) = Some cs \<Longrightarrow> cs = []" "NULL \<notin> s_live a"
  using assms unfolding phase_ok_def by auto

lemma sp_next_phase:
  assumes "s_main a \<notin> set (s_ready a)"
  shows "s_running (sp_next a) = s_main a \<Longrightarrow> s_ready (sp_next a) = []"
    and "NULL \<notin> set (s_ready a) \<Longrightarrow> s_main a \<noteq> NULL \<Longrightarrow> s_running (sp_next a) \<noteq> NULL"
  using assms by (auto simp: sp_next_def split: list.splits)

lemma phase_next:
  assumes "s_main a \<noteq> NULL" "s_main a \<notin> set (s_ready a)" "set (s_ready a) \<subseteq> s_live a" "NULL \<notin> s_live a"
    "\<forall>cs. s_conts a (s_main a) = Some cs \<longrightarrow> cs = []" "s_conts a NULL = None"
  shows "phase_ok (sp_next a)"
  using assms sp_next_phase[OF assms(2)] unfolding phase_ok_def by (metis sp_next_fields(1-3) subsetD)

lemma spec_ready_main: "spec_inv a \<Longrightarrow> s_main a \<notin> set (s_ready a) \<and> set (s_ready a) \<subseteq> s_live a"
  by (auto simp: spec_inv_def)

lemma phase_block:
  assumes "phase_ok a" "spec_inv a" "s_running a \<noteq> s_main a"
  shows "phase_ok (sp_block q wb n a)"
  unfolding sp_block_def
  by (rule phase_next) (use assms spec_ready_main[OF assms(2)] in \<open>auto simp: phase_ok_def\<close>)

lemma sp_sem_grant_fields:
  "s_main (sp_sem_grant p a) = s_main a" "s_running (sp_sem_grant p a) = s_running a"
  "s_conts (sp_sem_grant p a) = s_conts a" "s_live (sp_sem_grant p a) = s_live a"
  by (simp_all add: sp_sem_grant_def split: option.splits prod.splits)

lemma sp_sem_post_fields:
  "s_main (sp_sem_post p n a) = s_main a" "s_running (sp_sem_post p n a) = s_running a"
  "s_conts (sp_sem_post p n a) = s_conts a" "s_live (sp_sem_post p n a) = s_live a"
  by (simp_all add: sp_sem_post_def sp_sem_grant_fields split: option.splits)

text \<open>Calls that leave the running thread running.\<close>

lemma phase_same:
  assumes "phase_ok a" "s_main a' = s_main a" "s_running a' = s_running a"
    "s_main a = NULL \<or> s_running a \<noteq> s_main a"
    "s_conts a' (s_main a) = s_conts a (s_main a)" "NULL \<notin> s_live a'" "s_conts a' NULL = None"
  shows "phase_ok a'"
  using assms unfolding phase_ok_def by auto

lemma phase_perform:
  assumes i: "um_inv s R W" and ph: "phase_ok (abs_of s R W)" and ok: "call_ok code s c"
    and m: "main_thread s = NULL \<or> running_thread s \<noteq> main_thread s"
  shows "phase_ok (sp_perform code c (abs_of s R W))"
proof -
  let ?a = "abs_of s R W"
  note v = um_invD(2)[OF i]
  have m': "s_main ?a = NULL \<or> s_running ?a \<noteq> s_main ?a" using m by simp
  note same = phase_same[OF ph _ _ m']
  note P = phase_okD[OF ph]
  have rn: "main_thread s \<noteq> NULL" if "running_thread s \<noteq> main_thread s"
    using P(1) that by auto
  have sr: "main_thread s \<notin> set R" "set R \<subseteq> dom (threads s)" using spec_ready_main[OF v] by simp_all
  show ?thesis
  proof (cases c)
    case (UtCreate f x t st)
    show ?thesis unfolding UtCreate sp_perform_def action.case
      by (rule same) (use ok UtCreate P(2,6) in \<open>auto simp: sp_create_def call_ok_def\<close>)
  next
    case UtYield
    then have r: "running_thread s \<noteq> main_thread s" using ok by (simp add: call_ok_def)
    have "phase_ok (sp_next (?a\<lparr>s_ready := s_ready ?a @ [s_running ?a]\<rparr>))"
      by (rule phase_next) (use rn[OF r] r sr running_live(1)[OF i r] P(2,5,6) in simp_all)
    then show ?thesis using ph UtYield by (cases "R = []") (simp_all add: sp_perform_def sp_yield_def)
  next
    case UtExit
    then have r: "running_thread s \<noteq> main_thread s" using ok by (simp add: call_ok_def)
    have "phase_ok (sp_next (?a\<lparr>s_live := s_live ?a - {s_running ?a}, s_conts := (s_conts ?a)(s_running ?a := None)\<rparr>))"
      by (rule phase_next) (use rn[OF r] r sr running_live(2)[OF i r] P(2,5,6) in auto)
    then show ?thesis unfolding UtExit by (simp add: sp_perform_def sp_exit_def sp_next_upd)
  next
    case (EventInit e)
    show ?thesis unfolding EventInit sp_perform_def action.case
      by (rule same) (use P(2,6) in \<open>auto simp: sp_event_init_def\<close>)
  next
    case (EventWait e wb)
    then have r: "running_thread s \<noteq> main_thread s" using ok by (simp add: call_ok_def)
    show ?thesis using phase_block[OF ph v] r ph EventWait by (simp add: sp_perform_def sp_event_wait_def)
  next
    case (EventSet e)
    show ?thesis unfolding EventSet sp_perform_def action.case
      by (rule same) (use P(2,6) in \<open>auto simp: sp_event_set_def\<close>)
  next
    case (SemInit p u l)
    show ?thesis unfolding SemInit sp_perform_def action.case
      by (rule same) (use P(2,6) in \<open>auto simp: sp_sem_init_def\<close>)
  next
    case (SemWait p n wb)
    then have r: "running_thread s \<noteq> main_thread s" using ok by (simp add: call_ok_def)
    have "phase_ok (?a\<lparr>s_sem := w\<rparr>)" for w by (rule same) (use P(2,6) in auto)
    then show ?thesis using phase_block[OF ph v] r ph SemWait
      by (auto simp: sp_perform_def sp_sem_wait_def split: option.splits)
  next
    case (SemPost p n)
    show ?thesis unfolding SemPost sp_perform_def action.case
      by (rule same) (use P(2,6) in \<open>auto simp: sp_sem_post_fields\<close>)
  next
    case (Print str)
    show ?thesis unfolding Print sp_perform_def action.case
      by (rule same) (use P(2,6) in auto)
  next
    case (Leave wb)
    then show ?thesis using ok by (simp add: call_ok_def)
  qed
qed

lemma phase_step:
  assumes i: "um_inv s R W" and ph: "phase_ok (abs_of s R W)" and ok: "step_ok code s"
  shows "phase_ok (sp_step code (abs_of s R W))"
proof -
  note P = phase_okD[OF ph]
  have rm: "running_thread s \<noteq> main_thread s" using ok by (simp add: step_ok_def is_leave_def)
  obtain c where c: "contexts s (running_thread s) = Some c"
    using ok by (auto simp: step_ok_def split: option.splits)
  show ?thesis
  proof (cases c)
    case Nil
    have "call_ok code s UtExit" using rm by (simp add: call_ok_def)
    from phase_perform[OF i ph this] rm c Nil show ?thesis by (simp add: sp_step_def sp_perform_def)
  next
    case (Cons a cs)
    let ?s1 = "s\<lparr>contexts := (contexts s)(running_thread s \<mapsto> cs)\<rparr>"
    have ph1: "phase_ok (abs_of ?s1 R W)"
      by (rule phase_same[OF ph]) (use rm P(2,4,6) in auto)
    have sp: "sp_step code (abs_of s R W) = sp_perform code a (abs_of ?s1 R W)"
      using c Cons by (simp add: sp_step_def)
    show ?thesis
    proof (cases "\<exists>wb. a = Leave wb")
      case True
      then show ?thesis unfolding sp using ph1 by (auto simp: sp_perform_def)
    next
      case False
      then have nl: "\<forall>wb. a \<noteq> Leave wb" by blast
      have "call_ok code ?s1 a" using ok c Cons nl by (simp add: step_ok_def is_leave_def)
      with um_inv_pop[OF i c[unfolded Cons] nl] ph1 rm show ?thesis
        unfolding sp by (intro phase_perform) auto
    qed
  qed
qed

theorem reach_inv: "ut_reach code s \<Longrightarrow> \<exists>R W. um_inv s R W \<and> phase_ok (abs_of s R W)"
proof (induction rule: ut_reach.induct)
  case (start s s')
  from ut_init_inv[OF start(1)] start(2) have "um_inv s' [] (\<lambda>q. [])" by auto
  moreover have "phase_ok (abs_of s' [] (\<lambda>q. []))"
    using start ut_init_inv[OF start(1)] by (auto simp: phase_ok_def fresh_process_def)
  ultimately show ?case by blast
next
  case (main_call s a s')
  then obtain R W where i: "um_inv s R W" and ph: "phase_ok (abs_of s R W)" by blast
  note P = phase_okD[OF ph]
  have m: "main_thread s = NULL" using P(4) main_call.hyps(2) by simp
  have pc: "plain_context s" using P(2) main_call.hyps(2) by (simp add: plain_context_def)
  from perform_sim[OF i main_call.hyps(3) pc] main_call.hyps(4) obtain R' W' where
    "um_inv s' R' W'" "abs_of s' R' W' = sp_perform code a (abs_of s R W)" by auto
  then show ?case using phase_perform[OF i ph main_call.hyps(3)] m by metis
next
  case (enter s m s' b)
  then obtain R W where i: "um_inv s R W" and ph: "phase_ok (abs_of s R W)" by blast
  note P = phase_okD[OF ph]
  have r: "running_thread s = NULL" using enter.hyps(5) by (auto simp: ut_run_enter_def split: if_splits)
  then have m0: "main_thread s = NULL" using P(4) by simp
  from ut_run_enter_sim[OF i r m0 enter.hyps(3,4)] enter.hyps(5) have
    s': "um_inv s' (tl R) W" "abs_of s' (tl R) W = sp_enter m (abs_of s R W)" by auto
  have "phase_ok (sp_enter m (abs_of s R W))"
  proof (cases "R = []")
    case True
    then show ?thesis using ph by (simp add: sp_enter_def)
  next
    case False
    have "m \<notin> set R" using ready_live[OF i] enter.hyps(3) by blast
    then have "phase_ok (sp_next ((abs_of s R W)\<lparr>s_main := m, s_running := m, s_conts := (contexts s)(m \<mapsto> [])\<rparr>))"
      by (intro phase_next) (use enter.hyps(2) ready_live[OF i] P(2,6) in auto)
    with False show ?thesis by (simp add: sp_enter_def)
  qed
  with s' show ?case by metis
next
  case (thread_step s s')
  then obtain R W where i: "um_inv s R W" and ph: "phase_ok (abs_of s R W)" by blast
  from run_step_sim[OF i thread_step.hyps(2)] thread_step.hyps(3) obtain R' W' where
    "um_inv s' R' W'" "abs_of s' R' W' = sp_step code (abs_of s R W)" by auto
  then show ?case using phase_step[OF i ph thread_step.hyps(2)] by metis
next
  case (leave s s')
  then obtain R W where i: "um_inv s R W" and ph: "phase_ok (abs_of s R W)" by blast
  note P = phase_okD[OF ph]
  have R: "R = []" using P(3) leave.hyps(2,3) by simp
  have c: "\<forall>cs. contexts s (main_thread s) = Some cs \<longrightarrow> cs = []" using P(5) by simp
  from ut_run_leave_sim[OF i leave.hyps(2) R c] leave.hyps(4) have
    s': "dom (threads s) = {}" "um_inv s' [] W" "abs_of s' [] W = sp_leave (abs_of s [] W)"
    by (auto split: if_splits)
  have "phase_ok (sp_leave (abs_of s [] W))" using s'(1) P(2) by (simp add: phase_ok_def sp_leave_def)
  with s' show ?case by metis
qed

section \<open>Schedules\<close>

text \<open>
  A schedule of moves played from \<open>ut_init\<close> on, each of them checked to be valid: concrete
  programs run by evaluation, and what they reach is reachable.
\<close>

datatype move = Call action | Enter ptr | Step | Back

fun drive :: "(ptr \<Rightarrow> ptr \<Rightarrow> action list) \<Rightarrow> process \<Rightarrow> move list \<Rightarrow> process option" where
  "drive code s [] = Some s"
| "drive code s (Call a # ms) =
     (if running_thread s = NULL \<and> call_ok code s a
      then (case perform code s a of Inl err \<Rightarrow> None | Inr s1 \<Rightarrow> drive code s1 ms) else None)"
| "drive code s (Enter m # ms) =
     (if m \<noteq> NULL \<and> threads s m = None \<and> contexts s m = None
      then (case ut_run_enter s m of Inl err \<Rightarrow> None | Inr (s1, b) \<Rightarrow> drive code s1 ms) else None)"
| "drive code s (Step # ms) =
     (if step_ok code s
      then (case run_step code s of Inl err \<Rightarrow> None | Inr s1 \<Rightarrow> drive code s1 ms) else None)"
| "drive code s (Back # ms) =
     (if running_thread s = main_thread s \<and> main_thread s \<noteq> NULL
      then (case ut_run_leave s of Inl err \<Rightarrow> None | Inr s1 \<Rightarrow> drive code s1 ms) else None)"

lemma drive_reach: "drive code s ms = Some s' \<Longrightarrow> ut_reach code s \<Longrightarrow> ut_reach code s'"
proof (induction code s ms rule: drive.induct)
  case (2 code s a ms)
  then show ?case by (auto split: if_splits sum.splits intro: ut_reach.main_call)
next
  case (3 code s m ms)
  then obtain s1 b where e: "ut_run_enter s m = Inr (s1, b)" "drive code s1 ms = Some s'"
    "m \<noteq> NULL" "threads s m = None" "contexts s m = None"
    by (auto split: if_splits sum.splits)
  then have "ut_reach code s1" using 3(3) by (intro ut_reach.enter[of code s m s1 b]) auto
  then show ?case using 3(1) e by auto
next
  case (4 code s ms)
  then show ?case by (auto split: if_splits sum.splits intro: ut_reach.thread_step)
next
  case (5 code s ms)
  then show ?case by (auto split: if_splits sum.splits intro: ut_reach.leave)
qed simp

definition boot :: process where
  "boot = \<lparr>links = [0x40 \<mapsto> fresh_entry], ready_queue = 0x40, number_of_threads = 0,
     running_thread = NULL, main_thread = NULL, threads = Map.empty, contexts = Map.empty,
     blocks = Map.empty, events = Map.empty, sems = Map.empty, printed = []\<rparr>"

definition play :: "(ptr \<Rightarrow> ptr \<Rightarrow> action list) \<Rightarrow> move list \<Rightarrow> process option" where
  "play code ms = (case ut_init boot of Inl err \<Rightarrow> None | Inr s \<Rightarrow> drive code s ms)"

lemma play_reach: "play code ms = Some s \<Longrightarrow> ut_reach code s"
proof -
  assume p: "play code ms = Some s"
  then obtain s0 where "ut_init boot = Inr s0" "drive code s0 ms = Some s"
    by (auto simp: play_def split: sum.splits)
  moreover have "fresh_process boot" by (simp add: fresh_process_def boot_def)
  ultimately show ?thesis using drive_reach ut_reach.start by metis
qed

end
