(* ===== verification/Uthread_Props.thy ===== *)
theory Uthread_Props
  imports Uthread_Reach
begin

text \<open>
  What the uthread library guarantees, as theorems on the model of the code: memory safety and
  refinement of every step, scheduling order, events, semaphores, the end of \<open>ut_run\<close>, and the
  runs of the repository's test programs.
\<close>

section \<open>The test programs of uthreads/tests\<close>

text \<open>
  \<open>event_test.c\<close>: \<open>usleep\<close> stops the whole process and changes nothing here. The addresses of
  the two functions, of the variable \<open>done\<close> and of what \<open>malloc\<close> returns are arbitrary.
\<close>

definition waiter :: "ptr \<Rightarrow> action list" where
  "waiter done = [Print ''waiter  begin'', Print ''waiter: wait for thread notification!'',
     EventWait done 0x5000, Print ''waiter thread end!'']"

definition notifier :: "ptr \<Rightarrow> action list" where
  "notifier done = [Print ''notifier thread begin'', EventSet done, Print ''notifier thread end'']"

definition event_test_code :: "ptr \<Rightarrow> ptr \<Rightarrow> action list" where
  "event_test_code f arg = (if f = 0x10 then waiter arg else if f = 0x20 then notifier arg else [])"

definition event_test :: "move list" where
  "event_test = [Call (Print ''event test  begin''), Call (EventInit 0x100),
     Call (UtCreate 0x10 0x100 0x1000 0x9000), Call (UtCreate 0x20 0x100 0x2000 0x8000), Enter 0x600]
     @ replicate 10 Step @ [Back, Call (Print ''event test  end'')]"

text \<open>\<open>test2\<close> of \<open>simpletest.c\<close>.\<close>

definition func1 :: "action list" where
  "func1 = [Print ''Start func1'', UtYield, Print ''End func1'']"

definition func2 :: "action list" where
  "func2 = [Print ''func2'']"

definition test2_code :: "ptr \<Rightarrow> ptr \<Rightarrow> action list" where
  "test2_code f arg = (if f = 0x10 then func1 else if f = 0x20 then func2 else [])"

definition test2 :: "move list" where
  "test2 = [Call (Print '':: Test 2 - BEGIN ::''), Call (UtCreate 0x10 0 0x1000 0x9000),
     Call (UtCreate 0x20 0 0x2000 0x8000), Enter 0x600]
     @ replicate 6 Step @ [Back, Call (Print '':: Test 2 - END ::'')]"

text \<open>A program of three threads on one semaphore and one event, for the examples.\<close>

definition demo_code :: "ptr \<Rightarrow> ptr \<Rightarrow> action list" where
  "demo_code f arg = (if f = 1 then [EventWait 0x100 0x5000, UtYield]
     else if f = 2 then [SemWait 0x200 2 0x6000] else if f = 3 then [SemWait 0x200 9 0x7000]
     else [UtYield, SemPost 0x200 2, EventSet 0x100])"

definition demo_start :: "move list" where
  "demo_start = [Call (EventInit 0x100), Call (SemInit 0x200 1 5),
     Call (UtCreate 1 0 0x1000 0x9000), Call (UtCreate 2 0 0x2000 0xa000),
     Call (UtCreate 4 0 0x3000 0xb000), Call (UtCreate 4 0 0x4000 0xc000), Enter 0x600]"

section \<open>Safety and refinement\<close>

text \<open>C1: In every reachable state of a program using the library, a valid step of the running
  thread returns: no access outside allocated list entries, descriptors and wait blocks, no
  failed assertion, no overflow, no endless loop; and the linked structures after it stand for
  the state the list specification gives.\<close>

theorem reachable_step_refines:
  assumes "ut_reach code s" "step_ok code s"
  shows "\<exists>R W s' R' W'. um_inv s R W \<and> run_step code s = Inr s' \<and> ut_reach code s'
    \<and> um_inv s' R' W' \<and> abs_of s' R' W' = sp_step code (abs_of s R W)"
proof -
  obtain R W where i: "um_inv s R W" using reach_inv[OF assms(1)] by blast
  from run_step_sim[OF i assms(2)] obtain s' R' W' where
    "run_step code s = Inr s'" "um_inv s' R' W'" "abs_of s' R' W' = sp_step code (abs_of s R W)" by blast
  then show ?thesis using i ut_reach.thread_step[OF assms] by blast
qed

lemma demo_states:
  "case play demo_code demo_start of None \<Rightarrow> False | Some s \<Rightarrow> step_ok demo_code s
     \<and> running_thread s = 0x1000 \<and> main_thread s = 0x600 \<and> number_of_threads s = 4"
  "case play demo_code (demo_start @ [Step, Step]) of None \<Rightarrow> False | Some s \<Rightarrow> step_ok demo_code s
     \<and> running_thread s = 0x3000 \<and> main_thread s = 0x600 \<and> events s 0x100 = Some False
     \<and> (case sems s 0x200 of None \<Rightarrow> False | Some r \<Rightarrow> sem_units r = 1 \<and> sem_limit r = 5)
     \<and> ready_is_empty s = Inr False"
  by code_simp+

lemma demo_state1:
  "\<exists>s. ut_reach demo_code s \<and> step_ok demo_code s \<and> running_thread s = 0x1000 \<and> main_thread s = 0x600"
  using demo_states(1) play_reach[of demo_code demo_start] by (auto split: option.splits)

lemma demo_state2:
  "\<exists>s r. ut_reach demo_code s \<and> step_ok demo_code s \<and> running_thread s = 0x3000 \<and> main_thread s = 0x600
     \<and> events s 0x100 = Some False \<and> sems s 0x200 = Some r \<and> sem_units r = 1 \<and> sem_limit r = 5
     \<and> ready_is_empty s = Inr False"
  using demo_states(2) play_reach[of demo_code "demo_start @ [Step, Step]"]
  by (auto split: option.splits)

lemma reachable_step_refines_witness:
  "\<exists>s R W s' R' W'. ut_reach demo_code s \<and> step_ok demo_code s \<and> um_inv s R W \<and> run_step demo_code s = Inr s'
    \<and> um_inv s' R' W' \<and> abs_of s' R' W' = sp_step demo_code (abs_of s R W)"
proof -
  obtain s where s: "ut_reach demo_code s" "step_ok demo_code s" using demo_state1 by blast
  from reachable_step_refines[OF s] s show ?thesis by blast
qed

section \<open>Where the threads are\<close>

datatype place = OnCpu | InReady | WaitsOn ptr ptr

fun at_place :: "process \<Rightarrow> ptr list \<Rightarrow> (ptr \<Rightarrow> ptr list) \<Rightarrow> ptr \<Rightarrow> place \<Rightarrow> bool" where
  "at_place s R W t OnCpu \<longleftrightarrow> running_thread s = t"
| "at_place s R W t InReady \<longleftrightarrow> t \<in> set R"
| "at_place s R W t (WaitsOn q wb) \<longleftrightarrow> q \<in> sentinels s \<and> wb \<in> set (W q) \<and> fst (block_info s wb) = t"

lemma waiting_at:
  "t \<in> waiting (abs_of s R W) q \<longleftrightarrow> (\<exists>wb. at_place s R W t (WaitsOn q wb))"
  by (auto simp: waiting_def abs_of_wait)

lemma waits_once:
  assumes i: "um_inv s R W" and p: "at_place s R W t (WaitsOn q wb)" "at_place s R W t (WaitsOn q wb')"
  shows "wb = wb'"
proof -
  have "distinct (map (\<lambda>wb. fst (block_info s wb)) (W q))"
    using spec_invD(2)[OF um_invD(2)[OF i], of q] p(1) by (simp add: abs_of_wait comp_def)
  then have "inj_on (\<lambda>wb. fst (block_info s wb)) (set (W q))" by (simp add: distinct_map)
  then show ?thesis using p by (auto dest: inj_onD)
qed

lemma one_place:
  assumes i: "um_inv s R W" and t: "t \<in> dom (threads s)"
  shows "\<exists>!pl. at_place s R W t pl"
proof -
  let ?a = "abs_of s R W"
  note D = spec_invD[OF um_invD(2)[OF i]]
  have m: "t \<noteq> main_thread s" using D(7) t by auto
  have cpu: "t \<in> on_cpu ?a \<longleftrightarrow> at_place s R W t OnCpu" using m by (auto simp: on_cpu_def)
  have cov: "t \<in> on_cpu ?a \<or> t \<in> set R \<or> (\<exists>q. t \<in> waiting ?a q)" using D(6) t by auto
  have x1: "\<not> (t \<in> on_cpu ?a \<and> t \<in> set R)" using D(3) by auto
  have x2: "t \<notin> on_cpu ?a \<and> t \<notin> set R" if "t \<in> waiting ?a q" for q using D(4)[of q] that by auto
  have x3: "q = q'" if "t \<in> waiting ?a q" "t \<in> waiting ?a q'" for q q' using D(5)[of q q'] that by auto
  have ex: "\<exists>pl. at_place s R W t pl"
    using cov unfolding cpu waiting_at by (metis at_place.simps(2))
  have un: "pl = pl'" if "at_place s R W t pl" "at_place s R W t pl'" for pl pl'
  proof -
    have *: "t \<in> waiting ?a q" if "at_place s R W t (WaitsOn q wb)" for q wb using that waiting_at by blast
    show ?thesis
    proof (cases pl; cases pl')
      fix q wb q' wb' assume e: "pl = WaitsOn q wb" "pl' = WaitsOn q' wb'"
      then have "q = q'" using x3 * that by blast
      with e that show ?thesis using waits_once[OF i, of t q wb wb'] by simp
    qed (use that cpu x1 x2 * in \<open>auto simp del: at_place.simps(3)\<close>)
  qed
  show ?thesis using ex un by blast
qed

text \<open>C3: In every reachable state \<open>number_of_threads\<close> is the number of live descriptors, and each
  live thread is in exactly one place: on the processor, in the ready queue, or in the wait
  list of one synchronizer by one wait block.\<close>

theorem thread_in_one_place:
  assumes "ut_reach code s"
  shows "\<exists>R W. um_inv s R W \<and> unat (number_of_threads s) = card (dom (threads s))
    \<and> distinct R \<and> (\<forall>t. threads s t \<noteq> None \<longrightarrow> (\<exists>!pl. at_place s R W t pl))"
proof -
  obtain R W where i: "um_inv s R W" using reach_inv[OF assms] by blast
  show ?thesis
  proof (intro exI conjI allI impI)
    show "um_inv s R W" by (rule i)
    show "unat (number_of_threads s) = card (dom (threads s))" by (rule live_count[OF um_invD(3)[OF i]])
    show "distinct R" using spec_invD(1)[OF um_invD(2)[OF i]] by simp
    show "\<exists>!pl. at_place s R W t pl" if "threads s t \<noteq> None" for t
      using one_place[OF i] that by blast
  qed
qed

lemma thread_in_one_place_witness:
  "\<exists>s R W. ut_reach demo_code s \<and> threads s 0x1000 \<noteq> None \<and> (\<exists>!pl. at_place s R W 0x1000 pl)"
proof -
  obtain s where s: "ut_reach demo_code s" "running_thread s = 0x1000" "main_thread s = 0x600"
    using demo_state1 by blast
  from thread_in_one_place[OF s(1)] obtain R W where
    i: "um_inv s R W" "\<forall>t. threads s t \<noteq> None \<longrightarrow> (\<exists>!pl. at_place s R W t pl)" by blast
  have "threads s 0x1000 \<noteq> None" using running_live(1)[OF i(1)] s(2,3) by auto
  with s(1) i(2) show ?thesis by blast
qed

section \<open>Scheduling order\<close>

fun yields :: "nat \<Rightarrow> process \<Rightarrow> c_error + process" where
  "yields 0 s = Inr s"
| "yields (Suc n) s = and_then (ut_yield s) (yields n)"

lemma yield_rotates:
  assumes i: "um_inv s R W" and m: "running_thread s \<noteq> main_thread s"
  shows "\<exists>s' t R'. ut_yield s = Inr s' \<and> um_inv s' R' W \<and> rotate1 (running_thread s # R) = t # R'
    \<and> running_thread s' = t \<and> main_thread s' = main_thread s \<and> t \<noteq> main_thread s"
proof -
  have "call_ok (\<lambda>f x. []) s UtYield" using m by (simp add: call_ok_def)
  from ut_yield_sim[OF i this] obtain s' R' where
    y: "ut_yield s = Inr s'" "um_inv s' R' W" "abs_of s' R' W = sp_yield (abs_of s R W)" by blast
  have f: "running_thread s' = s_running (sp_yield (abs_of s R W))" "R' = s_ready (sp_yield (abs_of s R W))"
    "main_thread s' = s_main (sp_yield (abs_of s R W))"
    unfolding y(3)[symmetric] by simp_all
  have "main_thread s \<notin> set R" using spec_ready_main[OF um_invD(2)[OF i]] by simp
  then show ?thesis using y(1,2) f m by (cases R) (auto simp: sp_yield_def sp_next_def)
qed

text \<open>C13: Yielding is a round robin: after \<open>n\<close> yields in a row the running thread and the ready
  queue are the initial ones rotated \<open>n\<close> times, so every ready thread runs within as many
  yields as there are threads before it, and in arrival order.\<close>

theorem yield_round_robin:
  assumes "um_inv s R W" "running_thread s \<noteq> main_thread s"
  shows "\<exists>s' t R'. yields n s = Inr s' \<and> um_inv s' R' W
    \<and> rotate n (running_thread s # R) = t # R' \<and> running_thread s' = t"
  using assms
proof (induction n arbitrary: s R)
  case 0
  then show ?case by (intro exI[of _ s]) auto
next
  case (Suc n)
  from yield_rotates[OF Suc.prems] obtain s1 t1 R1 where
    s1: "ut_yield s = Inr s1" "um_inv s1 R1 W" "rotate1 (running_thread s # R) = t1 # R1"
    "running_thread s1 = t1" "main_thread s1 = main_thread s" "t1 \<noteq> main_thread s" by blast
  have "running_thread s1 \<noteq> main_thread s1" using s1 by simp
  from Suc.IH[OF s1(2) this] show ?case using s1(1,3,4) by (simp add: rotate1_rotate_swap)
qed

lemma yield_round_robin_witness:
  "\<exists>s R W s' t R'. um_inv s R W \<and> running_thread s = 0x1000 \<and> yields 3 s = Inr s' \<and> um_inv s' R' W
    \<and> rotate 3 (0x1000 # R) = t # R' \<and> running_thread s' = t"
proof -
  obtain s where s: "ut_reach demo_code s" "running_thread s = 0x1000" "main_thread s = 0x600"
    using demo_state1 by blast
  from reach_inv[OF s(1)] obtain R W where i: "um_inv s R W" by blast
  have "running_thread s \<noteq> main_thread s" using s by simp
  from yield_round_robin[OF i this, of 3] show ?thesis using i s by metis
qed

section \<open>Events\<close>

text \<open>C6: \<open>event_set\<close> is a broadcast: every waiter is appended to the ready queue in the order in
  which it came, the wait list is empty afterwards, the caller keeps running, and from then on
  \<open>event_wait\<close> returns at once without any change.\<close>

theorem event_set_broadcasts:
  assumes "um_inv s R W" "events s e \<noteq> None"
  shows "\<exists>s'. event_set s e = Inr s'
    \<and> um_inv s' (R @ map (\<lambda>wb. fst (block_info s wb)) (W (event_waiters e))) (W(event_waiters e := []))
    \<and> running_thread s' = running_thread s \<and> events s' e = Some True
    \<and> (\<forall>wb. event_wait s' e wb = Inr s')"
proof -
  have ok: "call_ok (\<lambda>f x. []) s (EventSet e)" using assms(2) by (simp add: call_ok_def)
  let ?q = "event_waiters e"
  let ?R = "R @ map (\<lambda>wb. fst (block_info s wb)) (W ?q)" and ?W = "W(?q := [])"
  from event_set_sim[OF assms(1) ok] obtain s' where
    s': "event_set s e = Inr s'" "um_inv s' ?R ?W" "abs_of s' ?R ?W = sp_event_set e (abs_of s R W)"
    by (auto simp: Let_def)
  have f: "running_thread s' = running_thread s" "events s' e = Some True"
    using arg_cong[OF s'(3), of s_running] arg_cong[OF s'(3), of s_event]
    by (simp_all add: sp_event_set_def)
  have "event_wait s' e wb = Inr s'" for wb using f(2) by (simp add: event_wait_def)
  then show ?thesis using s'(1,2) f by blast
qed

lemma event_set_broadcasts_witness:
  "\<exists>s R W s'. um_inv s R W \<and> events s 0x100 = Some False \<and> event_set s 0x100 = Inr s'
    \<and> um_inv s' (R @ map (\<lambda>wb. fst (block_info s wb)) (W (event_waiters 0x100))) (W(event_waiters 0x100 := []))
    \<and> events s' 0x100 = Some True"
proof -
  obtain s where s: "ut_reach demo_code s" "events s 0x100 = Some False"
    using demo_state2 by blast
  from reach_inv[OF s(1)] obtain R W where i: "um_inv s R W" by blast
  have "events s 0x100 \<noteq> None" using s(2) by simp
  from event_set_broadcasts[OF i this] show ?thesis using i s(2) by blast
qed

section \<open>Semaphores\<close>

definition asks :: "process \<Rightarrow> ptr list \<Rightarrow> int list" where
  "asks s wbs = map (\<lambda>wb. snd (block_info s wb)) wbs"

lemma grant_prefix:
  "grant u ws = (rel, left, u') \<Longrightarrow>
   rel = take (length rel) ws \<and> left = drop (length rel) ws
   \<and> u' = u - sum_list (map snd rel)
   \<and> (\<forall>j<length rel. sum_list (map snd (take j rel)) < u \<and> sum_list (map snd (take (Suc j) rel)) \<le> u)
   \<and> (left \<noteq> [] \<longrightarrow> u' \<le> 0 \<or> u' < snd (hd left))"
proof (induction u ws arbitrary: rel left u' rule: grant.induct)
  case (1 u)
  then show ?case by simp
next
  case (2 u t n ws)
  show ?case
  proof (cases "u > 0 \<and> n \<le> u")
    case False
    then show ?thesis using 2(2) by auto
  next
    case True
    then obtain rel' where g: "grant (u - n) ws = (rel', left, u')" "rel = (t, n) # rel'"
      using 2(2) by (auto split: prod.splits)
    have IH: "rel' = take (length rel') ws" "left = drop (length rel') ws"
      "u' = u - n - sum_list (map snd rel')"
      "\<forall>j<length rel'. sum_list (map snd (take j rel')) < u - n \<and> sum_list (map snd (take (Suc j) rel')) \<le> u - n"
      "left \<noteq> [] \<longrightarrow> u' \<le> 0 \<or> u' < snd (hd left)" using 2(1)[OF True g(1)] by blast+
    have "sum_list (map snd (take j rel)) < u \<and> sum_list (map snd (take (Suc j) rel)) \<le> u"
      if "j < length rel" for j
    proof (cases j)
      case 0
      then show ?thesis using True g(2) by simp
    next
      case (Suc i)
      then have "sum_list (map snd (take i rel')) < u - n" "sum_list (map snd (take (Suc i) rel')) \<le> u - n"
        using IH(4) that g(2) by auto
      then show ?thesis using Suc g(2) by simp
    qed
    then show ?thesis using IH(1-3,5) g(2) by simp
  qed
qed

text \<open>The same for the wait blocks of a synchronizer.\<close>

lemma grant_waiters:
  assumes g: "grant u (map (block_info s) ws) = (rel, left, u')" and nn: "0 \<le> u'"
  shows "length rel \<le> length ws"
    and "map fst rel = map (\<lambda>wb. fst (block_info s wb)) (take (length rel) ws)"
    and "u' = u - sum_list (take (length rel) (asks s ws))"
    and "\<forall>j<length rel. sum_list (take j (asks s ws)) < u \<and> sum_list (take (Suc j) (asks s ws)) \<le> u"
    and "length rel < length ws \<longrightarrow> u' = 0 \<or> u' < asks s ws ! length rel"
proof -
  let ?m = "length rel" and ?asks = "asks s ws"
  note G = grant_prefix[OF g]
  have rel: "rel = map (block_info s) (take ?m ws)" "left = map (block_info s) (drop ?m ws)"
    using G by (simp_all add: take_map drop_map)
  show "?m \<le> length ws" using arg_cong[OF rel(1), of length] by simp
  show "map fst rel = map (\<lambda>wb. fst (block_info s wb)) (take ?m ws)" by (subst rel(1)) simp
  have sums: "map snd (take j rel) = take j ?asks" if "j \<le> ?m" for j
    using that by (subst rel(1)) (simp add: asks_def take_map min_def comp_def)
  show "u' = u - sum_list (take ?m ?asks)" using G sums[of ?m] by simp
  show "\<forall>j<?m. sum_list (take j ?asks) < u \<and> sum_list (take (Suc j) ?asks) \<le> u"
    using G sums by (metis Suc_leI less_imp_le)
  show "?m < length ws \<longrightarrow> u' = 0 \<or> u' < ?asks ! ?m"
  proof
    assume l: "?m < length ws"
    then have "left \<noteq> []" "snd (hd left) = ?asks ! ?m"
      by (subst rel(2), simp, subst rel(2), simp add: asks_def hd_map hd_drop_conv_nth)
    then show "u' = 0 \<or> u' < ?asks ! ?m" using G nn by auto
  qed
qed

text \<open>C5: \<open>sem_post\<close> adds the units and cuts the sum at the limit: units above it are lost. What is
  then there it hands to the waiters first in first out, while units are left: it releases a
  prefix of the wait list, in order and behind the threads already ready, each waiter taking
  what it asked for, and keeps exactly the rest. It stops at the first waiter that asks for more
  than is left, or when nothing is left, even if the next waiter asks for zero.\<close>

theorem sem_post_serves_in_order:
  assumes "um_inv s R W" "sems s p = Some r" "0 \<le> n" "sem_units r + n \<le> INT_MAX"
  defines "u \<equiv> min (sem_units r + n) (sem_limit r)"
  shows "\<exists>s' k. sem_post s p n = Inr s' \<and> k \<le> length (W p)
    \<and> um_inv s' (R @ map (\<lambda>wb. fst (block_info s wb)) (take k (W p))) (W(p := drop k (W p)))
    \<and> running_thread s' = running_thread s
    \<and> sems s' p = Some (r\<lparr>sem_units := u - sum_list (take k (asks s (W p)))\<rparr>)
    \<and> (\<forall>j<k. sum_list (take j (asks s (W p))) < u \<and> sum_list (take (Suc j) (asks s (W p))) \<le> u)
    \<and> (k < length (W p) \<longrightarrow> u - sum_list (take k (asks s (W p))) = 0
        \<or> u - sum_list (take k (asks s (W p))) < asks s (W p) ! k)"
proof -
  let ?a = "abs_of s R W"
  obtain rel left u' where g: "grant u (map (block_info s) (W p)) = (rel, left, u')"
    using prod_cases3 by blast
  let ?m = "length rel"
  from sem_post_grant_sim[OF assms(1-4) g[unfolded u_def]] obtain s' where
    s': "sem_post s p n = Inr s'" "um_inv s' (R @ map fst rel) (W(p := drop ?m (W p)))"
    "abs_of s' (R @ map fst rel) (W(p := drop ?m (W p))) = sp_sem_post p n ?a" by blast
  have q: "p \<in> sentinels s" using sentinel_sem assms(2) by blast
  have e: "sp_sem_post p n ?a = ?a\<lparr>s_sem := (sems s)(p \<mapsto> r\<lparr>sem_units := u'\<rparr>),
      s_ready := R @ map fst rel, s_wait := (s_wait ?a)(p := left)\<rparr>"
    using sp_sem_post_eq[of ?a p r n rel left u'] assms(2) g q unfolding u_def
    by (simp add: abs_of_wait del: fun_upd_apply)
  have f: "sems s' p = Some (r\<lparr>sem_units := u'\<rparr>)" "running_thread s' = running_thread s"
    using arg_cong[OF s'(3), of s_sem] arg_cong[OF s'(3), of s_running] unfolding e by simp_all
  have "\<forall>x\<in>set (map (block_info s) (W p)). 0 \<le> snd x"
    using counters_okD(7)[OF um_invD(3)[OF assms(1)]] by (auto simp: block_info_def split: option.splits)
  moreover have "0 \<le> u"
    using counters_okD(4,5)[OF um_invD(3)[OF assms(1)] assms(2)] assms(3) by (simp add: u_def)
  ultimately have "0 \<le> u'" using grant_units[OF g] by blast
  from grant_waiters[OF g this] s'(1,2) f show ?thesis by metis
qed

lemma sem_post_serves_in_order_witness:
  "\<exists>s R W s' k r. um_inv s R W \<and> sems s 0x200 = Some r \<and> sem_units r = 1 \<and> sem_post s 0x200 2 = Inr s'
    \<and> k \<le> length (W 0x200)
    \<and> um_inv s' (R @ map (\<lambda>wb. fst (block_info s wb)) (take k (W 0x200))) (W(0x200 := drop k (W 0x200)))
    \<and> sems s' 0x200 = Some (r\<lparr>sem_units := 3 - sum_list (take k (asks s (W 0x200)))\<rparr>)"
proof -
  obtain s r where s: "ut_reach demo_code s" "sems s 0x200 = Some r" "sem_units r = 1" "sem_limit r = 5"
    using demo_state2 by blast
  from reach_inv[OF s(1)] obtain R W where i: "um_inv s R W" by blast
  have "sem_units r + 2 \<le> INT_MAX" using s(3) by (simp add: INT_MAX_def)
  from sem_post_serves_in_order[OF i s(2) _ this] obtain s' k where
    "sem_post s 0x200 2 = Inr s'" "k \<le> length (W 0x200)"
    "um_inv s' (R @ map (\<lambda>wb. fst (block_info s wb)) (take k (W 0x200))) (W(0x200 := drop k (W 0x200)))"
    "sems s' 0x200 = Some (r\<lparr>sem_units := 3 - sum_list (take k (asks s (W 0x200)))\<rparr>)"
    using s(3,4) by auto
  then show ?thesis using i s(2,3) by blast
qed

text \<open>C24: \<open>sem_wait\<close> takes the units at once only when nobody waits and there are enough of them;
  otherwise the caller goes to the end of the wait list with its request, whatever units there
  are, and the head of the ready queue (or the main thread) runs: no thread overtakes a waiter.\<close>

theorem sem_wait_never_overtakes:
  assumes "um_inv s R W" "sems s p = Some r" "0 \<le> n" "links s wb = None"
    "running_thread s \<noteq> main_thread s" "plain_context s"
  shows "\<exists>s' R' W'. sem_wait s p n wb = Inr s' \<and> um_inv s' R' W'
    \<and> (if s_wait (abs_of s R W) p = [] \<and> n \<le> sem_units r
       then running_thread s' = running_thread s \<and> R' = R
         \<and> sems s' p = Some (r\<lparr>sem_units := sem_units r - n\<rparr>)
         \<and> s_wait (abs_of s' R' W') p = []
       else running_thread s' = (case R of [] \<Rightarrow> main_thread s | t # _ \<Rightarrow> t) \<and> R' = tl R
         \<and> sems s' p = Some r
         \<and> s_wait (abs_of s' R' W') p = s_wait (abs_of s R W) p @ [(running_thread s, n)])"
proof -
  have ok: "call_ok (\<lambda>f x. []) s (SemWait p n wb)" using assms by (simp add: call_ok_def)
  from sem_wait_sim[OF assms(1) ok assms(6)] obtain s' R' W' where
    s': "sem_wait s p n wb = Inr s'" "um_inv s' R' W'"
    "abs_of s' R' W' = sp_sem_wait p n wb (abs_of s R W)" by blast
  note F = arg_cong[OF s'(3), of s_running] arg_cong[OF s'(3), of s_ready]
    arg_cong[OF s'(3), of s_sem] arg_cong[OF s'(3), of s_wait]
  show ?thesis
  proof (cases "s_wait (abs_of s R W) p = [] \<and> n \<le> sem_units r")
    case True
    then show ?thesis using F s'(1,2) assms(2)
      by (intro exI[of _ s'] exI[of _ R'] exI[of _ W']) (simp add: sp_sem_wait_def)
  next
    case False
    then have "sp_sem_wait p n wb (abs_of s R W) = sp_block p wb n (abs_of s R W)"
      using assms(2) by (auto simp: sp_sem_wait_def)
    then show ?thesis using F s'(1,2) assms(2) False
      by (intro exI[of _ s'] exI[of _ R'] exI[of _ W'])
         (cases R; auto simp: sp_block_def sp_next_def)
  qed
qed

lemma demo_state2_links:
  "\<exists>s r. ut_reach demo_code s \<and> running_thread s = 0x3000 \<and> main_thread s = 0x600
     \<and> sems s 0x200 = Some r \<and> sem_units r = 1 \<and> links s 0x6800 = None \<and> plain_context s"
proof -
  have "case play demo_code (demo_start @ [Step, Step]) of None \<Rightarrow> False | Some s \<Rightarrow>
     running_thread s = 0x3000 \<and> main_thread s = 0x600 \<and> links s 0x6800 = None
     \<and> (case sems s 0x200 of None \<Rightarrow> False | Some r \<Rightarrow> sem_units r = 1)
     \<and> (case contexts s (running_thread s) of None \<Rightarrow> False | Some cs \<Rightarrow> no_leave cs)"
    by code_simp
  then show ?thesis
    using play_reach[of demo_code "demo_start @ [Step, Step]"]
    by (auto split: option.splits simp: plain_context_def)
qed

lemma sem_wait_never_overtakes_witness:
  "\<exists>s R W s' R' W' r. um_inv s R W \<and> sems s 0x200 = Some r \<and> sem_wait s 0x200 7 0x6800 = Inr s'
    \<and> um_inv s' R' W' \<and> s_wait (abs_of s' R' W') 0x200 = s_wait (abs_of s R W) 0x200 @ [(0x3000, 7)]"
proof -
  obtain s r where s: "ut_reach demo_code s" "running_thread s = 0x3000" "main_thread s = 0x600"
    "sems s 0x200 = Some r" "sem_units r = 1" "links s 0x6800 = None" "plain_context s"
    using demo_state2_links by blast
  from reach_inv[OF s(1)] obtain R W where i: "um_inv s R W" by blast
  have m: "running_thread s \<noteq> main_thread s" using s by simp
  from sem_wait_never_overtakes[OF i s(4) _ s(6) m s(7), of 7] obtain s' R' W' where
    "sem_wait s 0x200 7 0x6800 = Inr s'" "um_inv s' R' W'"
    "s_wait (abs_of s' R' W') 0x200 = s_wait (abs_of s R W) 0x200 @ [(0x3000, 7)]"
    using s(2,5) by auto
  then show ?thesis using i s(4) by blast
qed

text \<open>C25: In every reachable state a semaphore holds at least zero units and at most its limit.\<close>

theorem semaphore_bounds:
  assumes "ut_reach code s" "sems s p = Some r"
  shows "0 \<le> sem_units r \<and> sem_units r \<le> sem_limit r \<and> sem_limit r \<le> INT_MAX"
proof -
  obtain R W where i: "um_inv s R W" using reach_inv[OF assms(1)] by blast
  show ?thesis using counters_okD(4-6)[OF um_invD(3)[OF i] assms(2)] by blast
qed

lemma semaphore_bounds_witness:
  "\<exists>s r. ut_reach demo_code s \<and> sems s 0x200 = Some r
    \<and> 0 \<le> sem_units r \<and> sem_units r \<le> sem_limit r \<and> sem_limit r \<le> INT_MAX"
proof -
  obtain s r where s: "ut_reach demo_code s" "sems s 0x200 = Some r" using demo_state2 by blast
  from semaphore_bounds[OF s] s show ?thesis by blast
qed

text \<open>A request for more units than the semaphore's limit is never served, and neither is any
  behind it: whatever is posted, the wait list stays as it is, because the units are cut to the
  limit before the waiters are served.\<close>

theorem oversized_request_starves:
  assumes "um_inv s R W" "sems s p = Some r" "0 \<le> n" "sem_units r + n \<le> INT_MAX"
    and "asks s (W p) = a # rest" "sem_limit r < a"
  shows "\<exists>s'. sem_post s p n = Inr s' \<and> um_inv s' R W
    \<and> sems s' p = Some (r\<lparr>sem_units := min (sem_units r + n) (sem_limit r)\<rparr>)"
proof -
  let ?u = "min (sem_units r + n) (sem_limit r)"
  obtain wb ws where w: "W p = wb # ws" "snd (block_info s wb) = a"
    using assms(5) by (cases "W p") (auto simp: asks_def)
  obtain t where t: "block_info s wb = (t, a)" using w(2) by (cases "block_info s wb") auto
  have g: "grant ?u (map (block_info s) (W p)) = ([], map (block_info s) (W p), ?u)"
    using w(1) t assms(6) by auto
  have wp: "W(p := W p) = W" by simp
  from sem_post_grant_sim[OF assms(1-4) g] obtain s' where
    s': "sem_post s p n = Inr s'" "um_inv s' R W" "abs_of s' R W = sp_sem_post p n (abs_of s R W)"
    by (auto simp: wp)
  have q: "p \<in> sentinels s" using sentinel_sem assms(2) by blast
  have "sems s' p = Some (r\<lparr>sem_units := ?u\<rparr>)"
    using arg_cong[OF s'(3), of s_sem] sp_sem_post_eq[of "abs_of s R W" p r n "[]" "map (block_info s) (W p)" ?u]
      assms(2) g q by (simp add: abs_of_wait)
  with s'(1,2) show ?thesis by blast
qed

lemma oversized_request_starves_witness:
  "\<exists>s R W r rest s'. um_inv s R W \<and> sems s 0x200 = Some r \<and> sem_limit r = 5
    \<and> asks s (W 0x200) = 9 # rest \<and> sem_post s 0x200 100 = Inr s' \<and> um_inv s' R W"
proof -
  let ?ms = "[Call (EventInit 0x100), Call (SemInit 0x200 1 5), Call (UtCreate 3 0 0x1000 0x9000),
    Enter 0x600, Step]"
  have "case play demo_code ?ms of None \<Rightarrow> False | Some s \<Rightarrow>
     (case sems s 0x200 of None \<Rightarrow> False | Some r \<Rightarrow> sem_units r = 1 \<and> sem_limit r = 5)
     \<and> (case links s 0x200 of None \<Rightarrow> False | Some e \<Rightarrow> nxt e = 0x7000) \<and> block_info s 0x7000 = (0x1000, 9)"
    by code_simp
  then obtain s r e where s: "play demo_code ?ms = Some s" "sems s 0x200 = Some r" "sem_units r = 1"
    "sem_limit r = 5" "links s 0x200 = Some e" "nxt e = 0x7000" "block_info s 0x7000 = (0x1000, 9)"
    by (auto split: option.splits)
  from reach_inv[OF play_reach[OF s(1)]] obtain R W where i: "um_inv s R W" by blast
  have q: "0x200 \<in> sentinels s" using sentinel_sem s(2) by blast
  from wait_head_ok[OF um_invD(1)[OF i] q] s(5,6) have "first_or 0x200 (W 0x200) = 0x7000" by simp
  then obtain ws where "W 0x200 = 0x7000 # ws" by (cases "W 0x200") auto
  then have a: "asks s (W 0x200) = 9 # asks s ws" using s(7) by (simp add: asks_def)
  have "sem_units r + 100 \<le> INT_MAX" "sem_limit r < 9" using s(3,4) by (simp_all add: INT_MAX_def)
  from oversized_request_starves[OF i s(2) _ this(1) a this(2)] obtain s' where
    "sem_post s 0x200 100 = Inr s'" "um_inv s' R W" by auto
  then show ?thesis using i s(2,4) a by blast
qed

section \<open>Creating threads, and the end of ut_run\<close>

text \<open>When \<open>malloc\<close> fails for the descriptor, \<open>ut_create\<close> writes through the NULL pointer
  before it reaches the \<open>assert\<close> that was to catch it; only a failed stack allocation is caught.\<close>

theorem ut_create_null_descriptor:
  assumes "stack = NULL \<or> thread = NULL"
  shows "ut_create code s f x thread stack = Inl (if thread = NULL then InvalidAccess else AssertFailed)"
  using assms by (auto simp: ut_create_def)

lemma ut_create_null_descriptor_witness:
  "ut_create test2_code boot 0x10 0 NULL 0x9000 = Inl InvalidAccess"
  using ut_create_null_descriptor[of "0x9000" NULL test2_code boot "0x10" 0] by simp

text \<open>The main thread comes back from \<open>ut_run\<close> only when no thread is ready. If every thread
  has exited, \<open>ut_run\<close> returns and another run is possible; if some thread is still blocked, it
  fails its assertion, although \<open>uthread.h\<close> promises to resume only when all have exited.\<close>

theorem ut_run_end:
  assumes "ut_reach code s" "running_thread s = main_thread s" "main_thread s \<noteq> NULL"
  shows "ready_is_empty s = Inr True \<and>
    (if number_of_threads s = 0
     then \<exists>s'. ut_run_leave s = Inr s' \<and> ut_reach code s' \<and> running_thread s' = NULL
     else ut_run_leave s = Inl AssertFailed)"
proof
  obtain R W where i: "um_inv s R W" and ph: "phase_ok (abs_of s R W)" using reach_inv[OF assms(1)] by blast
  have R: "R = []" using phase_okD(3)[OF ph] assms(2,3) by simp
  show "ready_is_empty s = Inr True" using ready_is_empty_ok[OF um_invD(1)[OF i]] R by simp
  have c: "\<forall>cs. contexts s (main_thread s) = Some cs \<longrightarrow> cs = []" using phase_okD(5)[OF ph] by simp
  note L = ut_run_leave_sim[OF i assms(2) R c]
  have n: "number_of_threads s = 0 \<longleftrightarrow> dom (threads s) = {}"
    using live_zero[OF um_invD(3)[OF i]] counters_okD(3)[OF um_invD(3)[OF i]] by auto
  show "if number_of_threads s = 0
      then \<exists>s'. ut_run_leave s = Inr s' \<and> ut_reach code s' \<and> running_thread s' = NULL
      else ut_run_leave s = Inl AssertFailed"
  proof (cases "number_of_threads s = 0")
    case True
    then obtain s' where s': "ut_run_leave s = Inr s'" "abs_of s' [] W = sp_leave (abs_of s [] W)"
      using L n by auto
    have "running_thread s' = NULL" using arg_cong[OF s'(2), of s_running] by (simp add: sp_leave_def)
    then show ?thesis using True s'(1) ut_reach.leave[OF assms s'(1)] by auto
  next
    case False
    then show ?thesis using L n by simp
  qed
qed

lemma ut_run_end_witness:
  "\<exists>s. ut_reach demo_code s \<and> number_of_threads s = 1 \<and> ready_is_empty s = Inr True
    \<and> ut_run_leave s = Inl AssertFailed"
proof -
  let ?ms = "[Call (EventInit 0x100), Call (UtCreate 1 0 0x1000 0x9000), Enter 0x600, Step]"
  have "case play demo_code ?ms of None \<Rightarrow> False | Some s \<Rightarrow>
     running_thread s = 0x600 \<and> main_thread s = 0x600 \<and> number_of_threads s = 1"
    by code_simp
  then obtain s where s: "play demo_code ?ms = Some s" "running_thread s = 0x600" "main_thread s = 0x600"
    "number_of_threads s = 1" by (auto split: option.splits)
  have m: "running_thread s = main_thread s" "main_thread s \<noteq> NULL" using s by simp_all
  note r = play_reach[OF s(1)]
  show ?thesis using ut_run_end[OF r m] r s(4) by auto
qed

section \<open>The test programs run\<close>

text \<open>\<open>event_test.c\<close> runs to its end and prints what its threads say in the only possible
  order: the waiter blocks, the notifier sets the event and ends, the waiter ends.\<close>

theorem event_test_output:
  "map_option printed (play event_test_code event_test) =
    Some [''event test  begin'', ''waiter  begin'', ''waiter: wait for thread notification!'',
      ''notifier thread begin'', ''notifier thread end'', ''waiter thread end!'', ''event test  end'']"
  by code_simp

text \<open>\<open>test2\<close> of \<open>simpletest.c\<close> interleaves its two functions at the yield, and \<open>ut_run\<close> comes
  back with all threads gone.\<close>

theorem test2_output:
  "map_option (\<lambda>s. (printed s, number_of_threads s, running_thread s)) (play test2_code test2) =
    Some ([ '':: Test 2 - BEGIN ::'', ''Start func1'', ''func2'', ''End func1'', '':: Test 2 - END ::''], 0, NULL)"
  by code_simp

end
