(* ===== verification/Uthread_Run.thy ===== *)
theory Uthread_Run
  imports Uthread_Reach "HOL-Library.Multiset"
begin

text \<open>
  \<open>ut_run\<close> comes to an end: when the threads only print and yield, each step uses up one unit of
  the work left (a call of a context, or the final exit), so a fuel equal to the work of all
  threads is enough, and the main thread is switched back in with every thread gone.
\<close>

fun calm :: "action \<Rightarrow> bool" where
  "calm (Print str) = True"
| "calm UtYield = True"
| "calm a = False"

definition work_of :: "(ptr \<rightharpoonup> action list) \<Rightarrow> ptr \<Rightarrow> nat" where
  "work_of cx t = Suc (length (case cx t of None \<Rightarrow> [] | Some cs \<Rightarrow> cs))"

definition work :: "process \<Rightarrow> nat" where
  "work s = (\<Sum>t\<in>dom (threads s). work_of (contexts s) t)"

definition quiet :: "sched \<Rightarrow> bool" where
  "quiet a \<longleftrightarrow> (\<forall>t\<in>s_live a. \<forall>cs. s_conts a t = Some cs \<longrightarrow> list_all calm cs) \<and> (\<forall>q. s_wait a q = [])"

definition sp_work :: "sched \<Rightarrow> nat" where
  "sp_work a = (\<Sum>t\<in>s_live a. work_of (s_conts a) t)"

text \<open>What has been printed and what the contexts of the live threads will still print.\<close>

definition prints :: "action list \<Rightarrow> string multiset" where
  "prints cs = mset (List.map_filter (\<lambda>a. case a of Print str \<Rightarrow> Some str | _ \<Rightarrow> None) cs)"

definition prints_of :: "(ptr \<rightharpoonup> action list) \<Rightarrow> ptr \<Rightarrow> string multiset" where
  "prints_of cx t = prints (case cx t of None \<Rightarrow> [] | Some cs \<Rightarrow> cs)"

definition owed :: "sched \<Rightarrow> string multiset" where
  "owed a = mset (s_out a) + (\<Sum>t\<in>s_live a. prints_of (s_conts a) t)"

lemma prints_simps [simp]:
  "prints [] = {#}" "prints (Print str # cs) = add_mset str (prints cs)" "prints (UtYield # cs) = prints cs"
  by (simp_all add: prints_def List.map_filter_def)

lemma sp_work_abs: "sp_work (abs_of s R W) = work s"
  by (simp add: sp_work_def work_def)

lemma calm_cases: "calm a \<Longrightarrow> (\<exists>str. a = Print str) \<or> a = UtYield"
  by (cases a) auto

lemma quiet_sp_next [simp]: "quiet (sp_next a) = quiet a"
  by (simp add: quiet_def)

lemma sp_work_next [simp]: "sp_work (sp_next a) = sp_work a"
  by (simp add: sp_work_def)

lemma sp_yield_other:
  "s_live (sp_yield a) = s_live a" "s_conts (sp_yield a) = s_conts a" "s_wait (sp_yield a) = s_wait a"
  by (simp_all add: sp_yield_def)

lemma sp_yield_out: "s_out (sp_yield a) = s_out a"
  by (simp add: sp_yield_def)

lemma work_upd:
  assumes "finite L" "t \<in> L" "cx t = Some (a # cs)"
  shows "(\<Sum>x\<in>L. work_of cx x) = Suc (\<Sum>x\<in>L. work_of (cx(t \<mapsto> cs)) x)"
proof -
  have "(\<Sum>x\<in>L - {t}. work_of (cx(t \<mapsto> cs)) x) = (\<Sum>x\<in>L - {t}. work_of cx x)"
    by (rule sum.cong) (auto simp: work_of_def)
  then show ?thesis using assms by (simp add: sum.remove[of L t] work_of_def)
qed

lemma calm_step:
  assumes "quiet a" "finite (s_live a)" "s_running a \<in> s_live a" "s_conts a (s_running a) \<noteq> None"
  shows "quiet (sp_step code a)" "sp_work a = Suc (sp_work (sp_step code a))"
proof -
  let ?t = "s_running a"
  obtain cs where cs: "s_conts a ?t = Some cs" using assms(4) by blast
  have calm: "list_all calm cs" using assms(1,3) cs by (auto simp: quiet_def)
  have "quiet (sp_step code a) \<and> sp_work a = Suc (sp_work (sp_step code a))"
  proof (cases cs)
    case Nil
    have rest: "(\<Sum>x\<in>s_live a - {?t}. work_of ((s_conts a)(?t := None)) x)
        = (\<Sum>x\<in>s_live a - {?t}. work_of (s_conts a) x)"
      by (rule sum.cong) (auto simp: work_of_def)
    have "sp_work a = Suc (\<Sum>x\<in>s_live a - {?t}. work_of (s_conts a) x)"
      using assms(2,3) cs Nil by (simp add: sp_work_def sum.remove[of _ ?t] work_of_def)
    then show ?thesis using assms(1) cs Nil rest
      by (simp add: sp_step_def sp_exit_def sp_next_upd) (auto simp: quiet_def sp_work_def)
  next
    case (Cons c cs')
    let ?a1 = "a\<lparr>s_conts := (s_conts a)(?t \<mapsto> cs')\<rparr>"
    have q1: "quiet ?a1" using assms(1) calm Cons by (auto simp: quiet_def)
    have w1: "sp_work a = Suc (sp_work ?a1)"
      using work_upd[of "s_live a" ?t "s_conts a" c cs', OF assms(2,3)] cs Cons by (simp add: sp_work_def)
    have step: "sp_step code a = sp_perform code c ?a1" using cs Cons by (simp add: sp_step_def)
    have "calm c" using calm Cons by simp
    then consider str where "c = Print str" | "c = UtYield" using calm_cases by blast
    then show ?thesis
    proof cases
      case 1
      then show ?thesis using q1 w1 unfolding step
        by (simp add: sp_perform_def quiet_def sp_work_def)
    next
      case 2
      then show ?thesis using q1 w1 unfolding step
        by (simp add: sp_perform_def quiet_def sp_work_def sp_yield_other)
    qed
  qed
  then show "quiet (sp_step code a)" "sp_work a = Suc (sp_work (sp_step code a))" by blast+
qed

lemma calm_owed:
  assumes "quiet a" "finite (s_live a)" "s_running a \<in> s_live a" "s_conts a (s_running a) \<noteq> None"
  shows "owed (sp_step code a) = owed a"
proof -
  let ?t = "s_running a"
  obtain cs where cs: "s_conts a ?t = Some cs" using assms(4) by blast
  have calm: "list_all calm cs" using assms(1,3) cs by (auto simp: quiet_def)
  have rest: "(\<Sum>x\<in>s_live a - {?t}. prints_of ((s_conts a)(?t := c)) x)
      = (\<Sum>x\<in>s_live a - {?t}. prints_of (s_conts a) x)" for c
    by (rule sum.cong) (auto simp: prints_of_def)
  have o: "owed a = mset (s_out a) + (prints cs + (\<Sum>x\<in>s_live a - {?t}. prints_of (s_conts a) x))"
    using assms(2,3) cs by (simp add: owed_def sum.remove[of _ ?t] prints_of_def)
  show ?thesis
  proof (cases cs)
    case Nil
    then show ?thesis using cs o rest
      by (simp add: sp_step_def sp_exit_def sp_next_upd owed_def)
  next
    case (Cons c cs')
    then have "calm c" using calm by simp
    then show ?thesis using calm_cases[of c] cs Cons o rest[of "Some cs'"] assms(2,3)
      by (auto simp: sp_step_def sp_perform_def sp_yield_other sp_yield_out owed_def sum.remove[of _ ?t] prints_of_def)
  qed
qed

lemma sp_exit_main: "s_main (sp_exit a) = s_main a"
  by (simp add: sp_exit_def)

lemma calm_main:
  assumes "quiet a" "s_running a \<in> s_live a"
  shows "s_main (sp_step code a) = s_main a"
proof (cases "s_conts a (s_running a)")
  case (Some cs)
  have calm: "list_all calm cs" using assms Some by (auto simp: quiet_def)
  show ?thesis
  proof (cases cs)
    case (Cons c cs')
    then have "calm c" using calm by simp
    then show ?thesis using calm_cases[of c] Some Cons
      by (auto simp: sp_step_def sp_perform_def sp_yield_def)
  qed (use Some in \<open>simp add: sp_step_def sp_exit_main\<close>)
qed (simp add: sp_step_def)

lemma quiet_step_ok:
  assumes i: "um_inv s R W" and q: "quiet (abs_of s R W)" and m: "running_thread s \<noteq> main_thread s"
  shows "step_ok code s"
proof -
  note L = running_live[OF i m]
  obtain cs where cs: "contexts s (running_thread s) = Some cs" using L(3) by blast
  have calm: "list_all calm cs" using q L(1) cs by (auto simp: quiet_def)
  show ?thesis
  proof (cases cs)
    case (Cons a cs')
    then have "calm a" using calm by simp
    then show ?thesis using calm_cases[of a] m cs Cons by (auto simp: step_ok_def call_ok_def)
  qed (use m cs in \<open>simp add: step_ok_def\<close>)
qed

lemma run_threads_ends:
  assumes "um_inv s R W" "phase_ok (abs_of s R W)" "quiet (abs_of s R W)" "main_thread s \<noteq> NULL"
    and "work s \<le> fuel" "ut_reach code s"
  shows "\<exists>s'. run_threads code fuel s = Some (Inr s') \<and> running_thread s' = main_thread s'
    \<and> main_thread s' \<noteq> NULL \<and> number_of_threads s' = 0 \<and> ut_reach code s'
    \<and> mset (printed s') = owed (abs_of s R W)"
  using assms
proof (induction fuel arbitrary: s R W)
  case (0 s R W)
  have live: "dom (threads s) = {}"
    using 0(5) counters_okD(1)[OF um_invD(3)[OF 0(1)]] by (simp add: work_def work_of_def)
  then have "running_thread s = main_thread s" using running_live(1)[OF 0(1)] by blast
  moreover have "number_of_threads s = 0" using counters_okD(3)[OF um_invD(3)[OF 0(1)]] live by simp
  ultimately show ?case using 0(4,6) live by (simp add: owed_def)
next
  case (Suc fuel s R W)
  note i = Suc.prems(1) and ph = Suc.prems(2) and q = Suc.prems(3)
  show ?case
  proof (cases "running_thread s = main_thread s")
    case True
    have "R = []" using phase_okD(3)[OF ph] True Suc.prems(4) by simp
    moreover have "waiting (abs_of s R W) x = {}" for x using q by (simp add: quiet_def waiting_def)
    ultimately have "dom (threads s) = {}"
      using spec_invD(6)[OF um_invD(2)[OF i]] True by (simp add: on_cpu_def)
    then have "number_of_threads s = 0" "mset (printed s) = owed (abs_of s R W)"
      using counters_okD(3)[OF um_invD(3)[OF i]] by (simp_all add: owed_def)
    then show ?thesis using True Suc.prems(4,6) by simp
  next
    case False
    note ok = quiet_step_ok[OF i q False]
    note L = running_live[OF i False]
    from run_step_sim[OF i ok] obtain s1 R1 W1 where
      s1: "run_step code s = Inr s1" "um_inv s1 R1 W1" "abs_of s1 R1 W1 = sp_step code (abs_of s R W)" by blast
    have fin: "finite (s_live (abs_of s R W))" using counters_okD(1)[OF um_invD(3)[OF i]] by simp
    have run: "s_running (abs_of s R W) \<in> s_live (abs_of s R W)"
      "s_conts (abs_of s R W) (s_running (abs_of s R W)) \<noteq> None" using L(1,3) by auto
    note C = calm_step[OF q fin run, of code]
    have "quiet (abs_of s1 R1 W1)" using C(1) s1(3) by simp
    moreover have "work s1 \<le> fuel"
      using C(2) Suc.prems(5) unfolding s1(3)[symmetric] sp_work_abs by simp
    moreover have "phase_ok (abs_of s1 R1 W1)" unfolding s1(3) by (rule phase_step[OF i ph ok])
    moreover have "main_thread s1 \<noteq> NULL"
      using calm_main[OF q run(1), of code] Suc.prems(4) unfolding s1(3)[symmetric] by simp
    moreover have "ut_reach code s1" by (rule ut_reach.thread_step[OF Suc.prems(6) ok s1(1)])
    ultimately have "\<exists>s'. run_threads code fuel s1 = Some (Inr s') \<and> running_thread s' = main_thread s'
      \<and> main_thread s' \<noteq> NULL \<and> number_of_threads s' = 0 \<and> ut_reach code s'
      \<and> mset (printed s') = owed (abs_of s R W)"
      using Suc.IH[OF s1(2)] calm_owed[OF q fin run, of code] s1(3) by metis
    then show ?thesis using False s1(1) by simp
  qed
qed

lemma idle_no_threads:
  assumes "um_inv s [] W" "running_thread s = NULL" "main_thread s = NULL" "quiet (abs_of s [] W)"
  shows "number_of_threads s = 0"
proof -
  have "waiting (abs_of s [] W) x = {}" for x using assms(4) by (simp add: quiet_def waiting_def)
  then have "dom (threads s) = {}"
    using spec_invD(6)[OF um_invD(2)[OF assms(1)]] assms(2,3) by (simp add: on_cpu_def)
  then show ?thesis using counters_okD(3)[OF um_invD(3)[OF assms(1)]] by simp
qed

lemma entered:
  assumes "um_inv s R W" "phase_ok (abs_of s R W)" "quiet (abs_of s R W)" "m \<noteq> NULL" "m \<notin> dom (threads s)"
    and "R \<noteq> []" "abs_of s1 (tl R) W = sp_enter m (abs_of s R W)"
  shows "quiet (abs_of s1 (tl R) W)" "phase_ok (abs_of s1 (tl R) W)" "main_thread s1 \<noteq> NULL" "work s1 = work s"
    "owed (abs_of s1 (tl R) W) = owed (abs_of s R W)"
proof -
  have a1: "abs_of s1 (tl R) W = sp_next ((abs_of s R W)\<lparr>s_main := m, s_running := m,
      s_conts := (contexts s)(m \<mapsto> [])\<rparr>)" using assms(6,7) by (simp add: sp_enter_def)
  show "quiet (abs_of s1 (tl R) W)" using assms(3,5) unfolding a1 by (auto simp: quiet_def)
  show "phase_ok (abs_of s1 (tl R) W)" unfolding a1
    by (rule phase_next) (use ready_live[OF assms(1)] assms(4,5) phase_okD(2,6)[OF assms(2)] in auto)
  show "main_thread s1 \<noteq> NULL" using arg_cong[OF a1, of s_main] assms(4) by simp
  have "work s1 = sp_work (abs_of s1 (tl R) W)" by (simp add: sp_work_abs)
  also have "\<dots> = (\<Sum>t\<in>dom (threads s). work_of ((contexts s)(m \<mapsto> [])) t)"
    unfolding a1 sp_work_next by (simp add: sp_work_def)
  also have "\<dots> = work s" unfolding work_def
    by (rule sum.cong) (use assms(5) in \<open>auto simp: work_of_def\<close>)
  finally show "work s1 = work s" .
  have "(\<Sum>t\<in>dom (threads s). prints_of ((contexts s)(m \<mapsto> [])) t) = (\<Sum>t\<in>dom (threads s). prints_of (contexts s) t)"
    by (rule sum.cong) (use assms(5) in \<open>auto simp: prints_of_def\<close>)
  then show "owed (abs_of s1 (tl R) W) = owed (abs_of s R W)" unfolding a1 by (simp add: owed_def)
qed

lemma left:
  assumes "ut_reach code s" "running_thread s = main_thread s" "main_thread s \<noteq> NULL" "number_of_threads s = 0"
  shows "\<exists>s'. ut_run_leave s = Inr s' \<and> ut_reach code s' \<and> running_thread s' = NULL \<and> number_of_threads s' = 0
    \<and> printed s' = printed s"
proof -
  obtain R W where i: "um_inv s R W" and ph: "phase_ok (abs_of s R W)" using reach_inv[OF assms(1)] by blast
  have R: "R = []" using phase_okD(3)[OF ph] assms(2,3) by simp
  have c: "\<forall>cs. contexts s (main_thread s) = Some cs \<longrightarrow> cs = []" using phase_okD(5)[OF ph] by simp
  note none = live_zero[OF um_invD(3)[OF i] assms(4)]
  from ut_run_leave_sim[OF i assms(2) R c] none obtain s' where
    s': "ut_run_leave s = Inr s'" "um_inv s' [] W" "abs_of s' [] W = sp_leave (abs_of s [] W)" by auto
  have "running_thread s' = NULL" using arg_cong[OF s'(3), of s_running] by (simp add: sp_leave_def)
  moreover have "dom (threads s') = {}" using arg_cong[OF s'(3), of s_live] none by (simp add: sp_leave_def)
  then have "number_of_threads s' = 0" using counters_okD(3)[OF um_invD(3)[OF s'(2)]] by simp
  moreover have "printed s' = printed s" using arg_cong[OF s'(3), of s_out] by (simp add: sp_leave_def)
  ultimately show ?thesis using s'(1) ut_reach.leave[OF assms(1-3) s'(1)] by blast
qed

lemma ut_run_output:
  assumes "ut_reach code s" "running_thread s = NULL" "blocks s = Map.empty"
    "\<forall>t cs. contexts s t = Some cs \<longrightarrow> list_all calm cs"
    "m \<noteq> NULL" "m \<notin> dom (threads s)" "m \<notin> dom (contexts s)" "work s \<le> fuel"
  shows "\<exists>s'. ut_run code fuel s m = Some (Inr s') \<and> ut_reach code s' \<and> running_thread s' = NULL
    \<and> number_of_threads s' = 0 \<and> mset (printed s') = mset (printed s) + (\<Sum>t\<in>dom (threads s). prints_of (contexts s) t)"
proof -
  obtain R W where i: "um_inv s R W" and ph: "phase_ok (abs_of s R W)" using reach_inv[OF assms(1)] by blast
  have m0: "main_thread s = NULL" using phase_okD(4)[OF ph] assms(2) by simp
  have nowait: "W q = []" if "q \<in> sentinels s" for q
    using heap_invD(8)[OF um_invD(1)[OF i] that] assms(3) by simp
  have q: "quiet (abs_of s R W)" using assms(4) nowait by (simp add: quiet_def abs_of_wait)
  from ut_run_enter_sim[OF i assms(2) m0 assms(6,7)] obtain s1 where
    s1: "ut_run_enter s m = Inr (s1, R \<noteq> [])" "um_inv s1 (tl R) W"
    "abs_of s1 (tl R) W = sp_enter m (abs_of s R W)" by blast
  have r1: "ut_reach code s1" by (rule ut_reach.enter[OF assms(1,5,6,7) s1(1)])
  show ?thesis
  proof (cases "R = []")
    case True
    have "number_of_threads s = 0" using idle_no_threads i q assms(2) m0 True by blast
    moreover have "s1 = s" using s1(1) True assms(2) ready_is_empty_ok[OF um_invD(1)[OF i]]
      by (simp add: ut_run_enter_def)
    moreover have "dom (threads s) = {}"
      using calculation(1) live_zero[OF um_invD(3)[OF i]] by blast
    ultimately show ?thesis using s1(1) True assms(1,2) by (simp add: ut_run_def)
  next
    case False
    note e = entered[OF i ph q assms(5,6) False s1(3)]
    from e assms(8) r1 obtain s2 where s2: "run_threads code fuel s1 = Some (Inr s2)"
      "running_thread s2 = main_thread s2" "main_thread s2 \<noteq> NULL" "number_of_threads s2 = 0"
      "ut_reach code s2" "mset (printed s2) = owed (abs_of s R W)" using run_threads_ends[OF s1(2)] by metis
    from left[OF s2(5,2,3,4)] show ?thesis using s1(1) False s2(1,6) by (auto simp: ut_run_def owed_def)
  qed
qed

text \<open>Threads that only print and yield always finish: \<open>ut_run\<close>, entered by the main thread
  with such threads ready, returns after at most as many steps as there are calls and exits
  left, with every thread gone and the library ready for another run.\<close>

theorem ut_run_completes:
  assumes "ut_reach code s" "running_thread s = NULL" "blocks s = Map.empty"
    "\<forall>t cs. contexts s t = Some cs \<longrightarrow> list_all calm cs"
    "m \<noteq> NULL" "m \<notin> dom (threads s)" "m \<notin> dom (contexts s)" "work s \<le> fuel"
  shows "\<exists>s'. ut_run code fuel s m = Some (Inr s') \<and> ut_reach code s' \<and> running_thread s' = NULL
    \<and> number_of_threads s' = 0"
  using ut_run_output[OF assms] by blast

definition yielders :: "ptr \<Rightarrow> ptr \<Rightarrow> action list" where
  "yielders f arg = [Print ''a'', UtYield, Print ''b'']"

lemma ut_run_completes_witness:
  "\<exists>s s'. ut_reach yielders s \<and> number_of_threads s = 2 \<and> ut_run yielders 8 s 0x600 = Some (Inr s')
    \<and> number_of_threads s' = 0"
proof -
  let ?ms = "[Call (UtCreate 1 0 0x1000 0x9000), Call (UtCreate 1 0 0x2000 0xa000)]"
  obtain s where s: "play yielders ?ms = Some s" "running_thread s = NULL" "number_of_threads s = 2"
    "blocks s = Map.empty" "contexts s = [0x1000 \<mapsto> yielders 1 0, 0x2000 \<mapsto> yielders 1 0]"
    "dom (threads s) = {0x1000, 0x2000}"
    by (auto simp: play_def boot_def ut_init_def with_links_def init_list_head_def set_next_def set_prev_def
        fresh_entry_def perform_def ut_create_def ut_activate_def insert_list_last_def insert_list_after_def
        call_ok_def no_leave_def yielders_def entry_of_def OFF_ENTRY_def)
  note r = play_reach[OF s(1)]
  have w: "work s \<le> 8" using s(5,6) by (simp add: work_def work_of_def yielders_def)
  have c: "\<forall>t cs. contexts s t = Some cs \<longrightarrow> list_all calm cs" using s(5) by (auto simp: yielders_def)
  have "(0x600::ptr) \<noteq> NULL" "0x600 \<notin> dom (threads s)" "0x600 \<notin> dom (contexts s)" using s(5,6) by auto
  from ut_run_completes[OF r s(2,4) c this w] r s(3) show ?thesis by blast
qed

end
