(* ===== verification/Uthread_Ends.thy ===== *)
theory Uthread_Ends
  imports Uthread_Run
begin

text \<open>
  \<open>ut_run\<close> with events and semaphores: when the threads create no further threads, each step uses
  up a part of the load they have left, so the main thread always gets the processor back. Then
  either no thread is left and \<open>ut_run\<close> returns, or the threads left are blocked for ever and
  \<open>ut_run\<close> stops in its second assertion. The end of the file is \<open>test1\<close> of \<open>simpletest.c\<close>.
\<close>

section \<open>The load of the threads\<close>

fun steady :: "action \<Rightarrow> bool" where
  "steady (UtCreate f x t st) = False"
| "steady a = True"

text \<open>A call that blocks leaves its own return behind, so it counts twice.\<close>

fun weight :: "action \<Rightarrow> nat" where
  "weight (EventWait e wb) = 2"
| "weight (SemWait p n wb) = 2"
| "weight a = 1"

definition load_of :: "(ptr \<rightharpoonup> action list) \<Rightarrow> ptr \<Rightarrow> nat" where
  "load_of cx t = Suc (sum_list (map weight (case cx t of None \<Rightarrow> [] | Some cs \<Rightarrow> cs)))"

definition load :: "process \<Rightarrow> nat" where
  "load s = (\<Sum>t\<in>dom (threads s). load_of (contexts s) t)"

definition sp_load :: "sched \<Rightarrow> nat" where
  "sp_load a = (\<Sum>t\<in>s_live a. load_of (s_conts a) t)"

definition all_steady :: "sched \<Rightarrow> bool" where
  "all_steady a \<longleftrightarrow> (\<forall>t\<in>s_live a. \<forall>cs. s_conts a t = Some cs \<longrightarrow> list_all steady cs)"

lemma sp_load_abs: "sp_load (abs_of s R W) = load s"
  by (simp add: sp_load_def load_def)

lemma weight_pos: "0 < weight a"
  by (cases a) auto

text \<open>What a call other than \<open>UtCreate\<close> and \<open>UtExit\<close> does to contexts: nothing, or it puts its
  return in front of those of the running thread.\<close>

lemma sp_perform_conts:
  assumes "steady c" "c \<noteq> UtExit"
  shows "s_live (sp_perform code c a) = s_live a" "s_main (sp_perform code c a) = s_main a"
    "s_conts (sp_perform code c a) = s_conts a \<or> (\<exists>wb. weight c = 2 \<and> s_conts (sp_perform code c a) =
       (s_conts a)(s_running a \<mapsto> Leave wb # (case s_conts a (s_running a) of None \<Rightarrow> [] | Some cs \<Rightarrow> cs)))"
  using assms
  by (cases c; auto simp: sp_perform_def sp_yield_def sp_event_init_def sp_event_wait_def sp_event_set_def
      sp_sem_init_def sp_sem_wait_def sp_sem_post_fields sp_block_def split: option.splits)+

lemma load_upd:
  assumes "finite L" "t \<in> L" "load_of cx' t < load_of cx t" "\<And>x. x \<noteq> t \<Longrightarrow> cx' x = cx x"
  shows "(\<Sum>x\<in>L. load_of cx' x) < (\<Sum>x\<in>L. load_of cx x)"
proof -
  have "(\<Sum>x\<in>L - {t}. load_of cx' x) = (\<Sum>x\<in>L - {t}. load_of cx x)"
    by (rule sum.cong) (use assms(4) in \<open>auto simp: load_of_def\<close>)
  then show ?thesis using assms(1-3) by (simp add: sum.remove[of L t])
qed

lemma steady_exit:
  assumes "finite (s_live a)" "s_running a \<in> s_live a" "all_steady a"
  shows "all_steady (sp_exit a)" "sp_load (sp_exit a) < sp_load a" "s_main (sp_exit a) = s_main a"
proof -
  have "(\<Sum>x\<in>s_live a - {s_running a}. load_of ((s_conts a)(s_running a := None)) x)
      = (\<Sum>x\<in>s_live a - {s_running a}. load_of (s_conts a) x)"
    by (rule sum.cong) (auto simp: load_of_def)
  then show "sp_load (sp_exit a) < sp_load a"
    using assms(1,2) by (simp add: sp_load_def sp_exit_def sum.remove[of _ "s_running a"] load_of_def)
  show "all_steady (sp_exit a)" "s_main (sp_exit a) = s_main a"
    using assms(3) by (auto simp: all_steady_def sp_exit_def)
qed

lemma steady_step:
  assumes fin: "finite (s_live a)" and r: "s_running a \<in> s_live a" "s_conts a (s_running a) = Some cs" and st: "all_steady a"
  shows "all_steady (sp_step code a) \<and> sp_load (sp_step code a) < sp_load a \<and> s_main (sp_step code a) = s_main a"
proof (cases cs)
  case Nil
  then show ?thesis using steady_exit[OF fin r(1) st] r(2) by (simp add: sp_step_def)
next
  case (Cons c cs')
  let ?t = "s_running a"
  let ?a = "a\<lparr>s_conts := (s_conts a)(?t \<mapsto> cs')\<rparr>"
  have c: "steady c" "list_all steady cs'" using st r Cons by (auto simp: all_steady_def)
  have st': "all_steady ?a" using st c(2) by (auto simp: all_steady_def)
  have less: "load_of ((s_conts a)(?t \<mapsto> cs')) ?t < load_of (s_conts a) ?t"
    using r(2) Cons weight_pos[of c] by (simp add: load_of_def)
  have lt: "sp_load ?a < sp_load a"
    unfolding sp_load_def using load_upd[OF fin r(1) less] by simp
  have step: "sp_step code a = sp_perform code c ?a" using r(2) Cons by (simp add: sp_step_def)
  show ?thesis
  proof (cases "c = UtExit")
    case True
    then show ?thesis using steady_exit[of ?a] fin r(1) st' lt unfolding step
      by (simp add: sp_perform_def)
  next
    case False
    note P = sp_perform_conts[OF c(1) False, of code ?a]
    from P(3) show ?thesis
    proof
      assume "s_conts (sp_perform code c ?a) = s_conts ?a"
      then show ?thesis using P(1,2) st' lt unfolding step by (simp add: all_steady_def sp_load_def)
    next
      assume "\<exists>wb. weight c = 2 \<and> s_conts (sp_perform code c ?a) =
        (s_conts ?a)(s_running ?a \<mapsto> Leave wb # (case s_conts ?a (s_running ?a) of None \<Rightarrow> [] | Some cs \<Rightarrow> cs))"
      then obtain wb where wb: "weight c = 2" "s_conts (sp_perform code c ?a) = (s_conts a)(?t \<mapsto> Leave wb # cs')" by auto
      have "load_of ((s_conts a)(?t \<mapsto> Leave wb # cs')) ?t < load_of (s_conts a) ?t"
        using r(2) Cons wb(1) by (simp add: load_of_def)
      from load_upd[OF fin r(1) this] show ?thesis
        using P(1,2) st c(2) wb(2) unfolding step by (auto simp: sp_load_def all_steady_def)
    qed
  qed
qed

section \<open>How a run of the library ends\<close>

text \<open>Every step of the run is a call that the library allows.\<close>

fun steps_ok :: "(ptr \<Rightarrow> ptr \<Rightarrow> action list) \<Rightarrow> nat \<Rightarrow> process \<Rightarrow> bool" where
  "steps_ok code 0 s = True"
| "steps_ok code (Suc n) s = (running_thread s = main_thread s \<or>
     (step_ok code s \<and> (case run_step code s of Inl e \<Rightarrow> True | Inr s1 \<Rightarrow> steps_ok code n s1)))"

definition ut_run_ok :: "(ptr \<Rightarrow> ptr \<Rightarrow> action list) \<Rightarrow> nat \<Rightarrow> process \<Rightarrow> ptr \<Rightarrow> bool" where
  "ut_run_ok code fuel s thread =
     (case ut_run_enter s thread of Inr (s1, True) \<Rightarrow> steps_ok code fuel s1 | _ \<Rightarrow> True)"

lemma steady_run_ends:
  assumes "um_inv s R W" "phase_ok (abs_of s R W)" "all_steady (abs_of s R W)" "main_thread s \<noteq> NULL"
    and "load s \<le> fuel" "ut_reach code s" "steps_ok code fuel s"
  shows "\<exists>s'. run_threads code fuel s = Some (Inr s') \<and> running_thread s' = main_thread s'
    \<and> main_thread s' \<noteq> NULL \<and> ut_reach code s'"
  using assms
proof (induction fuel arbitrary: s R W)
  case (0 s R W)
  have "dom (threads s) = {}"
    using 0(5) counters_okD(1)[OF um_invD(3)[OF 0(1)]] by (simp add: load_def load_of_def)
  then have "running_thread s = main_thread s" using running_live(1)[OF 0(1)] by blast
  then show ?case using 0(4,6) by simp
next
  case (Suc fuel s R W)
  note i = Suc.prems(1)
  show ?case
  proof (cases "running_thread s = main_thread s")
    case True
    then show ?thesis using Suc.prems(4,6) by simp
  next
    case False
    note L = running_live[OF i False]
    obtain cs where cs: "contexts s (running_thread s) = Some cs" using L(3) by blast
    have ok: "step_ok code s" using Suc.prems(7) False by simp
    from run_step_sim[OF i ok] obtain s1 R1 W1 where
      s1: "run_step code s = Inr s1" "um_inv s1 R1 W1" "abs_of s1 R1 W1 = sp_step code (abs_of s R W)" by blast
    have fin: "finite (s_live (abs_of s R W))" using counters_okD(1)[OF um_invD(3)[OF i]] by simp
    note C = steady_step[OF fin _ _ Suc.prems(3), of cs code, folded s1(3), unfolded sp_load_abs]
    have "phase_ok (abs_of s1 R1 W1)" unfolding s1(3) by (rule phase_step[OF i Suc.prems(2) ok])
    moreover have "ut_reach code s1" by (rule ut_reach.thread_step[OF Suc.prems(6) ok s1(1)])
    ultimately have "\<exists>s'. run_threads code fuel s1 = Some (Inr s') \<and> running_thread s' = main_thread s'
      \<and> main_thread s' \<noteq> NULL \<and> ut_reach code s'"
      using Suc.IH[OF s1(2)] C L(1) cs Suc.prems(4,5,7) s1(1) False by auto
    then show ?thesis using False s1(1) by simp
  qed
qed

text \<open>A thread that waits: its wait block is there.\<close>

definition blocked :: "process \<Rightarrow> ptr \<Rightarrow> bool" where
  "blocked s t \<longleftrightarrow> (\<exists>wb b. blocks s wb = Some b \<and> wb_thread b = t)"

lemma waiting_blocked:
  assumes "um_inv s R W" "t \<in> waiting (abs_of s R W) q"
  shows "blocked s t"
proof -
  obtain wb where wb: "q \<in> sentinels s" "wb \<in> set (W q)" "fst (block_info s wb) = t"
    using assms(2) by (auto simp: waiting_def abs_of_wait split: if_splits)
  then obtain b where "blocks s wb = Some b" using heap_invD(8)[OF um_invD(1)[OF assms(1)] wb(1)] by blast
  then show ?thesis using wb(3) by (auto simp: blocked_def block_info_def)
qed

lemma left_or_stuck:
  assumes "ut_reach code s" "running_thread s = main_thread s" "main_thread s \<noteq> NULL"
  shows "(\<exists>s'. ut_run_leave s = Inr s' \<and> ut_reach code s' \<and> running_thread s' = NULL \<and> number_of_threads s' = 0
      \<and> dom (threads s) = {})
    \<or> (ut_run_leave s = Inl AssertFailed \<and> dom (threads s) \<noteq> {} \<and> (\<forall>t\<in>dom (threads s). blocked s t))"
proof -
  obtain R W where i: "um_inv s R W" and ph: "phase_ok (abs_of s R W)" using reach_inv[OF assms(1)] by blast
  have R: "R = []" using phase_okD(3)[OF ph] assms(2,3) by simp
  have c: "\<forall>cs. contexts s (main_thread s) = Some cs \<longrightarrow> cs = []" using phase_okD(5)[OF ph] by simp
  note L = ut_run_leave_sim[OF i assms(2) R c]
  show ?thesis
  proof (cases "dom (threads s) = {}")
    case True
    then have "number_of_threads s = 0" using counters_okD(3)[OF um_invD(3)[OF i]] by simp
    from left[OF assms this] True show ?thesis by blast
  next
    case False
    have "blocked s t" if "t \<in> dom (threads s)" for t
      using that spec_invD(6)[OF um_invD(2)[OF i]] R assms(2) waiting_blocked[OF i] by (auto simp: on_cpu_def)
    then show ?thesis using L False by auto
  qed
qed

lemma idle_empty:
  assumes "um_inv s [] W" "running_thread s = NULL" "main_thread s = NULL" "blocks s = Map.empty"
  shows "number_of_threads s = 0"
proof -
  have "waiting (abs_of s [] W) x = {}" for x
    using waiting_blocked[OF assms(1)] assms(4) by (auto simp: blocked_def)
  then have "dom (threads s) = {}"
    using spec_invD(6)[OF um_invD(2)[OF assms(1)]] assms(2,3) by (simp add: on_cpu_def)
  then show ?thesis using counters_okD(3)[OF um_invD(3)[OF assms(1)]] by simp
qed

lemma entered_load:
  assumes "um_inv s R W" "phase_ok (abs_of s R W)" "all_steady (abs_of s R W)" "m \<noteq> NULL" "m \<notin> dom (threads s)"
    and "R \<noteq> []" "abs_of s1 (tl R) W = sp_enter m (abs_of s R W)"
  shows "all_steady (abs_of s1 (tl R) W)" "phase_ok (abs_of s1 (tl R) W)" "main_thread s1 \<noteq> NULL" "load s1 = load s"
proof -
  have a1: "abs_of s1 (tl R) W = sp_next ((abs_of s R W)\<lparr>s_main := m, s_running := m,
      s_conts := (contexts s)(m \<mapsto> [])\<rparr>)" using assms(6,7) by (simp add: sp_enter_def)
  show "all_steady (abs_of s1 (tl R) W)" using assms(3,5) unfolding a1 by (auto simp: all_steady_def)
  show "phase_ok (abs_of s1 (tl R) W)" unfolding a1
    by (rule phase_next) (use ready_live[OF assms(1)] assms(4,5) phase_okD(2,6)[OF assms(2)] in auto)
  show "main_thread s1 \<noteq> NULL" using arg_cong[OF a1, of s_main] assms(4) by simp
  have "load s1 = sp_load (abs_of s1 (tl R) W)" by (simp add: sp_load_abs)
  also have "\<dots> = (\<Sum>t\<in>dom (threads s). load_of ((contexts s)(m \<mapsto> [])) t)"
    unfolding a1 by (simp add: sp_load_def)
  also have "\<dots> = load s" unfolding load_def
    by (rule sum.cong) (use assms(5) in \<open>auto simp: load_of_def\<close>)
  finally show "load s1 = load s" .
qed

text \<open>C8: \<open>ut_run\<close> always comes to an end. Called with threads that create no others but may use
  events and semaphores in any way the library allows, it either returns with every thread gone, or
  stops in the assertion that no thread is left, and then every thread that is left is blocked on an
  event or a semaphore: the assertion reports deadlocks and nothing else.\<close>

theorem ut_run_ends_or_deadlocks:
  assumes "ut_reach code s" "running_thread s = NULL" "blocks s = Map.empty"
    "\<forall>t cs. contexts s t = Some cs \<longrightarrow> list_all steady cs"
    "m \<noteq> NULL" "m \<notin> dom (threads s)" "m \<notin> dom (contexts s)" "load s \<le> fuel" "ut_run_ok code fuel s m"
  shows "(\<exists>s'. ut_run code fuel s m = Some (Inr s') \<and> ut_reach code s' \<and> running_thread s' = NULL
      \<and> number_of_threads s' = 0)
    \<or> (\<exists>s1 s'. ut_run_enter s m = Inr (s1, True) \<and> run_threads code fuel s1 = Some (Inr s')
      \<and> dom (threads s') \<noteq> {} \<and> (\<forall>t\<in>dom (threads s'). blocked s' t)
      \<and> ut_run code fuel s m = Some (Inl AssertFailed))"
proof -
  obtain R W where i: "um_inv s R W" and ph: "phase_ok (abs_of s R W)" using reach_inv[OF assms(1)] by blast
  have m0: "main_thread s = NULL" using phase_okD(4)[OF ph] assms(2) by simp
  have st: "all_steady (abs_of s R W)" using assms(4) by (simp add: all_steady_def)
  from ut_run_enter_sim[OF i assms(2) m0 assms(6,7)] obtain s1 where
    s1: "ut_run_enter s m = Inr (s1, R \<noteq> [])" "um_inv s1 (tl R) W"
    "abs_of s1 (tl R) W = sp_enter m (abs_of s R W)" by blast
  have r1: "ut_reach code s1" by (rule ut_reach.enter[OF assms(1,5,6,7) s1(1)])
  show ?thesis
  proof (cases "R = []")
    case True
    have "number_of_threads s = 0" using idle_empty i assms(2,3) m0 True by blast
    moreover have "s1 = s" using s1(1) True assms(2) ready_is_empty_ok[OF um_invD(1)[OF i]]
      by (simp add: ut_run_enter_def)
    ultimately show ?thesis using s1(1) True assms(1,2) by (simp add: ut_run_def)
  next
    case False
    note e = entered_load[OF i ph st assms(5,6) False s1(3)]
    have "steps_ok code fuel s1" using assms(9) s1(1) False by (simp add: ut_run_ok_def)
    then obtain s2 where s2: "run_threads code fuel s1 = Some (Inr s2)"
      "running_thread s2 = main_thread s2" "main_thread s2 \<noteq> NULL" "ut_reach code s2"
      using steady_run_ends[OF s1(2) e(2,1,3) _ r1] e(4) assms(8) by auto
    from left_or_stuck[OF s2(4,2,3)] show ?thesis
      using s1(1) False s2(1) by (auto simp: ut_run_def)
  qed
qed

text \<open>Two threads that each wait for what only the other one would post.\<close>

definition lockers :: "ptr \<Rightarrow> ptr \<Rightarrow> action list" where
  "lockers f arg = (if f = 1 then [SemWait 0x100 1 0x5000, SemPost 0x200 1]
     else [SemWait 0x200 1 0x6000, SemPost 0x100 1])"

lemma ut_run_ends_or_deadlocks_witness:
  "\<exists>s s1 s'. play lockers [Call (SemInit 0x100 0 1), Call (SemInit 0x200 0 1),
        Call (UtCreate 1 0 0x1000 0x9000), Call (UtCreate 2 0 0x2000 0xa000)] = Some s
    \<and> ut_run_enter s 0x600 = Inr (s1, True) \<and> run_threads lockers 8 s1 = Some (Inr s')
    \<and> dom (threads s') \<noteq> {} \<and> (\<forall>t\<in>dom (threads s'). blocked s' t)
    \<and> ut_run lockers 8 s 0x600 = Some (Inl AssertFailed)"
proof -
  let ?ms = "[Call (SemInit 0x100 0 1), Call (SemInit 0x200 0 1),
        Call (UtCreate 1 0 0x1000 0x9000), Call (UtCreate 2 0 0x2000 0xa000)]"
  obtain s where s: "play lockers ?ms = Some s" "running_thread s = NULL"
    "blocks s = Map.empty" "contexts s = [0x1000 \<mapsto> lockers 1 0, 0x2000 \<mapsto> lockers 2 0]"
    "dom (threads s) = {0x1000, 0x2000}"
    by (auto simp: play_def boot_def ut_init_def with_links_def init_list_head_def set_next_def set_prev_def
        fresh_entry_def perform_def ut_create_def ut_activate_def insert_list_last_def insert_list_after_def
        call_ok_def no_leave_def lockers_def entry_of_def OFF_ENTRY_def sem_init_def declare_sem_def INT_MAX_def)
  have "case play lockers ?ms of None \<Rightarrow> False | Some s \<Rightarrow> ut_run_ok lockers 8 s 0x600 \<and>
      (case ut_run lockers 8 s 0x600 of Some (Inl AssertFailed) \<Rightarrow> True | _ \<Rightarrow> False)"
    by code_simp
  then have ok: "ut_run_ok lockers 8 s 0x600" "ut_run lockers 8 s 0x600 = Some (Inl AssertFailed)"
    using s(1) by (auto split: option.splits sum.splits c_error.splits)
  have w: "load s \<le> 8" using s(4,5) by (simp add: load_def load_of_def lockers_def)
  have c: "\<forall>t cs. contexts s t = Some cs \<longrightarrow> list_all steady cs" using s(4) by (auto simp: lockers_def)
  have "(0x600::ptr) \<noteq> NULL" "0x600 \<notin> dom (threads s)" "0x600 \<notin> dom (contexts s)" using s(4,5) by auto
  from ut_run_ends_or_deadlocks[OF play_reach[OF s(1)] s(2,3) c this w ok(1)] s(1) ok(2) show ?thesis by auto
qed

end
