(* ===== verification/Uthread_Test1.thy ===== *)
theory Uthread_Test1
  imports Uthread_Run
begin

text \<open>
  \<open>test1\<close> and \<open>main\<close> of \<open>simpletest.c\<close>: ten threads, each of which prints its digit a hundred
  times and yields when \<open>rand()\<close> says so. \<open>rnd k i\<close> is the value that the thread of digit \<open>k\<close>
  gets in its turn \<open>i\<close>; every sequence of values of \<open>rand\<close> under every schedule is one such
  function. \<open>usleep\<close> stops the whole process. The output and the increments of
  \<open>test1_count\<close> are one log, \<open>printed\<close>.
\<close>

section \<open>The program\<close>

definition MAX_THREADS :: nat where "MAX_THREADS = 10"

definition incr_mark :: string where "incr_mark = ''++test1_count''"

definition test1_count :: "process \<Rightarrow> 64 word" where
  "test1_count s = of_nat (count_list (printed s) incr_mark)"

definition test1_thread :: "(nat \<Rightarrow> nat) \<Rightarrow> ptr \<Rightarrow> action list" where
  "test1_thread rnd argument =
     (let c = (ucast argument :: 8 word) in
      concat (map (\<lambda>index. Print [char_of (unat c)] # (if rnd index mod 4 = 0 then [UtYield] else [])) [0..<100])
      @ [Print incr_mark])"

definition test1_code :: "ptr \<Rightarrow> (nat \<Rightarrow> nat \<Rightarrow> nat) \<Rightarrow> ptr \<Rightarrow> ptr \<Rightarrow> action list" where
  "test1_code fn rnd f arg = (if f = fn then test1_thread (rnd (unat arg - 48)) arg else [])"

text \<open>\<open>mallocs\<close> is what \<open>malloc\<close> returns for the descriptors and stacks, \<open>fn\<close> the address of
  \<open>test1_thread\<close>, \<open>m\<close> where \<open>ut_run\<close> has its local descriptor.\<close>

definition test1_calls :: "ptr \<Rightarrow> (ptr \<times> ptr) list \<Rightarrow> action list" where
  "test1_calls fn mallocs = Print '':: Test 1 - BEGIN ::'' #
     map (\<lambda>index. UtCreate fn (48 + of_nat index) (fst (mallocs ! index)) (snd (mallocs ! index))) [0..<MAX_THREADS]"

definition test1 :: "ptr \<Rightarrow> (nat \<Rightarrow> nat \<Rightarrow> nat) \<Rightarrow> (ptr \<times> ptr) list \<Rightarrow> ptr \<Rightarrow> nat \<Rightarrow> process
    \<Rightarrow> (c_error + process) option" where
  "test1 fn rnd mallocs m fuel s =
     (case perform_all (test1_code fn rnd) s (test1_calls fn mallocs) of
        Inl e \<Rightarrow> Some (Inl e)
      | Inr s1 \<Rightarrow>
          (case ut_run (test1_code fn rnd) fuel s1 m of
             None \<Rightarrow> None
           | Some (Inl e) \<Rightarrow> Some (Inl e)
           | Some (Inr s2) \<Rightarrow>
               Some (if test1_count s2 \<noteq> of_nat MAX_THREADS then Inl AssertFailed
                     else perform (test1_code fn rnd) s2 (Print '':: Test 1 - END ::''))))"

definition simpletest :: "ptr \<Rightarrow> (nat \<Rightarrow> nat \<Rightarrow> nat) \<Rightarrow> (ptr \<times> ptr) list \<Rightarrow> ptr \<Rightarrow> nat \<Rightarrow> process
    \<Rightarrow> (c_error + process) option" where
  "simpletest fn rnd mallocs m fuel s =
     (case ut_init s of
        Inl e \<Rightarrow> Some (Inl e)
      | Inr s1 \<Rightarrow> map_option (\<lambda>r. and_then r (\<lambda>s2. Inr (ut_end s2))) (test1 fn rnd mallocs m fuel s1))"

section \<open>Its threads\<close>

lemma prints_append: "prints (xs @ ys) = prints xs + prints ys"
  by (induction xs) (auto simp: prints_def List.map_filter_def)

lemma test1_thread_calm: "list_all calm (test1_thread rnd arg)"
  by (auto simp: test1_thread_def Let_def list_all_iff)

lemma calm_no_leave: "list_all calm cs \<Longrightarrow> no_leave cs"
  by (induction cs) (auto simp: no_leave_def is_leave_def)

lemma turns_prints:
  "prints (concat (map (\<lambda>i. Print str # (if P i then [UtYield] else [])) is)) = replicate_mset (length is) str"
  by (induction "is") (auto simp: prints_append)

lemma turns_length:
  "length (concat (map (\<lambda>i. Print str # (if P i then [UtYield] else [])) is)) \<le> 2 * length is"
  by (induction "is") auto

lemma test1_thread_prints:
  "prints (test1_thread rnd arg) = add_mset incr_mark (replicate_mset 100 [char_of (unat (ucast arg :: 8 word))])"
  by (simp add: test1_thread_def Let_def prints_append turns_prints)

lemma test1_thread_length: "length (test1_thread rnd arg) \<le> 201"
  using turns_length[of "[char_of (unat (ucast arg :: 8 word))]" "\<lambda>i. rnd i mod 4 = 0" "[0..<100]"]
  by (simp add: test1_thread_def Let_def)

section \<open>Creating the threads\<close>

lemma set_link_dom: "set_next h p v = Some h' \<Longrightarrow> dom h' = dom h" "set_prev h p v = Some h' \<Longrightarrow> dom h' = dom h"
  by (fastforce simp: set_next_def set_prev_def split: bind_splits if_splits)+

lemma insert_last_dom:
  assumes "insert_list_last h q e = Some h'"
  shows "dom h' = dom h"
proof -
  obtain p n h1 h2 h3 where "set_prev h e p = Some h1" "set_next h1 e n = Some h2" "set_next h2 p e = Some h3"
    "set_prev h3 n e = Some h'"
    using assms by (auto simp: insert_list_last_def insert_list_after_def Let_def split: bind_splits)
  then show ?thesis by (simp add: set_link_dom)
qed

lemma create_from_main:
  assumes r: "ut_reach code s" "running_thread s = NULL" and ok: "call_ok code s (UtCreate f x t st)"
  shows "\<exists>s'. perform code s (UtCreate f x t st) = Inr s' \<and> ut_reach code s' \<and> running_thread s' = NULL
    \<and> main_thread s' = main_thread s \<and> dom (threads s') = insert t (dom (threads s))
    \<and> contexts s' = (contexts s)(t \<mapsto> code f x) \<and> dom (links s') = insert (entry_of t) (dom (links s))
    \<and> blocks s' = blocks s \<and> printed s' = printed s \<and> number_of_threads s' = number_of_threads s + 1"
proof -
  obtain R W where i: "um_inv s R W" using reach_inv[OF r(1)] by blast
  from ut_create_sim[OF i ok] obtain s' where s': "perform code s (UtCreate f x t st) = Inr s'"
    by (auto simp: perform_def)
  from ut_reach.main_call[OF r ok s'] have "ut_reach code s'" .
  moreover have "t \<noteq> NULL" "st \<noteq> NULL" using ok by (simp_all add: call_ok_def)
  moreover from this s' obtain h where
    h: "insert_list_last ((links s)(entry_of t \<mapsto> fresh_entry)) (ready_queue s) (entry_of t) = Some h"
    "s' = s\<lparr>threads := (threads s)(t \<mapsto> \<lparr>ut_function = f, ut_argument = x, ut_stack = st\<rparr>),
        contexts := (contexts s)(t \<mapsto> code f x), links := h, number_of_threads := number_of_threads s + 1\<rparr>"
    by (auto simp: perform_def ut_create_def ut_activate_def with_links_def)
  ultimately show ?thesis using s' r(2) insert_last_dom[OF h(1)] by simp
qed

definition create_call :: "ptr \<Rightarrow> ptr \<times> ptr \<times> ptr \<Rightarrow> action" where
  "create_call f p = UtCreate f (fst p) (fst (snd p)) (snd (snd p))"

lemma create_call_triple: "create_call f (x, t, st) = UtCreate f x t st"
  by (simp add: create_call_def)

lemma plus_one_fits: "unat n + 1 < 2 ^ 32 \<Longrightarrow> n + 1 \<noteq> 0 \<and> unat (n + 1) = unat n + 1" for n :: "32 word"
  by (simp add: unat_eq_zero[symmetric] unat_word_ariths)

definition descriptors :: "(ptr \<times> ptr \<times> ptr) list \<Rightarrow> ptr list" where
  "descriptors xs = map (\<lambda>p. fst (snd p)) xs"

lemma creates_from_main:
  assumes "ut_reach code s" "running_thread s = NULL" "main_thread s = NULL" "distinct (descriptors xs)"
    and "\<forall>p\<in>set xs. fst (snd p) \<noteq> NULL \<and> snd (snd p) \<noteq> NULL \<and> no_leave (code f (fst p))"
    and "\<forall>t\<in>set (descriptors xs). t \<notin> dom (threads s) \<and> t \<notin> dom (contexts s) \<and> entry_of t \<notin> dom (links s)"
    and "unat (number_of_threads s) + length xs < 2 ^ 32"
  shows "\<exists>s'. perform_all code s (map (create_call f) xs) = Inr s' \<and> ut_reach code s' \<and> running_thread s' = NULL
    \<and> blocks s' = blocks s \<and> printed s' = printed s \<and> dom (threads s') = dom (threads s) \<union> set (descriptors xs)
    \<and> (\<forall>p\<in>set xs. contexts s' (fst (snd p)) = Some (code f (fst p)))
    \<and> (\<forall>t. t \<notin> set (descriptors xs) \<longrightarrow> contexts s' t = contexts s t)"
  using assms
proof (induction xs arbitrary: s)
  case Nil
  then show ?case by (simp add: descriptors_def)
next
  case (Cons p xs)
  obtain x t st where p: "p = (x, t, st)" by (cases p)
  have n: "number_of_threads s + 1 \<noteq> 0" "unat (number_of_threads s + 1) = unat (number_of_threads s) + 1"
    using plus_one_fits[of "number_of_threads s"] Cons.prems(7) by simp_all
  have ok: "call_ok code s (UtCreate f x t st)"
    using Cons.prems(3,5,6) n(1) p by (simp add: call_ok_def descriptors_def domIff)
  from create_from_main[OF Cons.prems(1,2) ok] obtain s1 where
    s1: "perform code s (UtCreate f x t st) = Inr s1" "ut_reach code s1" "running_thread s1 = NULL"
    "main_thread s1 = main_thread s" "dom (threads s1) = insert t (dom (threads s))"
    "contexts s1 = (contexts s)(t \<mapsto> code f x)" "dom (links s1) = insert (entry_of t) (dom (links s))"
    "blocks s1 = blocks s" "printed s1 = printed s" "number_of_threads s1 = number_of_threads s + 1" by blast
  have fresh: "\<forall>u\<in>set (descriptors xs). u \<notin> dom (threads s1) \<and> u \<notin> dom (contexts s1) \<and> entry_of u \<notin> dom (links s1)"
    using Cons.prems(4,6) s1(5-7) p by (auto simp: descriptors_def entry_of_def)
  obtain s' where s': "perform_all code s1 (map (create_call f) xs) = Inr s'" "ut_reach code s'" "running_thread s' = NULL"
    "blocks s' = blocks s1" "printed s' = printed s1" "dom (threads s') = dom (threads s1) \<union> set (descriptors xs)"
    "\<forall>p\<in>set xs. contexts s' (fst (snd p)) = Some (code f (fst p))"
    "\<forall>t. t \<notin> set (descriptors xs) \<longrightarrow> contexts s' t = contexts s1 t"
    using Cons.IH[OF s1(2,3) _ _ _ fresh] Cons.prems(3,4,5,7) s1(4,10) n(2) by (auto simp: descriptors_def)
  have "t \<notin> set (descriptors xs)" using Cons.prems(4) p by (simp add: descriptors_def)
  then show ?case using s' s1 p
    by (intro exI[of _ s']) (auto simp: create_call_triple descriptors_def)
qed

section \<open>What the test shows\<close>

definition digit :: "nat \<Rightarrow> string" where
  "digit k = [char_of (48 + k)]"

definition thread_args :: "(ptr \<times> ptr) list \<Rightarrow> (ptr \<times> ptr \<times> ptr) list" where
  "thread_args mallocs = map (\<lambda>k. (48 + of_nat k, mallocs ! k)) [0..<MAX_THREADS]"

definition good_mallocs :: "process \<Rightarrow> (ptr \<times> ptr) list \<Rightarrow> ptr \<Rightarrow> bool" where
  "good_mallocs s mallocs m \<longleftrightarrow> length mallocs = MAX_THREADS \<and> distinct (map fst mallocs) \<and> m \<noteq> NULL
     \<and> (\<forall>p\<in>set mallocs. fst p \<noteq> NULL \<and> snd p \<noteq> NULL \<and> entry_of (fst p) \<notin> dom (links s) \<and> fst p \<noteq> m)"

lemma test1_calls_eq: "test1_calls fn mallocs = Print '':: Test 1 - BEGIN ::'' # map (create_call fn) (thread_args mallocs)"
  by (simp add: test1_calls_def thread_args_def create_call_def comp_def)

lemma descriptors_args: "length mallocs = MAX_THREADS \<Longrightarrow> descriptors (thread_args mallocs) = map fst mallocs"
  by (rule nth_equalityI) (simp_all add: descriptors_def thread_args_def)

lemma digit_arg: "k < MAX_THREADS \<Longrightarrow> [char_of (unat (ucast (48 + of_nat k :: ptr) :: 8 word))] = digit k"
  by (simp add: digit_def MAX_THREADS_def unsigned_ucast_eq unat_word_ariths unat_of_nat take_bit_eq_mod)

lemma descriptor_set:
  assumes "length mallocs = MAX_THREADS"
  shows "set (map fst mallocs) = (\<lambda>k. fst (mallocs ! k)) ` {0..<MAX_THREADS}"
proof -
  have "map fst mallocs = map (\<lambda>k. fst (mallocs ! k)) [0..<MAX_THREADS]"
    by (rule nth_equalityI) (simp_all add: assms)
  then show ?thesis by (simp only: set_map set_upt)
qed

lemma sum_threads:
  assumes "length mallocs = MAX_THREADS" "distinct (map fst mallocs)"
  shows "(\<Sum>t\<in>set (map fst mallocs). g t) = (\<Sum>k\<in>{0..<MAX_THREADS}. g (fst (mallocs ! k)))"
proof -
  have "set (map fst mallocs) = (\<lambda>k. fst (mallocs ! k)) ` {0..<MAX_THREADS}"
    by (rule descriptor_set[OF assms(1)])
  moreover have "inj_on (\<lambda>k. fst (mallocs ! k)) {0..<MAX_THREADS}"
  proof (rule inj_onI)
    fix x y assume "x \<in> {0..<MAX_THREADS}" "y \<in> {0..<MAX_THREADS}" "fst (mallocs ! x) = fst (mallocs ! y)"
    then show "x = y" using nth_eq_iff_index_eq[OF assms(2), of x y] assms(1) by simp
  qed
  ultimately show ?thesis by (simp add: sum.reindex)
qed

text \<open>The state in which \<open>test1\<close> calls \<open>ut_run\<close>.\<close>

lemma test1_ready:
  assumes "ut_reach code s" "running_thread s = NULL" "main_thread s = NULL" "threads s = Map.empty" "contexts s = Map.empty"
    "blocks s = Map.empty" "number_of_threads s = 0" "printed s = []" and g: "good_mallocs s mallocs m"
    and c: "code = test1_code fn rnd"
  shows "\<exists>s1. perform_all code s (test1_calls fn mallocs) = Inr s1 \<and> ut_reach code s1 \<and> running_thread s1 = NULL
    \<and> blocks s1 = Map.empty \<and> printed s1 = ['':: Test 1 - BEGIN ::'']
    \<and> dom (threads s1) = set (map fst mallocs) \<and> dom (contexts s1) = set (map fst mallocs)
    \<and> (\<forall>k<MAX_THREADS. contexts s1 (fst (mallocs ! k)) = Some (test1_thread (rnd (unat (48 + of_nat k :: ptr) - 48)) (48 + of_nat k)))"
proof -
  let ?s0 = "s\<lparr>printed := ['':: Test 1 - BEGIN ::'']\<rparr>" and ?xs = "thread_args mallocs"
  have p: "perform code s (Print '':: Test 1 - BEGIN ::'') = Inr ?s0" using assms(8) by (simp add: perform_def)
  have r: "ut_reach code ?s0"
    by (rule ut_reach.main_call[OF assms(1,2) _ p]) (simp add: call_ok_def)
  note G = g[unfolded good_mallocs_def]
  have xs: "descriptors ?xs = map fst mallocs" using descriptors_args G by blast
  have el: "\<exists>k<MAX_THREADS. p = (48 + of_nat k, mallocs ! k) \<and> mallocs ! k \<in> set mallocs" if "p \<in> set ?xs" for p
    using that G by (auto simp: thread_args_def)
  have nl: "no_leave (code fn x)" for x
    using calm_no_leave[OF test1_thread_calm] by (simp add: c test1_code_def)
  obtain s1 where s1: "perform_all code ?s0 (map (create_call fn) ?xs) = Inr s1" "ut_reach code s1" "running_thread s1 = NULL"
    "blocks s1 = blocks ?s0" "printed s1 = printed ?s0" "dom (threads s1) = dom (threads ?s0) \<union> set (descriptors ?xs)"
    "\<forall>p\<in>set ?xs. contexts s1 (fst (snd p)) = Some (code fn (fst p))"
    "\<forall>t. t \<notin> set (descriptors ?xs) \<longrightarrow> contexts s1 t = contexts ?s0 t"
  proof (rule exE[OF creates_from_main[OF r, of ?xs fn]])
    show "distinct (descriptors ?xs)" using xs G by simp
    show "\<forall>p\<in>set ?xs. fst (snd p) \<noteq> NULL \<and> snd (snd p) \<noteq> NULL \<and> no_leave (code fn (fst p))"
    proof
      fix p assume "p \<in> set ?xs"
      then obtain k where k: "p = (48 + of_nat k, mallocs ! k)" "mallocs ! k \<in> set mallocs" using el by blast
      then have "fst (mallocs ! k) \<noteq> NULL" "snd (mallocs ! k) \<noteq> NULL" using G by blast+
      then show "fst (snd p) \<noteq> NULL \<and> snd (snd p) \<noteq> NULL \<and> no_leave (code fn (fst p))" using nl k(1) by simp
    qed
    show "\<forall>t\<in>set (descriptors ?xs). t \<notin> dom (threads ?s0) \<and> t \<notin> dom (contexts ?s0) \<and> entry_of t \<notin> dom (links ?s0)"
      using G assms(4,5) by (auto simp: xs)
    show "unat (number_of_threads ?s0) + length ?xs < 2 ^ 32"
      using assms(7) by (simp add: thread_args_def MAX_THREADS_def)
  qed (use assms(2,3) in auto)
  have cx: "contexts s1 (fst (mallocs ! k)) = Some (test1_thread (rnd (unat (48 + of_nat k :: ptr) - 48)) (48 + of_nat k))"
    if "k < MAX_THREADS" for k
    using s1(7) that by (auto simp: thread_args_def c test1_code_def)
  have "dom (contexts s1) = set (map fst mallocs)"
  proof
    show "dom (contexts s1) \<subseteq> set (map fst mallocs)" using s1(8) assms(5) xs by (auto simp: domIff)
    show "set (map fst mallocs) \<subseteq> dom (contexts s1)"
      using cx descriptor_set[of mallocs] G by (auto simp del: set_map)
  qed
  then show ?thesis using s1 cx xs assms(4,6) p
    by (intro exI[of _ s1]) (simp add: test1_calls_eq)
qed

text \<open>What its threads print together.\<close>

definition test1_output :: "string multiset" where
  "test1_output = (\<Sum>k\<in>{0..<MAX_THREADS}. add_mset incr_mark (replicate_mset 100 (digit k)))"

lemma digit_inject: "k < MAX_THREADS \<Longrightarrow> j < MAX_THREADS \<Longrightarrow> digit k = digit j \<Longrightarrow> k = j"
  by (simp add: digit_def MAX_THREADS_def)

lemma count_digit: "k < MAX_THREADS \<Longrightarrow> count test1_output (digit k) = 100"
proof -
  assume k: "k < MAX_THREADS"
  have "count (add_mset incr_mark (replicate_mset 100 (digit j))) (digit k) = (if j = k then 100 else 0)"
    if "j \<in> {0..<MAX_THREADS}" for j
    using digit_inject[OF k, of j] that by (auto simp: incr_mark_def digit_def[of k])
  then show ?thesis using k by (simp add: test1_output_def count_sum)
qed

lemma size_sum_mset: "size (\<Sum>k\<in>A. f k :: string multiset) = (\<Sum>k\<in>A. size (f k))"
  by (induction A rule: infinite_finite_induct) simp_all

lemma count_marks: "count test1_output incr_mark = MAX_THREADS" "size test1_output = 101 * MAX_THREADS"
  by (simp_all add: test1_output_def count_sum size_sum_mset incr_mark_def digit_def)

lemma test1_runs:
  assumes "ut_reach code s" "running_thread s = NULL" "main_thread s = NULL" "threads s = Map.empty" "contexts s = Map.empty"
    "blocks s = Map.empty" "number_of_threads s = 0" "printed s = []" and g: "good_mallocs s mallocs m"
    and c: "code = test1_code fn rnd" and fuel: "2020 \<le> fuel"
  shows "\<exists>s'. test1 fn rnd mallocs m fuel s = Some (Inr s') \<and> number_of_threads s' = 0 \<and> running_thread s' = NULL
    \<and> mset (printed s') = {#'':: Test 1 - BEGIN ::'', '':: Test 1 - END ::''#} + test1_output"
proof -
  note G = g[unfolded good_mallocs_def]
  from test1_ready[OF assms(1-10)] obtain s1 where
    s1: "perform_all code s (test1_calls fn mallocs) = Inr s1" "ut_reach code s1" "running_thread s1 = NULL"
    "blocks s1 = Map.empty" "printed s1 = ['':: Test 1 - BEGIN ::'']"
    "dom (threads s1) = set (map fst mallocs)" "dom (contexts s1) = set (map fst mallocs)" and
    cx: "\<And>k. k < MAX_THREADS \<Longrightarrow>
      contexts s1 (fst (mallocs ! k)) = Some (test1_thread (rnd (unat (48 + of_nat k :: ptr) - 48)) (48 + of_nat k))" by blast
  have dom: "dom (contexts s1) = (\<lambda>k. fst (mallocs ! k)) ` {0..<MAX_THREADS}"
    using s1(7) descriptor_set[of mallocs] G by simp
  have calm: "\<forall>t cs. contexts s1 t = Some cs \<longrightarrow> list_all calm cs"
  proof (intro allI impI)
    fix t cs assume t: "contexts s1 t = Some cs"
    then have "t \<in> dom (contexts s1)" by blast
    then obtain k where "k < MAX_THREADS" "t = fst (mallocs ! k)" unfolding dom by auto
    then show "list_all calm cs" using cx t test1_thread_calm by auto
  qed
  have "work s1 \<le> (\<Sum>k\<in>{0..<MAX_THREADS}. 202)"
    unfolding work_def s1(6) sum_threads[OF conjunct1[OF G] conjunct1[OF conjunct2[OF G]]]
    by (rule sum_mono) (use cx test1_thread_length in \<open>simp add: work_of_def\<close>)
  then have w: "work s1 \<le> fuel" using fuel by (simp add: MAX_THREADS_def)
  have m: "m \<noteq> NULL" "m \<notin> dom (threads s1)" "m \<notin> dom (contexts s1)" using G s1(6,7) by auto
  have out: "(\<Sum>t\<in>dom (threads s1). prints_of (contexts s1) t) = test1_output"
    unfolding s1(6) sum_threads[OF conjunct1[OF G] conjunct1[OF conjunct2[OF G]]] test1_output_def
    by (rule sum.cong) (use cx test1_thread_prints digit_arg in \<open>simp_all add: prints_of_def\<close>)
  from ut_run_output[OF s1(2-4) calm m w] obtain s2 where
    s2: "ut_run code fuel s1 m = Some (Inr s2)" "running_thread s2 = NULL" "number_of_threads s2 = 0"
    "mset (printed s2) = {#'':: Test 1 - BEGIN ::''#} + test1_output" unfolding out s1(5) by auto
  have "count_list (printed s2) incr_mark = MAX_THREADS"
    unfolding count_mset[symmetric] s2(4) using count_marks(1) by (simp add: incr_mark_def)
  then have "test1_count s2 = of_nat MAX_THREADS" by (simp add: test1_count_def)
  then show ?thesis using s1(1) s2 c by (simp add: test1_def perform_def)
qed

text \<open>C22: The test program of \<open>simpletest.c\<close> passes whatever \<open>rand()\<close> returns and wherever the
  memory lies: \<open>main\<close> returns, the assertion on \<open>test1_count\<close> holds, the ten threads are gone, and
  the output is the two lines of \<open>test1\<close> and each digit exactly a hundred times.\<close>

theorem simpletest_passes:
  assumes "fresh_process s" "printed s = []" "good_mallocs s mallocs m" "2020 \<le> fuel"
  shows "\<exists>s'. simpletest fn rnd mallocs m fuel s = Some (Inr s') \<and> number_of_threads s' = 0 \<and> test1_count s' = 10
    \<and> length (printed s') = 1012 \<and> (\<forall>k<10. count_list (printed s') (digit k) = 100)"
proof -
  obtain s1 where i: "ut_init s = Inr s1" using ut_init_inv[OF assms(1)] by blast
  then obtain h where h: "init_list_head (links s) (ready_queue s) = Some h" "s1 = s\<lparr>links := h\<rparr>"
    by (auto simp: ut_init_def with_links_def)
  have "dom h = dom (links s)"
    using h(1) by (auto simp: init_list_head_def simp flip: set_link_dom split: bind_splits)
  then have g: "good_mallocs s1 mallocs m" using assms(3) h(2) by (simp add: good_mallocs_def)
  have r: "ut_reach (test1_code fn rnd) s1" by (rule ut_reach.start[OF assms(1) i])
  from test1_runs[OF r _ _ _ _ _ _ _ g refl assms(4)] obtain s' where
    s': "test1 fn rnd mallocs m fuel s1 = Some (Inr s')" "number_of_threads s' = 0"
    "mset (printed s') = {#'':: Test 1 - BEGIN ::'', '':: Test 1 - END ::''#} + test1_output"
    using assms(1,2) h(2) by (auto simp: fresh_process_def)
  have "count_list (printed s') (digit k) = 100" if "k < 10" for k
    unfolding count_mset[symmetric] s'(3) using count_digit[of k] that by (simp add: MAX_THREADS_def digit_def)
  moreover have "count_list (printed s') incr_mark = 10"
    unfolding count_mset[symmetric] s'(3) using count_marks(1) by (simp add: incr_mark_def MAX_THREADS_def)
  moreover have "length (printed s') = 1012"
    using arg_cong[OF s'(3), of size] count_marks(2) by (simp add: MAX_THREADS_def)
  ultimately show ?thesis using s'(1,2) i by (simp add: simpletest_def ut_end_def test1_count_def)
qed

definition test1_mallocs :: "(ptr \<times> ptr) list" where
  "test1_mallocs = map (\<lambda>k. (0x1000 + 0x100 * of_nat k, 0x100000 * (1 + of_nat k))) [0..<10]"

lemma simpletest_passes_witness:
  "\<exists>s'. simpletest 0x4000 (\<lambda>k i. k * i + i div 3) test1_mallocs 0x600 5000 boot = Some (Inr s')
    \<and> number_of_threads s' = 0 \<and> test1_count s' = 10 \<and> count_list (printed s') ''7'' = 100"
proof -
  have eq: "test1_mallocs = [(0x1000, 0x100000), (0x1100, 0x200000), (0x1200, 0x300000), (0x1300, 0x400000), (0x1400, 0x500000),
      (0x1500, 0x600000), (0x1600, 0x700000), (0x1700, 0x800000), (0x1800, 0x900000), (0x1900, 0xa00000)]"
    by (simp add: test1_mallocs_def upt_conv_Cons)
  have g: "good_mallocs boot test1_mallocs 0x600"
    by (simp add: eq good_mallocs_def MAX_THREADS_def boot_def entry_of_def OFF_ENTRY_def)
  have f: "fresh_process boot" "printed boot = []" by (simp_all add: fresh_process_def boot_def)
  have "digit 7 = ''7''" by code_simp
  moreover have "(2020::nat) \<le> 5000" by simp
  from simpletest_passes[OF f g this, of "0x4000" "\<lambda>k i. k * i + i div 3"] obtain s' where
    "simpletest 0x4000 (\<lambda>k i. k * i + i div 3) test1_mallocs 0x600 5000 boot = Some (Inr s')"
    "number_of_threads s' = 0" "test1_count s' = 10" "\<forall>k<10. count_list (printed s') (digit k) = 100" by blast
  moreover from this have "count_list (printed s') (digit 7) = 100" by simp
  ultimately show ?thesis by metis
qed

end
