(* ===== verification/Monitor.thy ===== *)
theory Monitor
  imports Prelude
begin

text \<open>
  Monitors: data that every operation uses only between \<open>pthread_mutex_lock\<close> and
  \<open>pthread_mutex_unlock\<close> of one mutex, with one condition variable. An operation is the body
  of its critical section, a function that either finds that it has to wait or completes with
  a new state, a result and the wake-ups it does. The threads interleave as events; which
  sleeper a signal wakes is open, and spurious wake-ups are allowed, as POSIX has it.

  A woken thread takes the mutex again and evaluates its condition again, so waking puts it
  where a caller is. What an operation does outside of the mutex (\<open>malloc\<close> of a node not
  linked yet, \<open>free\<close> of one no longer linked) is private to its thread and is part of the body.
\<close>

section \<open>Events of a monitor\<close>

type_synonym tid = nat

datatype wake = NoWake | Signal | Broadcast

datatype ('s, 'r) outcome = Blocks | Completes 's 'r wake

datatype ('o, 'r) pc = Outside | Locking 'o | Inside 'o | Asleep 'o | Leaving 'o 'r

record ('s, 'o, 'r) monitor =
  data :: 's
  owner :: "tid option"
  asleep :: "tid list"
  pcs :: "tid \<Rightarrow> ('o, 'r) pc"
  history :: "('o \<times> 'r) list"      \<comment> \<open>completed operations, in the order of their bodies\<close>
  failure :: "c_error option"

datatype 'o event = Calls tid 'o | Locks tid | Runs tid "tid option" | Unlocks tid | Wakes tid

definition start_monitor :: "'s \<Rightarrow> ('s, 'o, 'r) monitor" where
  "start_monitor s = \<lparr>data = s, owner = None, asleep = [], pcs = (\<lambda>_. Outside), history = [], failure = None\<rparr>"

definition wake_up :: "tid list \<Rightarrow> ('s, 'o, 'r) monitor \<Rightarrow> ('s, 'o, 'r) monitor" where
  "wake_up ts m = m\<lparr>asleep := filter (\<lambda>t. t \<notin> set ts) (asleep m),
     pcs := (\<lambda>t. if t \<in> set ts then (case pcs m t of Asleep x \<Rightarrow> Locking x | p \<Rightarrow> p) else pcs m t)\<rparr>"

definition complete :: "tid \<Rightarrow> 'o \<Rightarrow> 's \<Rightarrow> 'r \<Rightarrow> ('s, 'o, 'r) monitor \<Rightarrow> ('s, 'o, 'r) monitor" where
  "complete t x s r m = m\<lparr>data := s, pcs := (pcs m)(t := Leaving x r), history := history m @ [(x, r)]\<rparr>"

text \<open>Who is woken: the choice \<open>w\<close> of a signal has to be one of the sleepers if there is any.\<close>

definition woken :: "wake \<Rightarrow> tid list \<Rightarrow> tid option \<Rightarrow> tid list option" where
  "woken k sl w = (case k of
      NoWake \<Rightarrow> (if w = None then Some [] else None)
    | Broadcast \<Rightarrow> (if w = None then Some sl else None)
    | Signal \<Rightarrow> (case w of None \<Rightarrow> if sl = [] then Some [] else None
                         | Some u \<Rightarrow> if u \<in> set sl then Some [u] else None))"

fun mon_step :: "('o \<Rightarrow> 's \<Rightarrow> c_error + ('s, 'r) outcome) \<Rightarrow> ('o \<Rightarrow> 's \<Rightarrow> bool) \<Rightarrow> 'o event
    \<Rightarrow> ('s, 'o, 'r) monitor \<Rightarrow> ('s, 'o, 'r) monitor option" where
  "mon_step body valid (Calls t x) m =
     (case pcs m t of Outside \<Rightarrow> Some (m\<lparr>pcs := (pcs m)(t := Locking x)\<rparr>) | _ \<Rightarrow> None)"
| "mon_step body valid (Locks t) m =
     (case pcs m t of
        Locking x \<Rightarrow> (if owner m = None then Some (m\<lparr>owner := Some t, pcs := (pcs m)(t := Inside x)\<rparr>) else None)
      | _ \<Rightarrow> None)"
| "mon_step body valid (Runs t w) m =
     (case pcs m t of
        Inside x \<Rightarrow>
          (if valid x (data m) then
            (case body x (data m) of
               Inl e \<Rightarrow> Some (m\<lparr>failure := Some e\<rparr>)
             | Inr Blocks \<Rightarrow>
                 (if w = None then Some (m\<lparr>owner := None, asleep := asleep m @ [t], pcs := (pcs m)(t := Asleep x)\<rparr>)
                  else None)
             | Inr (Completes s r k) \<Rightarrow>
                 map_option (\<lambda>ts. wake_up ts (complete t x s r m)) (woken k (asleep m) w))
           else None)
      | _ \<Rightarrow> None)"
| "mon_step body valid (Unlocks t) m =
     (case pcs m t of
        Leaving x r \<Rightarrow> Some (m\<lparr>owner := None, pcs := (pcs m)(t := Outside)\<rparr>)
      | _ \<Rightarrow> None)"
| "mon_step body valid (Wakes t) m = (if t \<in> set (asleep m) then Some (wake_up [t] m) else None)"

fun mon_run :: "('o \<Rightarrow> 's \<Rightarrow> c_error + ('s, 'r) outcome) \<Rightarrow> ('o \<Rightarrow> 's \<Rightarrow> bool) \<Rightarrow> 'o event list
    \<Rightarrow> ('s, 'o, 'r) monitor \<Rightarrow> ('s, 'o, 'r) monitor option" where
  "mon_run body valid [] m = Some m"
| "mon_run body valid (e # es) m = Option.bind (mon_step body valid e m) (mon_run body valid es)"

lemma mon_run_snoc:
  "mon_run body valid (es @ [e]) m = Option.bind (mon_run body valid es m) (mon_step body valid e)"
  by (induction es arbitrary: m) (auto split: bind_splits)

text \<open>Induction over the steps of a run.\<close>

lemma mon_run_induct [consumes 1, case_names start step]:
  assumes "mon_run body valid es m = Some m'"
    and "P m"
    and "\<And>m1 e m2. P m1 \<Longrightarrow> mon_step body valid e m1 = Some m2 \<Longrightarrow> P m2"
  shows "P m'"
  using assms(1)
proof (induction es arbitrary: m' rule: rev_induct)
  case Nil
  then show ?case using assms(2) by simp
next
  case (snoc e es)
  then show ?case using assms(3) by (auto simp: mon_run_snoc split: bind_splits)
qed

lemma wake_up_fields [simp]:
  "data (wake_up ts m) = data m" "owner (wake_up ts m) = owner m" "history (wake_up ts m) = history m"
  "failure (wake_up ts m) = failure m" "asleep (wake_up ts m) = filter (\<lambda>t. t \<notin> set ts) (asleep m)"
  "pcs (wake_up ts m) t = (if t \<in> set ts then (case pcs m t of Asleep x \<Rightarrow> Locking x | p \<Rightarrow> p) else pcs m t)"
  by (simp_all add: wake_up_def)

lemma complete_fields [simp]:
  "data (complete t x s r m) = s" "owner (complete t x s r m) = owner m"
  "history (complete t x s r m) = history m @ [(x, r)]" "failure (complete t x s r m) = failure m"
  "asleep (complete t x s r m) = asleep m" "pcs (complete t x s r m) = (pcs m)(t := Leaving x r)"
  by (simp_all add: complete_def)

lemma woken_sub: "woken k sl w = Some ts \<Longrightarrow> set ts \<subseteq> set sl"
  by (auto simp: woken_def split: wake.splits option.splits if_splits)

section \<open>Mutual exclusion and sleepers\<close>

definition in_section :: "('o, 'r) pc \<Rightarrow> bool" where
  "in_section p = (case p of Inside x \<Rightarrow> True | Leaving x r \<Rightarrow> True | _ \<Rightarrow> False)"

definition is_asleep :: "('o, 'r) pc \<Rightarrow> bool" where
  "is_asleep p = (case p of Asleep x \<Rightarrow> True | _ \<Rightarrow> False)"

definition mon_ok :: "('s, 'o, 'r) monitor \<Rightarrow> bool" where
  "mon_ok m \<longleftrightarrow> (\<forall>t. in_section (pcs m t) \<longleftrightarrow> owner m = Some t)
     \<and> (\<forall>t. t \<in> set (asleep m) \<longleftrightarrow> is_asleep (pcs m t)) \<and> distinct (asleep m)
     \<and> finite {t. pcs m t \<noteq> Outside}"

lemma mon_okD:
  assumes "mon_ok m"
  shows "in_section (pcs m t) \<longleftrightarrow> owner m = Some t" "t \<in> set (asleep m) \<longleftrightarrow> is_asleep (pcs m t)"
    "distinct (asleep m)" "finite {t. pcs m t \<noteq> Outside}"
  using assms by (simp_all add: mon_ok_def)

lemma pc_kinds [simp]:
  "\<not> in_section Outside" "\<not> in_section (Locking x)" "in_section (Inside x)" "\<not> in_section (Asleep x)"
  "in_section (Leaving x r)" "\<not> is_asleep Outside" "\<not> is_asleep (Locking x)" "\<not> is_asleep (Inside x)"
  "is_asleep (Asleep x)" "\<not> is_asleep (Leaving x r)"
  by (simp_all add: in_section_def is_asleep_def)

lemma mon_ok_start: "mon_ok (start_monitor s)"
  by (simp add: mon_ok_def start_monitor_def)

lemma finite_pc_upd: "finite {t. f t \<noteq> Outside} \<Longrightarrow> finite {t. (f(u := p)) t \<noteq> Outside}"
  by (rule finite_subset[of _ "insert u {t. f t \<noteq> Outside}"]) auto

lemma mon_ok_wake:
  assumes "mon_ok m" "set ts \<subseteq> set (asleep m)"
  shows "mon_ok (wake_up ts m)"
proof -
  note D = mon_okD[OF assms(1)]
  have a: "is_asleep (pcs m t)" if "t \<in> set ts" for t using that assms(2) D(2) by blast
  have p: "\<exists>x. pcs m t = Asleep x \<and> pcs (wake_up ts m) t = Locking x" if "t \<in> set ts" for t
    using a[OF that] that by (cases "pcs m t") auto
  have "{t. pcs (wake_up ts m) t \<noteq> Outside} = {t. pcs m t \<noteq> Outside}"
    by (rule Collect_cong) (use p in \<open>auto split: pc.splits\<close>)
  then have "finite {t. pcs (wake_up ts m) t \<noteq> Outside}" using D(4) by simp
  moreover have "in_section (pcs (wake_up ts m) t) \<longleftrightarrow> owner m = Some t" for t
    using D(1)[of t] p[of t] by (cases "t \<in> set ts") auto
  moreover have "t \<in> set (asleep (wake_up ts m)) \<longleftrightarrow> is_asleep (pcs (wake_up ts m) t)" for t
    using D(2)[of t] p[of t] by (cases "t \<in> set ts") auto
  ultimately show ?thesis using D(3) by (simp add: mon_ok_def del: wake_up_fields(6))
qed

lemma mon_ok_set:
  assumes "mon_ok m" "\<not> is_asleep (pcs m t)" "\<not> is_asleep p"
    "in_section p \<longleftrightarrow> ow = Some t" "owner m = None \<or> owner m = Some t" "ow = None \<or> ow = Some t"
  shows "mon_ok (m\<lparr>owner := ow, pcs := (pcs m)(t := p)\<rparr>)"
  unfolding mon_ok_def
proof (intro conjI allI)
  note D = mon_okD[OF assms(1)]
  fix u
  show "in_section (pcs (m\<lparr>owner := ow, pcs := (pcs m)(t := p)\<rparr>) u) \<longleftrightarrow>
      owner (m\<lparr>owner := ow, pcs := (pcs m)(t := p)\<rparr>) = Some u"
    using D(1)[of u] assms(4-6) by auto
  show "u \<in> set (asleep (m\<lparr>owner := ow, pcs := (pcs m)(t := p)\<rparr>)) \<longleftrightarrow>
      is_asleep (pcs (m\<lparr>owner := ow, pcs := (pcs m)(t := p)\<rparr>) u)"
    using D(2)[of u] assms(2,3) by auto
next
  note D = mon_okD[OF assms(1)]
  show "distinct (asleep (m\<lparr>owner := ow, pcs := (pcs m)(t := p)\<rparr>))" using D(3) by simp
  show "finite {u. pcs (m\<lparr>owner := ow, pcs := (pcs m)(t := p)\<rparr>) u \<noteq> Outside}"
    using finite_pc_upd[OF D(4), of t p] by simp
qed

lemma mon_ok_other [simp]:
  "mon_ok (m\<lparr>data := d\<rparr>) = mon_ok m" "mon_ok (m\<lparr>history := h\<rparr>) = mon_ok m"
  "mon_ok (m\<lparr>failure := f\<rparr>) = mon_ok m"
  by (simp_all add: mon_ok_def)

lemma mon_ok_step:
  assumes "mon_ok m" "mon_step body valid e m = Some m'"
  shows "mon_ok m'"
proof -
  note D = mon_okD[OF assms(1)]
  show ?thesis
  proof (cases e)
    case (Calls t x)
    have "mon_ok (m\<lparr>owner := owner m, pcs := (pcs m)(t := Locking x)\<rparr>)" if "pcs m t = Outside"
      unfolding mon_ok_def
      using D(1-3) finite_pc_upd[OF D(4), of t "Locking x"] that D(1)[of t] D(2)[of t] by auto
    then show ?thesis using assms(2) Calls by (auto split: pc.splits)
  next
    case (Locks t)
    then obtain x where "pcs m t = Locking x" "owner m = None"
      "m' = m\<lparr>owner := Some t, pcs := (pcs m)(t := Inside x)\<rparr>"
      using assms(2) by (auto split: pc.splits if_splits)
    then show ?thesis using mon_ok_set[OF assms(1), of t "Inside x" "Some t"] by simp
  next
    case (Runs t w)
    then obtain x where x: "pcs m t = Inside x" "valid x (data m)"
      using assms(2) by (auto split: pc.splits if_splits)
    have own: "owner m = Some t" using D(1)[of t] x(1) by simp
    show ?thesis
    proof (cases "body x (data m)")
      case (Inl e)
      then show ?thesis using assms Runs x by auto
    next
      case (Inr out)
      show ?thesis
      proof (cases out)
        case Blocks
        then have m': "m' = m\<lparr>owner := None, asleep := asleep m @ [t], pcs := (pcs m)(t := Asleep x)\<rparr>"
          using assms(2) Runs x Inr by (auto split: if_splits)
        have "t \<notin> set (asleep m)" using D(2)[of t] x(1) by simp
        then show ?thesis unfolding m' mon_ok_def
          using D(1-3) own finite_pc_upd[OF D(4), of t "Asleep x"] by auto
      next
        case (Completes s r k)
        then obtain ts where ts: "woken k (asleep m) w = Some ts" "m' = wake_up ts (complete t x s r m)"
          using assms(2) Runs x Inr by auto
        have "mon_ok (m\<lparr>owner := Some t, pcs := (pcs m)(t := Leaving x r)\<rparr>)"
          by (rule mon_ok_set[OF assms(1)]) (use x(1) own in simp_all)
        then have "mon_ok (m\<lparr>pcs := (pcs m)(t := Leaving x r)\<rparr>)" using own by (cases m) simp
        then have "mon_ok (complete t x s r m)" by (simp add: complete_def mon_ok_def)
        then show ?thesis using mon_ok_wake woken_sub[OF ts(1)] ts(2) by (metis complete_fields(5))
      qed
    qed
  next
    case (Unlocks t)
    then obtain x r where x: "pcs m t = Leaving x r" "m' = m\<lparr>owner := None, pcs := (pcs m)(t := Outside)\<rparr>"
      using assms(2) by (auto split: pc.splits)
    then show ?thesis using mon_ok_set[OF assms(1), of t Outside None] D(1)[of t] by simp
  next
    case (Wakes t)
    then show ?thesis using assms mon_ok_wake[of m "[t]"] by (auto split: if_splits)
  qed
qed

lemma mon_run_ok: "mon_run body valid es (start_monitor s) = Some m \<Longrightarrow> mon_ok m"
  by (rule mon_run_induct) (auto intro: mon_ok_start mon_ok_step)

end
