(* ===== verification/Monitor_Contract.thy ===== *)
theory Monitor_Contract
  imports Monitor
begin

text \<open>
  What a monitor owes its users, as locales: its bodies implement a sequential specification
  (\<open>monitor_contract\<close>), from which every history is a sequential one, in the order in which the
  bodies ran; signals that hand out one token each lose no wake-up (\<open>token_monitor\<close>); a gate
  that opens by broadcast keeps nobody asleep (\<open>gate_monitor\<close>).
\<close>

fun replay :: "('o \<Rightarrow> 'a \<Rightarrow> ('a \<times> 'r \<times> wake) option) \<Rightarrow> 'a \<Rightarrow> ('o \<times> 'r) list \<Rightarrow> 'a option" where
  "replay spec a [] = Some a"
| "replay spec a ((x, r) # h) =
     (case spec x a of
        None \<Rightarrow> None
      | Some (a', r', k) \<Rightarrow> (if r' = r then replay spec a' h else None))"

lemma replay_snoc:
  "replay spec a (h @ [(x, r)]) = (case replay spec a h of
      None \<Rightarrow> None
    | Some b \<Rightarrow> (case spec x b of None \<Rightarrow> None | Some (c, r', k) \<Rightarrow> if r' = r then Some c else None))"
  by (induction spec a h rule: replay.induct) (auto split: option.splits)

text \<open>Threads that are on their way to, or at, a body whose operation is in \<open>A\<close>.\<close>

definition awake :: "('o \<Rightarrow> bool) \<Rightarrow> ('s, 'o, 'r) monitor \<Rightarrow> tid set" where
  "awake A m = {t. case pcs m t of Locking x \<Rightarrow> A x | Inside x \<Rightarrow> A x | _ \<Rightarrow> False}"

lemma awake_finite: "mon_ok m \<Longrightarrow> finite (awake A m)"
  unfolding awake_def by (rule finite_subset[OF _ mon_okD(4)]) (auto split: pc.splits)

locale monitor_contract =
  fixes body :: "'o \<Rightarrow> 's \<Rightarrow> c_error + ('s, 'r) outcome"
    and valid :: "'o \<Rightarrow> 's \<Rightarrow> bool"
    and spec :: "'o \<Rightarrow> 'a \<Rightarrow> ('a \<times> 'r \<times> wake) option"
    and rep :: "'s \<Rightarrow> 'a \<Rightarrow> bool"
  assumes body_blocks: "rep s a \<Longrightarrow> valid x s \<Longrightarrow> spec x a = None \<Longrightarrow> body x s = Inr Blocks"
    and body_completes: "rep s a \<Longrightarrow> valid x s \<Longrightarrow> spec x a = Some (a', r, k) \<Longrightarrow>
      \<exists>s'. body x s = Inr (Completes s' r k) \<and> rep s' a'"
begin

lemma step_history:
  assumes "rep (data m) a" "replay spec a0 (history m) = Some a" "failure m = None"
    and "mon_step body valid e m = Some m'"
  shows "failure m' = None \<and> (\<exists>a'. rep (data m') a' \<and> replay spec a0 (history m') = Some a'
    \<and> (case e of
         Runs t w \<Rightarrow> (\<exists>x. pcs m t = Inside x \<and>
           (case spec x a of None \<Rightarrow> a' = a \<and> asleep m' = asleep m @ [t]
              | Some (b, r, k) \<Rightarrow> a' = b \<and> (\<exists>ts. woken k (asleep m) w = Some ts
                  \<and> m' = wake_up ts (complete t x (data m') r m))))
       | _ \<Rightarrow> a' = a))"
proof (cases e)
  case (Runs t w)
  then obtain x where x: "pcs m t = Inside x" "valid x (data m)"
    using assms(4) by (auto split: pc.splits if_splits)
  show ?thesis
  proof (cases "spec x a")
    case None
    from body_blocks[OF assms(1) x(2) None] assms x None Runs show ?thesis by (auto split: if_splits)
  next
    case (Some y)
    then obtain b r k where y: "spec x a = Some (b, r, k)" by (cases y) auto
    from body_completes[OF assms(1) x(2) y] obtain s' where
      s': "body x (data m) = Inr (Completes s' r k)" "rep s' b" by blast
    then obtain ts where ts: "woken k (asleep m) w = Some ts" "m' = wake_up ts (complete t x s' r m)"
      using assms(4) Runs x by auto
    then show ?thesis using assms(2,3) Runs x(1) y s'(2) by (auto simp: replay_snoc)
  qed
qed (use assms in \<open>auto split: pc.splits if_splits\<close>)

theorem run_history:
  assumes "rep s0 a0" "mon_run body valid es (start_monitor s0) = Some m"
  shows "failure m = None \<and> (\<exists>a. rep (data m) a \<and> replay spec a0 (history m) = Some a)"
  using assms(2)
proof (induction rule: mon_run_induct)
  case start
  then show ?case using assms(1) by (auto simp: start_monitor_def)
next
  case (step m1 e m2)
  then obtain a where "rep (data m1) a" "replay spec a0 (history m1) = Some a" "failure m1 = None" by blast
  from step_history[OF this step(2)] show ?case by blast
qed

end

text \<open>
  Tokens: an operation of \<open>takes\<close> waits exactly when there is none and otherwise uses one up;
  the others add at most one, and then they signal.
\<close>

locale token_monitor = monitor_contract body valid spec rep
  for body :: "'o \<Rightarrow> 's \<Rightarrow> c_error + ('s, 'r) outcome"
    and valid :: "'o \<Rightarrow> 's \<Rightarrow> bool"
    and spec :: "'o \<Rightarrow> 'a \<Rightarrow> ('a \<times> 'r \<times> wake) option"
    and rep :: "'s \<Rightarrow> 'a \<Rightarrow> bool" +
  fixes tokens :: "'a \<Rightarrow> nat" and takes :: "'o \<Rightarrow> bool"
  assumes waits_law: "spec x a = None \<Longrightarrow> takes x \<and> tokens a = 0"
    and takes_law: "spec x a = Some (a', r, k) \<Longrightarrow> takes x \<Longrightarrow> tokens a = Suc (tokens a')"
    and gives_law: "spec x a = Some (a', r, k) \<Longrightarrow> \<not> takes x \<Longrightarrow>
      tokens a' \<le> tokens a \<or> (k = Signal \<and> tokens a' = Suc (tokens a))"
begin

lemma awake_complete:
  assumes "mon_ok m" "pcs m t = Inside x" "set ts \<subseteq> set (asleep m)" "\<forall>u y. pcs m u = Asleep y \<longrightarrow> takes y"
  shows "awake takes (wake_up ts (complete t x s r m)) = (awake takes m - {t}) \<union> set ts"
proof (rule set_eqI)
  fix u
  have sl: "\<exists>y. pcs m u = Asleep y \<and> takes y" if "u \<in> set ts" for u
    using that assms(3,4) mon_okD(2)[OF assms(1), of u] by (cases "pcs m u") auto
  show "u \<in> awake takes (wake_up ts (complete t x s r m)) \<longleftrightarrow> u \<in> (awake takes m - {t}) \<union> set ts"
  proof (cases "u = t")
    case True
    then have "u \<notin> set ts" using sl assms(2) by fastforce
    then show ?thesis using True by (simp add: awake_def)
  next
    case False
    then show ?thesis using sl[of u] by (cases "u \<in> set ts") (auto simp: awake_def)
  qed
qed

text \<open>Everything but a run of a body leaves the awake takers at least as many.\<close>

lemma awake_grows:
  assumes ok: "mon_ok m" and sl: "\<forall>u y. pcs m u = Asleep y \<longrightarrow> takes y"
    and st: "mon_step body valid e m = Some m'" and e: "\<forall>t w. e \<noteq> Runs t w" and ne: "asleep m' \<noteq> []"
  shows "awake takes m \<subseteq> awake takes m' \<and> asleep m \<noteq> []"
proof (cases e)
  case (Calls t x)
  then have "m' = m\<lparr>pcs := (pcs m)(t := Locking x)\<rparr>" "pcs m t = Outside" using st by (auto split: pc.splits)
  then show ?thesis using ne by (auto simp: awake_def)
next
  case (Locks t)
  then obtain x where "m' = m\<lparr>owner := Some t, pcs := (pcs m)(t := Inside x)\<rparr>" "pcs m t = Locking x"
    using st by (auto split: pc.splits if_splits)
  then show ?thesis using ne by (auto simp: awake_def)
next
  case (Unlocks t)
  then obtain x r where "m' = m\<lparr>owner := None, pcs := (pcs m)(t := Outside)\<rparr>" "pcs m t = Leaving x r"
    using st by (auto split: pc.splits)
  then show ?thesis using ne by (auto simp: awake_def)
next
  case (Wakes t)
  then have m': "m' = wake_up [t] m" "t \<in> set (asleep m)" using st by (auto split: if_splits)
  then have "\<exists>y. pcs m t = Asleep y \<and> takes y" using sl mon_okD(2)[OF ok, of t] by (cases "pcs m t") auto
  then show ?thesis using m' by (auto simp: awake_def split: pc.splits)
qed (use e in blast)

text \<open>A taker that completes uses up one token and was awake; a giver adds at most one token and
  then wakes somebody.\<close>

lemma covered_run:
  assumes ok: "mon_ok m" and sl: "\<forall>u y. pcs m u = Asleep y \<longrightarrow> takes y" and c: "tokens a \<le> card (awake takes m)"
    and x: "pcs m t = Inside x" and y: "spec x a = Some (b, r, k)" and ts: "woken k (asleep m) w = Some ts"
    and m': "m' = wake_up ts (complete t x s r m)" and fin: "finite (awake takes m')" and ne: "asleep m \<noteq> []"
  shows "tokens b \<le> card (awake takes m')"
proof -
  have fin0: "finite (awake takes m)" by (rule awake_finite[OF ok])
  have aw: "awake takes m' = (awake takes m - {t}) \<union> set ts"
    unfolding m' by (rule awake_complete[OF ok x woken_sub[OF ts] sl])
  show ?thesis
  proof (cases "takes x")
    case True
    then have "t \<in> awake takes m" using x by (simp add: awake_def)
    then have "card (awake takes m) = Suc (card (awake takes m - {t}))"
      by (rule card.remove[OF fin0])
    moreover have "card (awake takes m - {t}) \<le> card (awake takes m')"
      by (rule card_mono[OF fin]) (simp add: aw)
    ultimately show ?thesis using takes_law[OF y True] c by simp
  next
    case False
    then have "t \<notin> awake takes m" using x by (simp add: awake_def)
    then have aw': "awake takes m' = awake takes m \<union> set ts" using aw by simp
    from gives_law[OF y False] show ?thesis
    proof
      assume "tokens b \<le> tokens a"
      then show ?thesis using c card_mono[OF fin, of "awake takes m"] aw' by simp
    next
      assume g: "k = Signal \<and> tokens b = Suc (tokens a)"
      then obtain u where u: "ts = [u]" "u \<in> set (asleep m)"
        using ts ne by (auto simp: woken_def split: option.splits if_splits)
      then have "\<exists>y. pcs m u = Asleep y" using mon_okD(2)[OF ok, of u] by (cases "pcs m u") auto
      then have "u \<notin> awake takes m" by (auto simp: awake_def)
      then have "card (awake takes m') = Suc (card (awake takes m))" using aw' u(1) fin0 by simp
      then show ?thesis using g c by simp
    qed
  qed
qed

lemma covered_step:
  assumes ok: "mon_ok m" and sl: "\<forall>u y. pcs m u = Asleep y \<longrightarrow> takes y"
    and cov: "asleep m \<noteq> [] \<longrightarrow> tokens a \<le> card (awake takes m)"
    and st: "mon_step body valid e m = Some m'"
    and h: "case e of
       Runs t w \<Rightarrow> (\<exists>x. pcs m t = Inside x \<and>
         (case spec x a of None \<Rightarrow> a' = a \<and> asleep m' = asleep m @ [t]
            | Some (b, r, k) \<Rightarrow> a' = b \<and> (\<exists>ts. woken k (asleep m) w = Some ts
                \<and> m' = wake_up ts (complete t x (data m') r m))))
     | _ \<Rightarrow> a' = a"
  shows "asleep m' \<noteq> [] \<longrightarrow> tokens a' \<le> card (awake takes m')"
proof
  assume ne: "asleep m' \<noteq> []"
  have fin: "finite (awake takes m')" by (rule awake_finite[OF mon_ok_step[OF ok st]])
  show "tokens a' \<le> card (awake takes m')"
  proof (cases "\<exists>t w. e = Runs t w")
    case False
    then have "a' = a" using h by (cases e) auto
    then show ?thesis using awake_grows[OF ok sl st _ ne] False cov card_mono[OF fin, of "awake takes m"] by fastforce
  next
    case True
    then obtain t w x where x: "e = Runs t w" "pcs m t = Inside x" using h by auto
    show ?thesis
    proof (cases "spec x a")
      case None
      then show ?thesis using waits_law[OF None] h x by simp
    next
      case (Some y)
      then obtain b r k where y: "spec x a = Some (b, r, k)" by (cases y) auto
      then obtain ts where ts: "woken k (asleep m) w = Some ts" "m' = wake_up ts (complete t x (data m') r m)"
        and a': "a' = b" using h x by auto
      have "asleep m' = filter (\<lambda>u. u \<notin> set ts) (asleep m)" using arg_cong[OF ts(2), of asleep] by simp
      then have ne0: "asleep m \<noteq> []" using ne by auto
      then show ?thesis using covered_run[OF ok sl _ x(2) y ts fin ne0] cov a' by simp
    qed
  qed
qed

lemma sleepers_take_step:
  assumes ok: "mon_ok m" and sl: "\<forall>u y. pcs m u = Asleep y \<longrightarrow> takes y" and r: "rep (data m) a"
    and st: "mon_step body valid e m = Some m'"
  shows "\<forall>u y. pcs m' u = Asleep y \<longrightarrow> takes y"
proof (cases e)
  case (Runs t w)
  then obtain x where x: "pcs m t = Inside x" "valid x (data m)"
    using st by (auto split: pc.splits if_splits)
  show ?thesis
  proof (cases "spec x a")
    case None
    from body_blocks[OF r x(2) None] st x Runs waits_law[OF None] sl show ?thesis
      by (auto split: if_splits)
  next
    case (Some y)
    then obtain b q k where y: "spec x a = Some (b, q, k)" by (cases y) auto
    from body_completes[OF r x(2) y] obtain s' where "body x (data m) = Inr (Completes s' q k)" by blast
    then obtain ts where "m' = wake_up ts (complete t x s' q m)" using st Runs x by auto
    then show ?thesis using sl by (auto split: if_splits pc.splits)
  qed
qed (use st sl in \<open>auto split: pc.splits if_splits\<close>)

text \<open>No lost wake-up: while somebody sleeps, there are at least as many takers up and about as
  there are tokens; in particular nobody sleeps on a token that nobody is coming for.\<close>

theorem no_lost_wakeup:
  assumes "rep s0 a0" "mon_run body valid es (start_monitor s0) = Some m"
  shows "\<exists>a. rep (data m) a \<and> replay spec a0 (history m) = Some a
    \<and> (asleep m \<noteq> [] \<longrightarrow> tokens a \<le> card (awake takes m))"
proof -
  have "mon_ok m \<and> failure m = None \<and> (\<forall>u y. pcs m u = Asleep y \<longrightarrow> takes y) \<and>
    (\<exists>a. rep (data m) a \<and> replay spec a0 (history m) = Some a
      \<and> (asleep m \<noteq> [] \<longrightarrow> tokens a \<le> card (awake takes m)))"
    using assms(2)
  proof (induction rule: mon_run_induct)
    case start
    then show ?case using assms(1) mon_ok_start[of s0] by (auto simp: start_monitor_def)
  next
    case (step m1 e m2)
    then obtain a where a: "rep (data m1) a" "replay spec a0 (history m1) = Some a"
      "asleep m1 \<noteq> [] \<longrightarrow> tokens a \<le> card (awake takes m1)" by blast
    from step(1) have ok: "mon_ok m1" and f: "failure m1 = None"
      and sl: "\<forall>u y. pcs m1 u = Asleep y \<longrightarrow> takes y" by blast+
    from step_history[OF a(1,2) f step(2)] obtain a' where a':
      "failure m2 = None" "rep (data m2) a'" "replay spec a0 (history m2) = Some a'"
      "case e of
       Runs t w \<Rightarrow> (\<exists>x. pcs m1 t = Inside x \<and>
         (case spec x a of None \<Rightarrow> a' = a \<and> asleep m2 = asleep m1 @ [t]
            | Some (b, r, k) \<Rightarrow> a' = b \<and> (\<exists>ts. woken k (asleep m1) w = Some ts
                \<and> m2 = wake_up ts (complete t x (data m2) r m1))))
       | _ \<Rightarrow> a' = a" by blast
    from covered_step[OF ok sl a(3) step(2) a'(4)] a'(1-3) mon_ok_step[OF ok step(2)]
      sleepers_take_step[OF ok sl a(1) step(2)] show ?case by blast
  qed
  then show ?thesis by blast
qed

end

text \<open>Gates: an operation waits only while the gate is closed, the gate never closes again, and
  what opens it broadcasts.\<close>

locale gate_monitor = monitor_contract body valid spec rep
  for body :: "'o \<Rightarrow> 's \<Rightarrow> c_error + ('s, 'r) outcome"
    and valid :: "'o \<Rightarrow> 's \<Rightarrow> bool"
    and spec :: "'o \<Rightarrow> 'a \<Rightarrow> ('a \<times> 'r \<times> wake) option"
    and rep :: "'s \<Rightarrow> 'a \<Rightarrow> bool" +
  fixes opened :: "'a \<Rightarrow> bool"
  assumes closed_law: "spec x a = None \<Longrightarrow> \<not> opened a"
    and stays_law: "spec x a = Some (a', r, k) \<Longrightarrow> opened a \<Longrightarrow> opened a'"
    and opens_law: "spec x a = Some (a', r, k) \<Longrightarrow> \<not> opened a \<Longrightarrow> opened a' \<Longrightarrow> k = Broadcast"
begin

theorem nobody_left_asleep:
  assumes "rep s0 a0" "mon_run body valid es (start_monitor s0) = Some m"
  shows "\<exists>a. rep (data m) a \<and> replay spec a0 (history m) = Some a \<and> (opened a \<longrightarrow> asleep m = [])"
proof -
  have "failure m = None \<and> (\<exists>a. rep (data m) a \<and> replay spec a0 (history m) = Some a
      \<and> (opened a \<longrightarrow> asleep m = []))"
    using assms(2)
  proof (induction rule: mon_run_induct)
    case start
    then show ?case using assms(1) by (auto simp: start_monitor_def)
  next
    case (step m1 e m2)
    then obtain a where a: "rep (data m1) a" "replay spec a0 (history m1) = Some a" "failure m1 = None"
      "opened a \<longrightarrow> asleep m1 = []" by blast
    from step_history[OF a(1-3) step(2)] obtain a' where a':
      "failure m2 = None" "rep (data m2) a'" "replay spec a0 (history m2) = Some a'"
      "case e of
       Runs t w \<Rightarrow> (\<exists>x. pcs m1 t = Inside x \<and>
         (case spec x a of None \<Rightarrow> a' = a \<and> asleep m2 = asleep m1 @ [t]
            | Some (b, r, k) \<Rightarrow> a' = b \<and> (\<exists>ts. woken k (asleep m1) w = Some ts
                \<and> m2 = wake_up ts (complete t x (data m2) r m1))))
       | _ \<Rightarrow> a' = a" by blast
    have "opened a' \<longrightarrow> asleep m2 = []"
    proof (cases e)
      case (Runs t w)
      then obtain x where x: "pcs m1 t = Inside x" using a'(4) by auto
      show ?thesis
      proof (cases "spec x a")
        case None
        then show ?thesis using closed_law[OF None] Runs a'(4) x by simp
      next
        case (Some y)
        then obtain b r k where y: "spec x a = Some (b, r, k)" by (cases y) auto
        then obtain ts where ts: "woken k (asleep m1) w = Some ts" "m2 = wake_up ts (complete t x (data m2) r m1)"
          and b: "a' = b" using Runs a'(4) x by auto
        have am: "asleep m2 = filter (\<lambda>u. u \<notin> set ts) (asleep m1)"
          using arg_cong[OF ts(2), of asleep] by simp
        show ?thesis
        proof (cases "opened a")
          case True
          then show ?thesis using am a(4) by simp
        next
          case False
          then show ?thesis using opens_law[OF y False] ts(1) am b
            by (auto simp: woken_def split: if_splits)
        qed
      qed
    qed (use a'(4) a(4) step(2) in \<open>auto split: pc.splits if_splits\<close>)
    then show ?case using a'(1-3) by blast
  qed
  then show ?thesis by blast
qed

end

end
