(* ===== verification/Queue_Monitor.thy ===== *)
theory Queue_Monitor
  imports Monitor_Contract List_H
begin

text \<open>
  The three queues of \<open>17-pthreads-monitors/01-queue\<close>, \<open>17-pthreads-monitors/02-queue-wait\<close> and
  \<open>18-thread-pool\<close> (of which \<open>20-net-sockets/03-thread-pool\<close> has a copy): an intrusive list of
  nodes, each holding an item, with a size, under a mutex. The first one returns NULL from
  an empty queue, the others wait on a condition variable.
\<close>

section \<open>Data\<close>

text \<open>\<open>queue_node_t\<close> has its item at offset 0 and its list entry at offset 8.\<close>

record queue =
  q_links :: "ptr lmem"
  q_head :: ptr
  q_size :: "64 word"
  q_items :: "ptr \<rightharpoonup> ptr"

definition OFF_NODE_ENTRY :: "64 word" where "OFF_NODE_ENTRY = 8"

text \<open>The calls; the node of \<open>Put\<close> is what \<open>malloc\<close> returns.\<close>

datatype queue_op = Put ptr ptr | Get | Size

definition blank_entry :: "ptr list_entry" where
  "blank_entry = \<lparr>nxt = 0, prv = 0\<rparr>"

definition queue_init :: "queue \<Rightarrow> c_error + queue" where
  "queue_init q = and_then (or_fail InvalidAccess (init_list_head (q_links q) (q_head q)))
     (\<lambda>h. Inr (q\<lparr>q_links := h, q_size := 0\<rparr>))"

section \<open>17-01: get does not wait\<close>

definition queue_size_01 :: "queue \<Rightarrow> 64 word" where
  "queue_size_01 q = q_size q"

definition queue_put_01 :: "queue \<Rightarrow> ptr \<Rightarrow> ptr \<Rightarrow> c_error + (queue, ptr) outcome" where
  "queue_put_01 q pnode item =
     (if pnode = NULL then Inl InvalidAccess
      else
        let q1 = q\<lparr>q_items := (q_items q)(pnode \<mapsto> item),
                   q_links := (q_links q)(pnode + OFF_NODE_ENTRY \<mapsto> blank_entry)\<rparr> in
        and_then (or_fail InvalidAccess (insert_list_last (q_links q1) (q_head q1) (pnode + OFF_NODE_ENTRY)))
          (\<lambda>h. Inr (Completes (q1\<lparr>q_links := h, q_size := q_size q1 + 1\<rparr>) NULL NoWake)))"

definition queue_get_01 :: "queue \<Rightarrow> c_error + (queue, ptr) outcome" where
  "queue_get_01 q =
     and_then (or_fail InvalidAccess (is_list_empty (q_links q) (q_head q))) (\<lambda>empty.
       if empty then Inr (Completes q NULL NoWake)
       else and_then (or_fail InvalidAccess (remove_list_first (q_links q) (q_head q))) (\<lambda>(h, pentry).
         let q1 = q\<lparr>q_links := h, q_size := q_size q - 1\<rparr>;
             pnode = container_of pentry OFF_NODE_ENTRY in
         (case q_items q1 pnode of
            None \<Rightarrow> Inl InvalidAccess
          | Some item \<Rightarrow> Inr (Completes (q1\<lparr>q_items := (q_items q1)(pnode := None),
                              q_links := (q_links q1)(pentry := None)\<rparr>) item NoWake))))"

section \<open>17-02: get waits for an item\<close>

definition queue_size_02 :: "queue \<Rightarrow> 64 word" where
  "queue_size_02 q = q_size q"

definition queue_put_02 :: "queue \<Rightarrow> ptr \<Rightarrow> ptr \<Rightarrow> c_error + (queue, ptr) outcome" where
  "queue_put_02 q pnode item =
     (if pnode = NULL then Inl InvalidAccess
      else
        let q1 = q\<lparr>q_items := (q_items q)(pnode \<mapsto> item),
                   q_links := (q_links q)(pnode + OFF_NODE_ENTRY \<mapsto> blank_entry)\<rparr> in
        and_then (or_fail InvalidAccess (insert_list_last (q_links q1) (q_head q1) (pnode + OFF_NODE_ENTRY)))
          (\<lambda>h. Inr (Completes (q1\<lparr>q_links := h, q_size := q_size q1 + 1\<rparr>) NULL Signal)))"

definition queue_get_02 :: "queue \<Rightarrow> c_error + (queue, ptr) outcome" where
  "queue_get_02 q =
     and_then (or_fail InvalidAccess (is_list_empty (q_links q) (q_head q))) (\<lambda>empty.
       if empty then Inr Blocks
       else and_then (or_fail InvalidAccess (remove_list_first (q_links q) (q_head q))) (\<lambda>(h, pentry).
         let q1 = q\<lparr>q_links := h, q_size := q_size q - 1\<rparr>;
             pnode = container_of pentry OFF_NODE_ENTRY in
         (case q_items q1 pnode of
            None \<Rightarrow> Inl InvalidAccess
          | Some item \<Rightarrow> Inr (Completes (q1\<lparr>q_items := (q_items q1)(pnode := None),
                              q_links := (q_links q1)(pentry := None)\<rparr>) item NoWake))))"

section \<open>18: the condition is the size\<close>

definition queue_size :: "queue \<Rightarrow> c_error + (queue, ptr) outcome" where
  "queue_size q = (let size = q_size q in Inr (Completes q size NoWake))"

definition queue_put :: "queue \<Rightarrow> ptr \<Rightarrow> ptr \<Rightarrow> c_error + (queue, ptr) outcome" where
  "queue_put q pnode item =
     (if pnode = NULL then Inl InvalidAccess
      else
        let q1 = q\<lparr>q_items := (q_items q)(pnode \<mapsto> item),
                   q_links := (q_links q)(pnode + OFF_NODE_ENTRY \<mapsto> blank_entry)\<rparr> in
        and_then (or_fail InvalidAccess (insert_list_last (q_links q1) (q_head q1) (pnode + OFF_NODE_ENTRY)))
          (\<lambda>h. Inr (Completes (q1\<lparr>q_links := h, q_size := q_size q1 + 1\<rparr>) NULL Signal)))"

definition queue_get :: "queue \<Rightarrow> c_error + (queue, ptr) outcome" where
  "queue_get q =
     (if q_size q = 0 then Inr Blocks
      else and_then (or_fail InvalidAccess (remove_list_first (q_links q) (q_head q))) (\<lambda>(h, pentry).
        let q1 = q\<lparr>q_links := h, q_size := q_size q - 1\<rparr>;
            pnode = container_of pentry OFF_NODE_ENTRY in
        (case q_items q1 pnode of
           None \<Rightarrow> Inl InvalidAccess
         | Some item \<Rightarrow> Inr (Completes (q1\<lparr>q_items := (q_items q1)(pnode := None),
                             q_links := (q_links q1)(pentry := None)\<rparr>) item NoWake))))"

section \<open>Bodies and specifications\<close>

definition body_01 :: "queue_op \<Rightarrow> queue \<Rightarrow> c_error + (queue, ptr) outcome" where
  "body_01 x q = (case x of Put pnode item \<Rightarrow> queue_put_01 q pnode item | Get \<Rightarrow> queue_get_01 q
     | Size \<Rightarrow> Inl InvalidAccess)"

definition body_02 :: "queue_op \<Rightarrow> queue \<Rightarrow> c_error + (queue, ptr) outcome" where
  "body_02 x q = (case x of Put pnode item \<Rightarrow> queue_put_02 q pnode item | Get \<Rightarrow> queue_get_02 q
     | Size \<Rightarrow> Inl InvalidAccess)"

definition body_18 :: "queue_op \<Rightarrow> queue \<Rightarrow> c_error + (queue, ptr) outcome" where
  "body_18 x q = (case x of Put pnode item \<Rightarrow> queue_put q pnode item | Get \<Rightarrow> queue_get q
     | Size \<Rightarrow> queue_size q)"

text \<open>\<open>malloc\<close> returns memory that is not in use, and fewer than $2^{64}$ nodes fit in memory. In
  the first two queues \<open>queue_size\<close> does not take the mutex and is not an operation of the
  monitor.\<close>

definition fresh_node :: "queue \<Rightarrow> ptr \<Rightarrow> bool" where
  "fresh_node q pnode \<longleftrightarrow> pnode \<noteq> NULL \<and> q_items q pnode = None
     \<and> q_links q (pnode + OFF_NODE_ENTRY) = None \<and> q_size q + 1 \<noteq> 0"

definition valid_op :: "queue_op \<Rightarrow> queue \<Rightarrow> bool" where
  "valid_op x q = (case x of Put pnode item \<Rightarrow> fresh_node q pnode | Get \<Rightarrow> True | Size \<Rightarrow> True)"

definition valid_17 :: "queue_op \<Rightarrow> queue \<Rightarrow> bool" where
  "valid_17 x q = (x \<noteq> Size \<and> valid_op x q)"

definition fifo_spec :: "queue_op \<Rightarrow> ptr list \<Rightarrow> (ptr list \<times> ptr \<times> wake) option" where
  "fifo_spec x xs = (case x of
      Put pnode item \<Rightarrow> Some (xs @ [item], NULL, Signal)
    | Get \<Rightarrow> (case xs of [] \<Rightarrow> None | item # rest \<Rightarrow> Some (rest, item, NoWake))
    | Size \<Rightarrow> Some (xs, of_nat (length xs), NoWake))"

definition fifo_spec_01 :: "queue_op \<Rightarrow> ptr list \<Rightarrow> (ptr list \<times> ptr \<times> wake) option" where
  "fifo_spec_01 x xs = (case x of
      Put pnode item \<Rightarrow> Some (xs @ [item], NULL, NoWake)
    | Get \<Rightarrow> (case xs of [] \<Rightarrow> Some ([], NULL, NoWake) | item # rest \<Rightarrow> Some (rest, item, NoWake))
    | Size \<Rightarrow> None)"

section \<open>The list of nodes\<close>

definition node_entry :: "ptr \<Rightarrow> ptr" where
  "node_entry n = n + OFF_NODE_ENTRY"

definition queue_rep :: "queue \<Rightarrow> ptr list \<Rightarrow> bool" where
  "queue_rep q xs \<longleftrightarrow> (\<exists>ns. dlist (q_links q) (q_head q) (map node_entry ns)
     \<and> map (q_items q) ns = map Some xs \<and> dom (q_items q) = set ns
     \<and> q_size q = of_nat (length xs) \<and> length xs < 2 ^ 64)"

lemma node_entry_inj [simp]: "node_entry n = node_entry n' \<longleftrightarrow> n = n'"
  by (simp add: node_entry_def)

lemma container_node [simp]: "container_of (node_entry n) OFF_NODE_ENTRY = n"
  by (simp add: node_entry_def)

lemma size_zero: "length xs < 2 ^ 64 \<Longrightarrow> (of_nat (length xs) :: 64 word) = 0 \<longleftrightarrow> xs = []"
  by (auto simp: word_of_nat_eq_0_iff dest: dvd_imp_le)

lemma size_succ:
  assumes "n < 2 ^ 64" "(of_nat n :: 64 word) + 1 \<noteq> 0"
  shows "Suc n < 2 ^ 64"
proof (rule ccontr)
  assume "\<not> Suc n < 2 ^ 64"
  with assms(1) have "Suc n = 2 ^ 64" by simp
  then have "(of_nat (Suc n) :: 64 word) = of_nat (2 ^ 64)" by simp
  then show False using assms(2) by simp
qed

lemma link_node:
  assumes r: "queue_rep q xs" and f: "fresh_node q n"
  shows "\<exists>h. insert_list_last ((q_links q)(node_entry n \<mapsto> blank_entry)) (q_head q) (node_entry n) = Some h
    \<and> queue_rep (q\<lparr>q_items := (q_items q)(n \<mapsto> item), q_links := h, q_size := q_size q + 1\<rparr>) (xs @ [item])"
proof -
  from r obtain ns where ns: "dlist (q_links q) (q_head q) (map node_entry ns)"
    "map (q_items q) ns = map Some xs" "dom (q_items q) = set ns" "q_size q = of_nat (length xs)"
    "length xs < 2 ^ 64" by (auto simp: queue_rep_def)
  have f': "n \<notin> set ns" "node_entry n \<notin> dom (q_links q)" "q_size q + 1 \<noteq> 0"
    using f ns(3) by (auto simp: fresh_node_def node_entry_def)
  let ?h = "(q_links q)(node_entry n \<mapsto> blank_entry)"
  have nin: "node_entry n \<notin> set (q_head q # map node_entry ns)"
    using lh.list_at_wf[OF ns(1)] f'(2) by blast
  have d: "dlist ?h (q_head q) (map node_entry ns)"
    by (rule lh.list_at_local[OF ns(1)]) (use nin in auto)
  from lh.insert_last_law[OF d _ nin] obtain h where
    h: "insert_list_last ?h (q_head q) (node_entry n) = Some h"
    "dlist h (q_head q) (map node_entry (ns @ [n]))" by auto
  have "map ((q_items q)(n \<mapsto> item)) (ns @ [n]) = map Some (xs @ [item])"
    using ns(2) f'(1) by (simp add: map_fun_upd)
  moreover have "Suc (length xs) < 2 ^ 64" using size_succ[OF ns(5)] f'(3) ns(4) by simp
  ultimately have "queue_rep (q\<lparr>q_items := (q_items q)(n \<mapsto> item), q_links := h, q_size := q_size q + 1\<rparr>) (xs @ [item])"
    using h(2) ns(3,4) unfolding queue_rep_def by (intro exI[of _ "ns @ [n]"]) auto
  with h(1) show ?thesis by blast
qed

lemma unlink_node:
  assumes r: "queue_rep q (x # xs)"
  shows "\<exists>h n. remove_list_first (q_links q) (q_head q) = Some (h, node_entry n) \<and> q_items q n = Some x
    \<and> queue_rep (q\<lparr>q_links := h(node_entry n := None), q_size := q_size q - 1,
        q_items := (q_items q)(n := None)\<rparr>) xs"
proof -
  from r obtain ns where ns: "dlist (q_links q) (q_head q) (map node_entry ns)"
    "map (q_items q) ns = map Some (x # xs)" "dom (q_items q) = set ns"
    "q_size q = of_nat (length (x # xs))" "length (x # xs) < 2 ^ 64" unfolding queue_rep_def by blast
  then obtain n ns' where n: "ns = n # ns'" "q_items q n = Some x" "map (q_items q) ns' = map Some xs"
    by (cases ns) auto
  have dist: "distinct (q_head q # map node_entry ns)" using lh.list_at_wf[OF ns(1)] by blast
  have d: "dlist (q_links q) (q_head q) (node_entry n # map node_entry ns')" using ns(1) n(1) by simp
  from lh.remove_first_law[OF d] obtain h where
    h: "remove_list_first (q_links q) (q_head q) = Some (h, node_entry n)" "dlist h (q_head q) (map node_entry ns')"
    by blast
  have nin: "n \<notin> set ns'" "node_entry n \<notin> set (q_head q # map node_entry ns')" using dist n(1) by auto
  have "dlist (h(node_entry n := None)) (q_head q) (map node_entry ns')"
    by (rule lh.list_at_local[OF h(2)]) (use nin in auto)
  moreover have "map ((q_items q)(n := None)) ns' = map Some xs" using n(3) nin(1) by (simp add: map_fun_upd)
  ultimately have "queue_rep (q\<lparr>q_links := h(node_entry n := None), q_size := q_size q - 1,
        q_items := (q_items q)(n := None)\<rparr>) xs"
    using ns n(1) nin(1) unfolding queue_rep_def by (intro exI[of _ ns']) auto
  with h(1) n(2) show ?thesis by blast
qed

lemma queue_init_ok:
  assumes "q_head q \<in> dom (q_links q)" "q_items q = Map.empty"
  shows "\<exists>q'. queue_init q = Inr q' \<and> queue_rep q' []"
proof -
  from lh.init_law[OF assms(1)] obtain h where
    h: "init_list_head (q_links q) (q_head q) = Some h" "dlist h (q_head q) []" by blast
  have "queue_rep (q\<lparr>q_links := h, q_size := 0\<rparr>) []"
    unfolding queue_rep_def by (rule exI[of _ "[]"]) (use h(2) assms(2) in simp)
  with h(1) show ?thesis by (simp add: queue_init_def)
qed

lemma rep_empty:
  assumes "queue_rep q xs"
  shows "is_list_empty (q_links q) (q_head q) = Some (xs = [])" "q_size q = 0 \<longleftrightarrow> xs = []"
proof -
  from assms obtain ns where ns: "dlist (q_links q) (q_head q) (map node_entry ns)"
    "map (q_items q) ns = map Some xs" "q_size q = of_nat (length xs)" "length xs < 2 ^ 64"
    by (auto simp: queue_rep_def)
  have "ns = [] \<longleftrightarrow> xs = []" using arg_cong[OF ns(2), of length] by auto
  then show "is_list_empty (q_links q) (q_head q) = Some (xs = [])" using lh.is_empty_law[OF ns(1)] by simp
  show "q_size q = 0 \<longleftrightarrow> xs = []" using size_zero[OF ns(4)] ns(3) by simp
qed

section \<open>The contracts\<close>

lemmas queue_bodies = body_01_def body_02_def body_18_def queue_put_01_def queue_put_02_def queue_put_def
  queue_get_01_def queue_get_02_def queue_get_def queue_size_def

text \<open>One lemma for the three \<open>put\<close>s, one for the \<open>get\<close>s.\<close>

lemma put_ok:
  assumes "queue_rep q xs" "fresh_node q n"
  shows "\<exists>q'. queue_rep q' (xs @ [item])
    \<and> queue_put_01 q n item = Inr (Completes q' NULL NoWake)
    \<and> queue_put_02 q n item = Inr (Completes q' NULL Signal)
    \<and> queue_put q n item = Inr (Completes q' NULL Signal)"
proof -
  from link_node[OF assms, of item] obtain h where
    h: "insert_list_last ((q_links q)(node_entry n \<mapsto> blank_entry)) (q_head q) (node_entry n) = Some h"
    "queue_rep (q\<lparr>q_items := (q_items q)(n \<mapsto> item), q_links := h, q_size := q_size q + 1\<rparr>) (xs @ [item])"
    by blast
  have "n \<noteq> 0" using assms(2) by (simp add: fresh_node_def)
  with h show ?thesis
    by (intro exI[of _ "q\<lparr>q_items := (q_items q)(n \<mapsto> item), q_links := h, q_size := q_size q + 1\<rparr>"])
       (simp add: queue_put_01_def queue_put_02_def queue_put_def Let_def node_entry_def)
qed

lemma get_ok:
  assumes "queue_rep q (x # xs)"
  shows "\<exists>q'. queue_rep q' xs \<and> queue_get_01 q = Inr (Completes q' x NoWake)
    \<and> queue_get_02 q = Inr (Completes q' x NoWake) \<and> queue_get q = Inr (Completes q' x NoWake)"
proof -
  from unlink_node[OF assms] obtain h n where
    h: "remove_list_first (q_links q) (q_head q) = Some (h, node_entry n)" "q_items q n = Some x"
    "queue_rep (q\<lparr>q_links := h(node_entry n := None), q_size := q_size q - 1,
        q_items := (q_items q)(n := None)\<rparr>) xs" by blast
  let ?q = "q\<lparr>q_links := h(node_entry n := None), q_size := q_size q - 1, q_items := (q_items q)(n := None)\<rparr>"
  have "?q = q\<lparr>q_links := h, q_size := q_size q - 1\<rparr>\<lparr>q_items := (q_items q)(n := None),
      q_links := h(node_entry n := None)\<rparr>" by (cases q) simp
  then show ?thesis using h rep_empty[OF assms]
    by (intro exI[of _ ?q]) (simp add: queue_get_01_def queue_get_02_def queue_get_def Let_def)
qed

interpretation q01: monitor_contract body_01 valid_17 fifo_spec_01 queue_rep
proof unfold_locales
  fix q xs x
  assume r: "queue_rep q xs" and v: "valid_17 x q"
  show "fifo_spec_01 x xs = None \<Longrightarrow> body_01 x q = Inr Blocks"
    using v by (auto simp: fifo_spec_01_def valid_17_def split: queue_op.splits list.splits)
  fix a' y k
  assume s: "fifo_spec_01 x xs = Some (a', y, k)"
  show "\<exists>q'. body_01 x q = Inr (Completes q' y k) \<and> queue_rep q' a'"
  proof (cases x)
    case (Put n item)
    then show ?thesis using s v put_ok[OF r, of n item]
      by (auto simp: fifo_spec_01_def body_01_def valid_17_def valid_op_def)
  next
    case Get
    show ?thesis
    proof (cases xs)
      case Nil
      then show ?thesis using s r rep_empty[OF r] Get
        by (auto simp: fifo_spec_01_def body_01_def queue_get_01_def)
    next
      case (Cons y ys)
      then show ?thesis using s r get_ok[of q y ys] Get by (auto simp: fifo_spec_01_def body_01_def)
    qed
  next
    case Size
    then show ?thesis using v by (simp add: valid_17_def)
  qed
qed

definition is_get :: "queue_op \<Rightarrow> bool" where
  "is_get x = (x = Get)"

interpretation q02: token_monitor body_02 valid_17 fifo_spec queue_rep length is_get
proof unfold_locales
  fix q xs x
  assume r: "queue_rep q xs" and v: "valid_17 x q"
  show "fifo_spec x xs = None \<Longrightarrow> body_02 x q = Inr Blocks"
    using rep_empty[OF r] by (auto simp: fifo_spec_def body_02_def queue_get_02_def split: queue_op.splits list.splits)
  fix a' y k
  assume s: "fifo_spec x xs = Some (a', y, k)"
  show "\<exists>q'. body_02 x q = Inr (Completes q' y k) \<and> queue_rep q' a'"
  proof (cases x)
    case (Put n item)
    then show ?thesis using s v put_ok[OF r, of n item]
      by (auto simp: fifo_spec_def body_02_def valid_17_def valid_op_def)
  next
    case Get
    then show ?thesis using s r get_ok[of q]
      by (cases xs) (auto simp: fifo_spec_def body_02_def)
  next
    case Size
    then show ?thesis using v by (simp add: valid_17_def)
  qed
qed (auto simp: fifo_spec_def is_get_def split: queue_op.splits list.splits)

interpretation q18: token_monitor body_18 valid_op fifo_spec queue_rep length is_get
proof unfold_locales
  fix q xs x
  assume r: "queue_rep q xs" and v: "valid_op x q"
  show "fifo_spec x xs = None \<Longrightarrow> body_18 x q = Inr Blocks"
    using rep_empty[OF r] by (auto simp: fifo_spec_def body_18_def queue_get_def split: queue_op.splits list.splits)
  fix a' y k
  assume s: "fifo_spec x xs = Some (a', y, k)"
  show "\<exists>q'. body_18 x q = Inr (Completes q' y k) \<and> queue_rep q' a'"
  proof (cases x)
    case (Put n item)
    then show ?thesis using s v put_ok[OF r, of n item]
      by (auto simp: fifo_spec_def body_18_def valid_op_def)
  next
    case Get
    then show ?thesis using s r get_ok[of q]
      by (cases xs) (auto simp: fifo_spec_def body_18_def)
  next
    case Size
    then show ?thesis using s r
      by (auto simp: fifo_spec_def body_18_def queue_size_def queue_rep_def)
  qed
qed (auto simp: fifo_spec_def is_get_def split: queue_op.splits list.splits)

end
