(* ===== verification/Queue_Props.thy ===== *)
theory Queue_Props
  imports Queue_Monitor
begin

text \<open>
  What the queues guarantee to any number of threads: items come out in the order in which
  they went in, nothing is lost or duplicated, no list operation goes wrong, at most one
  thread is in a critical section, and no waiting thread is forgotten.
\<close>

definition puts :: "(queue_op \<times> ptr) list \<Rightarrow> ptr list" where
  "puts h = List.map_filter (\<lambda>(x, r). case x of Put n item \<Rightarrow> Some item | _ \<Rightarrow> None) h"

definition gets :: "(queue_op \<times> ptr) list \<Rightarrow> ptr list" where
  "gets h = List.map_filter (\<lambda>(x, r). if x = Get then Some r else None) h"

lemma puts_simps [simp]:
  "puts [] = []" "puts ((Put n i, r) # h) = i # puts h" "puts ((Get, r) # h) = puts h"
  "puts ((Size, r) # h) = puts h"
  by (simp_all add: puts_def List.map_filter_def)

lemma gets_simps [simp]:
  "gets [] = []" "gets ((Put n i, r) # h) = gets h" "gets ((Get, r) # h) = r # gets h"
  "gets ((Size, r) # h) = gets h"
  by (simp_all add: gets_def List.map_filter_def)

lemma replay_fifo: "replay fifo_spec xs h = Some ys \<Longrightarrow> gets h @ ys = xs @ puts h"
proof (induction fifo_spec xs h rule: replay.induct)
  case (2 xs x r h)
  then obtain zs k where z: "fifo_spec x xs = Some (zs, r, k)" "replay fifo_spec zs h = Some ys"
    by (auto split: option.splits if_splits)
  then have "gets h @ ys = zs @ puts h" using 2(1)[of "(zs, r, k)" zs "(r, k)" r k] by simp
  then show ?case using z(1) by (cases x) (auto simp: fifo_spec_def split: list.splits)
qed simp

lemma replay_fifo_01:
  "replay fifo_spec_01 xs h = Some ys \<Longrightarrow> NULL \<notin> set xs \<Longrightarrow> NULL \<notin> set (puts h) \<Longrightarrow>
     filter (\<lambda>r. r \<noteq> NULL) (gets h) @ ys = xs @ puts h"
proof (induction fifo_spec_01 xs h rule: replay.induct)
  case (2 xs x r h)
  then obtain zs k where z: "fifo_spec_01 x xs = Some (zs, r, k)" "replay fifo_spec_01 zs h = Some ys"
    by (auto split: option.splits if_splits)
  have n: "NULL \<notin> set zs" "NULL \<notin> set (puts h)"
    using z(1) 2(3,4) by (cases x; auto simp: fifo_spec_01_def split: list.splits)+
  then have "filter (\<lambda>r. r \<noteq> NULL) (gets h) @ ys = zs @ puts h"
    using 2(1)[of "(zs, r, k)" zs "(r, k)" r k] z by simp
  then show ?case using z(1) 2(3) by (cases x) (auto simp: fifo_spec_01_def split: list.splits)
qed simp

definition queue_ready :: "queue \<Rightarrow> queue \<Rightarrow> bool" where
  "queue_ready q0 q \<longleftrightarrow> q_head q0 \<in> dom (q_links q0) \<and> q_items q0 = Map.empty \<and> queue_init q0 = Inr q"

lemma queue_ready_rep: "queue_ready q0 q \<Longrightarrow> queue_rep q []"
  using queue_init_ok[of q0] by (auto simp: queue_ready_def)

lemma rep_size: "queue_rep q xs \<Longrightarrow> unat (q_size q) = length xs"
  by (auto simp: queue_rep_def unsigned_of_nat take_bit_nat_eq_self)

text \<open>C9: The queue of 18 is a FIFO for any interleaving of its users: no operation ever fails,
  what was taken followed by what is in the queue is what was put, in order, and the size is
  the number of items there; and as long as some thread sleeps in \<open>queue_get\<close>, at least as many
  other takers are up as there are items, so no wake-up is lost.\<close>

theorem queue_18_fifo:
  assumes "queue_ready q0 q" "mon_run body_18 valid_op es (start_monitor q) = Some m"
  shows "\<exists>xs. failure m = None \<and> queue_rep (data m) xs \<and> gets (history m) @ xs = puts (history m)
    \<and> unat (q_size (data m)) = length xs
    \<and> (asleep m \<noteq> [] \<longrightarrow> length xs \<le> card (awake is_get m))"
proof -
  note r = queue_ready_rep[OF assms(1)]
  from q18.no_lost_wakeup[OF r assms(2)] obtain xs where
    xs: "queue_rep (data m) xs" "replay fifo_spec [] (history m) = Some xs"
    "asleep m \<noteq> [] \<longrightarrow> length xs \<le> card (awake is_get m)" by blast
  then show ?thesis using q18.run_history[OF r assms(2)] replay_fifo[OF xs(2)] rep_size[OF xs(1)] by auto
qed

definition demo_queue0 :: queue where
  "demo_queue0 = \<lparr>q_links = [0x40 \<mapsto> blank_entry], q_head = 0x40, q_size = 7, q_items = Map.empty\<rparr>"

definition demo_queue :: queue where
  "demo_queue = \<lparr>q_links = [0x40 \<mapsto> \<lparr>nxt = 0x40, prv = 0x40\<rparr>], q_head = 0x40, q_size = 0, q_items = Map.empty\<rparr>"

lemma demo_queue_ready: "queue_ready demo_queue0 demo_queue"
  by (simp add: queue_ready_def demo_queue0_def demo_queue_def queue_init_def init_list_head_def
    set_next_def set_prev_def blank_entry_def)

text \<open>Thread 1 waits for an item, 2 puts two and wakes it, 3 takes the first before it can.\<close>

definition queue_events :: "queue_op event list" where
  "queue_events = [Calls 1 Get, Locks 1, Runs 1 None, Calls 2 (Put 0x1000 77), Locks 2, Calls 3 Get,
     Runs 2 (Some 1), Unlocks 2, Locks 3, Runs 3 None, Unlocks 3, Locks 1, Runs 1 None,
     Calls 2 (Put 0x2000 88), Locks 2, Runs 2 (Some 1), Unlocks 2, Locks 1, Runs 1 None]"

lemma queue_18_fifo_witness:
  "\<exists>m xs. mon_run body_18 valid_op queue_events (start_monitor demo_queue) = Some m
    \<and> puts (history m) = [77, 88] \<and> gets (history m) @ xs = [77, 88] \<and> queue_rep (data m) xs \<and> failure m = None"
proof -
  have "case mon_run body_18 valid_op queue_events (start_monitor demo_queue) of
      None \<Rightarrow> False | Some m \<Rightarrow> puts (history m) = [77, 88]"
    by code_simp
  then obtain m where m: "mon_run body_18 valid_op queue_events (start_monitor demo_queue) = Some m"
    "puts (history m) = [77, 88]" by (auto split: option.splits)
  from queue_18_fifo[OF demo_queue_ready m(1)] m show ?thesis by auto
qed

text \<open>The waiting queue of 17 keeps the same promises, its condition being the emptiness of
  the list.\<close>

theorem queue_02_fifo:
  assumes "queue_ready q0 q" "mon_run body_02 valid_17 es (start_monitor q) = Some m"
  shows "\<exists>xs. failure m = None \<and> queue_rep (data m) xs \<and> gets (history m) @ xs = puts (history m)
    \<and> unat (queue_size_02 (data m)) = length xs
    \<and> (asleep m \<noteq> [] \<longrightarrow> length xs \<le> card (awake is_get m))"
proof -
  note r = queue_ready_rep[OF assms(1)]
  from q02.no_lost_wakeup[OF r assms(2)] obtain xs where
    xs: "queue_rep (data m) xs" "replay fifo_spec [] (history m) = Some xs"
    "asleep m \<noteq> [] \<longrightarrow> length xs \<le> card (awake is_get m)" by blast
  then show ?thesis using q02.run_history[OF r assms(2)] replay_fifo[OF xs(2)] rep_size[OF xs(1)]
    by (auto simp: queue_size_02_def)
qed

lemma queue_02_fifo_witness:
  "\<exists>m xs. mon_run body_02 valid_17 queue_events (start_monitor demo_queue) = Some m
    \<and> puts (history m) = [77, 88] \<and> gets (history m) @ xs = [77, 88] \<and> queue_rep (data m) xs \<and> failure m = None"
proof -
  have "case mon_run body_02 valid_17 queue_events (start_monitor demo_queue) of
      None \<Rightarrow> False | Some m \<Rightarrow> puts (history m) = [77, 88]"
    by code_simp
  then obtain m where m: "mon_run body_02 valid_17 queue_events (start_monitor demo_queue) = Some m"
    "puts (history m) = [77, 88]" by (auto split: option.splits)
  from queue_02_fifo[OF demo_queue_ready m(1)] m show ?thesis by auto
qed

text \<open>The first queue of 17 never makes a thread sleep: \<open>queue_get\<close> returns NULL when there is
  nothing, and, if no NULL is put, the other results are the items put, in order.\<close>

theorem queue_01_fifo:
  assumes "queue_ready q0 q" "mon_run body_01 valid_17 es (start_monitor q) = Some m"
    and "NULL \<notin> set (puts (history m))"
  shows "\<exists>xs. failure m = None \<and> queue_rep (data m) xs
    \<and> filter (\<lambda>r. r \<noteq> NULL) (gets (history m)) @ xs = puts (history m)
    \<and> unat (queue_size_01 (data m)) = length xs"
proof -
  note r = queue_ready_rep[OF assms(1)]
  from q01.run_history[OF r assms(2)] obtain xs where
    xs: "queue_rep (data m) xs" "replay fifo_spec_01 [] (history m) = Some xs" "failure m = None" by blast
  then show ?thesis using replay_fifo_01[OF xs(2) _ assms(3)] rep_size[OF xs(1)]
    by (auto simp: queue_size_01_def)
qed

definition queue_events_01 :: "queue_op event list" where
  "queue_events_01 = [Calls 1 Get, Locks 1, Calls 2 (Put 0x1000 77), Runs 1 None, Unlocks 1,
     Locks 2, Runs 2 None, Calls 1 Get, Unlocks 2, Locks 1, Runs 1 None]"

lemma queue_01_fifo_witness:
  "\<exists>m xs. mon_run body_01 valid_17 queue_events_01 (start_monitor demo_queue) = Some m
    \<and> gets (history m) = [NULL, 77] \<and> queue_rep (data m) xs \<and> xs = [] \<and> failure m = None"
proof -
  have "case mon_run body_01 valid_17 queue_events_01 (start_monitor demo_queue) of
      None \<Rightarrow> False | Some m \<Rightarrow> puts (history m) = [77] \<and> gets (history m) = [NULL, 77]"
    by code_simp
  then obtain m where m: "mon_run body_01 valid_17 queue_events_01 (start_monitor demo_queue) = Some m"
    "puts (history m) = [77]" "gets (history m) = [NULL, 77]" by (auto split: option.splits)
  have "NULL \<notin> set (puts (history m))" using m(2) by simp
  from queue_01_fifo[OF demo_queue_ready m(1) this] m show ?thesis by auto
qed

text \<open>At most one thread at a time is inside a critical section of the queue of 18, and it is
  the owner of the mutex.\<close>

theorem queue_18_mutual_exclusion:
  assumes "mon_run body_18 valid_op es (start_monitor q) = Some m"
    and "in_section (pcs m t)" "in_section (pcs m u)"
  shows "t = u \<and> owner m = Some t"
  using mon_okD(1)[OF mon_run_ok[OF assms(1)]] assms(2,3) by auto

lemma queue_18_mutual_exclusion_witness:
  "\<exists>m. mon_run body_18 valid_op [Calls 1 Get, Calls 2 Size, Locks 2] (start_monitor demo_queue) = Some m
    \<and> owner m = Some 2"
proof -
  have "case mon_run body_18 valid_op [Calls 1 Get, Calls 2 Size, Locks 2] (start_monitor demo_queue) of
      None \<Rightarrow> False | Some m \<Rightarrow> in_section (pcs m 2)"
    by code_simp
  then obtain m where m: "mon_run body_18 valid_op [Calls 1 Get, Calls 2 Size, Locks 2] (start_monitor demo_queue) = Some m"
    "in_section (pcs m 2)" by (auto split: option.splits)
  from queue_18_mutual_exclusion[OF m(1) m(2) m(2)] m(1) show ?thesis by blast
qed

end
