(* ===== verification/Queue_Test.thy ===== *)
theory Queue_Test
  imports Queue_Props
begin

text \<open>
  The test programs of the queues of 17, \<open>test_queue.c\<close>: two sources put \<open>N\<close> items each, the main
  thread gets until it has all of them. The same program runs on the queue that returns NULL when
  it is empty (01) and on the one that waits (02). The threads use the monitor of \<open>Queue_Monitor\<close>;
  here each of them makes its own sequence of calls and keeps its own counter.
\<close>

section \<open>The program\<close>

definition TEST_N :: nat where "TEST_N = 10000"

text \<open>Thread 0 is \<open>main\<close>, 1 and 2 are the sources; \<open>tq_i\<close> is main's \<open>i\<close>, \<open>tq_sent\<close> that of a source.\<close>

record queue_test =
  tq_mon :: "(queue, queue_op, ptr) monitor"
  tq_i :: nat
  tq_sent :: "tid \<Rightarrow> nat"
  tq_out :: string

definition start_test :: "queue \<Rightarrow> queue_test" where
  "start_test q = \<lparr>tq_mon = start_monitor q, tq_i = 0, tq_sent = (\<lambda>_. 0), tq_out = []\<rparr>"

text \<open>When a thread may begin a call: the tests of the two loops. An item is what \<open>malloc\<close> returned.\<close>

fun may_call :: "nat \<Rightarrow> queue_op event \<Rightarrow> queue_test \<Rightarrow> bool" where
  "may_call n (Calls t x) s =
     (case x of
        Get \<Rightarrow> t = 0 \<and> tq_i s < 2 * n
      | Put node item \<Rightarrow> (t = 1 \<or> t = 2) \<and> tq_sent s t < n \<and> item \<noteq> NULL
      | Size \<Rightarrow> False)"
| "may_call n e s = True"

text \<open>What a thread does with the result of a call.\<close>

fun returns_from :: "queue_op event \<Rightarrow> queue_test \<Rightarrow> queue_test" where
  "returns_from (Unlocks t) s =
     (case pcs (tq_mon s) t of
        Leaving Get pi \<Rightarrow>
          (if pi \<noteq> NULL then s\<lparr>tq_i := tq_i s + 1, tq_out := tq_out s @ ''.''\<rparr>
           else s\<lparr>tq_out := tq_out s @ ''_''\<rparr>)
      | Leaving (Put node item) r \<Rightarrow> s\<lparr>tq_sent := (tq_sent s)(t := tq_sent s t + 1)\<rparr>
      | _ \<Rightarrow> s)"
| "returns_from e s = s"

definition test_step :: "(queue_op \<Rightarrow> queue \<Rightarrow> c_error + (queue, ptr) outcome) \<Rightarrow> nat \<Rightarrow> queue_op event \<Rightarrow> queue_test
    \<Rightarrow> queue_test option" where
  "test_step body n e s =
     (if may_call n e s
      then map_option (\<lambda>m. (returns_from e s)\<lparr>tq_mon := m\<rparr>) (mon_step body valid_17 e (tq_mon s))
      else None)"

fun test_run :: "(queue_op \<Rightarrow> queue \<Rightarrow> c_error + (queue, ptr) outcome) \<Rightarrow> nat \<Rightarrow> queue_op event list \<Rightarrow> queue_test
    \<Rightarrow> queue_test option" where
  "test_run body n [] s = Some s"
| "test_run body n (e # es) s = Option.bind (test_step body n e s) (test_run body n es)"

definition test_queue_01 :: "queue \<Rightarrow> queue_op event list \<Rightarrow> (c_error + queue_test) option" where
  "test_queue_01 q0 es = (case queue_init q0 of
      Inl e \<Rightarrow> Some (Inl e)
    | Inr q \<Rightarrow> map_option Inr (test_run body_01 TEST_N es (start_test q)))"

definition test_queue_02 :: "queue \<Rightarrow> queue_op event list \<Rightarrow> (c_error + queue_test) option" where
  "test_queue_02 q0 es = (case queue_init q0 of
      Inl e \<Rightarrow> Some (Inl e)
    | Inr q \<Rightarrow> map_option Inr (test_run body_02 TEST_N es (start_test q)))"

section \<open>Where the threads are\<close>

fun pc_op :: "('o, 'r) pc \<Rightarrow> 'o option" where
  "pc_op Outside = None"
| "pc_op (Locking x) = Some x"
| "pc_op (Inside x) = Some x"
| "pc_op (Asleep x) = Some x"
| "pc_op (Leaving x r) = Some x"

lemma pc_op_wake [simp]: "pc_op (pcs (wake_up ts m) t) = pc_op (pcs m t)"
  by (simp split: pc.splits)

definition leaving_item :: "('o, ptr) pc \<Rightarrow> nat" where
  "leaving_item p = (case p of Leaving x r \<Rightarrow> if r \<noteq> NULL then 1 else 0 | _ \<Rightarrow> 0)"

definition leaving_any :: "('o, ptr) pc \<Rightarrow> nat" where
  "leaving_any p = (case p of Leaving x r \<Rightarrow> 1 | _ \<Rightarrow> 0)"

lemma leaving_wake [simp]:
  "leaving_item (pcs (wake_up ts m) t) = leaving_item (pcs m t)" "leaving_any (pcs (wake_up ts m) t) = leaving_any (pcs m t)"
  by (simp_all add: leaving_item_def leaving_any_def split: pc.splits)

definition leaving_null :: "('o, ptr) pc \<Rightarrow> nat" where
  "leaving_null p = (case p of Leaving x r \<Rightarrow> if r = NULL then 1 else 0 | _ \<Rightarrow> 0)"

lemma leaving_null_wake [simp]: "leaving_null (pcs (wake_up ts m) t) = leaving_null (pcs m t)"
  by (simp add: leaving_null_def split: pc.splits)

definition got :: "(queue_op \<times> ptr) list \<Rightarrow> ptr list" where
  "got h = filter (\<lambda>r. r \<noteq> NULL) (gets h)"

definition roles :: "nat \<Rightarrow> queue_test \<Rightarrow> bool" where
  "roles n s \<longleftrightarrow>
     (case pc_op (pcs (tq_mon s) 0) of None \<Rightarrow> tq_i s \<le> 2 * n | Some x \<Rightarrow> x = Get \<and> tq_i s < 2 * n)
     \<and> (\<forall>t\<in>{1, 2}. case pc_op (pcs (tq_mon s) t) of None \<Rightarrow> tq_sent s t \<le> n
          | Some x \<Rightarrow> (\<exists>node item. x = Put node item \<and> item \<noteq> NULL) \<and> tq_sent s t < n)
     \<and> (\<forall>t. t > 2 \<longrightarrow> pc_op (pcs (tq_mon s) t) = None)"

definition books :: "queue_test \<Rightarrow> bool" where
  "books s \<longleftrightarrow> length (got (history (tq_mon s))) = tq_i s + leaving_item (pcs (tq_mon s) 0)
     \<and> length (puts (history (tq_mon s))) = (\<Sum>t\<in>{1, 2}. tq_sent s t + leaving_any (pcs (tq_mon s) t))
     \<and> NULL \<notin> set (puts (history (tq_mon s)))
     \<and> count_list (gets (history (tq_mon s))) NULL = count_list (tq_out s) (CHR ''_'') + leaving_null (pcs (tq_mon s) 0)
     \<and> count_list (tq_out s) (CHR ''.'') = tq_i s"

lemma puts_gets_snoc [simp]:
  "puts (h @ [(x, r)]) = puts h @ (case x of Put node item \<Rightarrow> [item] | _ \<Rightarrow> [])"
  "gets (h @ [(x, r)]) = gets h @ (if x = Get then [r] else [])"
  by (simp_all add: puts_def gets_def List.map_filter_def split: queue_op.splits)

lemma leaving_simps [simp]:
  "leaving_item Outside = 0" "leaving_item (Locking x) = 0" "leaving_item (Inside x) = 0" "leaving_item (Asleep x) = 0"
  "leaving_item (Leaving x r) = (if r \<noteq> NULL then 1 else 0)"
  "leaving_any Outside = 0" "leaving_any (Locking x) = 0" "leaving_any (Inside x) = 0" "leaving_any (Asleep x) = 0"
  "leaving_any (Leaving x r) = 1"
  "leaving_null Outside = 0" "leaving_null (Locking x) = 0" "leaving_null (Inside x) = 0" "leaving_null (Asleep x) = 0"
  "leaving_null (Leaving x r) = (if r = NULL then 1 else 0)"
  by (simp_all add: leaving_item_def leaving_any_def leaving_null_def)

text \<open>Which thread has which call under way.\<close>

lemma role_cases:
  assumes "roles n s" "pc_op (pcs (tq_mon s) t) = Some x"
  obtains "t = 0" "x = Get" "tq_i s < 2 * n"
  | node item where "t = 1 \<or> t = 2" "x = Put node item" "item \<noteq> NULL" "tq_sent s t < n"
proof -
  have "\<not> t > 2" using assms by (auto simp: roles_def)
  then have "t = 0 \<or> t = 1 \<or> t = 2" by auto
  then show ?thesis using assms that by (auto simp: roles_def)
qed

text \<open>A body that completes enters the books.\<close>

lemma complete_keeps:
  assumes "roles n s" "books s" "pcs (tq_mon s) t = Inside x"
  shows "roles n (s\<lparr>tq_mon := wake_up ts (complete t x q r (tq_mon s))\<rparr>)"
    "books (s\<lparr>tq_mon := wake_up ts (complete t x q r (tq_mon s))\<rparr>)"
proof -
  have op: "pc_op (pcs (tq_mon s) t) = Some x" using assms(3) by simp
  have "roles n (s\<lparr>tq_mon := wake_up ts (complete t x q r (tq_mon s))\<rparr>)
    \<and> books (s\<lparr>tq_mon := wake_up ts (complete t x q r (tq_mon s))\<rparr>)"
    using role_cases[OF assms(1) op]
  proof cases
    case 1
    then show ?thesis using assms
      by (auto cong: option.case_cong simp: roles_def books_def got_def simp del: wake_up_fields(6))
  next
    case 2
    then show ?thesis using assms
      by (auto cong: option.case_cong simp: roles_def books_def got_def simp del: wake_up_fields(6))
  qed
  then show "roles n (s\<lparr>tq_mon := wake_up ts (complete t x q r (tq_mon s))\<rparr>)"
    "books (s\<lparr>tq_mon := wake_up ts (complete t x q r (tq_mon s))\<rparr>)" by blast+
qed

lemma test_step_keeps:
  assumes "roles n s" "books s" "test_step body n e s = Some s'"
  shows "roles n s' \<and> books s'"
proof (cases e)
  case (Calls t x)
  then obtain m where m: "pcs (tq_mon s) t = Outside" "s' = s\<lparr>tq_mon := (tq_mon s)\<lparr>pcs := (pcs (tq_mon s))(t := Locking x)\<rparr>\<rparr>"
    "may_call n e s" using assms(3) by (auto simp: test_step_def split: if_splits pc.splits)
  then show ?thesis using assms(1,2) Calls
    by (cases x) (auto cong: option.case_cong simp: roles_def books_def)
next
  case (Locks t)
  then obtain x where m: "pcs (tq_mon s) t = Locking x"
    "s' = s\<lparr>tq_mon := (tq_mon s)\<lparr>owner := Some t, pcs := (pcs (tq_mon s))(t := Inside x)\<rparr>\<rparr>"
    using assms(3) by (auto simp: test_step_def split: if_splits pc.splits)
  have op: "pc_op (pcs (tq_mon s) t) = Some x" using m(1) by simp
  from role_cases[OF assms(1) op] show ?thesis
    by cases (use assms(1,2) m in \<open>auto cong: option.case_cong simp: roles_def books_def\<close>)
next
  case (Runs t w)
  then obtain x where x: "pcs (tq_mon s) t = Inside x" "valid_17 x (data (tq_mon s))"
    using assms(3) by (auto simp: test_step_def split: if_splits pc.splits)
  show ?thesis
  proof (cases "body x (data (tq_mon s))")
    case (Inl err)
    then have "s' = s\<lparr>tq_mon := (tq_mon s)\<lparr>failure := Some err\<rparr>\<rparr>" using assms(3) Runs x by (simp add: test_step_def)
    then show ?thesis using assms(1,2) by (simp cong: option.case_cong add: roles_def books_def)
  next
    case (Inr out)
    show ?thesis
    proof (cases out)
      case Blocks
      then have "s' = s\<lparr>tq_mon := (tq_mon s)\<lparr>owner := None, asleep := asleep (tq_mon s) @ [t],
          pcs := (pcs (tq_mon s))(t := Asleep x)\<rparr>\<rparr>"
        using assms(3) Runs x Inr by (auto simp: test_step_def split: if_splits)
      moreover have op: "pc_op (pcs (tq_mon s) t) = Some x" using x(1) by simp
      from role_cases[OF assms(1) op] have "roles n (s\<lparr>tq_mon := (tq_mon s)\<lparr>owner := None, asleep := asleep (tq_mon s) @ [t],
          pcs := (pcs (tq_mon s))(t := Asleep x)\<rparr>\<rparr>)
        \<and> books (s\<lparr>tq_mon := (tq_mon s)\<lparr>owner := None, asleep := asleep (tq_mon s) @ [t],
          pcs := (pcs (tq_mon s))(t := Asleep x)\<rparr>\<rparr>)"
        by cases (use assms(1,2) x(1) in \<open>auto cong: option.case_cong simp: roles_def books_def\<close>)
      ultimately show ?thesis by simp
    next
      case (Completes q r k)
      then obtain ts where "s' = s\<lparr>tq_mon := wake_up ts (complete t x q r (tq_mon s))\<rparr>"
        using assms(3) Runs x Inr by (auto simp: test_step_def)
      then show ?thesis using complete_keeps[OF assms(1,2) x(1)] by simp
    qed
  qed
next
  case (Unlocks t)
  then obtain x r where x: "pcs (tq_mon s) t = Leaving x r"
    "s' = (returns_from e s)\<lparr>tq_mon := (tq_mon s)\<lparr>owner := None, pcs := (pcs (tq_mon s))(t := Outside)\<rparr>\<rparr>"
    using assms(3) by (auto simp: test_step_def split: pc.splits)
  have op: "pc_op (pcs (tq_mon s) t) = Some x" using x(1) by simp
  from role_cases[OF assms(1) op] show ?thesis
  proof cases
    case 1
    then show ?thesis using assms(1,2) x Unlocks by (auto cong: option.case_cong simp: roles_def books_def)
  next
    case 2
    then show ?thesis using assms(1,2) x Unlocks by (auto cong: option.case_cong simp: roles_def books_def)
  qed
next
  case (Wakes t)
  then have "s' = s\<lparr>tq_mon := wake_up [t] (tq_mon s)\<rparr>"
    using assms(3) by (auto simp: test_step_def split: if_splits)
  then show ?thesis using assms(1,2)
    by (auto cong: option.case_cong simp: roles_def books_def simp del: wake_up_fields(6))
qed

lemma test_run_mon:
  assumes "test_run body n es s = Some s'"
  shows "mon_run body valid_17 es (tq_mon s) = Some (tq_mon s')"
  using assms
proof (induction es arbitrary: s)
  case (Cons e es)
  then obtain s1 where "test_step body n e s = Some s1" "test_run body n es s1 = Some s'" by (auto split: bind_splits)
  then show ?case using Cons.IH[of s1] by (auto simp: test_step_def split: if_splits)
qed simp

lemma test_run_keeps:
  "test_run body n es s = Some s' \<Longrightarrow> roles n s \<Longrightarrow> books s \<Longrightarrow> roles n s' \<and> books s'"
  by (induction es arbitrary: s) (auto split: bind_splits dest: test_step_keeps)

lemma start_keeps: "roles n (start_test q)" "books (start_test q)"
  by (simp_all add: roles_def books_def start_test_def start_monitor_def got_def)

section \<open>What the test shows\<close>

lemma sent_bound:
  assumes "roles n s" "t = 1 \<or> t = 2"
  shows "tq_sent s t + leaving_any (pcs (tq_mon s) t) \<le> n"
  using assms by (cases "pcs (tq_mon s) t") (auto simp: roles_def)

lemma all_delivered:
  assumes r: "roles n s" and b: "books s" and q: "got (history (tq_mon s)) @ xs = puts (history (tq_mon s))"
  shows "tq_i s \<le> 2 * n" "tq_i s = 2 * n \<Longrightarrow> xs = [] \<and> length (puts (history (tq_mon s))) = 2 * n"
proof -
  show i: "tq_i s \<le> 2 * n" using r by (auto simp: roles_def split: option.splits)
  assume n: "tq_i s = 2 * n"
  have p: "length (puts (history (tq_mon s))) \<le> 2 * n"
    using b sent_bound[OF r, of 1] sent_bound[OF r, of 2] by (simp add: books_def)
  have "2 * n \<le> length (got (history (tq_mon s)))" using b n by (simp add: books_def)
  moreover have "length (got (history (tq_mon s))) + length xs = length (puts (history (tq_mon s)))"
    using arg_cong[OF q, of length] by simp
  ultimately have "length xs = 0" "length (puts (history (tq_mon s))) = 2 * n" using p by linarith+
  then show "xs = [] \<and> length (puts (history (tq_mon s))) = 2 * n" by simp
qed

lemma main_asleep:
  assumes r: "roles n s" and b: "books s" and q: "got (history (tq_mon s)) @ xs = puts (history (tq_mon s))"
    and sl: "pcs (tq_mon s) 0 = Asleep x" and c: "length xs \<le> card (awake is_get (tq_mon s))"
  shows "xs = [] \<and> (\<exists>t\<in>{1, 2}. tq_sent s t < n)"
proof -
  have "t \<notin> awake is_get (tq_mon s)" for t
  proof
    assume a: "t \<in> awake is_get (tq_mon s)"
    then have op: "pc_op (pcs (tq_mon s) t) = Some Get" unfolding awake_def is_get_def
      by (cases "pcs (tq_mon s) t") simp_all
    have "t \<noteq> 0"
    proof
      assume "t = 0"
      then show False using a sl by (simp add: awake_def)
    qed
    from role_cases[OF r op] this show False by cases simp_all
  qed
  then have xs: "xs = []" using c by (metis all_not_in_conv card.empty le_zero_eq length_0_conv)
  have "tq_i s < 2 * n" using r sl by (auto simp: roles_def)
  then have "(\<Sum>t\<in>{1, 2}. tq_sent s t) < 2 * n" using b q xs sl by (auto simp: books_def)
  then show ?thesis using xs by auto
qed

text \<open>C18: The test of the waiting queue of 17 delivers every item: in every schedule what \<open>main\<close> has
  got is what the sources have put, in that order, without a single NULL; when \<open>main\<close>'s loop ends,
  the queue is empty and all 20000 items have arrived; and when \<open>main\<close> sleeps, the queue is empty
  and a source still has items to put, so the test cannot deadlock in \<open>queue_get\<close>.\<close>

theorem queue_test_delivers:
  assumes "q_head q0 \<in> dom (q_links q0)" "q_items q0 = Map.empty" "test_queue_02 q0 es = Some r"
  shows "\<exists>s xs. r = Inr s \<and> failure (tq_mon s) = None \<and> queue_rep (data (tq_mon s)) xs
    \<and> gets (history (tq_mon s)) @ xs = puts (history (tq_mon s))
    \<and> CHR ''_'' \<notin> set (tq_out s) \<and> tq_i s \<le> 20000
    \<and> (tq_i s = 20000 \<longrightarrow> xs = [] \<and> length (puts (history (tq_mon s))) = 20000)
    \<and> (0 \<in> set (asleep (tq_mon s)) \<longrightarrow> xs = [] \<and> (\<exists>t\<in>{1, 2}. tq_sent s t < 10000))"
proof -
  obtain q where q: "queue_init q0 = Inr q" "queue_rep q []" using queue_init_ok[OF assms(1,2)] by blast
  obtain s where s: "r = Inr s" "test_run body_02 TEST_N es (start_test q) = Some s"
    using assms(3) q(1) by (auto simp: test_queue_02_def)
  have rb: "roles TEST_N s" "books s" using test_run_keeps[OF s(2) start_keeps] by blast+
  have m: "mon_run body_02 valid_17 es (start_monitor q) = Some (tq_mon s)"
    using test_run_mon[OF s(2)] by (simp add: start_test_def)
  from q02.no_lost_wakeup[OF q(2) m] obtain xs where
    xs: "queue_rep (data (tq_mon s)) xs" "replay fifo_spec [] (history (tq_mon s)) = Some xs"
    "asleep (tq_mon s) \<noteq> [] \<longrightarrow> length xs \<le> card (awake is_get (tq_mon s))" by blast
  have f: "gets (history (tq_mon s)) @ xs = puts (history (tq_mon s))" using replay_fifo[OF xs(2)] by simp
  have nn: "NULL \<notin> set (gets (history (tq_mon s)))" 
  proof -
    have "set (gets (history (tq_mon s))) \<subseteq> set (puts (history (tq_mon s)))" unfolding f[symmetric] by simp
    then show ?thesis using rb(2) by (auto simp: books_def)
  qed
  then have "filter (\<lambda>r. r \<noteq> NULL) (gets (history (tq_mon s))) = gets (history (tq_mon s))"
    by (metis (mono_tags, lifting) filter_True)
  then have g: "got (history (tq_mon s)) @ xs = puts (history (tq_mon s))" using f by (simp add: got_def)
  have "count_list (gets (history (tq_mon s))) NULL = 0" using nn by (subst count_list_0_iff)
  then have "count_list (tq_out s) (CHR ''_'') = 0" using rb(2) by (simp add: books_def)
  then have "CHR ''_'' \<notin> set (tq_out s)" by (subst (asm) count_list_0_iff)
  moreover have "xs = [] \<and> (\<exists>t\<in>{1, 2}. tq_sent s t < TEST_N)" if "0 \<in> set (asleep (tq_mon s))"
  proof -
    have "is_asleep (pcs (tq_mon s) 0)" using mon_okD(2)[OF mon_run_ok[OF m]] that by blast
    then obtain x where "pcs (tq_mon s) 0 = Asleep x" by (auto simp: is_asleep_def split: pc.splits)
    from main_asleep[OF rb g this] xs(3) that show ?thesis by auto
  qed
  ultimately show ?thesis
    using s(1) q02.run_history[OF q(2) m] xs(1) f all_delivered[OF rb g]
    by (auto simp: TEST_N_def)
qed

text \<open>Source 1 finds \<open>main\<close> asleep in an empty queue and wakes it.\<close>

definition test_events :: "queue_op event list" where
  "test_events = [Calls 0 Get, Locks 0, Runs 0 None, Calls 1 (Put 0x1000 77), Locks 1, Calls 2 (Put 0x2000 88),
     Runs 1 (Some 0), Unlocks 1, Locks 2, Runs 2 None, Unlocks 2, Locks 0, Runs 0 None, Unlocks 0]"

lemma queue_test_delivers_witness:
  "\<exists>s xs. test_queue_02 demo_queue0 test_events = Some (Inr s) \<and> tq_i s = 1 \<and> tq_out s = ''.''
    \<and> gets (history (tq_mon s)) @ xs = puts (history (tq_mon s)) \<and> queue_rep (data (tq_mon s)) xs"
proof -
  have "case test_queue_02 demo_queue0 test_events of Some (Inr s) \<Rightarrow> tq_i s = 1 \<and> tq_out s = ''.'' | _ \<Rightarrow> False"
    by code_simp
  then obtain s where s: "test_queue_02 demo_queue0 test_events = Some (Inr s)" "tq_i s = 1" "tq_out s = ''.''"
    by (auto split: option.splits sum.splits)
  have "q_head demo_queue0 \<in> dom (q_links demo_queue0)" "q_items demo_queue0 = Map.empty"
    by (simp_all add: demo_queue0_def)
  from queue_test_delivers[OF this s(1)] s show ?thesis by auto
qed

text \<open>The same test on the queue that does not wait: \<open>main\<close> may see NULL and prints \<open>_\<close> for it, but
  the items come all the same.\<close>

theorem queue_test_01_delivers:
  assumes "q_head q0 \<in> dom (q_links q0)" "q_items q0 = Map.empty" "test_queue_01 q0 es = Some r"
  shows "\<exists>s xs. r = Inr s \<and> failure (tq_mon s) = None \<and> queue_rep (data (tq_mon s)) xs
    \<and> got (history (tq_mon s)) @ xs = puts (history (tq_mon s)) \<and> count_list (tq_out s) (CHR ''.'') = tq_i s
    \<and> (tq_i s = 20000 \<longrightarrow> xs = [] \<and> length (puts (history (tq_mon s))) = 20000)"
proof -
  obtain q where q: "queue_init q0 = Inr q" "queue_rep q []" using queue_init_ok[OF assms(1,2)] by blast
  obtain s where s: "r = Inr s" "test_run body_01 TEST_N es (start_test q) = Some s"
    using assms(3) q(1) by (auto simp: test_queue_01_def)
  have rb: "roles TEST_N s" "books s" using test_run_keeps[OF s(2) start_keeps] by blast+
  have m: "mon_run body_01 valid_17 es (start_monitor q) = Some (tq_mon s)"
    using test_run_mon[OF s(2)] by (simp add: start_test_def)
  from q01.run_history[OF q(2) m] obtain xs where
    xs: "queue_rep (data (tq_mon s)) xs" "replay fifo_spec_01 [] (history (tq_mon s)) = Some xs" "failure (tq_mon s) = None"
    by blast
  have f: "got (history (tq_mon s)) @ xs = puts (history (tq_mon s))"
    using replay_fifo_01[OF xs(2)] rb(2) by (simp add: books_def got_def)
  show ?thesis using s(1) xs f rb(2) all_delivered[OF rb f] by (auto simp: TEST_N_def books_def)
qed

lemma queue_test_01_delivers_witness:
  "\<exists>s xs. test_queue_01 demo_queue0 [Calls 0 Get, Locks 0, Runs 0 None, Unlocks 0] = Some (Inr s) \<and> tq_out s = ''_''
    \<and> got (history (tq_mon s)) @ xs = puts (history (tq_mon s))"
proof -
  have "case test_queue_01 demo_queue0 [Calls 0 Get, Locks 0, Runs 0 None, Unlocks 0] of
      Some (Inr s) \<Rightarrow> tq_out s = ''_'' | _ \<Rightarrow> False"
    by code_simp
  then obtain s where s: "test_queue_01 demo_queue0 [Calls 0 Get, Locks 0, Runs 0 None, Unlocks 0] = Some (Inr s)" "tq_out s = ''_''"
    by (auto split: option.splits sum.splits)
  have "q_head demo_queue0 \<in> dom (q_links demo_queue0)" "q_items demo_queue0 = Map.empty"
    by (simp_all add: demo_queue0_def)
  from queue_test_01_delivers[OF this s(1)] s show ?thesis by auto
qed

end
