(* ===== verification/Latch_Monitor.thy ===== *)
theory Latch_Monitor
  imports Monitor_Contract
begin

text \<open>
  The countdown latches of \<open>17-pthreads-monitors/03-countdownlatch\<close> and \<open>18-thread-pool\<close>: a
  counter under a mutex; \<open>await\<close> waits until it is zero, and the call that brings it to zero
  broadcasts. The two files differ in the name of the counter only.
\<close>

record latch_17 =
  cdl_count :: int

record latch =
  cdl_counter :: int

datatype latch_op = Countdown | Await

definition countdownlatch_init_17 :: "int \<Rightarrow> latch_17" where
  "countdownlatch_init_17 initial_count = \<lparr>cdl_count = initial_count\<rparr>"

definition countdownlatch_countdown_17 :: "latch_17 \<Rightarrow> c_error + (latch_17, unit) outcome" where
  "countdownlatch_countdown_17 cdl =
     (if cdl_count cdl > 0
      then and_then (c_int (cdl_count cdl - 1)) (\<lambda>n.
        let cdl1 = cdl\<lparr>cdl_count := n\<rparr> in
        Inr (Completes cdl1 () (if cdl_count cdl1 = 0 then Broadcast else NoWake)))
      else Inr (Completes cdl () NoWake))"

definition countdownlatch_await_17 :: "latch_17 \<Rightarrow> c_error + (latch_17, unit) outcome" where
  "countdownlatch_await_17 cdl =
     (if cdl_count cdl > 0 then Inr Blocks else Inr (Completes cdl () NoWake))"

definition countdownlatch_init :: "int \<Rightarrow> latch" where
  "countdownlatch_init initial_count = \<lparr>cdl_counter = initial_count\<rparr>"

definition countdownlatch_countdown :: "latch \<Rightarrow> c_error + (latch, unit) outcome" where
  "countdownlatch_countdown cdl =
     (if cdl_counter cdl > 0
      then and_then (c_int (cdl_counter cdl - 1)) (\<lambda>n.
        let cdl1 = cdl\<lparr>cdl_counter := n\<rparr> in
        Inr (Completes cdl1 () (if cdl_counter cdl1 = 0 then Broadcast else NoWake)))
      else Inr (Completes cdl () NoWake))"

definition countdownlatch_await :: "latch \<Rightarrow> c_error + (latch, unit) outcome" where
  "countdownlatch_await cdl =
     (if cdl_counter cdl > 0 then Inr Blocks else Inr (Completes cdl () NoWake))"

definition latch_body_17 :: "latch_op \<Rightarrow> latch_17 \<Rightarrow> c_error + (latch_17, unit) outcome" where
  "latch_body_17 x cdl = (case x of Countdown \<Rightarrow> countdownlatch_countdown_17 cdl
     | Await \<Rightarrow> countdownlatch_await_17 cdl)"

definition latch_body :: "latch_op \<Rightarrow> latch \<Rightarrow> c_error + (latch, unit) outcome" where
  "latch_body x cdl = (case x of Countdown \<Rightarrow> countdownlatch_countdown cdl
     | Await \<Rightarrow> countdownlatch_await cdl)"

definition any_op :: "latch_op \<Rightarrow> 's \<Rightarrow> bool" where
  "any_op x s = True"

section \<open>The gate\<close>

definition latch_spec :: "latch_op \<Rightarrow> int \<Rightarrow> (int \<times> unit \<times> wake) option" where
  "latch_spec x n = (case x of
      Countdown \<Rightarrow> if n > 0 then Some (n - 1, (), if n = 1 then Broadcast else NoWake) else Some (n, (), NoWake)
    | Await \<Rightarrow> if n > 0 then None else Some (n, (), NoWake))"

definition latch_rep_17 :: "latch_17 \<Rightarrow> int \<Rightarrow> bool" where
  "latch_rep_17 cdl n \<longleftrightarrow> cdl_count cdl = n \<and> in_int n"

definition latch_rep :: "latch \<Rightarrow> int \<Rightarrow> bool" where
  "latch_rep cdl n \<longleftrightarrow> cdl_counter cdl = n \<and> in_int n"

lemmas latch_defs = latch_spec_def latch_rep_def latch_rep_17_def latch_body_def latch_body_17_def
  countdownlatch_countdown_def countdownlatch_countdown_17_def countdownlatch_await_def
  countdownlatch_await_17_def

lemma in_int_pred: "in_int n \<Longrightarrow> 0 < n \<Longrightarrow> in_int (n - 1)"
  by (simp add: c_int_bounds)

interpretation latch17: gate_monitor latch_body_17 any_op latch_spec latch_rep_17 "\<lambda>n. n \<le> 0"
  by unfold_locales
     (auto simp: latch_defs in_int_pred c_int_in Let_def split: latch_op.splits if_splits)

interpretation latch18: gate_monitor latch_body any_op latch_spec latch_rep "\<lambda>n. n \<le> 0"
  by unfold_locales
     (auto simp: latch_defs in_int_pred c_int_in Let_def split: latch_op.splits if_splits)

section \<open>Counting\<close>

definition countdowns :: "(latch_op \<times> unit) list \<Rightarrow> nat" where
  "countdowns h = length (filter (\<lambda>(x, r). x = Countdown) h)"

lemma replay_latch:
  assumes "replay latch_spec n h = Some n'" "0 \<le> n"
  shows "n' = max 0 (n - int (countdowns h))
    \<and> (\<forall>i<length h. fst (h ! i) = Await \<longrightarrow> n \<le> int (countdowns (take i h)))"
  using assms
proof (induction h arbitrary: n)
  case Nil
  then show ?case by (simp add: countdowns_def)
next
  case (Cons y h)
  obtain x r where y: "y = (x, r)" by (cases y)
  from Cons.prems(1) obtain m k where m: "latch_spec x n = Some (m, (), k)" "replay latch_spec m h = Some n'"
    by (auto simp: y split: option.splits)
  have m0: "0 \<le> m" using m(1) Cons.prems(2) by (auto simp: latch_spec_def split: latch_op.splits if_splits)
  note IH = Cons.IH[OF m(2) m0]
  show ?case
  proof (cases x)
    case Countdown
    then have mn: "m = max 0 (n - 1)" using m(1) Cons.prems(2) by (auto simp: latch_spec_def split: if_splits)
    have "fst ((y # h) ! i) = Await \<longrightarrow> n \<le> int (countdowns (take i (y # h)))" if "i < length (y # h)" for i
      using IH that mn Countdown y by (cases i) (auto simp: countdowns_def)
    then show ?thesis using IH mn Countdown y by (auto simp: countdowns_def)
  next
    case Await
    then have mn: "m = n" "n = 0" using m(1) Cons.prems(2) by (auto simp: latch_spec_def split: if_splits)
    have "fst ((y # h) ! i) = Await \<longrightarrow> n \<le> int (countdowns (take i (y # h)))" if "i < length (y # h)" for i
      using mn by simp
    then show ?thesis using IH mn Await y by (auto simp: countdowns_def)
  qed
qed

text \<open>C32: The countdown latch of 18: however the threads interleave, an \<open>await\<close> returns only after
  as many countdowns as the initial count, the counter never goes below zero, and once it is
  zero no thread is left asleep on the latch.\<close>

theorem latch_18_opens:
  assumes "0 \<le> n" "n \<le> INT_MAX"
    and "mon_run latch_body any_op es (start_monitor (countdownlatch_init n)) = Some m"
  shows "failure m = None \<and> cdl_counter (data m) = max 0 (n - int (countdowns (history m)))
    \<and> (\<forall>i<length (history m). fst (history m ! i) = Await \<longrightarrow> n \<le> int (countdowns (take i (history m))))
    \<and> (cdl_counter (data m) = 0 \<longrightarrow> asleep m = [])"
proof -
  have r: "latch_rep (countdownlatch_init n) n"
    using assms(1,2) by (simp add: latch_rep_def countdownlatch_init_def c_int_bounds)
  from latch18.nobody_left_asleep[OF r assms(3)] obtain a where
    a: "latch_rep (data m) a" "replay latch_spec n (history m) = Some a" "a \<le> 0 \<longrightarrow> asleep m = []" by blast
  from latch18.run_history[OF r assms(3)] replay_latch[OF a(2) assms(1)] a(1,3) show ?thesis
    by (simp add: latch_rep_def)
qed

definition latch_run :: "latch_op event list" where
  "latch_run = [Calls 1 Await, Locks 1, Runs 1 None, Calls 2 Countdown, Locks 2, Runs 2 None, Unlocks 2,
     Wakes 1, Locks 1, Runs 1 None, Calls 3 Countdown, Locks 3, Runs 3 None, Unlocks 3,
     Locks 1, Runs 1 None, Unlocks 1]"

lemma latch_18_opens_witness:
  "\<exists>m. mon_run latch_body any_op latch_run (start_monitor (countdownlatch_init 2)) = Some m
    \<and> length (history m) = 3 \<and> cdl_counter (data m) = 0 \<and> asleep m = []"
proof -
  have "case mon_run latch_body any_op latch_run (start_monitor (countdownlatch_init 2)) of
      None \<Rightarrow> False | Some m \<Rightarrow> length (history m) = 3 \<and> countdowns (history m) = 2"
    by code_simp
  then obtain m where m: "mon_run latch_body any_op latch_run (start_monitor (countdownlatch_init 2)) = Some m"
    "length (history m) = 3" "countdowns (history m) = 2" by (auto split: option.splits)
  have "(0::int) \<le> 2" "2 \<le> INT_MAX" by (simp_all add: INT_MAX_def)
  from latch_18_opens[OF this m(1)] m show ?thesis by auto
qed

text \<open>The latch of 17 keeps the same promise.\<close>

theorem latch_17_opens:
  assumes "0 \<le> n" "n \<le> INT_MAX"
    and "mon_run latch_body_17 any_op es (start_monitor (countdownlatch_init_17 n)) = Some m"
  shows "failure m = None \<and> cdl_count (data m) = max 0 (n - int (countdowns (history m)))
    \<and> (\<forall>i<length (history m). fst (history m ! i) = Await \<longrightarrow> n \<le> int (countdowns (take i (history m))))
    \<and> (cdl_count (data m) = 0 \<longrightarrow> asleep m = [])"
proof -
  have r: "latch_rep_17 (countdownlatch_init_17 n) n"
    using assms(1,2) by (simp add: latch_rep_17_def countdownlatch_init_17_def c_int_bounds)
  from latch17.nobody_left_asleep[OF r assms(3)] obtain a where
    a: "latch_rep_17 (data m) a" "replay latch_spec n (history m) = Some a" "a \<le> 0 \<longrightarrow> asleep m = []" by blast
  from latch17.run_history[OF r assms(3)] replay_latch[OF a(2) assms(1)] a(1,3) show ?thesis
    by (simp add: latch_rep_17_def)
qed

lemma latch_17_opens_witness:
  "\<exists>m. mon_run latch_body_17 any_op latch_run (start_monitor (countdownlatch_init_17 2)) = Some m
    \<and> length (history m) = 3 \<and> cdl_count (data m) = 0 \<and> asleep m = []"
proof -
  have "case mon_run latch_body_17 any_op latch_run (start_monitor (countdownlatch_init_17 2)) of
      None \<Rightarrow> False | Some m \<Rightarrow> length (history m) = 3 \<and> countdowns (history m) = 2"
    by code_simp
  then obtain m where m: "mon_run latch_body_17 any_op latch_run (start_monitor (countdownlatch_init_17 2)) = Some m"
    "length (history m) = 3" "countdowns (history m) = 2" by (auto split: option.splits)
  have "(0::int) \<le> 2" "2 \<le> INT_MAX" by (simp_all add: INT_MAX_def)
  from latch_17_opens[OF this m(1)] m show ?thesis by auto
qed

end
