(* ===== verification/Thread_Pool.thy ===== *)
theory Thread_Pool
  imports Queue_Monitor "HOL-Library.Multiset"
begin

text \<open>
  \<open>thread_pool.c\<close> of 18 (20-03 has a copy): workers that take work items from the queue of 18
  until they get a death pill. A step is one operation of the queue, which the contract of
  the queue makes atomic, or one access of the flag \<open>stopped\<close>, which nothing protects. Any
  number of clients call \<open>thread_pool_submit\<close> and \<open>thread_pool_stop\<close>; each has a program counter.
\<close>

section \<open>State\<close>

datatype task = DEATH_PILL | Function ptr

record workitem =
  wi_action :: task
  wi_arg :: ptr

datatype worker = AtGet | Executing task ptr | Exited

datatype client = Idle | Submitting task ptr | Stopping | Pilling nat

record thread_pool =
  stopped :: bool
  nthreads :: nat
  work_queue :: queue
  workitems :: "ptr \<rightharpoonup> workitem"
  workers :: "worker list"
  clients :: "nat \<Rightarrow> client"
  submitted :: "(task \<times> ptr) list"    \<comment> \<open>accepted and queued, in order\<close>
  executed :: "(task \<times> ptr) list"

text \<open>
  Events: client \<open>c\<close> calls \<open>thread_pool_submit\<close> (\<open>Submit\<close>: the test of \<open>stopped\<close>; \<open>Enqueue\<close>: the
  rest, with the addresses \<open>malloc\<close> returns for work item and node) or \<open>thread_pool_stop\<close>
  (\<open>Stop\<close>: the test; \<open>SetStopped\<close>; \<open>Pill\<close>: one turn of the loop; \<open>StopReturns\<close>); worker \<open>w\<close> takes
  an item or runs it.
\<close>

datatype pool_event =
    Submit nat task ptr | Enqueue nat ptr ptr
  | Stop nat | SetStopped nat | Pill nat ptr ptr | StopReturns nat
  | TakeItem nat | RunItem nat

section \<open>Operations\<close>

definition thread_pool_init :: "queue \<Rightarrow> nat \<Rightarrow> c_error + thread_pool" where
  "thread_pool_init q0 n = and_then (queue_init q0) (\<lambda>q.
     Inr \<lparr>stopped = False, nthreads = n, work_queue = q, workitems = Map.empty,
          workers = replicate n AtGet, clients = (\<lambda>_. Idle), submitted = [], executed = []\<rparr>)"

definition thread_pool_internal_submit :: "thread_pool \<Rightarrow> task \<Rightarrow> ptr \<Rightarrow> ptr \<Rightarrow> ptr
    \<Rightarrow> c_error + thread_pool" where
  "thread_pool_internal_submit tp action arg wi node =
     (if wi = NULL then Inl InvalidAccess
      else
        let tp1 = tp\<lparr>workitems := (workitems tp)(wi \<mapsto> \<lparr>wi_action = action, wi_arg = arg\<rparr>)\<rparr> in
        and_then (queue_put (work_queue tp1) node wi) (\<lambda>out.
          case out of
            Blocks \<Rightarrow> Inl NoReturn
          | Completes q r k \<Rightarrow> Inr (tp1\<lparr>work_queue := q\<rparr>)))"

definition thread_pool_submit :: "thread_pool \<Rightarrow> nat \<Rightarrow> task \<Rightarrow> ptr \<Rightarrow> thread_pool \<times> bool" where
  "thread_pool_submit tp c action arg =
     (if \<not> stopped tp then (tp\<lparr>clients := (clients tp)(c := Submitting action arg)\<rparr>, True)
      else (tp, False))"

definition thread_pool_stop :: "thread_pool \<Rightarrow> nat \<Rightarrow> thread_pool" where
  "thread_pool_stop tp c =
     (if \<not> stopped tp then tp\<lparr>clients := (clients tp)(c := Stopping)\<rparr> else tp)"

text \<open>One turn of the pill loop: \<open>i\<close> is an \<open>int\<close>.\<close>

definition stop_loop :: "thread_pool \<Rightarrow> nat \<Rightarrow> nat \<Rightarrow> ptr \<Rightarrow> ptr \<Rightarrow> c_error + thread_pool" where
  "stop_loop tp c i wi node =
     and_then (thread_pool_internal_submit tp DEATH_PILL NULL wi node) (\<lambda>tp1.
     and_then (c_int (int i + 1)) (\<lambda>i1.
       Inr (tp1\<lparr>clients := (clients tp1)(c := Pilling (nat i1))\<rparr>)))"

text \<open>One turn of the loop of \<open>thread_pool_worker\<close>, up to the call of the action; \<open>None\<close> while
  \<open>queue_get\<close> waits.\<close>

definition thread_pool_worker :: "thread_pool \<Rightarrow> nat \<Rightarrow> (c_error + thread_pool) option" where
  "thread_pool_worker tp w =
     (case queue_get (work_queue tp) of
        Inl e \<Rightarrow> Some (Inl e)
      | Inr Blocks \<Rightarrow> None
      | Inr (Completes q wi k) \<Rightarrow>
          (case workitems tp wi of
             None \<Rightarrow> Some (Inl InvalidAccess)
           | Some it \<Rightarrow>
               Some (Inr (tp\<lparr>work_queue := q, workitems := (workitems tp)(wi := None),
                   workers := (workers tp)[w := (if wi_action it = DEATH_PILL then Exited
                                                 else Executing (wi_action it) (wi_arg it))]\<rparr>))))"

text \<open>\<open>malloc\<close> gives fresh memory.\<close>

definition fresh_item :: "thread_pool \<Rightarrow> ptr \<Rightarrow> ptr \<Rightarrow> bool" where
  "fresh_item tp wi node \<longleftrightarrow> wi \<noteq> NULL \<and> workitems tp wi = None \<and> fresh_node (work_queue tp) node"

fun pool_step :: "pool_event \<Rightarrow> thread_pool \<Rightarrow> (c_error + thread_pool) option" where
  "pool_step (Submit c action arg) tp =
     (if clients tp c = Idle \<and> action \<noteq> DEATH_PILL
      then Some (Inr (fst (thread_pool_submit tp c action arg))) else None)"
| "pool_step (Enqueue c wi node) tp =
     (case clients tp c of
        Submitting action arg \<Rightarrow>
          (if fresh_item tp wi node
           then Some (and_then (thread_pool_internal_submit tp action arg wi node) (\<lambda>tp1.
                  Inr (tp1\<lparr>clients := (clients tp1)(c := Idle), submitted := submitted tp1 @ [(action, arg)]\<rparr>)))
           else None)
      | _ \<Rightarrow> None)"
| "pool_step (Stop c) tp = (if clients tp c = Idle then Some (Inr (thread_pool_stop tp c)) else None)"
| "pool_step (SetStopped c) tp =
     (if clients tp c = Stopping
      then Some (Inr (tp\<lparr>stopped := True, clients := (clients tp)(c := Pilling 0)\<rparr>)) else None)"
| "pool_step (Pill c wi node) tp =
     (case clients tp c of
        Pilling i \<Rightarrow> (if i < nthreads tp \<and> fresh_item tp wi node then Some (stop_loop tp c i wi node) else None)
      | _ \<Rightarrow> None)"
| "pool_step (StopReturns c) tp =
     (case clients tp c of
        Pilling i \<Rightarrow> (if i < nthreads tp then None else Some (Inr (tp\<lparr>clients := (clients tp)(c := Idle)\<rparr>)))
      | _ \<Rightarrow> None)"
| "pool_step (TakeItem w) tp =
     (if w < length (workers tp) \<and> workers tp ! w = AtGet then thread_pool_worker tp w else None)"
| "pool_step (RunItem w) tp =
     (if w < length (workers tp)
      then (case workers tp ! w of
              Executing action arg \<Rightarrow>
                Some (Inr (tp\<lparr>workers := (workers tp)[w := AtGet], executed := executed tp @ [(action, arg)]\<rparr>))
            | _ \<Rightarrow> None)
      else None)"

fun pool_run :: "pool_event list \<Rightarrow> thread_pool \<Rightarrow> (c_error + thread_pool) option" where
  "pool_run [] tp = Some (Inr tp)"
| "pool_run (e # es) tp = (case pool_step e tp of
      None \<Rightarrow> None | Some (Inl err) \<Rightarrow> Some (Inl err) | Some (Inr tp1) \<Rightarrow> pool_run es tp1)"

text \<open>\<open>thread_pool_cleanup\<close> returns once \<open>thread_pool_stop\<close> has returned to its caller \<open>c\<close> and
  every worker can be joined.\<close>

definition cleanup_returns :: "thread_pool \<Rightarrow> nat \<Rightarrow> bool" where
  "cleanup_returns tp c \<longleftrightarrow> stopped tp \<and> clients tp c = Idle \<and> (\<forall>w\<in>set (workers tp). w = Exited)"

section \<open>One client\<close>

text \<open>The programs of the repository use the pool from one thread.\<close>

fun by_main :: "pool_event \<Rightarrow> bool" where
  "by_main (Submit c action arg) = (c = 0)"
| "by_main (Enqueue c wi node) = (c = 0)"
| "by_main (Stop c) = (c = 0)"
| "by_main (SetStopped c) = (c = 0)"
| "by_main (Pill c wi node) = (c = 0)"
| "by_main (StopReturns c) = (c = 0)"
| "by_main (TakeItem w) = True"
| "by_main (RunItem w) = True"

definition pool_rep :: "thread_pool \<Rightarrow> workitem list \<Rightarrow> bool" where
  "pool_rep tp its \<longleftrightarrow> (\<exists>wis. queue_rep (work_queue tp) wis \<and> map (workitems tp) wis = map Some its
     \<and> distinct wis \<and> dom (workitems tp) = set wis)"

definition item :: "task \<times> ptr \<Rightarrow> workitem" where
  "item p = \<lparr>wi_action = fst p, wi_arg = snd p\<rparr>"

definition pill :: workitem where
  "pill = \<lparr>wi_action = DEATH_PILL, wi_arg = NULL\<rparr>"

definition running_items :: "worker list \<Rightarrow> (task \<times> ptr) list" where
  "running_items ws = List.map_filter (\<lambda>w. case w of Executing f x \<Rightarrow> Some (f, x) | _ \<Rightarrow> None) ws"

definition exits :: "worker list \<Rightarrow> nat" where
  "exits ws = length (filter (\<lambda>w. w = Exited) ws)"

definition pool_inv :: "thread_pool \<Rightarrow> (task \<times> ptr) list \<Rightarrow> nat \<Rightarrow> bool" where
  "pool_inv tp its k \<longleftrightarrow> pool_rep tp (map item its @ replicate k pill)
     \<and> length (workers tp) = nthreads tp \<and> int (nthreads tp) \<le> INT_MAX
     \<and> mset (submitted tp) = mset (executed tp) + mset (running_items (workers tp)) + mset its
     \<and> DEATH_PILL \<notin> fst ` set its
     \<and> (exits (workers tp) > 0 \<longrightarrow> its = [])
     \<and> (case clients tp 0 of
          Pilling i \<Rightarrow> stopped tp \<and> i \<le> nthreads tp \<and> k + exits (workers tp) = i
        | Idle \<Rightarrow> k + exits (workers tp) = (if stopped tp then nthreads tp else 0)
        | Submitting f x \<Rightarrow> \<not> stopped tp \<and> k = 0 \<and> exits (workers tp) = 0 \<and> f \<noteq> DEATH_PILL
        | Stopping \<Rightarrow> \<not> stopped tp \<and> k = 0 \<and> exits (workers tp) = 0)"

lemma pool_invD:
  assumes "pool_inv tp its k"
  shows "pool_rep tp (map item its @ replicate k pill)" "length (workers tp) = nthreads tp"
    "int (nthreads tp) \<le> INT_MAX"
    "mset (submitted tp) = mset (executed tp) + mset (running_items (workers tp)) + mset its"
    "DEATH_PILL \<notin> fst ` set its" "exits (workers tp) > 0 \<Longrightarrow> its = []"
    "case clients tp 0 of
          Pilling i \<Rightarrow> stopped tp \<and> i \<le> nthreads tp \<and> k + exits (workers tp) = i
        | Idle \<Rightarrow> k + exits (workers tp) = (if stopped tp then nthreads tp else 0)
        | Submitting f x \<Rightarrow> \<not> stopped tp \<and> k = 0 \<and> exits (workers tp) = 0 \<and> f \<noteq> DEATH_PILL
        | Stopping \<Rightarrow> \<not> stopped tp \<and> k = 0 \<and> exits (workers tp) = 0"
  using assms by (simp_all add: pool_inv_def)

lemma internal_submit_ok:
  assumes r: "pool_rep tp its" and f: "fresh_item tp wi node"
  shows "\<exists>tp1. thread_pool_internal_submit tp action arg wi node = Inr tp1
    \<and> pool_rep tp1 (its @ [\<lparr>wi_action = action, wi_arg = arg\<rparr>])
    \<and> (\<exists>q m. tp1 = tp\<lparr>work_queue := q, workitems := m\<rparr>)"
proof -
  from r obtain wis where wis: "queue_rep (work_queue tp) wis" "map (workitems tp) wis = map Some its"
    "distinct wis" "dom (workitems tp) = set wis" by (auto simp: pool_rep_def)
  have f': "wi \<noteq> 0" "wi \<notin> set wis" "fresh_node (work_queue tp) node"
    using f wis(4) by (auto simp: fresh_item_def)
  from put_ok[OF wis(1) f'(3), of wi] obtain q where
    q: "queue_rep q (wis @ [wi])" "queue_put (work_queue tp) node wi = Inr (Completes q NULL Signal)" by blast
  let ?m = "(workitems tp)(wi \<mapsto> \<lparr>wi_action = action, wi_arg = arg\<rparr>)"
  have "map ?m (wis @ [wi]) = map Some (its @ [\<lparr>wi_action = action, wi_arg = arg\<rparr>])"
    using wis(2) f'(2) by (simp add: map_fun_upd)
  then have "pool_rep (tp\<lparr>work_queue := q, workitems := ?m\<rparr>) (its @ [\<lparr>wi_action = action, wi_arg = arg\<rparr>])"
    unfolding pool_rep_def using q(1) wis(3,4) f'(2) by (intro exI[of _ "wis @ [wi]"]) auto
  moreover have "thread_pool_internal_submit tp action arg wi node = Inr (tp\<lparr>work_queue := q, workitems := ?m\<rparr>)"
    using f'(1) q(2) by (simp add: thread_pool_internal_submit_def)
  ultimately show ?thesis by blast
qed

lemma worker_ok:
  assumes r: "pool_rep tp its"
  shows "case its of
      [] \<Rightarrow> thread_pool_worker tp w = None
    | it # rest \<Rightarrow> \<exists>q m. thread_pool_worker tp w = Some (Inr (tp\<lparr>work_queue := q, workitems := m,
          workers := (workers tp)[w := (if wi_action it = DEATH_PILL then Exited
                                        else Executing (wi_action it) (wi_arg it))]\<rparr>))
        \<and> pool_rep (tp\<lparr>work_queue := q, workitems := m\<rparr>) rest"
proof -
  from r obtain wis where wis: "queue_rep (work_queue tp) wis" "map (workitems tp) wis = map Some its"
    "distinct wis" "dom (workitems tp) = set wis" by (auto simp: pool_rep_def)
  show ?thesis
  proof (cases its)
    case Nil
    then have "q_size (work_queue tp) = 0" using rep_empty(2)[OF wis(1)] wis(2) by simp
    then show ?thesis using Nil by (simp add: thread_pool_worker_def queue_get_def)
  next
    case (Cons it rest)
    then obtain wi ws where w: "wis = wi # ws" "workitems tp wi = Some it" "map (workitems tp) ws = map Some rest"
      using wis(2) by (cases wis) auto
    from get_ok[of "work_queue tp" wi ws] wis(1) w(1) obtain q where
      q: "queue_rep q ws" "queue_get (work_queue tp) = Inr (Completes q wi NoWake)" by auto
    let ?m = "(workitems tp)(wi := None)"
    have "map ?m ws = map Some rest" using w wis(3) by (simp add: map_fun_upd)
    then have "pool_rep (tp\<lparr>work_queue := q, workitems := ?m\<rparr>) rest"
      unfolding pool_rep_def using q(1) wis(3,4) w(1) by (intro exI[of _ ws]) auto
    then show ?thesis using Cons q(2) w(2) by (auto simp: thread_pool_worker_def)
  qed
qed

lemma running_upd:
  assumes "w < length ws"
  shows "mset (running_items (ws[w := Executing f x])) + mset (running_items [ws ! w])
      = mset (running_items ws) + {#(f, x)#}"
    "mset (running_items (ws[w := AtGet])) + mset (running_items [ws ! w]) = mset (running_items ws)"
    "mset (running_items (ws[w := Exited])) + mset (running_items [ws ! w]) = mset (running_items ws)"
  using assms
  by (subst (2) id_take_nth_drop[OF assms], subst upd_conv_take_nth_drop[OF assms],
      simp add: running_items_def List.map_filter_def split: worker.splits option.splits)+

lemma exits_upd:
  assumes "w < length ws" "ws ! w \<noteq> Exited"
  shows "exits (ws[w := y]) = exits ws + (if y = Exited then 1 else 0)"
  using assms(2)
  by (subst (2) id_take_nth_drop[OF assms(1)], subst upd_conv_take_nth_drop[OF assms(1)])
     (simp add: exits_def)

lemma pool_rep_fields [simp]:
  "pool_rep (tp\<lparr>clients := c\<rparr>) its = pool_rep tp its" "pool_rep (tp\<lparr>submitted := l\<rparr>) its = pool_rep tp its"
  "pool_rep (tp\<lparr>executed := l\<rparr>) its = pool_rep tp its" "pool_rep (tp\<lparr>workers := ws\<rparr>) its = pool_rep tp its"
  "pool_rep (tp\<lparr>stopped := b\<rparr>) its = pool_rep tp its"
  by (simp_all add: pool_rep_def)

lemma take_item_inv:
  assumes i: "pool_inv tp ((f, x) # rest) k" and w: "w < length (workers tp)" "workers tp ! w = AtGet"
  shows "\<exists>q m. thread_pool_worker tp w = Some (Inr (tp\<lparr>work_queue := q, workitems := m,
        workers := (workers tp)[w := Executing f x]\<rparr>))
    \<and> pool_inv (tp\<lparr>work_queue := q, workitems := m, workers := (workers tp)[w := Executing f x]\<rparr>) rest k"
proof -
  note D = pool_invD[OF i]
  have ne: "workers tp ! w \<noteq> Exited" using w(2) by simp
  have none: "running_items [workers tp ! w] = []" using w(2) by (simp add: running_items_def List.map_filter_def)
  have f: "f \<noteq> DEATH_PILL" using D(5) by auto
  from worker_ok[OF D(1), of w] f obtain q m where
    t: "thread_pool_worker tp w = Some (Inr (tp\<lparr>work_queue := q, workitems := m,
        workers := (workers tp)[w := Executing f x]\<rparr>))"
    "pool_rep (tp\<lparr>work_queue := q, workitems := m\<rparr>) (map item rest @ replicate k pill)"
    by (auto simp: item_def)
  have "mset (running_items ((workers tp)[w := Executing f x])) = mset (running_items (workers tp)) + {#(f, x)#}"
    using running_upd(1)[OF w(1), of f x] none by simp
  moreover have "exits ((workers tp)[w := Executing f x]) = exits (workers tp)"
    using exits_upd[OF w(1) ne] by simp
  ultimately have "pool_inv (tp\<lparr>work_queue := q, workitems := m, workers := (workers tp)[w := Executing f x]\<rparr>) rest k"
    unfolding pool_inv_def using D t(2) by (auto split: client.splits)
  with t(1) show ?thesis by blast
qed

lemma take_pill_inv:
  assumes i: "pool_inv tp [] (Suc k)" and w: "w < length (workers tp)" "workers tp ! w = AtGet"
  shows "\<exists>q m. thread_pool_worker tp w = Some (Inr (tp\<lparr>work_queue := q, workitems := m,
        workers := (workers tp)[w := Exited]\<rparr>))
    \<and> pool_inv (tp\<lparr>work_queue := q, workitems := m, workers := (workers tp)[w := Exited]\<rparr>) [] k"
proof -
  note D = pool_invD[OF i]
  have ne: "workers tp ! w \<noteq> Exited" using w(2) by simp
  have none: "running_items [workers tp ! w] = []" using w(2) by (simp add: running_items_def List.map_filter_def)
  from worker_ok[OF D(1), of w] obtain q m where
    t: "thread_pool_worker tp w = Some (Inr (tp\<lparr>work_queue := q, workitems := m,
        workers := (workers tp)[w := Exited]\<rparr>))"
    "pool_rep (tp\<lparr>work_queue := q, workitems := m\<rparr>) (replicate k pill)"
    by (auto simp: pill_def)
  have "mset (running_items ((workers tp)[w := Exited])) = mset (running_items (workers tp))"
    using running_upd(3)[OF w(1)] none by simp
  moreover have "exits ((workers tp)[w := Exited]) = Suc (exits (workers tp))"
    using exits_upd[OF w(1) ne] by simp
  ultimately have "pool_inv (tp\<lparr>work_queue := q, workitems := m, workers := (workers tp)[w := Exited]\<rparr>) [] k"
    unfolding pool_inv_def using D t(2) by (auto split: client.splits if_splits)
  with t(1) show ?thesis by blast
qed

lemma running_upd_size:
  assumes "w < length ws" "ws ! w = AtGet"
  shows "length (running_items (ws[w := Executing f x])) = Suc (length (running_items ws))"
    "length (running_items (ws[w := Exited])) = length (running_items ws)"
proof -
  have none: "running_items [ws ! w] = []" using assms(2) by (simp add: running_items_def List.map_filter_def)
  show "length (running_items (ws[w := Executing f x])) = Suc (length (running_items ws))"
    using arg_cong[OF running_upd(1)[OF assms(1), of f x], of size] none by simp
  show "length (running_items (ws[w := Exited])) = length (running_items ws)"
    using arg_cong[OF running_upd(3)[OF assms(1)], of size] none by simp
qed

lemma worker_step_inv:
  assumes i: "pool_inv tp its k" and w: "w < length (workers tp)" "workers tp ! w = AtGet"
    and r: "thread_pool_worker tp w = Some res"
  shows "\<exists>tp' its' k'. res = Inr tp' \<and> pool_inv tp' its' k' \<and> clients tp' = clients tp \<and> stopped tp' = stopped tp
    \<and> nthreads tp' = nthreads tp \<and> length its' + k' < length its + k
    \<and> length (running_items (workers tp')) + (length its' + k') \<le> length (running_items (workers tp)) + (length its + k)"
proof (cases its)
  case (Cons p rest)
  obtain f x where p: "p = (f, x)" by (cases p)
  from take_item_inv[OF i[unfolded Cons p] w] r obtain q m where
    "res = Inr (tp\<lparr>work_queue := q, workitems := m, workers := (workers tp)[w := Executing f x]\<rparr>)"
    "pool_inv (tp\<lparr>work_queue := q, workitems := m, workers := (workers tp)[w := Executing f x]\<rparr>) rest k" by auto
  then show ?thesis using Cons running_upd_size(1)[OF w] by fastforce
next
  case Nil
  show ?thesis
  proof (cases k)
    case 0
    then show ?thesis using worker_ok[OF pool_invD(1)[OF i], of w] Nil r by simp
  next
    case (Suc k')
    from take_pill_inv[OF i[unfolded Nil Suc] w] r obtain q m where
      "res = Inr (tp\<lparr>work_queue := q, workitems := m, workers := (workers tp)[w := Exited]\<rparr>)"
      "pool_inv (tp\<lparr>work_queue := q, workitems := m, workers := (workers tp)[w := Exited]\<rparr>) [] k'" by auto
    then show ?thesis using Nil Suc running_upd_size(2)[OF w] by fastforce
  qed
qed

lemma run_step_inv:
  assumes i: "pool_inv tp its k" and w: "w < length (workers tp)" "workers tp ! w = Executing f x"
  defines "tp' \<equiv> tp\<lparr>workers := (workers tp)[w := AtGet], executed := executed tp @ [(f, x)]\<rparr>"
  shows "pool_inv tp' its k" "Suc (length (running_items (workers tp'))) = length (running_items (workers tp))"
proof -
  note D = pool_invD[OF i]
  have one: "running_items [workers tp ! w] = [(f, x)]" using w(2) by (simp add: running_items_def List.map_filter_def)
  have run: "mset (running_items ((workers tp)[w := AtGet])) + {#(f, x)#} = mset (running_items (workers tp))"
    using running_upd(2)[OF w(1)] one by simp
  have ex: "exits ((workers tp)[w := AtGet]) = exits (workers tp)" using exits_upd[OF w(1)] w(2) by simp
  have "mset (submitted tp) = mset (executed tp) + {#(f, x)#} + mset (running_items ((workers tp)[w := AtGet])) + mset its"
    using D(4) run by (simp add: ac_simps)
  then show "pool_inv tp' its k"
    unfolding pool_inv_def tp'_def using D ex by (auto split: client.splits)
  show "Suc (length (running_items (workers tp'))) = length (running_items (workers tp))"
    using arg_cong[OF run, of size] by (simp add: tp'_def)
qed

lemma enqueue_inv:
  assumes "pool_inv tp its k" "clients tp 0 = Submitting f x" "fresh_item tp wi node"
  shows "\<exists>tp1. thread_pool_internal_submit tp f x wi node = Inr tp1
    \<and> pool_inv (tp1\<lparr>clients := (clients tp1)(0 := Idle), submitted := submitted tp1 @ [(f, x)]\<rparr>) (its @ [(f, x)]) 0"
proof -
  note D = pool_invD[OF assms(1)]
  have k0: "k = 0" "\<not> stopped tp" "exits (workers tp) = 0" "f \<noteq> DEATH_PILL" using D(7) assms(2) by auto
  have r0: "pool_rep tp (map item its)" using D(1) k0(1) by simp
  from internal_submit_ok[OF r0 assms(3), of f x] obtain tp1 where
    t: "thread_pool_internal_submit tp f x wi node = Inr tp1" "pool_rep tp1 (map item (its @ [(f, x)]))"
    "\<exists>q m. tp1 = tp\<lparr>work_queue := q, workitems := m\<rparr>" by (auto simp: item_def)
  have "pool_inv (tp1\<lparr>clients := (clients tp1)(0 := Idle), submitted := submitted tp1 @ [(f, x)]\<rparr>) (its @ [(f, x)]) 0"
    unfolding pool_inv_def using D t(2,3) k0 by auto
  then show ?thesis using t(1) by blast
qed

lemma pill_inv:
  assumes "pool_inv tp its k" "clients tp 0 = Pilling j" "fresh_item tp wi node" "j < nthreads tp"
  shows "\<exists>tp1. stop_loop tp 0 j wi node = Inr tp1 \<and> pool_inv tp1 its (Suc k)"
proof -
  note D = pool_invD[OF assms(1)]
  from internal_submit_ok[OF D(1) assms(3), of DEATH_PILL NULL] obtain tp1 where
    t: "thread_pool_internal_submit tp DEATH_PILL NULL wi node = Inr tp1"
    "pool_rep tp1 ((map item its @ replicate k pill) @ [pill])"
    "\<exists>q m. tp1 = tp\<lparr>work_queue := q, workitems := m\<rparr>" by (auto simp: pill_def)
  have "replicate k pill @ [pill] = replicate (Suc k) pill" by (simp add: replicate_append_same)
  then have "pool_rep tp1 (map item its @ replicate (Suc k) pill)" using t(2) by simp
  then have "pool_inv (tp1\<lparr>clients := (clients tp1)(0 := Pilling (Suc j))\<rparr>) its (Suc k)"
    unfolding pool_inv_def using D t(3) assms(2,4) by auto
  moreover have "in_int (int j + 1)" using assms(4) D(3) by (simp add: c_int_bounds)
  then have "stop_loop tp 0 j wi node = Inr (tp1\<lparr>clients := (clients tp1)(0 := Pilling (Suc j))\<rparr>)"
    using t(1) by (simp add: stop_loop_def c_int_in nat_add_distrib)
  ultimately show ?thesis by blast
qed

theorem pool_inv_step:
  assumes i: "pool_inv tp its k" and m: "by_main e" and st: "pool_step e tp = Some res"
  shows "\<exists>tp' its' k'. res = Inr tp' \<and> pool_inv tp' its' k'"
proof -
  note D = pool_invD[OF i]
  show ?thesis
  proof (cases e)
    case (Submit c f x)
    then have c: "c = 0" "clients tp 0 = Idle" "f \<noteq> DEATH_PILL" "res = Inr (fst (thread_pool_submit tp 0 f x))"
      using m st by (auto split: if_splits)
    then have "pool_inv (fst (thread_pool_submit tp 0 f x)) its k"
      using D unfolding pool_inv_def thread_pool_submit_def by (auto split: if_splits)
    then show ?thesis using c by blast
  next
    case (Enqueue c wi node)
    then obtain f x where c: "c = 0" "clients tp 0 = Submitting f x" "fresh_item tp wi node"
      using m st by (auto split: client.splits if_splits)
    then show ?thesis using enqueue_inv[OF i c(2,3)] st Enqueue by fastforce
  next
    case (Stop c)
    then have c: "c = 0" "clients tp 0 = Idle" "res = Inr (thread_pool_stop tp 0)"
      using m st by (auto split: if_splits)
    then have "pool_inv (thread_pool_stop tp 0) its k"
      using D unfolding pool_inv_def thread_pool_stop_def by (auto split: if_splits)
    then show ?thesis using c by blast
  next
    case (SetStopped c)
    then have c: "c = 0" "clients tp 0 = Stopping"
      "res = Inr (tp\<lparr>stopped := True, clients := (clients tp)(0 := Pilling 0)\<rparr>)"
      using m st by (auto split: if_splits)
    then have "pool_inv (tp\<lparr>stopped := True, clients := (clients tp)(0 := Pilling 0)\<rparr>) its k"
      using D unfolding pool_inv_def by auto
    then show ?thesis using c by blast
  next
    case (Pill c wi node)
    then obtain j where c: "c = 0" "clients tp 0 = Pilling j" "fresh_item tp wi node" "j < nthreads tp"
      "res = stop_loop tp 0 j wi node"
      using m st by (auto split: client.splits if_splits)
    then show ?thesis using pill_inv[OF i c(2-4)] by blast
  next
    case (StopReturns c)
    then obtain j where c: "c = 0" "clients tp 0 = Pilling j" "\<not> j < nthreads tp"
      "res = Inr (tp\<lparr>clients := (clients tp)(0 := Idle)\<rparr>)"
      using m st by (auto split: client.splits if_splits)
    then have "pool_inv (tp\<lparr>clients := (clients tp)(0 := Idle)\<rparr>) its k"
      using D unfolding pool_inv_def by auto
    then show ?thesis using c by blast
  next
    case (TakeItem w)
    then have "w < length (workers tp)" "workers tp ! w = AtGet" "thread_pool_worker tp w = Some res"
      using st by (auto split: if_splits)
    from worker_step_inv[OF i this] show ?thesis by blast
  next
    case (RunItem w)
    then obtain f x where w: "w < length (workers tp)" "workers tp ! w = Executing f x"
      "res = Inr (tp\<lparr>workers := (workers tp)[w := AtGet], executed := executed tp @ [(f, x)]\<rparr>)"
      using st by (auto split: if_splits worker.splits)
    then show ?thesis using run_step_inv(1)[OF i w(1,2)] by blast
  qed
qed

lemma pool_inv_run:
  assumes "pool_inv tp its k" "\<forall>e\<in>set es. by_main e" "pool_run es tp = Some res"
  shows "\<exists>tp' its' k'. res = Inr tp' \<and> pool_inv tp' its' k'"
  using assms
proof (induction es arbitrary: tp its k)
  case Nil
  then show ?case by auto
next
  case (Cons e es)
  then obtain r where r: "pool_step e tp = Some r" by (auto split: option.splits)
  from pool_inv_step[OF Cons.prems(1) _ r] Cons.prems(2) obtain tp1 its1 k1 where
    t: "r = Inr tp1" "pool_inv tp1 its1 k1" by auto
  then show ?case using Cons.IH[OF t(2)] Cons.prems(2,3) r by auto
qed

lemma pool_inv_init:
  assumes "q_head q0 \<in> dom (q_links q0)" "q_items q0 = Map.empty" "int n \<le> INT_MAX"
  shows "\<exists>tp. thread_pool_init q0 n = Inr tp \<and> pool_inv tp [] 0"
proof -
  from queue_init_ok[OF assms(1,2)] obtain q where q: "queue_init q0 = Inr q" "queue_rep q []" by blast
  have "running_items (replicate n AtGet) = []" "exits (replicate n AtGet) = 0"
    by (induction n) (auto simp: running_items_def List.map_filter_def exits_def)
  then have "pool_inv \<lparr>stopped = False, nthreads = n, work_queue = q, workitems = Map.empty,
      workers = replicate n AtGet, clients = (\<lambda>_. Idle), submitted = [], executed = []\<rparr> [] 0"
    unfolding pool_inv_def pool_rep_def using q(2) assms(3) by auto
  with q(1) show ?thesis by (auto simp: thread_pool_init_def)
qed

end
