(* ===== verification/Pool_Props.thy ===== *)
theory Pool_Props
  imports Thread_Pool
begin

text \<open>
  What \<open>thread_pool_cleanup\<close> guarantees to a program that uses the pool from one thread, that it
  comes back, and what a race of \<open>thread_pool_submit\<close> with \<open>thread_pool_stop\<close> breaks.
\<close>

lemma internal_submit_nthreads:
  assumes "thread_pool_internal_submit tp f x wi node = Inr tp'"
  shows "nthreads tp' = nthreads tp"
proof -
  let ?m = "(workitems tp)(wi \<mapsto> \<lparr>wi_action = f, wi_arg = x\<rparr>)"
  obtain out where out: "queue_put (work_queue tp) node wi = Inr out"
    "(case out of Blocks \<Rightarrow> Inl NoReturn | Completes q r k \<Rightarrow> Inr (tp\<lparr>workitems := ?m, work_queue := q\<rparr>)) = Inr tp'"
    using assms by (auto simp: thread_pool_internal_submit_def split: if_splits)
  then show ?thesis by (cases out) auto
qed

text \<open>Reading the result of an evaluated run.\<close>

lemma result_iff:
  "(case y of Inl e \<Rightarrow> False | Inr a \<Rightarrow> Q a) \<longleftrightarrow> (\<exists>a. y = Inr a \<and> Q a)"
  "(case x of None \<Rightarrow> False | Some b \<Rightarrow> P b) \<longleftrightarrow> (\<exists>b. x = Some b \<and> P b)"
  by (cases y; simp) (cases x; simp)

lemma worker_nthreads: "thread_pool_worker tp w = Some (Inr tp') \<Longrightarrow> nthreads tp' = nthreads tp"
  by (auto simp: thread_pool_worker_def split: if_splits outcome.split_asm sum.split_asm option.split_asm)

lemma step_nthreads: "pool_step e tp = Some (Inr tp') \<Longrightarrow> nthreads tp' = nthreads tp"
  by (cases e)
     (auto simp: thread_pool_submit_def thread_pool_stop_def stop_loop_def
       split: if_splits client.splits worker.splits dest: internal_submit_nthreads worker_nthreads)

lemma run_nthreads: "pool_run es tp = Some (Inr tp') \<Longrightarrow> nthreads tp' = nthreads tp"
  by (induction es arbitrary: tp) (auto split: option.splits sum.splits dest: step_nthreads)

lemma all_exited: "\<forall>w\<in>set ws. w = Exited \<Longrightarrow> running_items ws = []"
  by (induction ws) (auto simp: running_items_def List.map_filter_def)

lemma final_clean:
  assumes i: "pool_inv tp its k" and c: "cleanup_returns tp 0" and n: "0 < nthreads tp"
  shows "mset (executed tp) = mset (submitted tp) \<and> workitems tp = Map.empty \<and> q_size (work_queue tp) = 0"
proof -
  note D = pool_invD[OF i]
  have all: "\<forall>w\<in>set (workers tp). w = Exited" and st: "stopped tp" "clients tp 0 = Idle"
    using c by (simp_all add: cleanup_returns_def)
  have ex: "exits (workers tp) = nthreads tp" using all D(2) by (simp add: exits_def filter_id_conv)
  then have its: "its = []" using D(6) n by simp
  have k: "k = 0" using D(7) st ex by simp
  from D(1) its k obtain wis where "queue_rep (work_queue tp) wis" "map (workitems tp) wis = []"
    "dom (workitems tp) = set wis" by (auto simp: pool_rep_def)
  then show ?thesis using D(4) its all_exited[OF all] rep_empty(2) by auto
qed

text \<open>C7: When one thread makes all the client calls (submit, stop, cleanup), no step of the pool
  fails, and when \<open>thread_pool_cleanup\<close> can return every item whose submission was accepted has
  been run exactly once, every work item has been freed and the queue is empty: the death pills
  come out after all the items. With a second client thread this is false, as
  \<open>submit_stop_race_loses_item\<close> shows.\<close>

theorem cleanup_has_run_everything:
  assumes "q_head q0 \<in> dom (q_links q0)" "q_items q0 = Map.empty" "0 < n" "int n \<le> INT_MAX"
    and "thread_pool_init q0 n = Inr tp0" "\<forall>e\<in>set es. by_main e" "pool_run es tp0 = Some res"
  shows "\<exists>tp. res = Inr tp \<and> (cleanup_returns tp 0 \<longrightarrow>
    mset (executed tp) = mset (submitted tp) \<and> workitems tp = Map.empty \<and> q_size (work_queue tp) = 0)"
proof -
  from pool_inv_init[OF assms(1,2,4)] assms(5) have "pool_inv tp0 [] 0" by auto
  from pool_inv_run[OF this assms(6,7)] obtain tp its k where
    t: "res = Inr tp" and i: "pool_inv tp its k" by blast
  have "nthreads tp = n" using run_nthreads[OF assms(7)[unfolded t]] assms(5) by (auto simp: thread_pool_init_def)
  then show ?thesis using t final_clean[OF i] assms(3) by blast
qed

definition pool_queue0 :: queue where
  "pool_queue0 = \<lparr>q_links = [0x40 \<mapsto> blank_entry], q_head = 0x40, q_size = 0, q_items = Map.empty\<rparr>"

text \<open>Two workers, two items; the second item is run by the worker that waited longer.\<close>

definition pool_events :: "pool_event list" where
  "pool_events = [Submit 0 (Function 1) 10, Enqueue 0 0x100 0x1000, Submit 0 (Function 2) 20, TakeItem 0,
     Enqueue 0 0x200 0x2000, TakeItem 1, RunItem 1, Stop 0, SetStopped 0, Pill 0 0x300 0x3000, TakeItem 1,
     Pill 0 0x400 0x4000, RunItem 0, StopReturns 0, Submit 0 (Function 3) 30, TakeItem 0]"

lemma cleanup_has_run_everything_witness:
  "\<exists>tp0 tp. thread_pool_init pool_queue0 2 = Inr tp0 \<and> pool_run pool_events tp0 = Some (Inr tp)
    \<and> cleanup_returns tp 0 \<and> submitted tp = [(Function 1, 10), (Function 2, 20)]
    \<and> mset (executed tp) = {#(Function 1, 10), (Function 2, 20)#} \<and> workitems tp = Map.empty"
proof -
  have "case thread_pool_init pool_queue0 2 of Inl e \<Rightarrow> False | Inr tp0 \<Rightarrow>
      (case pool_run pool_events tp0 of Some (Inr tp) \<Rightarrow> cleanup_returns tp 0
         \<and> submitted tp = [(Function 1, 10), (Function 2, 20)] | _ \<Rightarrow> False)"
    by code_simp
  then obtain tp0 tp where t: "thread_pool_init pool_queue0 2 = Inr tp0" "pool_run pool_events tp0 = Some (Inr tp)"
    "cleanup_returns tp 0" "submitted tp = [(Function 1, 10), (Function 2, 20)]"
    by (auto simp: result_iff)
  have q: "q_head pool_queue0 \<in> dom (q_links pool_queue0)" "q_items pool_queue0 = Map.empty"
    by (simp_all add: pool_queue0_def)
  have n: "0 < (2::nat)" "int 2 \<le> INT_MAX" by (simp_all add: INT_MAX_def)
  have m: "\<forall>e\<in>set pool_events. by_main e" by (simp add: pool_events_def)
  from cleanup_has_run_everything[OF q n t(1) m t(2)] t show ?thesis by (auto simp: add_mset_commute)
qed

text \<open>How much is left for the workers to do.\<close>

definition pool_work :: "thread_pool \<Rightarrow> nat" where
  "pool_work tp = 2 * card (dom (workitems tp)) + length (running_items (workers tp))"

lemma pool_rep_card: "pool_rep tp its \<Longrightarrow> card (dom (workitems tp)) = length its"
proof -
  assume "pool_rep tp its"
  then obtain wis where w: "map (workitems tp) wis = map Some its" "distinct wis" "dom (workitems tp) = set wis"
    by (auto simp: pool_rep_def)
  have "length wis = length its" using arg_cong[OF w(1), of length] by simp
  then show ?thesis using w(2,3) by (simp add: distinct_card)
qed

lemma pool_work_eq: "pool_inv tp its k \<Longrightarrow> pool_work tp = 2 * (length its + k) + length (running_items (workers tp))"
  using pool_rep_card[OF pool_invD(1)] by (simp add: pool_work_def)

text \<open>A step of a worker leaves less work.\<close>

lemma run_less_work:
  assumes i: "pool_inv tp its k" and w: "w < length (workers tp)" "workers tp ! w = Executing f x"
  shows "pool_work (tp\<lparr>workers := (workers tp)[w := AtGet], executed := executed tp @ [(f, x)]\<rparr>) < pool_work tp"
  using run_step_inv(2)[OF i w] pool_work_eq[OF run_step_inv(1)[OF i w]] pool_work_eq[OF i] by simp

lemma take_less_work:
  assumes i: "pool_inv tp its k" and w: "w < length (workers tp)" "workers tp ! w = AtGet"
    and r: "thread_pool_worker tp w = Some res"
  shows "\<exists>tp' its' k'. res = Inr tp' \<and> pool_inv tp' its' k' \<and> clients tp' = clients tp \<and> stopped tp' = stopped tp
    \<and> nthreads tp' = nthreads tp \<and> pool_work tp' < pool_work tp"
  using worker_step_inv[OF i w r] pool_work_eq[OF i] pool_work_eq by fastforce

lemma worker_can_step:
  assumes i: "pool_inv tp its k" and c: "stopped tp" "clients tp 0 = Idle" "\<not> cleanup_returns tp 0"
  shows "\<exists>w tp'. (pool_step (TakeItem w) tp = Some (Inr tp') \<or> pool_step (RunItem w) tp = Some (Inr tp'))
    \<and> pool_work tp' < pool_work tp \<and> stopped tp' \<and> clients tp' 0 = Idle"
proof -
  note D = pool_invD[OF i]
  obtain w where w: "w < length (workers tp)" "workers tp ! w \<noteq> Exited"
    using c by (auto simp: cleanup_returns_def in_set_conv_nth)
  show ?thesis
  proof (cases "workers tp ! w")
    case (Executing f x)
    let ?tp = "tp\<lparr>workers := (workers tp)[w := AtGet], executed := executed tp @ [(f, x)]\<rparr>"
    have "pool_step (RunItem w) tp = Some (Inr ?tp)" using w(1) Executing by simp
    then show ?thesis using run_less_work[OF i w(1) Executing] c(1,2) by (intro exI[of _ w] exI[of _ ?tp]) simp
  next
    case AtGet
    have "exits (workers tp) < length (workers tp)"
      using length_filter_less[of "workers tp ! w" "workers tp" "\<lambda>w. w = Exited"] w by (simp add: exits_def)
    then have "k > 0" using D(2,7) c(1,2) by simp
    then have "thread_pool_worker tp w \<noteq> None"
      using worker_ok[OF D(1), of w] by (cases its; cases k) auto
    then obtain res where r: "thread_pool_worker tp w = Some res" by blast
    from take_less_work[OF i w(1) AtGet r] obtain tp' where
      t: "res = Inr tp'" "clients tp' = clients tp" "stopped tp' = stopped tp" "pool_work tp' < pool_work tp" by blast
    have "pool_step (TakeItem w) tp = Some (Inr tp')" using w(1) AtGet r t(1) by simp
    then show ?thesis using c(1,2) t(2-4) by (intro exI[of _ w] exI[of _ tp']) simp
  qed (use w(2) in simp)
qed

lemma worker_steps_use_work:
  assumes i: "pool_inv tp its k" and r: "pool_step (TakeItem w) tp = Some res \<or> pool_step (RunItem w) tp = Some res"
  shows "\<exists>tp' its' k'. res = Inr tp' \<and> pool_inv tp' its' k' \<and> pool_work tp' < pool_work tp
    \<and> stopped tp' = stopped tp \<and> clients tp' = clients tp"
proof -
  have w: "w < length (workers tp)" using r by (auto split: if_splits)
  show ?thesis
  proof (cases "workers tp ! w")
    case AtGet
    then have "thread_pool_worker tp w = Some res" using r w by simp
    from take_less_work[OF i w AtGet this] show ?thesis by blast
  next
    case (Executing f x)
    then have "res = Inr (tp\<lparr>workers := (workers tp)[w := AtGet], executed := executed tp @ [(f, x)]\<rparr>)"
      using r w by simp
    then show ?thesis using run_less_work[OF i w Executing] run_step_inv(1)[OF i w Executing] by force
  qed (use r w in simp)
qed

text \<open>C26: \<open>thread_pool_cleanup\<close> comes back when the pool is used from one client thread: once
  \<open>thread_pool_stop\<close> has returned, whatever happened before, some worker can take a step as long
  as one has not exited, and every step that any worker can take succeeds and leaves less of
  the work (a number), with the pool still stopped and the client still at its joins; so after
  at most that many steps, in whatever order, all the joins have ended.\<close>

theorem cleanup_makes_progress:
  assumes "q_head q0 \<in> dom (q_links q0)" "q_items q0 = Map.empty" "int n \<le> INT_MAX"
    and "thread_pool_init q0 n = Inr tp0" "\<forall>e\<in>set es. by_main e" "pool_run es tp0 = Some (Inr tp)"
    and "stopped tp" "clients tp 0 = Idle" "\<not> cleanup_returns tp 0"
  shows "(\<exists>w. pool_step (TakeItem w) tp \<noteq> None \<or> pool_step (RunItem w) tp \<noteq> None)
    \<and> (\<forall>w res. pool_step (TakeItem w) tp = Some res \<or> pool_step (RunItem w) tp = Some res \<longrightarrow>
        (\<exists>tp'. res = Inr tp' \<and> pool_work tp' < pool_work tp \<and> stopped tp' \<and> clients tp' 0 = Idle))"
proof -
  from pool_inv_init[OF assms(1-3)] assms(4) have "pool_inv tp0 [] 0" by auto
  from pool_inv_run[OF this assms(5,6)] obtain its k where i: "pool_inv tp its k" by auto
  show ?thesis using worker_can_step[OF i assms(7-9)] worker_steps_use_work[OF i] assms(7,8) by (metis option.distinct(1))
qed

lemma cleanup_makes_progress_witness:
  "\<exists>tp0 tp. thread_pool_init pool_queue0 2 = Inr tp0
    \<and> pool_run (butlast (butlast pool_events)) tp0 = Some (Inr tp) \<and> \<not> cleanup_returns tp 0
    \<and> (\<exists>w. pool_step (TakeItem w) tp \<noteq> None \<or> pool_step (RunItem w) tp \<noteq> None)"
proof -
  have "case thread_pool_init pool_queue0 2 of Inl e \<Rightarrow> False | Inr tp0 \<Rightarrow>
      (case pool_run (butlast (butlast pool_events)) tp0 of
         Some (Inr tp) \<Rightarrow> \<not> cleanup_returns tp 0 \<and> stopped tp \<and> clients tp 0 = Idle | _ \<Rightarrow> False)"
    by code_simp
  then obtain tp0 tp where t: "thread_pool_init pool_queue0 2 = Inr tp0"
    "pool_run (butlast (butlast pool_events)) tp0 = Some (Inr tp)"
    "stopped tp" "clients tp 0 = Idle" "\<not> cleanup_returns tp 0"
    by (auto simp: result_iff)
  have q: "q_head pool_queue0 \<in> dom (q_links pool_queue0)" "q_items pool_queue0 = Map.empty"
    by (simp_all add: pool_queue0_def)
  have n: "int 2 \<le> INT_MAX" by (simp add: INT_MAX_def)
  have m: "\<forall>e\<in>set (butlast (butlast pool_events)). by_main e" by (simp add: pool_events_def)
  from cleanup_makes_progress[OF q n t(1) m t(2-5)] t show ?thesis by blast
qed

definition race_events :: "pool_event list" where
  "race_events = [Submit 1 (Function 5) 50, Stop 0, SetStopped 0, Pill 0 0x300 0x3000, StopReturns 0,
     Enqueue 1 0x100 0x1000, TakeItem 0]"

text \<open>When \<open>thread_pool_submit\<close> and \<open>thread_pool_stop\<close> race, an accepted item can be lost: a
  client that tested \<open>stopped\<close> before the stop puts its item behind the pills, and all workers
  exit without running it; the item and its node are never freed.\<close>

theorem submit_stop_race_loses_item:
  "\<exists>tp0 tp. thread_pool_init pool_queue0 1 = Inr tp0 \<and> pool_run race_events tp0 = Some (Inr tp)
    \<and> cleanup_returns tp 0 \<and> submitted tp = [(Function 5, 50)] \<and> executed tp = []
    \<and> workitems tp 0x100 = Some \<lparr>wi_action = Function 5, wi_arg = 50\<rparr>"
proof -
  have "case thread_pool_init pool_queue0 1 of Inl e \<Rightarrow> False | Inr tp0 \<Rightarrow>
      (case pool_run race_events tp0 of
         Some (Inr tp) \<Rightarrow> cleanup_returns tp 0 \<and> submitted tp = [(Function 5, 50)] \<and> executed tp = []
           \<and> workitems tp 0x100 = Some \<lparr>wi_action = Function 5, wi_arg = 50\<rparr> | _ \<Rightarrow> False)"
    by code_simp
  then show ?thesis unfolding result_iff by auto
qed

end
