(* ===== verification/Pool_Test.thy ===== *)
theory Pool_Test
  imports Pool_Props
begin

text \<open>
  \<open>test_thread_pool.c\<close> of 18: \<open>main\<close> submits eight messages to a pool of three threads and cleans it
  up. \<open>main\<close> makes its calls one after the other; the workers take and run items at any time in
  between. \<open>usleep\<close> only delays a worker.
\<close>

section \<open>The program\<close>

definition NTHREADS_18 :: nat where "NTHREADS_18 = 3"

text \<open>The steps of the calls that \<open>main\<close> makes, without the addresses that \<open>malloc\<close> returns.\<close>

datatype main_op = DoSubmit task ptr | DoEnqueue | DoStop | DoSetStopped | DoPill | DoStopReturns

fun op_of :: "pool_event \<Rightarrow> main_op option" where
  "op_of (Submit c f x) = Some (DoSubmit f x)"
| "op_of (Enqueue c wi node) = Some DoEnqueue"
| "op_of (Stop c) = Some DoStop"
| "op_of (SetStopped c) = Some DoSetStopped"
| "op_of (Pill c wi node) = Some DoPill"
| "op_of (StopReturns c) = Some DoStopReturns"
| "op_of (TakeItem w) = None"
| "op_of (RunItem w) = None"

definition stop_ops :: "nat \<Rightarrow> main_op list" where
  "stop_ops n = replicate n DoPill @ [DoStopReturns]"

fun main_ops :: "ptr \<Rightarrow> nat \<Rightarrow> ptr list \<Rightarrow> main_op list" where
  "main_ops f n [] = DoStop # DoSetStopped # stop_ops n"
| "main_ops f n (x # xs) = DoSubmit (Function f) x # DoEnqueue # main_ops f n xs"

record pool_test =
  pt_pool :: thread_pool
  pt_left :: "main_op list"

definition pt_step :: "pool_event \<Rightarrow> pool_test \<Rightarrow> (c_error + pool_test) option" where
  "pt_step e s =
     (if \<not> by_main e then None
      else (case pool_step e (pt_pool s) of
          None \<Rightarrow> None
        | Some (Inl err) \<Rightarrow> Some (Inl err)
        | Some (Inr tp) \<Rightarrow>
            (case op_of e of
               None \<Rightarrow> Some (Inr (s\<lparr>pt_pool := tp\<rparr>))
             | Some x \<Rightarrow>
                 (case pt_left s of
                    [] \<Rightarrow> None
                  | y # ys \<Rightarrow> if x = y then Some (Inr (s\<lparr>pt_pool := tp, pt_left := ys\<rparr>)) else None))))"

fun pt_run :: "pool_event list \<Rightarrow> pool_test \<Rightarrow> (c_error + pool_test) option" where
  "pt_run [] s = Some (Inr s)"
| "pt_run (e # es) s = (case pt_step e s of
      None \<Rightarrow> None | Some (Inl err) \<Rightarrow> Some (Inl err) | Some (Inr s1) \<Rightarrow> pt_run es s1)"

text \<open>\<open>f\<close> is the address of \<open>test_func\<close>, \<open>msgs\<close> those of the strings; \<open>main\<close> is at the end when the
  threads have been joined.\<close>

definition test_thread_pool :: "queue \<Rightarrow> ptr \<Rightarrow> ptr list \<Rightarrow> pool_event list \<Rightarrow> (c_error + pool_test) option" where
  "test_thread_pool q0 f msgs es = (case thread_pool_init q0 NTHREADS_18 of
      Inl err \<Rightarrow> Some (Inl err)
    | Inr tp \<Rightarrow> pt_run es \<lparr>pt_pool = tp, pt_left = main_ops f NTHREADS_18 msgs\<rparr>)"

definition test_over :: "pool_test \<Rightarrow> bool" where
  "test_over s \<longleftrightarrow> pt_left s = [] \<and> cleanup_returns (pt_pool s) 0"

section \<open>Where main is\<close>

definition main_at :: "ptr \<Rightarrow> ptr list \<Rightarrow> pool_test \<Rightarrow> bool" where
  "main_at f msgs s \<longleftrightarrow> (let tp = pt_pool s; n = nthreads tp; sent = map (\<lambda>x. (Function f, x)) in
     (\<exists>xs ys. msgs = xs @ ys \<and> clients tp 0 = Idle \<and> \<not> stopped tp \<and> pt_left s = main_ops f n ys \<and> submitted tp = sent xs)
   \<or> (\<exists>xs y ys. msgs = xs @ y # ys \<and> clients tp 0 = Submitting (Function f) y \<and> \<not> stopped tp
        \<and> pt_left s = DoEnqueue # main_ops f n ys \<and> submitted tp = sent xs)
   \<or> (clients tp 0 = Stopping \<and> \<not> stopped tp \<and> pt_left s = DoSetStopped # stop_ops n \<and> submitted tp = sent msgs)
   \<or> (\<exists>i \<le> n. clients tp 0 = Pilling i \<and> stopped tp \<and> pt_left s = stop_ops (n - i) \<and> submitted tp = sent msgs)
   \<or> (clients tp 0 = Idle \<and> stopped tp \<and> pt_left s = [] \<and> submitted tp = sent msgs))"

definition test_measure :: "pool_test \<Rightarrow> nat" where
  "test_measure s = 3 * length (pt_left s) + pool_work (pt_pool s)"

lemma worker_submitted:
  "thread_pool_worker tp w = Some (Inr tp') \<Longrightarrow> submitted tp' = submitted tp"
  by (auto simp: thread_pool_worker_def split: if_splits outcome.split_asm sum.split_asm option.split_asm)

lemma internal_submitted:
  assumes "thread_pool_internal_submit tp f x wi node = Inr tp'"
  shows "submitted tp' = submitted tp" "clients tp' = clients tp" "stopped tp' = stopped tp" "nthreads tp' = nthreads tp"
    "pool_work tp' \<le> pool_work tp + 2"
proof -
  let ?m = "(workitems tp)(wi \<mapsto> \<lparr>wi_action = f, wi_arg = x\<rparr>)"
  obtain out where "queue_put (work_queue tp) node wi = Inr out"
    "(case out of Blocks \<Rightarrow> Inl NoReturn | Completes q r k \<Rightarrow> Inr (tp\<lparr>workitems := ?m, work_queue := q\<rparr>)) = Inr tp'"
    using assms by (auto simp: thread_pool_internal_submit_def split: if_splits)
  then obtain q where q: "tp' = tp\<lparr>workitems := ?m, work_queue := q\<rparr>" by (cases out) auto
  then show "submitted tp' = submitted tp" "clients tp' = clients tp" "stopped tp' = stopped tp" "nthreads tp' = nthreads tp"
    by simp_all
  have "card (insert wi (dom (workitems tp))) \<le> Suc (card (dom (workitems tp)))"
    by (metis card_insert_le_m1 card_insert_if card.infinite finite_insert le_SucI order_refl)
  then show "pool_work tp' \<le> pool_work tp + 2" using q by (simp add: pool_work_def)
qed

text \<open>A step of a worker leaves \<open>main\<close> where it is.\<close>

lemma worker_step_keeps:
  assumes m: "main_at f msgs s" and i: "pool_inv (pt_pool s) its k" and e: "op_of e = None" "pool_step e (pt_pool s) = Some r"
  shows "\<exists>tp its' k'. r = Inr tp \<and> main_at f msgs (s\<lparr>pt_pool := tp\<rparr>) \<and> pool_inv tp its' k'
    \<and> pool_work tp < pool_work (pt_pool s)"
proof -
  consider w where "e = TakeItem w" | w where "e = RunItem w" using e(1) by (cases e) auto
  then show ?thesis
  proof cases
    case (1 w)
    then have w: "w < length (workers (pt_pool s))" "workers (pt_pool s) ! w = AtGet"
      "thread_pool_worker (pt_pool s) w = Some r" using e(2) by (auto split: if_splits)
    from take_less_work[OF i w] obtain tp its' k' where t: "r = Inr tp" "pool_inv tp its' k'"
      "clients tp = clients (pt_pool s)" "stopped tp = stopped (pt_pool s)" "nthreads tp = nthreads (pt_pool s)"
      "pool_work tp < pool_work (pt_pool s)" by blast
    have "submitted tp = submitted (pt_pool s)" using worker_submitted w(3) t(1) by blast
    then have "main_at f msgs (s\<lparr>pt_pool := tp\<rparr>)" using m t(3-5) by (simp add: main_at_def Let_def)
    with t show ?thesis by blast
  next
    case (2 w)
    then obtain g x where w: "w < length (workers (pt_pool s))" "workers (pt_pool s) ! w = Executing g x"
      "r = Inr ((pt_pool s)\<lparr>workers := (workers (pt_pool s))[w := AtGet], executed := executed (pt_pool s) @ [(g, x)]\<rparr>)"
      using e(2) by (auto split: if_splits worker.splits)
    have "main_at f msgs (s\<lparr>pt_pool := (pt_pool s)\<lparr>workers := (workers (pt_pool s))[w := AtGet],
        executed := executed (pt_pool s) @ [(g, x)]\<rparr>\<rparr>)"
      using m by (simp add: main_at_def Let_def)
    with w(3) run_step_inv(1)[OF i w(1,2)] run_less_work[OF i w(1,2)] show ?thesis by blast
  qed
qed

text \<open>The steps of \<open>main\<close>: what each of them adds to the work of the pool is at most two.\<close>

lemma main_step_keeps:
  assumes m: "main_at f msgs s" and i: "pool_inv (pt_pool s) its k" and e: "op_of e = Some x" "by_main e"
    and l: "pt_left s = x # ys" and st: "pool_step e (pt_pool s) = Some r"
  shows "\<exists>tp its' k'. r = Inr tp \<and> main_at f msgs (s\<lparr>pt_pool := tp, pt_left := ys\<rparr>) \<and> pool_inv tp its' k'
    \<and> pool_work tp \<le> pool_work (pt_pool s) + 2"
proof -
  let ?tp = "pt_pool s" and ?n = "nthreads (pt_pool s)" and ?sent = "map (\<lambda>x. (Function f, x))"
  obtain tp its' k' where t: "r = Inr tp" "pool_inv tp its' k'" using pool_inv_step[OF i e(2) st] by blast
  have n: "int ?n \<le> INT_MAX" using pool_invD(3)[OF i] .
  have "main_at f msgs (s\<lparr>pt_pool := tp, pt_left := ys\<rparr>) \<and> pool_work tp \<le> pool_work ?tp + 2"
    using m[unfolded main_at_def Let_def]
  proof (elim disjE exE conjE)
    fix xs zs
    assume a: "msgs = xs @ zs" "clients ?tp 0 = Idle" "\<not> stopped ?tp" "pt_left s = main_ops f ?n zs" "submitted ?tp = ?sent xs"
    show ?thesis
    proof (cases zs)
      case Nil
      then have "x = DoStop" "ys = DoSetStopped # stop_ops ?n" using a(4) l by simp_all
      moreover from this have "tp = ?tp\<lparr>clients := (clients ?tp)(0 := Stopping)\<rparr>"
        using e st t(1) a(2,3) by (cases e) (auto simp: thread_pool_stop_def)
      ultimately show ?thesis using a Nil by (simp add: main_at_def pool_work_def)
    next
      case (Cons z zs')
      then have x: "x = DoSubmit (Function f) z" "ys = DoEnqueue # main_ops f ?n zs'" using a(4) l by simp_all
      then have "tp = ?tp\<lparr>clients := (clients ?tp)(0 := Submitting (Function f) z)\<rparr>"
        using e st t(1) a(2,3) by (cases e) (auto simp: thread_pool_submit_def split: if_splits)
      moreover have "\<exists>as bs. xs @ z # zs' = as @ z # bs \<and> main_ops f ?n zs' = main_ops f ?n bs \<and> ?sent xs = ?sent as"
        by blast
      ultimately show ?thesis using a x(2) Cons by (simp add: main_at_def pool_work_def)
    qed
  next
    fix xs z zs
    assume a: "msgs = xs @ z # zs" "clients ?tp 0 = Submitting (Function f) z" "\<not> stopped ?tp"
      "pt_left s = DoEnqueue # main_ops f ?n zs" "submitted ?tp = ?sent xs"
    have x: "x = DoEnqueue" "ys = main_ops f ?n zs" using a(4) l by simp_all
    then obtain wi node tp1 where t1: "thread_pool_internal_submit ?tp (Function f) z wi node = Inr tp1"
      "tp = tp1\<lparr>clients := (clients tp1)(0 := Idle), submitted := submitted tp1 @ [(Function f, z)]\<rparr>"
      using e st t(1) a(2) by (cases e) (auto split: if_splits)
    note S = internal_submitted[OF t1(1)]
    have "\<exists>as bs. msgs = as @ bs \<and> clients tp 0 = Idle \<and> \<not> stopped tp \<and> ys = main_ops f (nthreads tp) bs \<and> submitted tp = ?sent as"
      using a(1,3,5) S(1-4) t1(2) x(2) by (intro exI[of _ "xs @ [z]"] exI[of _ zs]) simp
    moreover have "pool_work tp \<le> pool_work ?tp + 2" using S(5) t1(2) by (simp add: pool_work_def)
    ultimately show ?thesis unfolding main_at_def Let_def by simp
  next
    assume a: "clients ?tp 0 = Stopping" "\<not> stopped ?tp" "pt_left s = DoSetStopped # stop_ops ?n" "submitted ?tp = ?sent msgs"
    have x: "x = DoSetStopped" "ys = stop_ops ?n" using a(3) l by simp_all
    then have "tp = ?tp\<lparr>stopped := True, clients := (clients ?tp)(0 := Pilling 0)\<rparr>"
      using e st t(1) a(1) by (cases e) auto
    then show ?thesis using a x(2) by (auto simp: main_at_def pool_work_def)
  next
    fix j
    assume a: "j \<le> ?n" "clients ?tp 0 = Pilling j" "stopped ?tp" "pt_left s = stop_ops (?n - j)" "submitted ?tp = ?sent msgs"
    show ?thesis
    proof (cases "j = ?n")
      case True
      then have "x = DoStopReturns" "ys = []" using a(4) l by (simp_all add: stop_ops_def)
      moreover from this have "tp = ?tp\<lparr>clients := (clients ?tp)(0 := Idle)\<rparr>"
        using e st t(1) a(2) by (cases e) (auto split: if_splits)
      ultimately show ?thesis using a by (simp add: main_at_def pool_work_def)
    next
      case False
      then have d: "?n - j = Suc (?n - Suc j)" using a(1) by simp
      then have x: "x = DoPill" "ys = stop_ops (?n - Suc j)" using a(4) l by (simp_all add: stop_ops_def)
      then obtain wi node where "stop_loop ?tp 0 j wi node = Inr tp"
        using e st t(1) a(2) by (cases e) (auto split: if_splits)
      then obtain tp1 where t1: "thread_pool_internal_submit ?tp DEATH_PILL NULL wi node = Inr tp1"
        "tp = tp1\<lparr>clients := (clients tp1)(0 := Pilling (Suc j))\<rparr>"
        by (auto simp: stop_loop_def c_int_def nat_add_distrib split: if_splits)
      note S = internal_submitted[OF t1(1)]
      have "Suc j \<le> ?n" using False a(1) by simp
      then show ?thesis using S t1(2) a(3,5) x(2) unfolding main_at_def Let_def by (auto simp: pool_work_def)
    qed
  qed (use l in simp)
  with t show ?thesis by blast
qed

lemma pt_step_keeps:
  assumes m: "main_at f msgs s" and i: "pool_inv (pt_pool s) its k" and st: "pt_step e s = Some r"
  shows "\<exists>s' its' k'. r = Inr s' \<and> main_at f msgs s' \<and> pool_inv (pt_pool s') its' k' \<and> test_measure s' < test_measure s
    \<and> nthreads (pt_pool s') = nthreads (pt_pool s)"
proof -
  have e: "by_main e" using st by (auto simp: pt_step_def split: if_splits)
  obtain q where q: "pool_step e (pt_pool s) = Some q" using st e by (auto simp: pt_step_def split: option.splits)
  show ?thesis
  proof (cases "op_of e")
    case None
    from worker_step_keeps[OF m i None q] obtain tp its' k' where
      t: "q = Inr tp" "main_at f msgs (s\<lparr>pt_pool := tp\<rparr>)" "pool_inv tp its' k'" "pool_work tp < pool_work (pt_pool s)" by blast
    then have "r = Inr (s\<lparr>pt_pool := tp\<rparr>)" using st e q None by (simp add: pt_step_def)
    with t step_nthreads[of e "pt_pool s" tp] q show ?thesis by (auto simp: test_measure_def)
  next
    case (Some x)
    obtain tp0 where q0: "q = Inr tp0" using pool_inv_step[OF i e q] by blast
    then obtain ys where l: "pt_left s = x # ys" using st e q Some
      by (auto simp: pt_step_def split: list.splits if_splits)
    from main_step_keeps[OF m i Some e l q] obtain tp its' k' where
      t: "q = Inr tp" "main_at f msgs (s\<lparr>pt_pool := tp, pt_left := ys\<rparr>)" "pool_inv tp its' k'"
      "pool_work tp \<le> pool_work (pt_pool s) + 2" by blast
    then have "r = Inr (s\<lparr>pt_pool := tp, pt_left := ys\<rparr>)" using st e q Some l by (simp add: pt_step_def)
    with t l step_nthreads[of e "pt_pool s" tp] q show ?thesis by (auto simp: test_measure_def)
  qed
qed

lemma pt_run_keeps:
  assumes "main_at f msgs s" "pool_inv (pt_pool s) its k" "pt_run es s = Some r"
  shows "\<exists>s' its' k'. r = Inr s' \<and> main_at f msgs s' \<and> pool_inv (pt_pool s') its' k'
    \<and> length es + test_measure s' \<le> test_measure s \<and> nthreads (pt_pool s') = nthreads (pt_pool s)"
  using assms
proof (induction es arbitrary: s its k)
  case Nil
  then show ?case by auto
next
  case (Cons e es)
  obtain q where q: "pt_step e s = Some q" using Cons.prems(3) by (auto split: option.splits)
  from pt_step_keeps[OF Cons.prems(1,2) q] obtain s1 its1 k1 where
    s1: "q = Inr s1" "main_at f msgs s1" "pool_inv (pt_pool s1) its1 k1" "test_measure s1 < test_measure s"
    "nthreads (pt_pool s1) = nthreads (pt_pool s)" by blast
  have "pt_run es s1 = Some r" using Cons.prems(3) q s1(1) by simp
  from Cons.IH[OF s1(2,3) this] s1(4,5) show ?case by fastforce
qed

text \<open>Something can always be done: the next step of \<open>main\<close>, given memory, or one of a worker.\<close>

lemma not_stuck:
  assumes m: "main_at f msgs s" and i: "pool_inv (pt_pool s) its k" and o: "\<not> test_over s"
    and fresh: "fresh_item (pt_pool s) wi node"
  shows "\<exists>e. pt_step e s \<noteq> None"
proof -
  let ?tp = "pt_pool s"
  note D = pool_invD[OF i]
  have lift: "pt_step e s \<noteq> None" if "by_main e" "op_of e = Some x" "pt_left s = x # ys" "pool_step e ?tp \<noteq> None" for e x ys
    using that by (auto simp: pt_step_def split: option.splits sum.splits)
  show ?thesis
    using m[unfolded main_at_def Let_def]
  proof (elim disjE exE conjE)
    fix xs zs assume a: "clients ?tp 0 = Idle" "pt_left s = main_ops f (nthreads ?tp) zs"
    show ?thesis
    proof (cases zs)
      case Nil
      then show ?thesis using lift[of "Stop 0"] a by (intro exI[of _ "Stop 0"]) simp
    next
      case (Cons z zs')
      then show ?thesis using lift[of "Submit 0 (Function f) z"] a by (intro exI[of _ "Submit 0 (Function f) z"]) simp
    qed
  next
    fix xs z zs assume "clients ?tp 0 = Submitting (Function f) z" "pt_left s = DoEnqueue # main_ops f (nthreads ?tp) zs"
    then show ?thesis using lift[of "Enqueue 0 wi node"] fresh by (intro exI[of _ "Enqueue 0 wi node"]) simp
  next
    assume "clients ?tp 0 = Stopping" "pt_left s = DoSetStopped # stop_ops (nthreads ?tp)"
    then show ?thesis using lift[of "SetStopped 0"] by (intro exI[of _ "SetStopped 0"]) simp
  next
    fix j assume a: "j \<le> nthreads ?tp" "clients ?tp 0 = Pilling j" "pt_left s = stop_ops (nthreads ?tp - j)"
    show ?thesis
    proof (cases "j = nthreads ?tp")
      case True
      then show ?thesis using lift[of "StopReturns 0"] a by (intro exI[of _ "StopReturns 0"]) (simp add: stop_ops_def)
    next
      case False
      then have "nthreads ?tp - j = Suc (nthreads ?tp - Suc j)" using a(1) by simp
      then show ?thesis using lift[of "Pill 0 wi node"] a False fresh
        by (intro exI[of _ "Pill 0 wi node"]) (simp add: stop_ops_def)
    qed
  next
    assume a: "clients ?tp 0 = Idle" "stopped ?tp" "pt_left s = []"
    from worker_can_step[OF i a(2,1)] o a obtain w tp' where
      "pool_step (TakeItem w) ?tp = Some (Inr tp') \<or> pool_step (RunItem w) ?tp = Some (Inr tp')"
      by (auto simp: test_over_def)
    then have "pt_step (TakeItem w) s \<noteq> None \<or> pt_step (RunItem w) s \<noteq> None" by (auto simp: pt_step_def simp del: pool_step.simps)
    then show ?thesis by blast
  qed
qed

section \<open>What the test shows\<close>

lemma test_start:
  assumes "q_head q0 \<in> dom (q_links q0)" "q_items q0 = Map.empty"
  shows "\<exists>tp. thread_pool_init q0 NTHREADS_18 = Inr tp \<and> pool_inv tp [] 0 \<and> nthreads tp = 3
    \<and> main_at f msgs \<lparr>pt_pool = tp, pt_left = main_ops f NTHREADS_18 msgs\<rparr>
    \<and> test_measure \<lparr>pt_pool = tp, pt_left = main_ops f NTHREADS_18 msgs\<rparr> = 6 * length msgs + 18"
proof -
  have "int NTHREADS_18 \<le> INT_MAX" by (simp add: NTHREADS_18_def INT_MAX_def)
  from pool_inv_init[OF assms this] obtain tp where
    tp: "thread_pool_init q0 NTHREADS_18 = Inr tp" "pool_inv tp [] 0" by blast
  have t: "nthreads tp = NTHREADS_18" "clients tp 0 = Idle" "\<not> stopped tp" "submitted tp = []" "workitems tp = Map.empty"
    "workers tp = replicate NTHREADS_18 AtGet"
    using tp(1) by (auto simp: thread_pool_init_def)
  have "length (main_ops f n msgs) = 2 * length msgs + n + 3" for n
    by (induction msgs) (auto simp: stop_ops_def)
  moreover have "pool_work tp = 0"
    using t(5,6) by (simp add: pool_work_def running_items_def List.map_filter_def NTHREADS_18_def numeral_3_eq_3)
  ultimately show ?thesis using tp t
    by (intro exI[of _ tp]) (simp add: main_at_def test_measure_def NTHREADS_18_def)
qed

text \<open>C17: \<open>test_thread_pool.c\<close> ends, in every schedule: no call of the pool fails, there is always a
  thread that can go on as long as \<open>malloc\<close> has memory, a run has at most \<open>6 n + 18\<close> steps for
  \<open>n\<close> messages, and when \<open>main\<close> has joined the threads each message has been printed exactly once
  and no work item is left.\<close>

theorem thread_pool_test_ends:
  assumes "q_head q0 \<in> dom (q_links q0)" "q_items q0 = Map.empty" "test_thread_pool q0 f msgs es = Some r"
  shows "\<exists>s. r = Inr s \<and> length es \<le> 6 * length msgs + 18
    \<and> (test_over s \<longrightarrow> mset (executed (pt_pool s)) = mset (map (\<lambda>x. (Function f, x)) msgs)
         \<and> workitems (pt_pool s) = Map.empty)
    \<and> (\<not> test_over s \<longrightarrow> (\<exists>wi node. fresh_item (pt_pool s) wi node) \<longrightarrow> (\<exists>e. pt_step e s \<noteq> None))"
proof -
  from test_start[OF assms(1,2), of f msgs] obtain tp where
    tp: "thread_pool_init q0 NTHREADS_18 = Inr tp" "pool_inv tp [] 0" "nthreads tp = 3"
    "main_at f msgs \<lparr>pt_pool = tp, pt_left = main_ops f NTHREADS_18 msgs\<rparr>"
    "test_measure \<lparr>pt_pool = tp, pt_left = main_ops f NTHREADS_18 msgs\<rparr> = 6 * length msgs + 18" by blast
  have run: "pt_run es \<lparr>pt_pool = tp, pt_left = main_ops f NTHREADS_18 msgs\<rparr> = Some r"
    using assms(3) tp(1) by (simp add: test_thread_pool_def)
  obtain s its k where s: "r = Inr s" "main_at f msgs s" "pool_inv (pt_pool s) its k"
    "length es + test_measure s \<le> 6 * length msgs + 18" "nthreads (pt_pool s) = 3"
    using pt_run_keeps[OF tp(4) _ run, of "[]" 0] tp(2,3,5) by auto
  have "mset (executed (pt_pool s)) = mset (map (\<lambda>x. (Function f, x)) msgs) \<and> workitems (pt_pool s) = Map.empty"
    if o: "test_over s"
  proof -
    have c: "cleanup_returns (pt_pool s) 0" "pt_left s = []" using o by (simp_all add: test_over_def)
    have "submitted (pt_pool s) = map (\<lambda>x. (Function f, x)) msgs"
      using s(2) c by (auto simp: main_at_def Let_def cleanup_returns_def)
    then show ?thesis using final_clean[OF s(3) c(1)] s(5) by simp
  qed
  then show ?thesis using s(1,4) not_stuck[OF s(2,3)] by auto
qed

text \<open>The run of two messages, in which the third thread does nothing but end.\<close>

definition pool_test_events :: "pool_event list" where
  "pool_test_events = [Submit 0 (Function 9) 10, Enqueue 0 0x100 0x1000, TakeItem 0, Submit 0 (Function 9) 20,
     Enqueue 0 0x200 0x2000, TakeItem 1, RunItem 1, Stop 0, SetStopped 0, Pill 0 0x300 0x3000, Pill 0 0x400 0x4000,
     Pill 0 0x500 0x5000, TakeItem 2, StopReturns 0, RunItem 0, TakeItem 0, TakeItem 1]"

lemma thread_pool_test_ends_witness:
  "\<exists>s. test_thread_pool pool_queue0 9 [10, 20] pool_test_events = Some (Inr s) \<and> test_over s
    \<and> mset (executed (pt_pool s)) = {#(Function 9, 10), (Function 9, 20)#}"
proof -
  have "case test_thread_pool pool_queue0 9 [10, 20] pool_test_events of Some (Inr s) \<Rightarrow> test_over s | _ \<Rightarrow> False"
    by code_simp
  then obtain s where s: "test_thread_pool pool_queue0 9 [10, 20] pool_test_events = Some (Inr s)" "test_over s"
    by (auto simp: result_iff split: option.splits sum.splits)
  have q: "q_head pool_queue0 \<in> dom (q_links pool_queue0)" "q_items pool_queue0 = Map.empty"
    by (simp_all add: pool_queue0_def)
  from thread_pool_test_ends[OF q s(1)] s show ?thesis by (auto simp: add_mset_commute)
qed

end
