(* ===== verification/Sockets.thy ===== *)
theory Sockets
  imports Prelude
begin

text \<open>
  What the echo servers of 20, 21 and 22 share: C strings in byte buffers, the commands they
  look for, and the system calls they make. A run is driven by a script of what the calls
  return; what the program does is a list of actions. A script that ends leaves the program
  waiting in its next call.
\<close>

section \<open>Bytes and C strings\<close>

type_synonym byte = "8 word"

definition BUFSIZE :: nat where "BUFSIZE = 1024"

definition cstr :: "byte list \<Rightarrow> byte list" where
  "cstr buf = takeWhile (\<lambda>b. b \<noteq> 0) buf"

text \<open>\<open>strncmp (a, b, n) == 0\<close>.\<close>

fun strncmp0 :: "byte list \<Rightarrow> byte list \<Rightarrow> nat \<Rightarrow> bool" where
  "strncmp0 a b 0 = True"
| "strncmp0 (x # xs) (y # ys) (Suc n) = (x = y \<and> (x = 0 \<or> strncmp0 xs ys n))"
| "strncmp0 _ _ (Suc n) = False"

definition quit_text :: "byte list" where "quit_text = [0x71, 0x75, 0x69, 0x74, 0]"
definition stop_text :: "byte list" where "stop_text = [0x73, 0x74, 0x6f, 0x70, 0]"

text \<open>\<open>strncmp(buf, "quit", 4) == 0 && buf[4] < ' '\<close>; \<open>char\<close> is signed on x86.\<close>

definition is_command :: "byte list \<Rightarrow> byte list \<Rightarrow> bool" where
  "is_command wd buf \<longleftrightarrow> strncmp0 buf wd 4 \<and> sint (buf ! 4) < 32"

text \<open>
  \<open>char buf[BUFSIZE]\<close> on a stack where there was \<open>junk\<close>; \<open>len = read(fd, buf, BUFSIZE)\<close>, where \<open>avail\<close> is
  what the connection has to give, of which a call takes at most its count; and \<open>buf[len] = 0\<close>: the
  rest of the buffer keeps what it had.
\<close>

definition stack_buffer :: "(nat \<Rightarrow> byte) \<Rightarrow> byte list" where
  "stack_buffer junk = map junk [0..<BUFSIZE]"

definition read_call :: "byte list \<Rightarrow> byte list" where
  "read_call avail = take BUFSIZE avail"

definition receive :: "byte list \<Rightarrow> byte list \<Rightarrow> c_error + byte list" where
  "receive buf data =
     (if length data < length buf then Inr (data @ 0 # drop (Suc (length data)) buf) else Inl OutOfBounds)"

text \<open>\<open>atoi\<close>: white space, a sign, digits; the value has to be an \<open>int\<close>.\<close>

definition is_space :: "char \<Rightarrow> bool" where
  "is_space c \<longleftrightarrow> c = CHR '' '' \<or> (9 \<le> (of_char c :: nat) \<and> (of_char c :: nat) \<le> 13)"

definition is_digit :: "char \<Rightarrow> bool" where
  "is_digit c \<longleftrightarrow> 48 \<le> (of_char c :: nat) \<and> (of_char c :: nat) \<le> 57"

definition digits_value :: "string \<Rightarrow> int" where
  "digits_value ds = foldl (\<lambda>n c. 10 * n + (int (of_char c) - 48)) 0 ds"

definition atoi :: "string \<Rightarrow> c_error + int" where
  "atoi s =
     (let t = dropWhile is_space s in
      if t \<noteq> [] \<and> t ! 0 = CHR ''-'' then c_int (- digits_value (takeWhile is_digit (drop 1 t)))
      else if t \<noteq> [] \<and> t ! 0 = CHR ''+'' then c_int (digits_value (takeWhile is_digit (drop 1 t)))
      else c_int (digits_value (takeWhile is_digit t)))"

section \<open>Calls and actions\<close>

datatype act
  = Puts string
  | Perror string
  | Usage
  | BoundTo "16 word"
  | BoundPath string
  | Unlinked string
  | Listening
  | Established string int
  | Connected
  | Received int "byte list"
  | Wrote nat "byte list"
  | Closed nat
  | Note string int

datatype ending = Waiting | Exits int | Fails c_error

text \<open>What there is to read for a read and what the write that follows it returns; a short write is
  possible.\<close>

datatype io = ReadFails | Reads "byte list" "nat option"

text \<open>What the calls of the start return, negative for failure.\<close>

record net_setup =
  socket_returns :: int
  bind_returns :: int
  listen_returns :: int

text \<open>\<open>accept\<close>: the descriptor, and the address as \<open>inet_ntop\<close> gives it, if it does.\<close>

datatype accepted = AcceptFails | Accepted nat "string option" int

text \<open>How a connection goes on after one round of its loop.\<close>

datatype next_step = Continues "byte list" | Leaves "byte list" | Stops | Dies int | Breaks c_error

text \<open>From \<open>socket\<close> to \<open>listen\<close>: the result is the descriptor, or the exit code.\<close>

definition tcp_setup :: "int \<Rightarrow> net_setup \<Rightarrow> act list \<times> (int + nat)" where
  "tcp_setup port env =
     (if socket_returns env < 0 then ([Perror ''ERROR opening socket''], Inl 1)
      else if bind_returns env < 0 then ([Perror ''ERROR on binding''], Inl 1)
      else if listen_returns env < 0 then ([BoundTo (word_of_int port), Perror ''ERROR on listen''], Inl 1)
      else ([BoundTo (word_of_int port), Listening], Inr (nat (socket_returns env))))"

text \<open>The descriptor an action is about, and what was written to one.\<close>

primrec act_fd :: "act \<Rightarrow> nat option" where
  "act_fd (Puts x) = None" | "act_fd (Perror x) = None" | "act_fd Usage = None"
| "act_fd (BoundTo p) = None" | "act_fd (BoundPath p) = None" | "act_fd (Unlinked p) = None"
| "act_fd Listening = None" | "act_fd (Established a p) = None" | "act_fd Connected = None"
| "act_fd (Received n x) = None" | "act_fd (Wrote fd x) = Some fd" | "act_fd (Closed fd) = Some fd"
| "act_fd (Note x n) = None"

section \<open>Facts on buffers\<close>

lemma receive_length: "receive buf data = Inr buf' \<Longrightarrow> length buf' = length buf"
  by (auto simp: receive_def split: if_splits)

lemma receive_full: "length buf \<le> length data \<Longrightarrow> receive buf data = Inl OutOfBounds"
  by (simp add: receive_def)

lemma read_call_short [simp]: "length d \<le> BUFSIZE \<Longrightarrow> read_call d = d"
  by (simp add: read_call_def)

lemma read_call_length [simp]: "length (read_call d) < BUFSIZE \<longleftrightarrow> length d < BUFSIZE"
  by (auto simp: read_call_def)

lemma stack_buffer_length [simp]: "length (stack_buffer junk) = BUFSIZE"
  by (simp add: stack_buffer_def)

lemma receive_ok: "length data < length buf \<Longrightarrow> receive buf data = Inr (data @ 0 # drop (Suc (length data)) buf)"
  by (simp add: receive_def)

lemma cstr_stale [simp]: "cstr (data @ 0 # rest) = cstr data"
  by (induction data) (auto simp: cstr_def)

lemma cstr_id: "0 \<notin> set data \<Longrightarrow> cstr data = data"
  by (simp add: cstr_def takeWhile_eq_all_conv) metis

lemma cstr_length: "length (cstr data) \<le> length data"
  by (simp add: cstr_def length_takeWhile_le)

lemma take_cstr [simp]: "take (length (cstr data)) (data @ rest) = cstr data"
  unfolding cstr_def by (metis append_take_drop_id length_takeWhile_le take_append take_all_iff takeWhile_eq_take append_Nil2 diff_is_0_eq' take_0)

text \<open>A command is seen in the received bytes alone: the stale rest of the buffer is never looked
  at.\<close>

lemma strncmp0_stale:
  "0 \<notin> set (take n wd) \<Longrightarrow> n \<le> length wd \<Longrightarrow>
   strncmp0 (data @ 0 # rest) wd n \<longleftrightarrow> n \<le> length data \<and> take n data = take n wd"
proof (induction data arbitrary: wd n)
  case Nil
  then show ?case by (cases n; cases wd) auto
next
  case (Cons d data)
  then show ?case by (cases n; cases wd) auto
qed

definition command_in :: "byte list \<Rightarrow> byte list \<Rightarrow> bool" where
  "command_in wd data \<longleftrightarrow> 4 \<le> length data \<and> take 4 data = take 4 wd \<and> (4 < length data \<longrightarrow> sint (data ! 4) < 32)"

lemma is_command_received:
  assumes "wd = quit_text \<or> wd = stop_text"
  shows "is_command wd (data @ 0 # rest) \<longleftrightarrow> command_in wd data"
proof -
  have t: "0 \<notin> set (take 4 wd)" "4 \<le> length wd" using assms by (auto simp: quit_text_def stop_text_def)
  show ?thesis
  proof (cases "length data = 4")
    case True
    then show ?thesis using strncmp0_stale[OF t] by (simp add: is_command_def command_in_def nth_append)
  next
    case False
    then show ?thesis using strncmp0_stale[OF t, of data rest]
      by (auto simp: is_command_def command_in_def nth_append)
  qed
qed

lemma quit_not_stop: "command_in quit_text data \<Longrightarrow> \<not> command_in stop_text data"
  by (simp add: command_in_def quit_text_def stop_text_def)

end
