(* ===== verification/Echo_Servers.thy ===== *)
theory Echo_Servers
  imports Sockets
begin

text \<open>
  The echo servers over TCP of 20, one connection at a time, one thread per connection, and a
  pool of threads, and the one over a UNIX socket of 22. One round of a connection's loop is a
  function of the buffer and of what \<open>read\<close> and \<open>write\<close> return; the servers put the rounds of
  their connections together, in sequence or interleaved.
\<close>

section \<open>One connection at a time\<close>

definition conn_round_01 :: "nat \<Rightarrow> byte list \<Rightarrow> io \<Rightarrow> act list \<times> next_step" where
  "conn_round_01 fd buf call =
     (case call of
        ReadFails \<Rightarrow> ([Perror ''ERROR reading from socket''], Dies 1)
      | Reads avail w \<Rightarrow>
          (let data = read_call avail in
           case receive buf data of
             Inl e \<Rightarrow> ([], Breaks e)
           | Inr buf \<Rightarrow>
               (let a = [Received (int (length data)) (cstr buf)] in
                case w of
                  None \<Rightarrow> (a @ [Perror ''ERROR writing to socket''], Dies 1)
                | Some n \<Rightarrow>
                    (let b = a @ [Wrote fd (take n (take (length data) buf))] in
                     if is_command quit_text buf then (b @ [Closed fd], Leaves buf)
                     else if is_command stop_text buf then (b @ [Closed fd], Stops)
                     else (b, Continues buf)))))"

text \<open>The inner loop, for the calls of the script; at its end the server waits in \<open>read\<close>.\<close>

fun session_01 :: "nat \<Rightarrow> byte list \<Rightarrow> io list \<Rightarrow> act list \<times> next_step" where
  "session_01 fd buf [] = ([], Continues buf)"
| "session_01 fd buf (call # calls) =
     (case conn_round_01 fd buf call of
        (as, Continues buf1) \<Rightarrow> (let (as1, end) = session_01 fd buf1 calls in (as @ as1, end))
      | r \<Rightarrow> r)"

fun accept_loop_01 :: "nat \<Rightarrow> byte list \<Rightarrow> (accepted \<times> io list) list \<Rightarrow> act list \<times> ending" where
  "accept_loop_01 main_fd buf [] = ([], Waiting)"
| "accept_loop_01 main_fd buf ((AcceptFails, calls) # conns) = ([Perror ''ERROR on accept''], Exits 1)"
| "accept_loop_01 main_fd buf ((Accepted fd None port, calls) # conns) = ([Perror ''ERROR on inet_ntoa''], Exits 1)"
| "accept_loop_01 main_fd buf ((Accepted fd (Some addr) port, calls) # conns) =
     (let (as, end) = session_01 fd buf calls; as = Established addr port # as in
      case end of
        Continues buf1 \<Rightarrow> (as, Waiting)
      | Leaves buf1 \<Rightarrow> (let (as1, end) = accept_loop_01 main_fd buf1 conns in (as @ as1, end))
      | Stops \<Rightarrow> (as @ [Closed main_fd, Puts '':: END ::''], Exits 0)
      | Dies n \<Rightarrow> (as, Exits n)
      | Breaks e \<Rightarrow> (as, Fails e))"

definition server_01 :: "string list \<Rightarrow> net_setup \<Rightarrow> (nat \<Rightarrow> byte) \<Rightarrow> (accepted \<times> io list) list \<Rightarrow> act list \<times> ending" where
  "server_01 argv env junk conns =
     (if length argv \<noteq> 2 then ([Usage], Exits 1)
      else (case atoi (argv ! 1) of
              Inl e \<Rightarrow> ([], Fails e)
            | Inr port \<Rightarrow>
                (case tcp_setup port env of
                   (as, Inl n) \<Rightarrow> (Puts '':: START ::'' # as, Exits n)
                 | (as, Inr main_fd) \<Rightarrow>
                     (let (as1, end) = accept_loop_01 main_fd (stack_buffer junk) conns in
                      (Puts '':: START ::'' # as @ as1, end)))))"

section \<open>A thread per connection, and a pool\<close>

text \<open>One round of \<open>process_connection\<close>. \<open>Dies 1\<close> is \<open>terror\<close>, which ends the thread in 20-02 and
  22 and the process in 20-03. \<open>exit(0)\<close> is \<open>Stops\<close>.\<close>

definition conn_round_02 :: "nat \<Rightarrow> byte list \<Rightarrow> io \<Rightarrow> act list \<times> next_step" where
  "conn_round_02 fd buf call =
     (case call of
        ReadFails \<Rightarrow> ([Perror ''ERROR reading from socket''], Dies 1)
      | Reads avail w \<Rightarrow>
          (let data = read_call avail in
           case receive buf data of
             Inl e \<Rightarrow> ([], Breaks e)
           | Inr buf \<Rightarrow>
               (let a = [Received (int (length data)) (cstr buf)] in
                case w of
                  None \<Rightarrow> (a @ [Perror ''ERROR writing to socket''], Dies 1)
                | Some n \<Rightarrow>
                    (let b = a @ [Wrote fd (take n (take (length (cstr buf)) buf))] in
                     if is_command quit_text buf then (b @ [Closed fd], Leaves buf)
                     else if is_command stop_text buf then (b @ [Puts '':: EXIT ::''], Stops)
                     else (b, Continues buf)))))"

definition conn_round_22 :: "nat \<Rightarrow> byte list \<Rightarrow> io \<Rightarrow> act list \<times> next_step" where
  "conn_round_22 fd buf call =
     (case call of
        ReadFails \<Rightarrow> ([Perror ''ERROR reading from socket''], Dies 1)
      | Reads avail w \<Rightarrow>
          (let data = read_call avail in
           case receive buf data of
             Inl e \<Rightarrow> ([], Breaks e)
           | Inr buf \<Rightarrow>
               (let a = [Received (int (length data)) (cstr buf)] in
                if length data = 0 \<or> is_command quit_text buf then (a @ [Closed fd], Leaves buf)
                else
                  (case w of
                     None \<Rightarrow> (a @ [Perror ''ERROR writing to socket''], Dies 1)
                   | Some n \<Rightarrow>
                       (let b = a @ [Wrote fd (take n (take (length (cstr buf) + 1) buf))] in
                        if is_command stop_text buf then (b @ [Puts '':: EXIT ::''], Stops)
                        else (b, Continues buf))))))"

text \<open>
  A server whose connections each have a thread that lives as long as its connection. \<open>threads\<close>
  holds descriptor and buffer of every live thread; \<open>open_fds\<close> what is open, also what a thread
  that died left open. \<open>cleanup\<close> is what the accept loop does before it gives up.
\<close>

record thread_server =
  threads :: "(nat \<times> byte list) list"
  open_conns :: "nat list"
  trace :: "act list"
  ended :: ending

datatype server_event = NewConnection accepted "byte list" | Round nat io

definition thread_buf :: "(nat \<times> byte list) list \<Rightarrow> nat \<Rightarrow> byte list option" where
  "thread_buf ths fd = map_of ths fd"

definition drop_thread :: "nat \<Rightarrow> (nat \<times> byte list) list \<Rightarrow> (nat \<times> byte list) list" where
  "drop_thread fd ths = filter (\<lambda>(g, b). g \<noteq> fd) ths"

definition set_buf :: "nat \<Rightarrow> byte list \<Rightarrow> (nat \<times> byte list) list \<Rightarrow> (nat \<times> byte list) list" where
  "set_buf fd buf ths = map (\<lambda>(g, b). if g = fd then (g, buf) else (g, b)) ths"

definition thread_round :: "(nat \<Rightarrow> byte list \<Rightarrow> io \<Rightarrow> act list \<times> next_step) \<Rightarrow> nat \<Rightarrow> io \<Rightarrow> thread_server
    \<Rightarrow> thread_server option" where
  "thread_round rnd fd call s =
     (case thread_buf (threads s) fd of
        None \<Rightarrow> None
      | Some buf \<Rightarrow>
          (let (as, end) = rnd fd buf call; s = s\<lparr>trace := trace s @ as\<rparr> in
           Some (case end of
               Continues buf1 \<Rightarrow> s\<lparr>threads := set_buf fd buf1 (threads s)\<rparr>
             | Leaves buf1 \<Rightarrow> s\<lparr>threads := drop_thread fd (threads s), open_conns := removeAll fd (open_conns s)\<rparr>
             | Stops \<Rightarrow> s\<lparr>ended := Exits 0\<rparr>
             | Dies n \<Rightarrow> s\<lparr>threads := drop_thread fd (threads s)\<rparr>
             | Breaks e \<Rightarrow> s\<lparr>ended := Fails e\<rparr>)))"

definition thread_accept :: "act list \<Rightarrow> (string \<Rightarrow> int \<Rightarrow> act) \<Rightarrow> bool \<Rightarrow> accepted \<Rightarrow> byte list \<Rightarrow> thread_server
    \<Rightarrow> thread_server option" where
  "thread_accept cleanup hello named acc buf s =
     (case acc of
        AcceptFails \<Rightarrow> Some (s\<lparr>trace := trace s @ cleanup @ [Perror ''ERROR on accept''], ended := Exits 1\<rparr>)
      | Accepted fd addr port \<Rightarrow>
          if fd \<in> set (open_conns s) \<or> length buf \<noteq> BUFSIZE then None
          else if named \<and> addr = None
          then Some (s\<lparr>trace := trace s @ [Perror ''ERROR on inet_ntoa''], ended := Exits 1\<rparr>)
          else Some (s\<lparr>trace := trace s @ [hello (case addr of Some a \<Rightarrow> a | None \<Rightarrow> []) port],
                 threads := threads s @ [(fd, buf)], open_conns := open_conns s @ [fd]\<rparr>))"

definition server_step_02 :: "server_event \<Rightarrow> thread_server \<Rightarrow> thread_server option" where
  "server_step_02 e s =
     (if ended s \<noteq> Waiting then None
      else (case e of
              NewConnection acc buf \<Rightarrow> thread_accept [] Established True acc buf s
            | Round fd call \<Rightarrow> thread_round conn_round_02 fd call s))"

definition server_step_22 :: "nat \<Rightarrow> string \<Rightarrow> server_event \<Rightarrow> thread_server \<Rightarrow> thread_server option" where
  "server_step_22 main_fd path e s =
     (if ended s \<noteq> Waiting then None
      else (case e of
              NewConnection acc buf \<Rightarrow>
                thread_accept [Closed main_fd, Unlinked path] (\<lambda>a p. Connected) False acc buf s
            | Round fd call \<Rightarrow> thread_round conn_round_22 fd call s))"

fun server_run :: "(server_event \<Rightarrow> thread_server \<Rightarrow> thread_server option) \<Rightarrow> server_event list \<Rightarrow> thread_server
    \<Rightarrow> thread_server option" where
  "server_run st [] s = Some s"
| "server_run st (e # es) s = Option.bind (st e s) (server_run st es)"

definition server_02 :: "string list \<Rightarrow> net_setup \<Rightarrow> server_event list \<Rightarrow> thread_server option" where
  "server_02 argv env es =
     (let s = \<lparr>threads = [], open_conns = [], trace = [], ended = Waiting\<rparr> in
      if length argv \<noteq> 2 then Some (s\<lparr>trace := [Usage], ended := Exits 1\<rparr>)
      else (case atoi (argv ! 1) of
              Inl e \<Rightarrow> Some (s\<lparr>ended := Fails e\<rparr>)
            | Inr port \<Rightarrow>
                (case tcp_setup port env of
                   (as, Inl n) \<Rightarrow> Some (s\<lparr>trace := Puts '':: START ::'' # as, ended := Exits n\<rparr>)
                 | (as, Inr main_fd) \<Rightarrow>
                     server_run server_step_02 es (s\<lparr>trace := Puts '':: START ::'' # as\<rparr>))))"

text \<open>\<open>sun_path\<close> has 108 bytes; the path is written without a check of its length.\<close>

definition SUN_PATH_LEN :: nat where "SUN_PATH_LEN = 108"

definition sun_path :: "string \<Rightarrow> c_error + string" where
  "sun_path arg = (let p = ''/tmp/'' @ arg in if length p < SUN_PATH_LEN then Inr p else Inl OutOfBounds)"

definition server_22 :: "string list \<Rightarrow> net_setup \<Rightarrow> server_event list \<Rightarrow> thread_server option" where
  "server_22 argv env es =
     (let s = \<lparr>threads = [], open_conns = [], trace = [], ended = Waiting\<rparr>; start = Puts '':: START ::'' in
      if length argv \<noteq> 2 then Some (s\<lparr>trace := [Usage], ended := Exits 1\<rparr>)
      else if socket_returns env < 0
      then Some (s\<lparr>trace := [start, Perror ''ERROR creating socket''], ended := Exits 1\<rparr>)
      else (case sun_path (argv ! 1) of
              Inl e \<Rightarrow> Some (s\<lparr>trace := [start], ended := Fails e\<rparr>)
            | Inr path \<Rightarrow>
                (let main_fd = nat (socket_returns env) in
                 if bind_returns env < 0
                 then Some (s\<lparr>trace := [start, Unlinked path, Closed main_fd, Perror ''ERROR on binding''], ended := Exits 1\<rparr>)
                 else if listen_returns env < 0
                 then Some (s\<lparr>trace := [start, Unlinked path, BoundPath path, Closed main_fd, Unlinked path,
                        Perror ''ERROR on listen''], ended := Exits 1\<rparr>)
                 else server_run (server_step_22 main_fd path) es
                        (s\<lparr>trace := [start, Unlinked path, BoundPath path, Listening, Puts '':: LISTENING ::'']\<rparr>))))"

section \<open>A pool of threads\<close>

text \<open>
  20-03: \<open>process_connection\<close> is the action that the accept loop submits to the thread pool, whose
  queue hands items out in order; a worker keeps a connection until it leaves.
\<close>

definition POOL_THREADS :: nat where "POOL_THREADS = 8"

record pool_server =
  waiting_conns :: "nat list"
  workers03 :: "(nat \<times> byte list) option list"
  accepted03 :: "nat list"
  started03 :: "nat list"
  trace03 :: "act list"
  ended03 :: ending

datatype pool_server_event = PoolConnection accepted | Picks nat "byte list" | PoolRound nat io

definition conn_round_03 :: "nat \<Rightarrow> byte list \<Rightarrow> io \<Rightarrow> act list \<times> next_step" where
  "conn_round_03 fd buf call =
     (case call of
        ReadFails \<Rightarrow> ([Perror ''ERROR reading from socket''], Dies 1)
      | Reads avail w \<Rightarrow>
          (let data = read_call avail in
           case receive buf data of
             Inl e \<Rightarrow> ([], Breaks e)
           | Inr buf \<Rightarrow>
               (let a = [Received (int (length data)) (cstr buf)] in
                case w of
                  None \<Rightarrow> (a @ [Perror ''ERROR writing to socket''], Dies 1)
                | Some n \<Rightarrow>
                    (let b = a @ [Wrote fd (take n (take (length (cstr buf)) buf))] in
                     if is_command quit_text buf then (b @ [Closed fd], Leaves buf)
                     else if is_command stop_text buf then (b @ [Puts '':: EXIT ::''], Stops)
                     else (b, Continues buf)))))"

definition pool_round :: "nat \<Rightarrow> io \<Rightarrow> pool_server \<Rightarrow> pool_server option" where
  "pool_round w call s =
     (if w < length (workers03 s) then
       (case workers03 s ! w of
          None \<Rightarrow> None
        | Some (fd, buf) \<Rightarrow>
            (let (as, end) = conn_round_03 fd buf call; s = s\<lparr>trace03 := trace03 s @ as\<rparr> in
             Some (case end of
                 Continues buf1 \<Rightarrow> s\<lparr>workers03 := (workers03 s)[w := Some (fd, buf1)]\<rparr>
               | Leaves buf1 \<Rightarrow> s\<lparr>workers03 := (workers03 s)[w := None]\<rparr>
               | Stops \<Rightarrow> s\<lparr>ended03 := Exits 0\<rparr>
               | Dies n \<Rightarrow> s\<lparr>ended03 := Exits n\<rparr>
               | Breaks e \<Rightarrow> s\<lparr>ended03 := Fails e\<rparr>)))
      else None)"

definition server_step_03 :: "pool_server_event \<Rightarrow> pool_server \<Rightarrow> pool_server option" where
  "server_step_03 e s =
     (if ended03 s \<noteq> Waiting then None
      else (case e of
          PoolConnection AcceptFails \<Rightarrow> Some (s\<lparr>trace03 := trace03 s @ [Perror ''ERROR on accept''], ended03 := Exits 1\<rparr>)
        | PoolConnection (Accepted fd None port) \<Rightarrow>
            Some (s\<lparr>trace03 := trace03 s @ [Perror ''ERROR on inet_ntoa''], ended03 := Exits 1\<rparr>)
        | PoolConnection (Accepted fd (Some addr) port) \<Rightarrow>
            Some (s\<lparr>trace03 := trace03 s @ [Established addr port], waiting_conns := waiting_conns s @ [fd],
                 accepted03 := accepted03 s @ [fd]\<rparr>)
        | Picks w buf \<Rightarrow>
            (case waiting_conns s of
               [] \<Rightarrow> None
             | fd # rest \<Rightarrow>
                 if w < length (workers03 s) \<and> workers03 s ! w = None \<and> length buf = BUFSIZE
                 then Some (s\<lparr>waiting_conns := rest, workers03 := (workers03 s)[w := Some (fd, buf)],
                        started03 := started03 s @ [fd]\<rparr>)
                 else None)
        | PoolRound w call \<Rightarrow> pool_round w call s))"

fun pool_server_run :: "pool_server_event list \<Rightarrow> pool_server \<Rightarrow> pool_server option" where
  "pool_server_run [] s = Some s"
| "pool_server_run (e # es) s = Option.bind (server_step_03 e s) (pool_server_run es)"

definition server_03 :: "string list \<Rightarrow> net_setup \<Rightarrow> pool_server_event list \<Rightarrow> pool_server option" where
  "server_03 argv env es =
     (let s = \<lparr>waiting_conns = [], workers03 = replicate POOL_THREADS None, accepted03 = [], started03 = [],
         trace03 = [], ended03 = Waiting\<rparr> in
      if length argv \<noteq> 2 then Some (s\<lparr>trace03 := [Usage], ended03 := Exits 1\<rparr>)
      else (case atoi (argv ! 1) of
              Inl e \<Rightarrow> Some (s\<lparr>ended03 := Fails e\<rparr>)
            | Inr port \<Rightarrow>
                (case tcp_setup port env of
                   (as, Inl n) \<Rightarrow> Some (s\<lparr>trace03 := Puts '':: START ::'' # as, ended03 := Exits n\<rparr>)
                 | (as, Inr main_fd) \<Rightarrow> pool_server_run es (s\<lparr>trace03 := Puts '':: START ::'' # as\<rparr>))))"

end
