(* ===== verification/Echo_Client_Uds.thy ===== *)
theory Echo_Client_Uds
  imports Echo_Servers
begin

text \<open>
  \<open>echo-client.c\<close> of 22: it sends each line of its input, without the line end and with a NUL,
  and prints what comes back. Standard input is a byte list; what the socket calls return is given.
\<close>

definition LINE_LEN :: nat where "LINE_LEN = 256"

text \<open>\<open>fgets (line, n + 1, stdin)\<close> on non-empty input: the line, with its newline if it fits, and
  what is left.\<close>

fun fgets :: "nat \<Rightarrow> byte list \<Rightarrow> byte list \<times> byte list" where
  "fgets 0 input = ([], input)"
| "fgets (Suc n) [] = ([], [])"
| "fgets (Suc n) (b # input) =
     (if b = 10 then ([b], input) else (let (line, rest) = fgets n input in (b # line, rest)))"

definition is_eol :: "byte \<Rightarrow> bool" where "is_eol b \<longleftrightarrow> b = 13 \<or> b = 10"

definition strip_eol :: "byte list \<Rightarrow> byte list" where
  "strip_eol line = rev (dropWhile is_eol (rev line))"

text \<open>
  The loop in the two pieces between which it waits: from \<open>fgets\<close> to the \<open>write\<close> of a line, and
  from the return of \<open>read\<close> to the next \<open>fgets\<close>. The client is at the one or the other, or has ended.
\<close>

datatype uds_place = AtPrompt | Awaiting | HasLeft ending

record uds_client =
  uc_at :: uds_place
  uc_input :: "byte list"
  uc_acts :: "act list"

definition client_writes :: "nat \<Rightarrow> bool \<Rightarrow> uds_client \<Rightarrow> uds_client option" where
  "client_writes fd write_ok c =
     (if uc_at c \<noteq> AtPrompt then None
      else if uc_input c = []
      then Some (c\<lparr>uc_at := HasLeft (Exits 1), uc_acts := uc_acts c @ [Perror ''ERROR reading stdin'']\<rparr>)
      else
       (let (line, rest) = fgets (LINE_LEN - 1) (uc_input c);
            msg = strip_eol (cstr line) in
        Some (if \<not> write_ok
          then c\<lparr>uc_at := HasLeft (Exits 1), uc_input := rest, uc_acts := uc_acts c @ [Perror ''ERROR writing to socket'']\<rparr>
          else c\<lparr>uc_at := Awaiting, uc_input := rest, uc_acts := uc_acts c @ [Wrote fd (msg @ [0])]\<rparr>)))"

text \<open>\<open>read\<close> takes at most \<open>LINE_LEN\<close> bytes of what there is. Its result goes into a \<open>size_t\<close>: an
  error is $2^{64}-1$, which is never below zero, so the error branch is dead and the store behind
  the data, in an array of \<open>LINE_LEN + 1\<close>, goes out of bounds.\<close>

datatype read_result = ReadError | ReadData "byte list"

fun dlen_of :: "read_result \<Rightarrow> 64 word" where
  "dlen_of ReadError = - 1"
| "dlen_of (ReadData avail) = of_nat (length (take LINE_LEN avail))"

definition client_reads :: "nat \<Rightarrow> read_result \<Rightarrow> uds_client \<Rightarrow> uds_client option" where
  "client_reads fd r c =
     (let dlen = dlen_of r in
      if uc_at c \<noteq> Awaiting then None
      else if dlen = 0
      then Some (c\<lparr>uc_at := HasLeft (Exits 0), uc_acts := uc_acts c @ [Closed fd, Closed fd, Puts '':: END ::'']\<rparr>)
      else if dlen < 0
      then Some (c\<lparr>uc_at := HasLeft (Exits 1), uc_acts := uc_acts c @ [Perror ''ERROR reading from socket'']\<rparr>)
      else if unat dlen < LINE_LEN + 1
      then Some (case r of
          ReadError \<Rightarrow> c\<lparr>uc_at := AtPrompt\<rparr>
        | ReadData avail \<Rightarrow>
            (let d = take LINE_LEN avail in
             c\<lparr>uc_at := AtPrompt, uc_acts := uc_acts c @ [Received (int (length d)) (cstr d)]\<rparr>))
      else Some (c\<lparr>uc_at := HasLeft (Fails OutOfBounds)\<rparr>))"

text \<open>\<open>main\<close> up to the loop: \<open>connect_ok\<close> is whether \<open>connect\<close> succeeds. And a run of the program, for
  what its calls return.\<close>

definition client_start_22 :: "string list \<Rightarrow> int \<Rightarrow> bool \<Rightarrow> byte list \<Rightarrow> uds_client" where
  "client_start_22 argv conn_fd connect_ok input =
     (let c = \<lparr>uc_at = HasLeft (Exits 1), uc_input = input, uc_acts = [Puts '':: START ::'']\<rparr> in
      if length argv \<noteq> 2 then c\<lparr>uc_acts := [Usage]\<rparr>
      else if conn_fd < 0 then c\<lparr>uc_acts := uc_acts c @ [Perror ''ERROR creating socket'']\<rparr>
      else (case sun_path (argv ! 1) of
              Inl e \<Rightarrow> c\<lparr>uc_at := HasLeft (Fails e)\<rparr>
            | Inr path \<Rightarrow>
                if \<not> connect_ok then c\<lparr>uc_acts := uc_acts c @ [Perror ''ERROR connecting socket'']\<rparr>
                else c\<lparr>uc_at := AtPrompt, uc_acts := uc_acts c @ [Puts '':: CONNECTED ::'']\<rparr>))"

datatype client_call = WriteReturns bool | ReadReturns read_result

fun client_run_22 :: "nat \<Rightarrow> client_call list \<Rightarrow> uds_client \<Rightarrow> uds_client option" where
  "client_run_22 fd [] c = Some c"
| "client_run_22 fd (WriteReturns ok # calls) c = Option.bind (client_writes fd ok c) (client_run_22 fd calls)"
| "client_run_22 fd (ReadReturns r # calls) c = Option.bind (client_reads fd r c) (client_run_22 fd calls)"

definition client_22 :: "string list \<Rightarrow> int \<Rightarrow> bool \<Rightarrow> byte list \<Rightarrow> client_call list \<Rightarrow> uds_client option" where
  "client_22 argv conn_fd connect_ok input calls =
     client_run_22 (nat conn_fd) calls (client_start_22 argv conn_fd connect_ok input)"

text \<open>When a read of the client fails, its test for an error never holds, because \<open>dlen\<close> is
  unsigned: it goes on to store a byte outside of its buffer.\<close>

theorem client_read_error:
  assumes "uc_at c = Awaiting"
  shows "client_reads fd ReadError c = Some (c\<lparr>uc_at := HasLeft (Fails OutOfBounds)\<rparr>)"
proof -
  have "unat (- 1 :: 64 word) = 18446744073709551615"
    by (simp add: unsigned_minus_1_eq_mask mask_eq_exp_minus_1)
  then show ?thesis using assms by (simp add: client_reads_def LINE_LEN_def Let_def)
qed

lemma client_read_error_witness:
  "\<exists>c. client_22 [''client'', ''echo''] 5 True [0x68, 10] [WriteReturns True, ReadReturns ReadError] = Some c
    \<and> uc_at c = HasLeft (Fails OutOfBounds)"
proof -
  let ?c = "\<lparr>uc_at = Awaiting, uc_input = [], uc_acts = [Puts '':: START ::'', Puts '':: CONNECTED ::'', Wrote 5 [0x68, 0]]\<rparr>"
  have "fgets (LINE_LEN - 1) [0x68, 10] = ([0x68, 10], [])" "strip_eol (cstr [0x68, 10]) = [0x68]" by code_simp+
  then have "client_22 [''client'', ''echo''] 5 True [0x68, 10] [WriteReturns True, ReadReturns ReadError]
      = Option.bind (client_reads 5 ReadError ?c) (client_run_22 5 [])"
    by (simp add: client_22_def client_start_22_def sun_path_def SUN_PATH_LEN_def client_writes_def Let_def)
  then show ?thesis using client_read_error[of ?c 5] by simp
qed

end
