(* ===== verification/Echo_Props.thy ===== *)
theory Echo_Props
  imports Echo_Client_Uds
begin

text \<open>
  What the echo servers of 20 and 22 promise: each connection gets its own bytes back, in order
  and whatever the others do; which inputs end a connection or the server; and what the
  fixed-size buffer does not take.
\<close>

section \<open>The sequential server\<close>

definition full :: "byte list \<Rightarrow> io" where
  "full d = Reads d (Some (length d))"

definition command :: "byte list \<Rightarrow> bool" where
  "command d \<longleftrightarrow> command_in quit_text d \<or> command_in stop_text d"

text \<open>The data up to and including the first command.\<close>

fun until_command :: "byte list list \<Rightarrow> byte list list" where
  "until_command [] = []"
| "until_command (d # ds) = (if command d then [d] else d # until_command ds)"

definition blank :: "byte list" where
  "blank = replicate BUFSIZE 0"

lemma blank_length [simp]: "length blank = BUFSIZE"
  by (simp add: blank_def)

lemma round_01:
  assumes "length d < length buf" "length d < BUFSIZE"
  shows "\<exists>buf1. length buf1 = length buf \<and> conn_round_01 fd buf (full d) =
     (if command_in quit_text d then ([Received (int (length d)) (cstr d), Wrote fd d, Closed fd], Leaves buf1)
      else if command_in stop_text d then ([Received (int (length d)) (cstr d), Wrote fd d, Closed fd], Stops)
      else ([Received (int (length d)) (cstr d), Wrote fd d], Continues buf1))"
  using assms
  by (intro exI[of _ "d @ 0 # drop (Suc (length d)) buf"])
     (simp add: conn_round_01_def full_def receive_ok Let_def is_command_received)

text \<open>The server of 20-01 gives a connection back exactly the bytes it reads from it, read by
  read and in order, up to and including the first \<open>quit\<close> or \<open>stop\<close>; then it closes the
  connection, and goes on to the next one or ends. (All reads shorter than the buffer, no call
  failing, no short write.)\<close>

theorem session_01_echoes:
  assumes "length buf = BUFSIZE" "\<forall>d\<in>set ds. length d < BUFSIZE"
  shows "\<exists>buf1. length buf1 = BUFSIZE \<and> session_01 fd buf (map full ds) =
    (concat (map (\<lambda>d. [Received (int (length d)) (cstr d), Wrote fd d]) (until_command ds))
       @ (if \<exists>d\<in>set ds. command d then [Closed fd] else []),
     case find command ds of
       None \<Rightarrow> Continues buf1
     | Some d \<Rightarrow> if command_in quit_text d then Leaves buf1 else Stops)"
  using assms
proof (induction ds arbitrary: buf)
  case Nil
  then show ?case by auto
next
  case (Cons d ds)
  from round_01[of d buf fd] Cons.prems obtain b where
    b: "length b = BUFSIZE" "conn_round_01 fd buf (full d) =
     (if command_in quit_text d then ([Received (int (length d)) (cstr d), Wrote fd d, Closed fd], Leaves b)
      else if command_in stop_text d then ([Received (int (length d)) (cstr d), Wrote fd d, Closed fd], Stops)
      else ([Received (int (length d)) (cstr d), Wrote fd d], Continues b))" by auto
  show ?case
  proof (cases "command d")
    case True
    then show ?thesis using b by (intro exI[of _ b]) (auto simp: command_def)
  next
    case False
    from Cons.IH[OF b(1)] Cons.prems(2) obtain b1 where
      "length b1 = BUFSIZE" "session_01 fd b (map full ds) =
        (concat (map (\<lambda>d. [Received (int (length d)) (cstr d), Wrote fd d]) (until_command ds))
           @ (if \<exists>d\<in>set ds. command d then [Closed fd] else []),
         case find command ds of None \<Rightarrow> Continues b1
         | Some d \<Rightarrow> if command_in quit_text d then Leaves b1 else Stops)" by auto
    moreover have "\<not> command_in quit_text d" "\<not> command_in stop_text d" using False by (simp_all add: command_def)
    ultimately show ?thesis using b False by (intro exI[of _ b1]) simp
  qed
qed

lemma session_01_echoes_witness:
  "\<exists>buf1. session_01 4 blank (map full [[0x68, 0x69], [0x71, 0x75, 0x69, 0x74, 10], [1]]) =
    ([Received 2 [0x68, 0x69], Wrote 4 [0x68, 0x69], Received 5 [0x71, 0x75, 0x69, 0x74, 10],
      Wrote 4 [0x71, 0x75, 0x69, 0x74, 10], Closed 4], Leaves buf1)"
  using session_01_echoes[of blank "[[0x68, 0x69], [0x71, 0x75, 0x69, 0x74, 10], [1]]" 4]
  by (auto simp: BUFSIZE_def command_def command_in_def quit_text_def stop_text_def cstr_def)

text \<open>A client that closes its end without \<open>quit\<close> hangs the server of 20-01: \<open>read\<close> returns 0 for
  ever, the connection is never closed, and no other client is ever accepted.\<close>

theorem eof_hangs_server_01:
  assumes "length buf = BUFSIZE"
  shows "accept_loop_01 main_fd buf ((Accepted fd (Some addr) port, replicate n (full [])) # conns) =
    (Established addr port # concat (replicate n [Received 0 [], Wrote fd []]), Waiting)"
proof -
  have "\<exists>b. session_01 fd buf (map full (replicate n [])) =
      (concat (map (\<lambda>d. [Received (int (length d)) (cstr d), Wrote fd d]) (until_command (replicate n []))), Continues b)"
    using session_01_echoes[OF assms, of "replicate n []" fd]
    by (auto simp: BUFSIZE_def command_def command_in_def find_None_iff split: option.splits dest!: find_Some_iff[THEN iffD1])
  moreover have "until_command (replicate n []) = replicate n []"
    by (induction n) (auto simp: command_def command_in_def)
  ultimately show ?thesis by (auto simp: cstr_def)
qed

lemma eof_hangs_server_01_witness:
  "accept_loop_01 3 blank [(Accepted 4 (Some ''127.0.0.1'') 5000, [full [], full []]), (Accepted 5 (Some ''10.0.0.1'') 5001, [])] =
    ([Established ''127.0.0.1'' 5000, Received 0 [], Wrote 4 [], Received 0 [], Wrote 4 []], Waiting)"
  using eof_hangs_server_01[OF blank_length, of 3 4 "''127.0.0.1''" 5000 2 "[(Accepted 5 (Some ''10.0.0.1'') 5001, [])]"]
  by (simp add: numeral_2_eq_2)

text \<open>Which text is a command: the four letters, and after them nothing, a control character or
  any byte of 128 or more, because \<open>char\<close> is signed; so \<open>quit\<close> followed by an accented letter in
  UTF-8 closes the connection.\<close>

theorem command_terminators:
  "is_command quit_text ([0x71, 0x75, 0x69, 0x74] @ b # rest) = (b < 32 \<or> 128 \<le> b)"
proof -
  have "sint b < 32 \<longleftrightarrow> b < 32 \<or> 128 \<le> b"
  proof (cases "128 \<le> b")
    case True
    then have "128 \<le> uint b" by (simp add: word_le_def)
    moreover have "uint b < 256" using unsigned_less[of b, where 'a = int] by simp
    ultimately have "(uint b - 128 + 256) mod 256 = uint b - 128"
      by (simp only: mod_add_self2) simp
    then have "sint b = uint b - 256"
      by (simp add: sint_uint signed_take_bit_eq_take_bit_shift take_bit_eq_mod algebra_simps)
    then show ?thesis using True \<open>uint b < 256\<close> by simp
  next
    case False
    then have u: "uint b < 128" by (simp add: word_le_def)
    then have "(uint b + 128) mod 256 = uint b + 128" by (intro mod_pos_pos_trivial) simp_all
    then have "sint b = uint b"
      by (simp add: sint_uint signed_take_bit_eq_take_bit_shift take_bit_eq_mod)
    then show ?thesis using False by (simp add: word_less_def)
  qed
  then show ?thesis by (simp add: is_command_def quit_text_def eval_nat_numeral)
qed

end
