(* ===== verification/Echo_Threads.thy ===== *)
theory Echo_Threads
  imports Echo_Props
begin

text \<open>
  Connections that run at the same time. The contract of a connection's round, and of a server
  made of such rounds, is the locale \<open>connection_server\<close>: from it, whatever the interleaving,
  what is written to a connection depends on that connection's reads alone. It is interpreted
  for the servers of 20-02 and of 22; the pool of 20-03 serves in order of arrival.
\<close>

definition writes_to :: "nat \<Rightarrow> act list \<Rightarrow> byte list list" where
  "writes_to fd as = concat (map (\<lambda>a. case a of Wrote g d \<Rightarrow> if g = fd then [d] else [] | _ \<Rightarrow> []) as)"

lemma writes_to_simps [simp]:
  "writes_to fd [] = []"
  "writes_to fd (a # as) = (case a of Wrote g d \<Rightarrow> if g = fd then [d] else [] | _ \<Rightarrow> []) @ writes_to fd as"
  "writes_to fd (as @ bs) = writes_to fd as @ writes_to fd bs"
  by (simp_all add: writes_to_def)

definition rounds_of :: "nat \<Rightarrow> server_event list \<Rightarrow> io list" where
  "rounds_of fd es = concat (map (\<lambda>e. case e of Round g call \<Rightarrow> if g = fd then [call] else [] | _ \<Rightarrow> []) es)"

lemma rounds_of_simps [simp]:
  "rounds_of fd [] = []"
  "rounds_of fd (e # es) = (case e of Round g call \<Rightarrow> if g = fd then [call] else [] | _ \<Rightarrow> []) @ rounds_of fd es"
  by (simp_all add: rounds_of_def)

definition buffers_ok :: "thread_server \<Rightarrow> bool" where
  "buffers_ok s \<longleftrightarrow> (\<forall>(g, buf) \<in> set (threads s). length buf = BUFSIZE)"

lemma buffers_okD: "buffers_ok s \<Longrightarrow> thread_buf (threads s) fd = Some buf \<Longrightarrow> length buf = BUFSIZE"
  by (auto simp: buffers_ok_def thread_buf_def dest: map_of_SomeD)

locale connection_server =
  fixes rnd :: "nat \<Rightarrow> byte list \<Rightarrow> io \<Rightarrow> act list \<times> next_step"
    and reply :: "io \<Rightarrow> byte list list"
    and st :: "server_event \<Rightarrow> thread_server \<Rightarrow> thread_server option"
  assumes round_writes: "length buf = BUFSIZE \<Longrightarrow> writes_to g (fst (rnd fd buf call)) = (if g = fd then reply call else [])"
    and round_buffer: "length buf = BUFSIZE \<Longrightarrow> snd (rnd fd buf call) = Continues buf1 \<Longrightarrow> length buf1 = BUFSIZE"
    and step_round: "st (Round fd call) s = Some s' \<Longrightarrow> thread_round rnd fd call s = Some s'"
    and step_new: "st (NewConnection acc buf) s = Some s' \<Longrightarrow>
      (\<exists>as. trace s' = trace s @ as \<and> writes_to g as = []) \<and> (\<forall>p\<in>set (threads s'). p \<in> set (threads s) \<or> length (snd p) = BUFSIZE)"
begin

lemma step_writes:
  assumes "buffers_ok s" "st e s = Some s'"
  shows "buffers_ok s' \<and> writes_to g (trace s') = writes_to g (trace s) @ concat (map reply (rounds_of g [e]))"
proof (cases e)
  case (NewConnection acc buf)
  then show ?thesis using step_new[of acc buf s s' g] assms by (fastforce simp: buffers_ok_def)
next
  case (Round fd call)
  have r: "thread_round rnd fd call s = Some s'" using step_round assms(2) Round by simp
  then obtain buf where buf: "thread_buf (threads s) fd = Some buf"
    by (auto simp: thread_round_def split: option.splits)
  note len = buffers_okD[OF assms(1) buf]
  have tr: "trace s' = trace s @ fst (rnd fd buf call)"
    using r buf by (auto simp: thread_round_def Let_def split: prod.splits next_step.splits)
  have "buffers_ok s'"
    using r buf assms(1) round_buffer[OF len, of fd call]
    by (fastforce simp: thread_round_def Let_def buffers_ok_def set_buf_def drop_thread_def
        split: prod.splits next_step.splits if_splits)
  then show ?thesis using tr round_writes[OF len, of g fd call] Round by simp
qed

theorem run_writes:
  assumes "buffers_ok s" "server_run st es s = Some s'"
  shows "writes_to g (trace s') = writes_to g (trace s) @ concat (map reply (rounds_of g es))"
  using assms
proof (induction es arbitrary: s)
  case (Cons e es)
  then obtain s1 where s1: "st e s = Some s1" "server_run st es s1 = Some s'" by (auto split: bind_splits)
  from step_writes[OF Cons.prems(1) s1(1), of g] Cons.IH[OF _ s1(2)] show ?case by simp
qed simp

end

section \<open>The servers of 20-02 and 22\<close>

text \<open>What a round sends back: in 20-02 the C string that was read, in 22 with its NUL.\<close>

definition reply_02 :: "io \<Rightarrow> byte list list" where
  "reply_02 call = (case call of
      Reads d (Some n) \<Rightarrow> if length d < BUFSIZE then [take n (cstr d)] else []
    | _ \<Rightarrow> [])"

definition reply_22 :: "io \<Rightarrow> byte list list" where
  "reply_22 call = (case call of
      Reads d (Some n) \<Rightarrow>
        if d \<noteq> [] \<and> length d < BUFSIZE \<and> \<not> command_in quit_text d then [take n (cstr d @ [0])] else []
    | _ \<Rightarrow> [])"

lemma take_cstr_Suc: "take (Suc (length (cstr d))) (d @ 0 # rest) = cstr d @ [0]"
proof (induction d)
  case (Cons b d)
  then show ?case by (simp add: cstr_def)
qed (simp add: cstr_def)

interpretation server02: connection_server conn_round_02 reply_02 server_step_02
proof
  fix buf :: "byte list" and g fd call assume "length buf = BUFSIZE"
  then show "writes_to g (fst (conn_round_02 fd buf call)) = (if g = fd then reply_02 call else [])"
    by (auto simp: conn_round_02_def reply_02_def receive_def Let_def simp del: take_append take_take
        split: io.splits option.splits)
next
  fix buf :: "byte list" and fd call buf1 assume "length buf = BUFSIZE" "snd (conn_round_02 fd buf call) = Continues buf1"
  then show "length buf1 = BUFSIZE"
    by (auto simp: conn_round_02_def receive_def Let_def split: io.splits option.splits if_splits)
qed (auto simp: server_step_02_def thread_accept_def split: if_splits accepted.splits option.splits)

interpretation server22: connection_server conn_round_22 reply_22 "server_step_22 main_fd path" for main_fd path
proof
  fix buf :: "byte list" and g fd call assume "length buf = BUFSIZE"
  then show "writes_to g (fst (conn_round_22 fd buf call)) = (if g = fd then reply_22 call else [])"
    by (auto simp: conn_round_22_def reply_22_def receive_def Let_def is_command_received take_cstr_Suc
        simp del: take_append take_take split: io.splits option.splits)
next
  fix buf :: "byte list" and fd call buf1 assume "length buf = BUFSIZE" "snd (conn_round_22 fd buf call) = Continues buf1"
  then show "length buf1 = BUFSIZE"
    by (auto simp: conn_round_22_def receive_def Let_def split: io.splits option.splits if_splits)
qed (auto simp: server_step_22_def thread_accept_def split: if_splits accepted.splits option.splits)

lemma tcp_setup_silent: "writes_to fd (fst (tcp_setup port env)) = []"
  by (simp add: tcp_setup_def)

text \<open>For concrete runs: a round, with the buffer after a read as one value.\<close>

definition stored :: "byte list \<Rightarrow> byte list \<Rightarrow> byte list" where
  "stored buf d = d @ 0 # drop (Suc (length d)) buf"

lemma stored_length: "length d < length buf \<Longrightarrow> length (stored buf d) = length buf"
  by (simp add: stored_def)

lemma round_02:
  "length d < length buf \<Longrightarrow> length d < BUFSIZE \<Longrightarrow> conn_round_02 fd buf (full d) =
    (let a = [Received (int (length d)) (cstr d), Wrote fd (take (length d) (cstr d))] in
     if command_in quit_text d then (a @ [Closed fd], Leaves (stored buf d))
     else if command_in stop_text d then (a @ [Puts '':: EXIT ::''], Stops)
     else (a, Continues (stored buf d)))"
  by (simp add: conn_round_02_def full_def receive_ok Let_def is_command_received stored_def
      del: take_append take_take)

lemma round_22:
  "length d < length buf \<Longrightarrow> length d < BUFSIZE \<Longrightarrow> conn_round_22 fd buf (full d) =
    (let a = [Received (int (length d)) (cstr d)] in
     if d = [] \<or> command_in quit_text d then (a @ [Closed fd], Leaves (stored buf d))
     else (let b = a @ [Wrote fd (take (length d) (cstr d @ [0]))] in
       if command_in stop_text d then (b @ [Puts '':: EXIT ::''], Stops)
       else (b, Continues (stored buf d))))"
  by (simp add: conn_round_22_def full_def receive_ok Let_def is_command_received stored_def take_cstr_Suc
      del: take_append take_take)

lemmas run_simps = thread_round_def thread_buf_def set_buf_def drop_thread_def round_02 round_22 stored_length
  command_in_def quit_text_def stop_text_def Let_def

text \<open>C29: However the threads of the server of 20-02 interleave, what has been written to a
  connection is, read by read, the text read from it up to the first NUL: the other connections,
  failed calls and a thread that died make no difference to it. (\<open>write\<close> may take only \<open>n\<close>
  bytes.)\<close>

theorem connections_independent_02:
  assumes "length argv = 2" "atoi (argv ! 1) = Inr port" "tcp_setup port env = (as, Inr main_fd)"
    and "server_02 argv env es = Some s"
  shows "writes_to fd (trace s) = concat (map reply_02 (rounds_of fd es))"
proof -
  have "writes_to fd as = []" using tcp_setup_silent[of fd port env] assms(3) by simp
  moreover have run: "server_run server_step_02 es \<lparr>threads = [], open_conns = [], trace = Puts '':: START ::'' # as, ended = Waiting\<rparr> = Some s"
    using assms by (simp add: server_02_def Let_def)
  ultimately show ?thesis
    using server02.run_writes[OF _ run, of fd] by (simp add: buffers_ok_def)
qed

definition echo_events :: "server_event list" where
  "echo_events = [NewConnection (Accepted 4 (Some ''10.0.0.1'') 5000) blank,
     NewConnection (Accepted 5 (Some ''10.0.0.2'') 5001) blank, Round 5 (full [0x61, 0x62]), Round 4 (full [0x63]),
     Round 5 (full [0x71, 0x75, 0x69, 0x74]), Round 4 (full [0x64, 0, 0x65])]"

definition good_net :: net_setup where
  "good_net = \<lparr>socket_returns = 3, bind_returns = 0, listen_returns = 0\<rparr>"

lemma connections_independent_02_witness:
  "\<exists>s. server_02 [''server'', ''8080''] good_net echo_events = Some s
    \<and> writes_to 4 (trace s) = [[0x63], [0x64]] \<and> writes_to 5 (trace s) = [[0x61, 0x62], [0x71, 0x75, 0x69, 0x74]]"
proof -
  have port: "atoi ([''server'', ''8080''] ! 1) = Inr 8080" by code_simp
  obtain as where tcp: "tcp_setup 8080 good_net = (as, Inr 3)" by (simp add: tcp_setup_def good_net_def)
  have "server_02 [''server'', ''8080''] good_net echo_events \<noteq> None"
    using port tcp
    by (simp add: server_02_def echo_events_def server_step_02_def thread_accept_def run_simps BUFSIZE_def)
  then obtain s where s: "server_02 [''server'', ''8080''] good_net echo_events = Some s" by blast
  have two: "length [''server'', ''8080''] = 2" by simp
  from connections_independent_02[OF two port tcp s, of 4] connections_independent_02[OF two port tcp s, of 5] s
  show ?thesis
    by (auto simp: echo_events_def full_def reply_02_def BUFSIZE_def cstr_def)
qed

text \<open>The same for the server of 22, where a connection gets the text with its NUL back, and
  nothing for an end of file or a \<open>quit\<close>.\<close>

theorem connections_independent_22:
  assumes "length argv = 2" "0 \<le> socket_returns env" "sun_path (argv ! 1) = Inr path"
    and "0 \<le> bind_returns env" "0 \<le> listen_returns env" "server_22 argv env es = Some s"
  shows "writes_to fd (trace s) = concat (map reply_22 (rounds_of fd es))"
proof -
  have run: "server_run (server_step_22 (nat (socket_returns env)) path) es
      \<lparr>threads = [], open_conns = [], trace = [Puts '':: START ::'', Unlinked path, BoundPath path, Listening,
        Puts '':: LISTENING ::''], ended = Waiting\<rparr> = Some s"
    using assms by (simp add: server_22_def Let_def)
  then show ?thesis
    using server22.run_writes[OF _ run, of fd] by (simp add: buffers_ok_def)
qed

lemma connections_independent_22_witness:
  "\<exists>s. server_22 [''server'', ''echo''] good_net [NewConnection (Accepted 4 None 0) blank, Round 4 (full [0x63, 0])] = Some s
    \<and> writes_to 4 (trace s) = [[0x63, 0]]"
proof -
  let ?es = "[NewConnection (Accepted 4 None 0) blank, Round 4 (full [0x63, 0])]"
  have path: "sun_path ([''server'', ''echo''] ! 1) = Inr ''/tmp/echo''" by (simp add: sun_path_def SUN_PATH_LEN_def)
  have "server_22 [''server'', ''echo''] good_net ?es \<noteq> None"
    using path
    by (simp add: server_22_def good_net_def server_step_22_def thread_accept_def run_simps BUFSIZE_def)
  then obtain s where s: "server_22 [''server'', ''echo''] good_net ?es = Some s" by blast
  have two: "length [''server'', ''echo''] = 2" by simp
  from connections_independent_22[OF two _ path _ _ s, of 4] s show ?thesis
    by (auto simp: good_net_def full_def reply_22_def BUFSIZE_def cstr_def command_in_def)
qed

section \<open>The pool server\<close>

definition pool_order :: "pool_server \<Rightarrow> bool" where
  "pool_order s \<longleftrightarrow> accepted03 s = started03 s @ waiting_conns s \<and> length (workers03 s) = POOL_THREADS"

lemma pool_order_step: "pool_order s \<Longrightarrow> server_step_03 e s = Some s' \<Longrightarrow> pool_order s'"
  by (cases e) (auto simp: pool_order_def server_step_03_def pool_round_def Let_def
      split: if_splits option.splits accepted.splits list.splits prod.splits next_step.splits)

lemma pool_order_run: "pool_order s \<Longrightarrow> pool_server_run es s = Some s' \<Longrightarrow> pool_order s'"
  by (induction es arbitrary: s) (auto split: bind_splits intro: pool_order_step)

lemma server_03_order: "server_03 argv env es = Some s \<Longrightarrow> pool_order s"
  by (auto simp: server_03_def Let_def split: if_splits sum.splits prod.splits
      elim!: pool_order_run[rotated]) (auto simp: pool_order_def)

text \<open>The pool server of 20-03 serves connections in the order in which it accepted them and
  forgets none. While the server runs, a thread can pick up the next connection exactly when one
  waits and one of the eight threads is free; so eight idle clients keep every later one waiting.\<close>

theorem pool_server_in_order:
  assumes "server_03 argv env es = Some s" "ended03 s = Waiting" "length buf = BUFSIZE"
  shows "accepted03 s = started03 s @ waiting_conns s \<and> length (workers03 s) = 8
    \<and> ((\<exists>w. server_step_03 (Picks w buf) s \<noteq> None) \<longleftrightarrow> waiting_conns s \<noteq> [] \<and> None \<in> set (workers03 s))"
proof -
  have "pool_order s" by (rule server_03_order[OF assms(1)])
  moreover have "server_step_03 (Picks w buf) s \<noteq> None \<longleftrightarrow>
      waiting_conns s \<noteq> [] \<and> w < length (workers03 s) \<and> workers03 s ! w = None" for w
    using assms(2,3) by (cases "waiting_conns s") (simp_all add: server_step_03_def)
  then have "(\<exists>w. server_step_03 (Picks w buf) s \<noteq> None) \<longleftrightarrow> waiting_conns s \<noteq> [] \<and> None \<in> set (workers03 s)"
    by (metis in_set_conv_nth)
  ultimately show ?thesis by (simp add: pool_order_def POOL_THREADS_def)
qed

lemma pool_server_in_order_witness:
  "\<exists>s. server_03 [''server'', ''8080''] good_net
      [PoolConnection (Accepted 4 (Some ''a'') 1), PoolConnection (Accepted 5 (Some ''b'') 2), Picks 3 blank] = Some s
    \<and> started03 s = [4] \<and> accepted03 s = [4] @ waiting_conns s"
proof -
  let ?es = "[PoolConnection (Accepted 4 (Some ''a'') 1), PoolConnection (Accepted 5 (Some ''b'') 2), Picks 3 blank]"
  have port: "atoi ([''server'', ''8080''] ! 1) = Inr 8080" by code_simp
  obtain as where tcp: "tcp_setup 8080 good_net = (as, Inr 3)" by (simp add: tcp_setup_def good_net_def)
  have "\<exists>s. server_03 [''server'', ''8080''] good_net ?es = Some s \<and> started03 s = [4] \<and> ended03 s = Waiting"
    using port tcp by (simp add: server_03_def Let_def server_step_03_def POOL_THREADS_def)
  then show ?thesis using pool_server_in_order[of "[''server'', ''8080'']" good_net ?es _ blank] by fastforce
qed

end
