(* ===== verification/Pool_Server.thy ===== *)
theory Pool_Server
  imports Thread_Pool Echo_Threads
begin

text \<open>
  The server of 20-03 on its thread pool: the accept loop is the client of the pool that calls
  \<open>thread_pool_submit\<close>, the workers run \<open>process_connection\<close>. The pool, its queue, its lists
  and its work items are those of \<open>Thread_Pool\<close>. The composition refines \<open>server_03\<close>, in which
  the pool is only a list of waiting connections and eight places for running ones.
\<close>

section \<open>State\<close>

text \<open>\<open>frames\<close> has the array \<open>buf\<close> of the call of \<open>process_connection\<close> that each worker makes.\<close>

record served =
  sp_pool :: thread_pool
  frames :: "byte list list"
  sp_accepted :: "nat list"
  sp_started :: "nat list"
  sp_trace :: "act list"
  sp_ended :: ending

text \<open>
  Events: the accept loop up to the test of \<open>stopped\<close> in \<open>thread_pool_submit\<close>; the rest of
  \<open>thread_pool_submit\<close>, with what \<open>malloc\<close> returns for work item and node; a worker takes an item
  and enters \<open>process_connection\<close>, with what its stack holds where \<open>buf\<close> lies; a round of a
  worker's \<open>process_connection\<close>.
\<close>

datatype served_event = Accepts accepted | Queues ptr ptr | Takes nat "byte list" | Serves nat io

section \<open>Operations\<close>

text \<open>\<open>(void *)(intptr_t)conn_fd\<close> and \<open>(int)(intptr_t)ptr\<close>.\<close>

definition conn_arg :: "nat \<Rightarrow> ptr" where
  "conn_arg fd = word_of_int (int fd)"

definition conn_fd :: "ptr \<Rightarrow> int" where
  "conn_fd p = sint (ucast p :: 32 word)"

definition pool_do :: "pool_event \<Rightarrow> served \<Rightarrow> served option" where
  "pool_do e s =
     (case pool_step e (sp_pool s) of
        None \<Rightarrow> None
      | Some (Inl err) \<Rightarrow> Some (s\<lparr>sp_ended := Fails err\<rparr>)
      | Some (Inr tp) \<Rightarrow> Some (s\<lparr>sp_pool := tp\<rparr>))"

text \<open>\<open>pc\<close> is the address of \<open>process_connection\<close>.\<close>

definition accept_conn :: "ptr \<Rightarrow> accepted \<Rightarrow> served \<Rightarrow> served option" where
  "accept_conn pc acc s =
     (if clients (sp_pool s) 0 \<noteq> Idle then None
      else (case acc of
          AcceptFails \<Rightarrow> Some (s\<lparr>sp_trace := sp_trace s @ [Perror ''ERROR on accept''], sp_ended := Exits 1\<rparr>)
        | Accepted fd addr port \<Rightarrow>
            if int fd > INT_MAX then None
            else (case addr of
                None \<Rightarrow> Some (s\<lparr>sp_trace := sp_trace s @ [Perror ''ERROR on inet_ntoa''], sp_ended := Exits 1\<rparr>)
              | Some a \<Rightarrow>
                  pool_do (Submit 0 (Function pc) (conn_arg fd))
                    (s\<lparr>sp_trace := sp_trace s @ [Established a port], sp_accepted := sp_accepted s @ [fd]\<rparr>))))"

definition take_conn :: "nat \<Rightarrow> byte list \<Rightarrow> served \<Rightarrow> served option" where
  "take_conn w buf s =
     (if length buf \<noteq> BUFSIZE then None
      else (case pool_do (TakeItem w) s of
          None \<Rightarrow> None
        | Some s1 \<Rightarrow>
            Some (case workers (sp_pool s1) ! w of
                Executing f arg \<Rightarrow>
                  s1\<lparr>frames := (frames s1)[w := buf], sp_started := sp_started s1 @ [nat (conn_fd arg)]\<rparr>
              | _ \<Rightarrow> s1)))"

definition serve_round :: "ptr \<Rightarrow> nat \<Rightarrow> io \<Rightarrow> served \<Rightarrow> served option" where
  "serve_round pc w call s =
     (if w < length (workers (sp_pool s)) then
       (case workers (sp_pool s) ! w of
          Executing f arg \<Rightarrow>
            (if f = Function pc then
               (case conn_round_03 (nat (conn_fd arg)) (frames s ! w) call of
                  (as, end) \<Rightarrow>
                    (let s = s\<lparr>sp_trace := sp_trace s @ as\<rparr> in
                     case end of
                         Continues buf1 \<Rightarrow> Some (s\<lparr>frames := (frames s)[w := buf1]\<rparr>)
                       | Leaves buf1 \<Rightarrow> pool_do (RunItem w) s
                       | Stops \<Rightarrow> Some (s\<lparr>sp_ended := Exits 0\<rparr>)
                       | Dies n \<Rightarrow> Some (s\<lparr>sp_ended := Exits n\<rparr>)
                       | Breaks e \<Rightarrow> Some (s\<lparr>sp_ended := Fails e\<rparr>)))
             else None)
        | _ \<Rightarrow> None)
      else None)"

definition served_step :: "ptr \<Rightarrow> served_event \<Rightarrow> served \<Rightarrow> served option" where
  "served_step pc e s =
     (if sp_ended s \<noteq> Waiting then None
      else (case e of
          Accepts acc \<Rightarrow> accept_conn pc acc s
        | Queues wi node \<Rightarrow> pool_do (Enqueue 0 wi node) s
        | Takes w buf \<Rightarrow> take_conn w buf s
        | Serves w call \<Rightarrow> serve_round pc w call s))"

fun served_run :: "ptr \<Rightarrow> served_event list \<Rightarrow> served \<Rightarrow> served option" where
  "served_run pc [] s = Some s"
| "served_run pc (e # es) s = Option.bind (served_step pc e s) (served_run pc es)"

text \<open>\<open>main\<close>: \<open>tp0\<close> is its local variable \<open>tpool\<close> before \<open>thread_pool_init\<close>.\<close>

definition pool_program :: "ptr \<Rightarrow> thread_pool \<Rightarrow> string list \<Rightarrow> net_setup \<Rightarrow> served_event list \<Rightarrow> served option" where
  "pool_program pc tp0 argv env es =
     (let s = \<lparr>sp_pool = tp0, frames = replicate POOL_THREADS [], sp_accepted = [], sp_started = [],
         sp_trace = [], sp_ended = Waiting\<rparr> in
      if length argv \<noteq> 2 then Some (s\<lparr>sp_trace := [Usage], sp_ended := Exits 1\<rparr>)
      else (case atoi (argv ! 1) of
              Inl e \<Rightarrow> Some (s\<lparr>sp_ended := Fails e\<rparr>)
            | Inr port \<Rightarrow>
                (case thread_pool_init (work_queue tp0) POOL_THREADS of
                   Inl e \<Rightarrow> Some (s\<lparr>sp_trace := [Puts '':: START ::''], sp_ended := Fails e\<rparr>)
                 | Inr tp \<Rightarrow>
                     (case tcp_setup port env of
                        (as, Inl n) \<Rightarrow> Some (s\<lparr>sp_pool := tp, sp_trace := Puts '':: START ::'' # as, sp_ended := Exits n\<rparr>)
                      | (as, Inr main_fd) \<Rightarrow>
                          served_run pc es (s\<lparr>sp_pool := tp, sp_trace := Puts '':: START ::'' # as\<rparr>)))))"

section \<open>Refinement\<close>

text \<open>What the list-and-eight-places server of \<open>Echo_Servers\<close> does at an event.\<close>

fun abs_event :: "served_event \<Rightarrow> pool_server_event option" where
  "abs_event (Accepts acc) = Some (PoolConnection acc)"
| "abs_event (Queues wi node) = None"
| "abs_event (Takes w buf) = Some (Picks w buf)"
| "abs_event (Serves w call) = Some (PoolRound w call)"

definition conn_item :: "ptr \<Rightarrow> nat \<Rightarrow> task \<times> ptr" where
  "conn_item pc fd = (Function pc, conn_arg fd)"

definition int_fds :: "nat list \<Rightarrow> bool" where
  "int_fds fds \<longleftrightarrow> (\<forall>fd\<in>set fds. int fd \<le> INT_MAX)"

lemma conn_fd_arg: "int fd \<le> INT_MAX \<Longrightarrow> conn_fd (conn_arg fd) = int fd"
  by (simp add: conn_fd_def conn_arg_def INT_MAX_def unsigned_of_nat signed_of_nat of_nat_take_bit take_bit_word_eq_self
      signed_take_bit_take_bit signed_take_bit_int_eq_self)

text \<open>The accept loop is between calls, or inside \<open>thread_pool_submit\<close> with a connection that
  the abstract server already counts as waiting.\<close>

definition in_flight :: "ptr \<Rightarrow> client \<Rightarrow> nat list \<Rightarrow> bool" where
  "in_flight pc c fl \<longleftrightarrow> c = Idle \<and> fl = [] \<or> (\<exists>fd. c = Submitting (Function pc) (conn_arg fd) \<and> fl = [fd])"

definition worker_rel :: "ptr \<Rightarrow> worker \<Rightarrow> byte list \<Rightarrow> (nat \<times> byte list) option \<Rightarrow> bool" where
  "worker_rel pc w buf p \<longleftrightarrow> w = AtGet \<and> p = None
     \<or> (\<exists>fd. w = Executing (Function pc) (conn_arg fd) \<and> int fd \<le> INT_MAX \<and> p = Some (fd, buf))"

definition workers_rel :: "ptr \<Rightarrow> served \<Rightarrow> pool_server \<Rightarrow> bool" where
  "workers_rel pc s a \<longleftrightarrow> length (frames s) = length (workers (sp_pool s))
     \<and> length (workers03 a) = length (workers (sp_pool s))
     \<and> (\<forall>w < length (workers (sp_pool s)). worker_rel pc (workers (sp_pool s) ! w) (frames s ! w) (workers03 a ! w))"

definition log_rel :: "served \<Rightarrow> pool_server \<Rightarrow> bool" where
  "log_rel s a \<longleftrightarrow> sp_trace s = trace03 a \<and> sp_ended s = ended03 a \<and> sp_accepted s = accepted03 a
     \<and> sp_started s = started03 a"

definition served_rel :: "ptr \<Rightarrow> served \<Rightarrow> pool_server \<Rightarrow> bool" where
  "served_rel pc s a \<longleftrightarrow> log_rel s a \<and> \<not> stopped (sp_pool s) \<and> workers_rel pc s a \<and> int_fds (waiting_conns a)
     \<and> (\<exists>ws fl. waiting_conns a = ws @ fl \<and> in_flight pc (clients (sp_pool s) 0) fl
          \<and> pool_inv (sp_pool s) (map (conn_item pc) ws) 0)"

lemma served_relE:
  assumes "served_rel pc s a"
  obtains ws fl where "log_rel s a" "\<not> stopped (sp_pool s)" "workers_rel pc s a" "int_fds (waiting_conns a)"
    "waiting_conns a = ws @ fl" "in_flight pc (clients (sp_pool s) 0) fl"
    "pool_inv (sp_pool s) (map (conn_item pc) ws) 0"
  using assms by (auto simp: served_rel_def)

text \<open>One lemma per event.\<close>

lemma accept_refines:
  assumes r: "served_rel pc s a" and run: "sp_ended s = Waiting" and st: "accept_conn pc acc s = Some s'"
  shows "\<exists>a'. server_step_03 (PoolConnection acc) a = Some a' \<and> log_rel s' a' \<and>
    (sp_ended s' = Waiting \<longrightarrow> served_rel pc s' a')"
  using r
proof (rule served_relE)
  fix ws fl
  assume R: "log_rel s a" "\<not> stopped (sp_pool s)" "workers_rel pc s a" "int_fds (waiting_conns a)"
    "waiting_conns a = ws @ fl" "in_flight pc (clients (sp_pool s) 0) fl"
    "pool_inv (sp_pool s) (map (conn_item pc) ws) 0"
  have idle: "clients (sp_pool s) 0 = Idle" and w: "ended03 a = Waiting" "fl = []"
    using st run R(1,6) by (auto simp: accept_conn_def log_rel_def in_flight_def split: if_splits)
  show ?thesis
  proof (cases "\<exists>fd b port. acc = Accepted fd (Some b) port")
    case False
    then show ?thesis using st idle w R(1)
      by (cases acc) (auto simp: accept_conn_def server_step_03_def log_rel_def split: if_splits option.splits)
  next
    case True
    then obtain fd b port where acc: "acc = Accepted fd (Some b) port" by blast
    have fd: "int fd \<le> INT_MAX" using st idle acc by (auto simp: accept_conn_def split: if_splits)
    let ?tp = "(sp_pool s)\<lparr>clients := (clients (sp_pool s))(0 := Submitting (Function pc) (conn_arg fd))\<rparr>"
    let ?a = "a\<lparr>trace03 := trace03 a @ [Established b port], waiting_conns := waiting_conns a @ [fd],
      accepted03 := accepted03 a @ [fd]\<rparr>"
    have s': "s' = s\<lparr>sp_trace := sp_trace s @ [Established b port], sp_accepted := sp_accepted s @ [fd], sp_pool := ?tp\<rparr>"
      using st idle fd acc R(2) by (simp add: accept_conn_def pool_do_def thread_pool_submit_def)
    have "pool_inv ?tp (map (conn_item pc) ws) 0"
      using R(2,7) idle by (auto simp: pool_inv_def)
    then have "served_rel pc s' ?a"
      unfolding served_rel_def using R(1-5) w(2) fd s'
      by (auto simp: log_rel_def workers_rel_def int_fds_def in_flight_def)
    moreover have "server_step_03 (PoolConnection acc) a = Some ?a" using w(1) acc by (simp add: server_step_03_def)
    ultimately show ?thesis by (auto simp: served_rel_def)
  qed
qed

lemma queue_refines:
  assumes r: "served_rel pc s a" and st: "pool_do (Enqueue 0 wi node) s = Some s'"
  shows "served_rel pc s' a"
  using r
proof (rule served_relE)
  fix ws fl
  assume R: "log_rel s a" "\<not> stopped (sp_pool s)" "workers_rel pc s a" "int_fds (waiting_conns a)"
    "waiting_conns a = ws @ fl" "in_flight pc (clients (sp_pool s) 0) fl"
    "pool_inv (sp_pool s) (map (conn_item pc) ws) 0"
  obtain fd where c: "clients (sp_pool s) 0 = Submitting (Function pc) (conn_arg fd)" "fl = [fd]"
    and f: "fresh_item (sp_pool s) wi node"
    using st R(6) by (auto simp: pool_do_def in_flight_def split: if_splits option.splits)
  obtain q m tp1 where t: "thread_pool_internal_submit (sp_pool s) (Function pc) (conn_arg fd) wi node = Inr tp1"
    "tp1 = (sp_pool s)\<lparr>work_queue := q, workitems := m\<rparr>"
    using internal_submit_ok[OF pool_invD(1)[OF R(7)] f, of "Function pc" "conn_arg fd"] by auto
  let ?tp = "tp1\<lparr>clients := (clients tp1)(0 := Idle), submitted := submitted tp1 @ [(Function pc, conn_arg fd)]\<rparr>"
  have "pool_inv ?tp (map (conn_item pc) ws @ [(Function pc, conn_arg fd)]) 0"
    using enqueue_inv[OF R(7) c(1) f] t(1) by auto
  then have "pool_inv ?tp (map (conn_item pc) (ws @ fl)) 0" by (simp add: c(2) conn_item_def)
  moreover have "s' = s\<lparr>sp_pool := ?tp\<rparr>" using st c(1) f t(1) by (simp add: pool_do_def)
  ultimately show ?thesis
    unfolding served_rel_def using R(1-5) t(2)
    by (auto simp: log_rel_def workers_rel_def in_flight_def)
qed

lemma take_refines:
  assumes r: "served_rel pc s a" and run: "sp_ended s = Waiting" and st: "take_conn w buf s = Some s'"
  shows "\<exists>a'. server_step_03 (Picks w buf) a = Some a' \<and> served_rel pc s' a'"
  using r
proof (rule served_relE)
  fix ws fl
  assume R: "log_rel s a" "\<not> stopped (sp_pool s)" "workers_rel pc s a" "int_fds (waiting_conns a)"
    "waiting_conns a = ws @ fl" "in_flight pc (clients (sp_pool s) 0) fl"
    "pool_inv (sp_pool s) (map (conn_item pc) ws) 0"
  let ?ws = "workers (sp_pool s)"
  have len: "length buf = BUFSIZE" and w: "w < length ?ws" "?ws ! w = AtGet"
    and tw: "thread_pool_worker (sp_pool s) w \<noteq> None"
    using st by (auto simp: take_conn_def pool_do_def split: if_splits option.splits)
  obtain fd rest where ws: "ws = fd # rest"
    using tw worker_ok[OF pool_invD(1)[OF R(7)], of w] by (cases ws) auto
  have fd: "int fd \<le> INT_MAX" using R(4,5) ws by (simp add: int_fds_def)
  have "pool_inv (sp_pool s) ((Function pc, conn_arg fd) # map (conn_item pc) rest) 0"
    using R(7) by (simp add: ws conn_item_def)
  from take_item_inv[OF this w] obtain q m where
    t: "thread_pool_worker (sp_pool s) w = Some (Inr ((sp_pool s)\<lparr>work_queue := q, workitems := m,
        workers := ?ws[w := Executing (Function pc) (conn_arg fd)]\<rparr>))"
    "pool_inv ((sp_pool s)\<lparr>work_queue := q, workitems := m,
        workers := ?ws[w := Executing (Function pc) (conn_arg fd)]\<rparr>) (map (conn_item pc) rest) 0" by blast
  let ?tp = "(sp_pool s)\<lparr>work_queue := q, workitems := m, workers := ?ws[w := Executing (Function pc) (conn_arg fd)]\<rparr>"
  let ?a = "a\<lparr>waiting_conns := rest @ fl, workers03 := (workers03 a)[w := Some (fd, buf)], started03 := started03 a @ [fd]\<rparr>"
  have s': "s' = s\<lparr>sp_pool := ?tp, frames := (frames s)[w := buf], sp_started := sp_started s @ [fd]\<rparr>"
    using st len w t(1) fd by (simp add: take_conn_def pool_do_def conn_fd_arg)
  have "workers03 a ! w = None" using R(3) w by (auto simp: workers_rel_def worker_rel_def)
  then have "server_step_03 (Picks w buf) a = Some ?a"
    using R(1,3,5) ws w(1) run len by (simp add: server_step_03_def log_rel_def workers_rel_def)
  moreover have "workers_rel pc s' ?a"
    using R(3) w fd by (auto simp: workers_rel_def s' nth_list_update worker_rel_def)
  then have "served_rel pc s' ?a"
    unfolding served_rel_def using R t(2) ws s' by (auto simp: log_rel_def int_fds_def)
  ultimately show ?thesis by blast
qed

lemma serve_refines:
  assumes r: "served_rel pc s a" and run: "sp_ended s = Waiting" and st: "serve_round pc w call s = Some s'"
  shows "\<exists>a'. server_step_03 (PoolRound w call) a = Some a' \<and> log_rel s' a' \<and>
    (sp_ended s' = Waiting \<longrightarrow> served_rel pc s' a')"
  using r
proof (rule served_relE)
  fix ws fl
  assume R: "log_rel s a" "\<not> stopped (sp_pool s)" "workers_rel pc s a" "int_fds (waiting_conns a)"
    "waiting_conns a = ws @ fl" "in_flight pc (clients (sp_pool s) 0) fl"
    "pool_inv (sp_pool s) (map (conn_item pc) ws) 0"
  obtain arg where w: "w < length (workers (sp_pool s))" "workers (sp_pool s) ! w = Executing (Function pc) arg"
    using st by (auto simp: serve_round_def split: if_splits worker.splits)
  then obtain fd where fd: "arg = conn_arg fd" "int fd \<le> INT_MAX" "workers03 a ! w = Some (fd, frames s ! w)"
    using R(3) unfolding workers_rel_def worker_rel_def by force
  obtain as "end" where c: "conn_round_03 fd (frames s ! w) call = (as, end)" by (cases "conn_round_03 fd (frames s ! w) call")
  have n: "nat (conn_fd (conn_arg fd)) = fd" using conn_fd_arg[OF fd(2)] by simp
  have la: "length (workers03 a) = length (workers (sp_pool s))" "ended03 a = Waiting"
    using R(1,3) run by (simp_all add: workers_rel_def log_rel_def)
  let ?run = "(sp_pool s)\<lparr>workers := (workers (sp_pool s))[w := AtGet],
      executed := executed (sp_pool s) @ [(Function pc, conn_arg fd)]\<rparr>"
  have i: "pool_inv ?run (map (conn_item pc) ws) 0" using run_step_inv(1)[OF R(7) w] fd(1) by simp
  show ?thesis
  proof (cases "end")
    case (Continues b)
    let ?a = "a\<lparr>trace03 := trace03 a @ as, workers03 := (workers03 a)[w := Some (fd, b)]\<rparr>"
    have s': "s' = s\<lparr>sp_trace := sp_trace s @ as, frames := (frames s)[w := b]\<rparr>"
      using st w fd(1) n c Continues by (simp add: serve_round_def)
    have "served_rel pc s' ?a" unfolding served_rel_def
      using R w fd(1,2) s' by (auto simp: log_rel_def workers_rel_def nth_list_update worker_rel_def)
    moreover have "server_step_03 (PoolRound w call) a = Some ?a"
      using la w fd(3) c Continues by (simp add: server_step_03_def pool_round_def)
    ultimately show ?thesis by (auto simp: served_rel_def)
  next
    case (Leaves b)
    let ?a = "a\<lparr>trace03 := trace03 a @ as, workers03 := (workers03 a)[w := None]\<rparr>"
    have s': "s' = s\<lparr>sp_trace := sp_trace s @ as, sp_pool := ?run\<rparr>"
      using st w fd(1) n c Leaves by (simp add: serve_round_def pool_do_def)
    have "served_rel pc s' ?a" unfolding served_rel_def
      using R i w s' by (auto simp: log_rel_def workers_rel_def nth_list_update worker_rel_def)
    moreover have "server_step_03 (PoolRound w call) a = Some ?a"
      using la w fd(3) c Leaves by (simp add: server_step_03_def pool_round_def)
    ultimately show ?thesis by (auto simp: served_rel_def)
  qed (use st w fd n c la R(1) in \<open>auto simp: serve_round_def server_step_03_def pool_round_def log_rel_def\<close>)
qed

definition simulates :: "ptr \<Rightarrow> served \<Rightarrow> pool_server \<Rightarrow> bool" where
  "simulates pc s a \<longleftrightarrow> log_rel s a \<and> (sp_ended s = Waiting \<longrightarrow> served_rel pc s a)"

lemma step_refines:
  assumes "simulates pc s a" "served_step pc e s = Some s'"
  shows "case abs_event e of
      None \<Rightarrow> simulates pc s' a
    | Some e' \<Rightarrow> \<exists>a'. server_step_03 e' a = Some a' \<and> simulates pc s' a'"
proof -
  have r: "served_rel pc s a" "sp_ended s = Waiting"
    using assms by (auto simp: simulates_def served_step_def split: if_splits)
  have log: "served_rel pc s1 a1 \<Longrightarrow> simulates pc s1 a1" for s1 a1 by (simp add: served_rel_def simulates_def)
  show ?thesis
  proof (cases e)
    case (Accepts acc)
    then have "accept_conn pc acc s = Some s'" using assms(2) r(2) by (simp add: served_step_def)
    from accept_refines[OF r this] Accepts show ?thesis by (simp add: simulates_def)
  next
    case (Queues wi node)
    then have "pool_do (Enqueue 0 wi node) s = Some s'" using assms(2) r(2) by (simp add: served_step_def)
    from log[OF queue_refines[OF r(1) this]] Queues show ?thesis by simp
  next
    case (Takes w buf)
    then have "take_conn w buf s = Some s'" using assms(2) r(2) by (simp add: served_step_def)
    from take_refines[OF r this] Takes log show ?thesis by fastforce
  next
    case (Serves w call)
    then have "serve_round pc w call s = Some s'" using assms(2) r(2) by (simp add: served_step_def)
    from serve_refines[OF r this] Serves show ?thesis by (simp add: simulates_def)
  qed
qed

lemma run_refines:
  assumes "simulates pc s a" "served_run pc es s = Some s'"
  shows "\<exists>a'. pool_server_run (List.map_filter abs_event es) a = Some a' \<and> simulates pc s' a'"
  using assms
proof (induction es arbitrary: s a)
  case Nil
  then show ?case by (simp add: map_filter_simps)
next
  case (Cons e es)
  then obtain s1 where s1: "served_step pc e s = Some s1" "served_run pc es s1 = Some s'" by (auto split: bind_splits)
  from step_refines[OF Cons.prems(1) s1(1)] Cons.IH[OF _ s1(2)] show ?case
    by (cases "abs_event e") (fastforce simp: map_filter_simps)+
qed

lemma start_simulates:
  assumes "pool_inv tp [] 0" "\<not> stopped tp" "clients tp 0 = Idle" "workers tp = replicate POOL_THREADS AtGet"
  shows "simulates pc
    \<lparr>sp_pool = tp, frames = replicate POOL_THREADS [], sp_accepted = [], sp_started = [], sp_trace = t, sp_ended = Waiting\<rparr>
    \<lparr>waiting_conns = [], workers03 = replicate POOL_THREADS None, accepted03 = [], started03 = [], trace03 = t, ended03 = Waiting\<rparr>"
  using assms by (simp add: simulates_def served_rel_def log_rel_def workers_rel_def worker_rel_def int_fds_def in_flight_def)

lemma program_simulates:
  assumes q: "q_head (work_queue tp0) \<in> dom (q_links (work_queue tp0))" "q_items (work_queue tp0) = Map.empty"
    and run: "pool_program pc tp0 argv env es = Some s"
  shows "\<exists>a. server_03 argv env (List.map_filter abs_event es) = Some a \<and> simulates pc s a"
proof -
  have n: "int POOL_THREADS \<le> INT_MAX" by (simp add: POOL_THREADS_def INT_MAX_def)
  from pool_inv_init[OF q n] obtain tp where
    tp: "thread_pool_init (work_queue tp0) POOL_THREADS = Inr tp" "pool_inv tp [] 0" by blast
  have i: "\<not> stopped tp" "clients tp 0 = Idle" "workers tp = replicate POOL_THREADS AtGet"
    using tp(1) by (auto simp: thread_pool_init_def and_then_eq_Inr)
  consider (args) "length argv \<noteq> 2" | (port) e where "length argv = 2" "atoi (argv ! 1) = Inl e"
    | (no_socket) port out k where "length argv = 2" "atoi (argv ! 1) = Inr port" "tcp_setup port env = (out, Inl k)"
    | (up) port out fd where "length argv = 2" "atoi (argv ! 1) = Inr port" "tcp_setup port env = (out, Inr fd)"
    by (metis old.sum.exhaust surj_pair)
  then show ?thesis
  proof cases
    case up
    show ?thesis
      using run up tp(1) run_refines[OF start_simulates[OF tp(2) i], of pc es _ s]
      by (simp add: pool_program_def server_03_def Let_def)
  qed (use run tp(1) in \<open>auto simp: pool_program_def server_03_def simulates_def log_rel_def Let_def\<close>)
qed

text \<open>Whether a worker can take a connection.\<close>

definition in_submit :: "served \<Rightarrow> nat" where
  "in_submit s = (if clients (sp_pool s) 0 = Idle then 0 else 1)"

lemma take_enabled:
  assumes "served_rel pc s a" "pool_order a" "length buf = BUFSIZE"
    and "w < length (workers (sp_pool s))" "workers (sp_pool s) ! w = AtGet"
  shows "take_conn w buf s \<noteq> None \<longleftrightarrow> length (sp_started s) + in_submit s < length (sp_accepted s)"
  using assms(1)
proof (rule served_relE)
  fix ws fl
  assume R: "waiting_conns a = ws @ fl" "in_flight pc (clients (sp_pool s) 0) fl"
    "pool_inv (sp_pool s) (map (conn_item pc) ws) 0" "log_rel s a"
  have "take_conn w buf s \<noteq> None \<longleftrightarrow> thread_pool_worker (sp_pool s) w \<noteq> None"
    using assms(3-5) by (simp add: take_conn_def pool_do_def split: option.splits sum.splits)
  also have "\<dots> \<longleftrightarrow> ws \<noteq> []" using worker_ok[OF pool_invD(1)[OF R(3)], of w] by (cases ws) auto
  also have "\<dots> \<longleftrightarrow> length (sp_started s) + in_submit s < length (sp_accepted s)"
    using R(1,2,4) assms(2) by (auto simp: in_flight_def pool_order_def log_rel_def in_submit_def)
  finally show ?thesis .
qed

section \<open>What the program guarantees\<close>

text \<open>C4: The server of 20-03 on its real thread pool, with the monitor queue, the intrusive list and
  the work items on the heap, does what the server with a list of waiting connections and eight
  places does: the same output, the same end, the same connections accepted and served in the
  same order. So no run of it breaks the pool, no connection is lost in the queue, and none is
  served twice.\<close>

theorem pool_program_refines:
  assumes "q_head (work_queue tp0) \<in> dom (q_links (work_queue tp0))" "q_items (work_queue tp0) = Map.empty"
    and "pool_program pc tp0 argv env es = Some s"
  shows "\<exists>a. server_03 argv env (List.map_filter abs_event es) = Some a
    \<and> sp_trace s = trace03 a \<and> sp_ended s = ended03 a \<and> sp_accepted s = accepted03 a \<and> sp_started s = started03 a"
  using program_simulates[OF assms] by (auto simp: simulates_def log_rel_def)

definition wild_pool :: thread_pool where
  "wild_pool = \<lparr>stopped = True, nthreads = 0,
     work_queue = \<lparr>q_links = [0x100 \<mapsto> \<lparr>nxt = 0x7, prv = 0x9\<rparr>], q_head = 0x100, q_size = 99, q_items = Map.empty\<rparr>,
     workitems = Map.empty, workers = [], clients = (\<lambda>_. Stopping), submitted = [], executed = []\<rparr>"

lemmas list_calls_03 = init_list_head_def set_prev_def set_next_def insert_list_last_def insert_list_after_def
  remove_list_first_def remove_list_entry_def or_fail_def

lemmas accept_simps = pool_program_def Let_def served_step_def thread_pool_init_def queue_init_def list_calls_03
  accept_conn_def wild_pool_def pool_do_def thread_pool_submit_def INT_MAX_def fresh_item_def fresh_node_def
  thread_pool_internal_submit_def queue_put_def OFF_NODE_ENTRY_def in_submit_def

lemma fd_4: "conn_arg 4 = 4" "conn_fd 4 = 4" by (simp_all add: conn_arg_def conn_fd_def)

lemma quits_03: "\<exists>out b. conn_round_03 fd blank (full quit_text) = (out, Leaves b)"
proof -
  have "conn_round_03 fd blank (full quit_text) = conn_round_02 fd blank (full quit_text)"
    by (simp add: conn_round_03_def conn_round_02_def)
  then show ?thesis by (simp add: run_simps BUFSIZE_def)
qed

lemma pool_program_refines_witness:
  "\<exists>s a. pool_program 0x4000 wild_pool [''server'', ''8080''] good_net
      [Accepts (Accepted 4 (Some ''a'') 1), Queues 0x20 0x30, Takes 3 blank, Serves 3 (full quit_text)] = Some s
    \<and> sp_started s = [4] \<and> sp_ended s = Waiting \<and> workers (sp_pool s) ! 3 = AtGet
    \<and> server_03 [''server'', ''8080''] good_net
        [PoolConnection (Accepted 4 (Some ''a'') 1), Picks 3 blank, PoolRound 3 (full quit_text)] = Some a
    \<and> sp_trace s = trace03 a"
proof -
  let ?es = "[Accepts (Accepted 4 (Some ''a'') 1), Queues 0x20 0x30, Takes 3 blank, Serves 3 (full quit_text)]"
  have port: "atoi ([''server'', ''8080''] ! 1) = Inr 8080" by code_simp
  obtain out where tcp: "tcp_setup 8080 good_net = (out, Inr 3)" by (simp add: tcp_setup_def good_net_def)
  obtain leave b where q: "conn_round_03 4 blank (full quit_text) = (leave, Leaves b)" using quits_03 by blast
  have n: "POOL_THREADS = Suc (Suc (Suc (Suc (Suc (Suc (Suc (Suc 0)))))))" by (simp add: POOL_THREADS_def)
  have "\<exists>s. pool_program 0x4000 wild_pool [''server'', ''8080''] good_net ?es = Some s
    \<and> sp_started s = [4] \<and> sp_ended s = Waiting \<and> workers (sp_pool s) ! 3 = AtGet"
    using port tcp
    by (simp add: n accept_simps take_conn_def thread_pool_worker_def queue_get_def container_of_def
      serve_round_def fd_4 q)
  then show ?thesis
    using pool_program_refines[of wild_pool "0x4000" "[''server'', ''8080'']" good_net ?es]
    by (fastforce simp: wild_pool_def map_filter_simps)
qed

text \<open>C28: No accepted connection is stuck in the pool of 20-03: while the server runs, a free worker
  can take a connection exactly when more have been accepted than started, not counting the one
  that the accept loop may just be submitting; and there are always eight workers, none of which
  has left its loop.\<close>

theorem pool_program_takes:
  assumes "q_head (work_queue tp0) \<in> dom (q_links (work_queue tp0))" "q_items (work_queue tp0) = Map.empty"
    and "pool_program pc tp0 argv env es = Some s" "sp_ended s = Waiting" "length buf = BUFSIZE"
  shows "length (workers (sp_pool s)) = 8 \<and> Exited \<notin> set (workers (sp_pool s)) \<and> (\<forall>w < 8.
    workers (sp_pool s) ! w = AtGet \<longrightarrow>
      (served_step pc (Takes w buf) s \<noteq> None \<longleftrightarrow> length (sp_started s) + in_submit s < length (sp_accepted s)))"
proof -
  obtain a where a: "server_03 argv env (List.map_filter abs_event es) = Some a" "simulates pc s a"
    using program_simulates[OF assms(1-3)] by blast
  then have r: "served_rel pc s a" "pool_order a" using assms(4) server_03_order by (auto simp: simulates_def)
  then have w: "workers_rel pc s a" by (simp add: served_rel_def)
  have n: "length (workers (sp_pool s)) = 8" using r(2) w by (simp add: pool_order_def workers_rel_def POOL_THREADS_def)
  moreover have "Exited \<notin> set (workers (sp_pool s))"
    using w by (auto simp: workers_rel_def worker_rel_def in_set_conv_nth)
  moreover have "served_step pc (Takes w buf) s = take_conn w buf s" for w
    using assms(4) by (simp add: served_step_def)
  ultimately show ?thesis using take_enabled[OF r assms(5)] by simp
qed

lemma pool_program_takes_witness:
  "\<exists>s. pool_program 0x4000 wild_pool [''server'', ''8080''] good_net
      [Accepts (Accepted 4 (Some ''a'') 1), Queues 0x20 0x30, Accepts (Accepted 5 (Some ''b'') 2)] = Some s
    \<and> served_step 0x4000 (Takes 3 blank) s \<noteq> None \<and> in_submit s = 1"
proof -
  let ?es = "[Accepts (Accepted 4 (Some ''a'') 1), Queues 0x20 0x30, Accepts (Accepted 5 (Some ''b'') 2)]"
  have port: "atoi ([''server'', ''8080''] ! 1) = Inr 8080" by code_simp
  obtain out where tcp: "tcp_setup 8080 good_net = (out, Inr 3)" by (simp add: tcp_setup_def good_net_def)
  have n: "POOL_THREADS = Suc (Suc (Suc (Suc (Suc (Suc (Suc (Suc 0)))))))" by (simp add: POOL_THREADS_def)
  have "\<exists>s. pool_program 0x4000 wild_pool [''server'', ''8080''] good_net ?es = Some s
    \<and> sp_ended s = Waiting \<and> workers (sp_pool s) ! 3 = AtGet \<and> sp_started s = [] \<and> length (sp_accepted s) = 2
    \<and> in_submit s = 1"
    using port tcp by (simp add: n accept_simps)
  then show ?thesis
    using pool_program_takes[of wild_pool "0x4000" "[''server'', ''8080'']" good_net ?es _ blank]
    by (fastforce simp: wild_pool_def)
qed

end
