(* ===== verification/Adder.thy ===== *)
theory Adder
  imports Latch_Monitor
begin

text \<open>
  \<open>adder.c\<close> and \<open>chrono.c\<close> of 18: the sum of an array computed by one loop, the regions of the four
  tasks that compute it in \<open>Par_Adder\<close>, and the stop watch and the loop that compare the two.
\<close>

section \<open>long\<close>

definition LONG_MAX :: int where "LONG_MAX = 9223372036854775807"
definition LONG_MIN :: int where "LONG_MIN = - 9223372036854775808"

definition c_long :: "int \<Rightarrow> c_error + int" where
  "c_long i = (if LONG_MIN \<le> i \<and> i \<le> LONG_MAX then Inr i else Inl SignedOverflow)"

section \<open>Adders\<close>

definition NTHREADS :: nat where "NTHREADS = 4"
definition NVALS :: nat where "NVALS = 5000000"

definition init_vals :: "nat \<Rightarrow> int list" where
  "init_vals n = replicate n 1"

text \<open>The loop of both adders, from index \<open>i\<close>, \<open>k\<close> times.\<close>

primrec add_range :: "int list \<Rightarrow> nat \<Rightarrow> nat \<Rightarrow> int \<Rightarrow> c_error + int" where
  "add_range vals i 0 tot = Inr tot"
| "add_range vals i (Suc k) tot =
     (if i + k < length vals
      then and_then (add_range vals i k tot) (\<lambda>t. c_long (t + vals ! (i + k)))
      else Inl OutOfBounds)"

definition seq_adder :: "int list \<Rightarrow> nat \<Rightarrow> c_error + int" where
  "seq_adder vals nvals = add_range vals 0 nvals 0"

text \<open>The \<open>begin\<close> and \<open>end\<close> pointers of a task are indices into \<open>vals\<close>; the latch is shared.\<close>

record sum_task =
  task_begin :: nat
  task_end :: nat
  task_total :: int

definition region_size :: "nat \<Rightarrow> nat" where
  "region_size nvals = (nvals + (NTHREADS - 1)) div NTHREADS"

definition make_task :: "nat \<Rightarrow> nat \<Rightarrow> int \<Rightarrow> sum_task" where
  "make_task nvals n junk =
     (let b = n * region_size nvals in
      \<lparr>task_begin = b,
       task_end = (if b + region_size nvals > nvals then nvals else b + region_size nvals),
       task_total = junk\<rparr>)"

section \<open>Sums\<close>

definition small :: "int list \<Rightarrow> bool" where
  "small vals \<longleftrightarrow> (\<forall>v\<in>set vals. in_int v) \<and> length vals < 2 ^ 32"

lemma sum_bound:
  "(\<forall>v\<in>set xs. in_int v) \<Longrightarrow> \<bar>sum_list xs\<bar> \<le> 2147483648 * int (length xs)"
  by (induction xs) (auto simp: c_int_bounds)

lemma c_long_sum:
  assumes "small vals" "set xs \<subseteq> set vals" "length xs \<le> length vals"
  shows "c_long (sum_list xs) = Inr (sum_list xs)"
proof -
  have "\<bar>sum_list xs\<bar> \<le> 2147483648 * int (length xs)"
    using assms(1,2) by (intro sum_bound) (auto simp: small_def)
  moreover have "int (length xs) \<le> 4294967295" using assms(1,3) by (simp add: small_def)
  ultimately have "\<bar>sum_list xs\<bar> \<le> 9223372034707292160" by linarith
  then show ?thesis by (simp add: c_long_def LONG_MAX_def LONG_MIN_def abs_le_iff)
qed

lemma take_Suc_drop:
  "i + k < length vals \<Longrightarrow> take (Suc k) (drop i vals) = take k (drop i vals) @ [vals ! (i + k)]"
  by (subst take_Suc_conv_app_nth) auto

lemma add_range_ok:
  assumes "small vals" "i + k \<le> length vals"
  shows "add_range vals i k 0 = Inr (sum_list (take k (drop i vals)))"
  using assms(2)
proof (induction k)
  case (Suc k)
  have l: "i + k < length vals" using Suc.prems by simp
  have IH: "add_range vals i k 0 = Inr (sum_list (take k (drop i vals)))" using Suc by simp
  have "c_long (sum_list (take (Suc k) (drop i vals))) = Inr (sum_list (take (Suc k) (drop i vals)))"
    by (rule c_long_sum[OF assms(1)]) (use Suc.prems in \<open>auto dest: in_set_takeD in_set_dropD\<close>)
  then show ?case using l IH by (simp add: take_Suc_drop[OF l])
qed simp

text \<open>The sequential adder returns the sum of the first \<open>nvals\<close> values, without overflow, for
  up to $2^{32}-1$ values of type int.\<close>

theorem seq_adder_sums:
  assumes "small vals" "nvals \<le> length vals"
  shows "seq_adder vals nvals = Inr (sum_list (take nvals vals))"
  using add_range_ok[OF assms(1), of 0 nvals] assms(2) by (simp add: seq_adder_def)

lemma seq_adder_sums_witness: "seq_adder [3, -5, 7] 3 = Inr 5"
  using seq_adder_sums[of "[3, -5, 7]" 3] by (simp add: small_def c_int_bounds)

section \<open>The regions of the tasks\<close>

lemma regions_cover:
  assumes "nvals \<le> length vals"
  defines "r \<equiv> region_size nvals"
  shows "sum_list (map (\<lambda>n. sum_list (take ((if n * r + r > nvals then nvals else n * r + r) - n * r)
      (drop (n * r) vals))) [0..<m]) = sum_list (take (min nvals (m * r)) vals)"
proof (induction m)
  case (Suc m)
  have "sum_list (take (min nvals (m * r)) vals) + sum_list (take ((if m * r + r > nvals then nvals else m * r + r) - m * r)
      (drop (m * r) vals)) = sum_list (take (min nvals (Suc m * r)) vals)"
  proof (cases "nvals \<le> m * r")
    case True
    then have "min nvals (m * r) = nvals" "min nvals (Suc m * r) = nvals" by simp_all
    moreover have "(if m * r + r > nvals then nvals else m * r + r) - m * r = 0" using True by auto
    ultimately show ?thesis by simp
  next
    case False
    let ?e = "min nvals (Suc m * r)"
    have e: "(if m * r + r > nvals then nvals else m * r + r) = ?e" by (auto simp: min_def)
    have "m * r \<le> ?e" using False by simp
    then have "take ?e vals = take (m * r) vals @ take (?e - m * r) (drop (m * r) vals)"
      by (metis le_add_diff_inverse take_add)
    moreover have "min nvals (m * r) = m * r" using False by simp
    ultimately show ?thesis unfolding e by simp
  qed
  then show ?case using Suc.IH by simp
qed simp

lemma region_enough: "nvals \<le> NTHREADS * region_size nvals"
  unfolding region_size_def NTHREADS_def by presburger

text \<open>What the task \<open>n\<close> has to sum up, and the sums of the first tasks.\<close>

definition part :: "int list \<Rightarrow> nat \<Rightarrow> nat \<Rightarrow> int" where
  "part vals nvals n = sum_list (take (task_end (make_task nvals n 0) - task_begin (make_task nvals n 0))
     (drop (task_begin (make_task nvals n 0)) vals))"

lemma parts_cover:
  assumes "nvals \<le> length vals"
  shows "sum_list (map (part vals nvals) [0..<m]) = sum_list (take (min nvals (m * region_size nvals)) vals)"
  using regions_cover[OF assms, of m] by (simp add: part_def[abs_def] make_task_def Let_def)

lemma all_parts:
  assumes "nvals \<le> length vals"
  shows "sum_list (map (part vals nvals) [0..<NTHREADS]) = sum_list (take nvals vals)"
  using parts_cover[OF assms, of NTHREADS] region_enough[of nvals] by (simp add: min_absorb1)

lemma c_long_parts:
  assumes "small vals" "nvals \<le> length vals"
  shows "c_long (sum_list (map (part vals nvals) [0..<m])) = Inr (sum_list (map (part vals nvals) [0..<m]))"
  unfolding parts_cover[OF assms(2)] by (rule c_long_sum[OF assms(1)]) (auto dest: in_set_takeD)

lemma region_sum:
  assumes "small vals" "nvals \<le> length vals"
    and "task_begin t = task_begin (make_task nvals n 0)" "task_end t = task_end (make_task nvals n 0)"
  shows "add_range vals (task_begin t) (task_end t - task_begin t) 0 = Inr (part vals nvals n)"
proof (cases "task_begin t \<le> task_end t")
  case True
  have "task_end t \<le> length vals" using assms(2,4) by (auto simp: make_task_def Let_def)
  then show ?thesis using add_range_ok[OF assms(1), of "task_begin t" "task_end t - task_begin t"] True assms(3,4)
    by (simp add: part_def)
next
  case False
  then show ?thesis using assms(3,4) by (simp add: part_def)
qed

text \<open>When four does not divide the number of values, a task's pointers can lie beyond one past
  the end of the array, which C leaves undefined even unread: for five values the fourth task
  begins at index six. On a flat address space that task is empty and the result still right.
  For a multiple of four the last task ends exactly at the end.\<close>

theorem par_adder_pointer_past_end:
  "task_begin (make_task 5 3 junk) = 6 \<and> task_end (make_task 5 3 junk) = 5
    \<and> task_end (make_task (4 * q) 3 junk) = 4 * q
    \<and> task_begin (make_task (4 * q) 3 junk) + region_size (4 * q) = 4 * q"
proof -
  have "region_size (4 * q) = q" by (simp add: region_size_def NTHREADS_def)
  then show ?thesis by (simp add: make_task_def Let_def region_size_def NTHREADS_def)
qed

section \<open>The stop watch\<close>

text \<open>\<open>struct timespec\<close> on the 64-bit target: both members are \<open>long\<close>.\<close>

record timespec =
  tv_sec :: int
  tv_nsec :: int

text \<open>\<open>clock_gettime\<close> is the argument \<open>ts\<close>; the results are \<open>unsigned long\<close>.\<close>

definition chrono_start :: "timespec \<Rightarrow> timespec" where
  "chrono_start ts = ts"

definition chrono_nanos :: "timespec \<Rightarrow> timespec \<Rightarrow> c_error + 64 word" where
  "chrono_nanos c ts =
     (if tv_sec ts = tv_sec c
      then and_then (c_long (tv_nsec ts - tv_nsec c)) (\<lambda>d. Inr (word_of_int d))
      else and_then (c_long (1000000000 - tv_nsec c)) (\<lambda>a.
           and_then (c_long (tv_sec ts - tv_sec c)) (\<lambda>b.
           and_then (c_long (b - 1)) (\<lambda>b1.
           and_then (c_long (b1 * 1000000000)) (\<lambda>m.
           and_then (c_long (a + m)) (\<lambda>am.
           and_then (c_long (am + tv_nsec ts)) (\<lambda>d. Inr (word_of_int d))))))))"

definition chrono_micros :: "timespec \<Rightarrow> timespec \<Rightarrow> c_error + 64 word" where
  "chrono_micros c ts = and_then (chrono_nanos c ts) (\<lambda>n. Inr ((n + 500) div 1000))"

text \<open>What \<open>clock_gettime\<close> gives, and the nanoseconds it stands for.\<close>

definition ts_ok :: "timespec \<Rightarrow> bool" where
  "ts_ok ts \<longleftrightarrow> 0 \<le> tv_sec ts \<and> tv_sec ts < 9000000000 \<and> 0 \<le> tv_nsec ts \<and> tv_nsec ts < 1000000000"

definition ts_nanos :: "timespec \<Rightarrow> int" where
  "ts_nanos ts = tv_sec ts * 1000000000 + tv_nsec ts"

lemma chrono_nanos_exact:
  assumes "ts_ok c" "ts_ok ts" "ts_nanos c \<le> ts_nanos ts"
  shows "chrono_nanos c ts = Inr (word_of_int (ts_nanos ts - ts_nanos c))"
proof -
  have b: "0 \<le> tv_nsec c" "tv_nsec c < 1000000000" "0 \<le> tv_nsec ts" "tv_nsec ts < 1000000000"
    "0 \<le> tv_sec c" "tv_sec ts < 9000000000" using assms(1,2) by (simp_all add: ts_ok_def)
  have le: "tv_sec c * 1000000000 + tv_nsec c \<le> tv_sec ts * 1000000000 + tv_nsec ts"
    using assms(3) by (simp add: ts_nanos_def)
  then have s: "tv_sec c \<le> tv_sec ts" using b by linarith
  have in_long: "c_long i = Inr i" if "- 9000000000000000000 \<le> i" "i \<le> 9001000000000000000" for i
    using that by (simp add: c_long_def LONG_MAX_def LONG_MIN_def)
  show ?thesis
  proof (cases "tv_sec ts = tv_sec c")
    case True
    then show ?thesis using b by (simp add: chrono_nanos_def in_long ts_nanos_def)
  next
    case False
    then have lt: "tv_sec c + 1 \<le> tv_sec ts" using s by linarith
    define d where "d = tv_sec ts - tv_sec c - 1"
    have d: "0 \<le> d" "d < 9000000000" using b lt by (simp_all add: d_def)
    have "1000000000 - tv_nsec c + (tv_sec ts - tv_sec c - 1) * 1000000000 + tv_nsec ts = ts_nanos ts - ts_nanos c"
      by (simp add: ts_nanos_def algebra_simps)
    moreover have "c_long (1000000000 - tv_nsec c) = Inr (1000000000 - tv_nsec c)"
      "c_long (tv_sec ts - tv_sec c) = Inr (tv_sec ts - tv_sec c)"
      "c_long d = Inr d" "c_long (d * 1000000000) = Inr (d * 1000000000)"
      "c_long (1000000000 - tv_nsec c + d * 1000000000) = Inr (1000000000 - tv_nsec c + d * 1000000000)"
      "c_long (1000000000 - tv_nsec c + d * 1000000000 + tv_nsec ts) =
        Inr (1000000000 - tv_nsec c + d * 1000000000 + tv_nsec ts)"
      by (rule in_long; use b lt d in linarith)+
    ultimately show ?thesis using False unfolding d_def by (simp add: chrono_nanos_def del: right_diff_distrib_numeral left_diff_distrib_numeral)
  qed
qed

lemma nanos_range:
  assumes "ts_ok c" "ts_ok ts"
  shows "ts_nanos ts - ts_nanos c < 9000000000000000000"
  using assms by (simp add: ts_ok_def ts_nanos_def)

text \<open>For two readings of the monotonic clock in order, \<open>chrono_nanos\<close> is the exact number of
  nanoseconds between them, with no overflow on the way, and \<open>chrono_micros\<close> that number in
  microseconds rounded half up.\<close>

theorem chrono_exact:
  assumes "ts_ok c" "ts_ok ts" "ts_nanos c \<le> ts_nanos ts"
  shows "\<exists>n m. chrono_nanos (chrono_start c) ts = Inr n \<and> chrono_micros (chrono_start c) ts = Inr m
    \<and> uint n = ts_nanos ts - ts_nanos c \<and> uint m = (ts_nanos ts - ts_nanos c + 500) div 1000"
proof -
  let ?d = "ts_nanos ts - ts_nanos c"
  have d: "0 \<le> ?d" "?d < 9000000000000000000" using assms(3) nanos_range[OF assms(1,2)] by simp_all
  have "chrono_nanos c ts = Inr (word_of_int ?d)" by (rule chrono_nanos_exact[OF assms])
  moreover have u: "uint (word_of_int ?d :: 64 word) = ?d"
    using d by (simp add: unsigned_of_int take_bit_int_eq_self del: of_int_diff)
  moreover have "uint ((word_of_int ?d + 500 :: 64 word) div 1000) = (?d + 500) div 1000"
  proof -
    have "word_of_int ?d + 500 = (word_of_int (?d + 500) :: 64 word)" by simp
    moreover have "uint (word_of_int (?d + 500) :: 64 word) = ?d + 500"
      using d by (simp add: unsigned_of_int take_bit_int_eq_self del: of_int_diff of_int_add)
    ultimately show ?thesis by (simp only: uint_div_distrib) simp
  qed
  ultimately show ?thesis by (auto simp: chrono_start_def chrono_micros_def)
qed

lemma chrono_exact_witness:
  "\<exists>n m. chrono_nanos (chrono_start \<lparr>tv_sec = 7, tv_nsec = 999999000\<rparr>) \<lparr>tv_sec = 8, tv_nsec = 600\<rparr> = Inr n
    \<and> chrono_micros (chrono_start \<lparr>tv_sec = 7, tv_nsec = 999999000\<rparr>) \<lparr>tv_sec = 8, tv_nsec = 600\<rparr> = Inr m
    \<and> uint n = 1600 \<and> uint m = 2"
  using chrono_exact[of "\<lparr>tv_sec = 7, tv_nsec = 999999000\<rparr>" "\<lparr>tv_sec = 8, tv_nsec = 600\<rparr>"]
  by (simp add: ts_ok_def ts_nanos_def)

section \<open>The comparison\<close>

definition NITERS :: nat where "NITERS = 50"

text \<open>The loop of \<open>test\<close>: an iteration is the two readings of the clock and what the adder gives in
  it. \<open>less_micros\<close> (\<open>fewest\<close>) starts at \<open>ULONG_MAX\<close>.\<close>

fun test_loop :: "int \<Rightarrow> (timespec \<times> timespec \<times> (c_error + int)) list \<Rightarrow> int \<times> 64 word \<Rightarrow> c_error + (int \<times> 64 word)" where
  "test_loop expected [] (res, fewest) = Inr (res, fewest)"
| "test_loop expected ((t0, t1, sum_func) # its) (res, fewest) =
     (let chrono = chrono_start t0 in
      and_then sum_func (\<lambda>res1.
      and_then (chrono_micros chrono t1) (\<lambda>micros.
        let fewest1 = (if micros < fewest then micros else fewest) in
        if expected \<noteq> res1 then Inl AssertFailed else test_loop expected its (res1, fewest1))))"

definition test_adder :: "string \<Rightarrow> int \<Rightarrow> int \<Rightarrow> (timespec \<times> timespec \<times> (c_error + int)) list
    \<Rightarrow> c_error + (string \<times> int \<times> 64 word)" where
  "test_adder nm expected junk its =
     and_then (test_loop expected its (junk, - 1)) (\<lambda>(res, less_micros). Inr (nm, res, less_micros))"

definition elapsed :: "timespec \<Rightarrow> timespec \<Rightarrow> int" where
  "elapsed t0 t1 = (ts_nanos t1 - ts_nanos t0 + 500) div 1000"

definition clock_ok :: "timespec \<Rightarrow> timespec \<Rightarrow> bool" where
  "clock_ok t0 t1 \<longleftrightarrow> ts_ok t0 \<and> ts_ok t1 \<and> ts_nanos t0 \<le> ts_nanos t1"

lemma micros_exact:
  assumes "clock_ok t0 t1"
  shows "\<exists>m. chrono_micros (chrono_start t0) t1 = Inr m \<and> uint m = elapsed t0 t1"
proof -
  let ?d = "ts_nanos t1 - ts_nanos t0"
  have d: "0 \<le> ?d" "?d < 9000000000000000000"
    using assms nanos_range[of t0 t1] by (simp_all add: clock_ok_def)
  have "uint (word_of_int (?d + 500) :: 64 word) = ?d + 500"
    using d by (simp add: unsigned_of_int take_bit_int_eq_self del: of_int_diff of_int_add)
  moreover have "chrono_micros (chrono_start t0) t1 = Inr (word_of_int (?d + 500) div 1000)"
    using chrono_nanos_exact[of t0 t1] assms by (simp add: chrono_micros_def chrono_start_def clock_ok_def)
  ultimately show ?thesis by (simp add: elapsed_def uint_div_distrib del: of_int_diff of_int_add)
qed

lemma test_loop_ok:
  assumes "\<forall>(t0, t1, r)\<in>set its. clock_ok t0 t1 \<and> r = Inr expected"
  shows "\<exists>m. test_loop expected its (res, fewest) = Inr (if its = [] then res else expected, m)
    \<and> uint m = Min (insert (uint fewest) ((\<lambda>(t0, t1, r). elapsed t0 t1) ` set its))"
  using assms
proof (induction its arbitrary: res fewest)
  case (Cons x its)
  obtain t0 t1 where x: "x = (t0, t1, Inr expected)" "clock_ok t0 t1" using Cons.prems by (cases x) auto
  from micros_exact[OF x(2)] obtain m where
    m: "chrono_micros (chrono_start t0) t1 = Inr m" "uint m = elapsed t0 t1" by blast
  let ?fewest = "if m < fewest then m else fewest"
  have u: "uint ?fewest = min (elapsed t0 t1) (uint fewest)"
    using m(2) by (auto simp: word_less_def min_def)
  let ?E = "(\<lambda>(t0, t1, r). elapsed t0 t1) ` set its"
  from Cons.IH[of expected ?fewest] Cons.prems obtain k where
    k: "test_loop expected its (expected, ?fewest) = Inr (expected, k)" "uint k = Min (insert (uint ?fewest) ?E)"
    by (auto split: if_splits)
  have "Min (insert (min (elapsed t0 t1) (uint fewest)) ?E) = Min (insert (uint fewest) (insert (elapsed t0 t1) ?E))"
    by (cases "set its = {}") (simp_all add: min.assoc min.commute min.left_commute)
  then show ?case using k m(1) x u by (simp add: Let_def)
qed simp

lemma elapsed_below: "clock_ok t0 t1 \<Longrightarrow> elapsed t0 t1 \<le> 18446744073709551615"
  using nanos_range[of t0 t1] by (simp add: clock_ok_def elapsed_def)

lemma test_adder_ok:
  assumes "\<forall>(t0, t1, r)\<in>set its. clock_ok t0 t1 \<and> r = Inr expected" "its \<noteq> []"
  shows "\<exists>m. test_adder nm expected junk its = Inr (nm, expected, m)
    \<and> uint m = Min ((\<lambda>(t0, t1, r). elapsed t0 t1) ` set its)"
proof -
  let ?E = "(\<lambda>(t0, t1, r). elapsed t0 t1) ` set its"
  from test_loop_ok[OF assms(1), of junk "- 1"] obtain m where
    m: "test_loop expected its (junk, - 1) = Inr (expected, m)" "uint m = Min (insert (uint (- 1 :: 64 word)) ?E)"
    using assms(2) by auto
  have ne: "?E \<noteq> {}" "finite ?E" using assms(2) by auto
  have "Min ?E \<in> ?E" by (rule Min_in[OF ne(2,1)])
  then have "Min ?E \<le> 18446744073709551615" using assms(1) elapsed_below by fastforce
  moreover have "uint (- 1 :: 64 word) = 18446744073709551615"
    by (simp add: unsigned_minus_1_eq_mask mask_eq_exp_minus_1)
  ultimately have "Min (insert (uint (- 1 :: 64 word)) ?E) = Min ?E"
    using ne Min_insert[OF ne(2,1)] by (metis min_absorb2)
  then show ?thesis using m by (simp add: test_adder_def)
qed

end
