(* ===== verification/Par_Adder.thy ===== *)
theory Par_Adder
  imports Adder Pool_Props Latch_Monitor
begin

text \<open>
  The parallel adder of 18 on its thread pool: the main thread that calls \<open>par_adder\<close> and the
  workers that run \<open>par_func\<close>, step by step and in any order. The pool, its queue and its work items
  are those of \<open>Thread_Pool\<close>; the operations of the latch are those of \<open>Latch_Monitor\<close>, atomic by the
  contract of its monitor.
\<close>

section \<open>State\<close>

text \<open>
  Where a worker is in \<open>par_func\<close>: not in it, at its start, behind the loop with the local total,
  behind the store of \<open>stask->total\<close>, and behind the countdown. Where the main thread is in
  \<open>par_adder\<close>: about to fill in and submit task \<open>n\<close>; in \<open>thread_pool_submit\<close>, behind its test of
  \<open>stopped\<close>; at the await; in the loop over the totals; returned.
\<close>

datatype par_pc = NotIn | Entered | Summed int | Stored | Counted
datatype adder_pc = Filling nat | Queueing nat | AtAwait | Totals nat int | Returned int

record adder =
  ad_pool :: thread_pool
  ad_cdl :: latch
  ad_tasks :: "sum_task list"
  ad_main :: adder_pc
  ad_calls :: "par_pc list"

datatype adder_event = MainStep | MainQueues ptr ptr | WorkerTakes nat | ParFunc nat

section \<open>Operations\<close>

text \<open>\<open>&tasks[n]\<close>, with the array at \<open>base\<close> on the stack, and back. \<open>pf\<close> is the address of
  \<open>par_func\<close>.\<close>

definition task_addr :: "ptr \<Rightarrow> nat \<Rightarrow> ptr" where
  "task_addr base n = base + 32 * of_nat n"

definition task_of :: "ptr \<Rightarrow> ptr \<Rightarrow> nat option" where
  "task_of base p = List.find (\<lambda>n. task_addr base n = p) [0..<NTHREADS]"

definition adder_pool :: "pool_event \<Rightarrow> (adder \<Rightarrow> adder) \<Rightarrow> adder \<Rightarrow> (c_error + adder) option" where
  "adder_pool e f s =
     (case pool_step e (ad_pool s) of
        None \<Rightarrow> None
      | Some (Inl err) \<Rightarrow> Some (Inl err)
      | Some (Inr tp) \<Rightarrow> Some (Inr (f (s\<lparr>ad_pool := tp\<rparr>))))"

text \<open>The call of \<open>par_adder\<close> up to the first loop; \<open>junk\<close> is what the stack holds where \<open>tasks\<close> is.\<close>

definition par_adder :: "sum_task list \<Rightarrow> adder \<Rightarrow> adder" where
  "par_adder junk s =
     s\<lparr>ad_cdl := countdownlatch_init (int NTHREADS), ad_tasks := take NTHREADS (junk @ replicate NTHREADS (make_task 0 0 0)),
       ad_main := Filling 0\<rparr>"

definition after_submit :: "nat \<Rightarrow> adder_pc" where
  "after_submit n = (if Suc n < NTHREADS then Filling (Suc n) else AtAwait)"

text \<open>A step of the main thread. The result of \<open>thread_pool_submit\<close> is ignored.\<close>

definition par_adder_step :: "nat \<Rightarrow> ptr \<Rightarrow> ptr \<Rightarrow> adder \<Rightarrow> (c_error + adder) option" where
  "par_adder_step nvals pf base s =
     (case ad_main s of
        Filling n \<Rightarrow>
          adder_pool (Submit 0 (Function pf) (task_addr base n))
            (\<lambda>s. s\<lparr>ad_main := (if clients (ad_pool s) 0 = Idle then after_submit n else Queueing n)\<rparr>)
            (s\<lparr>ad_tasks := (ad_tasks s)[n := make_task nvals n (task_total (ad_tasks s ! n))]\<rparr>)
      | Queueing n \<Rightarrow> None
      | AtAwait \<Rightarrow>
          (case countdownlatch_await (ad_cdl s) of
             Inl e \<Rightarrow> Some (Inl e)
           | Inr Blocks \<Rightarrow> None
           | Inr (Completes cdl u k) \<Rightarrow> Some (Inr (s\<lparr>ad_cdl := cdl, ad_main := Totals 0 0\<rparr>)))
      | Totals i tot \<Rightarrow>
          if i < NTHREADS
          then Some (and_then (c_long (tot + task_total (ad_tasks s ! i))) (\<lambda>t. Inr (s\<lparr>ad_main := Totals (Suc i) t\<rparr>)))
          else Some (Inr (s\<lparr>ad_main := Returned tot\<rparr>))
      | Returned tot \<Rightarrow> None)"

text \<open>The rest of \<open>thread_pool_submit\<close>, with what \<open>malloc\<close> returns.\<close>

definition par_adder_queues :: "ptr \<Rightarrow> ptr \<Rightarrow> adder \<Rightarrow> (c_error + adder) option" where
  "par_adder_queues wi node s =
     (case ad_main s of
        Queueing n \<Rightarrow> adder_pool (Enqueue 0 wi node) (\<lambda>s. s\<lparr>ad_main := after_submit n\<rparr>) s
      | _ \<Rightarrow> None)"

text \<open>A worker takes a work item and calls \<open>par_func\<close>.\<close>

definition worker_takes :: "nat \<Rightarrow> adder \<Rightarrow> (c_error + adder) option" where
  "worker_takes w s =
     adder_pool (TakeItem w) (\<lambda>s. s\<lparr>ad_calls := (ad_calls s)[w := (case workers (ad_pool s) ! w of
         Executing f x \<Rightarrow> Entered | _ \<Rightarrow> NotIn)]\<rparr>) s"

text \<open>A step of the worker \<open>w\<close> in \<open>par_func\<close> with the task \<open>n\<close>: the loop, whose total is local; the store;
  the countdown. And its return.\<close>

fun par_func_step :: "int list \<Rightarrow> nat \<Rightarrow> nat \<Rightarrow> par_pc \<Rightarrow> adder \<Rightarrow> (c_error + adder) option" where
  "par_func_step vals n w Entered s =
     Some (and_then (add_range vals (task_begin (ad_tasks s ! n)) (task_end (ad_tasks s ! n) - task_begin (ad_tasks s ! n)) 0)
       (\<lambda>tot. Inr (s\<lparr>ad_calls := (ad_calls s)[w := Summed tot]\<rparr>)))"
| "par_func_step vals n w (Summed tot) s =
     Some (Inr (s\<lparr>ad_tasks := (ad_tasks s)[n := (ad_tasks s ! n)\<lparr>task_total := tot\<rparr>],
                  ad_calls := (ad_calls s)[w := Stored]\<rparr>))"
| "par_func_step vals n w Stored s =
     Some (and_then (countdownlatch_countdown (ad_cdl s)) (\<lambda>out.
       case out of
         Blocks \<Rightarrow> Inl NoReturn
       | Completes cdl u k \<Rightarrow> Inr (s\<lparr>ad_cdl := cdl, ad_calls := (ad_calls s)[w := Counted]\<rparr>)))"
| "par_func_step vals n w _ s = None"

definition par_func :: "int list \<Rightarrow> ptr \<Rightarrow> ptr \<Rightarrow> nat \<Rightarrow> adder \<Rightarrow> (c_error + adder) option" where
  "par_func vals pf base w s =
     (if w < length (workers (ad_pool s)) then
       (case workers (ad_pool s) ! w of
          Executing f x \<Rightarrow>
            if f \<noteq> Function pf then None
            else if ad_calls s ! w = Counted
            then adder_pool (RunItem w) (\<lambda>s. s\<lparr>ad_calls := (ad_calls s)[w := NotIn]\<rparr>) s
            else (case task_of base x of
                    None \<Rightarrow> Some (Inl InvalidAccess)
                  | Some n \<Rightarrow> par_func_step vals n w (ad_calls s ! w) s)
        | _ \<Rightarrow> None)
      else None)"

fun adder_step :: "int list \<Rightarrow> nat \<Rightarrow> ptr \<Rightarrow> ptr \<Rightarrow> adder_event \<Rightarrow> adder \<Rightarrow> (c_error + adder) option" where
  "adder_step vals nvals pf base MainStep s = par_adder_step nvals pf base s"
| "adder_step vals nvals pf base (MainQueues wi node) s = par_adder_queues wi node s"
| "adder_step vals nvals pf base (WorkerTakes w) s = worker_takes w s"
| "adder_step vals nvals pf base (ParFunc w) s = par_func vals pf base w s"

fun adder_run :: "int list \<Rightarrow> nat \<Rightarrow> ptr \<Rightarrow> ptr \<Rightarrow> adder_event list \<Rightarrow> adder \<Rightarrow> (c_error + adder) option" where
  "adder_run vals nvals pf base [] s = Some (Inr s)"
| "adder_run vals nvals pf base (e # es) s =
     (case adder_step vals nvals pf base e s of
        None \<Rightarrow> None
      | Some (Inl err) \<Rightarrow> Some (Inl err)
      | Some (Inr s1) \<Rightarrow> adder_run vals nvals pf base es s1)"

text \<open>The state of the program before its first call, with the pool that \<open>thread_pool_init\<close> has made; and
  one call after the other, each with its stack and its events: the workers may still be on their way out of
  \<open>par_func\<close> when a call returns. \<open>None\<close> when the events are no run, or not of a call that
  returns.\<close>

definition adder_idle :: "thread_pool \<Rightarrow> adder" where
  "adder_idle tp = \<lparr>ad_pool = tp, ad_cdl = countdownlatch_init 0, ad_tasks = [], ad_main = Returned 0,
     ad_calls = replicate (length (workers tp)) NotIn\<rparr>"

type_synonym par_call = "sum_task list \<times> ptr \<times> adder_event list"

fun par_calls :: "int list \<Rightarrow> nat \<Rightarrow> ptr \<Rightarrow> par_call list \<Rightarrow> adder \<Rightarrow> ((c_error + int) list \<times> adder) option" where
  "par_calls vals nvals pf [] s = Some ([], s)"
| "par_calls vals nvals pf ((junk, base, es) # cs) s =
     (case adder_run vals nvals pf base es (par_adder junk s) of
        None \<Rightarrow> None
      | Some (Inl err) \<Rightarrow> Some ([Inl err], s)
      | Some (Inr s1) \<Rightarrow>
          (case ad_main s1 of
             Returned t \<Rightarrow> map_option (\<lambda>(rs, s2). (Inr t # rs, s2)) (par_calls vals nvals pf cs s1)
           | _ \<Rightarrow> None))"

section \<open>Where the tasks are\<close>

datatype task_place = Unsent | InQueue | AtWorker nat | Finished

definition queue_part :: "ptr \<Rightarrow> ptr \<Rightarrow> adder \<Rightarrow> (nat \<Rightarrow> task_place) \<Rightarrow> bool" where
  "queue_part pf base s pl \<longleftrightarrow> \<not> stopped (ad_pool s)
     \<and> (\<exists>qs. pool_inv (ad_pool s) (map (\<lambda>n. (Function pf, task_addr base n)) qs) 0
         \<and> distinct qs \<and> set qs = {n. n < NTHREADS \<and> pl n = InQueue})"

definition worker_in :: "ptr \<Rightarrow> ptr \<Rightarrow> (nat \<Rightarrow> task_place) \<Rightarrow> nat \<Rightarrow> worker \<Rightarrow> par_pc \<Rightarrow> bool" where
  "worker_in pf base pl w v pc \<longleftrightarrow>
     (case v of
        AtGet \<Rightarrow> pc = NotIn
      | Exited \<Rightarrow> False
      | Executing f x \<Rightarrow> f = Function pf
          \<and> (pc = Counted \<or> pc \<noteq> NotIn \<and> (\<exists>n<NTHREADS. x = task_addr base n \<and> pl n = AtWorker w)))"

definition workers_part :: "ptr \<Rightarrow> ptr \<Rightarrow> adder \<Rightarrow> (nat \<Rightarrow> task_place) \<Rightarrow> bool" where
  "workers_part pf base s pl \<longleftrightarrow> length (ad_calls s) = length (workers (ad_pool s))
     \<and> (\<forall>w<length (workers (ad_pool s)). worker_in pf base pl w (workers (ad_pool s) ! w) (ad_calls s ! w))"

definition filled :: "nat \<Rightarrow> nat \<Rightarrow> sum_task \<Rightarrow> bool" where
  "filled nvals n t \<longleftrightarrow> task_begin t = task_begin (make_task nvals n 0) \<and> task_end t = task_end (make_task nvals n 0)"

fun call_in :: "int \<Rightarrow> sum_task \<Rightarrow> par_pc \<Rightarrow> bool" where
  "call_in v t Entered \<longleftrightarrow> True"
| "call_in v t (Summed tot) \<longleftrightarrow> tot = v"
| "call_in v t Stored \<longleftrightarrow> task_total t = v"
| "call_in v t _ \<longleftrightarrow> False"

fun task_in :: "int list \<Rightarrow> nat \<Rightarrow> ptr \<Rightarrow> ptr \<Rightarrow> adder \<Rightarrow> nat \<Rightarrow> task_place \<Rightarrow> bool" where
  "task_in vals nvals pf base s n Unsent \<longleftrightarrow> True"
| "task_in vals nvals pf base s n InQueue \<longleftrightarrow> filled nvals n (ad_tasks s ! n)"
| "task_in vals nvals pf base s n (AtWorker w) \<longleftrightarrow> filled nvals n (ad_tasks s ! n) \<and> w < length (workers (ad_pool s))
     \<and> workers (ad_pool s) ! w = Executing (Function pf) (task_addr base n)
     \<and> call_in (part vals nvals n) (ad_tasks s ! n) (ad_calls s ! w)"
| "task_in vals nvals pf base s n Finished \<longleftrightarrow> task_total (ad_tasks s ! n) = part vals nvals n"

definition tasks_part :: "int list \<Rightarrow> nat \<Rightarrow> ptr \<Rightarrow> ptr \<Rightarrow> adder \<Rightarrow> (nat \<Rightarrow> task_place) \<Rightarrow> bool" where
  "tasks_part vals nvals pf base s pl \<longleftrightarrow> length (ad_tasks s) = NTHREADS
     \<and> (\<forall>n<NTHREADS. task_in vals nvals pf base s n (pl n))"

definition unfinished :: "task_place \<Rightarrow> int" where
  "unfinished p = (if p = Finished then 0 else 1)"

definition latch_part :: "adder \<Rightarrow> (nat \<Rightarrow> task_place) \<Rightarrow> bool" where
  "latch_part s pl \<longleftrightarrow> cdl_counter (ad_cdl s) = (\<Sum>n<NTHREADS. unfinished (pl n))"

fun main_part :: "int list \<Rightarrow> nat \<Rightarrow> ptr \<Rightarrow> ptr \<Rightarrow> adder \<Rightarrow> (nat \<Rightarrow> task_place) \<Rightarrow> adder_pc \<Rightarrow> bool" where
  "main_part vals nvals pf base s pl (Filling m) \<longleftrightarrow> m < NTHREADS \<and> clients (ad_pool s) 0 = Idle
     \<and> (\<forall>n<NTHREADS. pl n = Unsent \<longleftrightarrow> m \<le> n)"
| "main_part vals nvals pf base s pl (Queueing m) \<longleftrightarrow> m < NTHREADS
     \<and> clients (ad_pool s) 0 = Submitting (Function pf) (task_addr base m)
     \<and> (\<forall>n<NTHREADS. pl n = Unsent \<longleftrightarrow> m \<le> n) \<and> filled nvals m (ad_tasks s ! m)"
| "main_part vals nvals pf base s pl AtAwait \<longleftrightarrow> clients (ad_pool s) 0 = Idle \<and> (\<forall>n<NTHREADS. pl n \<noteq> Unsent)"
| "main_part vals nvals pf base s pl (Totals i tot) \<longleftrightarrow> clients (ad_pool s) 0 = Idle \<and> (\<forall>n<NTHREADS. pl n = Finished)
     \<and> i \<le> NTHREADS \<and> tot = sum_list (map (part vals nvals) [0..<i])"
| "main_part vals nvals pf base s pl (Returned tot) \<longleftrightarrow> clients (ad_pool s) 0 = Idle \<and> (\<forall>n<NTHREADS. pl n = Finished)
     \<and> tot = sum_list (take nvals vals)"

definition adder_inv :: "int list \<Rightarrow> nat \<Rightarrow> ptr \<Rightarrow> ptr \<Rightarrow> adder \<Rightarrow> (nat \<Rightarrow> task_place) \<Rightarrow> bool" where
  "adder_inv vals nvals pf base s pl \<longleftrightarrow> queue_part pf base s pl \<and> workers_part pf base s pl
     \<and> tasks_part vals nvals pf base s pl \<and> latch_part s pl \<and> main_part vals nvals pf base s pl (ad_main s)"

section \<open>Work left\<close>

fun main_work :: "adder_pc \<Rightarrow> nat" where
  "main_work (Filling n) = 2 * (NTHREADS - n) + 6"
| "main_work (Queueing n) = 2 * (NTHREADS - n) + 5"
| "main_work AtAwait = 6"
| "main_work (Totals i t) = 5 - i"
| "main_work (Returned t) = 0"

fun call_work :: "par_pc \<Rightarrow> nat" where
  "call_work NotIn = 0"
| "call_work Entered = 4"
| "call_work (Summed t) = 3"
| "call_work Stored = 2"
| "call_work Counted = 1"

definition place_work :: "task_place \<Rightarrow> nat" where
  "place_work p = (if p = Unsent \<or> p = InQueue then 5 else 0)"

definition adder_work :: "adder \<Rightarrow> (nat \<Rightarrow> task_place) \<Rightarrow> nat" where
  "adder_work s pl = main_work (ad_main s) + (\<Sum>n<NTHREADS. place_work (pl n)) + sum_list (map call_work (ad_calls s))"

section \<open>Counting\<close>

lemma task_addr_eq: "n < NTHREADS \<Longrightarrow> m < NTHREADS \<Longrightarrow> task_addr base n = task_addr base m \<longleftrightarrow> n = m"
proof -
  assume "n < NTHREADS" "m < NTHREADS"
  then have "n = 0 \<or> n = 1 \<or> n = 2 \<or> n = 3" "m = 0 \<or> m = 1 \<or> m = 2 \<or> m = 3" by (auto simp: NTHREADS_def)
  then show ?thesis by (elim disjE) (simp_all add: task_addr_def)
qed

lemma task_of_addr: "n < NTHREADS \<Longrightarrow> task_of base (task_addr base n) = Some n"
  unfolding task_of_def find_Some_iff by (intro exI[of _ n]) (auto simp: task_addr_eq)

lemma sum_place:
  fixes f :: "task_place \<Rightarrow> 'a :: comm_monoid_add"
  assumes "m < NTHREADS"
  shows "(\<Sum>n<NTHREADS. f ((pl(m := p)) n)) + f (pl m) = (\<Sum>n<NTHREADS. f (pl n)) + f p"
proof -
  let ?g = "\<Sum>n\<in>{..<NTHREADS} - {m}. f (pl n)"
  have "(\<Sum>n<NTHREADS. f ((pl(m := p)) n)) = f p + ?g"
    using assms by (subst sum.remove[of _ m]) (auto intro!: arg_cong2[where f = "(+)"] sum.cong)
  moreover have "(\<Sum>n<NTHREADS. f (pl n)) = f (pl m) + ?g" using assms by (subst sum.remove[of _ m]) auto
  ultimately show ?thesis by (simp add: ac_simps)
qed

lemma calls_work:
  assumes "w < length xs"
  shows "sum_list (map call_work (xs[w := x])) + call_work (xs ! w) = sum_list (map call_work xs) + call_work x"
  by (subst (2) id_take_nth_drop[OF assms], subst upd_conv_take_nth_drop[OF assms]) simp

lemma latch_bounds: "0 \<le> (\<Sum>n<NTHREADS. unfinished (pl n))" "(\<Sum>n<NTHREADS. unfinished (pl n)) \<le> int NTHREADS"
proof -
  show "0 \<le> (\<Sum>n<NTHREADS. unfinished (pl n))" by (rule sum_nonneg) (simp add: unfinished_def)
  have "(\<Sum>n<NTHREADS. unfinished (pl n)) \<le> (\<Sum>n<NTHREADS. 1)" by (rule sum_mono) (simp add: unfinished_def)
  then show "(\<Sum>n<NTHREADS. unfinished (pl n)) \<le> int NTHREADS" by simp
qed

lemma latch_open: "(\<Sum>n<NTHREADS. unfinished (pl n)) \<le> 0 \<longleftrightarrow> (\<forall>n<NTHREADS. pl n = Finished)"
proof
  assume "(\<Sum>n<NTHREADS. unfinished (pl n)) \<le> 0"
  then have "(\<Sum>n<NTHREADS. unfinished (pl n)) = 0" using latch_bounds(1)[of pl] by simp
  then show "\<forall>n<NTHREADS. pl n = Finished"
    by (subst (asm) sum_nonneg_eq_0_iff) (auto simp: unfinished_def split: if_splits)
qed (simp add: unfinished_def)

section \<open>Steps\<close>

lemma adder_invD:
  assumes "adder_inv vals nvals pf base s pl"
  shows "queue_part pf base s pl" "workers_part pf base s pl" "tasks_part vals nvals pf base s pl" "latch_part s pl"
    "main_part vals nvals pf base s pl (ad_main s)"
  using assms by (simp_all add: adder_inv_def)

text \<open>The parts depend on some of the state only.\<close>

lemma workers_same:
  assumes "workers_part pf base s pl" "workers (ad_pool s') = workers (ad_pool s)" "ad_calls s' = ad_calls s"
    and "\<And>n w. n < NTHREADS \<Longrightarrow> pl n = AtWorker w \<Longrightarrow> pl' n = AtWorker w"
  shows "workers_part pf base s' pl'"
  using assms unfolding workers_part_def worker_in_def by (auto split: worker.splits) blast

lemma task_in_same:
  assumes "task_in vals nvals pf base s n p" "workers (ad_pool s') = workers (ad_pool s)" "ad_calls s' = ad_calls s"
    and "ad_tasks s' ! n = ad_tasks s ! n"
  shows "task_in vals nvals pf base s' n p"
  using assms by (cases p) simp_all

text \<open>A step of one worker leaves what is at the others.\<close>

lemma task_in_other:
  assumes "task_in vals nvals pf base s n p" "p \<noteq> AtWorker w" "length (workers (ad_pool s')) = length (workers (ad_pool s))"
    and "\<And>v. v \<noteq> w \<Longrightarrow> workers (ad_pool s') ! v = workers (ad_pool s) ! v" "\<And>v. v \<noteq> w \<Longrightarrow> ad_calls s' ! v = ad_calls s ! v"
    and "ad_tasks s' ! n = ad_tasks s ! n"
  shows "task_in vals nvals pf base s' n p"
  using assms by (cases p) auto

lemma workers_other:
  assumes "workers_part pf base s pl" "length (workers (ad_pool s')) = length (workers (ad_pool s))" "length (ad_calls s') = length (ad_calls s)"
    and "\<And>v. v \<noteq> w \<Longrightarrow> workers (ad_pool s') ! v = workers (ad_pool s) ! v" "\<And>v. v \<noteq> w \<Longrightarrow> ad_calls s' ! v = ad_calls s ! v"
    and "\<And>n v. n < NTHREADS \<Longrightarrow> v \<noteq> w \<Longrightarrow> pl n = AtWorker v \<Longrightarrow> pl' n = AtWorker v"
    and "w < length (workers (ad_pool s)) \<Longrightarrow> worker_in pf base pl' w (workers (ad_pool s') ! w) (ad_calls s' ! w)"
  shows "workers_part pf base s' pl'"
proof -
  have "worker_in pf base pl' v (workers (ad_pool s') ! v) (ad_calls s' ! v)" if "v < length (workers (ad_pool s))" for v
  proof (cases "v = w")
    case True
    then show ?thesis using assms(7) that by simp
  next
    case False
    then have "worker_in pf base pl v (workers (ad_pool s') ! v) (ad_calls s' ! v)"
      using assms(1,4,5) that by (simp add: workers_part_def)
    then show ?thesis using assms(6) False by (auto simp: worker_in_def split: worker.splits)
  qed
  then show ?thesis using assms(1-3) by (simp add: workers_part_def)
qed

lemma main_part_later:
  assumes "main_part vals nvals pf base s pl pc" "clients (ad_pool s') 0 = clients (ad_pool s) 0"
    and "\<And>n. n < NTHREADS \<Longrightarrow> pl' n = Unsent \<longleftrightarrow> pl n = Unsent" "\<And>n. n < NTHREADS \<Longrightarrow> pl n = Finished \<Longrightarrow> pl' n = Finished"
    and "\<And>n. n < NTHREADS \<Longrightarrow> pl n = Unsent \<Longrightarrow> ad_tasks s' ! n = ad_tasks s ! n"
  shows "main_part vals nvals pf base s' pl' pc"
  using assms by (cases pc) auto

lemma fill_step:
  assumes i: "adder_inv vals nvals pf base s pl" and m: "ad_main s = Filling m"
    and r: "par_adder_step nvals pf base s = Some res"
  shows "\<exists>s'. res = Inr s' \<and> adder_inv vals nvals pf base s' pl \<and> adder_work s' pl < adder_work s pl"
proof -
  note D = adder_invD[OF i]
  have M: "m < NTHREADS" "clients (ad_pool s) 0 = Idle" "\<forall>n<NTHREADS. pl n = Unsent \<longleftrightarrow> m \<le> n" using D(5) by (simp_all add: m)
  obtain qs where q: "pool_inv (ad_pool s) (map (\<lambda>n. (Function pf, task_addr base n)) qs) 0" "distinct qs"
      "set qs = {n. n < NTHREADS \<and> pl n = InQueue}" "\<not> stopped (ad_pool s)" using D(1) by (auto simp: queue_part_def)
  let ?tp = "(ad_pool s)\<lparr>clients := (clients (ad_pool s))(0 := Submitting (Function pf) (task_addr base m))\<rparr>"
  let ?t = "make_task nvals m (task_total (ad_tasks s ! m))"
  define s' where "s' = s\<lparr>ad_tasks := (ad_tasks s)[m := ?t], ad_pool := ?tp, ad_main := Queueing m\<rparr>"
  have res: "res = Inr s'"
    using r M(2) q(4) by (simp add: par_adder_step_def m adder_pool_def thread_pool_submit_def s'_def)
  have "pool_inv ?tp (map (\<lambda>n. (Function pf, task_addr base n)) qs) 0"
    using q(1,4) M(2) by (auto simp: pool_inv_def)
  then have 1: "queue_part pf base s' pl" using q unfolding queue_part_def s'_def by auto
  have 2: "workers_part pf base s' pl" by (rule workers_same[OF D(2)]) (simp_all add: s'_def)
  have "task_in vals nvals pf base s' n (pl n)" if "n < NTHREADS" for n
  proof (cases "n = m")
    case True
    then have "pl n = Unsent" using M(1,3) by simp
    then show ?thesis by simp
  next
    case False
    show ?thesis by (rule task_in_same[of _ _ _ _ s]) (use D(3) that False in \<open>auto simp: tasks_part_def s'_def\<close>)
  qed
  then have 3: "tasks_part vals nvals pf base s' pl" using D(3) by (simp add: tasks_part_def s'_def)
  have 4: "latch_part s' pl" using D(4) by (simp add: latch_part_def s'_def)
  have "length (ad_tasks s) = NTHREADS" using D(3) by (simp add: tasks_part_def)
  then have 5: "main_part vals nvals pf base s' pl (ad_main s')"
    using M by (simp add: s'_def filled_def make_task_def Let_def)
  show ?thesis using res 1 2 3 4 5 by (auto simp: adder_inv_def adder_work_def s'_def m)
qed

lemma queue_step:
  assumes i: "adder_inv vals nvals pf base s pl" and r: "par_adder_queues wi node s = Some res"
  shows "\<exists>s' pl'. res = Inr s' \<and> adder_inv vals nvals pf base s' pl' \<and> adder_work s' pl' < adder_work s pl"
proof -
  note D = adder_invD[OF i]
  obtain m where m: "ad_main s = Queueing m" using r by (auto simp: par_adder_queues_def split: adder_pc.splits)
  have M: "m < NTHREADS" "clients (ad_pool s) 0 = Submitting (Function pf) (task_addr base m)"
      "\<forall>n<NTHREADS. pl n = Unsent \<longleftrightarrow> m \<le> n" "filled nvals m (ad_tasks s ! m)" using D(5) by (simp_all add: m)
  obtain qs where q: "pool_inv (ad_pool s) (map (\<lambda>n. (Function pf, task_addr base n)) qs) 0" "distinct qs"
      "set qs = {n. n < NTHREADS \<and> pl n = InQueue}" "\<not> stopped (ad_pool s)" using D(1) by (auto simp: queue_part_def)
  have f: "fresh_item (ad_pool s) wi node" using r M(2) by (auto simp: par_adder_queues_def m adder_pool_def split: if_splits)
  obtain k q' tp1 where t: "thread_pool_internal_submit (ad_pool s) (Function pf) (task_addr base m) wi node = Inr tp1"
      "tp1 = (ad_pool s)\<lparr>work_queue := q', workitems := k\<rparr>"
    using internal_submit_ok[OF pool_invD(1)[OF q(1)] f, of "Function pf" "task_addr base m"] by auto
  define tp where "tp = tp1\<lparr>clients := (clients tp1)(0 := Idle), submitted := submitted tp1 @ [(Function pf, task_addr base m)]\<rparr>"
  have inv: "pool_inv tp (map (\<lambda>n. (Function pf, task_addr base n)) (qs @ [m])) 0"
    using enqueue_inv[OF q(1) M(2) f] t(1) by (auto simp: tp_def)
  have tp: "stopped tp = stopped (ad_pool s)" "workers tp = workers (ad_pool s)" "clients tp 0 = Idle" by (simp_all add: tp_def t(2))
  define s' where "s' = s\<lparr>ad_pool := tp, ad_main := after_submit m\<rparr>"
  have res: "res = Inr s'"
    using r M(2) f t(1) by (simp add: par_adder_queues_def m adder_pool_def tp_def s'_def)
  let ?pl = "pl(m := InQueue)"
  have un: "pl m = Unsent" using M(1,3) by simp
  have "set (qs @ [m]) = {n. n < NTHREADS \<and> ?pl n = InQueue}" "distinct (qs @ [m])" using q(2,3) M(1) un by auto
  then have 1: "queue_part pf base s' ?pl" unfolding queue_part_def
    by (intro conjI exI[of _ "qs @ [m]"]) (use q(4) inv tp in \<open>simp_all add: s'_def\<close>)
  have 2: "workers_part pf base s' ?pl" by (rule workers_same[OF D(2)]) (use un tp in \<open>auto simp: s'_def\<close>)
  have "task_in vals nvals pf base s' n (?pl n)" if "n < NTHREADS" for n
  proof (cases "n = m")
    case True
    then show ?thesis using M(4) by (simp add: s'_def)
  next
    case False
    then show ?thesis using task_in_same[of vals nvals pf base s n "pl n" s'] D(3) that tp by (simp add: tasks_part_def s'_def)
  qed
  then have 3: "tasks_part vals nvals pf base s' ?pl" using D(3) by (simp add: tasks_part_def s'_def)
  have 4: "latch_part s' ?pl"
    using D(4) sum_place[OF M(1), of unfinished pl InQueue] un by (simp add: latch_part_def s'_def unfinished_def)
  have 5: "main_part vals nvals pf base s' ?pl (ad_main s')"
    using M(1,3) tp by (auto simp: s'_def after_submit_def)
  have "(\<Sum>n<NTHREADS. place_work (?pl n)) = (\<Sum>n<NTHREADS. place_work (pl n))"
    using sum_place[OF M(1), of place_work pl InQueue] un by (simp add: place_work_def)
  then have "adder_work s' ?pl < adder_work s pl" using M(1) by (simp add: adder_work_def s'_def m after_submit_def NTHREADS_def) arith
  then show ?thesis using res 1 2 3 4 5 by (auto simp: adder_inv_def)
qed

lemma await_step:
  assumes i: "adder_inv vals nvals pf base s pl" and m: "ad_main s = AtAwait"
    and r: "par_adder_step nvals pf base s = Some res"
  shows "\<exists>s'. res = Inr s' \<and> adder_inv vals nvals pf base s' pl \<and> adder_work s' pl < adder_work s pl"
proof -
  note D = adder_invD[OF i]
  have c: "cdl_counter (ad_cdl s) \<le> 0" "res = Inr (s\<lparr>ad_main := Totals 0 0\<rparr>)"
    using r by (auto simp: par_adder_step_def m countdownlatch_await_def split: if_splits)
  then have all: "\<forall>n<NTHREADS. pl n = Finished" using D(4) latch_open[of pl] by (simp add: latch_part_def)
  let ?s = "s\<lparr>ad_main := Totals 0 0\<rparr>"
  have "queue_part pf base ?s pl" "workers_part pf base ?s pl" "latch_part ?s pl"
    using D(1,2,4) by (simp_all add: queue_part_def workers_part_def latch_part_def)
  moreover have "tasks_part vals nvals pf base ?s pl"
    using D(3) all by (simp add: tasks_part_def)
  moreover have "main_part vals nvals pf base ?s pl (Totals 0 0)" using D(5) all by (simp add: m)
  ultimately show ?thesis using c(2) by (auto simp: adder_inv_def adder_work_def m)
qed

lemma totals_step:
  assumes v: "small vals" "nvals \<le> length vals" and i: "adder_inv vals nvals pf base s pl" and m: "ad_main s = Totals k tot"
    and r: "par_adder_step nvals pf base s = Some res"
  shows "\<exists>s'. res = Inr s' \<and> adder_inv vals nvals pf base s' pl \<and> adder_work s' pl < adder_work s pl"
proof -
  note D = adder_invD[OF i]
  have M: "clients (ad_pool s) 0 = Idle" "\<forall>n<NTHREADS. pl n = Finished" "k \<le> NTHREADS"
      "tot = sum_list (map (part vals nvals) [0..<k])" using D(5) by (simp_all add: m)
  have same: "queue_part pf base (s\<lparr>ad_main := pc\<rparr>) pl" "workers_part pf base (s\<lparr>ad_main := pc\<rparr>) pl"
      "latch_part (s\<lparr>ad_main := pc\<rparr>) pl" "tasks_part vals nvals pf base (s\<lparr>ad_main := pc\<rparr>) pl" for pc
    using D(1-4) M(2) by (simp_all add: queue_part_def workers_part_def latch_part_def tasks_part_def)
  show ?thesis
  proof (cases "k < NTHREADS")
    case True
    have "task_total (ad_tasks s ! k) = part vals nvals k" using D(3) M(2) True by (simp add: tasks_part_def)
    then have "tot + task_total (ad_tasks s ! k) = sum_list (map (part vals nvals) [0..<Suc k])" using M(4) by simp
    then have res: "res = Inr (s\<lparr>ad_main := Totals (Suc k) (sum_list (map (part vals nvals) [0..<Suc k]))\<rparr>)"
      using r True c_long_parts[OF v, of "Suc k"] by (simp add: par_adder_step_def m)
    have "main_part vals nvals pf base s' pl (Totals (Suc k) (sum_list (map (part vals nvals) [0..<Suc k])))"
      if "ad_pool s' = ad_pool s" for s'
      using M True that by (simp del: upt_Suc)
    then show ?thesis using res same True by (auto simp: adder_inv_def adder_work_def m NTHREADS_def simp del: upt_Suc)
  next
    case False
    then have k: "k = NTHREADS" using M(3) by simp
    have res: "res = Inr (s\<lparr>ad_main := Returned tot\<rparr>)" using r False by (simp add: par_adder_step_def m)
    have "main_part vals nvals pf base s' pl (Returned tot)" if "ad_pool s' = ad_pool s" for s'
      using M that all_parts[OF v(2)] k by simp
    then show ?thesis using res same k by (auto simp: adder_inv_def adder_work_def m NTHREADS_def)
  qed
qed

lemma main_step:
  assumes "small vals" "nvals \<le> length vals" "adder_inv vals nvals pf base s pl" "par_adder_step nvals pf base s = Some res"
  shows "\<exists>s'. res = Inr s' \<and> adder_inv vals nvals pf base s' pl \<and> adder_work s' pl < adder_work s pl"
proof (cases "ad_main s")
  case (Filling m)
  then show ?thesis by (rule fill_step[OF assms(3) _ assms(4)])
next
  case AtAwait
  then show ?thesis by (rule await_step[OF assms(3) _ assms(4)])
next
  case (Totals k t)
  then show ?thesis by (rule totals_step[OF assms(1-3) _ assms(4)])
qed (use assms(4) in \<open>simp_all add: par_adder_step_def\<close>)

lemma take_step:
  assumes i: "adder_inv vals nvals pf base s pl" and r: "worker_takes w s = Some res"
  shows "\<exists>s' pl'. res = Inr s' \<and> adder_inv vals nvals pf base s' pl' \<and> adder_work s' pl' < adder_work s pl"
proof -
  note D = adder_invD[OF i]
  obtain qs where q: "pool_inv (ad_pool s) (map (\<lambda>n. (Function pf, task_addr base n)) qs) 0" "distinct qs"
      "set qs = {n. n < NTHREADS \<and> pl n = InQueue}" "\<not> stopped (ad_pool s)" using D(1) by (auto simp: queue_part_def)
  let ?ws = "workers (ad_pool s)"
  have w: "w < length ?ws" "?ws ! w = AtGet" and tw: "thread_pool_worker (ad_pool s) w \<noteq> None"
    using r by (auto simp: worker_takes_def adder_pool_def split: if_splits option.splits)
  obtain n rest where qs: "qs = n # rest"
    using tw worker_ok[OF pool_invD(1)[OF q(1)], of w] by (cases qs) auto
  have n: "n < NTHREADS" "pl n = InQueue" "n \<notin> set rest" using q(2,3) qs by auto
  have "pool_inv (ad_pool s) ((Function pf, task_addr base n) # map (\<lambda>n. (Function pf, task_addr base n)) rest) 0"
    using q(1) qs by simp
  from take_item_inv[OF this w] obtain q' k where
    t: "thread_pool_worker (ad_pool s) w = Some (Inr ((ad_pool s)\<lparr>work_queue := q', workitems := k,
        workers := ?ws[w := Executing (Function pf) (task_addr base n)]\<rparr>))"
      "pool_inv ((ad_pool s)\<lparr>work_queue := q', workitems := k, workers := ?ws[w := Executing (Function pf) (task_addr base n)]\<rparr>)
        (map (\<lambda>n. (Function pf, task_addr base n)) rest) 0" by auto
  define tp where "tp = (ad_pool s)\<lparr>work_queue := q', workitems := k, workers := ?ws[w := Executing (Function pf) (task_addr base n)]\<rparr>"
  have tp: "stopped tp = stopped (ad_pool s)" "clients tp = clients (ad_pool s)"
      "workers tp = ?ws[w := Executing (Function pf) (task_addr base n)]" by (simp_all add: tp_def)
  define s' where "s' = s\<lparr>ad_pool := tp, ad_calls := (ad_calls s)[w := Entered]\<rparr>"
  have res: "res = Inr s'" using r w t(1) by (simp add: worker_takes_def adder_pool_def s'_def tp_def)
  have lc: "length (ad_calls s) = length ?ws" using D(2) by (simp add: workers_part_def)
  let ?pl = "pl(n := AtWorker w)"
  have "set rest = {m. m < NTHREADS \<and> ?pl m = InQueue}" using q(2,3) qs n by auto
  then have 1: "queue_part pf base s' ?pl" unfolding queue_part_def
    by (intro conjI exI[of _ rest]) (use q(2,4) qs t(2) tp(1) in \<open>simp_all add: s'_def tp_def\<close>)
  have notw: "pl m \<noteq> AtWorker w" if "m < NTHREADS" for m
    using D(3) that w(2) by (auto simp: tasks_part_def)
  have 2: "workers_part pf base s' ?pl"
  proof (rule workers_other[OF D(2), where w = w])
    show "worker_in pf base ?pl w (workers (ad_pool s') ! w) (ad_calls s' ! w)"
      using w(1) lc n(1) by (auto simp: s'_def tp(3) worker_in_def)
  qed (use n(2) in \<open>auto simp: s'_def tp\<close>)
  have "task_in vals nvals pf base s' m (?pl m)" if m: "m < NTHREADS" for m
  proof (cases "m = n")
    case True
    have "task_in vals nvals pf base s n InQueue" using D(3) n(1,2) unfolding tasks_part_def by metis
    then show ?thesis using True w(1) lc by (simp add: s'_def tp(3))
  next
    case False
    have "task_in vals nvals pf base s m (pl m)" using D(3) m by (simp add: tasks_part_def)
    then have "task_in vals nvals pf base s' m (pl m)"
      by (rule task_in_other[where w = w]) (use notw[OF m] in \<open>simp_all add: s'_def tp\<close>)
    then show ?thesis using False by simp
  qed
  then have 3: "tasks_part vals nvals pf base s' ?pl" using D(3) by (simp add: tasks_part_def s'_def)
  have 4: "latch_part s' ?pl"
    using D(4) sum_place[OF n(1), of unfinished pl "AtWorker w"] n(2) by (simp add: latch_part_def s'_def unfinished_def)
  have "main_part vals nvals pf base s' ?pl (ad_main s)"
    by (rule main_part_later[OF D(5)]) (use n(2) tp(2) in \<open>auto simp: s'_def\<close>)
  then have 5: "main_part vals nvals pf base s' ?pl (ad_main s')" by (simp add: s'_def)
  have "ad_calls s ! w = NotIn" using D(2) w by (auto simp: workers_part_def worker_in_def)
  then have "sum_list (map call_work (ad_calls s')) = sum_list (map call_work (ad_calls s)) + 4"
    using calls_work[of w "ad_calls s" Entered] w(1) lc by (simp add: s'_def)
  moreover have "(\<Sum>m<NTHREADS. place_work (?pl m)) + 5 = (\<Sum>m<NTHREADS. place_work (pl m))"
    using sum_place[OF n(1), of place_work pl "AtWorker w"] n(2) by (simp add: place_work_def)
  ultimately have "adder_work s' ?pl < adder_work s pl" by (simp add: adder_work_def s'_def)
  then show ?thesis using res 1 2 3 4 5 by (auto simp: adder_inv_def)
qed

text \<open>A worker returns from \<open>par_func\<close>.\<close>

lemma return_step:
  assumes i: "adder_inv vals nvals pf base s pl" and w: "w < length (workers (ad_pool s))" "ad_calls s ! w = Counted"
    "workers (ad_pool s) ! w = Executing f x" and r: "adder_pool (RunItem w) (\<lambda>s. s\<lparr>ad_calls := (ad_calls s)[w := NotIn]\<rparr>) s = Some res"
  shows "\<exists>s'. res = Inr s' \<and> adder_inv vals nvals pf base s' pl \<and> adder_work s' pl < adder_work s pl"
proof -
  note D = adder_invD[OF i]
  obtain qs where q: "pool_inv (ad_pool s) (map (\<lambda>n. (Function pf, task_addr base n)) qs) 0" "distinct qs"
      "set qs = {n. n < NTHREADS \<and> pl n = InQueue}" "\<not> stopped (ad_pool s)" using D(1) by (auto simp: queue_part_def)
  define tp where "tp = (ad_pool s)\<lparr>workers := (workers (ad_pool s))[w := AtGet], executed := executed (ad_pool s) @ [(f, x)]\<rparr>"
  have tp: "stopped tp = stopped (ad_pool s)" "clients tp = clients (ad_pool s)" "workers tp = (workers (ad_pool s))[w := AtGet]"
    by (simp_all add: tp_def)
  define s' where "s' = s\<lparr>ad_pool := tp, ad_calls := (ad_calls s)[w := NotIn]\<rparr>"
  have res: "res = Inr s'" using r w by (simp add: adder_pool_def s'_def tp_def)
  have lc: "length (ad_calls s) = length (workers (ad_pool s))" using D(2) by (simp add: workers_part_def)
  have 1: "queue_part pf base s' pl" unfolding queue_part_def
    by (intro conjI exI[of _ qs]) (use q tp(1) run_step_inv(1)[OF q(1) w(1,3)] in \<open>simp_all add: s'_def tp_def\<close>)
  have notw: "pl m \<noteq> AtWorker w" if "m < NTHREADS" for m
    using D(3) that w(2) by (auto simp: tasks_part_def)
  have 2: "workers_part pf base s' pl"
  proof (rule workers_other[OF D(2), where w = w])
    show "worker_in pf base pl w (workers (ad_pool s') ! w) (ad_calls s' ! w)"
      using w(1) lc by (auto simp: s'_def tp(3) worker_in_def)
  qed (auto simp: s'_def tp)
  have "task_in vals nvals pf base s' m (pl m)" if m: "m < NTHREADS" for m
    by (rule task_in_other[where w = w and s = s]) (use D(3) m notw[OF m] in \<open>simp_all add: tasks_part_def s'_def tp\<close>)
  then have 3: "tasks_part vals nvals pf base s' pl" using D(3) by (simp add: tasks_part_def s'_def)
  have 4: "latch_part s' pl" using D(4) by (simp add: latch_part_def s'_def)
  have 5: "main_part vals nvals pf base s' pl (ad_main s')"
    using main_part_later[OF D(5), of s' pl] tp(2) by (simp add: s'_def)
  have "Suc (sum_list (map call_work (ad_calls s'))) = sum_list (map call_work (ad_calls s))"
    using calls_work[of w "ad_calls s" NotIn] w(1,2) lc by (simp add: s'_def)
  then have "adder_work s' pl < adder_work s pl" by (simp add: adder_work_def s'_def)
  then show ?thesis using res 1 2 3 4 5 by (auto simp: adder_inv_def)
qed

text \<open>A worker in \<open>par_func\<close> with task \<open>n\<close>.\<close>

lemma call_step:
  assumes v: "small vals" "nvals \<le> length vals" and i: "adder_inv vals nvals pf base s pl"
    and n: "n < NTHREADS" "pl n = AtWorker w" and r: "par_func_step vals n w (ad_calls s ! w) s = Some res"
  shows "\<exists>s' pl'. res = Inr s' \<and> adder_inv vals nvals pf base s' pl' \<and> adder_work s' pl' < adder_work s pl"
proof -
  note D = adder_invD[OF i]
  have "task_in vals nvals pf base s n (AtWorker w)" using D(3) n unfolding tasks_part_def by metis
  then have T: "filled nvals n (ad_tasks s ! n)" "w < length (workers (ad_pool s))"
      "workers (ad_pool s) ! w = Executing (Function pf) (task_addr base n)"
      "call_in (part vals nvals n) (ad_tasks s ! n) (ad_calls s ! w)" by simp_all
  have lens: "length (ad_calls s) = length (workers (ad_pool s))" "length (ad_tasks s) = NTHREADS"
    using D(2,3) by (simp_all add: workers_part_def tasks_part_def)
  have other: "pl m \<noteq> AtWorker w" if "m < NTHREADS" "m \<noteq> n" for m
  proof
    assume "pl m = AtWorker w"
    then have "task_in vals nvals pf base s m (AtWorker w)" using D(3) that(1) unfolding tasks_part_def by metis
    then show False using T(3) task_addr_eq[OF n(1) that(1), of base] that(2) by simp
  qed
  \<comment> \<open>what a step that leaves the pool alone has to show\<close>
  have step: "\<exists>s1 pl1. Inr s' = Inr s1 \<and> adder_inv vals nvals pf base s1 pl1 \<and> adder_work s1 pl1 < adder_work s pl"
    if s': "s' = s\<lparr>ad_tasks := ts, ad_cdl := c, ad_calls := (ad_calls s)[w := pc]\<rparr>"
      and pl': "pl' = pl(n := p)" "p = AtWorker w \<or> p = Finished" "p = AtWorker w \<Longrightarrow> pc \<noteq> NotIn" "p = Finished \<Longrightarrow> pc = Counted"
      and ts: "length ts = NTHREADS" "\<And>m. m < NTHREADS \<Longrightarrow> m \<noteq> n \<Longrightarrow> ts ! m = ad_tasks s ! m" "task_in vals nvals pf base s' n p"
      and c: "cdl_counter c + unfinished (pl n) = cdl_counter (ad_cdl s) + unfinished p"
      and less: "call_work pc < call_work (ad_calls s ! w)"
    for s' ts c pc p pl'
  proof -
    have qs: "{m. m < NTHREADS \<and> pl' m = InQueue} = {m. m < NTHREADS \<and> pl m = InQueue}"
      using pl'(1,2) n(2) by auto
    have 1: "queue_part pf base s' pl'" using D(1) unfolding queue_part_def qs by (simp add: s')
    have 2: "workers_part pf base s' pl'"
    proof (rule workers_other[OF D(2), where w = w])
      show "worker_in pf base pl' w (workers (ad_pool s') ! w) (ad_calls s' ! w)"
        using T(2,3) n(1) lens(1) pl' by (auto simp: s' worker_in_def)
    qed (use pl' n(2) in \<open>auto simp: s'\<close>)
    have "task_in vals nvals pf base s' m (pl' m)" if m: "m < NTHREADS" for m
    proof (cases "m = n")
      case True
      then show ?thesis using ts(3) pl'(1) by simp
    next
      case False
      have "task_in vals nvals pf base s' m (pl m)"
        by (rule task_in_other[where w = w and s = s])
           (use D(3) m False other[OF m False] ts(2)[OF m False] in \<open>simp_all add: tasks_part_def s'\<close>)
      then show ?thesis using False pl'(1) by simp
    qed
    then have 3: "tasks_part vals nvals pf base s' pl'" using ts(1) by (simp add: tasks_part_def s')
    have 4: "latch_part s' pl'"
      using D(4) c sum_place[OF n(1), of unfinished pl p] by (simp add: latch_part_def s' pl'(1))
    have unsent: "ts ! m = ad_tasks s ! m" if "m < NTHREADS" "pl m = Unsent" for m
      by (rule ts(2)[OF that(1)]) (use that(2) n(2) in auto)
    have "main_part vals nvals pf base s' pl' (ad_main s)"
      by (rule main_part_later[OF D(5)]) (use pl' n(2) unsent in \<open>auto simp: s'\<close>)
    then have 5: "main_part vals nvals pf base s' pl' (ad_main s')" by (simp add: s')
    have "(\<Sum>m<NTHREADS. place_work (pl' m)) = (\<Sum>m<NTHREADS. place_work (pl m))"
      using sum_place[OF n(1), of place_work pl p] pl'(1,2) n(2) by (auto simp: place_work_def)
    then have "adder_work s' pl' < adder_work s pl"
      using calls_work[of w "ad_calls s" pc] less T(2) lens(1) by (simp add: adder_work_def s')
    then show ?thesis using 1 2 3 4 5 by (auto simp: adder_inv_def)
  qed
  have pos: "0 < cdl_counter (ad_cdl s)" "cdl_counter (ad_cdl s) \<le> 4"
    using D(4) latch_open[of pl] latch_bounds(2)[of pl] n by (auto simp: latch_part_def NTHREADS_def)
  show ?thesis
  proof (cases "ad_calls s ! w")
    case Entered
    have "add_range vals (task_begin (ad_tasks s ! n)) (task_end (ad_tasks s ! n) - task_begin (ad_tasks s ! n)) 0
        = Inr (part vals nvals n)" by (rule region_sum[OF v]) (use T(1) in \<open>simp_all add: filled_def\<close>)
    then have res: "res = Inr (s\<lparr>ad_calls := (ad_calls s)[w := Summed (part vals nvals n)]\<rparr>)" using r Entered by simp
    show ?thesis unfolding res
      by (rule step[of _ "Summed (part vals nvals n)" "ad_cdl s" "ad_tasks s" _ "AtWorker w", OF _ refl])
         (use Entered T lens n(2) in simp_all)
  next
    case (Summed tot)
    have res: "res = Inr (s\<lparr>ad_tasks := (ad_tasks s)[n := (ad_tasks s ! n)\<lparr>task_total := tot\<rparr>], ad_calls := (ad_calls s)[w := Stored]\<rparr>)"
      using r Summed by simp
    show ?thesis unfolding res
      by (rule step[of _ Stored "ad_cdl s" "(ad_tasks s)[n := (ad_tasks s ! n)\<lparr>task_total := tot\<rparr>]" _ "AtWorker w", OF _ refl])
         (use Summed T lens n in \<open>simp_all add: filled_def\<close>)
  next
    case Stored
    have "in_int (cdl_counter (ad_cdl s) - 1)" using pos by (simp add: c_int_bounds)
    then have res: "res = Inr (s\<lparr>ad_cdl := (ad_cdl s)\<lparr>cdl_counter := cdl_counter (ad_cdl s) - 1\<rparr>, ad_calls := (ad_calls s)[w := Counted]\<rparr>)"
      using r Stored pos(1) by (simp add: countdownlatch_countdown_def c_int_in Let_def)
    show ?thesis unfolding res
      by (rule step[of _ Counted "(ad_cdl s)\<lparr>cdl_counter := cdl_counter (ad_cdl s) - 1\<rparr>" "ad_tasks s" _ Finished, OF _ refl])
         (use Stored T lens n in \<open>simp_all add: unfinished_def\<close>)
  qed (use r in simp_all)
qed

lemma func_step:
  assumes v: "small vals" "nvals \<le> length vals" and i: "adder_inv vals nvals pf base s pl"
    and r: "par_func vals pf base w s = Some res"
  shows "\<exists>s' pl'. res = Inr s' \<and> adder_inv vals nvals pf base s' pl' \<and> adder_work s' pl' < adder_work s pl"
proof -
  note D = adder_invD[OF i]
  obtain f x where w: "w < length (workers (ad_pool s))" "workers (ad_pool s) ! w = Executing f x"
    using r by (auto simp: par_func_def split: if_splits worker.splits)
  have wi: "worker_in pf base pl w (Executing f x) (ad_calls s ! w)" using D(2) w by (auto simp: workers_part_def)
  show ?thesis
  proof (cases "ad_calls s ! w = Counted")
    case True
    have "adder_pool (RunItem w) (\<lambda>s. s\<lparr>ad_calls := (ad_calls s)[w := NotIn]\<rparr>) s = Some res"
      using r w wi True by (simp add: par_func_def worker_in_def)
    from return_step[OF i w(1) True w(2) this] show ?thesis by blast
  next
    case False
    then obtain n where n: "n < NTHREADS" "x = task_addr base n" "pl n = AtWorker w" and f: "f = Function pf"
      using wi by (auto simp: worker_in_def)
    have "par_func_step vals n w (ad_calls s ! w) s = Some res"
      using r w f n False by (simp add: par_func_def task_of_addr)
    from call_step[OF v i n(1,3) this] show ?thesis .
  qed
qed

lemma adder_step_inv:
  assumes "small vals" "nvals \<le> length vals" "adder_inv vals nvals pf base s pl" "adder_step vals nvals pf base e s = Some res"
  shows "\<exists>s' pl'. res = Inr s' \<and> adder_inv vals nvals pf base s' pl' \<and> adder_work s' pl' < adder_work s pl"
proof (cases e)
  case MainStep
  then show ?thesis using main_step[OF assms(1-3)] assms(4) by fastforce
next
  case (MainQueues wi node)
  then show ?thesis using queue_step[OF assms(3)] assms(4) by simp
next
  case (WorkerTakes w)
  then show ?thesis using take_step[OF assms(3)] assms(4) by simp
next
  case (ParFunc w)
  then show ?thesis using func_step[OF assms(1-3)] assms(4) by simp
qed

lemma adder_run_inv:
  assumes "small vals" "nvals \<le> length vals" "adder_inv vals nvals pf base s pl" "adder_run vals nvals pf base es s = Some res"
  shows "\<exists>s' pl'. res = Inr s' \<and> adder_inv vals nvals pf base s' pl' \<and> length es + adder_work s' pl' \<le> adder_work s pl"
  using assms(3,4)
proof (induction es arbitrary: s pl)
  case Nil
  then show ?case by auto
next
  case (Cons e es)
  obtain r where r: "adder_step vals nvals pf base e s = Some r" using Cons.prems(2) by (auto split: option.splits)
  from adder_step_inv[OF assms(1,2) Cons.prems(1) r] obtain s1 pl1 where
    s1: "r = Inr s1" "adder_inv vals nvals pf base s1 pl1" "adder_work s1 pl1 < adder_work s pl" by blast
  have "adder_run vals nvals pf base es s1 = Some res" using Cons.prems(2) r s1(1) by simp
  from Cons.IH[OF s1(2) this] s1(3) show ?case by fastforce
qed

section \<open>Somebody can go on\<close>

lemma adder_stuck:
  assumes v: "small vals" "nvals \<le> length vals" and i: "adder_inv vals nvals pf base s pl"
    and st: "\<And>e. adder_step vals nvals pf base e s = None"
    and fresh: "fresh_item (ad_pool s) wi node" and ne: "0 < length (workers (ad_pool s))"
  shows "\<exists>t. ad_main s = Returned t"
proof (cases "ad_main s")
  case (Filling n)
  then show ?thesis using adder_invD(1,5)[OF i] st[of MainStep]
    by (auto simp: par_adder_step_def adder_pool_def queue_part_def)
next
  case (Queueing n)
  then show ?thesis using adder_invD(5)[OF i] st[of "MainQueues wi node"] fresh
    by (auto simp: par_adder_queues_def adder_pool_def split: sum.splits)
next
  case AtAwait
  note D = adder_invD[OF i]
  have c: "0 < cdl_counter (ad_cdl s)"
    using st[of MainStep] AtAwait by (auto simp: par_adder_step_def countdownlatch_await_def split: if_splits)
  \<comment> \<open>no worker is in \<open>par_func\<close>, so none has a task\<close>
  have get: "workers (ad_pool s) ! w = AtGet" if w: "w < length (workers (ad_pool s))" for w
  proof (rule ccontr)
    assume ne: "workers (ad_pool s) ! w \<noteq> AtGet"
    have wi: "worker_in pf base pl w (workers (ad_pool s) ! w) (ad_calls s ! w)" using D(2) w by (simp add: workers_part_def)
    then obtain f x where fx: "workers (ad_pool s) ! w = Executing f x"
      using ne by (cases "workers (ad_pool s) ! w") (simp_all add: worker_in_def)
    then have x: "workers (ad_pool s) ! w = Executing (Function pf) x"
        "ad_calls s ! w = Counted \<or> ad_calls s ! w \<noteq> NotIn \<and> (\<exists>n<NTHREADS. x = task_addr base n)"
      using wi by (auto simp: worker_in_def)
    show False
    proof (cases "ad_calls s ! w = Counted")
      case True
      then show False using st[of "ParFunc w"] w x by (simp add: par_func_def adder_pool_def)
    next
      case False
      then obtain n where "n < NTHREADS" "x = task_addr base n" "ad_calls s ! w \<noteq> NotIn" using x(2) by blast
      then show False using st[of "ParFunc w"] w x(1) False
        by (cases "ad_calls s ! w") (auto simp: par_func_def task_of_addr)
    qed
  qed
  have "\<exists>n<NTHREADS. pl n = InQueue"
  proof (rule ccontr)
    assume no: "\<not> (\<exists>n<NTHREADS. pl n = InQueue)"
    have "pl n = Finished" if n: "n < NTHREADS" for n
    proof (cases "pl n")
      case (AtWorker w)
      have "task_in vals nvals pf base s n (AtWorker w)" using D(3) n AtWorker unfolding tasks_part_def by metis
      then show ?thesis using get[of w] by simp
    qed (use no D(5) AtAwait n in auto)
    then show False using c latch_open[of pl] D(4) by (simp add: latch_part_def)
  qed
  then obtain n where n: "n < NTHREADS" "pl n = InQueue" by blast
  obtain qs where q: "pool_inv (ad_pool s) (map (\<lambda>n. (Function pf, task_addr base n)) qs) 0"
      "set qs = {n. n < NTHREADS \<and> pl n = InQueue}" using D(1) by (auto simp: queue_part_def)
  then obtain m rest where "qs = m # rest" using n by (cases qs) auto
  then have "thread_pool_worker (ad_pool s) 0 \<noteq> None"
    using worker_ok[OF pool_invD(1)[OF q(1)], of 0] by auto
  then show ?thesis using st[of "WorkerTakes 0"] get[OF ne] ne
    by (auto simp: worker_takes_def adder_pool_def split: sum.splits)
next
  case (Totals k t)
  then show ?thesis using st[of MainStep] by (auto simp: par_adder_step_def split: if_splits)
qed simp

section \<open>One call after the other\<close>

text \<open>Between two calls of \<open>par_adder\<close> a worker may still be on its way out of \<open>par_func\<close>.\<close>

definition between_calls :: "ptr \<Rightarrow> adder \<Rightarrow> bool" where
  "between_calls pf s \<longleftrightarrow> \<not> stopped (ad_pool s) \<and> pool_inv (ad_pool s) [] 0 \<and> clients (ad_pool s) 0 = Idle
     \<and> length (ad_calls s) = length (workers (ad_pool s))
     \<and> (\<forall>w<length (workers (ad_pool s)). case workers (ad_pool s) ! w of
          AtGet \<Rightarrow> ad_calls s ! w = NotIn
        | Exited \<Rightarrow> False
        | Executing f x \<Rightarrow> f = Function pf \<and> ad_calls s ! w = Counted)"

lemma idle_between:
  assumes "q_head q0 \<in> dom (q_links q0)" "q_items q0 = Map.empty" "int n \<le> INT_MAX" "thread_pool_init q0 n = Inr tp"
  shows "between_calls pf (adder_idle tp)" "nthreads (ad_pool (adder_idle tp)) = n"
proof -
  have "pool_inv tp [] 0" using pool_inv_init[OF assms(1-3)] assms(4) by auto
  moreover have "\<not> stopped tp" "clients tp 0 = Idle" "workers tp = replicate n AtGet" "nthreads tp = n"
    using assms(4) by (auto simp: thread_pool_init_def and_then_eq_Inr)
  ultimately show "between_calls pf (adder_idle tp)" "nthreads (ad_pool (adder_idle tp)) = n"
    by (simp_all add: between_calls_def adder_idle_def)
qed

lemma calls_at_most_one:
  "(\<And>c. c \<in> set cs \<Longrightarrow> c = NotIn \<or> c = Counted) \<Longrightarrow> sum_list (map call_work cs) \<le> length cs"
  by (induction cs) fastforce+

lemma call_inv:
  assumes b: "between_calls pf s"
  shows "adder_inv vals nvals pf base (par_adder junk s) (\<lambda>_. Unsent)"
    "adder_work (par_adder junk s) (\<lambda>_. Unsent) \<le> 34 + nthreads (ad_pool s)"
proof -
  note B = b[unfolded between_calls_def]
  have wk: "worker_in pf base (\<lambda>_. Unsent) w (workers (ad_pool s) ! w) (ad_calls s ! w)
      \<and> (ad_calls s ! w = NotIn \<or> ad_calls s ! w = Counted)" if "w < length (workers (ad_pool s))" for w
    using B that by (cases "workers (ad_pool s) ! w") (fastforce simp: worker_in_def)+
  have "queue_part pf base (par_adder junk s) (\<lambda>_. Unsent)"
    using B unfolding queue_part_def by (intro conjI exI[of _ "[]"]) (simp_all add: par_adder_def)
  moreover have "workers_part pf base (par_adder junk s) (\<lambda>_. Unsent)"
    using B wk by (simp add: workers_part_def par_adder_def)
  ultimately show "adder_inv vals nvals pf base (par_adder junk s) (\<lambda>_. Unsent)"
    using B by (simp add: adder_inv_def tasks_part_def latch_part_def par_adder_def unfinished_def countdownlatch_init_def NTHREADS_def)
  have len: "length (ad_calls s) = nthreads (ad_pool s)" using B pool_invD(2) by metis
  have "sum_list (map call_work (ad_calls s)) \<le> length (ad_calls s)"
    by (rule calls_at_most_one) (use B wk in \<open>auto simp: in_set_conv_nth\<close>)
  then show "adder_work (par_adder junk s) (\<lambda>_. Unsent) \<le> 34 + nthreads (ad_pool s)"
    by (simp add: adder_work_def par_adder_def place_work_def NTHREADS_def len)
qed

lemma returned_between:
  assumes i: "adder_inv vals nvals pf base s pl" and m: "ad_main s = Returned t"
  shows "between_calls pf s" "t = sum_list (take nvals vals)"
proof -
  note D = adder_invD[OF i]
  have M: "clients (ad_pool s) 0 = Idle" "\<forall>n<NTHREADS. pl n = Finished" "t = sum_list (take nvals vals)" using D(5) by (simp_all add: m)
  show "t = sum_list (take nvals vals)" by (rule M(3))
  obtain qs where q: "pool_inv (ad_pool s) (map (\<lambda>n. (Function pf, task_addr base n)) qs) 0"
      "set qs = {n. n < NTHREADS \<and> pl n = InQueue}" "\<not> stopped (ad_pool s)" using D(1) by (auto simp: queue_part_def)
  then have "set qs = {}" using M(2) by auto
  then have "pool_inv (ad_pool s) [] 0" using q(1) by simp
  moreover have "case workers (ad_pool s) ! w of AtGet \<Rightarrow> ad_calls s ! w = NotIn | Exited \<Rightarrow> False
      | Executing f x \<Rightarrow> f = Function pf \<and> ad_calls s ! w = Counted" if w: "w < length (workers (ad_pool s))" for w
  proof -
    have "worker_in pf base pl w (workers (ad_pool s) ! w) (ad_calls s ! w)" using D(2) w by (simp add: workers_part_def)
    then show ?thesis using M(2) by (auto simp: worker_in_def split: worker.splits)
  qed
  ultimately show "between_calls pf s" using q(3) M(1) D(2) by (simp add: between_calls_def workers_part_def)
qed

lemma adder_pool_nthreads:
  assumes "adder_pool e f s = Some (Inr s')" "\<And>s. ad_pool (f s) = ad_pool s"
  shows "nthreads (ad_pool s') = nthreads (ad_pool s)"
proof -
  obtain tp where tp: "pool_step e (ad_pool s) = Some (Inr tp)" "ad_pool s' = tp"
    using assms by (auto simp: adder_pool_def split: option.splits sum.splits)
  have "pool_run [e] (ad_pool s) = Some (Inr tp)" using tp(1) by simp
  from run_nthreads[OF this] tp(2) show ?thesis by simp
qed

lemma func_step_pool: "par_func_step vals n w pc s = Some (Inr s') \<Longrightarrow> ad_pool s' = ad_pool s"
proof (cases pc)
  case Stored
  assume "par_func_step vals n w pc s = Some (Inr s')"
  then obtain out where "countdownlatch_countdown (ad_cdl s) = Inr out" "(case out of Blocks \<Rightarrow> Inl NoReturn
      | Completes cdl u k \<Rightarrow> Inr (s\<lparr>ad_cdl := cdl, ad_calls := (ad_calls s)[w := Counted]\<rparr>)) = Inr s'"
    using Stored by (auto simp: and_then_eq_Inr)
  then show ?thesis by (cases out) auto
qed (auto simp: and_then_eq_Inr)

lemma adder_step_nthreads:
  assumes "adder_step vals nvals pf base e s = Some (Inr s')"
  shows "nthreads (ad_pool s') = nthreads (ad_pool s)"
proof (cases e)
  case MainStep
  then show ?thesis using assms adder_pool_nthreads
    by (auto simp: par_adder_step_def and_then_eq_Inr split: adder_pc.splits sum.splits outcome.splits if_splits)
next
  case (MainQueues wi node)
  then show ?thesis using assms
    by (auto simp: par_adder_queues_def split: adder_pc.splits dest!: adder_pool_nthreads)
next
  case (WorkerTakes w)
  then show ?thesis using assms by (auto simp: worker_takes_def dest!: adder_pool_nthreads)
next
  case (ParFunc w)
  then show ?thesis using assms
    by (auto simp: par_func_def dest!: adder_pool_nthreads func_step_pool split: if_splits worker.splits option.splits)
qed

lemma adder_run_nthreads:
  "adder_run vals nvals pf base es s = Some (Inr s') \<Longrightarrow> nthreads (ad_pool s') = nthreads (ad_pool s)"
  by (induction es arbitrary: s) (auto dest: adder_step_nthreads split: option.splits sum.splits)

lemma par_calls_between:
  assumes v: "small vals" "nvals \<le> length vals" and b: "between_calls pf s" and r: "par_calls vals nvals pf cs s = Some (rs, s1)"
  shows "between_calls pf s1 \<and> nthreads (ad_pool s1) = nthreads (ad_pool s) \<and> length rs = length cs
    \<and> (\<forall>r\<in>set rs. r = Inr (sum_list (take nvals vals)))"
  using b r
proof (induction cs arbitrary: s rs)
  case (Cons c cs)
  obtain junk base es where c: "c = (junk, base, es)" by (cases c)
  obtain res where res: "adder_run vals nvals pf base es (par_adder junk s) = Some res"
    using Cons.prems(2) c by (auto split: option.splits)
  from adder_run_inv[OF v call_inv(1)[OF Cons.prems(1)] res] obtain s2 pl where
    s2: "res = Inr s2" "adder_inv vals nvals pf base s2 pl" by blast
  obtain t rs2 where t: "ad_main s2 = Returned t" "par_calls vals nvals pf cs s2 = Some (rs2, s1)" "rs = Inr t # rs2"
    using Cons.prems(2) c res s2(1) by (auto split: adder_pc.splits)
  have "nthreads (ad_pool s2) = nthreads (ad_pool s)"
    using adder_run_nthreads[OF res[unfolded s2(1)]] by (simp add: par_adder_def)
  then show ?case using Cons.IH[OF returned_between(1)[OF s2(2) t(1)] t(2)] returned_between(2)[OF s2(2) t(1)] t(3) by simp
qed simp

section \<open>The parallel adder is the sequential one\<close>

text \<open>C16: On a pool with any number of workers, in every interleaving of the main thread with the
  workers, and after any number of earlier calls on the same pool, no step of \<open>par_adder\<close> fails and it
  returns what \<open>seq_adder\<close> returns: the workers start on the first tasks while main still submits the
  others, and main adds up the totals only behind the await. A call takes at most 34 steps and one for
  each worker, and when nobody can go on, although \<open>malloc\<close> would give memory, it has returned.\<close>

theorem par_adder_equals_seq:
  assumes "small vals" "nvals \<le> length vals"
    and "q_head q0 \<in> dom (q_links q0)" "q_items q0 = Map.empty" "0 < n" "int n \<le> INT_MAX"
    and "thread_pool_init q0 n = Inr tp" "par_calls vals nvals pf cs (adder_idle tp) = Some (rs, s1)"
    and "adder_run vals nvals pf base es (par_adder junk s1) = Some res"
  shows "\<exists>s. res = Inr s \<and> (\<forall>r\<in>set rs. r = seq_adder vals nvals) \<and> length es \<le> 34 + n
    \<and> (\<forall>t. ad_main s = Returned t \<longrightarrow> Inr t = seq_adder vals nvals)
    \<and> ((\<forall>e. adder_step vals nvals pf base e s = None) \<and> (\<exists>wi node. fresh_item (ad_pool s) wi node)
        \<longrightarrow> (\<exists>t. ad_main s = Returned t))"
proof -
  note v = assms(1,2)
  have "between_calls pf s1 \<and> nthreads (ad_pool s1) = n \<and> (\<forall>r\<in>set rs. r = Inr (sum_list (take nvals vals)))"
    using par_calls_between[OF v idle_between(1)[OF assms(3,4,6,7)] assms(8)] idle_between(2)[OF assms(3,4,6,7)] by simp
  then have b: "between_calls pf s1" "nthreads (ad_pool s1) = n" "\<forall>r\<in>set rs. r = seq_adder vals nvals"
    using seq_adder_sums[OF v] by simp_all
  from adder_run_inv[OF v call_inv(1)[OF b(1)] assms(9)] obtain s pl where
    s: "res = Inr s" "adder_inv vals nvals pf base s pl" "length es + adder_work s pl \<le> adder_work (par_adder junk s1) (\<lambda>_. Unsent)"
    by blast
  have "nthreads (ad_pool s) = n"
    using adder_run_nthreads[OF assms(9)[unfolded s(1)]] b(2) by (simp add: par_adder_def)
  moreover obtain its where "pool_inv (ad_pool s) its 0" using adder_invD(1)[OF s(2)] by (auto simp: queue_part_def)
  ultimately have "0 < length (workers (ad_pool s))" using assms(5) pool_invD(2) by metis
  then have "\<exists>t. ad_main s = Returned t" if "\<forall>e. adder_step vals nvals pf base e s = None" "\<exists>wi node. fresh_item (ad_pool s) wi node"
    using adder_stuck[OF v s(2)] that by blast
  moreover have "length es \<le> 34 + n" using s(3) call_inv(2)[OF b(1), of junk] b(2) by simp
  moreover have "Inr t = seq_adder vals nvals" if "ad_main s = Returned t" for t
    using returned_between(2)[OF s(2) that] seq_adder_sums[OF v] by simp
  ultimately show ?thesis using s(1) b(3) by blast
qed

text \<open>Two workers and two calls. In the first, worker 0 does a task before the next is submitted; the
  second begins while worker 1 is still behind its last countdown.\<close>

definition adder_calls :: "par_call list" where
  "adder_calls = [([], 0x7000, [MainStep, MainQueues 0x100 0x1000, WorkerTakes 0, ParFunc 0, MainStep, ParFunc 0,
     MainQueues 0x200 0x2000, ParFunc 0, WorkerTakes 1, ParFunc 0, MainStep, MainQueues 0x300 0x3000, MainStep, ParFunc 1,
     WorkerTakes 0, ParFunc 0, ParFunc 0, ParFunc 1, ParFunc 1, MainQueues 0x400 0x4000, ParFunc 1, WorkerTakes 1, ParFunc 1,
     ParFunc 0, ParFunc 1, ParFunc 1, MainStep, MainStep, MainStep, ParFunc 0, MainStep, MainStep, MainStep])]"

definition adder_events :: "adder_event list" where
  "adder_events = [MainStep, MainQueues 0x100 0x1000, ParFunc 1, MainStep, MainQueues 0x200 0x2000, MainStep,
     MainQueues 0x300 0x3000, MainStep, MainQueues 0x400 0x4000, WorkerTakes 1, ParFunc 1, ParFunc 1, ParFunc 1, ParFunc 1,
     WorkerTakes 0, ParFunc 0, ParFunc 0, ParFunc 0, ParFunc 0, WorkerTakes 0, ParFunc 0, ParFunc 0, ParFunc 0, ParFunc 0,
     WorkerTakes 1, ParFunc 1, ParFunc 1, ParFunc 1, MainStep, MainStep, MainStep, MainStep, MainStep, MainStep]"

lemma par_adder_equals_seq_witness:
  "\<exists>tp s1 s. thread_pool_init pool_queue0 2 = Inr tp \<and> par_calls [3, -5, 7] 3 77 adder_calls (adder_idle tp) = Some ([Inr 5], s1)
    \<and> adder_run [3, -5, 7] 3 77 0x8000 adder_events (par_adder [] s1) = Some (Inr s) \<and> ad_main s = Returned 5
    \<and> seq_adder [3, -5, 7] 3 = Inr 5 \<and> length adder_events \<le> 36"
proof -
  have "case thread_pool_init pool_queue0 2 of Inl e \<Rightarrow> False | Inr tp \<Rightarrow>
      (case par_calls [3, -5, 7] 3 77 adder_calls (adder_idle tp) of None \<Rightarrow> False
       | Some (rs, s1) \<Rightarrow> rs = [Inr 5]
           \<and> (case adder_run [3, -5, 7] 3 77 0x8000 adder_events (par_adder [] s1) of
                Some (Inr s) \<Rightarrow> ad_main s = Returned 5 | _ \<Rightarrow> False))"
    by code_simp
  then obtain tp s1 s where t: "thread_pool_init pool_queue0 2 = Inr tp"
    "par_calls [3, -5, 7] 3 77 adder_calls (adder_idle tp) = Some ([Inr 5], s1)"
    "adder_run [3, -5, 7] 3 77 0x8000 adder_events (par_adder [] s1) = Some (Inr s)" "ad_main s = Returned 5"
    by (auto simp: result_iff split: option.splits)
  have q: "q_head pool_queue0 \<in> dom (q_links pool_queue0)" "q_items pool_queue0 = Map.empty"
    by (simp_all add: pool_queue0_def)
  have v: "small [3, -5, 7]" "3 \<le> length [3, -5, 7 :: int]" and n: "0 < (2::nat)" "int 2 \<le> INT_MAX"
    by (simp_all add: small_def c_int_bounds INT_MAX_def)
  from par_adder_equals_seq[OF v q n t(1-3)] t show ?thesis by auto
qed

section \<open>The program\<close>

lemma vals_small: "small (init_vals NVALS)" "length (init_vals NVALS) = NVALS"
  "sum_list (take NVALS (init_vals NVALS)) = int NVALS"
  by (auto simp: small_def init_vals_def NVALS_def c_int_bounds sum_list_replicate)

text \<open>\<open>main\<close>: the readings of the clock, the events of every call of \<open>par_adder\<close> and those of
  \<open>thread_pool_cleanup\<close> with the workers on their way out are arguments. The result holds the two
  lines printed and the pool left; \<open>None\<close> when the events are no run of the program to its end.\<close>

definition adder_main :: "queue \<Rightarrow> ptr \<Rightarrow> (timespec \<times> timespec) list \<Rightarrow> (timespec \<times> timespec \<times> par_call) list
    \<Rightarrow> pool_event list \<Rightarrow> int \<Rightarrow> (c_error + (string \<times> int \<times> 64 word) list \<times> thread_pool) option" where
  "adder_main q0 pf seq_runs par_runs ends junk =
     (let vals = init_vals NVALS in
      case thread_pool_init q0 NTHREADS of
        Inl err \<Rightarrow> Some (Inl err)
      | Inr tp \<Rightarrow>
          (case par_calls vals NVALS pf (map (\<lambda>(t0, t1, c). c) par_runs) (adder_idle tp) of
             None \<Rightarrow> None
           | Some (rs, s) \<Rightarrow>
               (case pool_run ends (ad_pool s) of
                  None \<Rightarrow> None
                | Some (Inl err) \<Rightarrow> Some (Inl err)
                | Some (Inr tp1) \<Rightarrow>
                    if \<not> cleanup_returns tp1 0 then None
                    else Some (
                      and_then (test_adder ''sequential adder'' (int NVALS) junk
                        (map (\<lambda>(t0, t1). (t0, t1, seq_adder vals NVALS)) seq_runs)) (\<lambda>a.
                      and_then (test_adder ''parallel adder'' (int NVALS) junk
                        (map2 (\<lambda>(t0, t1, c) r. (t0, t1, r)) par_runs rs)) (\<lambda>b.
                      Inr ([a, b], tp1)))))))"

text \<open>In every one of the fifty runs of both adders the assertion on the result holds, in every
  interleaving; the two lines printed give the sum and the least of the measured times, in
  microseconds; and the clean-up leaves no work item behind.\<close>

theorem adder_main_prints:
  assumes "length seq_runs = NITERS" "length par_runs = NITERS" "\<forall>(t0, t1)\<in>set seq_runs. clock_ok t0 t1"
    and "\<forall>(t0, t1, c)\<in>set par_runs. clock_ok t0 t1" "\<forall>e\<in>set ends. by_main e"
    and "q_head q0 \<in> dom (q_links q0)" "q_items q0 = Map.empty"
    and "adder_main q0 pf seq_runs par_runs ends junk = Some res"
  shows "\<exists>a b tp. res = Inr ([(''sequential adder'', int NVALS, a), (''parallel adder'', int NVALS, b)], tp)
    \<and> uint a = Min ((\<lambda>(t0, t1). elapsed t0 t1) ` set seq_runs)
    \<and> uint b = Min ((\<lambda>(t0, t1, c). elapsed t0 t1) ` set par_runs)
    \<and> mset (executed tp) = mset (submitted tp) \<and> workitems tp = Map.empty"
proof -
  let ?v = "init_vals NVALS"
  have le: "NVALS \<le> length ?v" and nt: "int NTHREADS \<le> INT_MAX" using vals_small(2) by (simp_all add: NTHREADS_def INT_MAX_def)
  obtain tp where tp: "thread_pool_init q0 NTHREADS = Inr tp" using pool_inv_init[OF assms(6,7) nt] by blast
  note idle = idle_between(1)[OF assms(6,7) nt tp, of pf] idle_between(2)[OF assms(6,7) nt tp]
  obtain rs s where rs: "par_calls ?v NVALS pf (map (\<lambda>(t0, t1, c). c) par_runs) (adder_idle tp) = Some (rs, s)"
    using assms(8) by (auto simp: adder_main_def tp Let_def split: option.split_asm)
  from par_calls_between[OF vals_small(1) le idle(1) rs] idle(2) vals_small(3) have
    b: "between_calls pf s" "nthreads (ad_pool s) = 4" "length rs = length par_runs" "\<forall>r\<in>set rs. r = Inr (int NVALS)"
    by (simp_all add: NTHREADS_def)
  obtain r where r: "pool_run ends (ad_pool s) = Some r" using assms(8) by (auto simp: adder_main_def tp rs Let_def split: option.split_asm)
  have "pool_inv (ad_pool s) [] 0" using b(1) by (simp add: between_calls_def)
  from pool_inv_run[OF this assms(5) r] obtain tp1 its k where tp1: "r = Inr tp1" "pool_inv tp1 its k" by blast
  let ?A = "map (\<lambda>(t0, t1). (t0, t1, seq_adder ?v NVALS)) seq_runs"
  let ?B = "map2 (\<lambda>(t0, t1, c) r. (t0, t1, r)) par_runs rs"
  have cl: "cleanup_returns tp1 0" and res: "res = and_then (test_adder ''sequential adder'' (int NVALS) junk ?A) (\<lambda>a.
      and_then (test_adder ''parallel adder'' (int NVALS) junk ?B) (\<lambda>b. Inr ([a, b], tp1)))"
    using assms(8) by (simp_all add: adder_main_def tp rs r tp1(1) Let_def split: if_split_asm)
  have clean: "mset (executed tp1) = mset (submitted tp1)" "workitems tp1 = Map.empty"
    using final_clean[OF tp1(2) cl] run_nthreads[OF r[unfolded tp1(1)]] b(2) by simp_all
  have ne: "?A \<noteq> []" "?B \<noteq> []" using assms(1,2) b(3) by (auto simp: NITERS_def zip_eq_Nil_iff)
  have A: "\<forall>(t0, t1, r)\<in>set ?A. clock_ok t0 t1 \<and> r = Inr (int NVALS)"
    using assms(3) seq_adder_sums[OF vals_small(1) le] vals_small(3) by auto
  have B: "\<forall>(t0, t1, r)\<in>set ?B. clock_ok t0 t1 \<and> r = Inr (int NVALS)"
    using assms(4) b(4) by (fastforce dest: set_zip_leftD set_zip_rightD)
  have mA: "(\<lambda>(t0, t1, r). elapsed t0 t1) ` set ?A = (\<lambda>(t0, t1). elapsed t0 t1) ` set seq_runs" by force
  have mB: "(\<lambda>(t0, t1, r). elapsed t0 t1) ` set ?B = (\<lambda>(t0, t1, c). elapsed t0 t1) ` set par_runs"
  proof -
    have "map (\<lambda>(t0, t1, r). elapsed t0 t1) ?B = map (\<lambda>(t0, t1, c). elapsed t0 t1) (map fst (zip par_runs rs))"
      by (simp add: case_prod_beta)
    then have "map (\<lambda>(t0, t1, r). elapsed t0 t1) ?B = map (\<lambda>(t0, t1, c). elapsed t0 t1) par_runs"
      by (simp add: map_fst_zip b(3))
    then show ?thesis by (metis list.set_map)
  qed
  from test_adder_ok[OF A ne(1), of "''sequential adder''" junk] obtain a where
    a: "test_adder ''sequential adder'' (int NVALS) junk ?A = Inr (''sequential adder'', int NVALS, a)"
      "uint a = Min ((\<lambda>(t0, t1). elapsed t0 t1) ` set seq_runs)" unfolding mA by blast
  from test_adder_ok[OF B ne(2), of "''parallel adder''" junk] obtain b where
    b: "test_adder ''parallel adder'' (int NVALS) junk ?B = Inr (''parallel adder'', int NVALS, b)"
      "uint b = Min ((\<lambda>(t0, t1, c). elapsed t0 t1) ` set par_runs)" unfolding mB by blast
  show ?thesis unfolding res a(1) b(1) using clean a(2) b(2) by simp
qed

end
