(* ===== verification/Shmem.thy ===== *)
theory Shmem
  imports Prelude
begin

text \<open>
  \<open>shmem.c\<close> of 19: named shared memory. The state holds what the POSIX calls act on: the
  names, the sizes of the objects, the open descriptors and the mappings. What the kernel is
  free to choose (fresh numbers and addresses, and which call fails) is an argument.
\<close>

section \<open>The POSIX calls\<close>

type_synonym size_t = "64 word"

datatype shm_message = Mapped size_t | FailedToCreate | FailedToSetSize | FailedToMap | FailedToOpen
  | FailedToGetSize

record os =
  shm_names :: "string \<rightharpoonup> nat"
  shm_sizes :: "nat \<Rightarrow> size_t"
  open_fds :: "nat \<rightharpoonup> nat"
  mappings :: "ptr \<rightharpoonup> nat \<times> size_t"
  printed :: "shm_message list"

record kernel =
  fresh_object :: nat
  fresh_fd :: nat
  fresh_base :: ptr
  open_fails :: bool
  truncate_fails :: bool
  fstat_fails :: bool
  mmap_fails :: bool

definition kernel_ok :: "kernel \<Rightarrow> 'a os_scheme \<Rightarrow> bool" where
  "kernel_ok k s \<longleftrightarrow> fresh_fd k \<notin> dom (open_fds s) \<and> fresh_base k \<notin> dom (mappings s) \<and> fresh_base k \<noteq> NULL
     \<and> fresh_object k \<notin> ran (shm_names s) \<union> ran (open_fds s) \<union> fst ` ran (mappings s)"

definition shm_open_new :: "kernel \<Rightarrow> string \<Rightarrow> 'a os_scheme \<Rightarrow> nat option \<times> 'a os_scheme" where
  "shm_open_new k name s =
     (if open_fails k \<or> name \<in> dom (shm_names s) then (None, s)
      else (Some (fresh_fd k),
        s\<lparr>shm_names := (shm_names s)(name \<mapsto> fresh_object k), shm_sizes := (shm_sizes s)(fresh_object k := 0),
          open_fds := (open_fds s)(fresh_fd k \<mapsto> fresh_object k)\<rparr>))"

definition shm_open_old :: "kernel \<Rightarrow> string \<Rightarrow> 'a os_scheme \<Rightarrow> nat option \<times> 'a os_scheme" where
  "shm_open_old k name s =
     (case shm_names s name of
        Some obj \<Rightarrow> if open_fails k then (None, s)
                    else (Some (fresh_fd k), s\<lparr>open_fds := (open_fds s)(fresh_fd k \<mapsto> obj)\<rparr>)
      | None \<Rightarrow> (None, s))"

definition ftruncate :: "kernel \<Rightarrow> nat \<Rightarrow> size_t \<Rightarrow> 'a os_scheme \<Rightarrow> bool \<times> 'a os_scheme" where
  "ftruncate k fd sz s =
     (case open_fds s fd of
        Some obj \<Rightarrow> if truncate_fails k \<or> sint sz < 0 then (False, s)
                    else (True, s\<lparr>shm_sizes := (shm_sizes s)(obj := sz)\<rparr>)
      | None \<Rightarrow> (False, s))"

definition fstat :: "kernel \<Rightarrow> nat \<Rightarrow> 'a os_scheme \<Rightarrow> size_t option" where
  "fstat k fd s = (if fstat_fails k then None else map_option (shm_sizes s) (open_fds s fd))"

definition mmap :: "kernel \<Rightarrow> size_t \<Rightarrow> nat \<Rightarrow> 'a os_scheme \<Rightarrow> ptr option \<times> 'a os_scheme" where
  "mmap k sz fd s =
     (case open_fds s fd of
        Some obj \<Rightarrow> if mmap_fails k \<or> sz = 0 then (None, s)
                    else (Some (fresh_base k), s\<lparr>mappings := (mappings s)(fresh_base k \<mapsto> (obj, sz))\<rparr>)
      | None \<Rightarrow> (None, s))"

definition close_fd :: "nat \<Rightarrow> 'a os_scheme \<Rightarrow> 'a os_scheme" where
  "close_fd fd s = s\<lparr>open_fds := (open_fds s)(fd := None)\<rparr>"

definition shm_unlink :: "string \<Rightarrow> 'a os_scheme \<Rightarrow> 'a os_scheme" where
  "shm_unlink name s = s\<lparr>shm_names := (shm_names s)(name := None)\<rparr>"

text \<open>\<open>munmap\<close> of a whole mapping; with another length it would unmap a part, which no caller
  here does.\<close>

definition munmap :: "ptr \<Rightarrow> size_t \<Rightarrow> 'a os_scheme \<Rightarrow> 'a os_scheme" where
  "munmap base sz s =
     (case mappings s base of
        Some (obj, len) \<Rightarrow> if len = sz then s\<lparr>mappings := (mappings s)(base := None)\<rparr> else s
      | None \<Rightarrow> s)"

definition put_message :: "shm_message \<Rightarrow> 'a os_scheme \<Rightarrow> 'a os_scheme" where
  "put_message msg s = s\<lparr>printed := printed s @ [msg]\<rparr>"

lemmas posix_defs = shm_open_new_def shm_open_old_def ftruncate_def fstat_def mmap_def close_fd_def
  shm_unlink_def munmap_def put_message_def

section \<open>shmem.c\<close>

definition shmem_internal_map :: "kernel \<Rightarrow> nat \<Rightarrow> size_t \<Rightarrow> 'a os_scheme \<Rightarrow> ptr \<times> 'a os_scheme" where
  "shmem_internal_map k fd sz s =
     (case mmap k sz fd s of
        (None, s1) \<Rightarrow> (NULL, s1)
      | (Some base, s1) \<Rightarrow> (base, put_message (Mapped sz) s1))"

definition shmem_create :: "kernel \<Rightarrow> string \<Rightarrow> size_t \<Rightarrow> 'a os_scheme \<Rightarrow> ptr \<times> 'a os_scheme" where
  "shmem_create k name sz s =
     (case shm_open_new k name s of
        (None, s1) \<Rightarrow> (NULL, put_message FailedToCreate s1)
      | (Some fd, s1) \<Rightarrow>
          (case ftruncate k fd sz s1 of
             (False, s2) \<Rightarrow> (NULL, shm_unlink name (close_fd fd (put_message FailedToSetSize s2)))
           | (True, s2) \<Rightarrow>
               (let (base, s3) = shmem_internal_map k fd sz s2;
                    s4 = (if base = NULL then shm_unlink name (put_message FailedToMap s3) else s3)
                in (base, close_fd fd s4))))"

definition shmem_destroy :: "string \<Rightarrow> ptr \<Rightarrow> size_t \<Rightarrow> 'a os_scheme \<Rightarrow> 'a os_scheme" where
  "shmem_destroy name base sz s = shm_unlink name (munmap base sz s)"

definition shmem_open :: "kernel \<Rightarrow> string \<Rightarrow> 'a os_scheme \<Rightarrow> ptr \<times> 'a os_scheme" where
  "shmem_open k name s =
     (case shm_open_old k name s of
        (None, s1) \<Rightarrow> (NULL, put_message FailedToOpen s1)
      | (Some fd, s1) \<Rightarrow>
          (case fstat k fd s1 of
             None \<Rightarrow> (NULL, close_fd fd (put_message FailedToGetSize s1))
           | Some st_size \<Rightarrow>
               (let (base, s2) = shmem_internal_map k fd st_size s1 in (base, close_fd fd s2))))"

definition shmem_close :: "ptr \<Rightarrow> size_t \<Rightarrow> 'a os_scheme \<Rightarrow> 'a os_scheme" where
  "shmem_close base sz s = munmap base sz s"

section \<open>What they leave behind\<close>

lemma fd_reset [simp]: "fd \<notin> dom m \<Longrightarrow> m(fd := None) = m"
  by (rule ext) auto

lemma shmem_create_null:
  assumes "kernel_ok k s" "shmem_create k name sz s = (NULL, s')"
  shows "shm_names s' = shm_names s \<and> open_fds s' = open_fds s \<and> mappings s' = mappings s"
  using assms
  by (auto simp: shmem_create_def shmem_internal_map_def posix_defs kernel_ok_def Let_def
      split: if_splits prod.splits)

lemma shmem_create_base:
  assumes "kernel_ok k s" "shmem_create k name sz s = (base, s')" "base \<noteq> NULL"
  shows "shm_names s name = None \<and> shm_names s' = (shm_names s)(name \<mapsto> fresh_object k)
    \<and> open_fds s' = open_fds s \<and> base = fresh_base k \<and> sz \<noteq> 0
    \<and> mappings s' = (mappings s)(base \<mapsto> (fresh_object k, sz))
    \<and> shm_sizes s' = (shm_sizes s)(fresh_object k := sz)"
  using assms
  by (auto simp: shmem_create_def shmem_internal_map_def posix_defs kernel_ok_def Let_def
      split: if_splits prod.splits)

lemma shmem_create_more: "shmem_create k name sz s = (base, s') \<Longrightarrow> os.more s' = os.more s"
  by (auto simp: shmem_create_def shmem_internal_map_def posix_defs Let_def
      split: if_splits prod.splits option.splits)

lemma shmem_open_null:
  assumes "kernel_ok k s" "shmem_open k name s = (NULL, s')"
  shows "shm_names s' = shm_names s \<and> open_fds s' = open_fds s \<and> mappings s' = mappings s"
  using assms
  by (auto simp: shmem_open_def shmem_internal_map_def posix_defs kernel_ok_def Let_def
      split: if_splits prod.splits option.splits)

lemma shmem_open_base:
  assumes "kernel_ok k s" "shmem_open k name s = (base, s')" "base \<noteq> NULL"
  shows "\<exists>obj. shm_names s name = Some obj \<and> shm_sizes s obj \<noteq> 0 \<and> base = fresh_base k
    \<and> mappings s' = (mappings s)(base \<mapsto> (obj, shm_sizes s obj))
    \<and> shm_names s' = shm_names s \<and> open_fds s' = open_fds s \<and> shm_sizes s' = shm_sizes s"
  using assms
  by (auto simp: shmem_open_def shmem_internal_map_def posix_defs kernel_ok_def Let_def
      split: if_splits prod.splits option.splits)

text \<open>C38: Whatever fails on the way, \<open>shmem_create\<close> and \<open>shmem_open\<close> leave no descriptor open; on
  failure names and mappings are as before (an existing object of the name is untouched), on
  success the name is bound to a new object of the asked size, mapped at the result; and
  destroying or closing what was made gives back the names and mappings there were.\<close>

theorem shmem_leaves_no_trace:
  assumes "kernel_ok k s" "shmem_create k name sz s = (base, s1)" "shmem_open k name s = (base2, s2)"
  shows "open_fds s1 = open_fds s \<and> open_fds s2 = open_fds s
    \<and> (base = NULL \<longrightarrow> shm_names s1 = shm_names s \<and> mappings s1 = mappings s)
    \<and> (base \<noteq> NULL \<longrightarrow> shm_names s1 name = Some (fresh_object k) \<and> shm_sizes s1 (fresh_object k) = sz
        \<and> mappings s1 base = Some (fresh_object k, sz)
        \<and> shm_names (shmem_destroy name base sz s1) = shm_names s
        \<and> mappings (shmem_destroy name base sz s1) = mappings s)
    \<and> (base2 = NULL \<longrightarrow> mappings s2 = mappings s)
    \<and> (base2 \<noteq> NULL \<longrightarrow> (\<exists>obj. shm_names s name = Some obj \<and> mappings s2 base2 = Some (obj, shm_sizes s obj)
        \<and> mappings (shmem_close base2 (shm_sizes s obj) s2) = mappings s))
    \<and> shm_names s2 = shm_names s"
proof -
  have base: "(mappings s)(fresh_base k := None) = mappings s"
    by (rule fd_reset) (use assms(1) in \<open>simp add: kernel_ok_def\<close>)
  show ?thesis
    using shmem_create_null[OF assms(1)] shmem_create_base[OF assms(1,2)] assms(2)
      shmem_open_null[OF assms(1)] shmem_open_base[OF assms(1,3)] assms(3) base
    by (cases "base = NULL"; cases "base2 = NULL")
       (auto simp: shmem_destroy_def shmem_close_def munmap_def shm_unlink_def fun_upd_idem)
qed

definition no_shm :: os where
  "no_shm = \<lparr>shm_names = Map.empty, shm_sizes = (\<lambda>_. 0), open_fds = Map.empty, mappings = Map.empty, printed = []\<rparr>"

definition good_kernel :: kernel where
  "good_kernel = \<lparr>fresh_object = 7, fresh_fd = 3, fresh_base = 0x7000, open_fails = False, truncate_fails = False,
     fstat_fails = False, mmap_fails = False\<rparr>"

lemma shmem_leaves_no_trace_witness:
  "\<exists>base s1. shmem_create good_kernel ''/m'' 4096 no_shm = (base, s1) \<and> base \<noteq> NULL
    \<and> open_fds s1 = Map.empty \<and> mappings (shmem_destroy ''/m'' base 4096 s1) = Map.empty"
proof -
  have k: "kernel_ok good_kernel no_shm" by (simp add: kernel_ok_def good_kernel_def no_shm_def)
  obtain base s1 where c: "shmem_create good_kernel ''/m'' 4096 no_shm = (base, s1)" by fastforce
  obtain base2 s2 where o: "shmem_open good_kernel ''/m'' no_shm = (base2, s2)" by fastforce
  have "base \<noteq> NULL"
    using c by (auto simp: shmem_create_def shmem_internal_map_def posix_defs good_kernel_def no_shm_def Let_def)
  then show ?thesis using shmem_leaves_no_trace[OF k c o] c by (simp add: no_shm_def)
qed

end
