(* ===== verification/Memchannel.thy ===== *)
theory Memchannel
  imports Shmem
begin

text \<open>
  \<open>memchannel.c\<close> of 19: a bounded channel of fixed-size elements in shared memory, with one
  mutex and two POSIX semaphores. Every process or thread that uses a channel goes through the
  steps of \<open>mc_put\<close> and \<open>mc_get\<close>; the steps of different ones interleave freely. Elements are
  byte lists, the buffer is the byte array the code copies in and out of.
\<close>

section \<open>The channel\<close>

type_synonym bytes = "8 word list"

definition MEMCH_MAX_NAME_LEN :: nat where "MEMCH_MAX_NAME_LEN = 128"
definition SEM_VALUE_MAX :: nat where "SEM_VALUE_MAX = 2147483647"

record memch =
  mc_elem_size :: size_t
  mc_capacity :: size_t
  mc_total_size :: size_t
  mc_name :: string
  mc_iput :: size_t
  mc_iget :: size_t
  mc_lock :: "nat option"
  mc_has_space :: nat
  mc_has_items :: nat
  mc_items :: bytes

text \<open>
  What is in the shared objects that hold channels, and the objects whose semaphores and mutex have
  been destroyed since they were initialised. What a call on a destroyed semaphore or mutex does is
  left open by POSIX; the steps below go on as on the target's library, whose \<open>sem_destroy\<close> does nothing.
\<close>

record channels = os +
  chans :: "nat \<Rightarrow> memch"
  destroyed_prims :: "nat set"

text \<open>
  POSIX semaphores. \<open>sem_init\<close> takes an \<open>unsigned int\<close>, so the capacity is cut to 32 bits, and
  fails above \<open>SEM_VALUE_MAX\<close>, which leaves the zero of a new page; \<open>sem_post\<close> at the largest
  value fails and changes nothing. Neither result is looked at.
\<close>

definition posix_sem_init :: "size_t \<Rightarrow> nat" where
  "posix_sem_init value =
     (let v = unat (ucast value :: 32 word) in if v \<le> SEM_VALUE_MAX then v else 0)"

definition posix_sem_post :: "nat \<Rightarrow> nat" where
  "posix_sem_post v = (if v < SEM_VALUE_MAX then v + 1 else v)"

text \<open>\<open>offset\<close> is \<open>offsetof(memch_t, items)\<close>. The array is what the object has from there on.\<close>

definition init_channel :: "size_t \<Rightarrow> size_t \<Rightarrow> size_t \<Rightarrow> string \<Rightarrow> memch" where
  "init_channel offset elem_size capacity name =
     (let items_size = elem_size * capacity;
          total_size = offset + items_size in
      \<lparr>mc_elem_size = elem_size, mc_capacity = capacity, mc_total_size = total_size,
       mc_name = take (MEMCH_MAX_NAME_LEN - 1) name, mc_iput = 0, mc_iget = 0, mc_lock = None,
       mc_has_space = posix_sem_init capacity, mc_has_items = posix_sem_init 0,
       mc_items = replicate (unat total_size - unat offset) 0\<rparr>)"

definition mc_create :: "kernel \<Rightarrow> size_t \<Rightarrow> size_t \<Rightarrow> size_t \<Rightarrow> string \<Rightarrow> channels \<Rightarrow> ptr \<times> channels" where
  "mc_create k offset elem_size capacity name s =
     (let items_size = elem_size * capacity;
          total_size = offset + items_size;
          (mc, s1) = shmem_create k name total_size s in
      if mc = NULL then (NULL, s1)
      else (case mappings s1 mc of
              Some (obj, len) \<Rightarrow> (mc, s1\<lparr>chans := (chans s1)(obj := init_channel offset elem_size capacity name),
                                           destroyed_prims := destroyed_prims s1 - {obj}\<rparr>)
            | None \<Rightarrow> (NULL, s1)))"

definition mc_open :: "kernel \<Rightarrow> string \<Rightarrow> channels \<Rightarrow> ptr \<times> channels" where
  "mc_open k name s = shmem_open k name s"

definition channel_at :: "channels \<Rightarrow> ptr \<Rightarrow> memch option" where
  "channel_at s mc = map_option (\<lambda>(obj, len). chans s obj) (mappings s mc)"

definition mc_close :: "ptr \<Rightarrow> channels \<Rightarrow> c_error + channels" where
  "mc_close mc s = and_then (or_fail InvalidAccess (channel_at s mc)) (\<lambda>m.
     Inr (shmem_close mc (mc_total_size m) s))"

definition mc_destroy :: "ptr \<Rightarrow> channels \<Rightarrow> c_error + channels" where
  "mc_destroy mc s = and_then (or_fail InvalidAccess (mappings s mc)) (\<lambda>(obj, len).
     (let m = chans s obj;
          s1 = s\<lparr>destroyed_prims := insert obj (destroyed_prims s)\<rparr> in
      Inr (shmem_destroy (mc_name m) mc (mc_total_size m) s1)))"

section \<open>Copies in and out\<close>

definition mc_copy_in :: "bytes \<Rightarrow> memch \<Rightarrow> c_error + memch" where
  "mc_copy_in item mc =
     (if mc_capacity mc = 0 then Inl DivByZero
      else
       (let iput = mc_iput mc mod mc_capacity mc;
            off = unat (iput * mc_elem_size mc);
            n = unat (mc_elem_size mc) in
        if off + n \<le> length (mc_items mc) \<and> n \<le> length item
        then Inr (mc\<lparr>mc_iput := mc_iput mc + 1,
               mc_items := take off (mc_items mc) @ take n item @ drop (off + n) (mc_items mc)\<rparr>)
        else Inl OutOfBounds))"

definition mc_copy_out :: "memch \<Rightarrow> c_error + (bytes \<times> memch)" where
  "mc_copy_out mc =
     (if mc_capacity mc = 0 then Inl DivByZero
      else
       (let iget = mc_iget mc mod mc_capacity mc;
            off = unat (iget * mc_elem_size mc);
            n = unat (mc_elem_size mc) in
        if off + n \<le> length (mc_items mc)
        then Inr (take n (drop off (mc_items mc)), mc\<lparr>mc_iget := mc_iget mc + 1\<rparr>)
        else Inl OutOfBounds))"

section \<open>Steps of a process\<close>

datatype mc_pc = Away
  | PutWait bytes | PutLock bytes | PutCopy bytes | PutUnlock | PutPost
  | GetWait | GetLock | GetCopy | GetUnlock bytes | GetPost bytes

text \<open>
  One step of process \<open>t\<close> at \<open>pc\<close>: \<open>Inr None\<close> when it has to wait. The bytes of \<open>GetPost\<close> are
  what \<open>mc_get\<close> has copied to its caller.
\<close>

fun mc_put_step :: "nat \<Rightarrow> mc_pc \<Rightarrow> memch \<Rightarrow> c_error + (mc_pc \<times> memch) option" where
  "mc_put_step t (PutWait item) mc =
     Inr (if 0 < mc_has_space mc then Some (PutLock item, mc\<lparr>mc_has_space := mc_has_space mc - 1\<rparr>) else None)"
| "mc_put_step t (PutLock item) mc =
     Inr (if mc_lock mc = None then Some (PutCopy item, mc\<lparr>mc_lock := Some t\<rparr>) else None)"
| "mc_put_step t (PutCopy item) mc = and_then (mc_copy_in item mc) (\<lambda>mc1. Inr (Some (PutUnlock, mc1)))"
| "mc_put_step t PutUnlock mc = Inr (Some (PutPost, mc\<lparr>mc_lock := None\<rparr>))"
| "mc_put_step t PutPost mc = Inr (Some (Away, mc\<lparr>mc_has_items := posix_sem_post (mc_has_items mc)\<rparr>))"
| "mc_put_step t _ mc = Inr None"

fun mc_get_step :: "nat \<Rightarrow> mc_pc \<Rightarrow> memch \<Rightarrow> c_error + (mc_pc \<times> memch) option" where
  "mc_get_step t GetWait mc =
     Inr (if 0 < mc_has_items mc then Some (GetLock, mc\<lparr>mc_has_items := mc_has_items mc - 1\<rparr>) else None)"
| "mc_get_step t GetLock mc =
     Inr (if mc_lock mc = None then Some (GetCopy, mc\<lparr>mc_lock := Some t\<rparr>) else None)"
| "mc_get_step t GetCopy mc = and_then (mc_copy_out mc) (\<lambda>(item, mc1). Inr (Some (GetUnlock item, mc1)))"
| "mc_get_step t (GetUnlock item) mc = Inr (Some (GetPost item, mc\<lparr>mc_lock := None\<rparr>))"
| "mc_get_step t (GetPost item) mc = Inr (Some (Away, mc\<lparr>mc_has_space := posix_sem_post (mc_has_space mc)\<rparr>))"
| "mc_get_step t _ mc = Inr None"

primrec putting :: "mc_pc \<Rightarrow> bool" where
  "putting Away = False"
| "putting (PutWait item) = True" | "putting (PutLock item) = True" | "putting (PutCopy item) = True"
| "putting PutUnlock = True" | "putting PutPost = True"
| "putting GetWait = False" | "putting GetLock = False" | "putting GetCopy = False"
| "putting (GetUnlock item) = False" | "putting (GetPost item) = False"

definition pc_step :: "nat \<Rightarrow> mc_pc \<Rightarrow> memch \<Rightarrow> c_error + (mc_pc \<times> memch) option" where
  "pc_step t p mc = (if putting p then mc_put_step t p mc else mc_get_step t p mc)"

text \<open>A call that meets no other process on its way; \<open>None\<close> when it has to wait at its start.\<close>

definition mc_put :: "bytes \<Rightarrow> memch \<Rightarrow> c_error + memch option" where
  "mc_put item mc =
     (if mc_has_space mc = 0 then Inr None
      else and_then (mc_copy_in item (mc\<lparr>mc_has_space := mc_has_space mc - 1\<rparr>)) (\<lambda>mc1.
        Inr (Some (mc1\<lparr>mc_has_items := posix_sem_post (mc_has_items mc1)\<rparr>))))"

definition mc_get :: "memch \<Rightarrow> c_error + (bytes \<times> memch) option" where
  "mc_get mc =
     (if mc_has_items mc = 0 then Inr None
      else and_then (mc_copy_out (mc\<lparr>mc_has_items := mc_has_items mc - 1\<rparr>)) (\<lambda>(item, mc1).
        Inr (Some (item, mc1\<lparr>mc_has_space := posix_sem_post (mc_has_space mc1)\<rparr>))))"

section \<open>Processes on one channel\<close>

text \<open>\<open>sent\<close> and \<open>received\<close> record the elements in the order of the copies.\<close>

record mc_system =
  chan :: memch
  procs :: "mc_pc list"
  sent :: "bytes list"
  received :: "bytes list"
  fault :: "c_error option"

datatype mc_event = BeginPut nat bytes | BeginGet nat | Step nat

definition mc_start :: "nat \<Rightarrow> memch \<Rightarrow> mc_system" where
  "mc_start n mc = \<lparr>chan = mc, procs = replicate n Away, sent = [], received = [], fault = None\<rparr>"

definition note_copy :: "mc_pc \<Rightarrow> mc_pc \<Rightarrow> mc_system \<Rightarrow> mc_system" where
  "note_copy p p' s = (case p of
      PutCopy item \<Rightarrow> s\<lparr>sent := sent s @ [item]\<rparr>
    | GetCopy \<Rightarrow> (case p' of GetUnlock item \<Rightarrow> s\<lparr>received := received s @ [item]\<rparr> | _ \<Rightarrow> s)
    | _ \<Rightarrow> s)"

fun mc_step :: "mc_event \<Rightarrow> mc_system \<Rightarrow> mc_system option" where
  "mc_step (BeginPut t item) s =
     (if t < length (procs s) \<and> procs s ! t = Away \<and> length item = unat (mc_elem_size (chan s))
      then Some (s\<lparr>procs := (procs s)[t := PutWait item]\<rparr>) else None)"
| "mc_step (BeginGet t) s =
     (if t < length (procs s) \<and> procs s ! t = Away
      then Some (s\<lparr>procs := (procs s)[t := GetWait]\<rparr>) else None)"
| "mc_step (Step t) s =
     (if t < length (procs s) then
       (case pc_step t (procs s ! t) (chan s) of
          Inl e \<Rightarrow> Some (s\<lparr>fault := Some e\<rparr>)
        | Inr None \<Rightarrow> None
        | Inr (Some (p, mc)) \<Rightarrow>
            Some (note_copy (procs s ! t) p (s\<lparr>chan := mc, procs := (procs s)[t := p]\<rparr>)))
      else None)"

fun mc_run :: "mc_event list \<Rightarrow> mc_system \<Rightarrow> mc_system option" where
  "mc_run [] s = Some s"
| "mc_run (e # es) s = Option.bind (mc_step e s) (mc_run es)"

lemma mc_run_snoc: "mc_run (es @ [e]) s = Option.bind (mc_run es s) (mc_step e)"
  by (induction es arbitrary: s) (auto split: bind_splits)

end
