(* ===== verification/Memchannel_Inv.thy ===== *)
theory Memchannel_Inv
  imports Memchannel
begin

text \<open>
  The invariant of a shared channel: what the two semaphores count, who holds the mutex, and
  what the ring buffer holds, with its preservation by every step of every process.
\<close>

section \<open>Slots of the buffer\<close>

definition slot :: "nat \<Rightarrow> nat \<Rightarrow> bytes \<Rightarrow> bytes" where
  "slot es k bs = take es (drop (k * es) bs)"

lemma slot_write:
  assumes "i < cap" "j < cap" "length bs = cap * es" "length x = es"
  shows "slot es j (take (i * es) bs @ x @ drop (i * es + es) bs) = (if j = i then x else slot es j bs)"
proof -
  have i: "i * es + es \<le> length bs"
  proof -
    have "Suc i * es \<le> cap * es" using assms(1) by (intro mult_le_mono1) simp
    then show ?thesis using assms(3) by simp
  qed
  consider "j = i" | "j < i" | "i < j" by linarith
  then show ?thesis
  proof cases
    case 1
    then show ?thesis using i assms(4) by (simp add: slot_def)
  next
    case 2
    then have "Suc j * es \<le> i * es" by (intro mult_le_mono1) simp
    then show ?thesis using 2 i by (simp add: slot_def take_drop min_def)
  next
    case 3
    then have "Suc i * es \<le> j * es" by (intro mult_le_mono1) simp
    then obtain d where d: "j * es = i * es + es + d" by (auto simp: le_iff_add algebra_simps)
    then show ?thesis using 3 i assms(4) by (simp add: slot_def d add.commute)
  qed
qed

lemma unat_index:
  assumes "0 < cap" "cap < 2 ^ 64" "cap dvd 2 ^ 64 \<or> n < 2 ^ 64"
  shows "unat (of_nat n mod (of_nat cap :: 64 word)) = n mod cap"
proof -
  have "unat (of_nat n mod (of_nat cap :: 64 word)) = (n mod 2 ^ 64) mod cap"
    using assms(2) by (simp add: unat_mod_distrib unsigned_of_nat take_bit_nat_eq_self take_bit_eq_mod)
  then show ?thesis using assms(3) by (auto simp: mod_mod_cancel)
qed

lemma unat_offset:
  assumes "i < cap" "cap * es < 2 ^ 64" "unat (w :: 64 word) = i" "0 < cap"
  shows "unat (w * of_nat es) = i * es"
proof -
  have le: "i * es \<le> cap * es" "es \<le> cap * es" using assms(1,4) by simp_all
  have "w * of_nat es = of_nat (unat w * es)" by simp
  then have "w * of_nat es = of_nat (i * es)" by (simp only: assms(3))
  moreover have "i * es < 2 ^ 64" using assms(2) le by linarith
  ultimately show ?thesis by (simp add: unsigned_of_nat take_bit_nat_eq_self del: of_nat_mult)
qed

section \<open>Counting processes\<close>

definition count_if :: "(mc_pc \<Rightarrow> bool) \<Rightarrow> mc_pc list \<Rightarrow> nat" where
  "count_if P ps = length (filter P ps)"

lemma count_if_upd:
  "t < length ps \<Longrightarrow> count_if P (ps[t := p]) + (if P (ps ! t) then 1 else 0) = count_if P ps + (if P p then 1 else 0)"
proof (induction ps arbitrary: t)
  case (Cons q ps)
  show ?case
  proof (cases t)
    case (Suc n)
    then show ?thesis using Cons.IH[of n] Cons.prems by (auto simp: count_if_def split: if_splits)
  qed (simp add: count_if_def)
qed simp

lemma count_if_pos: "t < length ps \<Longrightarrow> P (ps ! t) \<Longrightarrow> 0 < count_if P ps"
  by (auto simp: count_if_def filter_empty_conv)

lemma count_if_zero: "count_if P ps = 0 \<longleftrightarrow> (\<forall>p\<in>set ps. \<not> P p)"
  by (simp add: count_if_def filter_empty_conv)

lemma count_if_replicate [simp]: "\<not> P p \<Longrightarrow> count_if P (replicate n p) = 0"
  by (simp add: count_if_def)

primrec has_room :: "mc_pc \<Rightarrow> bool" where
  "has_room Away = False" | "has_room (PutWait x) = False" | "has_room (PutLock x) = True"
| "has_room (PutCopy x) = True" | "has_room PutUnlock = False" | "has_room PutPost = False"
| "has_room GetWait = False" | "has_room GetLock = False" | "has_room GetCopy = False"
| "has_room (GetUnlock x) = False" | "has_room (GetPost x) = False"

definition item_due :: "mc_pc \<Rightarrow> bool" where "item_due p \<longleftrightarrow> p = PutUnlock \<or> p = PutPost"
definition has_claim :: "mc_pc \<Rightarrow> bool" where "has_claim p \<longleftrightarrow> p = GetLock \<or> p = GetCopy"

primrec room_due :: "mc_pc \<Rightarrow> bool" where
  "room_due Away = False" | "room_due (PutWait x) = False" | "room_due (PutLock x) = False"
| "room_due (PutCopy x) = False" | "room_due PutUnlock = False" | "room_due PutPost = False"
| "room_due GetWait = False" | "room_due GetLock = False" | "room_due GetCopy = False"
| "room_due (GetUnlock x) = True" | "room_due (GetPost x) = True"

primrec in_section :: "mc_pc \<Rightarrow> bool" where
  "in_section Away = False" | "in_section (PutWait x) = False" | "in_section (PutLock x) = False"
| "in_section (PutCopy x) = True" | "in_section PutUnlock = True" | "in_section PutPost = False"
| "in_section GetWait = False" | "in_section GetLock = False" | "in_section GetCopy = True"
| "in_section (GetUnlock x) = True" | "in_section (GetPost x) = False"

definition carries :: "nat \<Rightarrow> mc_pc \<Rightarrow> bool" where
  "carries es p \<longleftrightarrow> (case p of PutWait x \<Rightarrow> length x = es | PutLock x \<Rightarrow> length x = es | PutCopy x \<Rightarrow> length x = es | _ \<Rightarrow> True)"

lemma carries_simps:
  "carries es Away" "carries es (PutWait x) = (length x = es)" "carries es (PutLock x) = (length x = es)"
  "carries es (PutCopy x) = (length x = es)" "carries es PutUnlock" "carries es PutPost" "carries es GetWait"
  "carries es GetLock" "carries es GetCopy" "carries es (GetUnlock x)" "carries es (GetPost x)"
  by (simp_all add: carries_def)

lemmas pc_kinds = item_due_def has_claim_def carries_def

section \<open>The invariant\<close>

definition mc_static :: "nat \<Rightarrow> nat \<Rightarrow> mc_system \<Rightarrow> bool" where
  "mc_static cap es s \<longleftrightarrow> 0 < cap \<and> cap \<le> SEM_VALUE_MAX \<and> cap * es < 2 ^ 64 \<and> es < 2 ^ 64
     \<and> mc_capacity (chan s) = of_nat cap \<and> mc_elem_size (chan s) = of_nat es
     \<and> length (mc_items (chan s)) = cap * es
     \<and> (\<forall>p\<in>set (procs s). carries es p) \<and> fault s = None"

definition mc_tokens :: "nat \<Rightarrow> mc_system \<Rightarrow> bool" where
  "mc_tokens cap s \<longleftrightarrow>
     mc_has_space (chan s) + count_if has_room (procs s) + length (sent s) + count_if room_due (procs s)
       = cap + length (received s)
     \<and> mc_has_items (chan s) + count_if item_due (procs s) + count_if has_claim (procs s) + length (received s)
       = length (sent s)"

definition mc_exclusive :: "mc_system \<Rightarrow> bool" where
  "mc_exclusive s \<longleftrightarrow> (\<forall>t<length (procs s). in_section (procs s ! t) \<longleftrightarrow> mc_lock (chan s) = Some t)
     \<and> (\<forall>t. mc_lock (chan s) = Some t \<longrightarrow> t < length (procs s))"

definition mc_ring :: "nat \<Rightarrow> nat \<Rightarrow> mc_system \<Rightarrow> bool" where
  "mc_ring cap es s \<longleftrightarrow> mc_iput (chan s) = of_nat (length (sent s)) \<and> mc_iget (chan s) = of_nat (length (received s))
     \<and> received s = take (length (received s)) (sent s)
     \<and> (\<forall>k. length (received s) \<le> k \<and> k < length (sent s) \<longrightarrow> slot es (k mod cap) (mc_items (chan s)) = sent s ! k)"

definition mc_inv :: "nat \<Rightarrow> nat \<Rightarrow> mc_system \<Rightarrow> bool" where
  "mc_inv cap es s \<longleftrightarrow> mc_static cap es s \<and> mc_tokens cap s \<and> mc_exclusive s \<and> mc_ring cap es s"

lemmas mc_inv_defs = mc_inv_def mc_static_def mc_tokens_def mc_exclusive_def mc_ring_def

section \<open>The copies\<close>

lemma copy_in_ok:
  assumes "mc_static cap es s" "mc_ring cap es s" "length x = es"
    and "length (sent s) < length (received s) + cap" "cap dvd 2 ^ 64 \<or> length (sent s) < 2 ^ 64"
  shows "\<exists>bs. mc_copy_in x (chan s) = Inr ((chan s)\<lparr>mc_iput := mc_iput (chan s) + 1, mc_items := bs\<rparr>)
    \<and> length bs = cap * es
    \<and> (\<forall>k. length (received s) \<le> k \<and> k < length (sent s @ [x]) \<longrightarrow> slot es (k mod cap) bs = (sent s @ [x]) ! k)"
proof -
  let ?n = "length (sent s)" and ?i = "length (sent s) mod cap" and ?bs = "mc_items (chan s)"
  note st = assms(1)[unfolded mc_static_def] and ring = assms(2)[unfolded mc_ring_def]
  have cap: "0 < cap" "cap < 2 ^ 64" "?i < cap" using st by (simp_all add: SEM_VALUE_MAX_def)
  have cap0: "(of_nat cap :: 64 word) \<noteq> 0"
    using cap by (simp add: word_of_nat_eq_0_iff nat_dvd_not_less)
  have i: "unat (mc_iput (chan s) mod mc_capacity (chan s)) = ?i"
    using unat_index[OF cap(1,2) assms(5)] st ring by simp
  have off: "unat (mc_iput (chan s) mod mc_capacity (chan s) * mc_elem_size (chan s)) = ?i * es"
    using unat_offset[OF cap(3) _ i cap(1), of es] st by simp
  have es: "unat (mc_elem_size (chan s)) = es" using st by (simp add: unsigned_of_nat take_bit_nat_eq_self)
  have fits: "?i * es + es \<le> length ?bs"
  proof -
    have "Suc ?i * es \<le> cap * es" using cap(3) by (intro mult_le_mono1) simp
    then show ?thesis using st by simp
  qed
  let ?new = "take (?i * es) ?bs @ x @ drop (?i * es + es) ?bs"
  have eq: "mc_copy_in x (chan s) = Inr ((chan s)\<lparr>mc_iput := mc_iput (chan s) + 1, mc_items := ?new\<rparr>)"
    using cap0 st off es fits assms(3) by (simp add: mc_copy_in_def Let_def)
  have "slot es (k mod cap) ?new = (sent s @ [x]) ! k"
    if "length (received s) \<le> k" "k < length (sent s @ [x])" for k
  proof -
    have w: "slot es (k mod cap) ?new = (if k mod cap = ?i then x else slot es (k mod cap) ?bs)"
      by (rule slot_write[where cap = cap]) (use cap st assms(3) in auto)
    show ?thesis
    proof (cases "k = ?n")
      case True
      then show ?thesis using w by simp
    next
      case False
      then have k: "k < ?n" "?n - k < cap" using that assms(4) by auto
      have "k mod cap \<noteq> ?i"
      proof
        assume "k mod cap = ?i"
        then have "cap dvd ?n - k" using k(1) by (metis less_imp_le_nat mod_eq_dvd_iff_nat)
        then show False using k by (auto dest: dvd_imp_le)
      qed
      then show ?thesis using w ring that(1) k(1) by (simp add: nth_append)
    qed
  qed
  then show ?thesis using eq fits st assms(3) by (intro exI[of _ ?new]) auto
qed

lemma copy_out_ok:
  assumes "mc_static cap es s" "mc_ring cap es s"
    and "length (received s) < length (sent s)" "cap dvd 2 ^ 64 \<or> length (received s) < 2 ^ 64"
  shows "mc_copy_out (chan s) = Inr (sent s ! length (received s), (chan s)\<lparr>mc_iget := mc_iget (chan s) + 1\<rparr>)"
proof -
  let ?i = "length (received s) mod cap" and ?bs = "mc_items (chan s)"
  note st = assms(1)[unfolded mc_static_def] and ring = assms(2)[unfolded mc_ring_def]
  have cap: "0 < cap" "cap < 2 ^ 64" "?i < cap" using st by (simp_all add: SEM_VALUE_MAX_def)
  have cap0: "(of_nat cap :: 64 word) \<noteq> 0"
    using cap by (simp add: word_of_nat_eq_0_iff nat_dvd_not_less)
  have i: "unat (mc_iget (chan s) mod mc_capacity (chan s)) = ?i"
    using unat_index[OF cap(1,2) assms(4)] st ring by simp
  have off: "unat (mc_iget (chan s) mod mc_capacity (chan s) * mc_elem_size (chan s)) = ?i * es"
    using unat_offset[OF cap(3) _ i cap(1), of es] st by simp
  have es: "unat (mc_elem_size (chan s)) = es" using st by (simp add: unsigned_of_nat take_bit_nat_eq_self)
  have fits: "?i * es + es \<le> length ?bs"
  proof -
    have "Suc ?i * es \<le> cap * es" using cap(3) by (intro mult_le_mono1) simp
    then show ?thesis using st by simp
  qed
  have "take es (drop (?i * es) ?bs) = sent s ! length (received s)"
    using ring assms(3) by (auto simp: slot_def)
  then show ?thesis using cap0 st off es fits by (simp add: mc_copy_out_def Let_def)
qed

section \<open>Preservation\<close>

lemma mc_inv_start:
  assumes "0 < cap" "cap \<le> SEM_VALUE_MAX" "unat offset + cap * es < 2 ^ 64"
  shows "mc_inv cap es (mc_start n (init_channel offset (of_nat es) (of_nat cap) nm))"
proof -
  have cap: "cap < 2 ^ 32" using assms(2) by (simp add: SEM_VALUE_MAX_def)
  have es: "es \<le> cap * es" using assms(1) by simp
  then have es64: "es < 2 ^ 64" using assms(3) by linarith
  have prod: "(of_nat es * of_nat cap :: 64 word) = of_nat (cap * es)" by simp
  have "offset + of_nat (cap * es) = of_nat (unat offset + cap * es)" by simp
  then have tot: "unat (offset + of_nat (cap * es)) = unat offset + cap * es"
    using assms(3) by (simp only: unsigned_of_nat) (simp add: take_bit_nat_eq_self)
  have "unat (ucast (of_nat cap :: 64 word) :: 32 word) = cap"
    using cap by (simp add: unsigned_of_nat unsigned_ucast_eq take_bit_nat_eq_self)
  then have sp: "posix_sem_init (of_nat cap) = cap" using assms(2) by (simp add: posix_sem_init_def)
  show ?thesis
    unfolding mc_inv_defs mc_start_def init_channel_def Let_def prod
    using assms es64 tot sp by (auto simp: posix_sem_init_def pc_kinds in_set_replicate)
qed

lemma away_step:
  assumes "mc_inv cap es s" "t < length (procs s)" "procs s ! t = Away" "p = GetWait \<or> (\<exists>x. p = PutWait x \<and> length x = es)"
  shows "mc_inv cap es (s\<lparr>procs := (procs s)[t := p]\<rparr>)"
proof -
  have c: "count_if P ((procs s)[t := p]) = count_if P (procs s)" if "P p = P Away" for P
    using count_if_upd[OF assms(2), of P p] that assms(3) by (auto split: if_splits)
  have eq: "has_room p = has_room Away" "room_due p = room_due Away" "item_due p = item_due Away"
    "has_claim p = has_claim Away" "in_section p = in_section Away" "carries es p"
    using assms(4) by (auto simp: pc_kinds)
  have "mc_static cap es (s\<lparr>procs := (procs s)[t := p]\<rparr>)"
    using assms(1) eq(6) set_update_subset_insert[of "procs s" t p] by (auto simp: mc_inv_def mc_static_def)
  moreover have "mc_tokens cap (s\<lparr>procs := (procs s)[t := p]\<rparr>)"
    using assms(1) eq by (simp add: mc_inv_def mc_tokens_def c)
  moreover have "mc_exclusive (s\<lparr>procs := (procs s)[t := p]\<rparr>)"
    using assms(1,2,3) eq(5) by (auto simp: mc_inv_def mc_exclusive_def nth_list_update)
  ultimately show ?thesis using assms(1) by (simp add: mc_inv_def mc_ring_def)
qed

lemma static_ring_keep:
  assumes "mc_static cap es s" "mc_ring cap es s"
    and "sent s' = sent s" "received s' = received s" "fault s' = fault s"
    and "mc_capacity (chan s') = mc_capacity (chan s)" "mc_elem_size (chan s') = mc_elem_size (chan s)"
    and "mc_items (chan s') = mc_items (chan s)" "mc_iput (chan s') = mc_iput (chan s)"
    and "mc_iget (chan s') = mc_iget (chan s)" "\<forall>q\<in>set (procs s'). carries es q"
  shows "mc_static cap es s' \<and> mc_ring cap es s'"
  using assms unfolding mc_static_def mc_ring_def by metis

text \<open>The four parts of the invariant after a step of process \<open>t\<close>, one lemma per part.\<close>

lemma step_exclusive:
  assumes "mc_inv cap es s" "t < length (procs s)" "mc_step (Step t) s = Some s'" "fault s' = None"
  shows "mc_exclusive s'"
proof -
  have x: "\<And>u. u < length (procs s) \<Longrightarrow> in_section (procs s ! u) \<longleftrightarrow> mc_lock (chan s) = Some u"
    "\<And>u. mc_lock (chan s) = Some u \<Longrightarrow> u < length (procs s)"
    using assms(1) by (auto simp: mc_inv_def mc_exclusive_def)
  show ?thesis
    using assms(2,3,4) x(1)[OF assms(2)]
    by (cases "procs s ! t")
       (auto simp: pc_step_def note_copy_def mc_exclusive_def x nth_list_update mc_copy_in_def mc_copy_out_def Let_def
         dest: x split: if_splits)
qed

lemma step_static:
  assumes "mc_inv cap es s" "t < length (procs s)" "mc_step (Step t) s = Some s'"
    "cap dvd 2 ^ 64 \<or> length (sent s) < 2 ^ 64"
  shows "mc_static cap es s' \<and> mc_ring cap es s'"
proof -
  have inv: "mc_static cap es s" "mc_tokens cap s" "mc_ring cap es s" using assms(1) by (auto simp: mc_inv_def)
  have car: "carries es (procs s ! t)" using inv(1) assms(2) by (auto simp: mc_static_def)
  have all: "\<forall>q\<in>set (procs s). carries es q" using inv(1) by (simp add: mc_static_def)
  have upd: "\<forall>q\<in>set ((procs s)[t := p]). carries es q" if "carries es p" for p
    using inv(1) that set_update_subset_insert[of "procs s" t p] by (auto simp: mc_static_def)
  note pos = count_if_pos[OF assms(2)]
  show ?thesis
  proof (cases "procs s ! t")
    case (PutCopy x)
    have "0 < count_if has_room (procs s)" by (rule pos) (simp add: PutCopy)
    then have room: "length (sent s) < length (received s) + cap" using inv(2) by (simp add: mc_tokens_def)
    from copy_in_ok[OF inv(1,3) _ room assms(4), of x] car PutCopy obtain bs where
      bs: "mc_copy_in x (chan s) = Inr ((chan s)\<lparr>mc_iput := mc_iput (chan s) + 1, mc_items := bs\<rparr>)"
      "length bs = cap * es"
      "\<forall>k. length (received s) \<le> k \<and> k < length (sent s @ [x]) \<longrightarrow> slot es (k mod cap) bs = (sent s @ [x]) ! k"
      by (auto simp: pc_kinds)
    have "received s = take (length (received s)) (sent s @ [x])"
      using inv(2,3) by (simp add: mc_ring_def mc_tokens_def)
    then show ?thesis
      using assms(2,3) PutCopy bs inv upd[of PutUnlock]
      by (auto simp: pc_step_def note_copy_def mc_static_def mc_ring_def pc_kinds)
  next
    case GetCopy
    have "0 < count_if has_claim (procs s)" by (rule pos) (simp add: GetCopy has_claim_def)
    then have lt: "length (received s) < length (sent s)" using inv(2) by (simp add: mc_tokens_def)
    have w: "cap dvd 2 ^ 64 \<or> length (received s) < 2 ^ 64" using lt assms(4) by auto
    have rec: "take (Suc (length (received s))) (sent s) = received s @ [sent s ! length (received s)]"
      using lt inv(3) by (metis mc_ring_def take_Suc_conv_app_nth)
    have s': "s' = s\<lparr>chan := (chan s)\<lparr>mc_iget := mc_iget (chan s) + 1\<rparr>,
        procs := (procs s)[t := GetUnlock (sent s ! length (received s))],
        received := received s @ [sent s ! length (received s)]\<rparr>"
      using assms(2,3) GetCopy copy_out_ok[OF inv(1,3) lt w] by (simp add: pc_step_def note_copy_def)
    have "mc_static cap es s'"
      using inv(1) upd[of "GetUnlock (sent s ! length (received s))"] by (simp add: s' mc_static_def carries_def)
    moreover have "mc_ring cap es s'"
      using inv(3) rec by (simp add: s' mc_ring_def add.commute)
    ultimately show ?thesis ..
  qed (rule static_ring_keep[OF inv(1,3)]; use assms(2,3) car all in \<open>auto simp: pc_step_def note_copy_def carries_simps
        dest!: set_update_subset_insert[THEN subsetD] split: if_splits\<close>)+
qed

lemma step_tokens:
  assumes "mc_inv cap es s" "t < length (procs s)" "mc_step (Step t) s = Some s'" "fault s' = None"
  shows "mc_tokens cap s'"
proof -
  have inv: "mc_tokens cap s" using assms(1) by (simp add: mc_inv_def)
  have cap: "cap \<le> SEM_VALUE_MAX" using assms(1) by (simp add: mc_inv_def mc_static_def)
  note pos = count_if_pos[OF assms(2)] and upd = count_if_upd[OF assms(2)]
  show ?thesis
  proof (cases "procs s ! t")
    case (PutWait x)
    then show ?thesis using assms(2,3) inv upd[of has_room "PutLock x"] upd[of item_due "PutLock x"]
        upd[of has_claim "PutLock x"] upd[of room_due "PutLock x"]
      by (auto simp: pc_step_def note_copy_def mc_tokens_def pc_kinds split: if_splits)
  next
    case (PutLock x)
    then show ?thesis using assms(2,3) inv upd[of has_room "PutCopy x"] upd[of item_due "PutCopy x"]
        upd[of has_claim "PutCopy x"] upd[of room_due "PutCopy x"]
      by (auto simp: pc_step_def note_copy_def mc_tokens_def pc_kinds split: if_splits)
  next
    case (PutCopy x)
    then show ?thesis using assms(2,3,4) inv upd[of has_room PutUnlock] upd[of item_due PutUnlock]
        upd[of has_claim PutUnlock] upd[of room_due PutUnlock]
      by (auto simp: pc_step_def note_copy_def mc_tokens_def mc_copy_in_def Let_def pc_kinds split: if_splits)
  next
    case PutUnlock
    then show ?thesis using assms(2,3) inv upd[of has_room PutPost] upd[of item_due PutPost]
        upd[of has_claim PutPost] upd[of room_due PutPost]
      by (auto simp: pc_step_def note_copy_def mc_tokens_def pc_kinds)
  next
    case PutPost
    have "0 < count_if item_due (procs s)" by (rule pos) (simp add: PutPost item_due_def)
    then have "mc_has_items (chan s) < SEM_VALUE_MAX" using inv cap by (simp add: mc_tokens_def)
    then show ?thesis using PutPost assms(2,3) inv upd[of has_room Away] upd[of item_due Away]
        upd[of has_claim Away] upd[of room_due Away]
      by (auto simp: pc_step_def note_copy_def mc_tokens_def pc_kinds posix_sem_post_def)
  next
    case GetWait
    then show ?thesis using assms(2,3) inv upd[of has_room GetLock] upd[of item_due GetLock]
        upd[of has_claim GetLock] upd[of room_due GetLock]
      by (auto simp: pc_step_def note_copy_def mc_tokens_def pc_kinds split: if_splits)
  next
    case GetLock
    then show ?thesis using assms(2,3) inv upd[of has_room GetCopy] upd[of item_due GetCopy]
        upd[of has_claim GetCopy] upd[of room_due GetCopy]
      by (auto simp: pc_step_def note_copy_def mc_tokens_def pc_kinds split: if_splits)
  next
    case GetCopy
    have "0 < count_if has_claim (procs s)" by (rule pos) (simp add: GetCopy has_claim_def)
    moreover obtain x where "procs s' = (procs s)[t := GetUnlock x]" "received s' = received s @ [x]"
      "sent s' = sent s" "mc_has_space (chan s') = mc_has_space (chan s)" "mc_has_items (chan s') = mc_has_items (chan s)"
      using GetCopy assms(2,3,4)
      by (auto simp: pc_step_def note_copy_def mc_copy_out_def Let_def split: if_splits)
    ultimately show ?thesis using GetCopy inv upd[of has_room "GetUnlock x"] upd[of item_due "GetUnlock x"]
        upd[of has_claim "GetUnlock x"] upd[of room_due "GetUnlock x"]
      by (auto simp: mc_tokens_def pc_kinds)
  next
    case (GetUnlock x)
    then show ?thesis using assms(2,3) inv upd[of has_room "GetPost x"] upd[of item_due "GetPost x"]
        upd[of has_claim "GetPost x"] upd[of room_due "GetPost x"]
      by (auto simp: pc_step_def note_copy_def mc_tokens_def pc_kinds)
  next
    case (GetPost x)
    have "0 < count_if room_due (procs s)" by (rule pos) (simp add: GetPost)
    then have "mc_has_space (chan s) < SEM_VALUE_MAX" using inv cap by (simp add: mc_tokens_def)
    then show ?thesis using GetPost assms(2,3) inv upd[of has_room Away] upd[of item_due Away]
        upd[of has_claim Away] upd[of room_due Away]
      by (auto simp: pc_step_def note_copy_def mc_tokens_def pc_kinds posix_sem_post_def)
  qed (use assms(2,3) in \<open>simp add: pc_step_def\<close>)
qed

lemma mc_inv_step:
  assumes "mc_inv cap es s" "mc_step e s = Some s'" "cap dvd 2 ^ 64 \<or> length (sent s) < 2 ^ 64"
  shows "mc_inv cap es s'"
proof (cases e)
  case (BeginPut t x)
  then have t: "t < length (procs s)" "procs s ! t = Away" "length x = es" "s' = s\<lparr>procs := (procs s)[t := PutWait x]\<rparr>"
    using assms(1,2) by (auto simp: mc_inv_def mc_static_def unsigned_of_nat take_bit_nat_eq_self split: if_splits)
  then show ?thesis using away_step[OF assms(1) t(1,2)] by simp
next
  case (BeginGet t)
  then have t: "t < length (procs s)" "procs s ! t = Away" "s' = s\<lparr>procs := (procs s)[t := GetWait]\<rparr>"
    using assms(2) by (auto split: if_splits)
  then show ?thesis using away_step[OF assms(1) t(1,2)] by simp
next
  case (Step t)
  have t: "t < length (procs s)" using assms(2) Step by (auto split: if_splits)
  have st: "mc_step (Step t) s = Some s'" using assms(2) Step by simp
  from step_static[OF assms(1) t st assms(3)] have r: "mc_static cap es s'" "mc_ring cap es s'" by auto
  then have "fault s' = None" by (simp add: mc_static_def)
  with step_exclusive[OF assms(1) t st] step_tokens[OF assms(1) t st] r show ?thesis by (simp add: mc_inv_def)
qed

lemma sent_step: "mc_step e s = Some s' \<Longrightarrow> length (sent s') \<le> Suc (length (sent s))"
  by (cases e) (auto simp: note_copy_def split: if_splits sum.splits option.splits mc_pc.splits)

lemma mc_inv_run:
  assumes "mc_inv cap es s" "sent s = []" "mc_run evs s = Some s'" "cap dvd 2 ^ 64 \<or> length evs < 2 ^ 64"
  shows "mc_inv cap es s' \<and> length (sent s') \<le> length evs"
  using assms(3,4)
proof (induction evs arbitrary: s' rule: rev_induct)
  case Nil
  then show ?case using assms(1,2) by simp
next
  case (snoc e evs)
  then obtain s1 where s1: "mc_run evs s = Some s1" "mc_step e s1 = Some s'"
    by (auto simp: mc_run_snoc split: bind_splits)
  have w: "cap dvd 2 ^ 64 \<or> length evs < 2 ^ 64" using snoc.prems(2) by auto
  have IH: "mc_inv cap es s1" "length (sent s1) \<le> length evs" using snoc.IH[OF s1(1) w] by auto
  have "cap dvd 2 ^ 64 \<or> length (sent s1) < 2 ^ 64" using w IH(2) by linarith
  from mc_inv_step[OF IH(1) s1(2) this] sent_step[OF s1(2)] IH(2) show ?case by simp
qed

end
