(* ===== verification/Memchannel_Props.thy ===== *)
theory Memchannel_Props
  imports Memchannel_Inv
begin

text \<open>
  What the channel of 19 promises: order, capacity and mutual exclusion under every
  interleaving, the absence of deadlock, and that its object goes away with it.
\<close>

lemma channel_reach:
  assumes "0 < cap" "cap \<le> SEM_VALUE_MAX" "unat offset + cap * es < 2 ^ 64"
    and "cap dvd 2 ^ 64 \<or> length evs < 2 ^ 64"
    and "mc_run evs (mc_start n (init_channel offset (of_nat es) (of_nat cap) nm)) = Some s"
  shows "mc_inv cap es s"
  using mc_inv_run[OF mc_inv_start[OF assms(1-3)] _ assms(5,4)] by (simp add: mc_start_def)

text \<open>C10: Whatever processes do on a channel and however their steps interleave, elements come out
  in the order in which they went in, none lost, doubled or altered; at most \<open>capacity\<close> are
  inside; no copy leaves the buffer; and at most one process is between lock and unlock. The
  counters wrap at $2^{64}$, which is harmless only for capacities that divide it, so for the
  others the number of events is bounded.\<close>

theorem channel_fifo:
  assumes "0 < cap" "cap \<le> SEM_VALUE_MAX" "unat offset + cap * es < 2 ^ 64"
    and "cap dvd 2 ^ 64 \<or> length evs < 2 ^ 64"
    and "mc_run evs (mc_start n (init_channel offset (of_nat es) (of_nat cap) nm)) = Some s"
  shows "fault s = None \<and> received s = take (length (received s)) (sent s)
    \<and> length (received s) \<le> length (sent s) \<and> length (sent s) \<le> length (received s) + cap
    \<and> (\<forall>t u. t < length (procs s) \<and> u < length (procs s) \<and> in_section (procs s ! t) \<and> in_section (procs s ! u) \<longrightarrow> t = u)"
  using channel_reach[OF assms] by (auto simp: mc_inv_defs)

definition channel_run :: "mc_event list" where
  "channel_run = [BeginPut 0 [5], BeginGet 1, Step 0, Step 0, Step 0, Step 0, BeginPut 2 [6], Step 0,
     Step 1, Step 1, Step 1, Step 1, Step 1, Step 2, Step 2, Step 2, Step 2, Step 2, BeginPut 0 [7]]"

lemma channel_run_result:
  "\<exists>s. mc_run channel_run (mc_start 3 (init_channel 8 (of_nat 1) (of_nat 1) ''/c'')) = Some s
    \<and> sent s = [[5], [6]] \<and> received s = [[5]] \<and> procs s = [PutWait [7], Away, Away] \<and> mc_has_space (chan s) = 0"
proof -
  have "case mc_run channel_run (mc_start 3 (init_channel 8 (of_nat 1) (of_nat 1) ''/c'')) of None \<Rightarrow> False
     | Some s \<Rightarrow> sent s = [[5], [6]] \<and> received s = [[5]] \<and> procs s = [PutWait [7], Away, Away] \<and> mc_has_space (chan s) = 0"
    by (simp add: channel_run_def mc_start_def init_channel_def Let_def posix_sem_init_def posix_sem_post_def
        SEM_VALUE_MAX_def pc_step_def note_copy_def mc_copy_in_def mc_copy_out_def numeral_3_eq_3)
  then show ?thesis by (auto split: option.splits)
qed

lemma channel_fifo_witness:
  "\<exists>s. mc_run channel_run (mc_start 3 (init_channel 8 (of_nat 1) (of_nat 1) ''/c'')) = Some s
    \<and> fault s = None \<and> received s = take 1 (sent s) \<and> sent s = [[5], [6]]"
proof -
  from channel_run_result obtain s where
    s: "mc_run channel_run (mc_start 3 (init_channel 8 (of_nat 1) (of_nat 1) ''/c'')) = Some s"
      "sent s = [[5], [6]]" "received s = [[5]]" by blast
  have c: "(0::nat) < 1" "1 \<le> SEM_VALUE_MAX" "unat (8::size_t) + 1 * 1 < 2 ^ 64"
    "(1::nat) dvd 2 ^ 64 \<or> length channel_run < 2 ^ 64" by (simp_all add: SEM_VALUE_MAX_def)
  from channel_fifo[OF c s(1)] have "fault s = None" "received s = take (length (received s)) (sent s)" by blast+
  then show ?thesis using s by (intro exI[of _ s]) simp
qed

section \<open>No deadlock\<close>

lemma in_section_runs:
  assumes "mc_inv cap es s" "t < length (procs s)" "in_section (procs s ! t)"
  shows "mc_step (Step t) s \<noteq> None"
  using assms(2,3)
  by (cases "procs s ! t") (auto simp: pc_step_def mc_copy_in_def mc_copy_out_def Let_def split: sum.splits)

lemma nobody_runs:
  assumes "mc_inv cap es s" "\<forall>t<length (procs s). mc_step (Step t) s = None" "t < length (procs s)"
  shows "procs s ! t = Away \<or> (procs s ! t = GetWait \<and> mc_has_items (chan s) = 0)
    \<or> ((\<exists>x. procs s ! t = PutWait x) \<and> mc_has_space (chan s) = 0)"
proof -
  have "mc_lock (chan s) = None"
  proof (rule ccontr)
    assume "mc_lock (chan s) \<noteq> None"
    then obtain u where "mc_lock (chan s) = Some u" by blast
    then have "u < length (procs s)" "in_section (procs s ! u)" using assms(1) by (auto simp: mc_inv_def mc_exclusive_def)
    then show False using in_section_runs[OF assms(1), of u] assms(2) by (simp del: mc_step.simps)
  qed
  moreover have "\<not> in_section (procs s ! t)"
    by (rule notI) (drule in_section_runs[OF assms(1,3)], erule notE, rule assms(2)[rule_format, OF assms(3)])
  moreover have "mc_step (Step t) s = None" by (rule assms(2)[rule_format, OF assms(3)])
  ultimately show ?thesis using assms(3)
    by (cases "procs s ! t") (auto simp: pc_step_def split: if_splits)
qed

lemma stuck_process:
  assumes "mc_inv cap es s" "\<forall>t<length (procs s). mc_step (Step t) s = None" "t < length (procs s)"
  shows "procs s ! t = Away \<or> (procs s ! t = GetWait \<and> received s = sent s)
    \<or> ((\<exists>x. procs s ! t = PutWait x) \<and> length (sent s) = length (received s) + cap)"
proof -
  note inv = assms(1)
  have quiet: "\<not> has_room p \<and> \<not> room_due p \<and> \<not> item_due p \<and> \<not> has_claim p" if p: "p \<in> set (procs s)" for p
  proof -
    obtain u where "u < length (procs s)" "p = procs s ! u" using p by (auto simp: in_set_conv_nth)
    then show ?thesis using nobody_runs[OF inv assms(2)] by (fastforce simp: pc_kinds)
  qed
  then have z: "count_if has_room (procs s) = 0" "count_if room_due (procs s) = 0"
    "count_if item_due (procs s) = 0" "count_if has_claim (procs s) = 0"
    by (auto simp: count_if_zero)
  have tok: "mc_has_space (chan s) + length (sent s) = cap + length (received s)"
    "mc_has_items (chan s) + length (received s) = length (sent s)"
    using inv z by (auto simp: mc_inv_def mc_tokens_def)
  have "received s = sent s" if "length (received s) = length (sent s)"
    using inv that by (simp add: mc_inv_def mc_ring_def)
  then show ?thesis using nobody_runs[OF inv assms(2,3)] tok by auto
qed

text \<open>C27: The channel cannot deadlock: when no process can take a step, every process is outside
  or waits at the start of its call, putters only because the channel is full and getters only
  because it is empty, so never both.\<close>

theorem channel_no_deadlock:
  assumes "0 < cap" "cap \<le> SEM_VALUE_MAX" "unat offset + cap * es < 2 ^ 64"
    and "cap dvd 2 ^ 64 \<or> length evs < 2 ^ 64"
    and "mc_run evs (mc_start n (init_channel offset (of_nat es) (of_nat cap) nm)) = Some s"
    and "\<forall>t<length (procs s). mc_step (Step t) s = None" "t < length (procs s)"
  shows "procs s ! t = Away \<or> (procs s ! t = GetWait \<and> received s = sent s)
    \<or> ((\<exists>x. procs s ! t = PutWait x) \<and> length (sent s) = length (received s) + cap)"
  by (rule stuck_process[OF channel_reach[OF assms(1-5)] assms(6,7)])

lemma channel_no_deadlock_witness:
  "\<exists>s. mc_run channel_run (mc_start 3 (init_channel 8 (of_nat 1) (of_nat 1) ''/c'')) = Some s
    \<and> length (sent s) = length (received s) + 1 \<and> procs s ! 0 \<noteq> Away"
proof -
  from channel_run_result obtain s where
    s: "mc_run channel_run (mc_start 3 (init_channel 8 (of_nat 1) (of_nat 1) ''/c'')) = Some s"
      "procs s = [PutWait [7], Away, Away]" "mc_has_space (chan s) = 0" by blast
  have "\<forall>t<length (procs s). mc_step (Step t) s = None"
    using s by (auto simp: pc_step_def less_Suc_eq numeral_3_eq_3)
  from channel_no_deadlock[OF _ _ _ _ s(1) this, of 0] s show ?thesis by (auto simp: SEM_VALUE_MAX_def)
qed

section \<open>A call that meets nobody\<close>

lemma put_alone:
  assumes "mc_lock mc = None" "mc_put item mc = Inr (Some mc')"
  shows "\<exists>m1 m2 m3 m4. mc_put_step t (PutWait item) mc = Inr (Some (PutLock item, m1))
    \<and> mc_put_step t (PutLock item) m1 = Inr (Some (PutCopy item, m2))
    \<and> mc_put_step t (PutCopy item) m2 = Inr (Some (PutUnlock, m3))
    \<and> mc_put_step t PutUnlock m3 = Inr (Some (PutPost, m4))
    \<and> mc_put_step t PutPost m4 = Inr (Some (Away, mc'))"
  using assms by (auto simp: mc_put_def mc_copy_in_def Let_def split: if_splits)

section \<open>Creating and destroying\<close>

lemma shmem_create_prims: "destroyed_prims (snd (shmem_create k nm sz s)) = destroyed_prims s"
  by (simp add: shmem_create_def shmem_internal_map_def posix_defs Let_def)

lemma mc_create_result:
  assumes "kernel_ok k s" "mc_create k offset es cap nm s = (mc, s1)" "mc \<noteq> NULL"
  shows "mc = fresh_base k \<and> shm_names s nm = None \<and> shm_names s1 = (shm_names s)(nm \<mapsto> fresh_object k)
    \<and> open_fds s1 = open_fds s \<and> mappings s1 = (mappings s)(mc \<mapsto> (fresh_object k, offset + es * cap))
    \<and> shm_sizes s1 (fresh_object k) = offset + es * cap \<and> chans s1 (fresh_object k) = init_channel offset es cap nm
    \<and> destroyed_prims s1 = destroyed_prims s - {fresh_object k}"
proof -
  obtain base t1 where c: "shmem_create k nm (offset + es * cap) s = (base, t1)" by fastforce
  then have base: "base \<noteq> NULL" "base = mc" using assms(2,3) by (auto simp: mc_create_def Let_def split: if_splits option.splits)
  note b = shmem_create_base[OF assms(1) c base(1)]
  have "s1 = t1\<lparr>chans := (chans t1)(fresh_object k := init_channel offset es cap nm),
      destroyed_prims := destroyed_prims t1 - {fresh_object k}\<rparr>"
    using assms(2) c base b by (simp add: mc_create_def Let_def)
  then show ?thesis using b base shmem_create_prims[of k nm "offset + es * cap" s] c by simp
qed

text \<open>C37: A channel made by \<open>mc_create\<close> is an empty channel of the asked shape in a new named
  object. \<open>mc_destroy\<close> destroys its semaphores and mutex, unmaps it, so that mappings and
  descriptors are as before, and unlinks the name kept in it, the first 127 characters: of a name
  shorter than 128 characters nothing is left, a longer name stays, and a channel that
  has the cut name loses it.\<close>

theorem channel_create_destroy:
  assumes "kernel_ok k s" "mc_create k offset es cap nm s = (mc, s1)" "mc \<noteq> NULL"
  shows "channel_at s1 mc = Some (init_channel offset es cap nm) \<and> fresh_object k \<notin> destroyed_prims s1
    \<and> (\<exists>s2. mc_destroy mc s1 = Inr s2 \<and> mappings s2 = mappings s \<and> open_fds s2 = open_fds s
        \<and> destroyed_prims s2 = insert (fresh_object k) (destroyed_prims s)
        \<and> shm_names s2 = (if length nm < MEMCH_MAX_NAME_LEN then shm_names s
            else (shm_names s)(nm \<mapsto> fresh_object k, take (MEMCH_MAX_NAME_LEN - 1) nm := None)))"
proof -
  note c = mc_create_result[OF assms(1-3)]
  have fresh: "(mappings s)(fresh_base k := None) = mappings s" "(shm_names s)(nm := None) = shm_names s"
    using assms(1) c by (auto simp: kernel_ok_def)
  have "channel_at s1 mc = Some (init_channel offset es cap nm)" using c by (simp add: channel_at_def)
  moreover have "mc_name (init_channel offset es cap nm) = take (MEMCH_MAX_NAME_LEN - 1) nm"
    "mc_total_size (init_channel offset es cap nm) = offset + es * cap"
    by (simp_all add: init_channel_def Let_def)
  moreover have "take (MEMCH_MAX_NAME_LEN - 1) nm = nm" if "length nm < MEMCH_MAX_NAME_LEN"
    using that by (simp add: MEMCH_MAX_NAME_LEN_def)
  ultimately show ?thesis
    using c fresh by (simp add: mc_destroy_def shmem_destroy_def munmap_def shm_unlink_def Let_def)
qed

definition no_channels :: channels where
  "no_channels = \<lparr>shm_names = Map.empty, shm_sizes = (\<lambda>_. 0), open_fds = Map.empty, mappings = Map.empty,
     printed = [], chans = (\<lambda>_. init_channel 0 0 0 ''''), destroyed_prims = {}\<rparr>"

definition simple_kernel :: kernel where
  "simple_kernel = \<lparr>fresh_object = 7, fresh_fd = 3, fresh_base = 0x7000, open_fails = False, truncate_fails = False,
     fstat_fails = False, mmap_fails = False\<rparr>"

lemma channel_create_destroy_witness:
  "\<exists>mc s1 s2. mc_create simple_kernel 200 4 8 (replicate 130 CHR ''c'') no_channels = (mc, s1) \<and> mc \<noteq> NULL
    \<and> mc_destroy mc s1 = Inr s2 \<and> shm_names s2 = [replicate 130 CHR ''c'' \<mapsto> 7]"
proof -
  have nm: "replicate 127 CHR ''c'' \<noteq> replicate 130 CHR ''c''" by (auto dest: arg_cong[where f = length])
  have k: "kernel_ok simple_kernel no_channels" by (simp add: kernel_ok_def simple_kernel_def no_channels_def)
  obtain mc s1 where c: "mc_create simple_kernel 200 4 8 (replicate 130 CHR ''c'') no_channels = (mc, s1)" by fastforce
  have "mc \<noteq> NULL"
    using c by (auto simp: mc_create_def shmem_create_def shmem_internal_map_def posix_defs simple_kernel_def
        no_channels_def Let_def)
  from channel_create_destroy[OF k c this] this c nm show ?thesis
    by (auto simp: MEMCH_MAX_NAME_LEN_def no_channels_def simple_kernel_def)
qed

section \<open>Sizes that overflow\<close>

text \<open>The product of element size and capacity is not checked: with $2^{63}$ and 2 it is zero, the
  object has no room for even one element, and the first \<open>mc_put\<close> writes past its end.\<close>

lemma channel_size_overflow:
  "mc_items (init_channel offset 0x8000000000000000 2 nm) = []
    \<and> mc_put x (init_channel offset 0x8000000000000000 2 nm) = Inl OutOfBounds"
proof -
  have z: "(0x8000000000000000 :: size_t) * 2 = 0" by code_simp
  have "mc_items (init_channel offset 0x8000000000000000 2 nm) = []"
    unfolding init_channel_def Let_def z by simp
  moreover have "posix_sem_init 2 = 2" by (simp add: posix_sem_init_def SEM_VALUE_MAX_def)
  ultimately show ?thesis
    by (simp add: mc_put_def mc_copy_in_def Let_def) (simp add: init_channel_def Let_def)
qed

section \<open>Opened too early\<close>

text \<open>\<open>mc_create\<close> publishes the name before it has initialised the channel: an \<open>mc_open\<close> right after its
  \<open>shmem_create\<close> succeeds and maps the object of zeros, where the first \<open>mc_put\<close> finds a semaphore of
  zero and waits on it while \<open>mc_create\<close> initialises it.\<close>

definition zero_channel :: memch where
  "zero_channel = \<lparr>mc_elem_size = 0, mc_capacity = 0, mc_total_size = 0, mc_name = [], mc_iput = 0, mc_iget = 0,
     mc_lock = None, mc_has_space = 0, mc_has_items = 0, mc_items = []\<rparr>"

lemma open_before_init:
  assumes "kernel_ok k s" "shmem_create k nm sz s = (mc, s1)" "mc \<noteq> NULL"
    and "kernel_ok k2 s1" "\<not> open_fails k2" "\<not> fstat_fails k2" "\<not> mmap_fails k2"
  shows "\<exists>mc2 s2. mc_open k2 nm s1 = (mc2, s2) \<and> mc2 \<noteq> NULL \<and> mappings s2 mc2 = Some (fresh_object k, sz)
    \<and> mc_put item zero_channel = Inr None"
proof -
  note c = shmem_create_base[OF assms(1-3)]
  have "fresh_base k2 \<noteq> NULL" using assms(4) by (simp add: kernel_ok_def)
  then show ?thesis using c assms(5-7)
    by (simp add: mc_open_def shmem_open_def shmem_internal_map_def posix_defs Let_def mc_put_def zero_channel_def)
qed

end
