(* ===== verification/Memchannel_Steps.thy ===== *)
theory Memchannel_Steps
  imports Memchannel_Props
begin

text \<open>
  What the programs on a memory channel share: the \<open>int\<close> of a message as the bytes that are
  copied, and a step of a call seen from its program: what the call still has to put or has already
  got, what the step adds to the logs of the channel, and when the call returns.
\<close>

section \<open>Integers as bytes\<close>

text \<open>An \<open>int\<close> as the four bytes that are copied, the lowest first.\<close>

definition bytes_of_int :: "int \<Rightarrow> bytes" where
  "bytes_of_int v = map (\<lambda>i. word_of_int (v div 2 ^ (8 * i))) [0..<4]"

definition int_of_bytes :: "bytes \<Rightarrow> int" where
  "int_of_bytes bs = sint (word_of_int (horner_sum uint (2 ^ 8) bs) :: 32 word)"

lemma horner4: "horner_sum f a [x, y, z, w] = f x + a * (f y + a * (f z + a * f w))" by simp

lemma uint_byte: "uint (word_of_int x :: 8 word) = x mod 256" by (simp add: uint_word_of_int)

lemma bytes_of_int_eq: "bytes_of_int v = [word_of_int v, word_of_int (v div 256), word_of_int (v div 65536), word_of_int (v div 16777216)]"
  by (simp add: bytes_of_int_def upt_rec)

lemma p8: "(2::int) ^ 8 = 256" by simp

lemma bytes_value: "v mod 256 + 256 * (v div 256 mod 256 + 256 * (v div 65536 mod 256 + 256 * (v div 16777216 mod 256))) = v mod (4294967296::int)"
proof -
  have "v mod 4294967296 = 256 * (v div 256 mod 16777216) + v mod 256" using zmod_zmult2_eq[of 16777216 v 256] by simp
  moreover have "v div 256 mod 16777216 = 256 * (v div 65536 mod 65536) + v div 256 mod 256"
    using zmod_zmult2_eq[of 65536 "v div 256" 256] zdiv_zmult2_eq[of 256 v 256] by simp
  moreover have "v div 65536 mod 65536 = 256 * (v div 16777216 mod 256) + v div 65536 mod 256"
    using zmod_zmult2_eq[of 256 "v div 65536" 256] zdiv_zmult2_eq[of 256 v 65536] by simp
  ultimately show ?thesis by (simp only: add.commute)
qed

lemma int_bytes_roundtrip:
  assumes "in_int v"
  shows "int_of_bytes (bytes_of_int v) = v"
proof -
  have "horner_sum uint (2 ^ 8) (bytes_of_int v) = v mod 4294967296"
    unfolding bytes_of_int_eq horner4 uint_byte p8 by (rule bytes_value)
  then have "int_of_bytes (bytes_of_int v) = sint (word_of_int (v mod 4294967296) :: 32 word)"
    by (simp only: int_of_bytes_def)
  also have "\<dots> = sint (word_of_int v :: 32 word)"
    by (rule arg_cong[of _ _ sint]) (simp add: word_of_int_eq_iff take_bit_eq_mod)
  also have "\<dots> = v" using assms by (simp add: c_int_bounds signed_of_int signed_take_bit_int_eq_self)
  finally show ?thesis .
qed

section \<open>A step of a call\<close>

text \<open>One step of a call: where it leads, and what it adds to the logs.\<close>

fun copied_in :: "mc_pc \<Rightarrow> bytes list" where
  "copied_in (PutCopy x) = [x]"
| "copied_in _ = []"

fun copied_out :: "mc_pc \<Rightarrow> mc_pc \<Rightarrow> bytes list" where
  "copied_out GetCopy (GetUnlock x) = [x]"
| "copied_out _ _ = []"

lemma note_copy_logs [simp]:
  "sent (note_copy p p' s) = sent s @ copied_in p" "received (note_copy p p' s) = received s @ copied_out p p'"
  "procs (note_copy p p' s) = procs s" "chan (note_copy p p' s) = chan s" "fault (note_copy p p' s) = fault s"
  by (cases p; cases p'; simp add: note_copy_def)+

lemma pc_step_shape:
  assumes "pc_step t p mc = Inr (Some (p', mc'))"
  shows "mc_total_size mc' = mc_total_size mc" "mc_name mc' = mc_name mc"
  using assms by (cases p; auto simp: pc_step_def mc_copy_in_def mc_copy_out_def Let_def split: if_splits)+

lemma mc_step_moves:
  assumes "mc_inv cap es s" "mc_step (Step t) s = Some s'" "cap dvd 2 ^ 64"
  shows "\<exists>p' mc. t < length (procs s) \<and> pc_step t (procs s ! t) (chan s) = Inr (Some (p', mc))
    \<and> s' = note_copy (procs s ! t) p' (s\<lparr>chan := mc, procs := (procs s)[t := p']\<rparr>)"
proof -
  have "fault s' = None" using mc_inv_step[OF assms(1,2)] assms(3) by (simp add: mc_inv_def mc_static_def)
  then show ?thesis using assms(2) by (auto split: if_splits sum.splits option.splits)
qed

text \<open>What a call has not put yet, what it has got, and how many steps it still takes.\<close>

fun to_put :: "mc_pc \<Rightarrow> bytes list" where
  "to_put (PutWait x) = [x]"
| "to_put (PutLock x) = [x]"
| "to_put (PutCopy x) = [x]"
| "to_put _ = []"

fun got :: "mc_pc \<Rightarrow> bytes list" where
  "got (GetUnlock x) = [x]"
| "got (GetPost x) = [x]"
| "got _ = []"

primrec steps_left :: "mc_pc \<Rightarrow> nat" where
  "steps_left Away = 0"
| "steps_left (PutWait x) = 5" | "steps_left (PutLock x) = 4" | "steps_left (PutCopy x) = 3"
| "steps_left PutUnlock = 2" | "steps_left PutPost = 1"
| "steps_left GetWait = 5" | "steps_left GetLock = 4" | "steps_left GetCopy = 3"
| "steps_left (GetUnlock x) = 2" | "steps_left (GetPost x) = 1"

lemma put_moves:
  assumes "pc_step t p mc = Inr (Some (p', mc'))" "putting p"
  shows "to_put p = copied_in p @ to_put p'" "copied_out p p' = []" "p' = Away \<longleftrightarrow> p = PutPost"
    "p' \<noteq> Away \<longrightarrow> putting p'" "steps_left p = Suc (steps_left p')" "got p' = []"
  using assms by (cases p; auto simp: pc_step_def split: if_splits)+

lemma get_moves:
  assumes "pc_step t p mc = Inr (Some (p', mc'))" "\<not> putting p"
  shows "copied_in p = []" "p' = Away \<longleftrightarrow> (\<exists>x. p = GetPost x)" "\<not> putting p'" "steps_left p = Suc (steps_left p')"
    "p' \<noteq> Away \<longrightarrow> got p @ copied_out p p' = got p'" "p' = Away \<longrightarrow> copied_out p p' = []" "to_put p' = []"
  using assms by (cases p; auto simp: pc_step_def split: if_splits)+

lemma putting_shape: "putting p \<Longrightarrow> got p = []" "\<not> putting p \<Longrightarrow> to_put p = []" "to_put Away = []" "got Away = []"
  by (cases p; simp)+

end
