(* ===== verification/Memchannel_Test.thy ===== *)
theory Memchannel_Test
  imports Memchannel_Steps Sockets "HOL-Library.Multiset"
begin

text \<open>
  The test programs of the memory channel of 19: \<open>test_memchannel_srv.c\<close> makes a channel of ints
  and prints what it gets up to a zero; any number of processes of \<open>test_memchannel_cli.c\<close> each put
  one value some times. Here all of them run together, on one channel and one kernel. Process 0 is
  the server, the client with the \<open>i\<close>-th arguments is process \<open>i + 1\<close>.
\<close>

section \<open>The programs\<close>

definition MC_NAME :: string where "MC_NAME = ''/isel.so.memch.test''"
definition MC_CAPACITY :: size_t where "MC_CAPACITY = 8"
definition MC_ELEMSIZE :: size_t where "MC_ELEMSIZE = 4"

text \<open>\<open>val\<close> and \<open>n\<close> of a client.\<close>

definition cli_args :: "string list \<Rightarrow> c_error + (int \<times> int)" where
  "cli_args argv =
     and_then (if length argv = 1 then Inr 0 else atoi (argv ! 1)) (\<lambda>val.
     and_then (if length argv \<le> 2 then Inr 1 else atoi (argv ! 2)) (\<lambda>n. Inr (val, n)))"

primrec all_args :: "string list list \<Rightarrow> c_error + (int \<times> int) list" where
  "all_args [] = Inr []"
| "all_args (argv # argvs) = and_then (cli_args argv) (\<lambda>c. and_then (all_args argvs) (\<lambda>cs. Inr (c # cs)))"

text \<open>
  \<open>mp_mc\<close> has the \<open>mc\<close> of each process that has one, \<open>mp_i\<close> the loop counter of each client,
  \<open>mp_seen\<close> the lines the server has printed. \<open>mp_obj\<close> is the shared object, whose contents are the
  channel of \<open>mp_sys\<close>. A process in \<open>mp_gone\<close> has ended, one in \<open>mp_crashed\<close> by a segmentation fault.
\<close>

record mc_program =
  mp_os :: channels
  mp_obj :: nat
  mp_sys :: mc_system
  mp_mc :: "nat \<rightharpoonup> ptr"
  mp_i :: "nat \<Rightarrow> int"
  mp_seen :: "int list"
  mp_gone :: "nat set"
  mp_crashed :: "nat set"

text \<open>
  A client opens the channel; a process takes a step in a call; a process leaves its loop and ends.
  A failed \<open>mc_open\<close> is not looked at: the client reads through NULL, in \<open>mc_put\<close> or in \<open>mc_close\<close>.
\<close>

datatype mp_event = Opens nat kernel | Does mc_event | Ends nat

fun actor :: "mc_event \<Rightarrow> nat" where
  "actor (BeginPut t x) = t"
| "actor (BeginGet t) = t"
| "actor (Step t) = t"

fun mp_may :: "(int \<times> int) list \<Rightarrow> mc_event \<Rightarrow> mc_program \<Rightarrow> bool" where
  "mp_may cs (BeginPut t x) s \<longleftrightarrow>
     0 < t \<and> t \<le> length cs \<and> mp_i s t < snd (cs ! (t - 1)) \<and> x = bytes_of_int (fst (cs ! (t - 1)))"
| "mp_may cs (BeginGet t) s \<longleftrightarrow> t = 0 \<and> 0 \<notin> set (mp_seen s)"
| "mp_may cs (Step t) s \<longleftrightarrow> True"

text \<open>What a process does when its call returns, \<open>p\<close> being where it was in it.\<close>

fun mp_returns :: "nat \<Rightarrow> mc_pc \<Rightarrow> mc_program \<Rightarrow> mc_program" where
  "mp_returns t PutPost s = s\<lparr>mp_i := (mp_i s)(t := mp_i s t + 1)\<rparr>"
| "mp_returns t (GetPost x) s = s\<lparr>mp_seen := mp_seen s @ [int_of_bytes x]\<rparr>"
| "mp_returns t _ s = s"

definition mp_call :: "(int \<times> int) list \<Rightarrow> mc_event \<Rightarrow> mc_program \<Rightarrow> mc_program option" where
  "mp_call cs e s =
     (if mp_mc s (actor e) \<noteq> None \<and> mp_may cs e s
      then (case mc_step e (mp_sys s) of
          None \<Rightarrow> None
        | Some sys \<Rightarrow>
            (let s1 = (case e of Step t \<Rightarrow> mp_returns t (procs (mp_sys s) ! t) s | _ \<Rightarrow> s) in
             Some (s1\<lparr>mp_sys := sys, mp_os := (mp_os s)\<lparr>chans := (chans (mp_os s))(mp_obj s := chan sys)\<rparr>\<rparr>)))
      else None)"

definition mp_open :: "(int \<times> int) list \<Rightarrow> nat \<Rightarrow> kernel \<Rightarrow> mc_program \<Rightarrow> mc_program option" where
  "mp_open cs t k s =
     (if 0 < t \<and> t \<le> length cs \<and> mp_mc s t = None \<and> t \<notin> mp_gone s \<and> kernel_ok k (mp_os s)
      then (case mc_open k MC_NAME (mp_os s) of
          (mc, os1) \<Rightarrow>
            Some (if mc = NULL
              then s\<lparr>mp_os := os1, mp_gone := insert t (mp_gone s), mp_crashed := insert t (mp_crashed s)\<rparr>
              else s\<lparr>mp_os := os1, mp_mc := (mp_mc s)(t \<mapsto> mc)\<rparr>))
      else None)"

definition mp_end :: "(int \<times> int) list \<Rightarrow> nat \<Rightarrow> mc_program \<Rightarrow> (c_error + mc_program) option" where
  "mp_end cs t s =
     (case mp_mc s t of
        None \<Rightarrow> None
      | Some mc \<Rightarrow>
          (if procs (mp_sys s) ! t = Away
              \<and> (if t = 0 then 0 \<in> set (mp_seen s) else snd (cs ! (t - 1)) \<le> mp_i s t)
           then Some (and_then ((if t = 0 then mc_destroy else mc_close) mc (mp_os s)) (\<lambda>os1.
             Inr (s\<lparr>mp_os := os1, mp_mc := (mp_mc s)(t := None), mp_gone := insert t (mp_gone s)\<rparr>)))
           else None))"

fun mp_step :: "(int \<times> int) list \<Rightarrow> mp_event \<Rightarrow> mc_program \<Rightarrow> (c_error + mc_program) option" where
  "mp_step cs (Does e) s = map_option Inr (mp_call cs e s)"
| "mp_step cs (Opens t k) s = map_option Inr (mp_open cs t k s)"
| "mp_step cs (Ends t) s = mp_end cs t s"

fun mp_run :: "(int \<times> int) list \<Rightarrow> mp_event list \<Rightarrow> mc_program \<Rightarrow> (c_error + mc_program) option" where
  "mp_run cs [] s = Some (Inr s)"
| "mp_run cs (e # es) s = (case mp_step cs e s of
      None \<Rightarrow> None | Some (Inl err) \<Rightarrow> Some (Inl err) | Some (Inr s1) \<Rightarrow> mp_run cs es s1)"

text \<open>The start of the server; its \<open>mc_create\<close> is not looked at either.\<close>

definition mp_server :: "kernel \<Rightarrow> size_t \<Rightarrow> nat \<Rightarrow> channels \<Rightarrow> c_error + mc_program" where
  "mp_server k offset n os0 =
     (case mc_create k offset MC_ELEMSIZE MC_CAPACITY MC_NAME os0 of
        (mc, os1) \<Rightarrow>
          and_then (or_fail InvalidAccess (if mc = NULL then None else mappings os1 mc)) (\<lambda>(obj, len).
            Inr \<lparr>mp_os = os1, mp_obj = obj, mp_sys = mc_start (Suc n) (chans os1 obj), mp_mc = [0 \<mapsto> mc],
              mp_i = (\<lambda>_. 0), mp_seen = [], mp_gone = {}, mp_crashed = {}\<rparr>))"

definition test_memchannel :: "kernel \<Rightarrow> size_t \<Rightarrow> string list list \<Rightarrow> mp_event list \<Rightarrow> channels
    \<Rightarrow> (c_error + mc_program) option" where
  "test_memchannel k offset argvs es os0 =
     (case and_then (all_args argvs) (\<lambda>cs. and_then (mp_server k offset (length cs) os0) (\<lambda>s. Inr (cs, s))) of
        Inl e \<Rightarrow> Some (Inl e)
      | Inr (cs, s) \<Rightarrow> mp_run cs es s)"

section \<open>Where each process is\<close>

definition client_ok :: "int \<times> int \<Rightarrow> mc_pc \<Rightarrow> int \<Rightarrow> bool" where
  "client_ok c p i \<longleftrightarrow> 0 \<le> i \<and> i \<le> max 0 (snd c) \<and> (p \<noteq> Away \<longrightarrow> i < snd c \<and> putting p)
     \<and> (\<forall>x. p = PutWait x \<or> p = PutLock x \<or> p = PutCopy x \<longrightarrow> x = bytes_of_int (fst c))"

definition server_ok :: "mc_pc \<Rightarrow> int list \<Rightarrow> bytes list \<Rightarrow> bool" where
  "server_ok p seen recv \<longleftrightarrow> \<not> putting p \<and> 0 \<notin> set (butlast seen) \<and> (p \<noteq> Away \<longrightarrow> 0 \<notin> set seen)
     \<and> (\<not> room_due p \<longrightarrow> seen = map int_of_bytes recv)
     \<and> (\<forall>x. p = GetUnlock x \<or> p = GetPost x \<longrightarrow> recv \<noteq> [] \<and> last recv = x \<and> seen = map int_of_bytes (butlast recv))"

definition put_count :: "(nat \<Rightarrow> int) \<Rightarrow> mc_pc list \<Rightarrow> nat \<Rightarrow> nat" where
  "put_count i ps t = nat (i t) + (if item_due (ps ! t) then 1 else 0)"

definition all_puts :: "(int \<times> int) list \<Rightarrow> (nat \<Rightarrow> nat) \<Rightarrow> bytes multiset" where
  "all_puts cs f = (\<Sum>t\<in>{1..length cs}. replicate_mset (f t) (bytes_of_int (fst (cs ! (t - 1)))))"

lemma all_puts_upd:
  assumes "0 < t" "t \<le> length cs" "f' t = f t + d" "\<forall>u. u \<noteq> t \<longrightarrow> f' u = f u"
  shows "all_puts cs f' = all_puts cs f + replicate_mset d (bytes_of_int (fst (cs ! (t - 1))))"
proof -
  let ?g = "\<lambda>f u. replicate_mset (f u) (bytes_of_int (fst (cs ! (u - 1))))"
  have t: "t \<in> {1..length cs}" using assms by simp
  have rm: "all_puts cs f = ?g f t + (\<Sum>u\<in>{1..length cs} - {t}. ?g f u)" for f
    unfolding all_puts_def by (rule sum.remove[OF _ t]) simp
  have "(\<Sum>u\<in>{1..length cs} - {t}. ?g f' u) = (\<Sum>u\<in>{1..length cs} - {t}. ?g f u)"
    by (rule sum.cong) (use assms(4) in auto)
  moreover have "?g f' t = ?g f t + replicate_mset d (bytes_of_int (fst (cs ! (t - 1))))"
    by (simp add: assms(3) multiset_eq_iff)
  ultimately show ?thesis unfolding rm by simp
qed

lemma all_puts_cong: "\<forall>t. 0 < t \<and> t \<le> length cs \<longrightarrow> f t = g t \<Longrightarrow> all_puts cs f = all_puts cs g"
  unfolding all_puts_def by (rule sum.cong) auto

lemma client_moves:
  assumes "pc_step t p mc = Inr (Some (p', mc'))" "client_ok c p i"
  shows "client_ok c p' (if p = PutPost then i + 1 else i)"
    and "nat (if p = PutPost then i + 1 else i) + (if item_due p' then 1 else 0)
      = nat i + (if item_due p then 1 else 0) + length (copied_in p)"
    and "set (copied_in p) \<subseteq> {bytes_of_int (fst c)}" "copied_out p p' = []"
  using assms by (cases p; auto simp: pc_step_def client_ok_def item_due_def split: if_splits)+

lemma server_moves:
  assumes "pc_step t p mc = Inr (Some (p', mc'))" "server_ok p seen recv"
  shows "server_ok p' (case p of GetPost x \<Rightarrow> seen @ [int_of_bytes x] | _ \<Rightarrow> seen) (recv @ copied_out p p')"
    and "copied_in p = []"
proof -
  have "map int_of_bytes recv = map int_of_bytes (butlast recv) @ [int_of_bytes (last recv)]" if "recv \<noteq> []"
    using that by (cases recv rule: rev_cases) auto
  then show "server_ok p' (case p of GetPost x \<Rightarrow> seen @ [int_of_bytes x] | _ \<Rightarrow> seen) (recv @ copied_out p p')"
    using assms by (cases p) (auto simp: pc_step_def server_ok_def split: if_splits)
  show "copied_in p = []" using assms(2) by (cases p) (auto simp: server_ok_def)
qed

section \<open>The invariant of the run\<close>

definition mp_chan_ok :: "(int \<times> int) list \<Rightarrow> size_t \<Rightarrow> mc_program \<Rightarrow> bool" where
  "mp_chan_ok cs offset s \<longleftrightarrow> mc_inv 8 4 (mp_sys s) \<and> length (procs (mp_sys s)) = Suc (length cs)
     \<and> mc_total_size (chan (mp_sys s)) = offset + 32 \<and> mc_name (chan (mp_sys s)) = MC_NAME"

definition mp_os_ok :: "(int \<times> int) list \<Rightarrow> size_t \<Rightarrow> channels \<Rightarrow> mc_program \<Rightarrow> bool" where
  "mp_os_ok cs offset os0 s \<longleftrightarrow> chans (mp_os s) (mp_obj s) = chan (mp_sys s)
     \<and> shm_sizes (mp_os s) (mp_obj s) = offset + 32 \<and> open_fds (mp_os s) = open_fds os0
     \<and> shm_names os0 MC_NAME = None
     \<and> shm_names (mp_os s) = (if mp_mc s 0 = None then shm_names os0 else (shm_names os0)(MC_NAME \<mapsto> mp_obj s))
     \<and> inj_on (mp_mc s) (dom (mp_mc s)) \<and> ran (mp_mc s) \<inter> dom (mappings os0) = {} \<and> dom (mp_mc s) \<subseteq> {0..length cs}
     \<and> mappings (mp_os s) = (\<lambda>p. if p \<in> ran (mp_mc s) then Some (mp_obj s, offset + 32) else mappings os0 p)"

definition mp_procs_ok :: "(int \<times> int) list \<Rightarrow> mc_program \<Rightarrow> bool" where
  "mp_procs_ok cs s \<longleftrightarrow> server_ok (procs (mp_sys s) ! 0) (mp_seen s) (received (mp_sys s))
     \<and> (\<forall>t. 0 < t \<and> t \<le> length cs \<longrightarrow> client_ok (cs ! (t - 1)) (procs (mp_sys s) ! t) (mp_i s t))
     \<and> (\<forall>t\<le>length cs. mp_mc s t = None \<longrightarrow> procs (mp_sys s) ! t = Away)
     \<and> mset (sent (mp_sys s)) = all_puts cs (put_count (mp_i s) (procs (mp_sys s)))
     \<and> (mp_mc s 0 = None \<longrightarrow> 0 \<in> set (mp_seen s))
     \<and> (\<forall>t\<in>mp_gone s - mp_crashed s. 0 < t \<longrightarrow> snd (cs ! (t - 1)) \<le> mp_i s t)
     \<and> mp_gone s \<inter> dom (mp_mc s) = {}"

lemma mp_returns_fields [simp]:
  "mp_os (mp_returns t p s) = mp_os s" "mp_obj (mp_returns t p s) = mp_obj s" "mp_sys (mp_returns t p s) = mp_sys s"
  "mp_mc (mp_returns t p s) = mp_mc s" "mp_gone (mp_returns t p s) = mp_gone s" "mp_crashed (mp_returns t p s) = mp_crashed s"
  "mp_i (mp_returns t p s) = (if p = PutPost then (mp_i s)(t := mp_i s t + 1) else mp_i s)"
  "mp_seen (mp_returns t p s) = (case p of GetPost x \<Rightarrow> mp_seen s @ [int_of_bytes x] | _ \<Rightarrow> mp_seen s)"
  by (cases p; simp)+

lemma begin_call:
  assumes "mp_call cs e s = Some s'" "mp_procs_ok cs s" "e = BeginPut t x \<or> e = BeginGet t"
    and "length (procs (mp_sys s)) = Suc (length cs)"
  shows "mp_procs_ok cs s' \<and> mc_total_size (chan (mp_sys s')) = mc_total_size (chan (mp_sys s))
    \<and> mc_name (chan (mp_sys s')) = mc_name (chan (mp_sys s)) \<and> length (procs (mp_sys s')) = length (procs (mp_sys s))"
proof -
  obtain p where p: "t < length (procs (mp_sys s))" "procs (mp_sys s) ! t = Away" "mp_mc s t \<noteq> None"
      "if t = 0 then p = GetWait \<and> 0 \<notin> set (mp_seen s)
       else mp_i s t < snd (cs ! (t - 1)) \<and> p = PutWait (bytes_of_int (fst (cs ! (t - 1))))"
    and s': "s' = s\<lparr>mp_sys := (mp_sys s)\<lparr>procs := (procs (mp_sys s))[t := p]\<rparr>,
        mp_os := (mp_os s)\<lparr>chans := (chans (mp_os s))(mp_obj s := chan (mp_sys s))\<rparr>\<rparr>"
    using assms(1,3) by (auto simp: mp_call_def Let_def split: option.splits if_splits)
  have "all_puts cs (put_count (mp_i s) ((procs (mp_sys s))[t := p])) = all_puts cs (put_count (mp_i s) (procs (mp_sys s)))"
    by (rule all_puts_cong) (use p in \<open>auto simp: put_count_def nth_list_update item_due_def split: if_splits\<close>)
  then show ?thesis using assms(2,4) p
    by (auto simp: s' mp_procs_ok_def nth_list_update server_ok_def client_ok_def split: if_splits)
qed

lemma call_shape:
  assumes "mp_call cs (Step t) s = Some s'" "mc_inv 8 4 (mp_sys s)"
  obtains p' mc where "t < length (procs (mp_sys s))" "mp_mc s t \<noteq> None"
    "pc_step t (procs (mp_sys s) ! t) (chan (mp_sys s)) = Inr (Some (p', mc))"
    "s' = (mp_returns t (procs (mp_sys s) ! t) s)\<lparr>mp_sys := note_copy (procs (mp_sys s) ! t) p'
        ((mp_sys s)\<lparr>chan := mc, procs := (procs (mp_sys s))[t := p']\<rparr>),
      mp_os := (mp_os s)\<lparr>chans := (chans (mp_os s))(mp_obj s := mc)\<rparr>\<rparr>"
proof -
  let ?ps = "procs (mp_sys s)"
  have live: "mp_mc s t \<noteq> None" and st: "\<exists>sys. mc_step (Step t) (mp_sys s) = Some sys"
    using assms(1) by (auto simp: mp_call_def simp del: mc_step.simps split: option.splits if_splits)
  have d: "(8::nat) dvd 2 ^ 64" by simp
  from mc_step_moves[OF assms(2) _ d] st obtain p' mc where
    p: "t < length ?ps" "pc_step t (?ps ! t) (chan (mp_sys s)) = Inr (Some (p', mc))"
      "mc_step (Step t) (mp_sys s) = Some (note_copy (?ps ! t) p' ((mp_sys s)\<lparr>chan := mc, procs := ?ps[t := p']\<rparr>))"
    by blast
  have "s' = (mp_returns t (?ps ! t) s)\<lparr>mp_sys := note_copy (?ps ! t) p' ((mp_sys s)\<lparr>chan := mc, procs := ?ps[t := p']\<rparr>),
      mp_os := (mp_os s)\<lparr>chans := (chans (mp_os s))(mp_obj s := mc)\<rparr>\<rparr>"
    using assms(1) live p(3) by (simp add: mp_call_def Let_def del: mc_step.simps)
  then show thesis by (rule that[OF p(1) live p(2)])
qed

lemma still_away:
  assumes "mp_procs_ok cs s" "mp_mc s t \<noteq> None" "u \<le> length cs" "mp_mc s u = None"
  shows "(procs (mp_sys s))[t := p] ! u = Away"
  using assms by (cases "u = t") (auto simp: mp_procs_ok_def)

lemma server_call:
  assumes "mp_call cs (Step 0) s = Some s'" "mp_procs_ok cs s" "mc_inv 8 4 (mp_sys s)"
  shows "mp_procs_ok cs s'"
proof -
  let ?ps = "procs (mp_sys s)"
  obtain p' mc where p: "0 < length ?ps" "mp_mc s 0 \<noteq> None" "pc_step 0 (?ps ! 0) (chan (mp_sys s)) = Inr (Some (p', mc))"
    and s': "s' = (mp_returns 0 (?ps ! 0) s)\<lparr>mp_sys := note_copy (?ps ! 0) p' ((mp_sys s)\<lparr>chan := mc, procs := ?ps[0 := p']\<rparr>),
      mp_os := (mp_os s)\<lparr>chans := (chans (mp_os s))(mp_obj s := mc)\<rparr>\<rparr>"
    by (rule call_shape[OF assms(1,3)]) blast
  have srv: "server_ok (?ps ! 0) (mp_seen s) (received (mp_sys s))" using assms(2) by (simp add: mp_procs_ok_def)
  have "?ps ! 0 \<noteq> PutPost" using srv by (auto simp: server_ok_def)
  moreover have "all_puts cs (put_count (mp_i s) (?ps[0 := p'])) = all_puts cs (put_count (mp_i s) ?ps)"
    by (rule all_puts_cong) (simp add: put_count_def)
  moreover have "set (mp_seen s) \<subseteq> set (case ?ps ! 0 of GetPost x \<Rightarrow> mp_seen s @ [int_of_bytes x] | _ \<Rightarrow> mp_seen s)"
    by (auto split: mc_pc.splits)
  ultimately show ?thesis using assms(2) p(1,2) server_moves[OF p(3) srv] still_away[OF assms(2) p(2)]
    by (auto simp: s' mp_procs_ok_def)
qed

lemma client_call:
  assumes "mp_call cs (Step t) s = Some s'" "mp_procs_ok cs s" "mc_inv 8 4 (mp_sys s)" "0 < t" "t \<le> length cs"
  shows "mp_procs_ok cs s'"
proof -
  let ?ps = "procs (mp_sys s)"
  obtain p' mc where p: "t < length ?ps" "mp_mc s t \<noteq> None" "pc_step t (?ps ! t) (chan (mp_sys s)) = Inr (Some (p', mc))"
    and s': "s' = (mp_returns t (?ps ! t) s)\<lparr>mp_sys := note_copy (?ps ! t) p' ((mp_sys s)\<lparr>chan := mc, procs := ?ps[t := p']\<rparr>),
      mp_os := (mp_os s)\<lparr>chans := (chans (mp_os s))(mp_obj s := mc)\<rparr>\<rparr>"
    by (rule call_shape[OF assms(1,3)]) blast
  have cl: "\<forall>u. 0 < u \<and> u \<le> length cs \<longrightarrow> client_ok (cs ! (u - 1)) (?ps ! u) (mp_i s u)"
    and gone: "\<forall>u\<in>mp_gone s - mp_crashed s. 0 < u \<longrightarrow> snd (cs ! (u - 1)) \<le> mp_i s u"
    and sent: "mset (sent (mp_sys s)) = all_puts cs (put_count (mp_i s) ?ps)"
    using assms(2) by (auto simp: mp_procs_ok_def)
  have ok: "client_ok (cs ! (t - 1)) (?ps ! t) (mp_i s t)" using cl assms(4,5) by blast
  note mv = client_moves[OF p(3) ok]
  define i where "i = (if ?ps ! t = PutPost then (mp_i s)(t := mp_i s t + 1) else mp_i s)"
  have i: "i t = (if ?ps ! t = PutPost then mp_i s t + 1 else mp_i s t)" "\<forall>u. u \<noteq> t \<longrightarrow> i u = mp_i s u"
    by (auto simp: i_def)
  have "(case ?ps ! t of GetPost x \<Rightarrow> mp_seen s @ [int_of_bytes x] | _ \<Rightarrow> mp_seen s) = mp_seen s"
    using ok by (auto simp: client_ok_def split: mc_pc.splits)
  then have new: "procs (mp_sys s') = ?ps[t := p']" "mp_i s' = i" "mp_seen s' = mp_seen s" "mp_mc s' = mp_mc s"
      "received (mp_sys s') = received (mp_sys s)" "sent (mp_sys s') = sent (mp_sys s) @ copied_in (?ps ! t)"
      "mp_gone s' = mp_gone s" "mp_crashed s' = mp_crashed s"
    using mv(4) by (simp_all add: s' i_def)
  have "mset (copied_in (?ps ! t)) = replicate_mset (length (copied_in (?ps ! t))) (bytes_of_int (fst (cs ! (t - 1))))"
    using mv(3) by (cases "?ps ! t") auto
  moreover have "put_count i (?ps[t := p']) t = put_count (mp_i s) ?ps t + length (copied_in (?ps ! t))"
    unfolding put_count_def i(1) nth_list_update_eq[OF p(1)] by (rule mv(2))
  moreover have "\<forall>u. u \<noteq> t \<longrightarrow> put_count i (?ps[t := p']) u = put_count (mp_i s) ?ps u"
    using i(2) by (simp add: put_count_def)
  ultimately have "mset (sent (mp_sys s) @ copied_in (?ps ! t)) = all_puts cs (put_count i (?ps[t := p']))"
    using all_puts_upd[OF assms(4,5), of "put_count i (?ps[t := p'])"] sent by (simp only: mset_append)
  moreover have "\<forall>u\<in>mp_gone s - mp_crashed s. 0 < u \<longrightarrow> snd (cs ! (u - 1)) \<le> i u"
  proof (intro ballI impI)
    fix u
    assume "u \<in> mp_gone s - mp_crashed s" "0 < u"
    then have "snd (cs ! (u - 1)) \<le> mp_i s u" using gone by blast
    then show "snd (cs ! (u - 1)) \<le> i u" using i by (cases "u = t") auto
  qed
  moreover have "\<forall>u. 0 < u \<and> u \<le> length cs \<longrightarrow> client_ok (cs ! (u - 1)) (?ps[t := p'] ! u) (i u)"
  proof (intro allI impI)
    fix u
    assume "0 < u \<and> u \<le> length cs"
    then show "client_ok (cs ! (u - 1)) (?ps[t := p'] ! u) (i u)" using cl mv(1) p(1) i by (cases "u = t") auto
  qed
  ultimately show ?thesis
    unfolding mp_procs_ok_def new using assms(2,4) still_away[OF assms(2) p(2)] by (simp add: mp_procs_ok_def)
qed

lemma step_call:
  assumes "mp_call cs (Step t) s = Some s'" "mp_procs_ok cs s" "mp_chan_ok cs offset s"
  shows "mp_procs_ok cs s' \<and> mc_total_size (chan (mp_sys s')) = mc_total_size (chan (mp_sys s))
    \<and> mc_name (chan (mp_sys s')) = mc_name (chan (mp_sys s)) \<and> length (procs (mp_sys s')) = length (procs (mp_sys s))"
proof -
  have inv: "mc_inv 8 4 (mp_sys s)" "length (procs (mp_sys s)) = Suc (length cs)" using assms(3) by (auto simp: mp_chan_ok_def)
  obtain p' mc where p: "t < length (procs (mp_sys s))" "pc_step t (procs (mp_sys s) ! t) (chan (mp_sys s)) = Inr (Some (p', mc))"
    and s': "chan (mp_sys s') = mc" "length (procs (mp_sys s')) = length (procs (mp_sys s))"
    by (rule call_shape[OF assms(1) inv(1)]) simp
  have "mp_procs_ok cs s'"
  proof (cases "t = 0")
    case True
    then show ?thesis using server_call[OF _ assms(2) inv(1)] assms(1) by simp
  next
    case False
    then show ?thesis using client_call[OF assms(1,2) inv(1)] p(1) inv(2) by simp
  qed
  then show ?thesis using s' pc_step_shape[OF p(2)] by simp
qed

lemma call_keeps:
  assumes "mp_call cs e s = Some s'" "mp_procs_ok cs s" "mp_chan_ok cs offset s" "mp_os_ok cs offset os0 s"
  shows "mp_procs_ok cs s' \<and> mp_chan_ok cs offset s' \<and> mp_os_ok cs offset os0 s'"
proof -
  have len: "length (procs (mp_sys s)) = Suc (length cs)" using assms(3) by (simp add: mp_chan_ok_def)
  have k: "mp_procs_ok cs s' \<and> mc_total_size (chan (mp_sys s')) = mc_total_size (chan (mp_sys s))
    \<and> mc_name (chan (mp_sys s')) = mc_name (chan (mp_sys s)) \<and> length (procs (mp_sys s')) = length (procs (mp_sys s))"
  proof (cases e)
    case (Step t)
    then show ?thesis using step_call[OF _ assms(2,3)] assms(1) by blast
  qed (rule begin_call[OF assms(1,2) _ len]; simp)+
  obtain sys where sys: "mc_step e (mp_sys s) = Some sys" "mp_sys s' = sys" "mp_obj s' = mp_obj s" "mp_mc s' = mp_mc s"
      "mp_os s' = (mp_os s)\<lparr>chans := (chans (mp_os s))(mp_obj s := chan sys)\<rparr>"
    using assms(1) by (auto simp: mp_call_def Let_def simp del: mc_step.simps split: option.splits if_splits mc_event.splits)
  have d: "(8::nat) dvd 2 ^ 64 \<or> length (sent (mp_sys s)) < 2 ^ 64" by simp
  have "mc_inv 8 4 sys" using mc_inv_step[OF _ sys(1) d] assms(3) by (simp add: mp_chan_ok_def)
  then have "mp_chan_ok cs offset s'" using k assms(3) sys(2) by (simp add: mp_chan_ok_def)
  moreover have "mp_os_ok cs offset os0 s'" using assms(4) unfolding mp_os_ok_def sys(2-5) by simp
  ultimately show ?thesis using k by blast
qed

lemma open_keeps:
  assumes "mp_open cs t k s = Some s'" "mp_procs_ok cs s" "mp_chan_ok cs offset s" "mp_os_ok cs offset os0 s"
  shows "mp_procs_ok cs s' \<and> mp_chan_ok cs offset s' \<and> mp_os_ok cs offset os0 s'"
proof -
  obtain mc os1 where o: "shmem_open k MC_NAME (mp_os s) = (mc, os1)" by fastforce
  have g: "0 < t" "t \<le> length cs" "mp_mc s t = None" "t \<notin> mp_gone s" "kernel_ok k (mp_os s)"
    using assms(1) by (auto simp: mp_open_def split: if_splits)
  have s': "s' = (if mc = NULL
      then s\<lparr>mp_os := os1, mp_gone := insert t (mp_gone s), mp_crashed := insert t (mp_crashed s)\<rparr>
      else s\<lparr>mp_os := os1, mp_mc := (mp_mc s)(t \<mapsto> mc)\<rparr>)"
    using assms(1) g o by (simp add: mp_open_def mc_open_def)
  show ?thesis
  proof (cases "mc = NULL")
    case True
    have "shm_sizes os1 = shm_sizes (mp_os s)" "chans os1 = chans (mp_os s)"
      using o by (auto simp: shmem_open_def shmem_internal_map_def posix_defs Let_def split: option.splits if_splits prod.splits)
    then show ?thesis
      using assms(2-4) g shmem_open_null[OF g(5) o[unfolded True]]
      by (auto simp: s' True mp_procs_ok_def mp_chan_ok_def mp_os_ok_def)
  next
    case False
    have "chans os1 = chans (mp_os s)"
      using o by (auto simp: shmem_open_def shmem_internal_map_def posix_defs Let_def split: option.splits if_splits prod.splits)
    moreover obtain obj where obj: "shm_names (mp_os s) MC_NAME = Some obj" "mc = fresh_base k"
        "mappings os1 = (mappings (mp_os s))(mc \<mapsto> (obj, shm_sizes (mp_os s) obj))"
        "shm_names os1 = shm_names (mp_os s)" "open_fds os1 = open_fds (mp_os s)" "shm_sizes os1 = shm_sizes (mp_os s)"
      using shmem_open_base[OF g(5) o False] by blast
    have os: "mp_os_ok cs offset os0 s" by (rule assms(4))
    have served: "mp_mc s 0 \<noteq> None" "obj = mp_obj s"
      using obj(1) os by (auto simp: mp_os_ok_def split: if_splits)
    have "mc \<notin> dom (mappings (mp_os s))" using g(5) obj(2) by (simp add: kernel_ok_def)
    then have fresh: "mc \<notin> ran (mp_mc s)" "mc \<notin> dom (mappings os0)"
      using os by (auto simp: mp_os_ok_def split: if_splits)
    have "ran ((mp_mc s)(t \<mapsto> mc)) = insert mc (ran (mp_mc s))" using g(3) by simp
    moreover have "inj_on ((mp_mc s)(t \<mapsto> mc)) (insert t (dom (mp_mc s)))"
      using os fresh(1) g(3) by (auto simp: mp_os_ok_def inj_on_def ran_def dom_def split: if_splits)
    moreover have "mappings os1 = (\<lambda>p. if p \<in> insert mc (ran (mp_mc s)) then Some (mp_obj s, offset + 32) else mappings os0 p)"
      using os obj(3) served(2) by (auto simp: mp_os_ok_def)
    ultimately show ?thesis
      using assms(2,3) os g fresh obj(4-6) served False
      by (auto simp: s' mp_procs_ok_def mp_chan_ok_def mp_os_ok_def)
  qed
qed

lemma end_keeps:
  assumes "mp_end cs t s = Some r" "mp_procs_ok cs s" "mp_chan_ok cs offset s" "mp_os_ok cs offset os0 s"
  shows "\<exists>s'. r = Inr s' \<and> mp_procs_ok cs s' \<and> mp_chan_ok cs offset s' \<and> mp_os_ok cs offset os0 s'"
proof -
  obtain mc where mc: "mp_mc s t = Some mc" "procs (mp_sys s) ! t = Away"
      "if t = 0 then 0 \<in> set (mp_seen s) else snd (cs ! (t - 1)) \<le> mp_i s t"
    using assms(1) by (auto simp: mp_end_def split: option.splits if_splits)
  note os = assms(4)[unfolded mp_os_ok_def]
  have ran: "mc \<in> ran (mp_mc s)" using mc(1) by (auto simp: ran_def)
  then have at: "mappings (mp_os s) mc = Some (mp_obj s, offset + 32)" "mappings os0 mc = None"
    using os by auto
  let ?m = "(mp_mc s)(t := None)"
  have ran': "ran ?m = ran (mp_mc s) - {mc}"
    using os mc(1) by (auto simp: ran_def inj_on_def dom_def) (metis option.inject)
  have mp: "(mappings (mp_os s))(mc := None)
      = (\<lambda>p. if p \<in> ran ?m then Some (mp_obj s, offset + 32) else mappings os0 p)"
    using os at(2) unfolding ran' by auto
  have chan_mc: "channel_at (mp_os s) mc = Some (chan (mp_sys s))" using os at by (simp add: channel_at_def)
  define os1 where "os1 = (mp_os s)\<lparr>mappings := (mappings (mp_os s))(mc := None),
      shm_names := if t = 0 then (shm_names (mp_os s))(MC_NAME := None) else shm_names (mp_os s),
      destroyed_prims := if t = 0 then insert (mp_obj s) (destroyed_prims (mp_os s)) else destroyed_prims (mp_os s)\<rparr>"
  have os1: "(if t = 0 then mc_destroy else mc_close) mc (mp_os s) = Inr os1"
      "mappings os1 = (mappings (mp_os s))(mc := None)" "open_fds os1 = open_fds (mp_os s)"
      "shm_sizes os1 = shm_sizes (mp_os s)" "chans os1 = chans (mp_os s)"
      "shm_names os1 = (if t = 0 then (shm_names (mp_os s))(MC_NAME := None) else shm_names (mp_os s))"
    using assms(3) at(1) chan_mc
    by (simp_all add: os1_def mp_chan_ok_def mc_destroy_def mc_close_def shmem_destroy_def shmem_close_def
        munmap_def shm_unlink_def channel_at_def Let_def)
  have r: "r = Inr (s\<lparr>mp_os := os1, mp_mc := ?m, mp_gone := insert t (mp_gone s)\<rparr>)"
    using assms(1) mc os1(1) by (simp add: mp_end_def split: if_splits)
  have "inj_on ?m (dom ?m)" using os by (auto simp: inj_on_def dom_def split: if_splits)
  moreover have "shm_names os1 = (if ?m 0 = None then shm_names os0 else (shm_names os0)(MC_NAME \<mapsto> mp_obj s))"
    using os os1(6) mc(1) by (cases "t = 0") (simp_all add: fun_upd_idem)
  ultimately have "mp_os_ok cs offset os0 (s\<lparr>mp_os := os1, mp_mc := ?m, mp_gone := insert t (mp_gone s)\<rparr>)"
    unfolding mp_os_ok_def using os os1(2-5) mp ran' by auto
  moreover have "mp_procs_ok cs (s\<lparr>mp_os := os1, mp_mc := ?m, mp_gone := insert t (mp_gone s)\<rparr>)"
    using assms(2) mc by (auto simp: mp_procs_ok_def)
  moreover have "mp_chan_ok cs offset (s\<lparr>mp_os := os1, mp_mc := ?m, mp_gone := insert t (mp_gone s)\<rparr>)"
    using assms(3) by (simp add: mp_chan_ok_def)
  ultimately show ?thesis using r by blast
qed

lemma mp_run_keeps:
  assumes "mp_run cs es s = Some r" "mp_procs_ok cs s" "mp_chan_ok cs offset s" "mp_os_ok cs offset os0 s"
  shows "\<exists>s'. r = Inr s' \<and> mp_procs_ok cs s' \<and> mp_chan_ok cs offset s' \<and> mp_os_ok cs offset os0 s'"
  using assms
proof (induction es arbitrary: s)
  case (Cons e es)
  obtain r1 where r1: "mp_step cs e s = Some r1" using Cons.prems(1) by (auto split: option.splits)
  have "\<exists>s1. r1 = Inr s1 \<and> mp_procs_ok cs s1 \<and> mp_chan_ok cs offset s1 \<and> mp_os_ok cs offset os0 s1"
  proof (cases e)
    case (Opens t k)
    then show ?thesis using r1 open_keeps[OF _ Cons.prems(2-4)] by auto
  next
    case (Does f)
    then show ?thesis using r1 call_keeps[OF _ Cons.prems(2-4)] by auto
  next
    case (Ends t)
    then show ?thesis using r1 end_keeps[OF _ Cons.prems(2-4)] by auto
  qed
  then show ?case using Cons r1 by auto
qed auto

lemma all_args_int: "all_args argvs = Inr cs \<Longrightarrow> c \<in> set cs \<Longrightarrow> in_int (fst c)"
proof (induction argvs arbitrary: cs)
  case (Cons argv argvs)
  have "in_int v" if "cli_args argv = Inr (v, n)" for v n
    using that by (auto simp: cli_args_def atoi_def Let_def c_int_bounds split: if_splits)
  then show ?case using Cons by (cases c) auto
qed simp

lemma server_starts:
  assumes "kernel_ok k os0" "unat offset + 32 < 2 ^ 64" "fst (mc_create k offset MC_ELEMSIZE MC_CAPACITY MC_NAME os0) \<noteq> NULL"
  shows "\<exists>s. mp_server k offset (length cs) os0 = Inr s \<and> mp_procs_ok cs s \<and> mp_chan_ok cs offset s \<and> mp_os_ok cs offset os0 s"
proof -
  obtain mc os1 where c: "mc_create k offset MC_ELEMSIZE MC_CAPACITY MC_NAME os0 = (mc, os1)" "mc \<noteq> NULL"
    using assms(3) by (cases "mc_create k offset MC_ELEMSIZE MC_CAPACITY MC_NAME os0") auto
  note r = mc_create_result[OF assms(1) c]
  let ?ch = "init_channel offset 4 8 MC_NAME"
  have sz: "(offset :: size_t) + MC_ELEMSIZE * MC_CAPACITY = offset + 32" by (simp add: MC_ELEMSIZE_def MC_CAPACITY_def)
  have s: "mp_server k offset (length cs) os0 = Inr \<lparr>mp_os = os1, mp_obj = fresh_object k, mp_sys = mc_start (Suc (length cs)) ?ch,
      mp_mc = [0 \<mapsto> mc], mp_i = (\<lambda>_. 0), mp_seen = [], mp_gone = {}, mp_crashed = {}\<rparr>" (is "_ = Inr ?s")
    using c r by (simp add: mp_server_def MC_ELEMSIZE_def MC_CAPACITY_def)
  have inv: "mc_inv 8 4 (mc_start (Suc (length cs)) ?ch)"
    using mc_inv_start[of 8 offset 4 "Suc (length cs)" MC_NAME] assms(2) by (simp add: SEM_VALUE_MAX_def)
  have shape: "mc_total_size ?ch = offset + 32" "mc_name ?ch = MC_NAME"
    by (simp_all add: init_channel_def Let_def MC_NAME_def MEMCH_MAX_NAME_LEN_def)
  have away: "mc_start (Suc n) ch = \<lparr>chan = ch, procs = replicate (Suc n) Away, sent = [], received = [], fault = None\<rparr>" for n ch
    by (simp add: mc_start_def)
  have "mp_chan_ok cs offset ?s" using inv shape by (simp add: mp_chan_ok_def) (simp add: mc_start_def)
  moreover have "mp_os_ok cs offset os0 ?s"
    using r assms(1) unfolding sz
    by (auto simp: mp_os_ok_def mc_start_def kernel_ok_def MC_ELEMSIZE_def MC_CAPACITY_def)
  moreover have "mp_procs_ok cs ?s"
    by (auto simp: mp_procs_ok_def away server_ok_def client_ok_def all_puts_def put_count_def item_due_def nth_Cons'
        simp del: replicate.simps)
  ultimately show ?thesis using s by blast
qed

section \<open>What the programs do\<close>

text \<open>Everything the clients are asked to put.\<close>

definition wanted :: "(int \<times> int) list \<Rightarrow> int multiset" where
  "wanted cs = (\<Sum>t\<in>{1..length cs}. replicate_mset (nat (snd (cs ! (t - 1)))) (fst (cs ! (t - 1))))"

lemma puts_are_ints:
  assumes "\<forall>c\<in>set cs. in_int (fst c)"
  shows "image_mset int_of_bytes (all_puts cs f) = (\<Sum>t\<in>{1..length cs}. replicate_mset (f t) (fst (cs ! (t - 1))))"
proof -
  have "image_mset int_of_bytes (all_puts cs f)
      = (\<Sum>t\<in>{1..length cs}. (image_mset int_of_bytes \<circ> (\<lambda>t. replicate_mset (f t) (bytes_of_int (fst (cs ! (t - 1)))))) t)"
    unfolding all_puts_def by (rule sum_comp_morphism[symmetric]) simp_all
  also have "\<dots> = (\<Sum>t\<in>{1..length cs}. replicate_mset (f t) (fst (cs ! (t - 1))))"
  proof (rule sum.cong)
    fix t
    assume "t \<in> {1..length cs}"
    then have "in_int (fst (cs ! (t - 1)))" using assms nth_mem[of "t - 1" cs] by fastforce
    then show "(image_mset int_of_bytes \<circ> (\<lambda>t. replicate_mset (f t) (bytes_of_int (fst (cs ! (t - 1)))))) t
        = replicate_mset (f t) (fst (cs ! (t - 1)))" by (simp add: int_bytes_roundtrip)
  qed simp
  finally show ?thesis .
qed

lemma puts_wanted:
  assumes "\<forall>c\<in>set cs. in_int (fst c)" "\<forall>t. 0 < t \<and> t \<le> length cs \<longrightarrow> f t \<le> nat (snd (cs ! (t - 1)))"
  shows "image_mset int_of_bytes (all_puts cs f) \<subseteq># wanted cs"
proof -
  have "replicate_mset (nat (snd (cs ! (t - 1)))) x = replicate_mset (f t) x + replicate_mset (nat (snd (cs ! (t - 1))) - f t) x"
    if "t \<in> {1..length cs}" for t and x :: int
    using assms(2) that by (auto simp: multiset_eq_iff)
  then have "wanted cs = image_mset int_of_bytes (all_puts cs f)
      + (\<Sum>t\<in>{1..length cs}. replicate_mset (nat (snd (cs ! (t - 1))) - f t) (fst (cs ! (t - 1))))"
    unfolding wanted_def puts_are_ints[OF assms(1)] sum.distrib[symmetric] by (intro sum.cong refl)
  then show ?thesis by simp
qed

lemma seen_prefix:
  assumes "server_ok p seen recv"
  shows "seen = map int_of_bytes (take (length seen) recv)" "\<not> room_due p \<longrightarrow> length seen = length recv"
proof -
  show "\<not> room_due p \<longrightarrow> length seen = length recv" using assms by (simp add: server_ok_def)
  show "seen = map int_of_bytes (take (length seen) recv)"
  proof (cases "room_due p")
    case True
    then obtain x where "p = GetUnlock x \<or> p = GetPost x" by (cases p) auto
    then have "seen = map int_of_bytes (butlast recv)" using assms by (auto simp: server_ok_def)
    then show ?thesis by (simp add: butlast_conv_take)
  next
    case False
    then show ?thesis using assms by (simp add: server_ok_def)
  qed
qed

lemma nobody_calls:
  assumes "mp_procs_ok cs s" "mp_chan_ok cs offset s" "dom (mp_mc s) \<subseteq> {0..length cs}"
    and "\<forall>e. mp_call cs e s = None" "0 \<notin> set (mp_seen s)"
  shows "mp_mc s 0 \<noteq> None \<and> procs (mp_sys s) ! 0 = GetWait \<and> received (mp_sys s) = sent (mp_sys s)
    \<and> (\<forall>t. 0 < t \<and> t \<le> length cs \<and> mp_mc s t \<noteq> None \<longrightarrow> procs (mp_sys s) ! t = Away \<and> snd (cs ! (t - 1)) \<le> mp_i s t)"
proof -
  let ?ps = "procs (mp_sys s)"
  have inv: "mc_inv 8 4 (mp_sys s)" "length ?ps = Suc (length cs)" using assms(2) by (auto simp: mp_chan_ok_def)
  have es: "unat (mc_elem_size (chan (mp_sys s))) = 4" using inv(1) by (simp add: mc_inv_def mc_static_def)
  have away: "?ps ! t = Away" if "t \<le> length cs" "mp_mc s t = None" for t using assms(1) that by (simp add: mp_procs_ok_def)
  have quiet: "\<forall>t<length ?ps. mc_step (Step t) (mp_sys s) = None"
  proof (intro allI impI)
    fix t
    assume t: "t < length ?ps"
    have "mp_call cs (Step t) s = None" using assms(4) by blast
    moreover have "mc_step (Step t) (mp_sys s) = None" if "?ps ! t = Away"
      using that t by (simp add: pc_step_def)
    ultimately show "mc_step (Step t) (mp_sys s) = None"
      using away[of t] t inv(2) by (auto simp: mp_call_def Let_def simp del: mc_step.simps split: option.splits if_splits)
  qed
  have live: "mp_mc s 0 \<noteq> None" using assms(1,5) by (auto simp: mp_procs_ok_def)
  have "mp_call cs (BeginGet 0) s = None" using assms(4) by blast
  then have "?ps ! 0 \<noteq> Away" using live assms(5) inv(2) by (auto simp: mp_call_def Let_def)
  moreover have "\<not> putting (?ps ! 0)" using assms(1) by (simp add: mp_procs_ok_def server_ok_def)
  ultimately have main: "?ps ! 0 = GetWait" "received (mp_sys s) = sent (mp_sys s)"
    using stuck_process[OF inv(1) quiet, of 0] inv(2) by auto
  have "?ps ! t = Away \<and> snd (cs ! (t - 1)) \<le> mp_i s t" if t: "0 < t" "t \<le> length cs" "mp_mc s t \<noteq> None" for t
  proof -
    have "client_ok (cs ! (t - 1)) (?ps ! t) (mp_i s t)" using assms(1) t by (simp add: mp_procs_ok_def)
    then have aw: "?ps ! t = Away"
      using stuck_process[OF inv(1) quiet, of t] inv(2) t main by (auto simp: client_ok_def)
    have "mp_call cs (BeginPut t (bytes_of_int (fst (cs ! (t - 1))))) s = None" using assms(4) by blast
    moreover have "length (bytes_of_int (fst (cs ! (t - 1)))) = 4" by (simp add: bytes_of_int_def)
    ultimately show ?thesis using aw t inv(2) es by (auto simp: mp_call_def Let_def split: if_splits)
  qed
  then show ?thesis using live main by blast
qed

lemma mp_seen_prefix:
  assumes "mp_procs_ok cs s" "mp_chan_ok cs offset s"
  shows "mp_seen s = map int_of_bytes (take (length (mp_seen s)) (sent (mp_sys s)))"
proof -
  have srv: "server_ok (procs (mp_sys s) ! 0) (mp_seen s) (received (mp_sys s))" using assms(1) by (simp add: mp_procs_ok_def)
  have rec: "received (mp_sys s) = take (length (received (mp_sys s))) (sent (mp_sys s))"
    using assms(2) by (auto simp: mp_chan_ok_def mc_inv_defs)
  have "length (mp_seen s) \<le> length (received (mp_sys s))" using arg_cong[OF seen_prefix(1)[OF srv], of length] by simp
  then have "take (length (mp_seen s)) (received (mp_sys s)) = take (length (mp_seen s)) (sent (mp_sys s))"
    using arg_cong[OF rec, of "take (length (mp_seen s))"] by (simp add: min_def)
  then show ?thesis using seen_prefix(1)[OF srv] by simp
qed

lemma mp_sent_wanted:
  assumes "mp_procs_ok cs s" "\<forall>c\<in>set cs. in_int (fst c)"
  shows "image_mset int_of_bytes (mset (sent (mp_sys s))) \<subseteq># wanted cs"
proof -
  have "put_count (mp_i s) (procs (mp_sys s)) t \<le> nat (snd (cs ! (t - 1)))" if "0 < t" "t \<le> length cs" for t
    using assms(1) that by (force simp: mp_procs_ok_def put_count_def client_ok_def item_due_def split: if_splits)
  moreover have "mset (sent (mp_sys s)) = all_puts cs (put_count (mp_i s) (procs (mp_sys s)))"
    using assms(1) by (simp add: mp_procs_ok_def)
  ultimately show ?thesis using puts_wanted[OF assms(2)] by simp
qed

lemma mp_all_put:
  assumes "mp_procs_ok cs s" "mp_chan_ok cs offset s" "dom (mp_mc s) \<subseteq> {0..length cs}" "\<forall>c\<in>set cs. in_int (fst c)"
    and "\<forall>e. mp_call cs e s = None" "0 \<notin> set (mp_seen s)"
    and came: "\<forall>t. 0 < t \<and> t \<le> length cs \<longrightarrow> mp_mc s t \<noteq> None \<or> t \<in> mp_gone s - mp_crashed s"
  shows "mset (mp_seen s) = wanted cs"
proof -
  note n = nobody_calls[OF assms(1-3,5,6)]
  have "put_count (mp_i s) (procs (mp_sys s)) t = nat (snd (cs ! (t - 1)))" if t: "0 < t" "t \<le> length cs" for t
  proof -
    have "snd (cs ! (t - 1)) \<le> mp_i s t" "procs (mp_sys s) ! t = Away"
      using came t n assms(1) by (auto simp: mp_procs_ok_def)
    moreover have "mp_i s t \<le> max 0 (snd (cs ! (t - 1)))" using assms(1) t by (simp add: mp_procs_ok_def client_ok_def)
    ultimately show ?thesis by (simp add: put_count_def item_due_def)
  qed
  then have "all_puts cs (put_count (mp_i s) (procs (mp_sys s))) = all_puts cs (\<lambda>t. nat (snd (cs ! (t - 1))))"
    by (intro all_puts_cong) blast
  moreover have "mp_seen s = map int_of_bytes (sent (mp_sys s))"
    "mset (sent (mp_sys s)) = all_puts cs (put_count (mp_i s) (procs (mp_sys s)))"
    using n assms(1) by (auto simp: mp_procs_ok_def server_ok_def)
  ultimately show ?thesis using puts_are_ints[OF assms(4)] by (simp add: wanted_def)
qed

text \<open>C23: The test programs of the memory channel do what they are for, in every schedule of one server
  and any number of clients with any arguments: the server prints the values in the order in which
  they went into the channel, none altered and none after the first zero, and nobody puts more than
  its arguments say. When nobody can go on and there was no zero, the server has printed everything,
  and if all clients have come that is exactly what they were asked to put; so with a zero among
  that the server always ends. When all have ended, names, mappings and descriptors are as before.\<close>

theorem memchannel_test_delivers:
  assumes "kernel_ok k os0" "unat offset + 32 < 2 ^ 64" "fst (mc_create k offset MC_ELEMSIZE MC_CAPACITY MC_NAME os0) \<noteq> NULL"
    and "all_args argvs = Inr cs" "test_memchannel k offset argvs es os0 = Some r"
  shows "\<exists>s. r = Inr s \<and> fault (mp_sys s) = None
    \<and> mp_seen s = map int_of_bytes (take (length (mp_seen s)) (sent (mp_sys s))) \<and> 0 \<notin> set (butlast (mp_seen s))
    \<and> image_mset int_of_bytes (mset (sent (mp_sys s))) \<subseteq># wanted cs
    \<and> ((\<forall>e. mp_call cs e s = None) \<and> 0 \<notin> set (mp_seen s) \<longrightarrow> mp_seen s = map int_of_bytes (sent (mp_sys s))
        \<and> ((\<forall>t. 0 < t \<and> t \<le> length cs \<longrightarrow> mp_mc s t \<noteq> None \<or> t \<in> mp_gone s - mp_crashed s) \<longrightarrow> mset (mp_seen s) = wanted cs))
    \<and> (dom (mp_mc s) = {} \<longrightarrow> shm_names (mp_os s) = shm_names os0 \<and> mappings (mp_os s) = mappings os0
        \<and> open_fds (mp_os s) = open_fds os0)"
proof -
  obtain s0 where s0: "mp_server k offset (length cs) os0 = Inr s0" "mp_procs_ok cs s0" "mp_chan_ok cs offset s0" "mp_os_ok cs offset os0 s0"
    using server_starts[OF assms(1-3)] by blast
  have "mp_run cs es s0 = Some r" using assms(4,5) s0(1) by (simp add: test_memchannel_def)
  from mp_run_keeps[OF this s0(2-4)] obtain s where
    s: "r = Inr s" "mp_procs_ok cs s" "mp_chan_ok cs offset s" "mp_os_ok cs offset os0 s" by blast
  have int: "\<forall>c\<in>set cs. in_int (fst c)" using all_args_int[OF assms(4)] by blast
  have dom: "dom (mp_mc s) \<subseteq> {0..length cs}" using s(4) by (simp add: mp_os_ok_def)
  have "fault (mp_sys s) = None" "0 \<notin> set (butlast (mp_seen s))"
    using s(2,3) by (auto simp: mp_chan_ok_def mc_inv_defs mp_procs_ok_def server_ok_def)
  moreover have "mp_seen s = map int_of_bytes (sent (mp_sys s))"
    if "\<forall>e. mp_call cs e s = None" "0 \<notin> set (mp_seen s)"
    using nobody_calls[OF s(2,3) dom that] s(2) by (simp add: mp_procs_ok_def server_ok_def)
  moreover have "shm_names (mp_os s) = shm_names os0 \<and> mappings (mp_os s) = mappings os0 \<and> open_fds (mp_os s) = open_fds os0"
    if "dom (mp_mc s) = {}"
    using that s(4) by (simp add: mp_os_ok_def)
  ultimately show ?thesis
    using s(1) mp_seen_prefix[OF s(2,3)] mp_sent_wanted[OF s(2) int] mp_all_put[OF s(2,3) dom int] by blast
qed

definition test_schedule :: "mp_event list" where
  "test_schedule = [Does (BeginGet 0), Opens 1 (simple_kernel\<lparr>fresh_object := 8, fresh_base := 0x9000\<rparr>),
       Does (BeginPut 1 (bytes_of_int 0)),
       Does (Step 1), Does (Step 1), Does (Step 1), Does (Step 1), Does (Step 1),
       Does (Step 0), Does (Step 0), Does (Step 0), Does (Step 0), Does (Step 0), Ends 1, Ends 0]"

definition demo_server :: mc_program where
  "demo_server = \<lparr>mp_os = no_channels\<lparr>shm_names := [MC_NAME \<mapsto> 7], shm_sizes := (\<lambda>_. 0)(7 := 232),
        mappings := [0x7000 \<mapsto> (7, 232)], printed := [Mapped 232],
        chans := (chans no_channels)(7 := init_channel 200 4 8 MC_NAME)\<rparr>,
     mp_obj = 7, mp_sys = mc_start (Suc 1) (init_channel 200 4 8 MC_NAME), mp_mc = [0 \<mapsto> 0x7000],
     mp_i = (\<lambda>_. 0), mp_seen = [], mp_gone = {}, mp_crashed = {}\<rparr>"

lemma demo_created: "mp_server simple_kernel 200 1 no_channels = Inr demo_server"
  by (simp add: mp_server_def mc_create_def shmem_create_def shmem_internal_map_def posix_defs simple_kernel_def
      no_channels_def Let_def MC_ELEMSIZE_def MC_CAPACITY_def fun_upd_twist fun_upd_idem demo_server_def)

lemma demo_run:
  "case mp_run [(0, 1)] test_schedule demo_server of Some (Inr s) \<Rightarrow> mp_seen s = [0] \<and> dom (mp_mc s) = {} | _ \<Rightarrow> False"
proof -
  have name: "take (MEMCH_MAX_NAME_LEN - Suc 0) MC_NAME = MC_NAME" by (simp add: MEMCH_MAX_NAME_LEN_def MC_NAME_def)
  have zero: "bytes_of_int 0 = [0, 0, 0, 0]" by (simp add: bytes_of_int_eq)
  show ?thesis
    by (simp add: test_schedule_def demo_server_def mp_open_def mp_call_def mp_end_def mc_open_def mc_close_def
        mc_destroy_def channel_at_def Let_def shmem_open_def shmem_internal_map_def shmem_close_def shmem_destroy_def
        posix_defs simple_kernel_def no_channels_def kernel_ok_def mc_start_def init_channel_def posix_sem_init_def
        posix_sem_post_def SEM_VALUE_MAX_def pc_step_def note_copy_def mc_copy_in_def mc_copy_out_def zero name int_of_bytes_def)
qed

lemma memchannel_test_delivers_witness:
  "\<exists>s. test_memchannel simple_kernel 200 [[''cli'']] test_schedule no_channels = Some (Inr s) \<and> mp_seen s = [0]
    \<and> mappings (mp_os s) = Map.empty \<and> shm_names (mp_os s) = Map.empty"
proof -
  have args: "all_args [[''cli'']] = Inr [(0, 1)]" by (simp add: cli_args_def)
  have "test_memchannel simple_kernel 200 [[''cli'']] test_schedule no_channels = mp_run [(0, 1)] test_schedule demo_server"
    using demo_created by (simp add: test_memchannel_def args del: all_args.simps)
  then obtain s where s: "test_memchannel simple_kernel 200 [[''cli'']] test_schedule no_channels = Some (Inr s)"
      "mp_seen s = [0]" "dom (mp_mc s) = {}"
    using demo_run by (auto split: option.splits sum.splits)
  have "kernel_ok simple_kernel no_channels" by (simp add: kernel_ok_def simple_kernel_def no_channels_def)
  moreover have "fst (mc_create simple_kernel 200 MC_ELEMSIZE MC_CAPACITY MC_NAME no_channels) \<noteq> NULL"
    using demo_created by (auto simp: mp_server_def split: prod.splits if_splits)
  ultimately show ?thesis using memchannel_test_delivers[OF _ _ _ args s(1)] s by (auto simp: no_channels_def)
qed

end
