(* ===== verification/Small_Programs.thy ===== *)
theory Small_Programs
  imports Shmem Sockets
begin

text \<open>
  Small programs: the coroutines of 13, the mappings of 10, with the writer and the reader of a
  named shared memory object (\<open>ex04\<close>), and the signal handlers of 04.
\<close>

section \<open>The coroutines of 13\<close>

text \<open>A thread is the list of what it has left to do; \<open>context_switch\<close> leaves the rest of the
  current one for the next switch to it (theorem \<open>context_roundtrip\<close> of \<open>Ctxsw\<close>). A thread that
  comes to its end would return to what lies above its stack.\<close>

datatype move = Puts13 string | SwitchTo nat | Exit13 int

definition f1_13 :: "move list" where
  "f1_13 = [Puts13 ''T1: step 1'', SwitchTo 2, Puts13 ''T1: step 2'', SwitchTo 3, Puts13 ''T1: step 3'', SwitchTo 3]"

definition f2_13 :: "move list" where
  "f2_13 = [Puts13 ''T2: hello world'', SwitchTo 3]"

definition f3_13 :: "move list" where
  "f3_13 = [Puts13 ''T3: step 1'', SwitchTo 1, Puts13 ''T3: step 2'', SwitchTo 1, Puts13 ''T3: step 3'',
     Puts13 '':: END ::'', Exit13 0]"

definition main_13 :: "move list" where
  "main_13 = [Puts13 '':: START ::'', SwitchTo 1, Puts13 ''xx ERROR xx'', Exit13 1]"

fun run_13 :: "nat \<Rightarrow> nat \<Rightarrow> move list list \<Rightarrow> c_error + (string list \<times> int)" where
  "run_13 0 cur ths = Inl NoReturn"
| "run_13 (Suc fuel) cur ths =
     (case ths ! cur of
        [] \<Rightarrow> Inl InvalidAccess
      | Puts13 x # ms \<Rightarrow> and_then (run_13 fuel cur (ths[cur := ms])) (\<lambda>(out, code). Inr (x # out, code))
      | SwitchTo t # ms \<Rightarrow> if t < length ths then run_13 fuel t (ths[cur := ms]) else Inl InvalidAccess
      | Exit13 code # ms \<Rightarrow> Inr ([], code))"

text \<open>The threads run as their switches say, the last of them exits with 0, and the main thread is
  never resumed.\<close>

theorem demo_13_output:
  "run_13 30 0 [main_13, f1_13, f2_13, f3_13] =
    Inr (['':: START ::'', ''T1: step 1'', ''T2: hello world'', ''T3: step 1'', ''T1: step 2'', ''T3: step 2'',
      ''T1: step 3'', ''T3: step 3'', '':: END ::''], 0)"
  by code_simp

section \<open>Writer and reader of a shared memory object\<close>

record shm_system = os +
  shm_data :: "nat \<Rightarrow> byte list"

definition SHMEM_NAME :: string where "SHMEM_NAME = ''/isel.so.shm.example01''"
definition SHMEM_SIZE :: size_t where "SHMEM_SIZE = 4096"

text \<open>The 16 characters and the NUL.\<close>

definition ISEL_TEXT :: "byte list" where
  "ISEL_TEXT = [0x49, 0x53, 0x45, 0x4c, 0x20, 0x2d, 0x20, 0x4c, 0x45, 0x49, 0x43, 0x20, 0x2d, 0x20, 0x53, 0x4f, 0]"

text \<open>A new object reads as zeros; \<open>strcpy\<close> writes through the mapping, so into the object.\<close>

definition strcpy_to :: "ptr \<Rightarrow> byte list \<Rightarrow> shm_system \<Rightarrow> c_error + shm_system" where
  "strcpy_to base text_bytes s =
     (case mappings s base of
        None \<Rightarrow> Inl InvalidAccess
      | Some (obj, len) \<Rightarrow>
          if length text_bytes \<le> unat len
          then Inr (s\<lparr>shm_data := (shm_data s)(obj := text_bytes @ drop (length text_bytes) (shm_data s obj))\<rparr>)
          else Inl OutOfBounds)"

definition puts_from :: "ptr \<Rightarrow> shm_system \<Rightarrow> c_error + byte list" where
  "puts_from base s =
     (case mappings s base of
        None \<Rightarrow> Inl InvalidAccess
      | Some (obj, len) \<Rightarrow> Inr (cstr (shm_data s obj)))"

definition shm_writer :: "kernel \<Rightarrow> shm_system \<Rightarrow> c_error + (int \<times> shm_system)" where
  "shm_writer k s =
     (case shm_open_new k SHMEM_NAME s of
        (None, s1) \<Rightarrow> Inr (1, s1)
      | (Some fd, s1) \<Rightarrow>
          (case ftruncate k fd SHMEM_SIZE s1 of
             (False, s2) \<Rightarrow> Inr (2, shm_unlink SHMEM_NAME (close_fd fd s2))
           | (True, s2) \<Rightarrow>
               (case mmap k SHMEM_SIZE fd s2 of
                  (None, s3) \<Rightarrow> Inr (3, shm_unlink SHMEM_NAME (close_fd fd s3))
                | (Some base, s3) \<Rightarrow>
                    and_then (strcpy_to base ISEL_TEXT (close_fd fd s3)) (\<lambda>s4.
                      Inr (0, munmap base SHMEM_SIZE s4)))))"

definition shm_reader :: "kernel \<Rightarrow> shm_system \<Rightarrow> c_error + (int \<times> byte list \<times> shm_system)" where
  "shm_reader k s =
     (case shm_open_old k SHMEM_NAME s of
        (None, s1) \<Rightarrow> Inr (1, [], s1)
      | (Some fd, s1) \<Rightarrow>
          (case fstat k fd s1 of
             None \<Rightarrow> Inr (2, [], close_fd fd s1)
           | Some st_size \<Rightarrow>
               (case mmap k st_size fd s1 of
                  (None, s2) \<Rightarrow> Inr (2, [], close_fd fd s2)
                | (Some base, s2) \<Rightarrow>
                    (let s3 = close_fd fd s2 in
                     and_then (puts_from base s3) (\<lambda>x. Inr (0, x, munmap base st_size s3))))))"

lemma ISEL_TEXT_length: "length ISEL_TEXT = 17" by (simp add: ISEL_TEXT_def)

lemma ISEL_TEXT_cstr: "cstr (ISEL_TEXT @ xs) = cstr ISEL_TEXT" by (simp add: ISEL_TEXT_def cstr_def)

text \<open>After the writer of 10 has succeeded, a reader that succeeds prints the text it wrote; both
  leave no descriptor and no mapping. The object stays: a second writer fails with 1 and changes
  nothing.\<close>

theorem shm_writer_reader:
  assumes "kernel_ok k s" "shm_writer k s = Inr (0, s1)" "kernel_ok k2 s1" "shm_reader k2 s1 = Inr (0, x, s2)"
  shows "x = cstr ISEL_TEXT \<and> open_fds s2 = open_fds s \<and> mappings s2 = mappings s
    \<and> shm_names s2 = (shm_names s)(SHMEM_NAME \<mapsto> fresh_object k)
    \<and> shm_writer k3 s2 = Inr (1, s2)"
proof -
  have base: "(mappings s)(fresh_base k := None) = mappings s" "(open_fds s)(fresh_fd k := None) = open_fds s"
    by (rule fd_reset; use assms(1) in \<open>simp add: kernel_ok_def\<close>)+
  have w: "s1 = s\<lparr>shm_names := (shm_names s)(SHMEM_NAME \<mapsto> fresh_object k), shm_sizes := (shm_sizes s)(fresh_object k := SHMEM_SIZE),
      shm_data := (shm_data s)(fresh_object k := ISEL_TEXT @ drop (length ISEL_TEXT) (shm_data s (fresh_object k)))\<rparr>"
    using assms(2) base
    by (auto simp: shm_writer_def posix_defs strcpy_to_def SHMEM_SIZE_def split: if_splits)
  have base2: "(mappings s)(fresh_base k2 := None) = mappings s" "(open_fds s)(fresh_fd k2 := None) = open_fds s"
    by (rule fd_reset; use assms(3) w in \<open>simp add: kernel_ok_def\<close>)+
  have "x = cstr (ISEL_TEXT @ drop (length ISEL_TEXT) (shm_data s (fresh_object k))) \<and> s2 = s1"
    using assms(4) base2
    by (auto simp: shm_reader_def posix_defs puts_from_def w SHMEM_SIZE_def split: if_splits)
  then show ?thesis using w ISEL_TEXT_cstr by (simp add: shm_writer_def shm_open_new_def)
qed

definition shm_empty :: shm_system where
  "shm_empty = \<lparr>shm_names = Map.empty, shm_sizes = (\<lambda>_. 0), open_fds = Map.empty, mappings = Map.empty, printed = [],
     shm_data = (\<lambda>_. replicate 4096 0)\<rparr>"

lemma shm_writer_reader_witness:
  "\<exists>s1 s2. shm_writer good_kernel shm_empty = Inr (0, s1)
    \<and> shm_reader (good_kernel\<lparr>fresh_object := 8\<rparr>) s1 = Inr (0, butlast ISEL_TEXT, s2) \<and> mappings s2 = Map.empty"
proof -
  let ?k2 = "good_kernel\<lparr>fresh_object := 8\<rparr>"
  have k: "kernel_ok good_kernel shm_empty" by (simp add: kernel_ok_def good_kernel_def shm_empty_def)
  obtain s1 where w: "shm_writer good_kernel shm_empty = Inr (0, s1)" "kernel_ok ?k2 s1"
    "\<exists>x s2. shm_reader ?k2 s1 = Inr (0, x, s2)"
    by (auto simp: shm_writer_def shm_reader_def posix_defs strcpy_to_def puts_from_def SHMEM_SIZE_def ISEL_TEXT_def
        good_kernel_def shm_empty_def kernel_ok_def)
  then obtain x s2 where r: "shm_reader ?k2 s1 = Inr (0, x, s2)" by blast
  have "cstr ISEL_TEXT = butlast ISEL_TEXT" by (simp add: ISEL_TEXT_def cstr_def)
  then show ?thesis using shm_writer_reader[OF k w(1,2) r] w(1) r by (auto simp: shm_empty_def)
qed

section \<open>Mappings of one page\<close>

text \<open>A mapping of 4096 bytes: of a file, which it fills from the start (\<open>ex01\<close>), anonymous (\<open>ex02\<close>), and
  anonymous and shared with a child (\<open>ex03\<close>). None of them looks at the result of \<open>mmap\<close>.\<close>

definition PAGE :: nat where "PAGE = 4096"

definition puts_page :: "byte list \<Rightarrow> c_error + byte list" where
  "puts_page page = (if 0 \<in> set page then Inr (cstr page) else Inl OutOfBounds)"

text \<open>\<open>memcpy\<close> and \<open>strcpy\<close> to the start of the page.\<close>

definition copy_to_page :: "byte list \<Rightarrow> byte list \<Rightarrow> c_error + byte list" where
  "copy_to_page x page = (if length x \<le> length page then Inr (x @ drop (length x) page) else Inl OutOfBounds)"

text \<open>What is behind the end of the file in its last page reads as zero and is not written back; a
  page wholly behind it cannot be accessed.\<close>

definition file_page :: "byte list \<Rightarrow> byte list" where
  "file_page content = take PAGE (content @ replicate PAGE 0)"

definition written_back :: "byte list \<Rightarrow> byte list \<Rightarrow> byte list" where
  "written_back page content = take (length content) (page @ drop PAGE content)"

record ex01_result =
  ex01_code :: int
  ex01_puts :: "byte list list"
  ex01_files :: "string \<rightharpoonup> byte list"

definition ex01_main :: "bool \<Rightarrow> string list \<Rightarrow> (string \<Rightarrow> byte list) \<Rightarrow> (string \<rightharpoonup> byte list) \<Rightarrow> c_error + ex01_result" where
  "ex01_main mmap_ok argv bytes_of files =
     (if length argv < 2 then Inr \<lparr>ex01_code = 1, ex01_puts = [], ex01_files = files\<rparr>
      else (case files (argv ! 1) of
          None \<Rightarrow> Inr \<lparr>ex01_code = 2, ex01_puts = [], ex01_files = files\<rparr>
        | Some content \<Rightarrow>
            if \<not> mmap_ok \<or> content = [] then Inl InvalidAccess
            else
              and_then (puts_page (file_page content)) (\<lambda>out1.
              and_then (if length argv > 2 then copy_to_page (bytes_of (argv ! 2)) (file_page content)
                        else Inr (file_page content)) (\<lambda>page.
              and_then (puts_page page) (\<lambda>out2.
                Inr \<lparr>ex01_code = 0, ex01_puts = [out1, out2],
                     ex01_files = files(argv ! 1 \<mapsto> written_back page content)\<rparr>)))))"

lemma cstr_padded: "cstr (xs @ replicate n 0) = cstr xs"
proof (induction xs)
  case Nil
  show ?case by (cases n) (simp_all add: cstr_def)
qed (simp add: cstr_def)

text \<open>For a file shorter than the page the program prints its text before and after the bytes of
  the argument have been put over its beginning; the file gets these bytes as far as it reaches,
  and keeps its length.\<close>

theorem ex01_overlays:
  assumes "files name = Some content" "content \<noteq> []" "length content < PAGE" "length (bytes_of x) < PAGE"
  shows "\<exists>r. ex01_main True [prog, name, x] bytes_of files = Inr r \<and> ex01_code r = 0
    \<and> ex01_puts r = [cstr content, cstr (bytes_of x @ drop (length (bytes_of x)) content)]
    \<and> ex01_files r = files(name \<mapsto> take (length content) (bytes_of x @ drop (length (bytes_of x)) content))"
proof -
  let ?x = "bytes_of x"
  define k where "k = PAGE - length content"
  have k: "0 < k" "PAGE = length content + k" using assms(3) by (simp_all add: k_def)
  have p: "file_page content = content @ replicate k 0"
    unfolding file_page_def k(2) by (simp add: replicate_add[symmetric])
  define m where "m = k - (length ?x - length content)"
  have m: "0 < m" using assms(4) k by (simp add: m_def)
  have d: "drop (length ?x) (content @ replicate k 0) = drop (length ?x) content @ replicate m 0"
    by (simp add: m_def)
  have "copy_to_page ?x (file_page content) = Inr ((?x @ drop (length ?x) content) @ replicate m 0)"
    using assms(4) k(2) by (simp add: copy_to_page_def p m_def)
  moreover have "0 \<in> set (replicate k (0::byte))" "0 \<in> set (replicate m (0::byte))" using k(1) m by simp_all
  moreover have "written_back ((?x @ drop (length ?x) content) @ replicate m 0) content
      = take (length content) (?x @ drop (length ?x) content)"
    using k(2) by (simp add: written_back_def)
  ultimately show ?thesis
    using assms(1,2) by (simp add: ex01_main_def puts_page_def p cstr_padded del: append_assoc replicate_append_same)
qed

text \<open>\<open>ex02\<close> prints the text; \<open>ex03\<close> prints what the child has put into the shared page, after \<open>waitpid\<close>, and an
  empty line when \<open>fork\<close> fails.\<close>

definition ex02_main :: "bool \<Rightarrow> c_error + byte list" where
  "ex02_main mmap_ok =
     (if \<not> mmap_ok then Inl InvalidAccess
      else and_then (copy_to_page ISEL_TEXT (replicate PAGE 0)) puts_page)"

definition ex03_main :: "bool \<Rightarrow> bool \<Rightarrow> c_error + byte list" where
  "ex03_main mmap_ok fork_ok =
     (if fork_ok then
        (if \<not> mmap_ok then Inl InvalidAccess
         else and_then (copy_to_page ISEL_TEXT (replicate PAGE 0)) puts_page)
      else if \<not> mmap_ok then Inl InvalidAccess else puts_page (replicate PAGE 0))"

lemma page_text: "and_then (copy_to_page ISEL_TEXT (replicate PAGE 0)) puts_page = Inr (butlast ISEL_TEXT)"
proof -
  have z: "0 \<in> set ISEL_TEXT" "cstr ISEL_TEXT = butlast ISEL_TEXT" by (simp_all add: ISEL_TEXT_def cstr_def)
  show ?thesis using z ISEL_TEXT_cstr by (simp add: copy_to_page_def ISEL_TEXT_length PAGE_def puts_page_def)
qed

lemma ex02_ex03_print:
  "ex02_main True = Inr (butlast ISEL_TEXT)" "ex03_main True True = Inr (butlast ISEL_TEXT)" "ex03_main True False = Inr []"
  unfolding ex02_main_def ex03_main_def page_text by (simp_all add: puts_page_def PAGE_def cstr_def)

section \<open>Signals\<close>

text \<open>The main loop of \<open>signal.c\<close> sleeps until \<open>done\<close> is set; what wakes it is the end of the second
  or a signal, whose handler runs first.\<close>

datatype wakeup = SecondOver | SigAlarm | SigTerm | SigInt

definition onSigAlarm :: "bool \<times> string list \<Rightarrow> bool \<times> string list" where
  "onSigAlarm st = (True, snd st)"

definition onSigTerm :: "bool \<times> string list \<Rightarrow> bool \<times> string list" where
  "onSigTerm st = (fst st, snd st @ [''Cannot terminate.''])"

definition onSigInt :: "bool \<times> string list \<Rightarrow> bool \<times> string list" where
  "onSigInt st = (fst st, snd st @ [''Cannot be interrupted.''])"

fun signal_loop :: "wakeup list \<Rightarrow> bool \<times> string list \<Rightarrow> string list \<times> ending" where
  "signal_loop ws st =
     (if fst st then (snd st @ [''END''], Exits 0)
      else (case ws of
          [] \<Rightarrow> (snd st, Waiting)
        | w # ws1 \<Rightarrow> signal_loop ws1 (case w of
              SecondOver \<Rightarrow> st | SigAlarm \<Rightarrow> onSigAlarm st | SigTerm \<Rightarrow> onSigTerm st | SigInt \<Rightarrow> onSigInt st)))"

declare signal_loop.simps [simp del]

definition signal_main :: "wakeup list \<Rightarrow> string list \<times> ending" where
  "signal_main ws = signal_loop ws (False, [''Running...''])"

definition reply_to :: "wakeup \<Rightarrow> string list" where
  "reply_to w = (case w of SigTerm \<Rightarrow> [''Cannot terminate.''] | SigInt \<Rightarrow> [''Cannot be interrupted.''] | _ \<Rightarrow> [])"

lemma reply_to_simps [simp]:
  "reply_to SecondOver = []" "reply_to SigTerm = [''Cannot terminate.'']"
  "reply_to SigInt = [''Cannot be interrupted.'']"
  by (simp_all add: reply_to_def)

lemma signal_loop_spec:
  "signal_loop ws (False, out) =
    (out @ concat (map reply_to (takeWhile (\<lambda>w. w \<noteq> SigAlarm) ws)) @ (if SigAlarm \<in> set ws then [''END''] else []),
     if SigAlarm \<in> set ws then Exits 0 else Waiting)"
proof (induction ws arbitrary: out)
  case Nil
  show ?case by (subst signal_loop.simps) simp
next
  case (Cons w ws)
  show ?case
    by (subst signal_loop.simps, cases w)
       (simp_all add: Cons.IH onSigTerm_def onSigInt_def onSigAlarm_def signal_loop.simps[of ws "(True, out)"])
qed

text \<open>The program ends at the alarm and at nothing else: until then each SIGTERM and SIGINT gets its
  message.\<close>

theorem signal_main_ends_at_alarm:
  "signal_main ws =
    (''Running...'' # concat (map reply_to (takeWhile (\<lambda>w. w \<noteq> SigAlarm) ws)) @ (if SigAlarm \<in> set ws then [''END''] else []),
     if SigAlarm \<in> set ws then Exits 0 else Waiting)"
  by (simp add: signal_main_def signal_loop_spec)

end
