(* ===== verification/Test_Programs.thy ===== *)
theory Test_Programs
  imports List14_H Small_Programs Adder "HOL-Library.Multiset"
begin

text \<open>
  The small test programs: \<open>test_list.c\<close> of 14 walks over a list, \<open>test_chrono.c\<close> of 18 measures a
  \<open>sleep\<close>, \<open>test-libex.c\<close> of 12 loads a library, \<open>pthreads01.c\<close> of 16 prints addresses in two threads, and
  \<open>test_shmem_srv.c\<close>, \<open>test_shmem_cli.c\<close> and \<open>test_shmem_clean.c\<close> of 19 share an int.
\<close>

section \<open>test_list.c of 14\<close>

text \<open>The array \<open>nodes\<close> lies at \<open>base\<close>: 32 bytes each, with \<open>entry\<close> at offset 8.\<close>

definition node_at :: "ptr \<Rightarrow> nat \<Rightarrow> ptr" where "node_at base k = base + 32 * of_nat k"
definition OFF_MY_ENTRY :: ptr where "OFF_MY_ENTRY = 8"

definition node_ords :: "ptr \<Rightarrow> (ptr \<rightharpoonup> int)" where
  "node_ords base = map_of (map (\<lambda>k. (node_at base k, int k)) [0..<6])"

text \<open>The loop from \<open>list.flink\<close> to the list itself; \<open>fuel\<close> bounds it, because a list that is not
  circular need not come back.\<close>

fun walk_list :: "nat \<Rightarrow> ('p \<Rightarrow> 'a) \<Rightarrow> 'p fmem \<Rightarrow> 'p \<Rightarrow> 'p \<Rightarrow> c_error + 'a list" where
  "walk_list 0 visit h root pentry = Inl NoReturn"
| "walk_list (Suc fuel) visit h root pentry =
     (if pentry = root then Inr []
      else and_then (or_fail InvalidAccess (h pentry)) (\<lambda>e.
           and_then (walk_list fuel visit h root (flink e)) (\<lambda>xs. Inr (visit pentry # xs))))"

definition visit_node :: "(ptr \<rightharpoonup> int) \<Rightarrow> (ptr \<Rightarrow> int) \<Rightarrow> ptr \<Rightarrow> int option \<times> int" where
  "visit_node ords vals pentry = (let pnode = container_of pentry OFF_MY_ENTRY in (ords pnode, vals pnode))"

definition test_list :: "nat \<Rightarrow> ptr \<Rightarrow> ptr fmem \<Rightarrow> ptr \<Rightarrow> c_error + (bool \<times> (int option \<times> int) list)" where
  "test_list fuel base h0 root =
     (let entry = (\<lambda>k. node_at base k + OFF_MY_ENTRY);
          vals = (\<lambda>_. 0)(node_at base 3 := 79, node_at base 5 := 23, node_at base 2 := 47) in
      and_then (or_fail InvalidAccess (init_list_head_14 h0 root)) (\<lambda>h1.
      and_then (or_fail InvalidAccess (is_list_empty_14 h1 root)) (\<lambda>e.
      and_then (or_fail InvalidAccess (insert_head_list h1 root (entry 3))) (\<lambda>h2.
      and_then (or_fail InvalidAccess (insert_head_list h2 root (entry 5))) (\<lambda>h3.
      and_then (or_fail InvalidAccess (insert_head_list h3 root (entry 2))) (\<lambda>h4.
      and_then (or_fail InvalidAccess (h4 root)) (\<lambda>r.
      and_then (walk_list fuel (visit_node (node_ords base) vals) h4 root (flink r)) (\<lambda>out. Inr (e, out)))))))))"

text \<open>The loop visits every entry of a list once, in order.\<close>

lemma walk_list_from:
  assumes "flist h root (as @ bs)" "length bs < fuel"
  shows "walk_list fuel visit h root (first_or root bs) = Inr (map visit bs)"
  using assms
proof (induction bs arbitrary: as fuel)
  case Nil
  then show ?case by (cases fuel) simp_all
next
  case (Cons b bs)
  then obtain n where n: "fuel = Suc n" "length bs < n" by (cases fuel) auto
  have "b \<noteq> root" using flist_wf[OF Cons.prems(1)] by auto
  moreover obtain r where "h b = Some r" "flink r = first_or root bs" using flist_links[OF Cons.prems(1)] by blast
  moreover have "walk_list n visit h root (first_or root bs) = Inr (map visit bs)"
    using Cons.IH[of "as @ [b]" n] Cons.prems(1) n(2) by simp
  ultimately show ?case by (simp add: n(1))
qed

text \<open>\<open>test_list.c\<close> prints that the list is empty and then nodes 2, 5 and 3 with their values, wherever
  its variables lie.\<close>

theorem test_list_output:
  assumes "root \<in> dom h0" "\<forall>k\<in>{2, 3, 5}. node_at base k + OFF_MY_ENTRY \<in> dom h0 - {root}" "4 \<le> fuel"
  shows "test_list fuel base h0 root = Inr (True, [(Some 2, 47), (Some 5, 23), (Some 3, 79)])"
proof -
  let ?e = "\<lambda>k. node_at base k + OFF_MY_ENTRY"
  have ne: "node_at base 2 \<noteq> node_at base 5" "node_at base 2 \<noteq> node_at base 3" "node_at base 5 \<noteq> node_at base 3"
    by (simp_all add: node_at_def)
  obtain h1 where h1: "init_list_head_14 h0 root = Some h1" "flist h1 root []" "dom h1 = dom h0"
    using lf.init_law[OF assms(1)] by (auto simp: agree_off_def)
  obtain h2 where h2: "insert_head_list h1 root (?e 3) = Some h2" "flist h2 root [?e 3]" "dom h2 = dom h0"
    using insert_head_list_ok[OF h1(2), of "?e 3"] assms(2) h1(3) by (auto simp: agree_off_def)
  obtain h3 where h3: "insert_head_list h2 root (?e 5) = Some h3" "flist h3 root [?e 5, ?e 3]" "dom h3 = dom h0"
    using insert_head_list_ok[OF h2(2), of "?e 5"] assms(2) h2(3) ne by (auto simp: agree_off_def)
  obtain h4 where h4: "insert_head_list h3 root (?e 2) = Some h4" "flist h4 root [?e 2, ?e 5, ?e 3]"
    using insert_head_list_ok[OF h3(2), of "?e 2"] assms(2) h3(3) ne by auto
  obtain r where r: "h4 root = Some r" "flink r = ?e 2" using flist_head_links[OF h4(2)] by auto
  have "walk_list fuel v h4 root (?e 2) = Inr (map v [?e 2, ?e 5, ?e 3])" for v :: "ptr \<Rightarrow> int option \<times> int"
    using walk_list_from[of h4 root "[]" "[?e 2, ?e 5, ?e 3]" fuel v] h4(2) assms(3) by simp
  moreover have "node_ords base (node_at base k) = Some (int k)" if "k \<in> {2, 3, 5}" for k
    using that by (auto simp: node_ords_def node_at_def upt_rec)
  ultimately show ?thesis
    using h1(1) h2(1) h3(1) h4(1) r lf.is_empty_law[OF h1(2)] ne
    by (simp add: test_list_def Let_def visit_node_def)
qed

section \<open>test_chrono.c of 18\<close>

definition test_chrono :: "timespec \<Rightarrow> timespec \<Rightarrow> c_error + 64 word" where
  "test_chrono t0 t1 = (let start = chrono_start t0 in chrono_micros start t1)"

text \<open>It prints at least three million when the sleep lasted three seconds.\<close>

lemma test_chrono_prints:
  assumes "clock_ok t0 t1" "3000000000 \<le> ts_nanos t1 - ts_nanos t0"
  shows "\<exists>m. test_chrono t0 t1 = Inr m \<and> uint m = elapsed t0 t1 \<and> 3000000 \<le> uint m"
  using micros_exact[OF assms(1)] assms(2) by (auto simp: test_chrono_def elapsed_def)

section \<open>The library of 12\<close>

definition libex_get_data :: "int \<Rightarrow> int" where "libex_get_data cell = cell"
definition libex_set_data :: "int \<Rightarrow> int \<Rightarrow> int" where "libex_set_data cell val = val"

text \<open>\<open>test-libex.c\<close>: \<open>sprintf\<close> into 256 bytes, \<open>dlopen\<close>, and \<open>dlclose\<close> of what it returned.\<close>

definition libex_name :: "string list \<Rightarrow> c_error + string" where
  "libex_name argv =
     (let name = ''./libex-'' @ (if length argv > 1 then argv ! 1 else ''pic'') @ ''.so'' in
      if length name < 256 then Inr name else Inl OutOfBounds)"

definition test_libex :: "(string \<Rightarrow> ptr) \<Rightarrow> string list \<Rightarrow> c_error + string \<times> ptr" where
  "test_libex dlopen argv =
     and_then (libex_name argv) (\<lambda>name.
       (let libex = dlopen name in if libex = NULL then Inl InvalidAccess else Inr (name, libex)))"

lemma libex_set_get: "libex_get_data (libex_set_data cell val) = val"
  by (simp add: libex_get_data_def libex_set_data_def)

text \<open>An argument of 245 characters or more overflows the array; a library that cannot be loaded makes
  \<open>dlclose\<close> act on NULL.\<close>

lemma test_libex_faults:
  "test_libex dlopen argv = Inl OutOfBounds \<longleftrightarrow> length argv > 1 \<and> length (argv ! 1) \<ge> 245"
  "test_libex dlopen argv = Inl InvalidAccess \<longleftrightarrow> (\<exists>name. libex_name argv = Inr name \<and> dlopen name = NULL)"
  by (auto simp: test_libex_def libex_name_def Let_def)

section \<open>pthreads01.c of 16\<close>

datatype line_01 = Running | Addresses string ptr ptr

definition thread_func_01 :: "ptr \<Rightarrow> ptr \<Rightarrow> string \<Rightarrow> line_01 list" where
  "thread_func_01 addr_a addr_b name = map (\<lambda>i. Addresses name addr_a addr_b) [0..<8]"

text \<open>The lines of the two threads and of \<open>main\<close> in every order the scheduler may choose.\<close>

definition main_01 :: "ptr \<Rightarrow> ptr \<Rightarrow> ptr \<Rightarrow> line_01 list set" where
  "main_01 addr_a b1 b2 = (\<Union>xs\<in>shuffles (thread_func_01 addr_a b1 ''Thread 1'') (thread_func_01 addr_a b2 ''Thread 2'').
     shuffles xs [Running])"

text \<open>Every run prints eight lines for each thread, with the same address of \<open>a\<close> in all of them.\<close>

lemma main_01_lines:
  assumes "out \<in> main_01 addr_a b1 b2"
  shows "length out = 17 \<and> count_list out (Addresses ''Thread 1'' addr_a b1) = 8
    \<and> count_list out (Addresses ''Thread 2'' addr_a b2) = 8 \<and> count_list out Running = 1"
proof -
  obtain xs where xs: "xs \<in> shuffles (thread_func_01 addr_a b1 ''Thread 1'') (thread_func_01 addr_a b2 ''Thread 2'')"
    "out \<in> shuffles xs [Running]" using assms by (auto simp: main_01_def)
  have "mset out = mset (thread_func_01 addr_a b1 ''Thread 1'') + mset (thread_func_01 addr_a b2 ''Thread 2'') + {#Running#}"
    using mset_shuffles[OF xs(1)] mset_shuffles[OF xs(2)] by simp
  moreover have "thread_func_01 addr_a b n = replicate 8 (Addresses n addr_a b)" for b n
    by (simp add: thread_func_01_def map_replicate_const)
  ultimately have "mset out = replicate_mset 8 (Addresses ''Thread 1'' addr_a b1)
      + replicate_mset 8 (Addresses ''Thread 2'' addr_a b2) + {#Running#}" by simp
  then show ?thesis using arg_cong[of "mset out" _ size] by (simp flip: count_mset size_mset)
qed

section \<open>The shared int of 19\<close>

text \<open>\<open>shm_int\<close> has the \<open>int\<close> at the start of each object; a new object reads as zeros.\<close>

record shm_ints = os +
  shm_int :: "nat \<Rightarrow> int"

definition SHMEM_TEST_NAME :: string where "SHMEM_TEST_NAME = ''/isel.so.shmem.test''"
definition SHMEM_TEST_SIZE :: size_t where "SHMEM_TEST_SIZE = 4096"

definition int_at :: "ptr \<Rightarrow> shm_ints \<Rightarrow> c_error + int" where
  "int_at mem s = and_then (or_fail InvalidAccess (mappings s mem)) (\<lambda>(obj, len). Inr (shm_int s obj))"

definition set_int :: "ptr \<Rightarrow> int \<Rightarrow> shm_ints \<Rightarrow> c_error + shm_ints" where
  "set_int mem val s = and_then (or_fail InvalidAccess (mappings s mem)) (\<lambda>(obj, len).
     Inr (s\<lparr>shm_int := (shm_int s)(obj := val)\<rparr>))"

text \<open>A run of the client, with its exit status.\<close>

definition cli_value :: "string list \<Rightarrow> c_error + int" where
  "cli_value argv = (if length argv = 1 then Inr 0 else atoi (argv ! 1))"

definition shmem_test_cli :: "kernel \<Rightarrow> string list \<Rightarrow> shm_ints \<Rightarrow> c_error + (int \<times> shm_ints)" where
  "shmem_test_cli k argv s =
     (case shmem_open k SHMEM_TEST_NAME s of
        (mem, s1) \<Rightarrow>
          if mem = NULL then Inr (1, s1)
          else and_then (cli_value argv) (\<lambda>val.
               and_then (set_int mem val s1) (\<lambda>s2. Inr (0, shmem_close mem SHMEM_TEST_SIZE s2))))"

fun run_clis :: "(kernel \<times> string list) list \<Rightarrow> shm_ints \<Rightarrow> c_error + shm_ints" where
  "run_clis [] s = Inr s"
| "run_clis ((k, argv) # cs) s = and_then (shmem_test_cli k argv s) (\<lambda>(status, s1). run_clis cs s1)"

text \<open>The loop of the server: \<open>rounds\<close> has the clients that run before each ENTER. When it is used up
  the server still waits.\<close>

fun shmem_srv_loop :: "ptr \<Rightarrow> (kernel \<times> string list) list list \<Rightarrow> shm_ints \<Rightarrow> c_error + (int list \<times> shm_ints)" where
  "shmem_srv_loop mem [] s = Inr ([], s)"
| "shmem_srv_loop mem (cs # rounds) s =
     and_then (run_clis cs s) (\<lambda>s1.
     and_then (int_at mem s1) (\<lambda>val.
       if val = 0 then Inr ([val], s1)
       else and_then (shmem_srv_loop mem rounds s1) (\<lambda>(out, s2). Inr (val # out, s2))))"

definition shmem_test_srv :: "kernel \<Rightarrow> (kernel \<times> string list) list list \<Rightarrow> shm_ints \<Rightarrow> c_error + (int \<times> int list \<times> shm_ints)" where
  "shmem_test_srv k rounds s =
     (case shmem_create k SHMEM_TEST_NAME SHMEM_TEST_SIZE s of
        (mem, s1) \<Rightarrow>
          if mem = NULL then Inr (1, [], s1)
          else and_then (shmem_srv_loop mem rounds (s1\<lparr>shm_int := (shm_int s1)(fresh_object k := 0)\<rparr>)) (\<lambda>(out, s2).
            Inr (0, out, if 0 \<in> set out then shmem_destroy SHMEM_TEST_NAME mem SHMEM_TEST_SIZE s2 else s2)))"

definition shmem_test_clean :: "shm_ints \<Rightarrow> shm_ints" where
  "shmem_test_clean s = shm_unlink SHMEM_TEST_NAME s"

text \<open>What the server should print: at each ENTER the value of the last client so far.\<close>

fun last_values :: "int \<Rightarrow> int list list \<Rightarrow> int list" where
  "last_values v [] = []"
| "last_values v (vs # rounds) = (let w = last (v # vs) in w # (if w = 0 then [] else last_values w rounds))"

definition same_objects :: "shm_ints \<Rightarrow> shm_ints \<Rightarrow> bool" where
  "same_objects s s1 \<longleftrightarrow> shm_names s1 = shm_names s \<and> shm_sizes s1 = shm_sizes s \<and> open_fds s1 = open_fds s \<and> mappings s1 = mappings s"

definition good_cli :: "shm_ints \<Rightarrow> kernel \<times> string list \<Rightarrow> bool" where
  "good_cli s c \<longleftrightarrow> kernel_ok (fst c) s \<and> \<not> open_fails (fst c) \<and> \<not> fstat_fails (fst c) \<and> \<not> mmap_fails (fst c)
     \<and> (\<exists>v. cli_value (snd c) = Inr v)"

definition value_of :: "kernel \<times> string list \<Rightarrow> int" where
  "value_of c = (case cli_value (snd c) of Inl e \<Rightarrow> 0 | Inr v \<Rightarrow> v)"

lemma same_objects_trans: "same_objects s s1 \<Longrightarrow> same_objects s1 s2 \<Longrightarrow> same_objects s s2"
  by (simp add: same_objects_def)

lemma good_cli_same: "same_objects s s1 \<Longrightarrow> good_cli s c \<Longrightarrow> good_cli s1 c"
  by (simp add: same_objects_def good_cli_def kernel_ok_def)

lemma client_writes:
  assumes "good_cli s (k, argv)" "shm_names s SHMEM_TEST_NAME = Some obj" "shm_sizes s obj = SHMEM_TEST_SIZE"
  shows "\<exists>s1. shmem_test_cli k argv s = Inr (0, s1) \<and> same_objects s s1 \<and> shm_int s1 = (shm_int s)(obj := value_of (k, argv))"
proof -
  have fresh: "fresh_fd k \<notin> dom (open_fds s)" "fresh_base k \<notin> dom (mappings s)" "fresh_base k \<noteq> NULL"
    using assms(1) by (auto simp: good_cli_def kernel_ok_def)
  have "(open_fds s)(fresh_fd k := None) = open_fds s" "(mappings s)(fresh_base k := None) = mappings s"
    using fresh by auto
  then show ?thesis using assms fresh
    by (auto simp: shmem_test_cli_def shmem_open_def shmem_internal_map_def posix_defs Let_def good_cli_def value_of_def
        set_int_def shmem_close_def same_objects_def SHMEM_TEST_SIZE_def)
qed

lemma clients_write:
  assumes "\<forall>c\<in>set cs. good_cli s c" "shm_names s SHMEM_TEST_NAME = Some obj" "shm_sizes s obj = SHMEM_TEST_SIZE"
  shows "\<exists>s1. run_clis cs s = Inr s1 \<and> same_objects s s1 \<and> shm_int s1 obj = last (shm_int s obj # map value_of cs)"
  using assms
proof (induction cs arbitrary: s)
  case Nil
  then show ?case by (simp add: same_objects_def)
next
  case (Cons c cs)
  obtain k argv where c: "c = (k, argv)" by fastforce
  obtain s1 where s1: "shmem_test_cli k argv s = Inr (0, s1)" "same_objects s s1" "shm_int s1 = (shm_int s)(obj := value_of c)"
    using client_writes[of s k argv obj] Cons.prems c by auto
  have "\<forall>c\<in>set cs. good_cli s1 c" using good_cli_same[OF s1(2)] Cons.prems(1) by simp
  then obtain s2 where "run_clis cs s1 = Inr s2" "same_objects s1 s2" "shm_int s2 obj = last (shm_int s1 obj # map value_of cs)"
    using Cons.IH[of s1] Cons.prems(2,3) s1(2) by (auto simp: same_objects_def)
  then show ?case using s1 c same_objects_trans[OF s1(2)] by auto
qed

lemma loop_prints:
  assumes "\<forall>c\<in>set (concat rounds). good_cli s c" "shm_names s SHMEM_TEST_NAME = Some obj"
    and "shm_sizes s obj = SHMEM_TEST_SIZE" "mappings s mem = Some (obj, len)"
  shows "\<exists>s1. shmem_srv_loop mem rounds s = Inr (last_values (shm_int s obj) (map (map value_of) rounds), s1) \<and> same_objects s s1"
  using assms
proof (induction rounds arbitrary: s)
  case Nil
  then show ?case by (simp add: same_objects_def)
next
  case (Cons cs rounds)
  have "\<forall>c\<in>set cs. good_cli s c" using Cons.prems(1) by simp
  then obtain s1 where s1: "run_clis cs s = Inr s1" "same_objects s s1" "shm_int s1 obj = last (shm_int s obj # map value_of cs)"
    using clients_write[OF _ Cons.prems(2,3)] by blast
  have m: "int_at mem s1 = Inr (shm_int s1 obj)" using s1(2) Cons.prems(4) by (simp add: int_at_def same_objects_def)
  have "\<forall>c\<in>set (concat rounds). good_cli s1 c" using good_cli_same[OF s1(2)] Cons.prems(1) by simp
  then obtain s2 where "shmem_srv_loop mem rounds s1 = Inr (last_values (shm_int s1 obj) (map (map value_of) rounds), s2)"
      "same_objects s1 s2"
    using Cons.IH[of s1] Cons.prems(2-4) s1(2) by (auto simp: same_objects_def)
  then show ?case using s1 m same_objects_trans[OF s1(2)] by (auto simp: Let_def)
qed

text \<open>The server and the clients of 19 share one int: at each ENTER the server prints the value of the
  last client that ran, zero if there was none, and the first zero ends it; then names and mappings
  are as before. A server that did not get so far leaves the name, so that the next one fails until
  the cleaner has run.\<close>

theorem shmem_test_shares:
  assumes "kernel_ok k s" "shmem_create k SHMEM_TEST_NAME SHMEM_TEST_SIZE s = (mem, s1)" "mem \<noteq> NULL"
    and "\<forall>c\<in>set (concat rounds). good_cli s1 c"
  shows "\<exists>s2. shmem_test_srv k rounds s = Inr (0, last_values 0 (map (map value_of) rounds), s2)
    \<and> open_fds s2 = open_fds s
    \<and> (if 0 \<in> set (last_values 0 (map (map value_of) rounds)) then shm_names s2 = shm_names s \<and> mappings s2 = mappings s
       else fst (shmem_create k2 SHMEM_TEST_NAME SHMEM_TEST_SIZE s2) = NULL
         \<and> shm_names (shmem_test_clean s2) = shm_names s)"
proof -
  note c = shmem_create_base[OF assms(1-3)]
  let ?t = "s1\<lparr>shm_int := (shm_int s1)(fresh_object k := 0)\<rparr>"
  have g: "\<forall>c\<in>set (concat rounds). good_cli ?t c"
    using assms(4) by (simp add: good_cli_def kernel_ok_def)
  obtain s2 where s2: "shmem_srv_loop mem rounds ?t = Inr (last_values 0 (map (map value_of) rounds), s2)" "same_objects ?t s2"
    using loop_prints[OF g, of "fresh_object k" mem SHMEM_TEST_SIZE] c by auto
  have fresh: "(mappings s)(mem := None) = mappings s" "(shm_names s)(SHMEM_TEST_NAME := None) = shm_names s"
    using assms(1) c by (auto simp: kernel_ok_def)
  have ob: "shm_names s2 = (shm_names s)(SHMEM_TEST_NAME \<mapsto> fresh_object k)" "open_fds s2 = open_fds s"
    "mappings s2 = (mappings s)(mem \<mapsto> (fresh_object k, SHMEM_TEST_SIZE))"
    using s2(2) c by (simp_all add: same_objects_def)
  have "fst (shmem_create k2 SHMEM_TEST_NAME SHMEM_TEST_SIZE s2) = NULL"
    using ob(1) by (simp add: shmem_create_def shm_open_new_def)
  then show ?thesis using assms(2,3) s2(1) ob fresh
    by (auto simp: shmem_test_srv_def shmem_destroy_def munmap_def shm_unlink_def shmem_test_clean_def)
qed

definition no_ints :: shm_ints where
  "no_ints = \<lparr>shm_names = Map.empty, shm_sizes = (\<lambda>_. 0), open_fds = Map.empty, mappings = Map.empty, printed = [],
     shm_int = (\<lambda>_. 0)\<rparr>"

lemma shmem_test_shares_witness:
  "\<exists>s2. shmem_test_srv good_kernel [[(good_kernel\<lparr>fresh_object := 8, fresh_base := 0x9000\<rparr>, [''cli'', ''5''])], []] no_ints
    = Inr (0, [5, 5], s2) \<and> open_fds s2 = Map.empty"
proof -
  let ?c = "(good_kernel\<lparr>fresh_object := 8, fresh_base := 0x9000\<rparr>, [''cli'', ''5''])"
  have k: "kernel_ok good_kernel no_ints" by (simp add: kernel_ok_def good_kernel_def no_ints_def)
  obtain mem s1 where c: "shmem_create good_kernel SHMEM_TEST_NAME SHMEM_TEST_SIZE no_ints = (mem, s1)" by fastforce
  have m: "mem \<noteq> NULL"
    using c by (auto simp: shmem_create_def shmem_internal_map_def posix_defs good_kernel_def no_ints_def Let_def SHMEM_TEST_SIZE_def)
  have v: "cli_value [''cli'', ''5''] = Inr 5" by code_simp
  have "good_cli s1 ?c"
    using shmem_create_base[OF k c m] v by (auto simp: good_cli_def kernel_ok_def good_kernel_def no_ints_def)
  then show ?thesis
    using shmem_test_shares[OF k c m, of "[[?c], []]"] v by (auto simp: value_of_def no_ints_def Let_def)
qed

end
