(* ===== verification/Uds_Session.thy ===== *)
theory Uds_Session
  imports Echo_Threads
begin

text \<open>
  Client and server of 22 on a connection: two streams of bytes between the client of
  \<open>Echo_Client_Uds\<close> and the thread that the server of \<open>Echo_Servers\<close> starts for the connection. Each
  waits in its \<open>read\<close> until there is something to read or the other end is closed. As a \<open>read\<close> of a
  local stream socket does, the two take all that is there, up to their count, and a \<open>write\<close> takes the
  whole message.
\<close>

section \<open>The connection\<close>

record uds_net =
  un_client :: uds_client
  un_to_server :: "byte list"
  un_to_client :: "byte list"
  un_pending :: bool
  un_srv :: thread_server

text \<open>The server has not yet accepted the connection (\<open>un_pending\<close>) or has it open as \<open>sfd\<close>; when
  the server process ends all is closed. The client's end is open until the client has ended.\<close>

definition server_side_open :: "nat \<Rightarrow> uds_net \<Rightarrow> bool" where
  "server_side_open sfd s \<longleftrightarrow> ended (un_srv s) = Waiting \<and> (un_pending s \<or> sfd \<in> set (open_conns (un_srv s)))"

definition client_side_open :: "uds_net \<Rightarrow> bool" where
  "client_side_open s \<longleftrightarrow> (\<forall>e. uc_at (un_client s) \<noteq> HasLeft e)"

text \<open>The bytes written to a descriptor by the actions that \<open>after\<close> has and \<open>before\<close> has not.\<close>

definition newly_written :: "nat \<Rightarrow> act list \<Rightarrow> act list \<Rightarrow> byte list" where
  "newly_written fd before after = concat (writes_to fd (drop (length before) after))"

text \<open>The result of a \<open>write\<close> that takes the whole of what a round of the server writes.\<close>

definition whole_write :: "byte list \<Rightarrow> nat option" where
  "whole_write avail = Some (length (cstr (read_call avail)) + 1)"

datatype uds_event = ServerAccepts "byte list" | ClientWrites | ServerRound | ClientReads

text \<open>
  The client writes on \<open>cfd\<close>; a \<open>write\<close> to a connection that the server has closed fails. The
  server's thread goes through one round of \<open>process_connection\<close>. \<open>buf\<close> is what the stack of a new thread
  holds.
\<close>

fun uds_step :: "nat \<Rightarrow> string \<Rightarrow> nat \<Rightarrow> nat \<Rightarrow> uds_event \<Rightarrow> uds_net \<Rightarrow> uds_net option" where
  "uds_step main_fd path cfd sfd (ServerAccepts buf) s =
     (if un_pending s
      then map_option (\<lambda>v. s\<lparr>un_srv := v, un_pending := False\<rparr>)
             (server_step_22 main_fd path (NewConnection (Accepted sfd None 0) buf) (un_srv s))
      else None)"
| "uds_step main_fd path cfd sfd ClientWrites s =
     map_option (\<lambda>c. s\<lparr>un_client := c,
         un_to_server := un_to_server s @ newly_written cfd (uc_acts (un_client s)) (uc_acts c)\<rparr>)
       (client_writes cfd (server_side_open sfd s) (un_client s))"
| "uds_step main_fd path cfd sfd ServerRound s =
     (if un_to_server s = [] \<and> client_side_open s then None
      else map_option (\<lambda>v. s\<lparr>un_srv := v, un_to_server := drop BUFSIZE (un_to_server s),
          un_to_client := un_to_client s @ newly_written sfd (trace (un_srv s)) (trace v)\<rparr>)
        (server_step_22 main_fd path (Round sfd (Reads (un_to_server s) (whole_write (un_to_server s)))) (un_srv s)))"
| "uds_step main_fd path cfd sfd ClientReads s =
     (if un_to_client s = [] \<and> server_side_open sfd s then None
      else map_option (\<lambda>c. s\<lparr>un_client := c, un_to_client := drop LINE_LEN (un_to_client s)\<rparr>)
        (client_reads cfd (ReadData (un_to_client s)) (un_client s)))"

fun uds_run :: "nat \<Rightarrow> string \<Rightarrow> nat \<Rightarrow> nat \<Rightarrow> uds_event list \<Rightarrow> uds_net \<Rightarrow> uds_net option" where
  "uds_run main_fd path cfd sfd [] s = Some s"
| "uds_run main_fd path cfd sfd (e # es) s = Option.bind (uds_step main_fd path cfd sfd e s) (uds_run main_fd path cfd sfd es)"

text \<open>\<open>connect\<close> of the client succeeds when the server listens on the path. The client is then at the head of
  its loop, and its connection waits to be accepted.\<close>

definition connects :: "string list \<Rightarrow> thread_server \<Rightarrow> bool" where
  "connects argv srv \<longleftrightarrow>
     (case sun_path (argv ! 1) of
        Inl e \<Rightarrow> False
      | Inr path \<Rightarrow> ended srv = Waiting \<and> BoundPath path \<in> set (trace srv) \<and> Listening \<in> set (trace srv))"

definition uds_start :: "thread_server \<Rightarrow> string list \<Rightarrow> int \<Rightarrow> byte list \<Rightarrow> uds_net" where
  "uds_start srv argv cfd input =
     \<lparr>un_client = client_start_22 argv cfd (connects argv srv) input, un_to_server = [], un_to_client = [],
      un_pending = connects argv srv, un_srv = srv\<rparr>"

section \<open>Lines\<close>

definition quit4 :: "byte list" where "quit4 = [0x71, 0x75, 0x69, 0x74]"

text \<open>A line that the client takes whole: no NUL or newline inside, no carriage return at its end,
  short enough for one \<open>fgets\<close>, and no command.\<close>

definition whole_line :: "byte list \<Rightarrow> bool" where
  "whole_line t \<longleftrightarrow> length t < LINE_LEN - 1 \<and> 0 \<notin> set t \<and> 10 \<notin> set t \<and> (t \<noteq> [] \<longrightarrow> last t \<noteq> 13)"

definition plain_text :: "byte list \<Rightarrow> bool" where
  "plain_text t \<longleftrightarrow> whole_line t \<and> \<not> command (t @ [0])"

definition lines_of :: "byte list list \<Rightarrow> byte list" where
  "lines_of ts = concat (map (\<lambda>t. t @ [10]) ts)"

definition printed_texts :: "act list \<Rightarrow> byte list list" where
  "printed_texts as = concat (map (\<lambda>a. case a of Received n x \<Rightarrow> [x] | _ \<Rightarrow> []) as)"

lemma printed_simps [simp]:
  "printed_texts [] = []"
  "printed_texts (a # as) = (case a of Received n x \<Rightarrow> [x] | _ \<Rightarrow> []) @ printed_texts as"
  "printed_texts (as @ bs) = printed_texts as @ printed_texts bs"
  by (simp_all add: printed_texts_def)

lemma fgets_line: "length t < n \<Longrightarrow> 10 \<notin> set t \<Longrightarrow> fgets n (t @ 10 # rest) = (t @ [10], rest)"
proof (induction t arbitrary: n)
  case Nil
  then show ?case by (cases n) auto
next
  case (Cons b t)
  then show ?case by (cases n) auto
qed

lemma strip_line:
  assumes "0 \<notin> set t" "10 \<notin> set t" "t \<noteq> [] \<longrightarrow> last t \<noteq> 13"
  shows "strip_eol (cstr (t @ [10])) = t"
proof -
  have "cstr (t @ [10]) = t @ [10]" using assms(1) by (intro cstr_id) simp
  moreover have "dropWhile is_eol (rev t) = rev t"
  proof (cases t rule: rev_cases)
    case (snoc ys y)
    then show ?thesis using assms by (simp add: is_eol_def)
  qed simp
  ultimately show ?thesis by (simp add: strip_eol_def is_eol_def)
qed

lemma quit_whole: "whole_line quit4"
  by (simp add: whole_line_def quit4_def LINE_LEN_def)

lemma newly_written_append [simp]: "newly_written fd as (as @ bs) = concat (writes_to fd bs)"
  by (simp add: newly_written_def)

text \<open>The client takes one line of its input and sends it.\<close>

lemma client_sends_line:
  assumes "uc_at c = AtPrompt" "uc_input c = t @ 10 # rest" "whole_line t"
  shows "client_writes fd True c = Some (c\<lparr>uc_at := Awaiting, uc_input := rest, uc_acts := uc_acts c @ [Wrote fd (t @ [0])]\<rparr>)"
proof -
  have t: "length t < LINE_LEN - 1" "0 \<notin> set t" "10 \<notin> set t" "t \<noteq> [] \<longrightarrow> last t \<noteq> 13"
    using assms(3) by (simp_all add: whole_line_def)
  show ?thesis using assms(1,2) fgets_line[OF t(1,3), of rest] strip_line[OF t(2-4)]
    by (simp add: client_writes_def Let_def)
qed

lemma client_gets_line:
  assumes "uc_at c = Awaiting" "whole_line t"
  shows "client_reads fd (ReadData (t @ [0])) c
      = Some (c\<lparr>uc_at := AtPrompt, uc_acts := uc_acts c @ [Received (int (length t) + 1) t]\<rparr>)"
proof -
  have l: "length (t @ [0]) \<le> LINE_LEN" "0 \<notin> set t" using assms(2) by (simp_all add: whole_line_def LINE_LEN_def)
  have small: "unat (of_nat n :: 64 word) = n" if "n \<le> LINE_LEN" for n
    using that by (simp add: unsigned_of_nat take_bit_nat_eq_self LINE_LEN_def)
  have u: "unat (dlen_of (ReadData (t @ [0]))) = length t + 1" using small[OF l(1)] l(1) by simp
  then have n: "dlen_of (ReadData (t @ [0])) \<noteq> 0" by (metis Suc_eq_plus1 nat.distinct(1) unat_0)
  have "cstr (t @ [0]) = t" using l(2) by (simp add: cstr_id)
  then show ?thesis using assms(1) u n l(1) by (simp add: client_reads_def Let_def del: dlen_of.simps)
qed

section \<open>Phases of a session\<close>

text \<open>
  Line \<open>k\<close> of \<open>ts\<close> is to be sent, on its way to the server, or on its way back; or the server has closed
  the connection after the last one, the \<open>quit\<close>; or the client has ended too.
\<close>

datatype phase = ToSend nat | Sent nat | Answered nat | HungUp | Over

fun client_in :: "byte list list \<Rightarrow> phase \<Rightarrow> uds_client \<Rightarrow> bool" where
  "client_in ts (ToSend k) c \<longleftrightarrow> uc_at c = AtPrompt \<and> uc_input c = lines_of (drop k ts) \<and> printed_texts (uc_acts c) = take k ts"
| "client_in ts (Sent k) c \<longleftrightarrow> uc_at c = Awaiting \<and> uc_input c = lines_of (drop (Suc k) ts) \<and> printed_texts (uc_acts c) = take k ts"
| "client_in ts (Answered k) c \<longleftrightarrow> uc_at c = Awaiting \<and> uc_input c = lines_of (drop (Suc k) ts) \<and> printed_texts (uc_acts c) = take k ts"
| "client_in ts HungUp c \<longleftrightarrow> uc_at c = Awaiting \<and> printed_texts (uc_acts c) = butlast ts"
| "client_in ts Over c \<longleftrightarrow> uc_at c = HasLeft (Exits 0) \<and> printed_texts (uc_acts c) = butlast ts"

fun streams_in :: "byte list list \<Rightarrow> phase \<Rightarrow> uds_net \<Rightarrow> bool" where
  "streams_in ts (Sent k) s \<longleftrightarrow> un_to_server s = ts ! k @ [0] \<and> un_to_client s = [] \<and> k < length ts"
| "streams_in ts (Answered k) s \<longleftrightarrow> un_to_server s = [] \<and> un_to_client s = ts ! k @ [0] \<and> Suc k < length ts"
| "streams_in ts (ToSend k) s \<longleftrightarrow> un_to_server s = [] \<and> un_to_client s = [] \<and> k < length ts"
| "streams_in ts _ s \<longleftrightarrow> un_to_server s = [] \<and> un_to_client s = []"

text \<open>What the server has received, and its thread.\<close>

fun lines_received :: "byte list list \<Rightarrow> phase \<Rightarrow> byte list list" where
  "lines_received ts (ToSend k) = take k ts"
| "lines_received ts (Sent k) = take k ts"
| "lines_received ts (Answered k) = take (Suc k) ts"
| "lines_received ts _ = ts"

definition server_in :: "nat \<Rightarrow> byte list list \<Rightarrow> phase \<Rightarrow> uds_net \<Rightarrow> bool" where
  "server_in sfd ts ph s \<longleftrightarrow> ended (un_srv s) = Waiting \<and> printed_texts (trace (un_srv s)) = lines_received ts ph
     \<and> (if ph = HungUp \<or> ph = Over then \<not> un_pending s \<and> threads (un_srv s) = [] \<and> open_conns (un_srv s) = []
        else if un_pending s then threads (un_srv s) = [] \<and> open_conns (un_srv s) = []
        else (\<exists>b. length b = BUFSIZE \<and> threads (un_srv s) = [(sfd, b)]) \<and> open_conns (un_srv s) = [sfd])"

definition in_phase :: "nat \<Rightarrow> byte list list \<Rightarrow> phase \<Rightarrow> uds_net \<Rightarrow> bool" where
  "in_phase sfd ts ph s \<longleftrightarrow> client_in ts ph (un_client s) \<and> streams_in ts ph s \<and> server_in sfd ts ph s"

fun phase_work :: "nat \<Rightarrow> phase \<Rightarrow> nat" where
  "phase_work n (ToSend k) = 3 * (n - k)"
| "phase_work n (Sent k) = 3 * (n - k) - 1"
| "phase_work n (Answered k) = 3 * (n - k) - 2"
| "phase_work n HungUp = 1"
| "phase_work n Over = 0"

definition session_work :: "byte list list \<Rightarrow> phase \<Rightarrow> uds_net \<Rightarrow> nat" where
  "session_work ts ph s = phase_work (length ts) ph + (if un_pending s then 1 else 0)"

text \<open>The lines of a session: texts, and \<open>quit\<close>.\<close>

definition session_lines :: "byte list list \<Rightarrow> bool" where
  "session_lines ts \<longleftrightarrow> ts \<noteq> [] \<and> last ts = quit4 \<and> (\<forall>t\<in>set (butlast ts). plain_text t)"

lemma session_nth:
  assumes "session_lines ts" "k < length ts"
  shows "whole_line (ts ! k)" "Suc k = length ts \<Longrightarrow> ts ! k = quit4" "Suc k < length ts \<Longrightarrow> \<not> command (ts ! k @ [0])"
proof -
  have a: "Suc k = length ts \<Longrightarrow> ts ! k = quit4" using assms(1) by (metis diff_Suc_1 last_conv_nth session_lines_def)
  have b: "plain_text (ts ! k)" if "Suc k < length ts"
    using assms(1) that nth_mem[of k "butlast ts"] by (simp add: session_lines_def nth_butlast)
  show "whole_line (ts ! k)" "Suc k = length ts \<Longrightarrow> ts ! k = quit4" "Suc k < length ts \<Longrightarrow> \<not> command (ts ! k @ [0])"
    using a b assms(2) quit_whole by (auto simp: plain_text_def dest: Suc_lessI)
qed

section \<open>Steps from phase to phase\<close>

lemma lines_of_drop: "k < length ts \<Longrightarrow> lines_of (drop k ts) = ts ! k @ 10 # lines_of (drop (Suc k) ts)"
  by (simp add: lines_of_def Cons_nth_drop_Suc[symmetric])

lemma take_Suc_snoc: "k < length ts \<Longrightarrow> take (Suc k) ts = take k ts @ [ts ! k]"
  by (rule take_Suc_conv_app_nth)

lemma accepts_step:
  assumes i: "in_phase sfd ts ph s" and e: "uds_step m p cfd sfd (ServerAccepts buf) s = Some s'"
  shows "in_phase sfd ts ph s' \<and> session_work ts ph s' < session_work ts ph s"
proof -
  have pend: "un_pending s" using e by (simp split: if_splits)
  have sv: "ended (un_srv s) = Waiting" "threads (un_srv s) = []" "open_conns (un_srv s) = []" "ph \<noteq> HungUp" "ph \<noteq> Over"
      "printed_texts (trace (un_srv s)) = lines_received ts ph"
    using i pend by (auto simp: in_phase_def server_in_def split: if_splits)
  obtain v where v: "server_step_22 m p (NewConnection (Accepted sfd None 0) buf) (un_srv s) = Some v"
      "s' = s\<lparr>un_srv := v, un_pending := False\<rparr>" using e pend by auto
  have b: "length buf = BUFSIZE" "v = (un_srv s)\<lparr>trace := trace (un_srv s) @ [Connected], threads := [(sfd, buf)], open_conns := [sfd]\<rparr>"
    using v(1) sv(1-3) by (auto simp: server_step_22_def thread_accept_def split: if_splits)
  have "client_in ts ph (un_client s') \<and> streams_in ts ph s'"
    using i v(2) by (cases ph) (auto simp: in_phase_def)
  then show ?thesis using b sv v(2) pend by (simp add: in_phase_def server_in_def session_work_def)
qed

lemma writes_step:
  assumes ts: "session_lines ts" and i: "in_phase sfd ts ph s" and e: "uds_step m p cfd sfd ClientWrites s = Some s'"
  shows "\<exists>ph'. in_phase sfd ts ph' s' \<and> session_work ts ph' s' < session_work ts ph s"
proof -
  obtain k where k: "ph = ToSend k"
    using i e by (cases ph) (auto simp: in_phase_def client_writes_def)
  have st: "k < length ts" "un_to_server s = []" "un_to_client s = []"
      "uc_at (un_client s) = AtPrompt" "uc_input (un_client s) = lines_of (drop k ts)" "printed_texts (uc_acts (un_client s)) = take k ts"
    using i k by (auto simp: in_phase_def)
  have op: "server_side_open sfd s" using i k by (auto simp: in_phase_def server_in_def server_side_open_def split: if_splits)
  note w = client_sends_line[OF st(4) st(5)[unfolded lines_of_drop[OF st(1)]] session_nth(1)[OF ts st(1)], of cfd]
  have s': "s' = s\<lparr>un_client := (un_client s)\<lparr>uc_at := Awaiting, uc_input := lines_of (drop (Suc k) ts),
        uc_acts := uc_acts (un_client s) @ [Wrote cfd (ts ! k @ [0])]\<rparr>, un_to_server := ts ! k @ [0]\<rparr>"
    using e op w st(2) by simp
  have "in_phase sfd ts (Sent k) s'"
    using i st k by (simp add: s' in_phase_def server_in_def)
  moreover have "session_work ts (Sent k) s' < session_work ts ph s" using st(1) by (simp add: k s' session_work_def)
  ultimately show ?thesis by blast
qed

lemma cstr_line: "whole_line t \<Longrightarrow> cstr (t @ [0]) = t"
  by (simp add: whole_line_def cstr_id)

text \<open>A round of the server on a line.\<close>

lemma round_on_line:
  assumes "length b = BUFSIZE" "whole_line t"
  shows "conn_round_22 sfd b (Reads (t @ [0]) (whole_write (t @ [0]))) =
    (let a = [Received (int (length t) + 1) t] in
     if command_in quit_text (t @ [0]) then (a @ [Closed sfd], Leaves (stored b (t @ [0])))
     else (let c = a @ [Wrote sfd (t @ [0])] in
       if command_in stop_text (t @ [0]) then (c @ [Puts '':: EXIT ::''], Stops)
       else (c, Continues (stored b (t @ [0])))))"
proof -
  have l: "length (t @ [0]) < length b" "length (t @ [0]) < BUFSIZE"
    using assms by (simp_all add: whole_line_def LINE_LEN_def BUFSIZE_def)
  have "whole_write (t @ [0]) = Some (length (t @ [0]))" using l(2) cstr_line[OF assms(2)] by (simp add: whole_write_def)
  then show ?thesis using round_22[OF l, of sfd] cstr_line[OF assms(2)] by (simp add: full_def Let_def)
qed

lemma quit_in: "command_in quit_text (quit4 @ [0])"
  by (simp add: command_in_def quit_text_def quit4_def)

lemma round_step:
  assumes ts: "session_lines ts" and i: "in_phase sfd ts ph s" and e: "uds_step m p cfd sfd ServerRound s = Some s'"
  shows "\<exists>ph'. in_phase sfd ts ph' s' \<and> session_work ts ph' s' < session_work ts ph s"
proof -
  obtain k where k: "ph = Sent k"
    using i e by (cases ph) (auto simp: in_phase_def client_side_open_def server_in_def server_step_22_def
        thread_round_def thread_buf_def split: if_splits)
  have st: "k < length ts" "un_to_server s = ts ! k @ [0]" "un_to_client s = []"
      "uc_at (un_client s) = Awaiting" "uc_input (un_client s) = lines_of (drop (Suc k) ts)" "printed_texts (uc_acts (un_client s)) = take k ts"
    using i k by (auto simp: in_phase_def)
  have pend: "\<not> un_pending s"
    using i e k by (auto simp: in_phase_def server_in_def server_step_22_def thread_round_def thread_buf_def split: if_splits)
  then obtain b where sv: "length b = BUFSIZE" "threads (un_srv s) = [(sfd, b)]" "open_conns (un_srv s) = [sfd]"
      "ended (un_srv s) = Waiting" "printed_texts (trace (un_srv s)) = take k ts"
    using i k by (auto simp: in_phase_def server_in_def)
  note w = session_nth(1)[OF ts st(1)]
  have short: "drop BUFSIZE (ts ! k @ [0]) = []" by (rule drop_all) (use w in \<open>simp add: whole_line_def LINE_LEN_def BUFSIZE_def\<close>)
  have len: "length (stored b (ts ! k @ [0])) = BUFSIZE"
    using stored_length[of "ts ! k @ [0]" b] sv(1) w by (simp add: whole_line_def LINE_LEN_def BUFSIZE_def)
  note r = round_on_line[OF sv(1) w, of sfd]
  obtain v where v: "thread_round conn_round_22 sfd (Reads (ts ! k @ [0]) (whole_write (ts ! k @ [0]))) (un_srv s) = Some v"
      "s' = s\<lparr>un_srv := v, un_to_server := [], un_to_client := newly_written sfd (trace (un_srv s)) (trace v)\<rparr>"
    using e st(2,3) sv(4) short by (auto simp: server_step_22_def)
  show ?thesis
  proof (cases "Suc k = length ts")
    case True
    note q = session_nth(2)[OF ts st(1) True]
    have v1: "v = (un_srv s)\<lparr>trace := trace (un_srv s) @ [Received (int (length quit4) + 1) quit4, Closed sfd], threads := [], open_conns := []\<rparr>"
      using v(1) r sv(2,3) quit_in by (simp add: q thread_round_def thread_buf_def drop_thread_def)
    have all: "take k ts @ [quit4] = ts" using take_Suc_snoc[OF st(1)] q True by simp
    have "take k ts = butlast ts" using True by (metis butlast_conv_take diff_Suc_1)
    note all = all this
    have "in_phase sfd ts HungUp s'"
      using st sv pend all by (simp add: v(2) v1 in_phase_def server_in_def)
    moreover have "session_work ts HungUp s' < session_work ts ph s" using True[symmetric] pend by (simp add: k v(2) session_work_def)
    ultimately show ?thesis by blast
  next
    case False
    then have nl: "Suc k < length ts" using st(1) by simp
    note n = session_nth(3)[OF ts st(1) nl]
    have v1: "v = (un_srv s)\<lparr>trace := trace (un_srv s) @ [Received (int (length (ts ! k)) + 1) (ts ! k), Wrote sfd (ts ! k @ [0])],
        threads := [(sfd, stored b (ts ! k @ [0]))]\<rparr>"
      using v(1) r sv(2,3) n by (simp add: thread_round_def thread_buf_def set_buf_def command_def)
    have "in_phase sfd ts (Answered k) s'"
      using st sv pend nl len take_Suc_snoc[OF st(1)] by (simp add: v(2) v1 in_phase_def server_in_def)
    moreover have "session_work ts (Answered k) s' < session_work ts ph s" using st(1) nl by (simp add: k v(2) session_work_def)
    ultimately show ?thesis by blast
  qed
qed

lemma reads_step:
  assumes ts: "session_lines ts" and i: "in_phase sfd ts ph s" and e: "uds_step m p cfd sfd ClientReads s = Some s'"
  shows "\<exists>ph'. in_phase sfd ts ph' s' \<and> session_work ts ph' s' < session_work ts ph s"
proof (cases ph)
  case (Answered k)
  have st: "Suc k < length ts" "un_to_server s = []" "un_to_client s = ts ! k @ [0]"
      "uc_at (un_client s) = Awaiting" "uc_input (un_client s) = lines_of (drop (Suc k) ts)" "printed_texts (uc_acts (un_client s)) = take k ts"
    using i Answered by (auto simp: in_phase_def)
  have kl: "k < length ts" using st(1) by simp
  note w = session_nth(1)[OF ts kl]
  have short: "drop LINE_LEN (ts ! k @ [0]) = []" by (rule drop_all) (use w in \<open>simp add: whole_line_def LINE_LEN_def\<close>)
  have s': "s' = s\<lparr>un_client := (un_client s)\<lparr>uc_at := AtPrompt,
      uc_acts := uc_acts (un_client s) @ [Received (int (length (ts ! k)) + 1) (ts ! k)]\<rparr>, un_to_client := []\<rparr>"
    using e st(3) client_gets_line[OF st(4) w, of cfd] short by simp
  have "in_phase sfd ts (ToSend (Suc k)) s'"
    using i st Answered take_Suc_snoc[OF kl] by (simp add: s' in_phase_def server_in_def)
  moreover have "session_work ts (ToSend (Suc k)) s' < session_work ts ph s" using st(1) by (simp add: Answered s' session_work_def)
  ultimately show ?thesis by blast
next
  case HungUp
  have st: "un_to_server s = []" "un_to_client s = []" "uc_at (un_client s) = Awaiting" "printed_texts (uc_acts (un_client s)) = butlast ts"
    using i HungUp by (auto simp: in_phase_def)
  have s': "s' = s\<lparr>un_client := (un_client s)\<lparr>uc_at := HasLeft (Exits 0),
      uc_acts := uc_acts (un_client s) @ [Closed cfd, Closed cfd, Puts '':: END ::'']\<rparr>, un_to_client := []\<rparr>"
    using e st(2,3) by (auto simp: client_reads_def split: if_splits)
  have "in_phase sfd ts Over s'" using i st HungUp by (simp add: s' in_phase_def server_in_def)
  moreover have "session_work ts Over s' < session_work ts ph s" using i HungUp by (simp add: s' session_work_def)
  ultimately show ?thesis by blast
qed (use i e in \<open>auto simp: in_phase_def client_reads_def server_in_def server_side_open_def Let_def split: if_splits\<close>)

lemma session_step:
  assumes "session_lines ts" "in_phase sfd ts ph s" "uds_step m p cfd sfd e s = Some s'"
  shows "\<exists>ph'. in_phase sfd ts ph' s' \<and> session_work ts ph' s' < session_work ts ph s"
proof (cases e)
  case (ServerAccepts buf)
  then show ?thesis using accepts_step[OF assms(2)] assms(3) by blast
next
  case ClientWrites
  then show ?thesis using writes_step[OF assms(1,2)] assms(3) by blast
next
  case ServerRound
  then show ?thesis using round_step[OF assms(1,2)] assms(3) by blast
next
  case ClientReads
  then show ?thesis using reads_step[OF assms(1,2)] assms(3) by blast
qed

lemma session_run:
  assumes "session_lines ts" "in_phase sfd ts ph s" "uds_run m p cfd sfd es s = Some s'"
  shows "\<exists>ph'. in_phase sfd ts ph' s' \<and> length es + session_work ts ph' s' \<le> session_work ts ph s"
  using assms(2,3)
proof (induction es arbitrary: ph s)
  case (Cons e es)
  then obtain s1 where s1: "uds_step m p cfd sfd e s = Some s1" "uds_run m p cfd sfd es s1 = Some s'" by (auto split: bind_splits)
  from session_step[OF assms(1) Cons.prems(1) s1(1)] obtain ph1 where
    p1: "in_phase sfd ts ph1 s1" "session_work ts ph1 s1 < session_work ts ph s" by blast
  from Cons.IH[OF p1(1) s1(2)] p1(2) show ?case by fastforce
qed auto

text \<open>Where nobody can go on the session is over.\<close>

lemma session_stuck:
  assumes "session_lines ts" "in_phase sfd ts ph s" "\<forall>e. uds_step m p cfd sfd e s = None"
  shows "ph = Over"
proof (cases ph)
  case (ToSend k)
  have st: "k < length ts" "uc_at (un_client s) = AtPrompt" "uc_input (un_client s) = lines_of (drop k ts)"
    using assms(2) ToSend by (auto simp: in_phase_def)
  have op: "server_side_open sfd s" using assms(2) ToSend by (auto simp: in_phase_def server_in_def server_side_open_def split: if_splits)
  show ?thesis using client_sends_line[OF st(2) st(3)[unfolded lines_of_drop[OF st(1)]] session_nth(1)[OF assms(1) st(1)], of cfd]
      spec[OF assms(3), of ClientWrites] op by simp
next
  case (Sent k)
  have st: "un_to_server s \<noteq> []" "ended (un_srv s) = Waiting" using assms(2) Sent by (auto simp: in_phase_def server_in_def)
  show ?thesis
  proof (cases "un_pending s")
    case True
    then have "open_conns (un_srv s) = []" using assms(2) Sent by (auto simp: in_phase_def server_in_def)
    then show ?thesis using spec[OF assms(3), of "ServerAccepts blank"] True st(2)
      by (simp add: server_step_22_def thread_accept_def)
  next
    case False
    then obtain b where "threads (un_srv s) = [(sfd, b)]" using assms(2) Sent by (auto simp: in_phase_def server_in_def)
    then show ?thesis using spec[OF assms(3), of ServerRound] st
      by (simp add: server_step_22_def thread_round_def thread_buf_def Let_def split: prod.splits)
  qed
next
  case (Answered k)
  then show ?thesis using assms(2) spec[OF assms(3), of ClientReads] by (auto simp: in_phase_def client_reads_def Let_def split: if_splits)
next
  case HungUp
  then show ?thesis using assms(2) spec[OF assms(3), of ClientReads]
    by (auto simp: in_phase_def server_in_def server_side_open_def client_reads_def)
qed simp

lemma session_goes_on:
  "session_lines ts \<Longrightarrow> in_phase sfd ts ph s \<Longrightarrow>
    \<exists>es s'. uds_run m p cfd sfd es s = Some s' \<and> (\<forall>e. uds_step m p cfd sfd e s' = None)"
proof (induction "session_work ts ph s" arbitrary: ph s rule: less_induct)
  case less
  show ?case
  proof (cases "\<forall>e. uds_step m p cfd sfd e s = None")
    case True
    then show ?thesis by (intro exI[of _ "[]"]) simp
  next
    case False
    then obtain e s1 where s1: "uds_step m p cfd sfd e s = Some s1" by auto
    from session_step[OF less.prems this] obtain ph1 where
      p1: "in_phase sfd ts ph1 s1" "session_work ts ph1 s1 < session_work ts ph s" by blast
    from less.hyps[OF p1(2) less.prems(1) p1(1)] obtain es s' where
      "uds_run m p cfd sfd es s1 = Some s'" "\<forall>e. uds_step m p cfd sfd e s' = None" by blast
    then show ?thesis using s1 by (intro exI[of _ "e # es"]) auto
  qed
qed

lemma session_start:
  assumes "length sargv = 2" "sun_path (sargv ! 1) = Inr path" "0 \<le> socket_returns env" "0 \<le> bind_returns env"
    and "0 \<le> listen_returns env" "server_22 sargv env [] = Some srv" "length cargv = 2" "cargv ! 1 = sargv ! 1" "0 \<le> cfd"
    and "ts \<noteq> []"
  shows "in_phase sfd ts (ToSend 0) (uds_start srv cargv cfd (lines_of ts))"
    "session_work ts (ToSend 0) (uds_start srv cargv cfd (lines_of ts)) = 3 * length ts + 1"
proof -
  have srv: "srv = \<lparr>threads = [], open_conns = [], trace = [Puts '':: START ::'', Unlinked path, BoundPath path, Listening,
      Puts '':: LISTENING ::''], ended = Waiting\<rparr>"
    using assms(1-6) by (simp add: server_22_def Let_def)
  have c: "connects cargv srv" using assms(2,8) by (simp add: connects_def srv)
  show "in_phase sfd ts (ToSend 0) (uds_start srv cargv cfd (lines_of ts))"
    using assms(2,7-10) c by (simp add: in_phase_def server_in_def uds_start_def client_start_22_def) (simp add: srv)
  show "session_work ts (ToSend 0) (uds_start srv cargv cfd (lines_of ts)) = 3 * length ts + 1"
    using c by (simp add: session_work_def uds_start_def)
qed

section \<open>The session\<close>

text \<open>C14: A session of the client and the server of 22 on one connection, with every order of their steps, each
  waiting in \<open>read\<close> until there is something to read: the input of the client is lines of at most 254
  characters, without NUL inside or carriage return at the end, that are no commands, and then
  \<open>quit\<close>. At any time the client has printed the first of these lines, in order; no run is longer
  than three steps a line and four more; and where neither can go on, the client has printed all lines and
  exited with 0, the server has received them and \<open>quit\<close>, its thread has closed the connection and
  ended, and the server process goes on waiting for connections.\<close>

theorem uds_session_echoes:
  assumes "length sargv = 2" "sun_path (sargv ! 1) = Inr path" "0 \<le> socket_returns env" "0 \<le> bind_returns env"
    and "0 \<le> listen_returns env" "server_22 sargv env [] = Some srv" "length cargv = 2" "cargv ! 1 = sargv ! 1" "0 \<le> cfd"
    and "\<forall>t\<in>set texts. plain_text t"
    and "uds_run main_fd path (nat cfd) sfd es (uds_start srv cargv cfd (lines_of (texts @ [quit4]))) = Some s"
  shows "(\<exists>n. printed_texts (uc_acts (un_client s)) = take n texts)
    \<and> length es \<le> 3 * length texts + 4
    \<and> ((\<forall>e. uds_step main_fd path (nat cfd) sfd e s = None) \<longrightarrow>
        printed_texts (uc_acts (un_client s)) = texts \<and> uc_at (un_client s) = HasLeft (Exits 0)
        \<and> printed_texts (trace (un_srv s)) = texts @ [quit4]
        \<and> threads (un_srv s) = [] \<and> open_conns (un_srv s) = [] \<and> ended (un_srv s) = Waiting)"
proof -
  let ?ts = "texts @ [quit4]"
  have ts: "session_lines ?ts" using assms(10) by (simp add: session_lines_def)
  have ne: "?ts \<noteq> []" by simp
  note start = session_start[OF assms(1-9) ne]
  from session_run[OF ts start(1) assms(11)] obtain ph where
    ph: "in_phase sfd ?ts ph s" "length es + session_work ?ts ph s \<le> 3 * length texts + 4" unfolding start(2) by auto
  have pre: "\<exists>n. printed_texts (uc_acts (un_client s)) = take n texts"
  proof (cases ph)
    case (ToSend k)
    then show ?thesis using ph(1) by (intro exI[of _ k]) (simp add: in_phase_def)
  next
    case (Sent k)
    then show ?thesis using ph(1) by (intro exI[of _ k]) (simp add: in_phase_def)
  next
    case (Answered k)
    then show ?thesis using ph(1) by (intro exI[of _ k]) (simp add: in_phase_def)
  qed (use ph(1) in \<open>auto simp: in_phase_def intro: exI[of _ "length texts"]\<close>)
  have "printed_texts (uc_acts (un_client s)) = texts \<and> uc_at (un_client s) = HasLeft (Exits 0)
      \<and> printed_texts (trace (un_srv s)) = texts @ [quit4]
      \<and> threads (un_srv s) = [] \<and> open_conns (un_srv s) = [] \<and> ended (un_srv s) = Waiting"
    if "\<forall>e. uds_step main_fd path (nat cfd) sfd e s = None"
    using session_stuck[OF ts ph(1) that] ph(1) by (simp add: in_phase_def server_in_def)
  then show ?thesis using pre ph(2) by simp
qed

lemma uds_session_echoes_witness:
  "\<exists>srv es s. server_22 [''server'', ''echo''] good_net [] = Some srv
    \<and> uds_run 3 ''/tmp/echo'' 5 4 es (uds_start srv [''client'', ''echo''] 5 (lines_of ([[0x68, 0x69], []] @ [quit4]))) = Some s
    \<and> uc_at (un_client s) = HasLeft (Exits 0) \<and> printed_texts (uc_acts (un_client s)) = [[0x68, 0x69], []]
    \<and> open_conns (un_srv s) = [] \<and> length es \<le> 10"
proof -
  let ?ts = "[[0x68, 0x69], []] @ [quit4]"
  have path: "sun_path ([''server'', ''echo''] ! 1) = Inr ''/tmp/echo''" by (simp add: sun_path_def SUN_PATH_LEN_def)
  have env: "0 \<le> socket_returns good_net" "0 \<le> bind_returns good_net" "0 \<le> listen_returns good_net" by (simp_all add: good_net_def)
  have two: "length [''server'', ''echo''] = 2" "length [''client'', ''echo''] = 2" "[''client'', ''echo''] ! 1 = [''server'', ''echo''] ! 1" "(0::int) \<le> 5"
    by simp_all
  obtain srv where srv: "server_22 [''server'', ''echo''] good_net [] = Some srv"
    using two(1) path env by (simp add: server_22_def Let_def)
  have plain: "\<forall>t\<in>set [[0x68, 0x69], []]. plain_text t"
    by (simp add: plain_text_def whole_line_def LINE_LEN_def command_def command_in_def)
  then have ts: "session_lines ?ts" by (simp add: session_lines_def)
  obtain es s where s: "uds_run 3 ''/tmp/echo'' 5 4 es (uds_start srv [''client'', ''echo''] 5 (lines_of ?ts)) = Some s"
      "\<forall>e. uds_step 3 ''/tmp/echo'' 5 4 e s = None"
    using session_goes_on[OF ts session_start(1)[OF two(1) path env srv two(2-4)]] by blast
  have s5: "uds_run 3 ''/tmp/echo'' (nat 5) 4 es (uds_start srv [''client'', ''echo''] 5 (lines_of ?ts)) = Some s" using s(1) by simp
  from uds_session_echoes[OF two(1) path env srv two(2-4) plain s5] s srv show ?thesis by auto
qed

end
