(* ===== verification/Echo_Overflow.thy ===== *)
theory Echo_Overflow
  imports Echo_Threads
begin

text \<open>
  What the fixed-size buffers of the echo servers of 20 and 22 do not take: the terminator that is
  stored behind what a read has filled the buffer with.
\<close>

section \<open>A round\<close>

lemma receive_breaks:
  "length buf = BUFSIZE \<Longrightarrow> receive buf (read_call data) = Inl e \<longleftrightarrow> e = OutOfBounds \<and> BUFSIZE \<le> length data"
  by (auto simp: receive_def read_call_def)

lemma round_breaks:
  assumes "length buf = BUFSIZE" "rnd \<in> {conn_round_01, conn_round_02, conn_round_03, conn_round_22}"
  shows "snd (rnd fd buf (Reads data w)) = Breaks e \<longleftrightarrow> e = OutOfBounds \<and> BUFSIZE \<le> length data"
proof (cases "receive buf (read_call data)")
  case (Inl e')
  then show ?thesis using assms(2) receive_breaks[OF assms(1), of data e] receive_breaks[OF assms(1), of data e']
    by (auto simp: conn_round_01_def conn_round_02_def conn_round_03_def conn_round_22_def Let_def)
next
  case (Inr buf1)
  then have "\<not> BUFSIZE \<le> length data" using receive_breaks[OF assms(1), of data OutOfBounds] by simp
  then show ?thesis using Inr assms(2)
    by (auto simp: conn_round_01_def conn_round_02_def conn_round_03_def conn_round_22_def Let_def split: option.splits if_splits)
qed

section \<open>One connection at a time\<close>

lemma round_01_length: "snd (conn_round_01 fd buf call) \<in> {Continues b, Leaves b} \<Longrightarrow> length b = length buf"
  by (auto simp: conn_round_01_def Let_def dest: receive_length split: io.splits sum.splits option.splits if_splits)

lemma session_01_length: "snd (session_01 fd buf calls) \<in> {Continues b, Leaves b} \<Longrightarrow> length b = length buf"
proof (induction calls arbitrary: buf)
  case (Cons call calls)
  obtain as r where r: "conn_round_01 fd buf call = (as, r)" by fastforce
  show ?case
  proof (cases "\<exists>b1. r = Continues b1")
    case True
    then obtain b1 where b1: "r = Continues b1" by blast
    then have "snd (session_01 fd b1 calls) \<in> {Continues b, Leaves b}" using Cons.prems r by (simp split: prod.splits)
    then show ?thesis using Cons.IH[of b1] round_01_length[of fd buf call b1] r b1 by simp
  next
    case False
    then have "session_01 fd buf (call # calls) = (as, r)" using r by (cases r) auto
    then show ?thesis using Cons.prems round_01_length[of fd buf call b] r by simp
  qed
qed simp

lemma session_01_snoc:
  "session_01 fd buf calls = (as, Continues b) \<Longrightarrow>
    session_01 fd buf (calls @ [call]) = (as @ fst (conn_round_01 fd b call), snd (conn_round_01 fd b call))"
proof (induction calls arbitrary: buf as)
  case Nil
  then show ?case by (cases "conn_round_01 fd b call"; cases "snd (conn_round_01 fd b call)") auto
next
  case (Cons c calls)
  obtain a r where r: "conn_round_01 fd buf c = (a, r)" by fastforce
  then obtain b1 where b1: "r = Continues b1" using Cons.prems by (cases r) auto
  then obtain as1 where as1: "session_01 fd b1 calls = (as1, Continues b)" "as = a @ as1"
    using Cons.prems r by (auto split: prod.splits)
  show ?case using Cons.IH[OF as1(1)] r b1 as1(2) by simp
qed

lemma accept_loop_breaks:
  assumes "length buf = BUFSIZE" "snd (accept_loop_01 main_fd buf (conns @ [(AcceptFails, [])])) = Exits 1"
    and "snd (accept_loop_01 main_fd buf (conns @ [(acc, calls), (AcceptFails, [])])) = Waiting"
  shows "snd (accept_loop_01 main_fd buf (conns @ [(acc, calls @ [Reads data w])])) = Fails e
    \<longleftrightarrow> e = OutOfBounds \<and> BUFSIZE \<le> length data"
  using assms
proof (induction conns arbitrary: buf)
  case Nil
  then obtain fd addr port where acc: "acc = Accepted fd (Some addr) port"
    by (cases acc; cases "case acc of Accepted fd a p \<Rightarrow> a"; cases calls) auto
  obtain x r where r: "session_01 fd buf calls = (x, r)" by fastforce
  then obtain b where b: "r = Continues b" using Nil.prems(3) acc by (cases r) auto
  have "length b = BUFSIZE" using session_01_length[of fd buf calls b] r b Nil.prems(1) by simp
  note rb = round_breaks[OF this, of conn_round_01 fd data w e]
  have "snd (accept_loop_01 main_fd buf [(acc, calls @ [Reads data w])]) = Fails e
      \<longleftrightarrow> snd (conn_round_01 fd b (Reads data w)) = Breaks e"
    using session_01_snoc[OF r[unfolded b], of "Reads data w"] acc
    by (cases "snd (conn_round_01 fd b (Reads data w))") auto
  then show ?case using rb by simp
next
  case (Cons c conns)
  obtain acc1 calls1 where c: "c = (acc1, calls1)" by fastforce
  obtain fd addr port where acc1: "acc1 = Accepted fd (Some addr) port"
    using Cons.prems(3) c by (cases acc1; cases "case acc1 of Accepted fd a p \<Rightarrow> a") auto
  obtain x r where r: "session_01 fd buf calls1 = (x, r)" by fastforce
  show ?case
  proof (cases r)
    case (Leaves b)
    have len: "length b = BUFSIZE" using session_01_length[of fd buf calls1 b] r Leaves Cons.prems(1) by simp
    have step: "snd (accept_loop_01 main_fd buf ((c # conns) @ cs)) = snd (accept_loop_01 main_fd b (conns @ cs))" for cs
      using r c acc1 Leaves by (simp split: prod.splits)
    from Cons.IH[OF len Cons.prems(2,3)[unfolded step]] show ?thesis unfolding step .
  qed (use Cons.prems(2,3) r c acc1 in auto)
qed

text \<open>
  The server of 20-01 is in a read of the connection that came after \<open>conns\<close>: after \<open>conns\<close> it was in
  \<open>accept\<close>, so that a failing one would have ended it, and after \<open>calls\<close> on that connection it is
  not.
\<close>

definition reading_01 :: "string list \<Rightarrow> net_setup \<Rightarrow> (nat \<Rightarrow> byte) \<Rightarrow> (accepted \<times> io list) list \<Rightarrow> accepted \<Rightarrow> io list \<Rightarrow> bool" where
  "reading_01 argv env junk conns acc calls \<longleftrightarrow>
     snd (server_01 argv env junk (conns @ [(AcceptFails, [])])) = Exits 1
     \<and> snd (server_01 argv env junk (conns @ [(acc, calls), (AcceptFails, [])])) = Waiting"

lemma server_01_breaks:
  assumes "reading_01 argv env junk conns acc calls"
  shows "snd (server_01 argv env junk (conns @ [(acc, calls @ [Reads data w])])) = Fails e
    \<longleftrightarrow> e = OutOfBounds \<and> BUFSIZE \<le> length data"
proof -
  obtain port x main_fd where a: "length argv = 2" "atoi (argv ! 1) = Inr port" "tcp_setup port env = (x, Inr main_fd)"
    using assms by (auto simp: reading_01_def server_01_def Let_def split: if_splits sum.splits prod.splits)
  have l: "snd (server_01 argv env junk cs) = snd (accept_loop_01 main_fd (stack_buffer junk) cs)" for cs
    using a by (simp add: server_01_def Let_def split: prod.splits)
  show ?thesis using accept_loop_breaks[OF stack_buffer_length, of main_fd junk conns acc calls data w e] assms
    unfolding reading_01_def l by blast
qed

section \<open>A thread per connection\<close>

lemma server_run_snoc: "server_run st (es @ [e]) s = Option.bind (server_run st es s) (st e)"
  by (induction es arbitrary: s) (auto split: bind_splits)

lemma thread_round_breaks:
  assumes "buffers_ok s" "ended s = Waiting" "thread_buf (threads s) fd \<noteq> None"
    and "rnd \<in> {conn_round_01, conn_round_02, conn_round_03, conn_round_22}"
  shows "\<exists>s'. thread_round rnd fd (Reads data w) s = Some s'
    \<and> (ended s' = Fails e \<longleftrightarrow> e = OutOfBounds \<and> BUFSIZE \<le> length data)"
proof -
  obtain buf where buf: "thread_buf (threads s) fd = Some buf" using assms(3) by blast
  note rb = round_breaks[OF buffers_okD[OF assms(1) buf] assms(4), of fd data w e]
  obtain as r where r: "rnd fd buf (Reads data w) = (as, r)" by fastforce
  show ?thesis using rb r buf assms(2) by (cases r) (auto simp: thread_round_def)
qed

lemma run_buffers_02: "buffers_ok s \<Longrightarrow> server_run server_step_02 es s = Some s' \<Longrightarrow> buffers_ok s'"
  by (induction es arbitrary: s) (auto split: bind_splits dest: server02.step_writes)

lemma run_buffers_22: "buffers_ok s \<Longrightarrow> server_run (server_step_22 m p) es s = Some s' \<Longrightarrow> buffers_ok s'"
  by (induction es arbitrary: s) (auto split: bind_splits dest: server22.step_writes)

lemma server_02_breaks:
  assumes "server_02 argv env es = Some s" "ended s = Waiting" "thread_buf (threads s) fd \<noteq> None"
  shows "\<exists>s'. server_02 argv env (es @ [Round fd (Reads data w)]) = Some s'
    \<and> (ended s' = Fails e \<longleftrightarrow> e = OutOfBounds \<and> BUFSIZE \<le> length data)"
proof -
  obtain tr where tr: "\<And>es. server_02 argv env es
      = server_run server_step_02 es \<lparr>threads = [], open_conns = [], trace = tr, ended = Waiting\<rparr>"
    using assms(1,2) by (auto simp: server_02_def Let_def split: if_splits sum.splits prod.splits)
  define s0 where "s0 = \<lparr>threads = [], open_conns = [], trace = tr, ended = Waiting\<rparr>"
  have s0: "buffers_ok s0" "\<And>es. server_02 argv env es = server_run server_step_02 es s0"
    using tr by (simp_all add: s0_def buffers_ok_def)
  have ok: "buffers_ok s" using run_buffers_02[OF s0(1)] assms(1) s0(2) by simp
  have "server_02 argv env (es @ [Round fd (Reads data w)]) = thread_round conn_round_02 fd (Reads data w) s"
    using assms(1,2) by (simp add: s0(2) server_run_snoc server_step_02_def)
  then show ?thesis using thread_round_breaks[OF ok assms(2,3), of conn_round_02] by simp
qed

lemma server_22_breaks:
  assumes "server_22 argv env es = Some s" "ended s = Waiting" "thread_buf (threads s) fd \<noteq> None"
  shows "\<exists>s'. server_22 argv env (es @ [Round fd (Reads data w)]) = Some s'
    \<and> (ended s' = Fails e \<longleftrightarrow> e = OutOfBounds \<and> BUFSIZE \<le> length data)"
proof -
  obtain tr m p where tr: "\<And>es. server_22 argv env es
      = server_run (server_step_22 m p) es \<lparr>threads = [], open_conns = [], trace = tr, ended = Waiting\<rparr>"
    using assms(1,2) by (auto simp: server_22_def Let_def split: if_splits sum.splits prod.splits)
  define s0 where "s0 = \<lparr>threads = [], open_conns = [], trace = tr, ended = Waiting\<rparr>"
  have s0: "buffers_ok s0" "\<And>es. server_22 argv env es = server_run (server_step_22 m p) es s0"
    using tr by (simp_all add: s0_def buffers_ok_def)
  have ok: "buffers_ok s" using run_buffers_22[OF s0(1)] assms(1) s0(2) by simp
  have "server_22 argv env (es @ [Round fd (Reads data w)]) = thread_round conn_round_22 fd (Reads data w) s"
    using assms(1,2) by (simp add: s0(2) server_run_snoc server_step_22_def)
  then show ?thesis using thread_round_breaks[OF ok assms(2,3), of conn_round_22] by simp
qed

section \<open>The pool\<close>

definition pool_buffers_ok :: "pool_server \<Rightarrow> bool" where
  "pool_buffers_ok s \<longleftrightarrow> (\<forall>fd buf. Some (fd, buf) \<in> set (workers03 s) \<longrightarrow> length buf = BUFSIZE)"

lemma round_03_length: "snd (conn_round_03 fd buf call) = Continues b \<Longrightarrow> length b = length buf"
  by (auto simp: conn_round_03_def Let_def dest: receive_length split: io.splits sum.splits option.splits if_splits)

lemma in_update: "y \<in> set (xs[i := x]) \<Longrightarrow> y = x \<or> y \<in> set xs"
  using set_update_subset_insert by fast

lemma pool_round_buffers:
  assumes "pool_buffers_ok s" "pool_round w call s = Some s'"
  shows "pool_buffers_ok s'"
proof -
  obtain fd buf where b: "w < length (workers03 s)" "workers03 s ! w = Some (fd, buf)"
    using assms(2) by (auto simp: pool_round_def split: if_splits option.splits)
  then have l: "length buf = BUFSIZE" using assms(1) unfolding pool_buffers_ok_def by (metis nth_mem)
  obtain as r where r: "conn_round_03 fd buf call = (as, r)" by fastforce
  show ?thesis
  proof (cases r)
    case (Continues b1)
    then have "length b1 = BUFSIZE" using round_03_length[of fd buf call b1] r l by simp
    then show ?thesis using assms b r Continues
      by (auto simp: pool_round_def pool_buffers_ok_def dest!: in_update)
  next
    case (Leaves b1)
    then show ?thesis using assms b r by (auto simp: pool_round_def pool_buffers_ok_def dest!: in_update)
  qed (use assms b r in \<open>auto simp: pool_round_def pool_buffers_ok_def\<close>)
qed

lemma step_03_buffers:
  assumes "pool_buffers_ok s" "server_step_03 e s = Some s'"
  shows "pool_buffers_ok s'"
proof (cases e)
  case (Picks w buf)
  then obtain fd rest where f: "length buf = BUFSIZE" "s' = s\<lparr>waiting_conns := rest,
      workers03 := (workers03 s)[w := Some (fd, buf)], started03 := started03 s @ [fd]\<rparr>"
    using assms(2) by (auto simp: server_step_03_def split: if_splits list.splits)
  have "length b1 = BUFSIZE" if "Some (fd1, b1) \<in> set ((workers03 s)[w := Some (fd, buf)])" for fd1 b1
    using subsetD[OF set_update_subset_insert that] assms(1) f(1) unfolding pool_buffers_ok_def by blast
  then show ?thesis by (simp add: f(2) pool_buffers_ok_def)
next
  case (PoolRound w call)
  then show ?thesis using assms pool_round_buffers by (auto simp: server_step_03_def split: if_splits)
qed (use assms in \<open>auto simp: server_step_03_def pool_buffers_ok_def split: if_splits accepted.splits option.splits\<close>)

lemma run_buffers_03: "pool_buffers_ok s \<Longrightarrow> pool_server_run es s = Some s' \<Longrightarrow> pool_buffers_ok s'"
  by (induction es arbitrary: s) (auto split: bind_splits dest: step_03_buffers)

lemma pool_run_snoc: "pool_server_run (es @ [e]) s = Option.bind (pool_server_run es s) (server_step_03 e)"
  by (induction es arbitrary: s) (auto split: bind_splits)

lemma server_03_breaks:
  assumes "server_03 argv env es = Some s" "ended03 s = Waiting" "i < length (workers03 s)" "workers03 s ! i \<noteq> None"
  shows "\<exists>s'. server_03 argv env (es @ [PoolRound i (Reads data w)]) = Some s'
    \<and> (ended03 s' = Fails e \<longleftrightarrow> e = OutOfBounds \<and> BUFSIZE \<le> length data)"
proof -
  obtain tr where tr: "\<And>es. server_03 argv env es = pool_server_run es \<lparr>waiting_conns = [],
      workers03 = replicate POOL_THREADS None, accepted03 = [], started03 = [], trace03 = tr, ended03 = Waiting\<rparr>"
    using assms(1,2) by (auto simp: server_03_def Let_def split: if_splits sum.splits prod.splits)
  define s0 where "s0 = \<lparr>waiting_conns = [], workers03 = replicate POOL_THREADS None, accepted03 = [],
      started03 = [], trace03 = tr, ended03 = Waiting\<rparr>"
  have s0: "pool_buffers_ok s0" "\<And>es. server_03 argv env es = pool_server_run es s0"
    using tr by (simp_all add: s0_def pool_buffers_ok_def)
  have ok: "pool_buffers_ok s" using run_buffers_03[OF s0(1)] assms(1) s0(2) by simp
  obtain fd buf where b: "workers03 s ! i = Some (fd, buf)" using assms(4) by auto
  then have l: "length buf = BUFSIZE" using assms(3) ok unfolding pool_buffers_ok_def by (metis nth_mem)
  note rb = round_breaks[OF l, of conn_round_03 fd data w e]
  obtain as r where r: "conn_round_03 fd buf (Reads data w) = (as, r)" by fastforce
  have "server_03 argv env (es @ [PoolRound i (Reads data w)]) = pool_round i (Reads data w) s"
    using assms(1,2) by (simp add: s0(2) pool_run_snoc server_step_03_def)
  then show ?thesis using rb r b assms(2,3) by (cases r) (auto simp: pool_round_def)
qed

section \<open>The four servers\<close>

text \<open>C40: In each of the servers of 20 and 22, whatever has happened before: a read on a live connection makes
  the server go wrong exactly when the connection has at least \<open>BUFSIZE\<close> bytes to give; the
  read then fills the buffer and the terminator is stored one byte past its end. So a client that
  sends 1024 bytes at once is enough to break the server for all clients, and one whose bytes
  are read in smaller portions never does.\<close>

theorem full_read_overflows:
  shows "(reading_01 argv env junk conns acc calls \<longrightarrow>
        (snd (server_01 argv env junk (conns @ [(acc, calls @ [Reads data w])])) = Fails e
            \<longleftrightarrow> e = OutOfBounds \<and> BUFSIZE \<le> length data))
    \<and> (server_02 argv env es = Some s \<and> ended s = Waiting \<and> thread_buf (threads s) fd \<noteq> None
      \<longrightarrow> (\<exists>s'. server_02 argv env (es @ [Round fd (Reads data w)]) = Some s'
            \<and> (ended s' = Fails e \<longleftrightarrow> e = OutOfBounds \<and> BUFSIZE \<le> length data)))
    \<and> (server_22 argv env es = Some s \<and> ended s = Waiting \<and> thread_buf (threads s) fd \<noteq> None
      \<longrightarrow> (\<exists>s'. server_22 argv env (es @ [Round fd (Reads data w)]) = Some s'
            \<and> (ended s' = Fails e \<longleftrightarrow> e = OutOfBounds \<and> BUFSIZE \<le> length data)))
    \<and> (server_03 argv env pes = Some p \<and> ended03 p = Waiting \<and> i < length (workers03 p) \<and> workers03 p ! i \<noteq> None
      \<longrightarrow> (\<exists>p'. server_03 argv env (pes @ [PoolRound i (Reads data w)]) = Some p'
            \<and> (ended03 p' = Fails e \<longleftrightarrow> e = OutOfBounds \<and> BUFSIZE \<le> length data)))"
proof (intro conjI impI, goal_cases)
  case 1
  then show ?case by (rule server_01_breaks)
next
  case 2
  then show ?case using server_02_breaks by blast
next
  case 3
  then show ?case using server_22_breaks by blast
next
  case 4
  then show ?case using server_03_breaks by blast
qed

lemma full_read_overflows_witness:
  "\<exists>s s'. server_02 [''server'', ''8080''] good_net [NewConnection (Accepted 4 (Some ''10.0.0.1'') 5000) blank] = Some s
    \<and> ended s = Waiting
    \<and> server_02 [''server'', ''8080''] good_net
        [NewConnection (Accepted 4 (Some ''10.0.0.1'') 5000) blank, Round 4 (Reads (replicate 2000 65) (Some 7))] = Some s'
    \<and> ended s' = Fails OutOfBounds"
proof -
  let ?es = "[NewConnection (Accepted 4 (Some ''10.0.0.1'') 5000) blank]"
  have port: "atoi ([''server'', ''8080''] ! 1) = Inr 8080" by code_simp
  obtain as where tcp: "tcp_setup 8080 good_net = (as, Inr 3)" by (simp add: tcp_setup_def good_net_def)
  have "\<exists>s. server_02 [''server'', ''8080''] good_net ?es = Some s \<and> ended s = Waiting \<and> thread_buf (threads s) 4 \<noteq> None"
    using port tcp by (simp add: server_02_def server_step_02_def thread_accept_def thread_buf_def Let_def)
  then obtain s where s: "server_02 [''server'', ''8080''] good_net ?es = Some s" "ended s = Waiting" "thread_buf (threads s) 4 \<noteq> None"
    by blast
  have l: "BUFSIZE \<le> length (replicate 2000 (65 :: byte))" by (simp add: BUFSIZE_def)
  from full_read_overflows[of "[''server'', ''8080'']" good_net "\<lambda>_. 0" "[]" AcceptFails "[]"
      "replicate 2000 65" "Some 7" OutOfBounds ?es s 4 "[]" undefined 0] s l
  show ?thesis by auto
qed

end
