(* ===== verification/Poll_Server.thy ===== *)
theory Poll_Server
  imports Sockets "HOL-Library.Multiset"
begin

unbundle bit_operations_syntax

text \<open>
  The echo server of 21 on \<open>poll\<close>: one thread, an array of descriptors, and a loop over the
  ready ones that removes a closed client by moving the last one into its place.
\<close>

section \<open>The array\<close>

record pollfd =
  pfd :: nat
  events :: "16 word"
  revents :: "16 word"

definition POLLRDNORM :: "16 word" where "POLLRDNORM = 0x40"

record poll_server =
  clients :: "pollfd list"
  nclients :: nat
  pbuf :: "byte list"

text \<open>\<open>poll\<close> sets \<open>revents\<close> of the first \<open>nclients\<close> entries and returns how many are not zero (a
  report that is too short stands for zeros); when it fails it returns -1 and leaves them alone.\<close>

datatype poll_result = PollFails | PollReady "16 word list"

definition poll :: "poll_result \<Rightarrow> poll_server \<Rightarrow> int \<times> poll_server" where
  "poll r s =
     (case r of
        PollFails \<Rightarrow> (- 1, s)
      | PollReady reported \<Rightarrow>
          (let revs = take (nclients s) (reported @ replicate (nclients s) 0) in
           (int (length (filter (\<lambda>v. v \<noteq> 0) revs)),
            s\<lparr>clients := map (\<lambda>(c, v). c\<lparr>revents := v\<rparr>) (zip (take (nclients s) (clients s)) revs)
                 @ drop (nclients s) (clients s)\<rparr>)))"

section \<open>A ready client\<close>

definition poll_client :: "nat \<Rightarrow> byte list \<Rightarrow> io \<Rightarrow> act list \<times> next_step" where
  "poll_client fd buf call =
     (let a = [Note ''** event occurred on client'' (int fd)] in
      case call of
        ReadFails \<Rightarrow> (a @ [Closed fd, Perror ''ERROR reading from socket''], Dies 1)
      | Reads avail w \<Rightarrow>
          (let data = read_call avail in
           case receive buf data of
             Inl e \<Rightarrow> (a, Breaks e)
           | Inr buf \<Rightarrow>
               (let b = a @ [Received (int (length data)) (cstr buf)];
                    closing = (length data = 0 \<or> is_command quit_text buf);
                    end = (if closing then ([Note ''** closing client'' (int fd), Closed fd], Leaves buf)
                           else ([], Continues buf)) in
                if 0 < length data
                then (case w of
                        None \<Rightarrow> (b @ [Perror ''ERROR writing to socket''], Dies 1)
                      | Some n \<Rightarrow> (b @ [Wrote fd (take n (take (length data) buf))] @ fst end, snd end))
                else (b @ fst end, snd end))))"

text \<open>
  The loop over the clients: \<open>i\<close>, \<open>nready\<close> and the array are the code's. The reads and writes take
  their results from \<open>calls\<close>; at its end the server is stuck in \<open>read\<close>. \<open>served\<close> and \<open>closed\<close> note
  the descriptors read from and closed.
\<close>

record sweep =
  sw_acts :: "act list"
  sw_served :: "nat list"
  sw_closed :: "nat list"
  sw_end :: "ending + poll_server"

definition sweep_more :: "act list \<Rightarrow> nat \<Rightarrow> nat list \<Rightarrow> sweep \<Rightarrow> sweep" where
  "sweep_more as fd closed r = r\<lparr>sw_acts := as @ sw_acts r, sw_served := fd # sw_served r, sw_closed := closed @ sw_closed r\<rparr>"

function serve_clients :: "nat \<Rightarrow> int \<Rightarrow> poll_server \<Rightarrow> io list \<Rightarrow> sweep" where
  "serve_clients i nready s calls =
     (if 0 < nready \<and> i < nclients s then
        (if revents (clients s ! i) \<noteq> 0 then
           (let fd = pfd (clients s ! i) in
            case calls of
              [] \<Rightarrow> \<lparr>sw_acts = [Note ''** event occurred on client'' (int fd)], sw_served = [], sw_closed = [], sw_end = Inl Waiting\<rparr>
            | call # calls1 \<Rightarrow>
                (case poll_client fd (pbuf s) call of
                   (as, Continues buf1) \<Rightarrow>
                     sweep_more as fd [] (serve_clients (i + 1) (nready - 1) (s\<lparr>pbuf := buf1\<rparr>) calls1)
                 | (as, Leaves buf1) \<Rightarrow>
                     sweep_more as fd [fd]
                       (serve_clients i (nready - 1)
                         (s\<lparr>pbuf := buf1, clients := (clients s)[i := clients s ! (nclients s - 1)], nclients := nclients s - 1\<rparr>)
                         calls1)
                 | (as, Stops) \<Rightarrow> \<lparr>sw_acts = as, sw_served = [fd], sw_closed = [], sw_end = Inl (Exits 0)\<rparr>
                 | (as, Dies n) \<Rightarrow> \<lparr>sw_acts = as, sw_served = [fd], sw_closed = [], sw_end = Inl (Exits n)\<rparr>
                 | (as, Breaks e) \<Rightarrow> \<lparr>sw_acts = as, sw_served = [fd], sw_closed = [], sw_end = Inl (Fails e)\<rparr>))
         else serve_clients (i + 1) nready s calls)
      else \<lparr>sw_acts = [], sw_served = [], sw_closed = [], sw_end = Inr s\<rparr>)"
  by pat_completeness auto
termination
  by (relation "measure (\<lambda>(i, nready, s, calls). nat nready + (nclients s - i))") auto

declare serve_clients.simps [simp del]

section \<open>A round, and the server\<close>

definition poll_closing :: "nat \<Rightarrow> poll_server \<Rightarrow> act list" where
  "poll_closing main_fd s =
     [Puts ''** closing **''] @ map (\<lambda>c. Closed (pfd c)) (take (nclients s) (clients s))
       @ [Closed main_fd, Puts '':: END ::'']"

definition add_client :: "nat \<Rightarrow> nat \<Rightarrow> poll_server \<Rightarrow> act list \<times> poll_server" where
  "add_client max_clients conn_fd s =
     (if nclients s = max_clients then ([Puts ''** maximum clients exceeded'', Closed conn_fd], s)
      else ([], s\<lparr>clients := (clients s)[nclients s := (clients s ! nclients s)\<lparr>pfd := conn_fd, events := POLLRDNORM\<rparr>],
                  nclients := nclients s + 1\<rparr>))"

definition poll_round :: "nat \<Rightarrow> nat \<Rightarrow> poll_result \<Rightarrow> accepted \<Rightarrow> io list \<Rightarrow> poll_server \<Rightarrow> act list \<times> (ending + poll_server)" where
  "poll_round max_clients main_fd r acc calls s =
     (let (nready, s) = poll r s; a = [Note ''>> ready descriptors'' nready] in
      if revents (clients s ! 0) AND POLLRDNORM \<noteq> 0
      then (a @ [Puts ''** exiting **''] @ poll_closing main_fd s, Inl (Exits 0))
      else if revents (clients s ! 1) AND POLLRDNORM \<noteq> 0
      then (let a = a @ [Puts ''** new connection **''] in
            case acc of
              AcceptFails \<Rightarrow> (a @ [Perror ''ERROR on accept''], Inl (Exits 1))
            | Accepted fd None port \<Rightarrow> (a @ [Perror ''ERROR on inet_ntoa''], Inl (Exits 1))
            | Accepted fd (Some addr) port \<Rightarrow>
                (let (b, s) = add_client max_clients fd s; a = a @ [Established addr port] @ b in
                 if nready - 1 = 0 then (a, Inr s)
                 else (let w = serve_clients 2 (nready - 1) s calls in (a @ sw_acts w, sw_end w))))
      else (let w = serve_clients 2 nready s calls in (a @ sw_acts w, sw_end w)))"

fun poll_rounds :: "nat \<Rightarrow> nat \<Rightarrow> (poll_result \<times> accepted \<times> io list) list \<Rightarrow> poll_server \<Rightarrow> act list \<times> (ending + poll_server)" where
  "poll_rounds max_clients main_fd [] s = ([], Inr s)"
| "poll_rounds max_clients main_fd ((r, acc, calls) # rs) s =
     (case poll_round max_clients main_fd r acc calls s of
        (as, Inr s1) \<Rightarrow> (let (as1, end) = poll_rounds max_clients main_fd rs s1 in (as @ as1, end))
      | (as, Inl e) \<Rightarrow> (as, Inl e))"

text \<open>\<open>junk\<close> is what the array holds before it is set; \<open>max_clients\<close> is \<open>FOPEN_MAX\<close>.\<close>

definition poll_start :: "nat \<Rightarrow> pollfd list \<Rightarrow> byte list \<Rightarrow> poll_server" where
  "poll_start main_fd junk buf =
     \<lparr>clients = junk[0 := (junk ! 0)\<lparr>pfd := 0, events := POLLRDNORM\<rparr>, 1 := (junk ! 1)\<lparr>pfd := main_fd, events := POLLRDNORM\<rparr>],
      nclients = 2, pbuf = buf\<rparr>"

definition poll_server_main :: "nat \<Rightarrow> string list \<Rightarrow> net_setup \<Rightarrow> pollfd list \<Rightarrow> (nat \<Rightarrow> byte)
    \<Rightarrow> (poll_result \<times> accepted \<times> io list) list \<Rightarrow> act list \<times> (ending + poll_server)" where
  "poll_server_main max_clients argv env junk buf_junk rs =
     (if length argv \<noteq> 2 then ([Usage], Inl (Exits 1))
      else (case atoi (argv ! 1) of
              Inl e \<Rightarrow> ([], Inl (Fails e))
            | Inr port \<Rightarrow>
                (case tcp_setup port env of
                   (as, Inl n) \<Rightarrow> (Puts '':: START ::'' # as, Inl (Exits n))
                 | (as, Inr main_fd) \<Rightarrow>
                     (let (as1, end) = poll_rounds max_clients main_fd rs (poll_start main_fd junk (stack_buffer buf_junk)) in
                      (Puts '':: START ::'' # as @ as1, end)))))"

section \<open>Removing by moving the last\<close>

lemma swap_remove:
  assumes "i < n" "n \<le> length cs"
  shows "mset (drop i (take (n - 1) (cs[i := cs ! (n - 1)]))) + {#cs ! i#} = mset (drop i (take n cs))"
    "take i (take (n - 1) (cs[i := cs ! (n - 1)])) = take i (take n cs)"
proof -
  have c: "cs = take i cs @ cs ! i # drop (Suc i) cs" using assms by (simp add: id_take_nth_drop)
  have "i \<le> n - 1" using assms(1) by simp
  then show "take i (take (n - 1) (cs[i := cs ! (n - 1)])) = take i (take n cs)"
    using assms by (simp add: min_absorb1)
  show "mset (drop i (take (n - 1) (cs[i := cs ! (n - 1)]))) + {#cs ! i#} = mset (drop i (take n cs))"
  proof (cases "i = n - 1")
    case True
    then have "drop i (take n cs) = [cs ! i]"
      using assms by (intro nth_equalityI) auto
    then show ?thesis using True by simp
  next
    case False
    let ?mid = "drop (Suc i) (take (n - 1) cs)"
    have "take n cs = take (n - 1) cs @ [cs ! (n - 1)]"
      using assms take_Suc_conv_app_nth[of "n - 1" cs] by simp
    moreover have "drop i (take (n - 1) cs) = cs ! i # ?mid"
      using assms False by (subst Cons_nth_drop_Suc[symmetric]) auto
    ultimately have "drop i (take n cs) = cs ! i # ?mid @ [cs ! (n - 1)]"
      using assms False by simp
    moreover have "drop i (take (n - 1) (cs[i := cs ! (n - 1)])) = cs ! (n - 1) # ?mid"
      using assms False by (intro nth_equalityI) (auto simp: nth_Cons')
    ultimately show ?thesis by simp
  qed
qed

lemma take_drop_mset: "mset (take i xs) + mset (drop i xs) = mset xs"
  by (metis append_take_drop_id mset_append)

end
