(* ===== verification/Poll_Props.thy ===== *)
theory Poll_Props
  imports Poll_Server Echo_Threads
begin

unbundle bit_operations_syntax

text \<open>
  What the poll server of 21 does in one sweep over its clients, with removal by swapping, and
  how it ends.
\<close>

definition flagged :: "nat \<Rightarrow> poll_server \<Rightarrow> pollfd list" where
  "flagged i s = filter (\<lambda>c. revents c \<noteq> 0) (drop i (take (nclients s) (clients s)))"

definition client_fds :: "poll_server \<Rightarrow> nat list" where
  "client_fds s = map pfd (take (nclients s) (clients s))"

definition closes :: "byte list \<Rightarrow> bool" where
  "closes d \<longleftrightarrow> d = [] \<or> command_in quit_text d"

fun poll_acts :: "nat \<times> byte list \<Rightarrow> act list" where
  "poll_acts (fd, d) = [Note ''** event occurred on client'' (int fd), Received (int (length d)) (cstr d)]
     @ (if d = [] then [] else [Wrote fd d])
     @ (if closes d then [Note ''** closing client'' (int fd), Closed fd] else [])"

lemma poll_client_full:
  assumes "length d < length buf" "length d < BUFSIZE"
  shows "poll_client fd buf (full d) =
    (poll_acts (fd, d), if closes d then Leaves (stored buf d) else Continues (stored buf d))"
  using assms
  by (simp add: poll_client_def full_def receive_ok Let_def is_command_received closes_def stored_def)

definition sweep_ok :: "nat \<Rightarrow> poll_server \<Rightarrow> byte list list \<Rightarrow> sweep \<Rightarrow> bool" where
  "sweep_ok i s ds r \<longleftrightarrow> (\<exists>s'. sw_end r = Inr s'
     \<and> mset (sw_served r) = mset (map pfd (flagged i s))
     \<and> sw_acts r = concat (map poll_acts (zip (sw_served r) ds))
     \<and> sw_closed r = map fst (filter (\<lambda>(fd, d). closes d) (zip (sw_served r) ds))
     \<and> mset (client_fds s') + mset (sw_closed r) = mset (client_fds s)
     \<and> nclients s' \<le> length (clients s') \<and> length (pbuf s') = BUFSIZE)"

lemma flagged_Suc:
  "i < nclients s \<Longrightarrow> nclients s \<le> length (clients s) \<Longrightarrow>
   flagged i s = (if revents (clients s ! i) \<noteq> 0 then [clients s ! i] else []) @ flagged (Suc i) s"
  unfolding flagged_def by (subst Cons_nth_drop_Suc[symmetric]) auto

lemma sweep_more_fields [simp]:
  "sw_acts (sweep_more as fd cl r) = as @ sw_acts r" "sw_served (sweep_more as fd cl r) = fd # sw_served r"
  "sw_closed (sweep_more as fd cl r) = cl @ sw_closed r" "sw_end (sweep_more as fd cl r) = sw_end r"
  by (simp_all add: sweep_more_def)

text \<open>The cases of the loop.\<close>

lemma serve_done: "\<not> (0 < nready \<and> i < nclients s) \<Longrightarrow>
    serve_clients i nready s calls = \<lparr>sw_acts = [], sw_served = [], sw_closed = [], sw_end = Inr s\<rparr>"
  by (subst serve_clients.simps) auto

lemma serve_skip: "0 < nready \<and> i < nclients s \<Longrightarrow> revents (clients s ! i) = 0 \<Longrightarrow>
    serve_clients i nready s calls = serve_clients (i + 1) nready s calls"
  by (subst serve_clients.simps) auto

lemma serve_continue: "0 < nready \<and> i < nclients s \<Longrightarrow> revents (clients s ! i) \<noteq> 0 \<Longrightarrow>
    poll_client (pfd (clients s ! i)) (pbuf s) call = (as, Continues buf1) \<Longrightarrow>
    serve_clients i nready s (call # calls) =
      sweep_more as (pfd (clients s ! i)) [] (serve_clients (i + 1) (nready - 1) (s\<lparr>pbuf := buf1\<rparr>) calls)"
  by (subst serve_clients.simps) (auto simp: Let_def)

lemma serve_leave: "0 < nready \<and> i < nclients s \<Longrightarrow> revents (clients s ! i) \<noteq> 0 \<Longrightarrow>
    poll_client (pfd (clients s ! i)) (pbuf s) call = (as, Leaves buf1) \<Longrightarrow>
    serve_clients i nready s (call # calls) =
      sweep_more as (pfd (clients s ! i)) [pfd (clients s ! i)] (serve_clients i (nready - 1)
        (s\<lparr>pbuf := buf1, clients := (clients s)[i := clients s ! (nclients s - 1)], nclients := nclients s - 1\<rparr>) calls)"
  by (subst serve_clients.simps) (auto simp: Let_def)

text \<open>A client leaves and the last one takes its place: which clients are still flagged, and which
  are connected.\<close>

lemma moved_last:
  assumes "i < nclients s" "nclients s \<le> length (clients s)" "revents (clients s ! i) \<noteq> 0"
    and s1_def: "s1 = s\<lparr>pbuf := buf, clients := (clients s)[i := clients s ! (nclients s - 1)], nclients := nclients s - 1\<rparr>"
  shows "mset (flagged i s1) + {#clients s ! i#} = mset (flagged i s)"
    and "mset (client_fds s1) + {#pfd (clients s ! i)#} = mset (client_fds s)"
proof -
  let ?cs = "(clients s)[i := clients s ! (nclients s - 1)]"
  note sr = swap_remove[of i "nclients s" "clients s"]
  have "filter_mset (\<lambda>c. revents c \<noteq> 0) (mset (drop i (take (nclients s - 1) ?cs)) + {#clients s ! i#})
    = filter_mset (\<lambda>c. revents c \<noteq> 0) (mset (drop i (take (nclients s) (clients s))))"
    using sr(1) assms(1,2) by simp
  then show "mset (flagged i s1) + {#clients s ! i#} = mset (flagged i s)"
    using assms(3) by (simp add: flagged_def s1_def)
  have "mset (take (nclients s - 1) ?cs) + {#clients s ! i#} = mset (take (nclients s) (clients s))"
    using sr assms(1,2) take_drop_mset[of i "take (nclients s - 1) ?cs"]
      take_drop_mset[of i "take (nclients s) (clients s)"] by (metis union_assoc)
  then have "image_mset pfd (mset (take (nclients s - 1) ?cs) + {#clients s ! i#}) =
    image_mset pfd (mset (take (nclients s) (clients s)))" by simp
  then show "mset (client_fds s1) + {#pfd (clients s ! i)#} = mset (client_fds s)"
    by (simp add: client_fds_def s1_def)
qed

lemma serve_clients_ok:
  assumes "length (pbuf s) = BUFSIZE" "nclients s \<le> length (clients s)"
    and "calls = map full ds" "\<forall>d\<in>set ds. length d < BUFSIZE"
    and "int (length (flagged i s)) \<le> nready" "length (flagged i s) \<le> length ds"
  shows "sweep_ok i s ds (serve_clients i nready s calls)"
  using assms
proof (induction i nready s calls arbitrary: ds rule: serve_clients.induct)
  case (1 i nready s calls)
  note prems = "1.prems"
  show ?case
  proof (cases "0 < nready \<and> i < nclients s")
    case False
    have "nready \<le> 0 \<Longrightarrow> length (flagged i s) = 0" using prems(5) by linarith
    then have "flagged i s = []" using False by (cases "i < nclients s") (auto simp: flagged_def)
    then show ?thesis using False prems(1,2) by (simp add: serve_done sweep_ok_def)
  next
    case go: True
    note fl = flagged_Suc[of i s] 
    show ?thesis
    proof (cases "revents (clients s ! i) = 0")
      case True
      then have "flagged (i + 1) s = flagged i s" using fl go prems(2) by simp
      then show ?thesis
        using "1.IH"(3)[OF go, of ds] True prems go by (simp add: serve_skip[OF go True] sweep_ok_def)
    next
      case ready: False
      then have f: "flagged i s = clients s ! i # flagged (i + 1) s" using fl go prems(2) by simp
      then obtain d ds1 where ds: "ds = d # ds1" using prems(6) by (cases ds) auto
      let ?fd = "pfd (clients s ! i)"
      have d: "length d < length (pbuf s)" "length d < BUFSIZE" using prems(1,4) ds by simp_all
      note pc = poll_client_full[OF d, of ?fd]
      have st: "length (stored (pbuf s) d) = BUFSIZE" using stored_length[OF d(1)] prems(1) by simp
      have calls: "calls = full d # map full ds1" using prems(3) ds by simp
      show ?thesis
      proof (cases "closes d")
        case True
        let ?s = "s\<lparr>pbuf := stored (pbuf s) d, clients := (clients s)[i := clients s ! (nclients s - 1)], nclients := nclients s - 1\<rparr>"
        note moved = moved_last[OF _ prems(2) ready refl, of "stored (pbuf s) d"]
        have fm: "mset (flagged i ?s) = mset (flagged (i + 1) s)" using moved(1) go f by simp
        then have fl: "length (flagged i ?s) = length (flagged (i + 1) s)" by (metis size_mset)
        have cm: "mset (client_fds ?s) + {#?fd#} = mset (client_fds s)" using moved(2) go by simp
        have len: "nclients ?s \<le> length (clients ?s)" using prems(2) by simp
        have "sweep_ok i ?s ds1 (serve_clients i (nready - 1) ?s (map full ds1))"
          by (rule "1.IH"(2)[OF go ready refl calls pc[unfolded if_P[OF True], symmetric]])
             (use st len prems f fl ds in auto)
        then show ?thesis
          unfolding calls serve_leave[OF go ready pc[unfolded if_P[OF True]]] sweep_ok_def
          using True f fm cm ds by auto
      next
        case False
        let ?s = "s\<lparr>pbuf := stored (pbuf s) d\<rparr>"
        have fs: "flagged (i + 1) ?s = flagged (i + 1) s" "client_fds ?s = client_fds s"
          by (simp_all add: flagged_def client_fds_def)
        have "sweep_ok (i + 1) ?s ds1 (serve_clients (i + 1) (nready - 1) ?s (map full ds1))"
          by (rule "1.IH"(1)[OF go ready refl calls pc[unfolded if_not_P[OF False], symmetric]])
             (use st prems f fs ds in auto)
        then show ?thesis
          unfolding calls serve_continue[OF go ready pc[unfolded if_not_P[OF False]]] sweep_ok_def
          using False f fs ds by auto
      qed
    qed
  qed
qed

lemma zip_pfd:
  "length cs = length revs \<Longrightarrow> map (pfd \<circ> (\<lambda>(c, v). c\<lparr>revents := v\<rparr>)) (zip cs revs) = map pfd cs"
  by (induction cs revs rule: list_induct2) simp_all

text \<open>The clients that \<open>poll\<close> reports; the first two entries are not clients.\<close>

definition ready_clients :: "16 word list \<Rightarrow> poll_server \<Rightarrow> nat list" where
  "ready_clients revs s = map fst (filter (\<lambda>(fd, v). v \<noteq> 0) (zip (drop 2 (client_fds s)) (drop 2 revs)))"

lemma reported:
  assumes "length revs = nclients s" "nclients s \<le> length (clients s)" "2 \<le> nclients s"
    and "poll (PollReady revs) s = (n, s1)"
  shows "map pfd (flagged 2 s1) = ready_clients revs s" "n = int (length (filter (\<lambda>v. v \<noteq> 0) revs))"
    "length (flagged 2 s1) + (if revs ! 0 = 0 then 0 else 1) + (if revs ! 1 = 0 then 0 else 1) = length (filter (\<lambda>v. v \<noteq> 0) revs)"
    "client_fds s1 = client_fds s" "nclients s1 = nclients s" "pbuf s1 = pbuf s" "length (clients s1) = length (clients s)"
    "revents (clients s1 ! 0) = revs ! 0" "revents (clients s1 ! 1) = revs ! 1"
    "drop (nclients s) (clients s1) = drop (nclients s) (clients s)"
proof -
  let ?cs = "take (nclients s) (clients s)"
  let ?new = "map (\<lambda>(c, v). c\<lparr>revents := v\<rparr>) (zip ?cs revs)"
  have len: "length ?cs = length revs" using assms(1,2) by simp
  have s1: "s1 = s\<lparr>clients := ?new @ drop (nclients s) (clients s)\<rparr>" "n = int (length (filter (\<lambda>v. v \<noteq> 0) revs))"
    using assms(4) by (simp_all add: poll_def assms(1)[symmetric] Let_def)
  show "n = int (length (filter (\<lambda>v. v \<noteq> 0) revs))" by (rule s1(2))
  have cs1: "take (nclients s1) (clients s1) = ?new" using len assms(1) by (simp add: s1)
  obtain v0 v1 rs where revs: "revs = v0 # v1 # rs" using assms(1,3) by (cases revs; cases "tl revs") auto
  obtain c0 c1 cs where cs: "?cs = c0 # c1 # cs" using len revs by (cases ?cs; cases "tl ?cs") auto
  have l: "length cs = length rs" using len cs revs by simp
  have fl: "flagged 2 s1 = filter (\<lambda>c. revents c \<noteq> 0) (map (\<lambda>(c, v). c\<lparr>revents := v\<rparr>) (zip cs rs))"
    unfolding flagged_def cs1 by (simp add: cs revs)
  show "map pfd (flagged 2 s1) = ready_clients revs s"
    unfolding fl ready_clients_def client_fds_def cs revs using l by simp (induction cs rs rule: list_induct2; simp)
  have "length (filter (\<lambda>v. v \<noteq> 0) rs) = length (flagged 2 s1)"
    unfolding fl using l by (induction cs rs rule: list_induct2) simp_all
  then show "length (flagged 2 s1) + (if revs ! 0 = 0 then 0 else 1) + (if revs ! 1 = 0 then 0 else 1)
    = length (filter (\<lambda>v. v \<noteq> 0) revs)" by (simp add: revs)
  show "client_fds s1 = client_fds s"
    unfolding client_fds_def cs1 using zip_pfd[OF len] by simp
  show "revents (clients s1 ! 0) = revs ! 0" "revents (clients s1 ! 1) = revs ! 1" by (simp_all add: s1 cs revs)
  show "nclients s1 = nclients s" "pbuf s1 = pbuf s" "length (clients s1) = length (clients s)"
    "drop (nclients s) (clients s1) = drop (nclients s) (clients s)"
    using assms(1,2) by (simp_all add: s1(1))
qed

text \<open>A new connection: what is printed, and the descriptor that joins the array.\<close>

fun accept_acts :: "nat \<Rightarrow> poll_server \<Rightarrow> accepted \<Rightarrow> act list" where
  "accept_acts max_clients s (Accepted fd (Some addr) port) = [Puts ''** new connection **'', Established addr port]
     @ (if nclients s = max_clients then [Puts ''** maximum clients exceeded'', Closed fd] else [])"
| "accept_acts max_clients s _ = []"

fun joins :: "nat \<Rightarrow> poll_server \<Rightarrow> accepted \<Rightarrow> nat list" where
  "joins max_clients s (Accepted fd (Some addr) port) = (if nclients s = max_clients then [] else [fd])"
| "joins max_clients s _ = []"

lemma added:
  assumes "nclients s \<le> mx" "length (clients s) = mx" "2 \<le> nclients s" "add_client mx fd s = (as, s2)"
    and "nclients s = mx \<or> revents (clients s ! nclients s) = 0"
  shows "flagged 2 s2 = flagged 2 s" "client_fds s2 = client_fds s @ (if nclients s = mx then [] else [fd])"
    "pbuf s2 = pbuf s" "nclients s2 \<le> length (clients s2)"
  using assms by (auto simp: add_client_def flagged_def client_fds_def take_Suc_conv_app_nth split: if_splits)

text \<open>C11: One round of the poll server, whether or not there is a new connection: it reads from every
  client that \<open>poll\<close> flagged exactly once, and from no other, echoes what it read, and closes exactly
  those at end of file or with \<open>quit\<close>; a new connection is announced and takes the next entry, or
  is closed when the array is full; afterwards the array holds the descriptors it held and the
  new one, without the closed ones, although closing moves the last entry forward during the
  sweep. Conditions: the line of standard input is not ready (the server would end), \<open>accept\<close>
  succeeds, the calls do not fail and read less than \<open>BUFSIZE\<close> bytes, and, when a connection joins,
  the entry it takes has no events left over from an earlier client (or nothing else is ready);
  \<open>stale_revents_skip_client\<close> shows what happens otherwise.\<close>

theorem poll_serves_each_once:
  assumes "length (pbuf s) = BUFSIZE" "2 \<le> nclients s" "nclients s \<le> max_clients" "length (clients s) = max_clients"
    and "length revs = nclients s" "revs ! 0 AND POLLRDNORM = 0"
    and "\<forall>d\<in>set ds. length d < BUFSIZE" "length ds = length (ready_clients revs s)"
  defines "new \<equiv> revs ! 1 AND POLLRDNORM \<noteq> 0"
  assumes "new \<Longrightarrow> \<exists>fd addr port. acc = Accepted fd (Some addr) port"
    and "new \<Longrightarrow> nclients s = max_clients \<or> revents (clients s ! nclients s) = 0 \<or> revs ! 0 = 0 \<and> ds = []"
  shows "\<exists>served s'. poll_round max_clients main_fd (PollReady revs) acc (map full ds) s =
      (Note ''>> ready descriptors'' (int (length (filter (\<lambda>v. v \<noteq> 0) revs)))
         # (if new then accept_acts max_clients s acc else []) @ concat (map poll_acts (zip served ds)), Inr s')
    \<and> mset served = mset (ready_clients revs s)
    \<and> mset (client_fds s') + mset (map fst (filter (\<lambda>(fd, d). closes d) (zip served ds)))
        = mset (client_fds s @ (if new then joins max_clients s acc else []))"
proof -
  let ?n = "length (filter (\<lambda>v. v \<noteq> 0) revs)"
  have len: "nclients s \<le> length (clients s)" using assms(3,4) by simp
  obtain s1 where p: "poll (PollReady revs) s = (int ?n, s1)"
    using reported(2)[OF assms(5) len assms(2)] by (metis surj_pair)
  note r = reported[OF assms(5) len assms(2) p]
  have fl: "length (flagged 2 s1) = length ds" using arg_cong[OF r(1), of length] assms(8) by simp
  have a0: "revents (clients s1 ! 0) AND POLLRDNORM = 0" using r(8) assms(6) by simp
  show ?thesis
  proof (cases new)
    case False
    then have a1: "revents (clients s1 ! 1) AND POLLRDNORM = 0" using r(9) by (simp add: new_def)
    have "sweep_ok 2 s1 ds (serve_clients 2 (int ?n) s1 (map full ds))"
      by (rule serve_clients_ok) (use assms r fl len in auto)
    then show ?thesis using False a0 a1 r(1,4) unfolding poll_round_def p by (auto simp: Let_def sweep_ok_def)
  next
    case True
    then have a1: "revents (clients s1 ! 1) AND POLLRDNORM \<noteq> 0" "revs ! 1 \<noteq> 0" using r(9) by (auto simp: new_def)
    obtain fd addr port where acc: "acc = Accepted fd (Some addr) port" using assms(10)[OF True] by blast
    obtain b s2 where b: "add_client max_clients fd s1 = (b, s2)" by fastforce
    have b': "accept_acts max_clients s acc = [Puts ''** new connection **'', Established addr port] @ b"
        "joins max_clients s acc = (if nclients s1 = max_clients then [] else [fd])"
      using b r(5) by (auto simp: acc add_client_def split: if_splits)
    have l1: "nclients s1 \<le> max_clients" "length (clients s1) = max_clients" "2 \<le> nclients s1" using assms(2-4) r(5,7) by simp_all
    have fds: "client_fds s2 = client_fds s @ joins max_clients s acc"
      using b b'(2) r(4) l1 by (auto simp: add_client_def client_fds_def take_Suc_conv_app_nth split: if_splits)
    show ?thesis
    proof (cases "?n = 1")
      case one: True
      then have "ds = []" "flagged 2 s1 = []" using r(3) a1(2) fl by (auto split: if_splits)
      then show ?thesis using True one a0 a1 b b' fds r(1)[symmetric] unfolding poll_round_def p
        by (auto simp: Let_def acc)
    next
      case more: False
      have "nclients s = max_clients \<or> revents (clients s ! nclients s) = 0"
        using assms(11)[OF True] r(3) a1(2) fl more by (auto split: if_splits)
      then have st: "nclients s1 = max_clients \<or> revents (clients s1 ! nclients s1) = 0"
        using arg_cong[OF r(10), of hd] assms(3,4) r(5,7)
        by (cases "nclients s = max_clients") (auto simp: hd_drop_conv_nth)
      note ad = added[OF l1 b st]
      have "sweep_ok 2 s2 ds (serve_clients 2 (int ?n - 1) s2 (map full ds))"
        by (rule serve_clients_ok) (use assms(1,7) r(3,6) fl a1(2) ad in \<open>auto split: if_splits\<close>)
      then show ?thesis using True more a0 a1 b b' fds r(1) ad(1) unfolding poll_round_def p
        by (auto simp: Let_def sweep_ok_def acc)
    qed
  qed
qed

definition demo_poll :: poll_server where
  "demo_poll = \<lparr>clients = map (\<lambda>fd. \<lparr>pfd = fd, events = POLLRDNORM, revents = 0\<rparr>) [0, 3, 7, 8, 9, 10, 0, 0],
     nclients = 6, pbuf = blank\<rparr>"

lemma poll_serves_each_once_witness:
  "\<exists>served s'. poll_round 8 3 (PollReady [0, 0x40, 1, 0, 1, 1]) (Accepted 11 (Some ''10.0.0.1'') 5000) (map full [[], [0x61], [0x62]]) demo_poll =
      (Note ''>> ready descriptors'' 4 # Puts ''** new connection **'' # Established ''10.0.0.1'' 5000
         # concat (map poll_acts (zip served [[], [0x61], [0x62]])), Inr s')
    \<and> mset served = {#7, 9, 10#}"
  using poll_serves_each_once[of demo_poll 8 "[0, 0x40, 1, 0, 1, 1]" "[[], [0x61], [0x62]]"
      "Accepted 11 (Some ''10.0.0.1'') 5000" 3]
  by (fastforce simp: demo_poll_def BUFSIZE_def client_fds_def ready_clients_def POLLRDNORM_def)

text \<open>Two ready clients in front of an entry that an earlier client has left.\<close>

definition stale_poll :: poll_server where
  "stale_poll = \<lparr>clients = [\<lparr>pfd = 0, events = POLLRDNORM, revents = 0\<rparr>, \<lparr>pfd = 3, events = POLLRDNORM, revents = 0\<rparr>,
       \<lparr>pfd = 7, events = POLLRDNORM, revents = 0\<rparr>, \<lparr>pfd = 8, events = POLLRDNORM, revents = 0\<rparr>,
       \<lparr>pfd = 9, events = POLLRDNORM, revents = 1\<rparr>],
     nclients = 4, pbuf = blank\<rparr>"

text \<open>The entry that a new connection takes keeps the \<open>revents\<close> an earlier client left there: with two
  ready clients, of which the first leaves, the new one is moved into its place and read from
  though it is not ready, and the second ready client (descriptor 8) is not served.\<close>

theorem stale_revents_skip_client:
  "fst (poll_round 5 3 (PollReady [0, 0x40, 1, 1]) (Accepted 9 (Some ''10.0.0.1'') 5000) [full [], full [0x61]] stale_poll)
     = [Note ''>> ready descriptors'' 3, Puts ''** new connection **'', Established ''10.0.0.1'' 5000]
       @ poll_acts (7, []) @ poll_acts (9, [0x61])
    \<and> ready_clients [0, 0x40, 1, 1] stale_poll = [7, 8]"
proof -
  define s2 where "s2 = snd (add_client 5 9 (snd (poll (PollReady [0, 0x40, 1, 1]) stale_poll)))"
  have s2: "clients s2 = [\<lparr>pfd = 0, events = POLLRDNORM, revents = 0\<rparr>, \<lparr>pfd = 3, events = POLLRDNORM, revents = 0x40\<rparr>,
       \<lparr>pfd = 7, events = POLLRDNORM, revents = 1\<rparr>, \<lparr>pfd = 8, events = POLLRDNORM, revents = 1\<rparr>,
       \<lparr>pfd = 9, events = POLLRDNORM, revents = 1\<rparr>]" "nclients s2 = 5" "pbuf s2 = blank"
    by (simp_all add: s2_def add_client_def poll_def stale_poll_def)
  have p: "poll (PollReady [0, 0x40, 1, 1]) stale_poll = (3, snd (poll (PollReady [0, 0x40, 1, 1]) stale_poll))"
    by (simp add: poll_def stale_poll_def)
  have ad: "add_client 5 9 (snd (poll (PollReady [0, 0x40, 1, 1]) stale_poll)) = ([], s2)"
    by (simp add: s2_def add_client_def poll_def stale_poll_def)
  have rv: "revents (clients (snd (poll (PollReady [0, 0x40, 1, 1]) stale_poll)) ! 0) = 0"
    "revents (clients (snd (poll (PollReady [0, 0x40, 1, 1]) stale_poll)) ! 1) = 0x40"
    by (simp_all add: poll_def stale_poll_def)
  let ?s3 = "s2\<lparr>pbuf := stored blank [], clients := (clients s2)[2 := clients s2 ! 4], nclients := 4\<rparr>"
  have pc: "poll_client 7 blank (full []) = (poll_acts (7, []), Leaves (stored blank []))"
    "poll_client 9 (stored blank []) (full [0x61]) = (poll_acts (9, [0x61]), Continues (stored (stored blank []) [0x61]))"
    using poll_client_full[of "[]" blank 7] poll_client_full[of "[0x61]" "stored blank []" 9]
    by (simp_all add: closes_def BUFSIZE_def stored_length command_in_def quit_text_def)
  have 1: "serve_clients 2 2 s2 [full [], full [0x61]] = sweep_more (poll_acts (7, [])) 7 [7] (serve_clients 2 1 ?s3 [full [0x61]])"
    using serve_leave[of 2 2 s2 "full []" "poll_acts (7, [])" "stored blank []" "[full [0x61]]"] pc(1) s2 by simp
  have 2: "sw_acts (serve_clients 2 1 ?s3 [full [0x61]]) = poll_acts (9, [0x61])"
    using serve_continue[of 1 2 ?s3 "full [0x61]" "poll_acts (9, [0x61])" "stored (stored blank []) [0x61]" "[]"] pc(2) s2
    by (simp add: serve_done)
  have "(0x40 :: 16 word) AND POLLRDNORM \<noteq> 0" by (simp add: POLLRDNORM_def)
  then show ?thesis using rv ad 1 2 unfolding poll_round_def
    by (subst p) (simp add: Let_def ready_clients_def client_fds_def stale_poll_def)
qed

section \<open>Bounds of the array\<close>

definition poll_inv :: "nat \<Rightarrow> nat \<Rightarrow> poll_server \<Rightarrow> bool" where
  "poll_inv max_clients main_fd s \<longleftrightarrow> 2 \<le> nclients s \<and> nclients s \<le> max_clients \<and> length (clients s) = max_clients
     \<and> pfd (clients s ! 0) = 0 \<and> pfd (clients s ! 1) = main_fd"

lemma serve_clients_inv:
  "poll_inv mx main_fd s \<Longrightarrow> 2 \<le> i \<Longrightarrow> sw_end (serve_clients i nready s calls) = Inr s' \<Longrightarrow> poll_inv mx main_fd s'"
proof (induction i nready s calls rule: serve_clients.induct)
  case (1 i nready s calls)
  note prems = "1.prems"
  show ?case
  proof (cases "0 < nready \<and> i < nclients s")
    case False
    then show ?thesis using prems by (simp add: serve_done)
  next
    case go: True
    show ?thesis
    proof (cases "revents (clients s ! i) = 0")
      case True
      then show ?thesis using "1.IH"(3)[OF go] prems serve_skip[OF go True] by simp
    next
      case ready: False
      obtain call calls1 where calls: "calls = call # calls1"
        using prems(3) go ready by (cases calls) (auto simp: serve_clients.simps[of i nready s])
      obtain a nx where pc: "poll_client (pfd (clients s ! i)) (pbuf s) call = (a, nx)" by fastforce
      show ?thesis
      proof (cases nx)
        case (Continues buf1)
        have "poll_inv mx main_fd (s\<lparr>pbuf := buf1\<rparr>)" using prems(1) by (simp add: poll_inv_def)
        from "1.IH"(1)[OF go ready refl calls _ Continues this] show ?thesis
          using pc prems(2,3) Continues serve_continue[OF go ready pc[unfolded Continues]] calls by simp
      next
        case (Leaves buf1)
        have "poll_inv mx main_fd (s\<lparr>pbuf := buf1, clients := (clients s)[i := clients s ! (nclients s - 1)],
            nclients := nclients s - 1\<rparr>)" using prems(1,2) go by (auto simp: poll_inv_def)
        from "1.IH"(2)[OF go ready refl calls _ Leaves this] show ?thesis
          using pc prems(2,3) Leaves serve_leave[OF go ready pc[unfolded Leaves]] calls by simp
      qed (use prems(3) go ready calls pc in \<open>simp_all add: serve_clients.simps[of i nready s] Let_def\<close>)
    qed
  qed
qed

lemma poll_inv_poll: "poll_inv mx m s \<Longrightarrow> poll r s = (n, s1) \<Longrightarrow> poll_inv mx m s1"
  by (auto simp: poll_inv_def poll_def nth_append Let_def split: poll_result.splits prod.splits)

lemma poll_inv_add: "poll_inv mx m s \<Longrightarrow> add_client mx fd s = (as, s1) \<Longrightarrow> poll_inv mx m s1"
  by (auto simp: poll_inv_def add_client_def split: if_splits)

lemma poll_round_inv:
  assumes "poll_inv mx m s" "poll_round mx m r acc calls s = (as, Inr s')"
  shows "poll_inv mx m s'"
proof -
  obtain n s1 where p: "poll r s = (n, s1)" by fastforce
  note i1 = poll_inv_poll[OF assms(1) p]
  show ?thesis
    using assms(2) i1 serve_clients_inv[OF i1, where i = 2] serve_clients_inv[OF poll_inv_add[OF i1], where i = 2]
      poll_inv_add[OF i1]
    by (auto simp: poll_round_def p Let_def split: if_splits accepted.splits option.splits prod.splits)
qed

lemma poll_rounds_inv:
  "poll_inv mx m s \<Longrightarrow> poll_rounds mx m rs s = (as, Inr s') \<Longrightarrow> poll_inv mx m s'"
proof (induction rs arbitrary: s as)
  case (Cons x rs)
  obtain r acc calls where x: "x = (r, acc, calls)" by (cases x) auto
  obtain a nx where pr: "poll_round mx m r acc calls s = (a, nx)" by fastforce
  then obtain s1 a1 where s1: "nx = Inr s1" "poll_rounds mx m rs s1 = (a1, Inr s')"
    using Cons.prems(2) x by (cases nx) (auto split: prod.splits)
  show ?case
    by (rule Cons.IH[OF poll_round_inv[OF Cons.prems(1) pr[unfolded s1(1)]] s1(2)])
qed simp

text \<open>C31: After any number of rounds the array index of the next client is between 2 and
  \<open>FOPEN_MAX\<close>, standard input and the listening socket are still its first two entries (no
  client ever takes their place), and so, at the end, the listening socket is closed twice.\<close>

theorem poll_array_bounds:
  assumes "2 \<le> max_clients" "length junk = max_clients"
    and "poll_rounds max_clients main_fd rs (poll_start main_fd junk buf) = (as, Inr s)"
  shows "2 \<le> nclients s \<and> nclients s \<le> max_clients \<and> length (clients s) = max_clients
    \<and> poll_closing main_fd s = [Puts ''** closing **'', Closed 0, Closed main_fd]
        @ map Closed (drop 2 (client_fds s)) @ [Closed main_fd, Puts '':: END ::'']"
proof -
  have "poll_inv max_clients main_fd (poll_start main_fd junk buf)"
    using assms(1,2) by (auto simp: poll_inv_def poll_start_def)
  from poll_rounds_inv[OF this assms(3)] have i: "poll_inv max_clients main_fd s" .
  then have "2 \<le> length (take (nclients s) (clients s))" by (simp add: poll_inv_def)
  then obtain c0 c1 cs where c: "take (nclients s) (clients s) = c0 # c1 # cs"
    unfolding numeral_2_eq_2 Suc_le_length_iff by blast
  have "take (nclients s) (clients s) ! 0 = clients s ! 0" "take (nclients s) (clients s) ! 1 = clients s ! 1"
    using i by (auto simp: poll_inv_def)
  then have "pfd c0 = 0" "pfd c1 = main_fd" using i unfolding c by (simp_all add: poll_inv_def)
  then show ?thesis using i by (simp add: poll_closing_def poll_inv_def client_fds_def c)
qed

definition unused_entry :: pollfd where
  "unused_entry = \<lparr>pfd = 0, events = 0, revents = 0\<rparr>"

lemma poll_array_bounds_witness:
  "\<exists>as s. poll_rounds 4 3 [(PollReady [0, 0x40], Accepted 9 (Some ''10.0.0.1'') 5000, []), (PollReady [0, 0, 0], AcceptFails, [])]
      (poll_start 3 [unused_entry, unused_entry, unused_entry, unused_entry] blank) = (as, Inr s)
    \<and> poll_closing 3 s = [Puts ''** closing **'', Closed 0, Closed 3, Closed 9, Closed 3, Puts '':: END ::'']"
proof -
  let ?rs = "[(PollReady [0, 0x40], Accepted 9 (Some ''10.0.0.1'') 5000, []), (PollReady [0, 0, 0], AcceptFails, [])]"
  let ?junk = "[unused_entry, unused_entry, unused_entry, unused_entry]"
  have "\<exists>as s. poll_rounds 4 3 ?rs (poll_start 3 ?junk blank) = (as, Inr s) \<and> client_fds s = [0, 3, 9]"
    by (simp add: poll_start_def poll_round_def poll_def POLLRDNORM_def add_client_def serve_done Let_def
        client_fds_def unused_entry_def)
  then obtain acts s where s: "poll_rounds 4 3 ?rs (poll_start 3 ?junk blank) = (acts, Inr s)" "client_fds s = [0, 3, 9]"
    by blast
  from poll_array_bounds[OF _ _ s(1)] s show ?thesis by auto
qed

end
