(* ===== verification/Epoll_Server.thy ===== *)
theory Epoll_Server
  imports Sockets
begin

unbundle bit_operations_syntax

text \<open>
  The echo server of 21 on \<open>epoll\<close>. What \<open>epoll_wait\<close> reports is a list of descriptors with
  event masks; with each come the results of the calls its branch makes.
\<close>

definition EPOLLIN :: "32 word" where "EPOLLIN = 0x1"
definition EPOLLERR :: "32 word" where "EPOLLERR = 0x8"

text \<open>\<open>watched\<close> is the kernel's interest list, \<open>enrolled\<close> the connections ever added to it.\<close>

record epoll_server =
  nevents :: nat
  ebuf :: "byte list"
  watched :: "nat list"
  enrolled :: "nat list"

record epoll_report =
  ep_fd :: nat
  ep_events :: "32 word"
  ep_accept :: accepted
  ep_ctl_ok :: bool
  ep_call :: io

definition epoll_closing :: "nat \<Rightarrow> nat \<Rightarrow> act list" where
  "epoll_closing events_fd main_fd =
     [Puts ''** closing **'', Closed events_fd, Closed main_fd, Puts '':: END ::'']"

definition epoll_accept :: "nat \<Rightarrow> epoll_report \<Rightarrow> epoll_server \<Rightarrow> act list \<times> (ending + epoll_server)" where
  "epoll_accept max_clients ev s =
     (let a = [Puts ''** new connection **''] in
      case ep_accept ev of
        AcceptFails \<Rightarrow> (a @ [Perror ''ERROR on accept''], Inl (Exits 1))
      | Accepted fd None port \<Rightarrow> (a @ [Perror ''ERROR on inet_ntoa''], Inl (Exits 1))
      | Accepted fd (Some addr) port \<Rightarrow>
          (let a = a @ [Established addr port] in
           if nevents s = max_clients
           then (a @ [Puts ''** maximum clients exceeded'', Closed fd], Inr s)
           else if \<not> ep_ctl_ok ev
           then (a @ [Closed fd, Perror ''ERROR on epoll_ctl for conn_fd''], Inl (Exits 1))
           else (a, Inr (s\<lparr>nevents := nevents s + 1, watched := watched s @ [fd], enrolled := enrolled s @ [fd]\<rparr>))))"

definition epoll_client :: "nat \<Rightarrow> nat \<Rightarrow> epoll_report \<Rightarrow> epoll_server \<Rightarrow> act list \<times> (ending + epoll_server)" where
  "epoll_client events_fd main_fd ev s =
     (let fd = ep_fd ev; a = [Note ''** event occurred on client'' (int fd)] in
      case ep_call ev of
        ReadFails \<Rightarrow> (a @ [Closed fd, Perror ''ERROR reading from socket''], Inl (Exits 1))
      | Reads avail w \<Rightarrow>
          (let data = read_call avail in
           case receive (ebuf s) data of
             Inl e \<Rightarrow> (a, Inl (Fails e))
           | Inr buf \<Rightarrow>
               (let b = a @ [Received (int (length data)) (cstr buf)];
                    s = s\<lparr>ebuf := buf\<rparr>;
                    r = (if length data = 0 \<or> is_command quit_text buf
                         then (let c = [Note ''** closing client'' (int fd)] in
                               if \<not> ep_ctl_ok ev
                               then (c @ [Closed main_fd, Closed events_fd, Perror ''ERROR on epoll_ctl for conn_fd''], Inl (Exits 1))
                               else (c @ [Closed fd], Inr (s\<lparr>watched := removeAll fd (watched s)\<rparr>)))
                         else ([], Inr s)) in
                if 0 < length data
                then (case w of
                        None \<Rightarrow> (b @ [Perror ''ERROR writing to socket''], Inl (Exits 1))
                      | Some n \<Rightarrow> (b @ [Wrote fd (take n (take (length data) buf))] @ fst r, snd r))
                else (b @ fst r, snd r))))"

fun epoll_events :: "nat \<Rightarrow> nat \<Rightarrow> nat \<Rightarrow> epoll_report list \<Rightarrow> epoll_server \<Rightarrow> act list \<times> (ending + epoll_server)" where
  "epoll_events max_clients events_fd main_fd [] s = ([], Inr s)"
| "epoll_events max_clients events_fd main_fd (ev # evs) s =
     (if ep_fd ev = 0 \<and> ep_events ev AND EPOLLIN \<noteq> 0
      then ([Puts ''** exiting **''] @ epoll_closing events_fd main_fd, Inl (Exits 0))
      else
       (case (if ep_fd ev = main_fd \<and> ep_events ev AND EPOLLIN \<noteq> 0 then epoll_accept max_clients ev s
              else if ep_events ev AND (EPOLLIN OR EPOLLERR) \<noteq> 0 then epoll_client events_fd main_fd ev s
              else ([], Inr s)) of
          (as, Inl e) \<Rightarrow> (as, Inl e)
        | (as, Inr s1) \<Rightarrow> (let (as1, e) = epoll_events max_clients events_fd main_fd evs s1 in (as @ as1, e))))"

text \<open>A round: \<open>epoll_wait\<close> reports at most \<open>nevents\<close> descriptors; \<open>None\<close> is its failure.\<close>

fun epoll_rounds :: "nat \<Rightarrow> nat \<Rightarrow> nat \<Rightarrow> epoll_report list option list \<Rightarrow> epoll_server \<Rightarrow> act list \<times> (ending + epoll_server)" where
  "epoll_rounds max_clients events_fd main_fd [] s = ([], Inr s)"
| "epoll_rounds max_clients events_fd main_fd (r # rs) s =
     (let evs = (case r of None \<Rightarrow> [] | Some reported \<Rightarrow> take (nevents s) reported);
          nready = (case r of None \<Rightarrow> - 1 | Some reported \<Rightarrow> int (length evs)) in
      case epoll_events max_clients events_fd main_fd evs s of
        (as, Inl e) \<Rightarrow> (Note ''ready descriptors'' nready # as, Inl e)
      | (as, Inr s1) \<Rightarrow>
          (let (as1, e) = epoll_rounds max_clients events_fd main_fd rs s1 in
           (Note ''ready descriptors'' nready # as @ as1, e)))"

text \<open>The results of \<open>epoll_create\<close> and of the two \<open>epoll_ctl\<close> of the start; \<open>max_clients\<close> is
  \<open>FOPEN_MAX\<close>.\<close>

record epoll_setup =
  create_returns :: int
  ctl_stdin_ok :: bool
  ctl_main_ok :: bool

definition epoll_start :: "byte list \<Rightarrow> nat \<Rightarrow> epoll_server" where
  "epoll_start buf main_fd = \<lparr>nevents = 2, ebuf = buf, watched = [0, main_fd], enrolled = []\<rparr>"

definition epoll_server_main :: "nat \<Rightarrow> string list \<Rightarrow> net_setup \<Rightarrow> epoll_setup \<Rightarrow> (nat \<Rightarrow> byte)
    \<Rightarrow> epoll_report list option list \<Rightarrow> act list \<times> (ending + epoll_server)" where
  "epoll_server_main max_clients argv env env2 junk rs =
     (if length argv \<noteq> 2 then ([Usage], Inl (Exits 1))
      else (case atoi (argv ! 1) of
              Inl e \<Rightarrow> ([], Inl (Fails e))
            | Inr port \<Rightarrow>
                (case tcp_setup port env of
                   (as, Inl n) \<Rightarrow> (Puts '':: START ::'' # as, Inl (Exits n))
                 | (as, Inr main_fd) \<Rightarrow>
                     (let a = Puts '':: START ::'' # as; events_fd = nat (create_returns env2) in
                      if create_returns env2 = - 1
                      then (a @ [Closed main_fd, Perror ''ERROR on epoll_create''], Inl (Exits 1))
                      else if \<not> ctl_stdin_ok env2
                      then (a @ [Closed main_fd, Closed events_fd, Perror ''ERROR on epoll_ctl for stdin''], Inl (Exits 1))
                      else if \<not> ctl_main_ok env2
                      then (a @ [Closed main_fd, Closed events_fd, Perror ''ERROR on epoll_ctl for main_fd''], Inl (Exits 1))
                      else (let (as1, e) = epoll_rounds max_clients events_fd main_fd rs (epoll_start (stack_buffer junk) main_fd) in
                            (a @ as1, e))))))"

section \<open>The count of events only grows\<close>

definition epoll_inv :: "nat \<Rightarrow> nat \<Rightarrow> epoll_server \<Rightarrow> bool" where
  "epoll_inv max_clients main_fd s \<longleftrightarrow> nevents s = 2 + length (enrolled s) \<and> nevents s \<le> max_clients
     \<and> set (watched s) \<subseteq> {0, main_fd} \<union> set (enrolled s)"

lemma epoll_accept_inv:
  "epoll_inv mx m s \<Longrightarrow> epoll_accept mx ev s = (as, Inr s1) \<Longrightarrow> epoll_inv mx m s1"
  by (auto simp: epoll_accept_def epoll_inv_def Let_def split: accepted.splits option.splits if_splits)

lemma epoll_client_inv:
  "epoll_inv mx m s \<Longrightarrow> epoll_client efd mfd ev s = (as, Inr s1) \<Longrightarrow> epoll_inv mx m s1"
  by (auto simp: epoll_client_def epoll_inv_def Let_def split: io.splits sum.splits option.splits if_splits)

lemma epoll_events_inv:
  "epoll_inv mx m s \<Longrightarrow> epoll_events mx efd mfd evs s = (as, Inr s1) \<Longrightarrow> epoll_inv mx m s1"
proof (induction evs arbitrary: s as)
  case (Cons ev evs)
  then obtain s2 a where "epoll_inv mx m s2" "epoll_events mx efd mfd evs s2 = (a, Inr s1)"
    by (auto split: if_splits prod.splits sum.splits dest: epoll_accept_inv epoll_client_inv)
  then show ?case by (rule Cons.IH)
qed simp

lemma epoll_rounds_inv:
  "epoll_inv mx m s \<Longrightarrow> epoll_rounds mx efd mfd rs s = (as, Inr s1) \<Longrightarrow> epoll_inv mx m s1"
proof (induction rs arbitrary: s as)
  case (Cons r rs)
  then obtain s2 a where "epoll_inv mx m s2" "epoll_rounds mx efd mfd rs s2 = (a, Inr s1)"
    by (auto simp: Let_def split: prod.splits sum.splits dest: epoll_events_inv)
  then show ?case by (rule Cons.IH)
qed simp

text \<open>C35: The epoll server counts connections up and never down: in its whole life it takes at most
  \<open>FOPEN_MAX - 2\<close> clients, and from then on it closes every new connection at once, even when
  all earlier ones have left and it watches nobody.\<close>

theorem epoll_refuses_for_ever:
  assumes "2 \<le> max_clients"
    and "epoll_rounds max_clients events_fd main_fd rs (epoll_start buf main_fd) = (as, Inr s)"
    and "ep_accept ev = Accepted fd (Some addr) port"
  shows "length (enrolled s) \<le> max_clients - 2
    \<and> (length (enrolled s) = max_clients - 2 \<longrightarrow>
        epoll_accept max_clients ev s =
          ([Puts ''** new connection **'', Established addr port, Puts ''** maximum clients exceeded'', Closed fd], Inr s))"
proof -
  have "epoll_inv max_clients main_fd (epoll_start buf main_fd)"
    using assms(1) by (simp add: epoll_inv_def epoll_start_def)
  from epoll_rounds_inv[OF this assms(2)] show ?thesis
    using assms(1,3) by (auto simp: epoll_inv_def epoll_accept_def Let_def)
qed

definition two_visits :: "epoll_report list option list" where
  "two_visits =
     [Some [\<lparr>ep_fd = 3, ep_events = 1, ep_accept = Accepted 5 (Some ''10.0.0.1'') 1, ep_ctl_ok = True, ep_call = ReadFails\<rparr>],
      Some [\<lparr>ep_fd = 5, ep_events = 1, ep_accept = AcceptFails, ep_ctl_ok = True, ep_call = Reads [] None\<rparr>],
      Some [\<lparr>ep_fd = 3, ep_events = 1, ep_accept = Accepted 5 (Some ''10.0.0.2'') 2, ep_ctl_ok = True, ep_call = ReadFails\<rparr>],
      Some [\<lparr>ep_fd = 5, ep_events = 1, ep_accept = AcceptFails, ep_ctl_ok = True, ep_call = Reads [] None\<rparr>]]"

lemma epoll_refuses_for_ever_witness:
  "\<exists>as s. epoll_rounds 4 4 3 two_visits (epoll_start (replicate 8 0) 3) = (as, Inr s) \<and> watched s = [0, 3]
    \<and> epoll_accept 4 \<lparr>ep_fd = 3, ep_events = 1, ep_accept = Accepted 5 (Some ''10.0.0.3'') 3, ep_ctl_ok = True, ep_call = ReadFails\<rparr> s
      = ([Puts ''** new connection **'', Established ''10.0.0.3'' 3, Puts ''** maximum clients exceeded'', Closed 5], Inr s)"
proof -
  have "\<exists>as s. epoll_rounds 4 4 3 two_visits (epoll_start (replicate 8 0) 3) = (as, Inr s)
      \<and> watched s = [0, 3] \<and> length (enrolled s) = 2"
    by (simp add: two_visits_def epoll_start_def epoll_accept_def epoll_client_def receive_def EPOLLIN_def EPOLLERR_def
        cstr_def Let_def)
  then obtain acts s where s: "epoll_rounds 4 4 3 two_visits (epoll_start (replicate 8 0) 3) = (acts, Inr s)"
    "watched s = [0, 3]" "length (enrolled s) = 2" by blast
  from epoll_refuses_for_ever[OF _ s(1)] s show ?thesis by auto
qed

end
