(* ===== verification/Uv_Server.thy ===== *)
theory Uv_Server
  imports Sockets "HOL-Library.Multiset"
begin

text \<open>
  The echo server of 21 on libuv: callbacks and the memory they allocate and free. The library
  itself is not modelled: an event is a call of one callback, with the arguments libuv gives it;
  the guards of \<open>uv_step\<close> are what its documentation promises (a read callback only for a handle
  that reads and has not been closed, a write callback once for each write, a close callback
  once for each close). \<open>malloc\<close> gives fresh blocks and does not fail.
\<close>

section \<open>Memory and callbacks\<close>

text \<open>\<open>uv_buffers\<close>: live buffers with their sizes. \<open>uv_requests\<close>: live write requests with their
  buffer. \<open>unused_reads\<close> counts the read callbacks without data.\<close>

record uv_state =
  uv_handles :: "nat list"
  uv_reading :: "nat list"
  uv_closing :: "nat list"
  uv_buffers :: "(nat \<times> nat) list"
  uv_requests :: "(nat \<times> nat) list"
  unused_reads :: nat
  uv_trace :: "act list"

definition uv_out :: "act list \<Rightarrow> uv_state \<Rightarrow> uv_state" where
  "uv_out as s = s\<lparr>uv_trace := uv_trace s @ as\<rparr>"

definition free_write_req :: "nat \<Rightarrow> uv_state \<Rightarrow> c_error + uv_state" where
  "free_write_req req s =
     (case map_of (uv_requests s) req of
        None \<Rightarrow> Inl InvalidAccess
      | Some b \<Rightarrow>
          if b \<notin> fst ` set (uv_buffers s) then Inl InvalidAccess
          else Inr (s\<lparr>uv_buffers := filter (\<lambda>(c, n). c \<noteq> b) (uv_buffers s),
                 uv_requests := filter (\<lambda>(r, c). r \<noteq> req) (uv_requests s)\<rparr>))"

definition uv_error :: "int \<Rightarrow> string \<Rightarrow> uv_state \<Rightarrow> uv_state" where
  "uv_error err msg s = uv_out [Note msg err] s"

definition alloc_buffer :: "nat \<Rightarrow> nat \<Rightarrow> uv_state \<Rightarrow> uv_state" where
  "alloc_buffer b suggested_size s = s\<lparr>uv_buffers := uv_buffers s @ [(b, suggested_size)]\<rparr>"

definition on_close :: "nat \<Rightarrow> uv_state \<Rightarrow> uv_state" where
  "on_close h s = uv_out [Puts ''** on close **'']
     (s\<lparr>uv_handles := removeAll h (uv_handles s), uv_closing := removeAll h (uv_closing s)\<rparr>)"

definition after_write :: "nat \<Rightarrow> int \<Rightarrow> uv_state \<Rightarrow> c_error + uv_state" where
  "after_write req status s =
     free_write_req req (if status \<noteq> 0 then uv_error status ''write error'' s else s)"

definition uv_close :: "nat \<Rightarrow> uv_state \<Rightarrow> uv_state" where
  "uv_close h s = s\<lparr>uv_closing := uv_closing s @ [h], uv_reading := removeAll h (uv_reading s)\<rparr>"

text \<open>\<open>data\<close> is what libuv has put into the buffer \<open>b\<close>; \<open>req\<close> is the block \<open>malloc\<close> gives.\<close>

definition on_read :: "int \<Rightarrow> nat \<Rightarrow> int \<Rightarrow> nat \<Rightarrow> nat \<Rightarrow> byte list \<Rightarrow> nat \<Rightarrow> uv_state \<Rightarrow> c_error + uv_state" where
  "on_read uv_eof client nread b bsize data req s =
     (let s = uv_out [Note ''** read'' nread] s in
      if nread > 0
      then (if nat nread < bsize
            then Inr (uv_out [Received nread (cstr (take (nat nread) data)), Wrote client (take (nat nread) data)]
                   (s\<lparr>uv_requests := uv_requests s @ [(req, b)]\<rparr>))
            else Inl OutOfBounds)
      else if nread < 0
      then Inr (uv_close client (if nread = uv_eof then uv_out [Puts ''** eof **''] s
                                 else uv_error nread ''read error'' s))
      else Inr s)"

definition prepare_client :: "nat \<Rightarrow> string \<Rightarrow> int \<Rightarrow> uv_state \<Rightarrow> uv_state" where
  "prepare_client client addr port s =
     uv_out [Established addr port] (s\<lparr>uv_reading := uv_reading s @ [client]\<rparr>)"

definition on_new_connection :: "nat \<Rightarrow> int \<Rightarrow> int \<Rightarrow> string \<Rightarrow> int \<Rightarrow> uv_state \<Rightarrow> uv_state" where
  "on_new_connection client status accept_returns addr port s =
     (let s = uv_out [Puts ''** on new connection **''] s in
      if status < 0 then uv_error status ''new connection failed'' s
      else (let s = s\<lparr>uv_handles := uv_handles s @ [client]\<rparr> in
            if accept_returns = 0 then prepare_client client addr port s else uv_close client s))"

section \<open>The loop\<close>

datatype uv_event =
    UvConnection nat int int string int
  | UvRead nat int nat nat "byte list" nat
  | UvWritten nat int
  | UvClosed nat

definition uv_step :: "int \<Rightarrow> uv_event \<Rightarrow> uv_state \<Rightarrow> (c_error + uv_state) option" where
  "uv_step uv_eof e s =
     (case e of
        UvConnection c status ret addr port \<Rightarrow>
          if c \<in> set (uv_handles s) then None else Some (Inr (on_new_connection c status ret addr port s))
      | UvRead c nread b bsize data req \<Rightarrow>
          if c \<in> set (uv_reading s) \<and> b \<notin> fst ` set (uv_buffers s) \<and> req \<notin> fst ` set (uv_requests s)
             \<and> nread \<le> int bsize \<and> (0 < nread \<longrightarrow> length data = nat nread)
          then Some (map_sum id (\<lambda>s. if nread \<le> 0 then s\<lparr>unused_reads := unused_reads s + 1\<rparr> else s)
                 (on_read uv_eof c nread b bsize data req (alloc_buffer b bsize s)))
          else None
      | UvWritten req status \<Rightarrow>
          if req \<in> fst ` set (uv_requests s) then Some (after_write req status s) else None
      | UvClosed c \<Rightarrow> if c \<in> set (uv_closing s) then Some (Inr (on_close c s)) else None)"

fun uv_run :: "int \<Rightarrow> uv_event list \<Rightarrow> uv_state \<Rightarrow> (c_error + uv_state) option" where
  "uv_run uv_eof [] s = Some (Inr s)"
| "uv_run uv_eof (e # es) s =
     (case uv_step uv_eof e s of
        None \<Rightarrow> None
      | Some (Inl err) \<Rightarrow> Some (Inl err)
      | Some (Inr s1) \<Rightarrow> uv_run uv_eof es s1)"

definition uv_start :: uv_state where
  "uv_start = \<lparr>uv_handles = [], uv_reading = [], uv_closing = [], uv_buffers = [], uv_requests = [], unused_reads = 0,
     uv_trace = []\<rparr>"

definition prepare_server :: "int \<Rightarrow> int \<Rightarrow> int \<Rightarrow> uv_state \<Rightarrow> ending + uv_state" where
  "prepare_server port bind_ret listen_ret s =
     (if bind_ret \<noteq> 0 then Inl (Exits 1)
      else if listen_ret \<noteq> 0 then Inl (Exits 1)
      else Inr (uv_out [BoundTo (word_of_int port), Listening] s))"

definition uv_main :: "int \<Rightarrow> string list \<Rightarrow> int \<Rightarrow> int \<Rightarrow> uv_event list \<Rightarrow> (ending + uv_state) option" where
  "uv_main uv_eof argv bind_ret listen_ret es =
     (if length argv \<noteq> 2 then Some (Inl (Exits 1))
      else (case atoi (argv ! 1) of
              Inl e \<Rightarrow> Some (Inl (Fails e))
            | Inr port \<Rightarrow>
                (case prepare_server port bind_ret listen_ret (uv_out [Puts '':: START ::''] uv_start) of
                   Inl e \<Rightarrow> Some (Inl e)
                 | Inr s \<Rightarrow> map_option (map_sum Fails id) (uv_run uv_eof es s))))"

lemmas uv_defs = uv_out_def uv_error_def alloc_buffer_def on_close_def after_write_def uv_close_def
  on_read_def prepare_client_def on_new_connection_def

section \<open>What is freed, and what is not\<close>

definition uv_inv :: "uv_state \<Rightarrow> bool" where
  "uv_inv s \<longleftrightarrow> distinct (map fst (uv_buffers s)) \<and> distinct (map fst (uv_requests s)) \<and> distinct (map snd (uv_requests s))
     \<and> (\<forall>p\<in>set (uv_requests s). snd p \<in> fst ` set (uv_buffers s))
     \<and> length (uv_buffers s) = length (uv_requests s) + unused_reads s
     \<and> (\<forall>c\<in>set (uv_reading s). c \<in> set (uv_handles s) \<and> c \<notin> set (uv_closing s))
     \<and> (\<forall>c\<in>set (uv_closing s). c \<in> set (uv_handles s))"

lemma filter_key_length:
  "distinct (map fst xs) \<Longrightarrow> k \<in> fst ` set xs \<Longrightarrow> Suc (length (filter (\<lambda>(a, b). a \<noteq> k) xs)) = length xs"
proof (induction xs)
  case (Cons x xs)
  show ?case
  proof (cases "fst x = k")
    case True
    moreover have "fst x \<notin> fst ` set xs" using Cons.prems(1) by simp
    ultimately have "\<forall>p\<in>set xs. fst p \<noteq> k" by (metis image_eqI)
    then have "filter (\<lambda>(a, b). a \<noteq> k) xs = xs" by (auto simp: filter_id_conv)
    then show ?thesis using True by (cases x) auto
  next
    case False
    then show ?thesis using Cons by (cases x) auto
  qed
qed simp

lemma distinct_map_filter_keys: "distinct (map f xs) \<Longrightarrow> distinct (map f (filter P xs))"
  by (simp add: distinct_map_filter)

lemma free_inv:
  assumes "uv_inv s" "req \<in> fst ` set (uv_requests s)"
  shows "\<exists>s'. free_write_req req s = Inr s' \<and> uv_inv s'"
proof -
  have d: "distinct (map fst (uv_buffers s))" "distinct (map fst (uv_requests s))" "distinct (map snd (uv_requests s))"
    "\<forall>p\<in>set (uv_requests s). snd p \<in> fst ` set (uv_buffers s)" using assms(1) by (auto simp: uv_inv_def)
  obtain b where b: "(req, b) \<in> set (uv_requests s)" using assms(2) by auto
  then have m: "map_of (uv_requests s) req = Some b" using d(2) by simp
  have inb: "b \<in> fst ` set (uv_buffers s)" using b d(4) by force
  have other: "c \<noteq> b" if "(r, c) \<in> set (uv_requests s)" "r \<noteq> req" for r c
  proof
    assume "c = b"
    then have "(r, c) = (req, b)" using d(3) that(1) b unfolding distinct_map inj_on_def by (metis snd_conv)
    then show False using that(2) by simp
  qed
  have "\<forall>p\<in>set (filter (\<lambda>(r, c). r \<noteq> req) (uv_requests s)). snd p \<in> fst ` set (filter (\<lambda>(c, n). c \<noteq> b) (uv_buffers s))"
    using d(4) other by fastforce
  then show ?thesis
    using assms m inb d filter_key_length[OF d(1) inb] filter_key_length[OF d(2) assms(2)]
    by (auto simp: free_write_req_def uv_inv_def distinct_map_filter_keys)
qed

lemma uv_step_inv:
  assumes "uv_inv s" "uv_step uv_eof e s = Some r"
  shows "(\<exists>c b req data n. e = UvRead c (int n) b n data req \<and> r = Inl OutOfBounds) \<or> (\<exists>s'. r = Inr s' \<and> uv_inv s')"
proof (cases e)
  case (UvConnection c status ret addr port)
  then show ?thesis using assms by (auto simp: uv_step_def uv_inv_def uv_defs Let_def split: if_splits)
next
  case (UvRead c nread b bsize data req)
  have snd: "b \<notin> snd ` set (uv_requests s)" if "b \<notin> fst ` set (uv_buffers s)"
    using that assms(1) by (auto simp: uv_inv_def)
  show ?thesis
  proof (cases "nread = int bsize \<and> 0 < nread")
    case True
    then show ?thesis using assms(2) UvRead
      by (auto simp: uv_step_def on_read_def Let_def split: if_splits)
  next
    case False
    then show ?thesis using assms UvRead snd
      by (auto simp: uv_step_def uv_inv_def uv_defs Let_def split: if_splits)
  qed
next
  case (UvWritten req status)
  have "uv_inv (uv_error status ''write error'' s)" using assms(1) by (simp add: uv_inv_def uv_defs)
  then show ?thesis using assms UvWritten free_inv[of _ req]
    by (fastforce simp: uv_step_def after_write_def uv_error_def uv_out_def split: if_splits)
next
  case (UvClosed c)
  then show ?thesis using assms by (auto simp: uv_step_def uv_inv_def uv_defs split: if_splits)
qed

text \<open>C34: The libuv server frees each write request and its buffer exactly once, and touches no
  freed block; but the buffer of a read without data, one at least for each connection that
  ends, is never freed. (As long as no read fills its buffer: that one makes it write past the
  end.)\<close>

theorem uv_leaks_unused_buffers:
  assumes "uv_run uv_eof es uv_start = Some r"
  shows "r = Inl OutOfBounds \<or> (\<exists>s. r = Inr s \<and> length (uv_buffers s) = length (uv_requests s) + unused_reads s
    \<and> distinct (map fst (uv_buffers s)) \<and> snd ` set (uv_requests s) \<subseteq> fst ` set (uv_buffers s))"
proof -
  have "r = Inl OutOfBounds \<or> (\<exists>s'. r = Inr s' \<and> uv_inv s')"
    if "uv_inv s" "uv_run uv_eof es s = Some r" for s
    using that
  proof (induction es arbitrary: s)
    case (Cons e es)
    then obtain q where q: "uv_step uv_eof e s = Some q" by (auto split: option.splits)
    from uv_step_inv[OF Cons.prems(1) q] show ?case
      using Cons q by auto
  qed auto
  moreover have "uv_inv uv_start" by (simp add: uv_inv_def uv_start_def)
  ultimately have "r = Inl OutOfBounds \<or> (\<exists>s'. r = Inr s' \<and> uv_inv s')" using assms by blast
  then show ?thesis unfolding uv_inv_def by (auto simp del: set_map)
qed

definition one_visit :: "uv_event list" where
  "one_visit = [UvConnection 1 0 0 ''10.0.0.1'' 5000, UvRead 1 2 10 65536 [0x68, 0x69] 20, UvWritten 20 0,
     UvRead 1 (- 4095) 11 65536 [] 21, UvClosed 1]"

lemma uv_leaks_unused_buffers_witness:
  "\<exists>s. uv_run (- 4095) one_visit uv_start = Some (Inr s) \<and> uv_handles s = [] \<and> uv_requests s = []
    \<and> length (uv_buffers s) = 1"
proof -
  have "\<exists>s. uv_run (- 4095) one_visit uv_start = Some (Inr s) \<and> uv_handles s = [] \<and> uv_requests s = []
      \<and> unused_reads s = 1"
    by (simp add: one_visit_def uv_step_def uv_defs uv_start_def free_write_req_def Let_def)
  then obtain s where s: "uv_run (- 4095) one_visit uv_start = Some (Inr s)" "uv_handles s = []" "uv_requests s = []"
    "unused_reads s = 1" by blast
  from uv_leaks_unused_buffers[OF s(1)] s show ?thesis by auto
qed

end
