(* ===== verification/Echo_Ipc.thy ===== *)
theory Echo_Ipc
  imports Sockets
begin

text \<open>
  The echo service of 19 over memory channels: a server that replies on the channel of the
  sender, a client, and the program that ends the server. The channels themselves are modelled
  in \<open>Memchannel\<close>; here a message is put or got whole, and what the environment decides (which
  channels exist, which messages arrive) is an argument.
\<close>

section \<open>Messages and names\<close>

definition ECHO_MSG_MAX_LEN :: nat where "ECHO_MSG_MAX_LEN = 256"
definition PID_MAX_LEN :: nat where "PID_MAX_LEN = 10"

definition ECHO_SERVICE_ID_BASE :: string where "ECHO_SERVICE_ID_BASE = ''/isel.so.memecho''"
definition ECHO_SERVICE_SERVER_ID :: string where "ECHO_SERVICE_SERVER_ID = ECHO_SERVICE_ID_BASE @ ''.server''"
definition ECHO_SERVICE_CLIENT_ID_BASE :: string where
  "ECHO_SERVICE_CLIENT_ID_BASE = ECHO_SERVICE_ID_BASE @ ''.client.''"

text \<open>\<open>msg\<close> is the whole array; the text is what comes before its first NUL.\<close>

record echomsg =
  sender :: int
  msg :: "byte list"

definition msg_text :: "echomsg \<Rightarrow> byte list" where
  "msg_text m = cstr (msg m)"

text \<open>\<open>sprintf ("%d")\<close>.\<close>

function show_nat :: "nat \<Rightarrow> string" where
  "show_nat n = (if n < 10 then [char_of (48 + n)] else show_nat (n div 10) @ [char_of (48 + n mod 10)])"
  by auto
termination by (relation "measure id") auto

declare show_nat.simps [simp del]

definition show_int :: "int \<Rightarrow> string" where
  "show_int i = (if i < 0 then CHR ''-'' # show_nat (nat (- i)) else show_nat (nat i))"

text \<open>The name of a client's channel, in a buffer with room for \<open>PID_MAX_LEN\<close> characters and the
  NUL after the base.\<close>

definition response_name :: "int \<Rightarrow> c_error + string" where
  "response_name pid =
     (let digits = show_int pid in
      if length digits \<le> PID_MAX_LEN then Inr (ECHO_SERVICE_CLIENT_ID_BASE @ digits) else Inl OutOfBounds)"

section \<open>The server\<close>

text \<open>
  One turn of the loop: \<open>mc_get\<close> has delivered \<open>m\<close>; \<open>opens\<close> says which channels \<open>mc_open\<close> finds
  at this moment.
\<close>

datatype turn = Stopped | Replied string echomsg | NoClient string | Crashed c_error

definition server_turn :: "int \<Rightarrow> (string \<Rightarrow> bool) \<Rightarrow> echomsg \<Rightarrow> turn" where
  "server_turn pid opens m =
     (if sender m = 0 \<and> msg m ! 0 = 0 then Stopped
      else (case response_name (sender m) of
              Inl e \<Rightarrow> Crashed e
            | Inr name \<Rightarrow> if opens name then Replied name (m\<lparr>sender := pid\<rparr>) else NoClient name))"

text \<open>\<open>main\<close> of the server: \<open>mc_create\<close> may fail; then one turn for each message, until the one
  that stops it. The result is the replies, channel and message, and how it ends.\<close>

fun server_loop :: "int \<Rightarrow> (echomsg \<times> (string \<Rightarrow> bool)) list \<Rightarrow> (string \<times> echomsg) list \<times> ending" where
  "server_loop pid [] = ([], Waiting)"
| "server_loop pid ((m, opens) # ms) =
     (case server_turn pid opens m of
        Stopped \<Rightarrow> ([], Exits 0)
      | Replied name r \<Rightarrow> (let (rs, e) = server_loop pid ms in ((name, r) # rs, e))
      | NoClient name \<Rightarrow> server_loop pid ms
      | Crashed e \<Rightarrow> ([], Fails e))"

definition echo_server :: "bool \<Rightarrow> int \<Rightarrow> (echomsg \<times> (string \<Rightarrow> bool)) list \<Rightarrow> (string \<times> echomsg) list \<times> ending" where
  "echo_server created pid ms = (if \<not> created then ([], Exits 1) else server_loop pid ms)"

section \<open>The client and the terminator\<close>

text \<open>\<open>fgets\<close> into \<open>msg\<close>: at most \<open>n\<close> characters, to the newline if there is one.\<close>

fun read_line :: "nat \<Rightarrow> byte list \<Rightarrow> byte list \<times> byte list" where
  "read_line 0 input = ([], input)"
| "read_line (Suc n) [] = ([], [])"
| "read_line (Suc n) (b # input) =
     (if b = 10 then ([b], input) else (let (l, rest) = read_line n input in (b # l, rest)))"

text \<open>\<open>line[strlen(line) - 1] = 0\<close>: before the array when the line starts with a NUL.\<close>

definition chop :: "byte list \<Rightarrow> byte list \<Rightarrow> c_error + byte list" where
  "chop line buf =
     (let stored = line @ 0 # drop (Suc (length line)) buf; n = length (cstr stored) in
      if n = 0 then Inl OutOfBounds else Inr (stored[n - 1 := 0]))"

text \<open>What the client does: \<open>replies\<close> are what \<open>mc_get\<close> of its own channel delivers, one for each
  message it sends. Its actions are messages sent and texts printed.\<close>

datatype client_act = Sends echomsg | Prints "byte list" int

fun client_loop :: "echomsg \<Rightarrow> byte list \<Rightarrow> echomsg list \<Rightarrow> client_act list \<times> ending" where
  "client_loop smsg input [] =
     (if input = [] then ([], Exits 0)
      else (let (line, rest) = read_line (ECHO_MSG_MAX_LEN - 1) input in
            (case chop line (msg smsg) of
               Inl e \<Rightarrow> ([], Fails e)
             | Inr buf \<Rightarrow> if buf ! 0 = 0 then ([], Exits 0) else ([Sends (smsg\<lparr>msg := buf\<rparr>)], Waiting))))"
| "client_loop smsg input (r # replies) =
     (if input = [] then ([], Exits 0)
      else (let (line, rest) = read_line (ECHO_MSG_MAX_LEN - 1) input in
            (case chop line (msg smsg) of
               Inl e \<Rightarrow> ([], Fails e)
             | Inr buf \<Rightarrow>
                 if buf ! 0 = 0 then ([], Exits 0)
                 else (let smsg = smsg\<lparr>msg := buf\<rparr>; (as, e) = client_loop smsg rest replies in
                       (Sends smsg # Prints (msg_text r) (sender r) # as, e)))))"

text \<open>\<open>main\<close> of the client: whether its own channel is created and the server's is found.\<close>

definition echo_client :: "int \<Rightarrow> bool \<Rightarrow> bool \<Rightarrow> byte list \<Rightarrow> echomsg list \<Rightarrow> client_act list \<times> ending" where
  "echo_client pid created found input replies =
     (case response_name pid of
        Inl e \<Rightarrow> ([], Fails e)
      | Inr name \<Rightarrow>
          if \<not> created then ([], Exits 1)
          else if \<not> found then ([], Exits 2)
          else client_loop \<lparr>sender = pid, msg = replicate ECHO_MSG_MAX_LEN 0\<rparr> input replies)"

definition echo_term :: "bool \<Rightarrow> client_act list \<times> ending" where
  "echo_term found =
     (if \<not> found then ([], Exits 1) else ([Sends \<lparr>sender = 0, msg = replicate ECHO_MSG_MAX_LEN 0\<rparr>], Exits 0))"

section \<open>Room for the digits\<close>

lemma show_nat_length: "length (show_nat n) \<le> Suc k \<longleftrightarrow> n < 10 ^ Suc k"
proof (induction k arbitrary: n)
  case 0
  show ?case
  proof (cases "n < 10")
    case False
    then show ?thesis by (subst show_nat.simps) (simp add: show_nat.simps[of "n div 10"])
  qed (subst show_nat.simps, simp)
next
  case (Suc k)
  show ?case
  proof (cases "n < 10")
    case True
    then have "n < 10 ^ Suc (Suc k)" by (rule less_le_trans) simp
    moreover have "length (show_nat n) = 1" using True by (subst show_nat.simps) simp
    ultimately show ?thesis by simp
  next
    case False
    then have "length (show_nat n) = Suc (length (show_nat (n div 10)))" by (subst show_nat.simps) simp
    then have "length (show_nat n) \<le> Suc (Suc k) \<longleftrightarrow> n div 10 < 10 ^ Suc k" using Suc.IH[of "n div 10"] by simp
    also have "\<dots> \<longleftrightarrow> n < 10 ^ Suc (Suc k)" by (simp add: div_less_iff_less_mult mult.commute)
    finally show ?thesis .
  qed
qed

text \<open>The server's buffer for the name of the reply channel takes every process number that is
  not below $-999999999$; a message that names a smaller one makes it write past the end.\<close>

theorem response_name_fits:
  assumes "in_int pid"
  shows "response_name pid =
    (if - 999999999 \<le> pid then Inr (ECHO_SERVICE_CLIENT_ID_BASE @ show_int pid) else Inl OutOfBounds)"
proof -
  have "length (show_int pid) \<le> PID_MAX_LEN \<longleftrightarrow> - 999999999 \<le> pid"
  proof (cases "pid < 0")
    case True
    then have "length (show_int pid) \<le> PID_MAX_LEN \<longleftrightarrow> nat (- pid) < 10 ^ Suc 8"
      using show_nat_length[of "nat (- pid)" 8] by (simp add: show_int_def PID_MAX_LEN_def)
    also have "\<dots> \<longleftrightarrow> - 999999999 \<le> pid" using True by auto
    finally show ?thesis .
  next
    case False
    then have "length (show_int pid) \<le> PID_MAX_LEN \<longleftrightarrow> nat pid < 10 ^ Suc 9"
      using show_nat_length[of "nat pid" 9] by (simp add: show_int_def PID_MAX_LEN_def)
    also have "\<dots>" using assms by (auto simp: c_int_bounds)
    finally show ?thesis using False by simp
  qed
  then show ?thesis by (simp add: response_name_def Let_def)
qed

lemma response_name_fits_witness:
  "response_name (- 1000000000) = Inl OutOfBounds"
  using response_name_fits[of "- 1000000000"] by (simp add: c_int_bounds)

end
