(* ===== verification/Echo_Ipc_Props.thy ===== *)
theory Echo_Ipc_Props
  imports Echo_Ipc
begin

text \<open>
  What the echo service of 19 promises: every message that finds its channel is answered there,
  with its text and the server's number, in order, until the message that ends the server; and
  what a client that is given lines sends and prints.
\<close>

definition is_stop :: "echomsg \<Rightarrow> bool" where
  "is_stop m \<longleftrightarrow> sender m = 0 \<and> msg m ! 0 = 0"

definition name_of :: "echomsg \<Rightarrow> string" where
  "name_of m = ECHO_SERVICE_CLIENT_ID_BASE @ show_int (sender m)"

definition numbered :: "echomsg \<Rightarrow> bool" where
  "numbered m \<longleftrightarrow> in_int (sender m) \<and> - 999999999 \<le> sender m"

lemma response_name_numbered: "numbered m \<Longrightarrow> response_name (sender m) = Inr (name_of m)"
proof -
  assume n: "numbered m"
  have "- 999999999 \<le> sender m \<longrightarrow> length (show_int (sender m)) \<le> PID_MAX_LEN"
  proof (cases "sender m < 0")
    case True
    then show ?thesis using show_nat_length[of "nat (- sender m)" 8] by (auto simp: show_int_def PID_MAX_LEN_def)
  next
    case False
    then show ?thesis using n show_nat_length[of "nat (sender m)" 9]
      by (auto simp: show_int_def PID_MAX_LEN_def numbered_def c_int_bounds)
  qed
  then show ?thesis using n by (simp add: response_name_def name_of_def numbered_def)
qed

lemma server_answers_aux:
  assumes "\<forall>(m, opens)\<in>set ms. numbered m"
  shows "server_loop pid ms =
    (map (\<lambda>(m, opens). (name_of m, m\<lparr>sender := pid\<rparr>))
       (filter (\<lambda>(m, opens). opens (name_of m)) (takeWhile (\<lambda>(m, opens). \<not> is_stop m) ms)),
     if \<exists>(m, opens)\<in>set ms. is_stop m then Exits 0 else Waiting)"
  using assms
proof (induction ms)
  case (Cons x ms)
  obtain m opens where x: "x = (m, opens)" by (cases x)
  have n: "response_name (sender m) = Inr (name_of m)" using Cons.prems x by (auto intro: response_name_numbered)
  have IH: "server_loop pid ms =
    (map (\<lambda>(m, opens). (name_of m, m\<lparr>sender := pid\<rparr>))
       (filter (\<lambda>(m, opens). opens (name_of m)) (takeWhile (\<lambda>(m, opens). \<not> is_stop m) ms)),
     if \<exists>(m, opens)\<in>set ms. is_stop m then Exits 0 else Waiting)" using Cons by simp
  show ?case
  proof (cases "is_stop m")
    case True
    then show ?thesis by (simp add: x server_turn_def is_stop_def)
  next
    case False
    then have t: "server_turn pid opens m = (if opens (name_of m) then Replied (name_of m) (m\<lparr>sender := pid\<rparr>) else NoClient (name_of m))"
      using n by (simp add: server_turn_def is_stop_def)
    show ?thesis using False by (simp add: x t IH)
  qed
qed simp

text \<open>The server answers, in order, exactly the messages that come before the first stop message
  and whose channel is there at their turn, each on its sender's channel and with nothing but
  the sender changed; it exits at the stop message, and at no other.\<close>

theorem server_answers_in_order:
  assumes "\<forall>(m, opens)\<in>set ms. numbered m"
  shows "server_loop pid ms =
    (map (\<lambda>(m, opens). (name_of m, m\<lparr>sender := pid\<rparr>))
       (filter (\<lambda>(m, opens). opens (name_of m)) (takeWhile (\<lambda>(m, opens). \<not> is_stop m) ms)),
     if \<exists>(m, opens)\<in>set ms. is_stop m then Exits 0 else Waiting)"
  by (rule server_answers_aux[OF assms])

lemma server_answers_in_order_witness:
  "server_loop 99 [(\<lparr>sender = 7, msg = [0x61, 0]\<rparr>, \<lambda>_. True), (\<lparr>sender = 8, msg = [0x62, 0]\<rparr>, \<lambda>_. False),
      (\<lparr>sender = 0, msg = [0, 0]\<rparr>, \<lambda>_. True), (\<lparr>sender = 7, msg = [0x63, 0]\<rparr>, \<lambda>_. True)] =
    ([(name_of \<lparr>sender = 7, msg = [0x61, 0]\<rparr>, \<lparr>sender = 99, msg = [0x61, 0]\<rparr>)], Exits 0)"
  using server_answers_in_order[of "[(\<lparr>sender = 7, msg = [0x61, 0]\<rparr>, \<lambda>_. True), (\<lparr>sender = 8, msg = [0x62, 0]\<rparr>, \<lambda>_. False),
      (\<lparr>sender = 0, msg = [0, 0]\<rparr>, \<lambda>_. True), (\<lparr>sender = 7, msg = [0x63, 0]\<rparr>, \<lambda>_. True)]" 99]
  by (simp add: numbered_def c_int_bounds is_stop_def)

section \<open>A session\<close>

definition line_text :: "byte list \<Rightarrow> bool" where
  "line_text t \<longleftrightarrow> t \<noteq> [] \<and> length t < ECHO_MSG_MAX_LEN - 1 \<and> 0 \<notin> set t \<and> 10 \<notin> set t"

definition after_line :: "byte list \<Rightarrow> byte list \<Rightarrow> byte list" where
  "after_line t buf = t @ 0 # 0 # drop (length t + 2) buf"

fun sent_messages :: "int \<Rightarrow> byte list \<Rightarrow> byte list list \<Rightarrow> echomsg list" where
  "sent_messages pid buf [] = []"
| "sent_messages pid buf (t # ts) = \<lparr>sender = pid, msg = after_line t buf\<rparr> # sent_messages pid (after_line t buf) ts"

definition sends :: "client_act list \<Rightarrow> echomsg list" where
  "sends as = concat (map (\<lambda>a. case a of Sends m \<Rightarrow> [m] | _ \<Rightarrow> []) as)"

definition prints :: "client_act list \<Rightarrow> (byte list \<times> int) list" where
  "prints as = concat (map (\<lambda>a. case a of Prints t n \<Rightarrow> [(t, n)] | _ \<Rightarrow> []) as)"

lemma read_line_line: "length t < n \<Longrightarrow> 10 \<notin> set t \<Longrightarrow> read_line n (t @ 10 # rest) = (t @ [10], rest)"
proof (induction t arbitrary: n)
  case Nil
  then show ?case by (cases n) auto
next
  case (Cons b t)
  then show ?case by (cases n) auto
qed

lemma chop_line:
  assumes "0 \<notin> set t"
  shows "chop (t @ [10]) buf = Inr (after_line t buf)"
proof -
  have "cstr (t @ 10 # 0 # drop (Suc (Suc (length t))) buf) = t @ [10]"
    using cstr_stale[of "t @ [10]"] cstr_id[of "t @ [10]"] assms by simp
  then show ?thesis by (simp add: chop_def after_line_def Let_def list_update_append)
qed

lemma after_line_text: "0 \<notin> set t \<Longrightarrow> cstr (after_line t buf) = t"
  by (simp add: after_line_def cstr_id)

text \<open>What the loop of the client sends and prints when its input is such lines and then an empty one,
  whatever the replies are.\<close>

definition session_input :: "byte list list \<Rightarrow> byte list" where
  "session_input ts = concat (map (\<lambda>t. t @ [10]) ts) @ [10]"

lemma sends_Cons: "sends (a # as) = (case a of Sends m \<Rightarrow> [m] | _ \<Rightarrow> []) @ sends as"
  by (simp add: sends_def)

lemma prints_Cons: "prints (a # as) = (case a of Prints t n \<Rightarrow> [(t, n)] | _ \<Rightarrow> []) @ prints as"
  by (simp add: prints_def)

lemma sends_prints_Nil [simp]: "sends [] = []" "prints [] = []"
  by (simp_all add: sends_def prints_def)

lemma loop_on_lines:
  assumes "\<forall>t\<in>set ts. line_text t" "client_loop \<lparr>sender = pid, msg = buf\<rparr> (session_input ts) rs = (as, e)"
  shows "sends as = take (Suc (length rs)) (sent_messages pid buf ts)
    \<and> prints as = map (\<lambda>r. (msg_text r, sender r)) (take (length ts) rs)
    \<and> e = (if length ts \<le> length rs then Exits 0 else Waiting)"
  using assms
proof (induction ts arbitrary: buf rs as e)
  case Nil
  have rl: "read_line (ECHO_MSG_MAX_LEN - 1) [10] = ([10], [])"
    using read_line_line[of "[]" "ECHO_MSG_MAX_LEN - 1" "[]"] by (simp add: ECHO_MSG_MAX_LEN_def)
  have "chop [10] buf = Inr (0 # 0 # drop (Suc (Suc 0)) buf)" using chop_line[of "[]" buf] by (simp add: after_line_def numeral_2_eq_2)
  then show ?case using Nil.prems(2) rl by (cases rs) (auto simp: session_input_def)
next
  case (Cons t ts)
  have t: "t \<noteq> []" "length t < ECHO_MSG_MAX_LEN - 1" "0 \<notin> set t" "10 \<notin> set t"
    using Cons.prems(1) by (auto simp: line_text_def)
  have first: "after_line t buf ! 0 \<noteq> 0" using t(1,3) by (cases t) (auto simp: after_line_def)
  have inp: "session_input (t # ts) = t @ 10 # session_input ts" by (simp add: session_input_def)
  note rl = read_line_line[OF t(2,4), of "session_input ts", unfolded One_nat_def]
  show ?case
  proof (cases rs)
    case Nil
    then show ?thesis using Cons.prems(2) first chop_line[OF t(3), of buf] by (auto simp: inp rl sends_Cons prints_Cons)
  next
    case (Cons r rs1)
    obtain as1 e1 where l: "client_loop \<lparr>sender = pid, msg = after_line t buf\<rparr> (session_input ts) rs1 = (as1, e1)" by fastforce
    have "as = Sends \<lparr>sender = pid, msg = after_line t buf\<rparr> # Prints (msg_text r) (sender r) # as1" "e = e1"
      using Cons.prems(2) Cons first chop_line[OF t(3), of buf] l by (auto simp: inp rl Let_def)
    then show ?thesis using Cons.IH[OF _ l] Cons.prems(1) Cons by (simp add: sends_Cons prints_Cons)
  qed
qed

lemma sent_texts: "\<forall>t\<in>set ts. line_text t \<Longrightarrow> map msg_text (sent_messages pid buf ts) = ts"
  by (induction ts arbitrary: buf) (simp_all add: msg_text_def after_line_text line_text_def)

lemma sent_messages_length: "length (sent_messages pid buf ts) = length ts"
  by (induction ts arbitrary: buf) simp_all

text \<open>So when the replies are what was sent, with the server's number, the lines are printed.\<close>

lemma echoed_lines:
  assumes "\<forall>t\<in>set ts. line_text t" "client_loop \<lparr>sender = pid, msg = buf\<rparr> (session_input ts) rs = (as, e)"
    and "rs = map (\<lambda>x. x\<lparr>sender := spid\<rparr>) (take (length rs) (sends as))"
  shows "prints as = map (\<lambda>t. (t, spid)) (take (length rs) ts) \<and> length rs \<le> length ts"
proof -
  note l = loop_on_lines[OF assms(1,2)]
  let ?ms = "sent_messages pid buf ts"
  have rs: "rs = map (\<lambda>x. x\<lparr>sender := spid\<rparr>) (take (length rs) ?ms)" using assms(3) l by (simp add: min_def)
  have n: "length rs \<le> length ts" using arg_cong[OF rs, of length] by (simp add: sent_messages_length)
  have "map (\<lambda>r. (msg_text r, sender r)) rs = map (\<lambda>m. (msg_text m, spid)) (take (length rs) ?ms)"
    by (subst rs) (simp add: comp_def msg_text_def)
  also have "\<dots> = map (\<lambda>t. (t, spid)) (take (length rs) (map msg_text ?ms))" by (simp add: take_map comp_def)
  finally show ?thesis using l n sent_texts[OF assms(1), of pid buf] by simp
qed

end
