(* ===== verification/Echo_Network.thy ===== *)
theory Echo_Network
  imports Memchannel_Steps Echo_Ipc_Props
begin

text \<open>
  The echo service of 19 as the processes it consists of: one server, any number of clients and of
  terminators, on the server's memory channel and the channel of each client, all of them taking
  the steps of \<open>Memchannel\<close> in any order. A message is put and got as the bytes of its struct.
\<close>

section \<open>Messages as bytes\<close>

text \<open>\<open>sizeof (echomsg_t)\<close>: an \<open>int\<close> and the array, without padding.\<close>

definition ECHO_MSG_SIZE :: nat where "ECHO_MSG_SIZE = 4 + ECHO_MSG_MAX_LEN"

definition bytes_of_msg :: "echomsg \<Rightarrow> bytes" where
  "bytes_of_msg m = bytes_of_int (sender m) @ msg m"

definition msg_of_bytes :: "bytes \<Rightarrow> echomsg" where
  "msg_of_bytes bs = \<lparr>sender = int_of_bytes (take 4 bs), msg = drop 4 bs\<rparr>"

definition stop_msg :: echomsg where
  "stop_msg = \<lparr>sender = 0, msg = replicate ECHO_MSG_MAX_LEN 0\<rparr>"

section \<open>The processes\<close>

text \<open>
  Where a client or a terminator is: not started yet, at the head of its loop, in \<open>mc_put\<close> on the
  server's channel, in \<open>mc_get\<close> on its own, or ended. The server is in (or before) \<open>mc_get\<close>, in
  \<open>mc_put\<close> on the channel of a client, after the loop, or ended.
\<close>

datatype place = Absent | Reading | Sending | Receiving | Gone ending
datatype server_place = Fetching | Answering nat | Stopping | Ended ending

text \<open>
  A client: its channel, on which process 0 is the client and process 1 the server, what is left of
  its input, \<open>smsg\<close>, and what it has done and received.
\<close>

record echo_cli =
  ec_at :: place
  ec_chan :: mc_system
  ec_input :: "byte list"
  ec_smsg :: echomsg
  ec_acts :: "client_act list"
  ec_replies :: "echomsg list"

text \<open>
  On the channel of the server it is process 0, client \<open>i\<close> is process \<open>i + 1\<close> and the terminators
  follow. \<open>en_in\<close> has the messages the server has got, each with the channels \<open>mc_open\<close> finds
  then, \<open>en_out\<close> the replies it has begun to put, with the channel.
\<close>

record echo_net =
  en_srv :: mc_system
  en_at :: server_place
  en_in :: "(echomsg \<times> (string \<Rightarrow> bool)) list"
  en_out :: "(string \<times> echomsg) list"
  en_cli :: "nat \<Rightarrow> echo_cli"
  en_term :: "nat \<Rightarrow> place"

text \<open>The name of a client's channel is there from its start to its end.\<close>

fun has_channel :: "place \<Rightarrow> bool" where
  "has_channel Absent = False"
| "has_channel (Gone (Exits n)) = False"
| "has_channel _ = True"

definition find_channel :: "int list \<Rightarrow> echo_net \<Rightarrow> string \<Rightarrow> nat option" where
  "find_channel pids s name =
     List.find (\<lambda>i. response_name (pids ! i) = Inr name \<and> has_channel (ec_at (en_cli s i))) [0..<length pids]"

definition en_start :: "size_t \<Rightarrow> int list \<Rightarrow> (nat \<Rightarrow> byte list) \<Rightarrow> nat \<Rightarrow> echo_net" where
  "en_start offset pids inputs m =
     \<lparr>en_srv = mc_start (Suc (length pids + m))
        (init_channel offset (of_nat ECHO_MSG_SIZE) 8 ECHO_SERVICE_SERVER_ID),
      en_at = Fetching, en_in = [], en_out = [],
      en_cli = (\<lambda>i. \<lparr>ec_at = Absent,
         ec_chan = mc_start 2 (init_channel offset (of_nat ECHO_MSG_SIZE) 1 (ECHO_SERVICE_CLIENT_ID_BASE @ show_int (pids ! i))),
         ec_input = inputs i, ec_smsg = \<lparr>sender = pids ! i, msg = replicate ECHO_MSG_MAX_LEN 0\<rparr>,
         ec_acts = [], ec_replies = []\<rparr>),
      en_term = (\<lambda>_. Absent)\<rparr>"

subsection \<open>The server\<close>

text \<open>
  The step from \<open>Stopping\<close> to \<open>Ended\<close> is the server's \<open>mc_destroy\<close>, which unlinks the name (no client
  opens the channel any more) and destroys the semaphores and the mutex. What calls of clients that
  still use them do is left open by POSIX; here they go on with the values there are, as on the
  target's library, where \<open>sem_destroy\<close> does nothing. The runs without a terminator do not depend on it.
\<close>

text \<open>One turn of the loop after \<open>mc_get\<close> has delivered \<open>m\<close>, up to its next call.\<close>

definition en_turn :: "int \<Rightarrow> int list \<Rightarrow> echomsg \<Rightarrow> echo_net \<Rightarrow> echo_net option" where
  "en_turn spid pids m s =
     (let opens = (\<lambda>name. find_channel pids s name \<noteq> None); s1 = s\<lparr>en_in := en_in s @ [(m, opens)]\<rparr> in
      (case server_turn spid opens m of
         Stopped \<Rightarrow> Some (s1\<lparr>en_at := Stopping\<rparr>)
       | Crashed e \<Rightarrow> Some (s1\<lparr>en_at := Ended (Fails e)\<rparr>)
       | NoClient name \<Rightarrow> Some s1
       | Replied name r \<Rightarrow>
           (case find_channel pids s name of
              None \<Rightarrow> None
            | Some i \<Rightarrow>
                map_option (\<lambda>ch. s1\<lparr>en_out := en_out s @ [(name, r)], en_at := Answering i,
                    en_cli := (en_cli s)(i := (en_cli s i)\<lparr>ec_chan := ch\<rparr>)\<rparr>)
                  (mc_step (BeginPut 1 (bytes_of_msg r)) (ec_chan (en_cli s i))))))"

definition en_server_gets :: "echo_net \<Rightarrow> echo_net option" where
  "en_server_gets s =
     (if en_at s = Fetching then map_option (\<lambda>ch. s\<lparr>en_srv := ch\<rparr>) (mc_step (BeginGet 0) (en_srv s)) else None)"

definition en_server_step :: "int \<Rightarrow> int list \<Rightarrow> echo_net \<Rightarrow> echo_net option" where
  "en_server_step spid pids s =
     (case en_at s of
        Fetching \<Rightarrow>
          Option.bind (mc_step (Step 0) (en_srv s)) (\<lambda>ch.
            (case procs (en_srv s) ! 0 of
               GetPost x \<Rightarrow> en_turn spid pids (msg_of_bytes x) (s\<lparr>en_srv := ch\<rparr>)
             | _ \<Rightarrow> Some (s\<lparr>en_srv := ch\<rparr>)))
      | Answering i \<Rightarrow>
          map_option (\<lambda>ch. s\<lparr>en_cli := (en_cli s)(i := (en_cli s i)\<lparr>ec_chan := ch\<rparr>),
              en_at := (if procs (ec_chan (en_cli s i)) ! 1 = PutPost then Fetching else Answering i)\<rparr>)
            (mc_step (Step 1) (ec_chan (en_cli s i)))
      | Stopping \<Rightarrow> Some (s\<lparr>en_at := Ended (Exits 0)\<rparr>)
      | Ended e \<Rightarrow> None)"

subsection \<open>A client\<close>

text \<open>
  Its start up to the loop, for a client whose own \<open>mc_create\<close> succeeds (\<open>echo_client\<close> has the other
  case): \<open>mc_open\<close> does not find the server's name when the server has ended.
\<close>

definition server_gone :: "server_place \<Rightarrow> bool" where
  "server_gone a \<longleftrightarrow> (case a of Ended e \<Rightarrow> True | _ \<Rightarrow> False)"

definition en_client_starts :: "nat \<Rightarrow> echo_net \<Rightarrow> echo_net option" where
  "en_client_starts i s =
     (if ec_at (en_cli s i) = Absent
      then Some (s\<lparr>en_cli := (en_cli s)(i := (en_cli s i)\<lparr>ec_at := (if server_gone (en_at s) then Gone (Exits 2) else Reading)\<rparr>)\<rparr>)
      else None)"

text \<open>The head of the loop: the line is read and cut, and \<open>mc_put\<close> called.\<close>

definition en_client_reads :: "nat \<Rightarrow> echo_net \<Rightarrow> echo_net option" where
  "en_client_reads i s =
     (let c = en_cli s i; (line, rest) = read_line (ECHO_MSG_MAX_LEN - 1) (ec_input c);
          leave = (\<lambda>e. Some (s\<lparr>en_cli := (en_cli s)(i := c\<lparr>ec_at := Gone e, ec_input := rest\<rparr>)\<rparr>)) in
      if ec_at c \<noteq> Reading then None
      else if ec_input c = [] then leave (Exits 0)
      else (case chop line (msg (ec_smsg c)) of
              Inl e \<Rightarrow> leave (Fails e)
            | Inr buf \<Rightarrow>
                if buf ! 0 = 0 then leave (Exits 0)
                else (let m = (ec_smsg c)\<lparr>msg := buf\<rparr> in
                      map_option (\<lambda>ch. s\<lparr>en_srv := ch, en_cli := (en_cli s)(i := c\<lparr>ec_at := Sending, ec_input := rest,
                          ec_smsg := m, ec_acts := ec_acts c @ [Sends m]\<rparr>)\<rparr>)
                        (mc_step (BeginPut (Suc i) (bytes_of_msg m)) (en_srv s)))))"

text \<open>A step of its call; \<open>mc_get\<close> follows \<open>mc_put\<close>, and what it delivers is printed.\<close>

definition en_client_step :: "nat \<Rightarrow> echo_net \<Rightarrow> echo_net option" where
  "en_client_step i s =
     (let c = en_cli s i in
      (case ec_at c of
         Sending \<Rightarrow>
           Option.bind (mc_step (Step (Suc i)) (en_srv s)) (\<lambda>ch.
             if procs (en_srv s) ! Suc i = PutPost
             then map_option (\<lambda>own. s\<lparr>en_srv := ch, en_cli := (en_cli s)(i := c\<lparr>ec_chan := own, ec_at := Receiving\<rparr>)\<rparr>)
                    (mc_step (BeginGet 0) (ec_chan c))
             else Some (s\<lparr>en_srv := ch\<rparr>))
       | Receiving \<Rightarrow>
           map_option (\<lambda>own. s\<lparr>en_cli := (en_cli s)(i :=
               (case procs (ec_chan c) ! 0 of
                  GetPost x \<Rightarrow> (let r = msg_of_bytes x in
                    c\<lparr>ec_chan := own, ec_at := Reading, ec_replies := ec_replies c @ [r],
                      ec_acts := ec_acts c @ [Prints (msg_text r) (sender r)]\<rparr>)
                | _ \<Rightarrow> c\<lparr>ec_chan := own\<rparr>))\<rparr>)
             (mc_step (Step 0) (ec_chan c))
       | _ \<Rightarrow> None))"

subsection \<open>A terminator, and all of them\<close>

definition en_term_starts :: "nat \<Rightarrow> nat \<Rightarrow> echo_net \<Rightarrow> echo_net option" where
  "en_term_starts n k s =
     (if en_term s k \<noteq> Absent then None
      else if server_gone (en_at s) then Some (s\<lparr>en_term := (en_term s)(k := Gone (Exits 1))\<rparr>)
      else map_option (\<lambda>ch. s\<lparr>en_srv := ch, en_term := (en_term s)(k := Sending)\<rparr>)
             (mc_step (BeginPut (Suc (n + k)) (bytes_of_msg stop_msg)) (en_srv s)))"

definition en_term_step :: "nat \<Rightarrow> nat \<Rightarrow> echo_net \<Rightarrow> echo_net option" where
  "en_term_step n k s =
     (if en_term s k = Sending
      then map_option (\<lambda>ch. s\<lparr>en_srv := ch, en_term := (en_term s)(k :=
               (if procs (en_srv s) ! Suc (n + k) = PutPost then Gone (Exits 0) else Sending))\<rparr>)
             (mc_step (Step (Suc (n + k))) (en_srv s))
      else None)"

datatype en_event = ServerGets | ServerStep | ClientStarts nat | ClientReads nat | ClientStep nat
  | TermStarts nat | TermStep nat

text \<open>\<open>spid\<close> is the server's process number, \<open>pids\<close> those of the clients; \<open>m\<close> terminators.\<close>

fun en_step :: "int \<Rightarrow> int list \<Rightarrow> nat \<Rightarrow> en_event \<Rightarrow> echo_net \<Rightarrow> echo_net option" where
  "en_step spid pids m ServerGets s = en_server_gets s"
| "en_step spid pids m ServerStep s = en_server_step spid pids s"
| "en_step spid pids m (ClientStarts i) s = (if i < length pids then en_client_starts i s else None)"
| "en_step spid pids m (ClientReads i) s = (if i < length pids then en_client_reads i s else None)"
| "en_step spid pids m (ClientStep i) s = (if i < length pids then en_client_step i s else None)"
| "en_step spid pids m (TermStarts k) s = (if k < m then en_term_starts (length pids) k s else None)"
| "en_step spid pids m (TermStep k) s = (if k < m then en_term_step (length pids) k s else None)"

fun en_run :: "int \<Rightarrow> int list \<Rightarrow> nat \<Rightarrow> en_event list \<Rightarrow> echo_net \<Rightarrow> echo_net option" where
  "en_run spid pids m [] s = Some s"
| "en_run spid pids m (e # es) s = Option.bind (en_step spid pids m e s) (en_run spid pids m es)"

lemma en_run_append: "en_run spid pids m (es @ fs) s = Option.bind (en_run spid pids m es s) (en_run spid pids m fs)"
  by (induction es arbitrary: s) (auto split: bind_splits)

lemma en_run_snoc: "en_run spid pids m (es @ [e]) s = Option.bind (en_run spid pids m es s) (en_step spid pids m e)"
  by (simp add: en_run_append split: bind_splits)

end
