(* ===== verification/Echo_Network_Inv.thy ===== *)
theory Echo_Network_Inv
  imports Echo_Network
begin

text \<open>
  The invariant of the echo service of 19: for each client, what it has sent is what has gone into
  the server's channel, the server has answered what has come out, the answers are what has gone
  into the client's channel, and what has come out there is what it has received, each up to the
  one message that is under way. With at most one message unanswered the channel of a client is
  there whenever the server opens it.
\<close>

section \<open>Messages, names and logs\<close>

abbreviation msgs :: "bytes list \<Rightarrow> echomsg list" where "msgs \<equiv> map msg_of_bytes"
abbreviation own :: "int \<Rightarrow> echomsg list \<Rightarrow> echomsg list" where "own p \<equiv> filter (\<lambda>m. sender m = p)"
abbreviation reply_name :: "int \<Rightarrow> string" where "reply_name p \<equiv> ECHO_SERVICE_CLIENT_ID_BASE @ show_int p"
abbreviation answers :: "int \<Rightarrow> (string \<times> echomsg) list \<Rightarrow> echomsg list" where
  "answers p outs \<equiv> map snd (filter (\<lambda>(name, r). name = reply_name p) outs)"

lemma int_length [simp]: "length (bytes_of_int v) = 4"
  by (simp add: bytes_of_int_def)

lemma msg_roundtrip [simp]: "in_int (sender m) \<Longrightarrow> msg_of_bytes (bytes_of_msg m) = m"
  by (simp add: msg_of_bytes_def bytes_of_msg_def int_bytes_roundtrip)

lemma msg_length [simp]: "length (bytes_of_msg m) = 4 + length (msg m)"
  by (simp add: bytes_of_msg_def)

lemma show_nat_Nil [simp]: "show_nat n \<noteq> []"
  by (subst show_nat.simps) simp

lemma digit_inj: "a < 10 \<Longrightarrow> b < 10 \<Longrightarrow> (char_of (48 + a) = (char_of (48 + b) :: char)) \<longleftrightarrow> a = (b :: nat)"
  by (simp add: char_of_eq_iff take_bit_eq_mod)

lemma show_nat_inj: "show_nat a = show_nat b \<Longrightarrow> a = b"
proof (induction a arbitrary: b rule: show_nat.induct)
  case (1 a)
  consider "a < 10" "b < 10" | "a < 10" "\<not> b < 10" | "\<not> a < 10" "b < 10" | "\<not> a < 10" "\<not> b < 10" by blast
  then show ?case
  proof cases
    case 1
    then show ?thesis using "1.prems" by (simp add: show_nat.simps[of a] show_nat.simps[of b] digit_inj)
  next
    case 4
    then have "show_nat (a div 10) = show_nat (b div 10)" "a mod 10 = b mod 10"
      using "1.prems" digit_inj[of "a mod 10" "b mod 10"] by (simp_all add: show_nat.simps[of a] show_nat.simps[of b])
    then show ?thesis using "1.IH"[OF 4(1)] by (metis div_mult_mod_eq)
  qed (use "1.prems" in \<open>auto simp: show_nat.simps[of a] show_nat.simps[of b] dest: sym\<close>)
qed

lemma reply_name_inj: "0 < p \<Longrightarrow> 0 < q \<Longrightarrow> reply_name p = reply_name q \<longleftrightarrow> p = q"
  using show_nat_inj[of "nat p" "nat q"] by (auto simp: show_int_def)

lemma response_name_pid: "0 < p \<Longrightarrow> in_int p \<Longrightarrow> response_name p = Inr (reply_name p)"
  using response_name_numbered[of "\<lparr>sender = p, msg = []\<rparr>"] by (simp add: numbered_def name_of_def)

section \<open>A step on a channel\<close>

lemma step_keeps:
  assumes "mc_inv cap es s" "mc_step (Step t) s = Some s'" "cap dvd 2 ^ 64"
  obtains p' mc where "t < length (procs s)" "pc_step t (procs s ! t) (chan s) = Inr (Some (p', mc))"
    "procs s' = (procs s)[t := p']" "sent s' = sent s @ copied_in (procs s ! t)"
    "received s' = received s @ copied_out (procs s ! t) p'" "mc_inv cap es s'"
  using mc_step_moves[OF assms] mc_inv_step[OF assms(1,2)] assms(3) by force

lemma put_step:
  assumes "mc_inv cap es s" "mc_step (Step t) s = Some s'" "cap dvd 2 ^ 64" "putting (procs s ! t)"
  obtains p' where "t < length (procs s)" "procs s' = (procs s)[t := p']" "mc_inv cap es s'"
    "sent s' = sent s @ copied_in (procs s ! t)" "received s' = received s"
    "to_put (procs s ! t) = copied_in (procs s ! t) @ to_put p'" "p' = Away \<longleftrightarrow> procs s ! t = PutPost"
    "p' \<noteq> Away \<longrightarrow> putting p'" "steps_left (procs s ! t) = Suc (steps_left p')"
proof -
  obtain p' mc where p: "t < length (procs s)" "pc_step t (procs s ! t) (chan s) = Inr (Some (p', mc))"
    "procs s' = (procs s)[t := p']" "sent s' = sent s @ copied_in (procs s ! t)"
    "received s' = received s @ copied_out (procs s ! t) p'" "mc_inv cap es s'"
    by (rule step_keeps[OF assms(1-3)])
  note mv = put_moves[OF p(2) assms(4)]
  show thesis by (rule that[OF p(1,3,6,4) _ mv(1,3,4,5)]) (simp add: p(5) mv(2))
qed

lemma get_step:
  assumes "mc_inv cap es s" "mc_step (Step t) s = Some s'" "cap dvd 2 ^ 64" "\<not> putting (procs s ! t)"
  obtains p' where "t < length (procs s)" "procs s' = (procs s)[t := p']" "mc_inv cap es s'" "sent s' = sent s"
    "p' = Away \<longleftrightarrow> (\<exists>x. procs s ! t = GetPost x)" "\<not> putting p'" "steps_left (procs s ! t) = Suc (steps_left p')"
    "p' \<noteq> Away \<longrightarrow> (\<exists>new. received s' = received s @ new \<and> got p' = got (procs s ! t) @ new)"
    "p' = Away \<longrightarrow> received s' = received s"
proof -
  obtain p' mc where p: "t < length (procs s)" "pc_step t (procs s ! t) (chan s) = Inr (Some (p', mc))"
    "procs s' = (procs s)[t := p']" "sent s' = sent s @ copied_in (procs s ! t)"
    "received s' = received s @ copied_out (procs s ! t) p'" "mc_inv cap es s'"
    by (rule step_keeps[OF assms(1-3)])
  note mv = get_moves[OF p(2) assms(4)]
  show thesis by (rule that[OF p(1,3,6) _ mv(2,3,4)]) (use p(4,5) mv(1,5,6) in auto)
qed

lemma begin_step:
  assumes "mc_inv cap es s" "mc_step e s = Some s'" "e = BeginPut t x \<and> p = PutWait x \<or> e = BeginGet t \<and> p = GetWait"
  shows "t < length (procs s) \<and> procs s ! t = Away \<and> s' = s\<lparr>procs := (procs s)[t := p]\<rparr> \<and> mc_inv cap es s'"
proof -
  have es: "unat (mc_elem_size (chan s)) = es" using assms(1)
    by (simp add: mc_inv_def mc_static_def unsigned_of_nat take_bit_nat_eq_self)
  have s': "t < length (procs s)" "procs s ! t = Away" "s' = s\<lparr>procs := (procs s)[t := p]\<rparr>" "p = GetWait \<or> (\<exists>x. p = PutWait x \<and> length x = es)"
    using assms(2,3) es by (auto split: if_splits)
  then show ?thesis using away_step[OF assms(1) s'(1,2,4)] by simp
qed

lemma begin_possible:
  assumes "mc_inv cap es s" "t < length (procs s)" "procs s ! t = Away"
  shows "mc_step (BeginGet t) s \<noteq> None" "length x = es \<Longrightarrow> mc_step (BeginPut t x) s \<noteq> None"
  using assms by (auto simp: mc_inv_def mc_static_def unsigned_of_nat take_bit_nat_eq_self)

lemma step_possible:
  assumes "mc_step (Step t) s = Some s'"
  shows "procs s ! t \<noteq> Away"
  using assms by (auto simp: pc_step_def split: if_splits)

section \<open>The loops, one turn at a time\<close>

lemma server_loop_snoc:
  assumes "server_loop pid ms = (rs, Waiting)"
  shows "server_loop pid (ms @ [(m, opens)]) = (case server_turn pid opens m of
      Stopped \<Rightarrow> (rs, Exits 0) | Replied name r \<Rightarrow> (rs @ [(name, r)], Waiting)
    | NoClient name \<Rightarrow> (rs, Waiting) | Crashed e \<Rightarrow> (rs, Fails e))"
  using assms
proof (induction ms arbitrary: rs)
  case Nil
  then show ?case by (auto split: turn.splits)
next
  case (Cons x ms)
  obtain m' opens' where x: "x = (m', opens')" by (cases x)
  obtain rs' e where l: "server_loop pid ms = (rs', e)" by fastforce
  show ?case
  proof (cases "server_turn pid opens' m'")
    case (Replied name r)
    then have "e = Waiting" "rs = (name, r) # rs'" using Cons.prems x l by auto
    then show ?thesis using Cons.IH[of rs'] l Replied x by (simp split: turn.splits)
  next
    case (NoClient name)
    then have "e = Waiting" "rs = rs'" using Cons.prems x l by auto
    then show ?thesis using Cons.IH[of rs'] l NoClient x by (simp split: turn.splits)
  qed (use Cons.prems x in auto)
qed

text \<open>What the client's loop still does, given more replies.\<close>

definition before :: "client_act list \<Rightarrow> client_act list \<times> ending \<Rightarrow> client_act list \<times> ending" where
  "before as r = (as @ fst r, snd r)"

lemma before_simps [simp]: "before as (bs, e) = (as @ bs, e)" "before [] r = r"
  by (simp_all add: before_def)

lemma client_loop_turn:
  assumes "input \<noteq> []" "read_line (ECHO_MSG_MAX_LEN - 1) input = (line, rest)"
  shows "client_loop m input rs = (case chop line (msg m) of
      Inl e \<Rightarrow> ([], Fails e)
    | Inr buf \<Rightarrow> if buf ! 0 = 0 then ([], Exits 0)
        else (case rs of [] \<Rightarrow> ([Sends (m\<lparr>msg := buf\<rparr>)], Waiting)
          | r # rs \<Rightarrow> before [Sends (m\<lparr>msg := buf\<rparr>), Prints (msg_text r) (sender r)] (client_loop (m\<lparr>msg := buf\<rparr>) rest rs)))"
proof (cases rs)
  case Nil
  then show ?thesis using assms(1) unfolding Nil client_loop.simps(1) assms(2) Let_def
    by (auto split: sum.splits)
next
  case (Cons r rs')
  then show ?thesis using assms(1) unfolding Cons client_loop.simps(2) assms(2) Let_def
    by (auto simp: before_def split: sum.splits prod.splits)
qed

lemma read_line_length: "read_line n input = (line, rest) \<Longrightarrow> length line \<le> n \<and> input = line @ rest"
  by (induction n input arbitrary: line rest rule: read_line.induct) (auto split: if_splits prod.splits)

lemma chop_keeps_length: "chop line buf = Inr buf' \<Longrightarrow> length line < length buf \<Longrightarrow> length buf' = length buf"
  by (auto simp: chop_def Let_def split: if_splits)

lemma read_line_shrinks: "input \<noteq> [] \<Longrightarrow> read_line (Suc n) input = (line, rest) \<Longrightarrow> length rest < length input"
  by (cases input) (auto dest: read_line_length split: if_splits prod.splits)

section \<open>The invariant\<close>

text \<open>\<open>sent_own\<close> are the messages of client \<open>p\<close> that are in the server's channel, \<open>pc\<close> is where the
  client is on it, \<open>ins_own\<close> and \<open>outs_own\<close> are what the server has got from the client and put for
  it, \<open>ans\<close> says whether the server is on the client's channel.\<close>

fun busy :: "place \<Rightarrow> nat" where
  "busy Sending = 1"
| "busy Receiving = 1"
| "busy _ = 0"

definition link :: "int \<Rightarrow> echomsg list \<Rightarrow> mc_pc \<Rightarrow> echomsg list \<Rightarrow> echomsg list \<Rightarrow> bool \<Rightarrow> echo_cli \<Rightarrow> bool" where
  "link spid sent_own pc ins_own outs_own ans c \<longleftrightarrow>
     sends (ec_acts c) = sent_own @ msgs (to_put pc)
   \<and> outs_own = map (\<lambda>m. m\<lparr>sender := spid\<rparr>) ins_own
   \<and> outs_own = msgs (sent (ec_chan c)) @ msgs (to_put (procs (ec_chan c) ! 1))
   \<and> msgs (received (ec_chan c)) = ec_replies c @ msgs (got (procs (ec_chan c) ! 0))
   \<and> length (sends (ec_acts c)) = length (ec_replies c) + busy (ec_at c)
   \<and> mc_inv 1 ECHO_MSG_SIZE (ec_chan c) \<and> length (procs (ec_chan c)) = 2
   \<and> (if ec_at c = Sending then pc \<noteq> Away \<and> putting pc else pc = Away)
   \<and> (if ec_at c = Receiving then procs (ec_chan c) ! 0 \<noteq> Away \<and> \<not> putting (procs (ec_chan c) ! 0)
      else procs (ec_chan c) ! 0 = Away)
   \<and> (if ans then procs (ec_chan c) ! 1 \<noteq> Away \<and> putting (procs (ec_chan c) ! 1) else procs (ec_chan c) ! 1 = Away)"

definition link_at :: "int \<Rightarrow> int list \<Rightarrow> echo_net \<Rightarrow> nat \<Rightarrow> bool" where
  "link_at spid pids s i \<longleftrightarrow>
     link spid (own (pids ! i) (msgs (sent (en_srv s)))) (procs (en_srv s) ! Suc i)
       (own (pids ! i) (map fst (en_in s))) (answers (pids ! i) (en_out s)) (en_at s = Answering i) (en_cli s i)"

text \<open>What a client has done is the beginning of a run of its loop.\<close>

definition first_msg :: "int \<Rightarrow> echomsg" where
  "first_msg p = \<lparr>sender = p, msg = replicate ECHO_MSG_MAX_LEN 0\<rparr>"

definition cli_run :: "int \<Rightarrow> byte list \<Rightarrow> echo_cli \<Rightarrow> bool" where
  "cli_run p input c \<longleftrightarrow>
     sender (ec_smsg c) = p \<and> length (msg (ec_smsg c)) = ECHO_MSG_MAX_LEN
   \<and> (\<forall>m\<in>set (sends (ec_acts c)). sender m = p \<and> length (msg m) = ECHO_MSG_MAX_LEN)
   \<and> (case ec_at c of
        Absent \<Rightarrow> ec_acts c = [] \<and> ec_replies c = [] \<and> ec_input c = input \<and> ec_smsg c = first_msg p
      | Reading \<Rightarrow> (\<forall>rs. client_loop (first_msg p) input (ec_replies c @ rs) =
          before (ec_acts c) (client_loop (ec_smsg c) (ec_input c) rs))
      | Gone e \<Rightarrow> e = Exits 2 \<and> ec_acts c = [] \<and> ec_replies c = [] \<or> client_loop (first_msg p) input (ec_replies c) = (ec_acts c, e)
      | _ \<Rightarrow> client_loop (first_msg p) input (ec_replies c) = (ec_acts c, Waiting)
          \<and> (\<forall>r rs. client_loop (first_msg p) input (ec_replies c @ r # rs) =
              before (ec_acts c @ [Prints (msg_text r) (sender r)]) (client_loop (ec_smsg c) (ec_input c) rs)))"

primrec server_ending :: "server_place \<Rightarrow> ending" where
  "server_ending Fetching = Waiting"
| "server_ending (Answering i) = Waiting"
| "server_ending Stopping = Exits 0"
| "server_ending (Ended e) = e"

definition srv_ok :: "int \<Rightarrow> int list \<Rightarrow> nat \<Rightarrow> echo_net \<Rightarrow> bool" where
  "srv_ok spid pids m s \<longleftrightarrow>
     mc_inv 8 ECHO_MSG_SIZE (en_srv s) \<and> length (procs (en_srv s)) = Suc (length pids + m)
   \<and> msgs (received (en_srv s)) = map fst (en_in s) @ msgs (got (procs (en_srv s) ! 0))
   \<and> (\<forall>b\<in>set (sent (en_srv s)). length b = ECHO_MSG_SIZE \<and> (msg_of_bytes b = stop_msg \<and> 0 < m \<or> sender (msg_of_bytes b) \<in> set pids))
   \<and> server_loop spid (en_in s) = (en_out s, server_ending (en_at s))
   \<and> (if en_at s = Fetching then \<not> putting (procs (en_srv s) ! 0) else procs (en_srv s) ! 0 = Away)
   \<and> (\<forall>i. en_at s = Answering i \<longrightarrow> i < length pids) \<and> (\<forall>e. en_at s = Ended e \<longrightarrow> e = Exits 0)"

definition term_ok :: "nat \<Rightarrow> echo_net \<Rightarrow> nat \<Rightarrow> bool" where
  "term_ok n s k \<longleftrightarrow> (let pc = procs (en_srv s) ! Suc (n + k) in
     (case en_term s k of
        Absent \<Rightarrow> pc = Away
      | Sending \<Rightarrow> pc \<noteq> Away \<and> putting pc \<and> set (msgs (to_put pc)) \<subseteq> {stop_msg}
          \<and> (to_put pc = [] \<longrightarrow> stop_msg \<in> set (msgs (sent (en_srv s))))
      | Gone e \<Rightarrow> pc = Away \<and> (e = Exits 0 \<and> stop_msg \<in> set (msgs (sent (en_srv s))) \<or> e = Exits 1 \<and> server_gone (en_at s))
      | _ \<Rightarrow> False))"

definition en_ok :: "int \<Rightarrow> int list \<Rightarrow> nat \<Rightarrow> (nat \<Rightarrow> byte list) \<Rightarrow> echo_net \<Rightarrow> bool" where
  "en_ok spid pids m inputs s \<longleftrightarrow> srv_ok spid pids m s
   \<and> (\<forall>i<length pids. link_at spid pids s i \<and> cli_run (pids ! i) (inputs i) (en_cli s i))
   \<and> (\<forall>k<m. term_ok (length pids) s k)"

text \<open>The process numbers, all of different processes.\<close>

definition pids_ok :: "int \<Rightarrow> int list \<Rightarrow> bool" where
  "pids_ok spid pids \<longleftrightarrow> distinct pids \<and> (\<forall>p\<in>set pids. 0 < p \<and> in_int p) \<and> in_int spid"

lemma en_ok_start:
  assumes "unat offset + 8 * ECHO_MSG_SIZE < 2 ^ 64"
  shows "en_ok spid pids m inputs (en_start offset pids inputs m)"
proof -
  have "mc_inv 8 ECHO_MSG_SIZE (mc_start (Suc (length pids + m)) (init_channel offset (of_nat ECHO_MSG_SIZE) 8 nm))" for nm
    using mc_inv_start[of 8 offset ECHO_MSG_SIZE] assms by (simp add: SEM_VALUE_MAX_def)
  moreover have "mc_inv 1 ECHO_MSG_SIZE (mc_start 2 (init_channel offset (of_nat ECHO_MSG_SIZE) 1 nm))" for nm
    using mc_inv_start[of 1 offset ECHO_MSG_SIZE] assms by (simp add: SEM_VALUE_MAX_def)
  ultimately show ?thesis
    by (auto simp: en_ok_def srv_ok_def link_at_def link_def cli_run_def term_ok_def en_start_def mc_start_def sends_def
        first_msg_def Let_def nth_Cons' simp del: replicate.simps)
qed

end
