(* ===== verification/Echo_Network_Steps.thy ===== *)
theory Echo_Network_Steps
  imports Echo_Network_Inv
begin

text \<open>Every event of the echo network keeps its invariant: one lemma for each event.\<close>

declare client_loop.simps [simp del] mc_step.simps [simp del]

lemma sends_simps [simp]:
  "sends (as @ [Sends m]) = sends as @ [m]" "sends (as @ [Prints t p]) = sends as" "sends [] = []"
  by (simp_all add: sends_def)

section \<open>What an event changes for its client\<close>

lemma link_idle:
  assumes "link spid so pc io oo ans c" "ec_at c = Absent \<or> ec_at c = Reading" "a = Reading \<or> a = Gone e"
  shows "link spid so pc io oo ans (c\<lparr>ec_at := a\<rparr>)" "link spid so pc io oo ans (c\<lparr>ec_at := a, ec_input := rest\<rparr>)"
  using assms by (auto simp: link_def)

lemma link_puts:
  assumes "link spid so pc io oo ans c" "ec_at c = Reading" "in_int (sender x)"
  shows "link spid so (PutWait (bytes_of_msg x)) io oo ans
    (c\<lparr>ec_at := Sending, ec_input := rest, ec_smsg := x, ec_acts := ec_acts c @ [Sends x]\<rparr>)"
  using assms by (auto simp: link_def)

lemma link_put_step:
  assumes "link spid so pc io oo ans c" "ec_at c = Sending" "to_put pc = new @ to_put pc'" "pc' \<noteq> Away" "putting pc'"
  shows "link spid (so @ msgs new) pc' io oo ans c"
  using assms by (auto simp: link_def)

lemma link_put_done:
  assumes "link spid so PutPost io oo ans c" "ec_at c = Sending" "mc_step (BeginGet 0) (ec_chan c) = Some ch"
  shows "link spid so Away io oo ans (c\<lparr>ec_chan := ch, ec_at := Receiving\<rparr>)"
proof -
  have inv: "mc_inv 1 ECHO_MSG_SIZE (ec_chan c)" using assms(1) by (simp add: link_def)
  have "0 < length (procs (ec_chan c))" "procs (ec_chan c) ! 0 = Away" "mc_inv 1 ECHO_MSG_SIZE ch"
    "ch = (ec_chan c)\<lparr>procs := (procs (ec_chan c))[0 := GetWait]\<rparr>"
    using begin_step[OF inv assms(3), of 0 _ GetWait] by auto
  then show ?thesis using assms(1,2) by (auto simp: link_def)
qed

definition after_get :: "mc_system \<Rightarrow> echo_cli \<Rightarrow> echo_cli" where
  "after_get ch c = (case procs (ec_chan c) ! 0 of
      GetPost x \<Rightarrow> (let r = msg_of_bytes x in
        c\<lparr>ec_chan := ch, ec_at := Reading, ec_replies := ec_replies c @ [r],
          ec_acts := ec_acts c @ [Prints (msg_text r) (sender r)]\<rparr>)
    | _ \<Rightarrow> c\<lparr>ec_chan := ch\<rparr>)"

lemma link_get:
  assumes "link spid so pc io oo ans c" "ec_at c = Receiving" "mc_step (Step 0) (ec_chan c) = Some ch"
  shows "link spid so pc io oo ans (after_get ch c)"
proof -
  let ?o = "ec_chan c"
  have inv: "mc_inv 1 ECHO_MSG_SIZE ?o" "\<not> putting (procs ?o ! 0)" using assms(1,2) by (simp_all add: link_def)
  have d: "(1::nat) dvd 2 ^ 64" by simp
  obtain p' where p: "0 < length (procs ?o)" "procs ch = (procs ?o)[0 := p']" "mc_inv 1 ECHO_MSG_SIZE ch" "sent ch = sent ?o"
    "p' = Away \<longleftrightarrow> (\<exists>x. procs ?o ! 0 = GetPost x)" "\<not> putting p'"
    "p' \<noteq> Away \<longrightarrow> (\<exists>new. received ch = received ?o @ new \<and> got p' = got (procs ?o ! 0) @ new)"
    "p' = Away \<longrightarrow> received ch = received ?o"
    by (rule get_step[OF inv(1) assms(3) d inv(2)]) blast
  show ?thesis
  proof (cases "p' = Away")
    case True
    then obtain x where "procs ?o ! 0 = GetPost x" using p(5) by blast
    then show ?thesis using assms(1,2) p True by (auto simp: link_def after_get_def Let_def)
  next
    case False
    then have "after_get ch c = c\<lparr>ec_chan := ch\<rparr>" using p(5) by (auto simp: after_get_def split: mc_pc.splits)
    moreover have "msgs (received ch) = ec_replies c @ msgs (got p')"
      using p(7) False assms(1) by (auto simp: link_def)
    ultimately show ?thesis using assms(1,2) p False by (auto simp: link_def)
  qed
qed

lemma link_server_begins:
  assumes "link spid so pc io oo False c" "in_int spid"
    and "mc_step (BeginPut 1 (bytes_of_msg (m\<lparr>sender := spid\<rparr>))) (ec_chan c) = Some ch"
  shows "link spid so pc (io @ [m]) (oo @ [m\<lparr>sender := spid\<rparr>]) True (c\<lparr>ec_chan := ch\<rparr>)"
proof -
  let ?x = "bytes_of_msg (m\<lparr>sender := spid\<rparr>)"
  have inv: "mc_inv 1 ECHO_MSG_SIZE (ec_chan c)" using assms(1) by (simp add: link_def)
  have "1 < length (procs (ec_chan c))" "procs (ec_chan c) ! 1 = Away" "mc_inv 1 ECHO_MSG_SIZE ch"
    "ch = (ec_chan c)\<lparr>procs := (procs (ec_chan c))[1 := PutWait ?x]\<rparr>"
    using begin_step[OF inv assms(3), of 1 ?x "PutWait ?x"] by auto
  then show ?thesis using assms(1,2) by (auto simp: link_def)
qed

lemma link_server_step:
  assumes "link spid so pc io oo True c" "mc_step (Step 1) (ec_chan c) = Some ch"
  shows "link spid so pc io oo (procs (ec_chan c) ! 1 \<noteq> PutPost) (c\<lparr>ec_chan := ch\<rparr>)"
proof -
  let ?o = "ec_chan c"
  have inv: "mc_inv 1 ECHO_MSG_SIZE ?o" "putting (procs ?o ! 1)" using assms(1) by (simp_all add: link_def)
  have d: "(1::nat) dvd 2 ^ 64" by simp
  obtain p' where p: "1 < length (procs ?o)" "procs ch = (procs ?o)[1 := p']" "mc_inv 1 ECHO_MSG_SIZE ch"
    "sent ch = sent ?o @ copied_in (procs ?o ! 1)" "received ch = received ?o"
    "to_put (procs ?o ! 1) = copied_in (procs ?o ! 1) @ to_put p'" "p' = Away \<longleftrightarrow> procs ?o ! 1 = PutPost"
    "p' \<noteq> Away \<longrightarrow> putting p'"
    by (rule put_step[OF inv(1) assms(2) d inv(2)]) blast
  show ?thesis using assms(1) p by (cases "procs ?o ! 1 = PutPost") (auto simp: link_def)
qed

section \<open>The events\<close>

lemma link_at_same:
  assumes "procs (en_srv s') ! Suc j = procs (en_srv s) ! Suc j"
    and "own (pids ! j) (msgs (sent (en_srv s'))) = own (pids ! j) (msgs (sent (en_srv s)))"
    and "own (pids ! j) (map fst (en_in s')) = own (pids ! j) (map fst (en_in s))"
    and "answers (pids ! j) (en_out s') = answers (pids ! j) (en_out s)"
    and "en_at s' = Answering j \<longleftrightarrow> en_at s = Answering j" "en_cli s' j = en_cli s j"
  shows "link_at spid pids s' j = link_at spid pids s j"
  using assms by (simp add: link_at_def)

lemma en_okD:
  assumes "en_ok spid pids m inputs s"
  shows "srv_ok spid pids m s" "i < length pids \<Longrightarrow> link_at spid pids s i"
    "i < length pids \<Longrightarrow> cli_run (pids ! i) (inputs i) (en_cli s i)" "k < m \<Longrightarrow> term_ok (length pids) s k"
  using assms by (auto simp: en_ok_def)

lemma term_ok_same:
  assumes "term_ok n s k" "procs (en_srv s') ! Suc (n + k) = procs (en_srv s) ! Suc (n + k)"
    and "set (sent (en_srv s)) \<subseteq> set (sent (en_srv s'))" "server_gone (en_at s) \<longrightarrow> server_gone (en_at s')"
    and "en_term s' k = en_term s k"
  shows "term_ok n s' k"
  using assms by (cases "en_term s k") (auto simp: term_ok_def Let_def)

lemma client_starts_ok:
  assumes "en_client_starts i s = Some s'" "en_ok spid pids m inputs s" "i < length pids"
  shows "en_ok spid pids m inputs s'"
proof -
  define a where "a = (if server_gone (en_at s) then Gone (Exits 2) else Reading)"
  have a: "a = Reading \<or> a = Gone (Exits 2)" by (simp add: a_def)
  have at: "ec_at (en_cli s i) = Absent" and s': "s' = s\<lparr>en_cli := (en_cli s)(i := (en_cli s i)\<lparr>ec_at := a\<rparr>)\<rparr>"
    using assms(1) by (simp_all add: en_client_starts_def a_def split: if_splits)
  have "link_at spid pids s' j" if "j < length pids" for j
  proof (cases "j = i")
    case True
    then show ?thesis using link_idle(1)[OF en_okD(2)[OF assms(2,3), unfolded link_at_def] _ a] at
      by (simp add: s' link_at_def)
  next
    case False
    then show ?thesis using en_okD(2)[OF assms(2) that] link_at_same[of s' j s pids spid] by (simp add: s')
  qed
  moreover have "cli_run (pids ! j) (inputs j) (en_cli s' j)" if "j < length pids" for j
    using en_okD(3)[OF assms(2) that] at a by (cases "j = i") (auto simp: s' cli_run_def)
  moreover have "term_ok (length pids) s' k" if "k < m" for k
    by (rule term_ok_same[OF en_okD(4)[OF assms(2) that]]) (simp_all add: s')
  ultimately show ?thesis using assms(2) by (simp add: en_ok_def srv_ok_def s')
qed

lemma client_leaves_ok:
  assumes "en_ok spid pids m inputs s" "i < length pids" "ec_at (en_cli s i) = Reading"
    and "client_loop (ec_smsg (en_cli s i)) (ec_input (en_cli s i)) [] = ([], e)"
  shows "en_ok spid pids m inputs (s\<lparr>en_cli := (en_cli s)(i := (en_cli s i)\<lparr>ec_at := Gone e, ec_input := rest\<rparr>)\<rparr>)"
    (is "en_ok _ _ _ _ ?s'")
proof -
  have "link_at spid pids ?s' j" if "j < length pids" for j
  proof (cases "j = i")
    case True
    then show ?thesis using link_idle(2)[OF en_okD(2)[OF assms(1,2), unfolded link_at_def], of "Gone e"] assms(3)
      by (simp add: link_at_def)
  next
    case False
    then show ?thesis using en_okD(2)[OF assms(1) that] link_at_same[of ?s' j s pids spid] by simp
  qed
  moreover have "cli_run (pids ! j) (inputs j) (en_cli ?s' j)" if "j < length pids" for j
  proof (cases "j = i")
    case True
    have "\<forall>rs. client_loop (first_msg (pids ! i)) (inputs i) (ec_replies (en_cli s i) @ rs) =
          before (ec_acts (en_cli s i)) (client_loop (ec_smsg (en_cli s i)) (ec_input (en_cli s i)) rs)"
      using en_okD(3)[OF assms(1,2)] assms(3) by (simp add: cli_run_def)
    from this[rule_format, of "[]"] have "client_loop (first_msg (pids ! i)) (inputs i) (ec_replies (en_cli s i)) = (ec_acts (en_cli s i), e)"
      by (simp add: assms(4))
    then show ?thesis using True en_okD(3)[OF assms(1,2)] by (simp add: cli_run_def)
  qed (use en_okD(3)[OF assms(1) that] in simp)
  moreover have "term_ok (length pids) ?s' k" if "k < m" for k
    by (rule term_ok_same[OF en_okD(4)[OF assms(1) that]]) simp_all
  ultimately show ?thesis using assms(1) by (simp add: en_ok_def srv_ok_def)
qed

lemma client_puts_ok:
  assumes "en_ok spid pids m inputs s" "i < length pids" "ec_at c = Reading" "c = en_cli s i" "pids_ok spid pids"
    and "ec_input c \<noteq> []" "read_line (ECHO_MSG_MAX_LEN - 1) (ec_input c) = (line, rest)" "chop line (msg (ec_smsg c)) = Inr buf" "buf ! 0 \<noteq> 0"
    and "x = (ec_smsg c)\<lparr>msg := buf\<rparr>" "mc_step (BeginPut (Suc i) (bytes_of_msg x)) (en_srv s) = Some ch"
  shows "en_ok spid pids m inputs (s\<lparr>en_srv := ch, en_cli := (en_cli s)(i := c\<lparr>ec_at := Sending, ec_input := rest,
      ec_smsg := x, ec_acts := ec_acts c @ [Sends x]\<rparr>)\<rparr>)" (is "en_ok _ _ _ _ ?s'")
proof -
  note srv = en_okD(1)[OF assms(1), unfolded srv_ok_def]
  have inv: "mc_inv 8 ECHO_MSG_SIZE (en_srv s)" using srv by blast
  have ch: "procs ch = (procs (en_srv s))[Suc i := PutWait (bytes_of_msg x)]" "sent ch = sent (en_srv s)"
      "received ch = received (en_srv s)" "mc_inv 8 ECHO_MSG_SIZE ch" "Suc i < length (procs (en_srv s))"
    using begin_step[OF inv assms(11), of "Suc i" "bytes_of_msg x"] by auto
  have run: "cli_run (pids ! i) (inputs i) c" using en_okD(3)[OF assms(1,2)] assms(4) by simp
  have pid: "in_int (pids ! i)" using assms(2,5) by (simp add: pids_ok_def)
  have len: "length line < length (msg (ec_smsg c))"
    using read_line_length[OF assms(7)] run by (simp add: cli_run_def ECHO_MSG_MAX_LEN_def)
  have x: "sender x = pids ! i" "length (msg x) = ECHO_MSG_MAX_LEN" "msg_of_bytes (bytes_of_msg x) = x"
    using run chop_keeps_length[OF assms(8) len] pid by (simp_all add: assms(10) cli_run_def)
  have "link_at spid pids ?s' j" if "j < length pids" for j
  proof (cases "j = i")
    case True
    then show ?thesis using link_puts[OF en_okD(2)[OF assms(1,2), unfolded link_at_def], of x rest] assms(3,4) ch x(1) pid
      by (simp add: link_at_def)
  next
    case False
    then show ?thesis using en_okD(2)[OF assms(1) that] link_at_same[of ?s' j s pids spid] ch by simp
  qed
  moreover have "cli_run (pids ! j) (inputs j) (en_cli ?s' j)" if "j < length pids" for j
  proof (cases "j = i")
    case True
    have res: "client_loop (first_msg (pids ! i)) (inputs i) (ec_replies c @ rs) =
          before (ec_acts c) (client_loop (ec_smsg c) (ec_input c) rs)" for rs
      using run assms(3) by (simp add: cli_run_def)
    note turn = client_loop_turn[OF assms(6,7), of "ec_smsg c", unfolded assms(8) sum.case, folded assms(10)]
    have "client_loop (first_msg (pids ! i)) (inputs i) (ec_replies c) = (ec_acts c @ [Sends x], Waiting)"
      using res[of "[]"] assms(9) by (simp add: turn)
    moreover have "client_loop (first_msg (pids ! i)) (inputs i) (ec_replies c @ r # rs) =
        before ((ec_acts c @ [Sends x]) @ [Prints (msg_text r) (sender r)]) (client_loop x rest rs)" for r rs
      unfolding res[of "r # rs"] using assms(9) by (simp add: turn before_def)
    ultimately show ?thesis using True run x assms(3) by (simp add: cli_run_def)
  qed (use en_okD(3)[OF assms(1) that] in simp)
  moreover have "srv_ok spid pids m ?s'" using srv ch by (simp add: srv_ok_def)
  moreover have "term_ok (length pids) ?s' k" if "k < m" for k
    by (rule term_ok_same[OF en_okD(4)[OF assms(1) that]]) (use ch assms(2) in simp_all)
  ultimately show ?thesis by (simp add: en_ok_def)
qed

lemma client_reads_cases:
  assumes "en_client_reads i s = Some s'"
  obtains (leaves) e rest where "ec_at (en_cli s i) = Reading"
      "client_loop (ec_smsg (en_cli s i)) (ec_input (en_cli s i)) [] = ([], e)"
      "s' = s\<lparr>en_cli := (en_cli s)(i := (en_cli s i)\<lparr>ec_at := Gone e, ec_input := rest\<rparr>)\<rparr>"
    | (puts) line rest buf x ch where "ec_at (en_cli s i) = Reading" "ec_input (en_cli s i) \<noteq> []"
      "read_line (ECHO_MSG_MAX_LEN - 1) (ec_input (en_cli s i)) = (line, rest)"
      "chop line (msg (ec_smsg (en_cli s i))) = Inr buf" "buf ! 0 \<noteq> 0" "x = (ec_smsg (en_cli s i))\<lparr>msg := buf\<rparr>"
      "mc_step (BeginPut (Suc i) (bytes_of_msg x)) (en_srv s) = Some ch"
      "s' = s\<lparr>en_srv := ch, en_cli := (en_cli s)(i := (en_cli s i)\<lparr>ec_at := Sending, ec_input := rest,
        ec_smsg := x, ec_acts := ec_acts (en_cli s i) @ [Sends x]\<rparr>)\<rparr>"
proof -
  let ?c = "en_cli s i"
  obtain line rest where rl: "read_line (ECHO_MSG_MAX_LEN - 1) (ec_input ?c) = (line, rest)" by fastforce
  have at: "ec_at ?c = Reading" using assms(1) by (auto simp: en_client_reads_def Let_def split: prod.splits if_splits)
  show thesis
  proof (cases "ec_input ?c = []")
    case True
    then show thesis using assms(1) at rl leaves[OF at, of "Exits 0" rest]
      by (simp add: en_client_reads_def Let_def client_loop.simps(1))
  next
    case False
    note turn = client_loop_turn[OF False rl, of "ec_smsg ?c" "[]"]
    show thesis
    proof (cases "chop line (msg (ec_smsg ?c))")
      case (Inl e)
      then show thesis using assms(1) at rl False leaves[OF at, of "Fails e" rest] turn by (simp add: en_client_reads_def Let_def)
    next
      case (Inr buf)
      show thesis
      proof (cases "buf ! 0 = 0")
        case True
        then show thesis using assms(1) at rl False leaves[OF at, of "Exits 0" rest] turn Inr by (simp add: en_client_reads_def Let_def)
      next
        case 2: False
        then show thesis using assms(1) at rl False Inr puts[OF at False rl Inr 2 refl]
          by (auto simp: en_client_reads_def Let_def)
      qed
    qed
  qed
qed

lemma client_reads_ok:
  assumes "en_client_reads i s = Some s'" "en_ok spid pids m inputs s" "i < length pids" "pids_ok spid pids"
  shows "en_ok spid pids m inputs s'"
  using assms(1)
proof (cases rule: client_reads_cases)
  case leaves
  then show ?thesis using client_leaves_ok[OF assms(2,3)] by simp
next
  case puts
  show ?thesis unfolding puts(8) by (rule client_puts_ok[OF assms(2,3) puts(1) refl assms(4) puts(2-7)])
qed

section \<open>Steps on the server's channel\<close>

lemma srv_ok_upd [simp]:
  "srv_ok spid pids m (s\<lparr>en_cli := f\<rparr>) = srv_ok spid pids m s" "srv_ok spid pids m (s\<lparr>en_term := g\<rparr>) = srv_ok spid pids m s"
  by (simp_all add: srv_ok_def)

lemma d8: "(8::nat) dvd 2 ^ 64" by simp

lemma put_lengths:
  assumes "mc_inv cap es s" "t < length (procs s)" "x \<in> set (to_put (procs s ! t))"
  shows "length x = es"
proof -
  have "carries es (procs s ! t)" using assms(1,2) by (simp add: mc_inv_def mc_static_def)
  then show ?thesis using assms(3) by (cases "procs s ! t") (auto simp: carries_def)
qed

text \<open>A client or a terminator takes a step in \<open>mc_put\<close>.\<close>

lemma srv_put_step:
  assumes "srv_ok spid pids m s" "mc_step (Step t) (en_srv s) = Some ch" "0 < t" "putting (procs (en_srv s) ! t)"
    and "\<forall>x\<in>set (msgs (to_put (procs (en_srv s) ! t))). x = stop_msg \<and> 0 < m \<or> sender x \<in> set pids"
  obtains p' new where "procs ch = (procs (en_srv s))[t := p']" "sent ch = sent (en_srv s) @ new" "t < length (procs (en_srv s))"
    "to_put (procs (en_srv s) ! t) = new @ to_put p'" "p' = Away \<longleftrightarrow> procs (en_srv s) ! t = PutPost"
    "p' \<noteq> Away \<longrightarrow> putting p'" "srv_ok spid pids m (s\<lparr>en_srv := ch\<rparr>)" "procs (en_srv s) ! t = PutPost \<longrightarrow> new = []"
    "steps_left (procs (en_srv s) ! t) = Suc (steps_left p')" "received ch = received (en_srv s)"
proof -
  note srv = assms(1)[unfolded srv_ok_def]
  have inv: "mc_inv 8 ECHO_MSG_SIZE (en_srv s)" using srv by blast
  obtain p' where p: "t < length (procs (en_srv s))" "procs ch = (procs (en_srv s))[t := p']" "mc_inv 8 ECHO_MSG_SIZE ch"
    "sent ch = sent (en_srv s) @ copied_in (procs (en_srv s) ! t)" "received ch = received (en_srv s)"
    "to_put (procs (en_srv s) ! t) = copied_in (procs (en_srv s) ! t) @ to_put p'" "p' = Away \<longleftrightarrow> procs (en_srv s) ! t = PutPost"
    "p' \<noteq> Away \<longrightarrow> putting p'" "steps_left (procs (en_srv s) ! t) = Suc (steps_left p')"
    by (rule put_step[OF inv assms(2) d8 assms(4)]) blast
  have new: "length b = ECHO_MSG_SIZE \<and> (msg_of_bytes b = stop_msg \<and> 0 < m \<or> sender (msg_of_bytes b) \<in> set pids)"
    if "b \<in> set (copied_in (procs (en_srv s) ! t))" for b
  proof -
    have b: "b \<in> set (to_put (procs (en_srv s) ! t))" using that p(6) by simp
    then show ?thesis using put_lengths[OF inv p(1) b] assms(5) by simp
  qed
  have "srv_ok spid pids m (s\<lparr>en_srv := ch\<rparr>)" using srv p(2-5) new assms(3) by (simp add: srv_ok_def ball_Un)
  then show thesis by (rule that[OF p(2,4,1,6,7,8) _ _ p(9,5)]) simp
qed

text \<open>The messages of one client in a list that grows by messages of one sender.\<close>

lemma own_append:
  assumes "\<forall>x\<in>set new. sender x = q"
  shows "own p (ms @ new) = own p ms @ (if p = q then new else [])"
  using assms by (auto simp: filter_id_conv filter_empty_conv)

lemma client_sends_ok:
  assumes "ec_at (en_cli s i) = Sending" "mc_step (Step (Suc i)) (en_srv s) = Some ch"
    and "en_ok spid pids m inputs s" "i < length pids" "pids_ok spid pids"
    and c': "if procs (en_srv s) ! Suc i = PutPost
      then \<exists>new. mc_step (BeginGet 0) (ec_chan (en_cli s i)) = Some new \<and> c' = (en_cli s i)\<lparr>ec_chan := new, ec_at := Receiving\<rparr>
      else c' = en_cli s i"
  shows "en_ok spid pids m inputs (s\<lparr>en_srv := ch, en_cli := (en_cli s)(i := c')\<rparr>)" (is "en_ok _ _ _ _ ?s'")
proof -
  let ?pc = "procs (en_srv s) ! Suc i" and ?c = "en_cli s i"
  note link = en_okD(2)[OF assms(3,4), unfolded link_at_def]
  note run = en_okD(3)[OF assms(3,4)]
  have pc: "putting ?pc" "set (msgs (to_put ?pc)) \<subseteq> set (sends (ec_acts ?c))" using link assms(1) by (auto simp: link_def)
  have senders: "\<forall>x\<in>set (msgs (to_put ?pc)). sender x = pids ! i" using run pc(2) by (fastforce simp: cli_run_def)
  have ok: "\<forall>x\<in>set (msgs (to_put ?pc)). x = stop_msg \<and> 0 < m \<or> sender x \<in> set pids" using senders assms(4) by simp
  obtain p' new where p: "procs ch = (procs (en_srv s))[Suc i := p']" "sent ch = sent (en_srv s) @ new" "Suc i < length (procs (en_srv s))"
    "to_put ?pc = new @ to_put p'" "p' = Away \<longleftrightarrow> ?pc = PutPost" "p' \<noteq> Away \<longrightarrow> putting p'"
    "srv_ok spid pids m (s\<lparr>en_srv := ch\<rparr>)" "?pc = PutPost \<longrightarrow> new = []"
    by (rule srv_put_step[OF en_okD(1)[OF assms(3)] assms(2) _ pc(1) ok]) auto
  have "set new \<subseteq> set (to_put ?pc)" unfolding p(4) by simp
  then have from_i: "\<forall>x\<in>set (msgs new). sender x = pids ! i" using senders by auto
  have new: "own (pids ! j) (msgs (sent ch)) = own (pids ! j) (msgs (sent (en_srv s))) @ (if pids ! j = pids ! i then msgs new else [])" for j
    unfolding p(2) map_append by (rule own_append[OF from_i])
  have cli: "link spid (own (pids ! i) (msgs (sent ch))) p' (own (pids ! i) (map fst (en_in s))) (answers (pids ! i) (en_out s)) (en_at s = Answering i) c'"
  proof (cases "?pc = PutPost")
    case True
    then show ?thesis using link_put_done link c' assms(1) new[of i] p(5,8) by fastforce
  next
    case False
    then show ?thesis using link_put_step[OF link assms(1) p(4)] p(5,6) c' new[of i] by simp
  qed
  have "link_at spid pids ?s' j" if "j < length pids" for j
  proof (cases "j = i")
    case True
    then show ?thesis using cli p(1,3) by (simp add: link_at_def)
  next
    case False
    then have "pids ! j \<noteq> pids ! i" using assms(4,5) that by (simp add: pids_ok_def nth_eq_iff_index_eq)
    then show ?thesis using en_okD(2)[OF assms(3) that] link_at_same[of ?s' j s pids spid] p(1) new[of j] False
      by (simp del: filter_append map_append)
  qed
  moreover have "cli_run (pids ! j) (inputs j) (en_cli ?s' j)" if "j < length pids" for j
  proof (cases "j = i")
    case True
    then show ?thesis using run c' assms(1) by (auto simp: cli_run_def split: if_splits)
  qed (use en_okD(3)[OF assms(3) that] in simp)
  moreover have "term_ok (length pids) ?s' k" if "k < m" for k
    by (rule term_ok_same[OF en_okD(4)[OF assms(3) that]]) (use p(1,2) assms(4) in auto)
  ultimately show ?thesis using p(7) by (simp add: en_ok_def)
qed

lemma client_receives_ok:
  assumes "ec_at (en_cli s i) = Receiving" "mc_step (Step 0) (ec_chan (en_cli s i)) = Some ch"
    and "en_ok spid pids m inputs s" "i < length pids"
  shows "en_ok spid pids m inputs (s\<lparr>en_cli := (en_cli s)(i := after_get ch (en_cli s i))\<rparr>)" (is "en_ok _ _ _ _ ?s'")
proof -
  note link = en_okD(2)[OF assms(3,4), unfolded link_at_def]
  note run = en_okD(3)[OF assms(3,4)]
  have "link_at spid pids ?s' j" if "j < length pids" for j
  proof (cases "j = i")
    case True
    then show ?thesis using link_get[OF link assms(1,2)] by (simp add: link_at_def)
  next
    case False
    then show ?thesis using en_okD(2)[OF assms(3) that] link_at_same[of ?s' j s pids spid] by simp
  qed
  moreover have "cli_run (pids ! j) (inputs j) (en_cli ?s' j)" if "j < length pids" for j
  proof (cases "j = i")
    case True
    have "cli_run (pids ! i) (inputs i) (after_get ch (en_cli s i))"
      using run assms(1) by (cases "procs (ec_chan (en_cli s i)) ! 0") (auto simp: cli_run_def after_get_def Let_def)
    then show ?thesis using True by simp
  qed (use en_okD(3)[OF assms(3) that] in simp)
  moreover have "term_ok (length pids) ?s' k" if "k < m" for k
    by (rule term_ok_same[OF en_okD(4)[OF assms(3) that]]) simp_all
  ultimately show ?thesis using assms(3) by (simp add: en_ok_def)
qed

lemma client_step_ok:
  assumes "en_client_step i s = Some s'" "en_ok spid pids m inputs s" "i < length pids" "pids_ok spid pids"
  shows "en_ok spid pids m inputs s'"
proof (cases "ec_at (en_cli s i)")
  case Sending
  then obtain ch where ch: "mc_step (Step (Suc i)) (en_srv s) = Some ch"
    using assms(1) by (auto simp: en_client_step_def Let_def split: bind_splits)
  show ?thesis
  proof (cases "procs (en_srv s) ! Suc i = PutPost")
    case True
    then obtain new where "mc_step (BeginGet 0) (ec_chan (en_cli s i)) = Some new"
        "s' = s\<lparr>en_srv := ch, en_cli := (en_cli s)(i := (en_cli s i)\<lparr>ec_chan := new, ec_at := Receiving\<rparr>)\<rparr>"
      using assms(1) Sending ch by (auto simp: en_client_step_def Let_def)
    then show ?thesis using client_sends_ok[OF Sending ch assms(2-4), of "(en_cli s i)\<lparr>ec_chan := new, ec_at := Receiving\<rparr>"] True by simp
  next
    case False
    then have "s' = s\<lparr>en_srv := ch\<rparr>" using assms(1) Sending ch by (simp add: en_client_step_def Let_def)
    then show ?thesis using client_sends_ok[OF Sending ch assms(2-4), of "en_cli s i"] False by simp
  qed
next
  case Receiving
  then obtain ch where ch: "mc_step (Step 0) (ec_chan (en_cli s i)) = Some ch"
      "s' = s\<lparr>en_cli := (en_cli s)(i := after_get ch (en_cli s i))\<rparr>"
    using assms(1) by (auto simp: en_client_step_def Let_def after_get_def)
  then show ?thesis using client_receives_ok[OF Receiving ch(1) assms(2,3)] by simp
qed (use assms(1) in \<open>simp_all add: en_client_step_def Let_def\<close>)

section \<open>The events of the server\<close>

text \<open>What the server has not answered yet is a message of a client that waits for its reply.\<close>

lemma unanswered_busy:
  assumes "link spid so pc io oo ans c" "length io < length so"
  shows "busy (ec_at c) = 1" "has_channel (ec_at c)"
proof -
  have inv: "mc_inv 1 ECHO_MSG_SIZE (ec_chan c)"
    and l: "sends (ec_acts c) = so @ msgs (to_put pc)" "oo = map (\<lambda>m. m\<lparr>sender := spid\<rparr>) io"
      "oo = msgs (sent (ec_chan c)) @ msgs (to_put (procs (ec_chan c) ! 1))"
      "msgs (received (ec_chan c)) = ec_replies c @ msgs (got (procs (ec_chan c) ! 0))"
      "length (sends (ec_acts c)) = length (ec_replies c) + busy (ec_at c)"
    using assms(1) unfolding link_def by blast+
  have "length (received (ec_chan c)) \<le> length (sent (ec_chan c))"
    using inv arg_cong[of _ _ length] by (auto simp: mc_inv_def mc_tokens_def)
  moreover have "length (received (ec_chan c)) = length (ec_replies c) + length (got (procs (ec_chan c) ! 0))"
    using arg_cong[OF l(4), of length] by simp
  moreover have "length io = length (sent (ec_chan c)) + length (to_put (procs (ec_chan c) ! 1))"
    using arg_cong[OF l(3), of length] arg_cong[OF l(2), of length] by simp
  moreover have "length so \<le> length (ec_replies c) + busy (ec_at c)" using arg_cong[OF l(1), of length] l(5) by simp
  ultimately have "0 < busy (ec_at c)" using assms(2) by linarith
  then show "busy (ec_at c) = 1" "has_channel (ec_at c)" by (cases "ec_at c"; simp)+
qed

lemma server_finds:
  assumes "pids_ok spid pids" "i < length pids" "has_channel (ec_at (en_cli s i))"
  shows "find_channel pids s (reply_name (pids ! i)) = Some i"
proof -
  have p: "0 < pids ! k" "in_int (pids ! k)" if "k < length pids" for k using assms(1) that by (simp_all add: pids_ok_def)
  have eq: "response_name (pids ! k) = Inr (reply_name (pids ! i)) \<longleftrightarrow> k = i" if "k < length pids" for k
    using response_name_pid[OF p[OF that]] reply_name_inj[OF p(1)[OF that] p(1)[OF assms(2)]] assms(1,2) that
    by (simp add: pids_ok_def nth_eq_iff_index_eq)
  show ?thesis unfolding find_channel_def find_Some_iff
    by (rule exI[of _ i]) (use assms(2,3) eq in auto)
qed

lemma received_first:
  assumes "mc_inv cap es S" "msgs (received S) = ins @ [x]"
  shows "x \<in> set (msgs (sent S))" "length (own p (ins @ [x])) \<le> length (own p (msgs (sent S)))"
proof -
  have "received S = take (length (received S)) (sent S)" using assms(1) by (simp add: mc_inv_def mc_ring_def)
  then have t: "ins @ [x] = take (length (received S)) (msgs (sent S))" using assms(2) by (simp add: take_map)
  then obtain rest where split: "msgs (sent S) = (ins @ [x]) @ rest" by (metis append_take_drop_id)
  show "x \<in> set (msgs (sent S))" unfolding split by simp
  show "length (own p (ins @ [x])) \<le> length (own p (msgs (sent S)))" unfolding split by simp
qed

lemma cli_run_upd [simp]: "cli_run p input (c\<lparr>ec_chan := ch\<rparr>) = cli_run p input c"
  by (cases "ec_at c") (simp_all add: cli_run_def)

lemma server_gets_ok:
  assumes "en_server_gets s = Some s'" "en_ok spid pids m inputs s"
  shows "en_ok spid pids m inputs s'"
proof -
  note srv = en_okD(1)[OF assms(2), unfolded srv_ok_def]
  have inv: "mc_inv 8 ECHO_MSG_SIZE (en_srv s)" using srv by blast
  obtain ch where at: "en_at s = Fetching" and b: "mc_step (BeginGet 0) (en_srv s) = Some ch" and s': "s' = s\<lparr>en_srv := ch\<rparr>"
    using assms(1) by (auto simp: en_server_gets_def split: if_splits)
  have ch: "procs ch = (procs (en_srv s))[0 := GetWait]" "sent ch = sent (en_srv s)" "received ch = received (en_srv s)"
      "mc_inv 8 ECHO_MSG_SIZE ch" "0 < length (procs (en_srv s))" "procs (en_srv s) ! 0 = Away"
    using begin_step[OF inv b, of 0 _ GetWait] by auto
  have "srv_ok spid pids m s'" using srv ch at by (simp add: s' srv_ok_def)
  moreover have "link_at spid pids s' j" if "j < length pids" for j
    using en_okD(2)[OF assms(2) that] link_at_same[of s' j s pids spid] ch by (simp add: s')
  moreover have "cli_run (pids ! j) (inputs j) (en_cli s' j)" if "j < length pids" for j
    using en_okD(3)[OF assms(2) that] by (simp add: s')
  moreover have "term_ok (length pids) s' k" if "k < m" for k
    by (rule term_ok_same[OF en_okD(4)[OF assms(2) that]]) (use ch in \<open>simp_all add: s'\<close>)
  ultimately show ?thesis by (simp add: en_ok_def)
qed

text \<open>The end of \<open>mc_get\<close> and the turn that follows.\<close>

lemma server_stops_ok:
  assumes "en_ok spid pids m inputs s" "en_at s = Fetching" "mc_inv 8 ECHO_MSG_SIZE ch" "pids_ok spid pids"
    and "procs ch = (procs (en_srv s))[0 := Away]" "sent ch = sent (en_srv s)" "msgs (received ch) = map fst (en_in s) @ [stop_msg]"
  shows "en_ok spid pids m inputs (s\<lparr>en_srv := ch, en_in := en_in s @ [(stop_msg, opens)], en_at := Stopping\<rparr>)" (is "en_ok _ _ _ _ ?s'")
proof -
  note srv = en_okD(1)[OF assms(1), unfolded srv_ok_def]
  have turn: "server_turn spid opens stop_msg = Stopped" by (simp add: server_turn_def stop_msg_def ECHO_MSG_MAX_LEN_def)
  have "server_loop spid (en_in s) = (en_out s, Waiting)" using srv assms(2) by simp
  from server_loop_snoc[OF this, of stop_msg opens] have "srv_ok spid pids m ?s'"
    using srv assms(2,3,5-7) turn by (simp add: srv_ok_def)
  moreover have "link_at spid pids ?s' j" if "j < length pids" for j
  proof -
    have "0 < pids ! j" using assms(4) that by (simp add: pids_ok_def)
    then show ?thesis using en_okD(2)[OF assms(1) that] link_at_same[of ?s' j s pids spid] assms(2,5,6) by (simp add: stop_msg_def)
  qed
  moreover have "cli_run (pids ! j) (inputs j) (en_cli ?s' j)" if "j < length pids" for j
    using en_okD(3)[OF assms(1) that] by simp
  moreover have "term_ok (length pids) ?s' k" if "k < m" for k
    by (rule term_ok_same[OF en_okD(4)[OF assms(1) that]]) (use assms(2,5,6) in \<open>simp_all add: server_gone_def\<close>)
  ultimately show ?thesis by (simp add: en_ok_def)
qed

lemma server_answers_ok:
  assumes "en_ok spid pids m inputs s" "en_at s = Fetching" "mc_inv 8 ECHO_MSG_SIZE ch" "pids_ok spid pids" "i < length pids"
    and "procs ch = (procs (en_srv s))[0 := Away]" "sent ch = sent (en_srv s)" "msgs (received ch) = map fst (en_in s) @ [x]"
    and "sender x = pids ! i" "opens (reply_name (pids ! i))"
    and "mc_step (BeginPut 1 (bytes_of_msg (x\<lparr>sender := spid\<rparr>))) (ec_chan (en_cli s i)) = Some new"
  shows "en_ok spid pids m inputs (s\<lparr>en_srv := ch, en_in := en_in s @ [(x, opens)],
      en_out := en_out s @ [(reply_name (pids ! i), x\<lparr>sender := spid\<rparr>)], en_at := Answering i,
      en_cli := (en_cli s)(i := (en_cli s i)\<lparr>ec_chan := new\<rparr>)\<rparr>)" (is "en_ok _ _ _ _ ?s'")
proof -
  note srv = en_okD(1)[OF assms(1), unfolded srv_ok_def]
  have p: "0 < pids ! k" "in_int (pids ! k)" if "k < length pids" for k using assms(4) that by (simp_all add: pids_ok_def)
  have "response_name (sender x) = Inr (reply_name (pids ! i))" using response_name_pid[OF p[OF assms(5)]] assms(9) by simp
  then have turn: "server_turn spid opens x = Replied (reply_name (pids ! i)) (x\<lparr>sender := spid\<rparr>)"
    using p(1)[OF assms(5)] assms(9,10) by (simp add: server_turn_def)
  have "server_loop spid (en_in s) = (en_out s, Waiting)" using srv assms(2) by simp
  from server_loop_snoc[OF this, of x opens] have "srv_ok spid pids m ?s'"
    using srv assms(2,3,5-8) turn by (simp add: srv_ok_def)
  moreover have "link_at spid pids ?s' j" if "j < length pids" for j
  proof (cases "j = i")
    case True
    have "link spid (own (pids ! i) (msgs (sent (en_srv s)))) (procs (en_srv s) ! Suc i) (own (pids ! i) (map fst (en_in s)))
        (answers (pids ! i) (en_out s)) False (en_cli s i)"
      using en_okD(2)[OF assms(1,5)] assms(2) by (simp add: link_at_def)
    from link_server_begins[OF this _ assms(11)] show ?thesis using True assms(4,6,7,9) by (simp add: link_at_def pids_ok_def)
  next
    case False
    then have ne: "pids ! j \<noteq> pids ! i" using assms(4,5) that by (simp add: pids_ok_def nth_eq_iff_index_eq)
    then have "reply_name (pids ! i) \<noteq> reply_name (pids ! j)" using reply_name_inj[OF p(1)[OF that] p(1)[OF assms(5)]] by metis
    then show ?thesis using en_okD(2)[OF assms(1) that] link_at_same[of ?s' j s pids spid] assms(2,6,7,9) False ne by simp
  qed
  moreover have "cli_run (pids ! j) (inputs j) (en_cli ?s' j)" if "j < length pids" for j
    using en_okD(3)[OF assms(1) that] by (cases "j = i") simp_all
  moreover have "term_ok (length pids) ?s' k" if "k < m" for k
    by (rule term_ok_same[OF en_okD(4)[OF assms(1) that]]) (use assms(2,6,7) in \<open>simp_all add: server_gone_def\<close>)
  ultimately show ?thesis by (simp add: en_ok_def)
qed

lemma server_answering_ok:
  assumes "en_ok spid pids m inputs s" "en_at s = Answering i" "mc_step (Step 1) (ec_chan (en_cli s i)) = Some ch" "pids_ok spid pids"
  shows "en_ok spid pids m inputs (s\<lparr>en_cli := (en_cli s)(i := (en_cli s i)\<lparr>ec_chan := ch\<rparr>),
      en_at := (if procs (ec_chan (en_cli s i)) ! 1 = PutPost then Fetching else Answering i)\<rparr>)" (is "en_ok _ _ _ _ ?s'")
proof -
  note srv = en_okD(1)[OF assms(1), unfolded srv_ok_def]
  have i: "i < length pids" using srv assms(2) by simp
  have "srv_ok spid pids m ?s'" using srv assms(2) by (simp add: srv_ok_def)
  moreover have "link_at spid pids ?s' j" if "j < length pids" for j
  proof (cases "j = i")
    case True
    have "link spid (own (pids ! i) (msgs (sent (en_srv s)))) (procs (en_srv s) ! Suc i) (own (pids ! i) (map fst (en_in s)))
        (answers (pids ! i) (en_out s)) True (en_cli s i)"
      using en_okD(2)[OF assms(1) i] assms(2) by (simp add: link_at_def)
    from link_server_step[OF this assms(3)] show ?thesis
      using True by (cases "procs (ec_chan (en_cli s i)) ! 1 = PutPost") (simp_all add: link_at_def)
  next
    case False
    then show ?thesis using en_okD(2)[OF assms(1) that] link_at_same[of ?s' j s pids spid] assms(2) by simp
  qed
  moreover have "cli_run (pids ! j) (inputs j) (en_cli ?s' j)" if "j < length pids" for j
    using en_okD(3)[OF assms(1) that] by (cases "j = i") simp_all
  moreover have "term_ok (length pids) ?s' k" if "k < m" for k
    by (rule term_ok_same[OF en_okD(4)[OF assms(1) that]]) (use assms(2) in \<open>simp_all add: server_gone_def\<close>)
  ultimately show ?thesis by (simp add: en_ok_def)
qed

text \<open>A step in \<open>mc_get\<close> that is not its last.\<close>

lemma server_getting_ok:
  assumes "en_ok spid pids m inputs s" "en_at s = Fetching" "mc_inv 8 ECHO_MSG_SIZE ch"
    and "procs ch = (procs (en_srv s))[0 := p']" "sent ch = sent (en_srv s)" "\<not> putting p'"
    and "msgs (received ch) = map fst (en_in s) @ msgs (got p')"
  shows "en_ok spid pids m inputs (s\<lparr>en_srv := ch\<rparr>)" (is "en_ok _ _ _ _ ?s'")
proof -
  note srv = en_okD(1)[OF assms(1), unfolded srv_ok_def]
  have "0 < length (procs (en_srv s))" using srv by simp
  then have "srv_ok spid pids m ?s'" using srv assms(2-7) by (simp add: srv_ok_def)
  moreover have "link_at spid pids ?s' j" if "j < length pids" for j
    using en_okD(2)[OF assms(1) that] link_at_same[of ?s' j s pids spid] assms(4,5) by simp
  moreover have "cli_run (pids ! j) (inputs j) (en_cli ?s' j)" if "j < length pids" for j
    using en_okD(3)[OF assms(1) that] by simp
  moreover have "term_ok (length pids) ?s' k" if "k < m" for k
    by (rule term_ok_same[OF en_okD(4)[OF assms(1) that]]) (use assms(4,5) in simp_all)
  ultimately show ?thesis by (simp add: en_ok_def)
qed

text \<open>A message the server has just got: one of a client, whose channel it finds, or the stop.\<close>

lemma server_got:
  assumes "en_ok spid pids m inputs s" "pids_ok spid pids" "mc_inv 8 ECHO_MSG_SIZE ch" "sent ch = sent (en_srv s)"
    and "msgs (received ch) = map fst (en_in s) @ [x]"
  shows "x = stop_msg \<or> (\<exists>i<length pids. sender x = pids ! i \<and> length (msg x) = ECHO_MSG_MAX_LEN
    \<and> find_channel pids s (reply_name (pids ! i)) = Some i)"
proof (cases "x = stop_msg")
  case False
  note first = received_first[OF assms(3,5), unfolded assms(4)]
  obtain b where b: "b \<in> set (sent (en_srv s))" "x = msg_of_bytes b" using first(1) by auto
  have "length b = ECHO_MSG_SIZE" "sender x \<in> set pids" using en_okD(1)[OF assms(1)] b False by (auto simp: srv_ok_def)
  then obtain i where i: "i < length pids" "sender x = pids ! i" by (metis in_set_conv_nth)
  have "length (msg x) = ECHO_MSG_MAX_LEN" using b(2) \<open>length b = _\<close> by (simp add: msg_of_bytes_def ECHO_MSG_SIZE_def)
  moreover have "has_channel (ec_at (en_cli s i))"
    by (rule unanswered_busy(2)[OF en_okD(2)[OF assms(1) i(1), unfolded link_at_def]]) (use first(2)[of "pids ! i"] i(2) in simp)
  ultimately show ?thesis using server_finds[OF assms(2) i(1)] i by blast
qed simp

lemma find_channel_upd [simp]: "find_channel pids (s\<lparr>en_srv := ch\<rparr>) = find_channel pids s"
  by (rule ext) (simp add: find_channel_def)

lemma server_turn_ok:
  assumes "en_turn spid pids x (s\<lparr>en_srv := ch\<rparr>) = Some s'" "en_ok spid pids m inputs s" "pids_ok spid pids"
    and "en_at s = Fetching" "mc_inv 8 ECHO_MSG_SIZE ch" "procs ch = (procs (en_srv s))[0 := Away]" "sent ch = sent (en_srv s)"
    and "msgs (received ch) = map fst (en_in s) @ [x]"
  shows "en_ok spid pids m inputs s'"
proof -
  let ?opens = "\<lambda>name. find_channel pids s name \<noteq> None"
  consider "x = stop_msg" | i where "i < length pids" "sender x = pids ! i" "find_channel pids s (reply_name (pids ! i)) = Some i"
    using server_got[OF assms(2,3,5,7,8)] by blast
  then show ?thesis
  proof cases
    case 1
    have "server_turn spid ?opens stop_msg = Stopped" by (simp add: server_turn_def stop_msg_def ECHO_MSG_MAX_LEN_def)
    then have "s' = s\<lparr>en_srv := ch, en_in := en_in s @ [(stop_msg, ?opens)], en_at := Stopping\<rparr>"
      using assms(1) 1 by (simp add: en_turn_def Let_def)
    then show ?thesis using server_stops_ok[OF assms(2,4,5,3,6,7)] assms(8) 1 by simp
  next
    case 2
    have p: "0 < pids ! i" "in_int (pids ! i)" using assms(3) 2(1) by (simp_all add: pids_ok_def)
    have "server_turn spid ?opens x = Replied (reply_name (pids ! i)) (x\<lparr>sender := spid\<rparr>)"
      using response_name_pid[OF p] p(1) 2(2,3) by (simp add: server_turn_def)
    then obtain new where "mc_step (BeginPut 1 (bytes_of_msg (x\<lparr>sender := spid\<rparr>))) (ec_chan (en_cli s i)) = Some new"
        "s' = s\<lparr>en_srv := ch, en_in := en_in s @ [(x, ?opens)],
          en_out := en_out s @ [(reply_name (pids ! i), x\<lparr>sender := spid\<rparr>)], en_at := Answering i,
          en_cli := (en_cli s)(i := (en_cli s i)\<lparr>ec_chan := new\<rparr>)\<rparr>"
      using assms(1) 2(3) by (auto simp: en_turn_def Let_def)
    then show ?thesis using server_answers_ok[OF assms(2,4,5,3) 2(1) assms(6-8) 2(2), of ?opens new] 2(3) by simp
  qed
qed

lemma server_step_ok:
  assumes "en_server_step spid pids s = Some s'" "en_ok spid pids m inputs s" "pids_ok spid pids"
  shows "en_ok spid pids m inputs s'"
proof (cases "en_at s")
  case Fetching
  note srv = en_okD(1)[OF assms(2), unfolded srv_ok_def]
  have inv: "mc_inv 8 ECHO_MSG_SIZE (en_srv s)" "\<not> putting (procs (en_srv s) ! 0)"
    and rec: "msgs (received (en_srv s)) = map fst (en_in s) @ msgs (got (procs (en_srv s) ! 0))" using srv Fetching by auto
  obtain ch where ch: "mc_step (Step 0) (en_srv s) = Some ch"
    using assms(1) Fetching by (auto simp: en_server_step_def split: bind_splits)
  obtain p' where p: "procs ch = (procs (en_srv s))[0 := p']" "mc_inv 8 ECHO_MSG_SIZE ch" "sent ch = sent (en_srv s)"
    "p' = Away \<longleftrightarrow> (\<exists>x. procs (en_srv s) ! 0 = GetPost x)" "\<not> putting p'"
    "p' \<noteq> Away \<longrightarrow> (\<exists>new. received ch = received (en_srv s) @ new \<and> got p' = got (procs (en_srv s) ! 0) @ new)"
    "p' = Away \<longrightarrow> received ch = received (en_srv s)"
    by (rule get_step[OF inv(1) ch d8 inv(2)]) blast
  show ?thesis
  proof (cases "p' = Away")
    case True
    then obtain x where x: "procs (en_srv s) ! 0 = GetPost x" using p(4) by blast
    have "en_turn spid pids (msg_of_bytes x) (s\<lparr>en_srv := ch\<rparr>) = Some s'"
      using assms(1) Fetching ch x by (simp add: en_server_step_def)
    from server_turn_ok[OF this assms(2,3) Fetching p(2) _ p(3)] show ?thesis using p(1,7) True rec x by simp
  next
    case False
    then have "s' = s\<lparr>en_srv := ch\<rparr>"
      using assms(1) Fetching ch p(4) by (auto simp: en_server_step_def split: mc_pc.splits)
    moreover have "msgs (received ch) = map fst (en_in s) @ msgs (got p')" using p(6) False rec by auto
    ultimately show ?thesis using server_getting_ok[OF assms(2) Fetching p(2,1,3,5)] by simp
  qed
next
  case (Answering i)
  then obtain ch where ch: "mc_step (Step 1) (ec_chan (en_cli s i)) = Some ch"
      "s' = s\<lparr>en_cli := (en_cli s)(i := (en_cli s i)\<lparr>ec_chan := ch\<rparr>),
        en_at := (if procs (ec_chan (en_cli s i)) ! 1 = PutPost then Fetching else Answering i)\<rparr>"
    using assms(1) by (auto simp: en_server_step_def)
  show ?thesis unfolding ch(2) by (rule server_answering_ok[OF assms(2) Answering ch(1) assms(3)])
next
  case Stopping
  then have s': "s' = s\<lparr>en_at := Ended (Exits 0)\<rparr>" using assms(1) by (simp add: en_server_step_def)
  have "srv_ok spid pids m s'" using en_okD(1)[OF assms(2)] Stopping by (simp add: s' srv_ok_def)
  moreover have "link_at spid pids s' j" if "j < length pids" for j
    using en_okD(2)[OF assms(2) that] link_at_same[of s' j s pids spid] Stopping by (simp add: s')
  moreover have "cli_run (pids ! j) (inputs j) (en_cli s' j)" if "j < length pids" for j
    using en_okD(3)[OF assms(2) that] by (simp add: s')
  moreover have "term_ok (length pids) s' k" if "k < m" for k
    by (rule term_ok_same[OF en_okD(4)[OF assms(2) that]]) (use Stopping in \<open>simp_all add: s' server_gone_def\<close>)
  ultimately show ?thesis by (simp add: en_ok_def)
qed (use assms(1) in \<open>simp add: en_server_step_def\<close>)

section \<open>The terminators\<close>

lemma stop_roundtrip [simp]: "msg_of_bytes (bytes_of_msg stop_msg) = stop_msg"
  by (rule msg_roundtrip) (simp add: stop_msg_def c_int_bounds)

lemma term_starts_ok:
  assumes "en_term_starts (length pids) k s = Some s'" "en_ok spid pids m inputs s" "k < m"
  shows "en_ok spid pids m inputs s'"
proof (cases "server_gone (en_at s)")
  case True
  then have s': "s' = s\<lparr>en_term := (en_term s)(k := Gone (Exits 1))\<rparr>" "en_term s k = Absent"
    using assms(1) by (auto simp: en_term_starts_def split: if_splits)
  have "term_ok (length pids) s' j" if "j < m" for j
  proof (cases "j = k")
    case True
    then show ?thesis using en_okD(4)[OF assms(2) that] \<open>server_gone _\<close> s' by (simp add: term_ok_def)
  next
    case False
    show ?thesis by (rule term_ok_same[OF en_okD(4)[OF assms(2) that]]) (use False in \<open>simp_all add: s'\<close>)
  qed
  moreover have "link_at spid pids s' j" if "j < length pids" for j
    using en_okD(2)[OF assms(2) that] link_at_same[of s' j s pids spid] by (simp add: s')
  ultimately show ?thesis using assms(2) by (simp add: en_ok_def s'(1))
next
  case False
  let ?t = "Suc (length pids + k)" and ?x = "bytes_of_msg stop_msg"
  note srv = en_okD(1)[OF assms(2), unfolded srv_ok_def]
  have inv: "mc_inv 8 ECHO_MSG_SIZE (en_srv s)" using srv by blast
  obtain ch where b: "mc_step (BeginPut ?t ?x) (en_srv s) = Some ch" and s': "s' = s\<lparr>en_srv := ch, en_term := (en_term s)(k := Sending)\<rparr>"
    using assms(1) False by (auto simp: en_term_starts_def split: if_splits)
  have ch: "procs ch = (procs (en_srv s))[?t := PutWait ?x]" "sent ch = sent (en_srv s)" "received ch = received (en_srv s)"
      "mc_inv 8 ECHO_MSG_SIZE ch" "?t < length (procs (en_srv s))"
    using begin_step[OF inv b, of ?t ?x] by auto
  have "srv_ok spid pids m s'" using srv ch by (simp add: s' srv_ok_def)
  moreover have "link_at spid pids s' j" if "j < length pids" for j
    using en_okD(2)[OF assms(2) that] link_at_same[of s' j s pids spid] ch that by (simp add: s')
  moreover have "cli_run (pids ! j) (inputs j) (en_cli s' j)" if "j < length pids" for j
    using en_okD(3)[OF assms(2) that] by (simp add: s')
  moreover have "term_ok (length pids) s' j" if "j < m" for j
  proof (cases "j = k")
    case True
    then show ?thesis using ch by (simp add: s' term_ok_def)
  next
    case False
    show ?thesis by (rule term_ok_same[OF en_okD(4)[OF assms(2) that]]) (use False ch in \<open>simp_all add: s'\<close>)
  qed
  ultimately show ?thesis by (simp add: en_ok_def)
qed

lemma term_step_ok:
  assumes "en_term_step (length pids) k s = Some s'" "en_ok spid pids m inputs s" "k < m" "pids_ok spid pids"
  shows "en_ok spid pids m inputs s'"
proof -
  let ?t = "Suc (length pids + k)"
  let ?pc = "procs (en_srv s) ! ?t"
  obtain ch where at: "en_term s k = Sending" and st: "mc_step (Step ?t) (en_srv s) = Some ch"
    and s': "s' = s\<lparr>en_srv := ch, en_term := (en_term s)(k := (if ?pc = PutPost then Gone (Exits 0) else Sending))\<rparr>"
    using assms(1) by (auto simp: en_term_step_def split: if_splits)
  have pc: "putting ?pc" "set (msgs (to_put ?pc)) \<subseteq> {stop_msg}" "to_put ?pc = [] \<longrightarrow> stop_msg \<in> set (msgs (sent (en_srv s)))"
    using en_okD(4)[OF assms(2,3)] at by (simp_all add: term_ok_def Let_def)
  have ok: "\<forall>x\<in>set (msgs (to_put ?pc)). x = stop_msg \<and> 0 < m \<or> sender x \<in> set pids" using pc(2) assms(3) by auto
  obtain p' new where p: "procs ch = (procs (en_srv s))[?t := p']" "sent ch = sent (en_srv s) @ new" "?t < length (procs (en_srv s))"
    "to_put ?pc = new @ to_put p'" "p' = Away \<longleftrightarrow> ?pc = PutPost" "p' \<noteq> Away \<longrightarrow> putting p'"
    "srv_ok spid pids m (s\<lparr>en_srv := ch\<rparr>)" "?pc = PutPost \<longrightarrow> new = []"
    by (rule srv_put_step[OF en_okD(1)[OF assms(2)] st _ pc(1) ok]) auto
  have news: "set (msgs new) \<subseteq> {stop_msg}" "set (msgs (to_put p')) \<subseteq> {stop_msg}" using pc(2) unfolding p(4) by auto
  then have zero: "\<forall>x\<in>set (msgs new). sender x = 0" by (auto simp: stop_msg_def)
  have new: "own (pids ! j) (msgs (sent ch)) = own (pids ! j) (msgs (sent (en_srv s)))" if "j < length pids" for j
  proof -
    have "0 < pids ! j" using assms(4) that by (simp add: pids_ok_def)
    then show ?thesis unfolding p(2) map_append own_append[OF zero] by simp
  qed
  have stop: "stop_msg \<in> set (msgs (sent ch))" if "to_put p' = []"
  proof (cases "to_put ?pc = []")
    case True
    then show ?thesis using pc(3) p(2) by simp
  next
    case False
    then have "new \<noteq> []" using p(4) that by simp
    then show ?thesis using news(1) p(2) by (cases new) auto
  qed
  have "link_at spid pids s' j" if "j < length pids" for j
    using en_okD(2)[OF assms(2) that] link_at_same[of s' j s pids spid] p(1) new[OF that] that by (simp add: s')
  moreover have "cli_run (pids ! j) (inputs j) (en_cli s' j)" if "j < length pids" for j
    using en_okD(3)[OF assms(2) that] by (simp add: s')
  moreover have "term_ok (length pids) s' j" if "j < m" for j
  proof (cases "j = k")
    case True
    then show ?thesis using p(1,3,5,6) news(2) stop by (auto simp: s' term_ok_def Let_def)
  next
    case False
    show ?thesis by (rule term_ok_same[OF en_okD(4)[OF assms(2) that]]) (use False p(1,2) in \<open>auto simp: s'\<close>)
  qed
  moreover have "srv_ok spid pids m s'" using p(7) by (simp add: s')
  ultimately show ?thesis by (simp add: en_ok_def)
qed

section \<open>Every event\<close>

lemma en_step_ok:
  assumes "en_step spid pids m e s = Some s'" "en_ok spid pids m inputs s" "pids_ok spid pids"
  shows "en_ok spid pids m inputs s'"
  using assms(1)
  by (cases e) (use assms(2,3) server_gets_ok server_step_ok client_starts_ok client_reads_ok client_step_ok term_starts_ok
      term_step_ok in \<open>fastforce split: if_splits\<close>)+

lemma en_run_ok:
  assumes "en_run spid pids m es s = Some s'" "en_ok spid pids m inputs s" "pids_ok spid pids"
  shows "en_ok spid pids m inputs s'"
  using assms(1,2)
proof (induction es arbitrary: s)
  case (Cons e es)
  then obtain s1 where "en_step spid pids m e s = Some s1" "en_run spid pids m es s1 = Some s'" by (auto split: bind_splits)
  then show ?case using Cons.IH en_step_ok[OF _ Cons.prems(2) assms(3)] by blast
qed simp

end
