(* ===== verification/Echo_Network_Live.thy ===== *)
theory Echo_Network_Live
  imports Echo_Network_Steps "HOL-Library.Sublist"
begin

text \<open>
  What follows from the invariant of the echo service of 19: every reply is the client's own message,
  what a process has done is a run of its program on whole messages, and where no process can go on
  there is nothing left in any channel that anybody waits for.
\<close>

section \<open>The replies\<close>

lemma replies_are_echoes:
  assumes "srv_ok spid pids m s" "link_at spid pids s i"
  shows "ec_replies (en_cli s i) = map (\<lambda>x. x\<lparr>sender := spid\<rparr>) (take (length (ec_replies (en_cli s i))) (sends (ec_acts (en_cli s i))))"
proof -
  let ?c = "en_cli s i" and ?f = "\<lambda>x :: echomsg. x\<lparr>sender := spid\<rparr>"
  let ?o = "ec_chan ?c"
  have inv: "mc_inv 1 ECHO_MSG_SIZE ?o" and l: "sends (ec_acts ?c) = own (pids ! i) (msgs (sent (en_srv s))) @ msgs (to_put (procs (en_srv s) ! Suc i))"
      "answers (pids ! i) (en_out s) = map ?f (own (pids ! i) (map fst (en_in s)))"
      "answers (pids ! i) (en_out s) = msgs (sent ?o) @ msgs (to_put (procs ?o ! 1))"
      "msgs (received ?o) = ec_replies ?c @ msgs (got (procs ?o ! 0))"
    using assms(2) unfolding link_at_def link_def by blast+
  have ch: "prefix (received S) (sent S)" if "mc_inv cap es S" for cap es S
    using that take_is_prefix[of "length (received S)" "sent S"] by (simp add: mc_inv_def mc_ring_def)
  have "prefix (ec_replies ?c) (msgs (received ?o))" unfolding l(4) by simp
  also have "prefix (msgs (received ?o)) (msgs (sent ?o))" by (rule map_mono_prefix[OF ch[OF inv]])
  also have "prefix (msgs (sent ?o)) (map ?f (own (pids ! i) (map fst (en_in s))))" unfolding l(2)[symmetric] l(3) by simp
  also have "prefix (map ?f (own (pids ! i) (map fst (en_in s)))) (map ?f (own (pids ! i) (msgs (sent (en_srv s)))))"
  proof (rule map_mono_prefix[OF filter_mono_prefix])
    have "prefix (map fst (en_in s)) (msgs (received (en_srv s)))" using assms(1) by (simp add: srv_ok_def)
    also have "prefix (msgs (received (en_srv s))) (msgs (sent (en_srv s)))"
      by (rule map_mono_prefix[OF ch[of 8 ECHO_MSG_SIZE]]) (use assms(1) in \<open>simp add: srv_ok_def\<close>)
    finally show "prefix (map fst (en_in s)) (msgs (sent (en_srv s)))" .
  qed
  also have "prefix (map ?f (own (pids ! i) (msgs (sent (en_srv s))))) (map ?f (sends (ec_acts ?c)))"
    unfolding l(1) by (rule map_mono_prefix) simp
  finally show ?thesis by (auto simp: prefix_def take_map[symmetric])
qed

lemma client_loop_ending: "snd (client_loop m input rs) \<noteq> Exits 2"
proof (induction rs arbitrary: m input)
  case Nil
  obtain line rest where "read_line (ECHO_MSG_MAX_LEN - 1) input = (line, rest)" by fastforce
  then show ?case using client_loop_turn[of input line rest m "[]"]
    by (cases "input = []") (auto simp: client_loop.simps(1) split: sum.splits)
next
  case (Cons r rs)
  obtain line rest where "read_line (ECHO_MSG_MAX_LEN - 1) input = (line, rest)" by fastforce
  then show ?case using client_loop_turn[of input line rest m "r # rs"] Cons.IH
    by (cases "input = []") (auto simp: client_loop.simps(2) before_def split: sum.splits)
qed

fun client_ending :: "place \<Rightarrow> ending" where
  "client_ending (Gone e) = e"
| "client_ending _ = Waiting"

lemma client_refines:
  assumes "cli_run p input c" "ec_at c \<noteq> Absent" "ec_at c \<noteq> Reading" "0 < p" "in_int p"
  shows "echo_client p True (ec_at c \<noteq> Gone (Exits 2)) input (ec_replies c) = (ec_acts c, client_ending (ec_at c))"
proof -
  have name: "response_name p = Inr (reply_name p)" by (rule response_name_pid[OF assms(4,5)])
  have "client_loop (first_msg p) input rs \<noteq> (as, Exits 2)" for rs as using client_loop_ending[of "first_msg p" input rs] by auto
  then show ?thesis using assms(1-3) name by (cases "ec_at c") (auto simp: cli_run_def echo_client_def first_msg_def)
qed

lemma network_reach:
  assumes "pids_ok spid pids" "unat offset + 8 * ECHO_MSG_SIZE < 2 ^ 64"
    and "en_run spid pids m es (en_start offset pids inputs m) = Some s"
  shows "en_ok spid pids m inputs s"
  by (rule en_run_ok[OF assms(3) en_ok_start[OF assms(2)] assms(1)])

section \<open>Who can go on\<close>

lemma link_pcs:
  assumes "link spid so pc io oo ans c"
  shows "mc_inv 1 ECHO_MSG_SIZE (ec_chan c)" "length (procs (ec_chan c)) = 2"
    "ec_at c \<noteq> Sending \<Longrightarrow> pc = Away" "ec_at c = Sending \<Longrightarrow> pc \<noteq> Away \<and> putting pc"
    "ec_at c \<noteq> Receiving \<Longrightarrow> procs (ec_chan c) ! 0 = Away"
    "ec_at c = Receiving \<Longrightarrow> procs (ec_chan c) ! 0 \<noteq> Away \<and> \<not> putting (procs (ec_chan c) ! 0)"
    "\<not> ans \<Longrightarrow> procs (ec_chan c) ! 1 = Away" "ans \<Longrightarrow> procs (ec_chan c) ! 1 \<noteq> Away \<and> putting (procs (ec_chan c) ! 1)"
  using assms by (simp_all add: link_def)

lemma turn_possible:
  assumes "en_ok spid pids m inputs s" "pids_ok spid pids" "en_at s = Fetching"
    and "mc_step (Step 0) (en_srv s) = Some ch" "procs (en_srv s) ! 0 = GetPost b"
  shows "en_turn spid pids (msg_of_bytes b) (s\<lparr>en_srv := ch\<rparr>) \<noteq> None"
proof -
  let ?x = "msg_of_bytes b"
  note srv = en_okD(1)[OF assms(1), unfolded srv_ok_def]
  have inv: "mc_inv 8 ECHO_MSG_SIZE (en_srv s)" "\<not> putting (procs (en_srv s) ! 0)" using srv assms(5) by auto
  obtain p' where p: "mc_inv 8 ECHO_MSG_SIZE ch" "sent ch = sent (en_srv s)" "p' = Away \<longleftrightarrow> (\<exists>x. procs (en_srv s) ! 0 = GetPost x)"
    "p' = Away \<longrightarrow> received ch = received (en_srv s)"
    by (rule get_step[OF inv(1) assms(4) d8 inv(2)]) blast
  have "msgs (received ch) = map fst (en_in s) @ [?x]" using p(3,4) srv assms(5) by simp
  from server_got[OF assms(1,2) p(1,2) this]
  consider "?x = stop_msg" | i where "i < length pids" "sender ?x = pids ! i" "length (msg ?x) = ECHO_MSG_MAX_LEN"
    "find_channel pids s (reply_name (pids ! i)) = Some i" by blast
  then show ?thesis
  proof cases
    case 1
    then show ?thesis by (simp add: en_turn_def Let_def server_turn_def stop_msg_def ECHO_MSG_MAX_LEN_def)
  next
    case 2
    have pid: "0 < pids ! i" "in_int (pids ! i)" using assms(2) 2(1) by (simp_all add: pids_ok_def)
    have "link spid (own (pids ! i) (msgs (sent (en_srv s)))) (procs (en_srv s) ! Suc i) (own (pids ! i) (map fst (en_in s)))
        (answers (pids ! i) (en_out s)) False (en_cli s i)"
      using en_okD(2)[OF assms(1) 2(1)] assms(3) by (simp add: link_at_def)
    then have "mc_inv 1 ECHO_MSG_SIZE (ec_chan (en_cli s i))" "1 < length (procs (ec_chan (en_cli s i)))"
      "procs (ec_chan (en_cli s i)) ! 1 = Away" by (simp_all add: link_def)
    from begin_possible(2)[OF this, of "bytes_of_msg (?x\<lparr>sender := spid\<rparr>)"]
    obtain new where "mc_step (BeginPut 1 (bytes_of_msg (?x\<lparr>sender := spid\<rparr>))) (ec_chan (en_cli s i)) = Some new"
      using 2(3) by (auto simp: ECHO_MSG_SIZE_def)
    then show ?thesis using response_name_pid[OF pid] pid(1) 2(2,4) by (simp add: en_turn_def Let_def server_turn_def)
  qed
qed

text \<open>When no event can happen, no process can take a step in its call.\<close>

definition stuck :: "int \<Rightarrow> int list \<Rightarrow> nat \<Rightarrow> echo_net \<Rightarrow> bool" where
  "stuck spid pids m s \<longleftrightarrow> (\<forall>e. en_step spid pids m e s = None)"

lemma stuckD:
  assumes "stuck spid pids m s"
  shows "en_server_gets s = None" "en_server_step spid pids s = None"
    "i < length pids \<Longrightarrow> en_client_starts i s = None" "i < length pids \<Longrightarrow> en_client_reads i s = None"
    "i < length pids \<Longrightarrow> en_client_step i s = None" "k < m \<Longrightarrow> en_term_starts (length pids) k s = None"
    "k < m \<Longrightarrow> en_term_step (length pids) k s = None"
proof -
  have n: "en_step spid pids m e s = None" for e using assms by (simp add: stuck_def)
  show "en_server_gets s = None" "en_server_step spid pids s = None" using n[of ServerGets] n[of ServerStep] by simp_all
  show "i < length pids \<Longrightarrow> en_client_starts i s = None" "i < length pids \<Longrightarrow> en_client_reads i s = None"
    "i < length pids \<Longrightarrow> en_client_step i s = None" using n[of "ClientStarts i"] n[of "ClientReads i"] n[of "ClientStep i"] by simp_all
  show "k < m \<Longrightarrow> en_term_starts (length pids) k s = None" "k < m \<Longrightarrow> en_term_step (length pids) k s = None"
    using n[of "TermStarts k"] n[of "TermStep k"] by simp_all
qed

lemma away_stays: "procs s ! t = Away \<Longrightarrow> mc_step (Step t) s = None"
  using step_possible by (cases "mc_step (Step t) s") blast+

lemma server_channel_quiet:
  assumes "stuck spid pids m s" "en_ok spid pids m inputs s" "pids_ok spid pids" "t < length (procs (en_srv s))"
  shows "mc_step (Step t) (en_srv s) = None"
proof -
  note srv = en_okD(1)[OF assms(2), unfolded srv_ok_def]
  consider "t = 0" "en_at s = Fetching" | "t = 0" "en_at s \<noteq> Fetching" | i where "t = Suc i" "i < length pids"
    | k where "t = Suc (length pids + k)" "k < m"
  proof (cases t)
    case 0
    then show thesis using that(1,2) by blast
  next
    case (Suc u)
    then have "u < length pids + m" using assms(4) srv by simp
    then show thesis using Suc that(3)[of u] that(4)[of "u - length pids"] by (cases "u < length pids") auto
  qed
  then show ?thesis
  proof cases
    case 1
    show ?thesis
    proof (rule ccontr)
      assume "mc_step (Step t) (en_srv s) \<noteq> None"
      then obtain ch where ch: "mc_step (Step 0) (en_srv s) = Some ch" using 1 by auto
      show False using stuckD(2)[OF assms(1)] 1(2) ch turn_possible[OF assms(2,3) 1(2) ch]
        by (cases "procs (en_srv s) ! 0") (auto simp: en_server_step_def)
    qed
  next
    case 2
    then show ?thesis using srv by (intro away_stays) simp
  next
    case 3
    note link = link_pcs[OF en_okD(2)[OF assms(2) 3(2), unfolded link_at_def]]
    show ?thesis
    proof (cases "ec_at (en_cli s i) = Sending")
      case True
      have "mc_step (BeginGet 0) (ec_chan (en_cli s i)) \<noteq> None"
        by (rule begin_possible(1)[OF link(1)]) (use link(2,5) True in simp_all)
      then show ?thesis using stuckD(5)[OF assms(1) 3(2)] True 3(1)
        by (auto simp: en_client_step_def Let_def split: bind_splits if_splits)
    next
      case False
      then show ?thesis using link(3) 3(1) by (intro away_stays) simp
    qed
  next
    case 4
    show ?thesis
    proof (cases "en_term s k = Sending")
      case True
      then show ?thesis using stuckD(7)[OF assms(1) 4(2)] 4(1) by (simp add: en_term_step_def)
    next
      case False
      then show ?thesis using en_okD(4)[OF assms(2) 4(2)] 4(1)
        by (intro away_stays) (simp add: term_ok_def Let_def split: place.splits)
    qed
  qed
qed

lemma client_channel_quiet:
  assumes "stuck spid pids m s" "en_ok spid pids m inputs s" "i < length pids" "t < length (procs (ec_chan (en_cli s i)))"
  shows "mc_step (Step t) (ec_chan (en_cli s i)) = None"
proof -
  note link = link_pcs[OF en_okD(2)[OF assms(2,3), unfolded link_at_def]]
  have "t = 0 \<or> t = 1" using assms(4) link(2) by auto
  then consider "t = 0" "ec_at (en_cli s i) = Receiving" | "t = 1" "en_at s = Answering i"
    | "procs (ec_chan (en_cli s i)) ! t = Away" using link(5,7) by blast
  then show ?thesis
  proof cases
    case 1
    then show ?thesis using stuckD(5)[OF assms(1,3)] by (simp add: en_client_step_def Let_def)
  next
    case 2
    then show ?thesis using stuckD(2)[OF assms(1)] by (simp add: en_server_step_def)
  qed (rule away_stays)
qed

section \<open>Where it stops\<close>

lemma server_waits: "server_loop pid ms = (rs, Waiting) \<Longrightarrow> x \<in> fst ` set ms \<Longrightarrow> \<not> is_stop x"
proof (induction ms arbitrary: rs)
  case (Cons y ms)
  obtain m opens where y: "y = (m, opens)" by (cases y)
  have "\<not> is_stop m" using Cons.prems(1) by (auto simp: y server_turn_def is_stop_def)
  moreover have "\<exists>rs'. server_loop pid ms = (rs', Waiting)"
    using Cons.prems(1) by (auto simp: y Let_def split: turn.splits prod.splits)
  ultimately show ?case using Cons y by auto
qed simp

lemma server_ends: "server_loop pid ms = (rs, Exits 0) \<Longrightarrow> \<exists>x\<in>fst ` set ms. is_stop x"
proof (induction ms arbitrary: rs)
  case (Cons y ms)
  obtain m opens where y: "y = (m, opens)" by (cases y)
  show ?case
  proof (cases "is_stop m")
    case False
    then have "\<exists>rs'. server_loop pid ms = (rs', Exits 0)"
      using Cons.prems by (auto simp: y Let_def server_turn_def is_stop_def split: turn.splits prod.splits sum.splits if_splits)
    then show ?thesis using Cons.IH by auto
  qed (simp add: y)
qed simp

lemma stuck_places:
  assumes "stuck spid pids m s" "en_ok spid pids m inputs s" "pids_ok spid pids"
  shows "i < length pids \<Longrightarrow> ec_at (en_cli s i) \<noteq> Absent \<and> ec_at (en_cli s i) \<noteq> Reading"
    and "k < m \<Longrightarrow> en_term s k \<noteq> Absent" and "en_at s \<noteq> Stopping"
    and "en_at s = Fetching \<Longrightarrow> procs (en_srv s) ! 0 \<noteq> Away"
proof -
  note srv = en_okD(1)[OF assms(2), unfolded srv_ok_def]
  have inv: "mc_inv 8 ECHO_MSG_SIZE (en_srv s)" using srv by blast
  show "en_at s \<noteq> Stopping" using stuckD(2)[OF assms(1)] by (auto simp: en_server_step_def)
  show "procs (en_srv s) ! 0 \<noteq> Away" if "en_at s = Fetching"
    using stuckD(1)[OF assms(1)] that begin_possible(1)[OF inv, of 0] srv by (auto simp: en_server_gets_def)
  show "en_term s k \<noteq> Absent" if "k < m"
  proof
    assume a: "en_term s k = Absent"
    have "mc_step (BeginPut (Suc (length pids + k)) (bytes_of_msg stop_msg)) (en_srv s) \<noteq> None"
    proof (rule begin_possible(2)[OF inv])
      show "Suc (length pids + k) < length (procs (en_srv s))" using srv that by simp
      show "procs (en_srv s) ! Suc (length pids + k) = Away" using en_okD(4)[OF assms(2) that] a by (simp add: term_ok_def)
    qed (simp add: stop_msg_def ECHO_MSG_SIZE_def)
    then show False using stuckD(6)[OF assms(1) that] a by (auto simp: en_term_starts_def split: if_splits)
  qed
  show "ec_at (en_cli s i) \<noteq> Absent \<and> ec_at (en_cli s i) \<noteq> Reading" if i: "i < length pids"
  proof
    show "ec_at (en_cli s i) \<noteq> Absent" using stuckD(3)[OF assms(1) i] by (auto simp: en_client_starts_def)
    show "ec_at (en_cli s i) \<noteq> Reading"
    proof
      let ?c = "en_cli s i"
      assume at: "ec_at ?c = Reading"
      obtain line rest where rl: "read_line (ECHO_MSG_MAX_LEN - 1) (ec_input ?c) = (line, rest)" by fastforce
      have none: "en_client_reads i s = None" by (rule stuckD(4)[OF assms(1) i])
      then obtain buf where ch: "chop line (msg (ec_smsg ?c)) = Inr buf"
        and put: "mc_step (BeginPut (Suc i) (bytes_of_msg ((ec_smsg ?c)\<lparr>msg := buf\<rparr>))) (en_srv s) = None"
        using at rl by (auto simp: en_client_reads_def Let_def split: if_splits sum.splits)
      have "length (msg (ec_smsg ?c)) = ECHO_MSG_MAX_LEN" using en_okD(3)[OF assms(2) i] by (simp add: cli_run_def)
      then have "length (bytes_of_msg ((ec_smsg ?c)\<lparr>msg := buf\<rparr>)) = ECHO_MSG_SIZE"
        using chop_keeps_length[OF ch] read_line_length[OF rl] by (simp add: ECHO_MSG_SIZE_def ECHO_MSG_MAX_LEN_def)
      moreover have "procs (en_srv s) ! Suc i = Away" "Suc i < length (procs (en_srv s))"
        using link_pcs(3)[OF en_okD(2)[OF assms(2) i, unfolded link_at_def]] at srv i by simp_all
      ultimately show False using begin_possible(2)[OF inv] put by blast
    qed
  qed
qed

text \<open>The lengths of the logs of one client.\<close>

lemma link_lengths:
  assumes "link spid so pc io oo ans c"
  shows "length (sends (ec_acts c)) = length so + length (to_put pc)"
    "length io = length (sent (ec_chan c)) + length (to_put (procs (ec_chan c) ! 1))"
    "length (received (ec_chan c)) = length (ec_replies c) + length (got (procs (ec_chan c) ! 0))"
    "length (sends (ec_acts c)) = length (ec_replies c) + busy (ec_at c)"
proof -
  have l: "sends (ec_acts c) = so @ msgs (to_put pc)" "oo = map (\<lambda>m. m\<lparr>sender := spid\<rparr>) io"
      "oo = msgs (sent (ec_chan c)) @ msgs (to_put (procs (ec_chan c) ! 1))"
      "msgs (received (ec_chan c)) = ec_replies c @ msgs (got (procs (ec_chan c) ! 0))"
    using assms unfolding link_def by blast+
  show "length (sends (ec_acts c)) = length so + length (to_put pc)" using arg_cong[OF l(1), of length] by simp
  show "length io = length (sent (ec_chan c)) + length (to_put (procs (ec_chan c) ! 1))"
    using arg_cong[OF l(3), of length] arg_cong[OF l(2), of length] by simp
  show "length (received (ec_chan c)) = length (ec_replies c) + length (got (procs (ec_chan c) ! 0))"
    using arg_cong[OF l(4), of length] by simp
  show "length (sends (ec_acts c)) = length (ec_replies c) + busy (ec_at c)" using assms unfolding link_def by blast
qed

lemma client_stuck:
  assumes "stuck spid pids m s" "en_ok spid pids m inputs s" "i < length pids" "ec_at (en_cli s i) = Receiving"
  shows "procs (ec_chan (en_cli s i)) ! 0 = GetWait" "received (ec_chan (en_cli s i)) = sent (ec_chan (en_cli s i))"
proof -
  note link = link_pcs[OF en_okD(2)[OF assms(2,3), unfolded link_at_def]]
  show "procs (ec_chan (en_cli s i)) ! 0 = GetWait" "received (ec_chan (en_cli s i)) = sent (ec_chan (en_cli s i))"
    using stuck_process[OF link(1), of 0] client_channel_quiet[OF assms(1-3)] link(2) link(6)[OF assms(4)] by auto
qed

lemma server_stuck:
  assumes "stuck spid pids m s" "en_ok spid pids m inputs s" "pids_ok spid pids"
  shows "\<not> (\<exists>i. en_at s = Answering i)"
    and "en_at s = Fetching \<Longrightarrow> received (en_srv s) = sent (en_srv s) \<and> map fst (en_in s) = msgs (sent (en_srv s))"
    and "t < length (procs (en_srv s)) \<Longrightarrow> 0 < t \<Longrightarrow> putting (procs (en_srv s) ! t) \<Longrightarrow>
      length (sent (en_srv s)) = length (received (en_srv s)) + 8"
proof -
  note srv = en_okD(1)[OF assms(2), unfolded srv_ok_def]
  have inv: "mc_inv 8 ECHO_MSG_SIZE (en_srv s)" using srv by blast
  have quiet: "\<forall>t<length (procs (en_srv s)). mc_step (Step t) (en_srv s) = None" using server_channel_quiet[OF assms] by blast
  show "length (sent (en_srv s)) = length (received (en_srv s)) + 8"
    if "t < length (procs (en_srv s))" "0 < t" "putting (procs (en_srv s) ! t)"
    using stuck_process[OF inv quiet that(1)] that(3) by auto
  show "received (en_srv s) = sent (en_srv s) \<and> map fst (en_in s) = msgs (sent (en_srv s))" if f: "en_at s = Fetching"
  proof -
    have "procs (en_srv s) ! 0 = GetWait \<and> received (en_srv s) = sent (en_srv s)"
      using stuck_process[OF inv quiet, of 0] stuck_places(4)[OF assms f] srv f by auto
    moreover have "msgs (received (en_srv s)) = map fst (en_in s) @ msgs (got (procs (en_srv s) ! 0))" using srv by blast
    ultimately show ?thesis by simp
  qed
  show "\<not> (\<exists>i. en_at s = Answering i)"
  proof
    assume "\<exists>i. en_at s = Answering i"
    then obtain i where at: "en_at s = Answering i" by blast
    then have i: "i < length pids" using srv by blast
    let ?o = "ec_chan (en_cli s i)"
    note link = en_okD(2)[OF assms(2) i, unfolded link_at_def at]
    note l = link_pcs[OF link]
    have "(\<exists>x. procs ?o ! 1 = PutWait x) \<and> length (sent ?o) = length (received ?o) + 1"
      using stuck_process[OF l(1), of 1] client_channel_quiet[OF assms(1,2) i] l(2,8) by auto
    moreover have "\<not> length (own (pids ! i) (map fst (en_in s))) < length (own (pids ! i) (msgs (sent (en_srv s)))) \<or> busy (ec_at (en_cli s i)) = 1"
      using unanswered_busy(1)[OF link] by blast
    moreover have "length (own (pids ! i) (map fst (en_in s))) \<le> length (own (pids ! i) (msgs (sent (en_srv s))))"
    proof -
      have "prefix (map fst (en_in s)) (msgs (received (en_srv s)))" using srv by simp
      also have "prefix (msgs (received (en_srv s))) (msgs (sent (en_srv s)))"
        by (rule map_mono_prefix) (use inv take_is_prefix[of "length (received (en_srv s))" "sent (en_srv s)"] in
          \<open>simp add: mc_inv_def mc_ring_def\<close>)
      finally show ?thesis by (intro prefix_length_le filter_mono_prefix)
    qed
    ultimately show False using link_lengths[OF link] by (cases "ec_at (en_cli s i)") auto
  qed
qed

lemma stuck_ends:
  assumes "stuck spid pids m s" "en_ok spid pids m inputs s" "pids_ok spid pids"
  shows "en_at s = (if m = 0 then Fetching else Ended (Exits 0))"
    and "m = 0 \<Longrightarrow> i < length pids \<Longrightarrow> \<exists>e. ec_at (en_cli s i) = Gone e"
proof -
  note srv = en_okD(1)[OF assms(2), unfolded srv_ok_def]
  have loop: "server_loop spid (en_in s) = (en_out s, server_ending (en_at s))" using srv by blast
  have ended: "en_at s = Ended (Exits 0)" if "en_at s \<noteq> Fetching"
    using that server_stuck(1)[OF assms] stuck_places(3)[OF assms] srv by (cases "en_at s") auto
  have stop_in: "0 < m" if x: "x \<in> set (map fst (en_in s))" "is_stop x" for x
  proof -
    have "received (en_srv s) = take (length (received (en_srv s))) (sent (en_srv s))" using srv by (simp add: mc_inv_def mc_ring_def)
    then have "set (received (en_srv s)) \<subseteq> set (sent (en_srv s))" by (metis set_take_subset)
    moreover have "x \<in> set (msgs (received (en_srv s)))" using x(1) srv by simp
    ultimately obtain b where "b \<in> set (sent (en_srv s))" "x = msg_of_bytes b" by auto
    then have "0 < m \<or> sender x \<in> set pids" using srv by auto
    then show ?thesis using x(2) assms(3) by (auto simp: is_stop_def pids_ok_def)
  qed
  have fetching: "\<not> 0 < m" "i < length pids \<Longrightarrow> \<exists>e. ec_at (en_cli s i) = Gone e" if f: "en_at s = Fetching" for i
  proof -
    note ch = server_stuck(2)[OF assms f]
    have nobody: "\<not> putting (procs (en_srv s) ! t)" if "t < length (procs (en_srv s))" "0 < t" for t
      using server_stuck(3)[OF assms that] ch by auto
    show "\<not> 0 < m"
    proof
      assume m: "0 < m"
      have "\<not> putting (procs (en_srv s) ! Suc (length pids + 0))" by (rule nobody) (use srv m in auto)
      then have "stop_msg \<in> set (msgs (sent (en_srv s)))"
        using en_okD(4)[OF assms(2) m] stuck_places(2)[OF assms m] f
        by (auto simp: term_ok_def Let_def server_gone_def split: place.splits)
      then have "stop_msg \<in> fst ` set (en_in s)" using ch by (metis set_map)
      from server_waits[OF _ this, of spid "en_out s"] loop f show False by (simp add: is_stop_def stop_msg_def ECHO_MSG_MAX_LEN_def)
    qed
    show "\<exists>e. ec_at (en_cli s i) = Gone e" if i: "i < length pids"
    proof -
      note link = en_okD(2)[OF assms(2) i, unfolded link_at_def f]
      have "\<not> putting (procs (en_srv s) ! Suc i)" by (rule nobody) (use srv i in auto)
      then have ns: "ec_at (en_cli s i) \<noteq> Sending" using link_pcs(4)[OF link] by blast
      moreover have "ec_at (en_cli s i) \<noteq> Receiving"
      proof
        assume r: "ec_at (en_cli s i) = Receiving"
        note c = client_stuck[OF assms(1,2) i r]
        have "procs (ec_chan (en_cli s i)) ! 1 = Away" using link_pcs(7)[OF link] by simp
        then show False using link_lengths[OF link] link_pcs(3)[OF link] r c ch by simp
      qed
      ultimately show ?thesis using stuck_places(1)[OF assms i] by (cases "ec_at (en_cli s i)") auto
    qed
  qed
  show "en_at s = (if m = 0 then Fetching else Ended (Exits 0))"
  proof (cases "en_at s = Fetching")
    case False
    then obtain x where "x \<in> fst ` set (en_in s)" "is_stop x" using server_ends[of spid "en_in s" "en_out s"] loop ended by auto
    then show ?thesis using stop_in[of x] ended[OF False] by simp
  qed (use fetching(1) in simp)
  then show "\<exists>e. ec_at (en_cli s i) = Gone e" if "m = 0" "i < length pids" using fetching(2) that by simp
qed

text \<open>A client is refused only after the server has ended.\<close>

definition refused :: "echo_net \<Rightarrow> bool" where
  "refused s \<longleftrightarrow> (\<forall>i. ec_at (en_cli s i) = Gone (Exits 2) \<longrightarrow> server_gone (en_at s))"

text \<open>What a client's turn or step leaves as it is, and where it leads.\<close>

definition cli_event :: "nat \<Rightarrow> echo_net \<Rightarrow> echo_net \<Rightarrow> bool" where
  "cli_event i s s' \<longleftrightarrow> en_at s' = en_at s \<and> en_out s' = en_out s
     \<and> (\<exists>c. en_cli s' = (en_cli s)(i := c) \<and> ec_at c \<noteq> Absent \<and> ec_at c \<noteq> Gone (Exits 2))"

lemma cli_eventI: "ec_at c \<noteq> Absent \<Longrightarrow> ec_at c \<noteq> Gone (Exits 2) \<Longrightarrow> en_cli s' = (en_cli s)(i := c) \<Longrightarrow> en_at s' = en_at s
    \<Longrightarrow> en_out s' = en_out s \<Longrightarrow> cli_event i s s'"
  by (auto simp: cli_event_def)

lemma client_reads_event:
  assumes "en_client_reads i s = Some s'"
  shows "cli_event i s s'"
  using assms
proof (cases rule: client_reads_cases)
  case (leaves e rest)
  have "e \<noteq> Exits 2" using client_loop_ending[of "ec_smsg (en_cli s i)" "ec_input (en_cli s i)" "[]"] leaves(2) by simp
  then show ?thesis using leaves(3) by (intro cli_eventI[of "(en_cli s i)\<lparr>ec_at := Gone e, ec_input := rest\<rparr>"]) simp_all
next
  case (puts line rest buf x ch)
  show ?thesis unfolding puts(8)
    by (rule cli_eventI[of "(en_cli s i)\<lparr>ec_at := Sending, ec_input := rest, ec_smsg := x, ec_acts := ec_acts (en_cli s i) @ [Sends x]\<rparr>"])
      simp_all
qed

lemma client_step_event:
  assumes "en_client_step i s = Some s'"
  shows "cli_event i s s'"
proof (cases "ec_at (en_cli s i)")
  let ?c = "en_cli s i"
  case Sending
  then obtain ch where ch: "mc_step (Step (Suc i)) (en_srv s) = Some ch"
    using assms by (auto simp: en_client_step_def Let_def split: bind_splits)
  show ?thesis
  proof (cases "procs (en_srv s) ! Suc i = PutPost")
    case True
    then obtain new where "s' = s\<lparr>en_srv := ch, en_cli := (en_cli s)(i := ?c\<lparr>ec_chan := new, ec_at := Receiving\<rparr>)\<rparr>"
      using assms Sending ch by (auto simp: en_client_step_def Let_def)
    then show ?thesis by (intro cli_eventI[of "?c\<lparr>ec_chan := new, ec_at := Receiving\<rparr>"]) simp_all
  next
    case False
    then have "s' = s\<lparr>en_srv := ch\<rparr>" using assms Sending ch by (simp add: en_client_step_def Let_def)
    then show ?thesis using Sending by (intro cli_eventI[of ?c]) simp_all
  qed
next
  let ?c = "en_cli s i"
  case Receiving
  then obtain ch where "s' = s\<lparr>en_cli := (en_cli s)(i := after_get ch ?c)\<rparr>"
    using assms by (auto simp: en_client_step_def Let_def after_get_def)
  then show ?thesis
    using Receiving by (intro cli_eventI[of "after_get ch ?c"]) (simp_all add: after_get_def Let_def split: mc_pc.splits)
qed (use assms in \<open>simp_all add: en_client_step_def Let_def\<close>)

lemma refused_client: "refused s \<Longrightarrow> cli_event i s s' \<Longrightarrow> refused s'"
  by (auto simp: refused_def cli_event_def split: if_splits)

lemma refused_server:
  assumes "refused s" "\<not> server_gone (en_at s)" "\<forall>j. ec_at (en_cli s' j) = ec_at (en_cli s j)"
  shows "refused s'"
  using assms by (auto simp: refused_def)

lemma turn_places: "en_turn spid pids x s = Some s' \<Longrightarrow> ec_at (en_cli s' j) = ec_at (en_cli s j)"
  by (auto simp: en_turn_def Let_def split: turn.splits option.splits)

lemma server_step_refused:
  assumes "en_server_step spid pids s = Some s'" "refused s"
  shows "refused s'"
proof (rule refused_server[OF assms(2)])
  show "\<not> server_gone (en_at s)" using assms(1) by (auto simp: en_server_step_def server_gone_def split: server_place.splits)
  show "\<forall>j. ec_at (en_cli s' j) = ec_at (en_cli s j)"
  proof (cases "en_at s")
    case Fetching
    then obtain ch where ch: "mc_step (Step 0) (en_srv s) = Some ch"
      using assms(1) by (auto simp: en_server_step_def split: bind_splits)
    show ?thesis
    proof (cases "\<exists>x. procs (en_srv s) ! 0 = GetPost x")
      case True
      then obtain x where "en_turn spid pids (msg_of_bytes x) (s\<lparr>en_srv := ch\<rparr>) = Some s'"
        using assms(1) Fetching ch by (auto simp: en_server_step_def)
      then show ?thesis using turn_places by fastforce
    next
      case False
      then have "s' = s\<lparr>en_srv := ch\<rparr>" using assms(1) Fetching ch by (auto simp: en_server_step_def split: mc_pc.splits)
      then show ?thesis by simp
    qed
  qed (use assms(1) in \<open>auto simp: en_server_step_def\<close>)
qed

lemma refused_step:
  assumes "en_step spid pids m e s = Some s'" "refused s"
  shows "refused s'"
proof (cases e)
  case ServerGets
  then show ?thesis using assms by (auto simp: en_server_gets_def refused_def split: if_splits)
next
  case ServerStep
  then show ?thesis using assms server_step_refused by simp
next
  case (ClientStarts i)
  then show ?thesis using assms by (auto simp: en_client_starts_def refused_def split: if_splits)
next
  case (ClientReads i)
  then have "cli_event i s s'" using assms(1) client_reads_event by (simp split: if_splits)
  then show ?thesis by (rule refused_client[OF assms(2)])
next
  case (ClientStep i)
  then have "cli_event i s s'" using assms(1) client_step_event by (simp split: if_splits)
  then show ?thesis by (rule refused_client[OF assms(2)])
next
  case (TermStarts k)
  then show ?thesis using assms by (auto simp: en_term_starts_def refused_def split: if_splits)
next
  case (TermStep k)
  then show ?thesis using assms by (auto simp: en_term_step_def refused_def split: if_splits)
qed

lemma refused_run: "en_run spid pids m es s = Some s' \<Longrightarrow> refused s \<Longrightarrow> refused s'"
  by (induction es arbitrary: s) (auto dest: refused_step split: bind_splits)

lemma refused_start: "refused (en_start offset pids inputs m)"
  by (simp add: refused_def en_start_def)

text \<open>Once the server has ended, nothing more is answered; a client that has begun is never refused.\<close>

lemma gone_step:
  assumes "en_step spid pids m e s = Some s'" "server_gone (en_at s)"
    and "ec_at (en_cli s i) \<noteq> Absent" "ec_at (en_cli s i) \<noteq> Gone (Exits 2)"
  shows "en_at s' = en_at s \<and> en_out s' = en_out s \<and> ec_at (en_cli s' i) \<noteq> Absent \<and> ec_at (en_cli s' i) \<noteq> Gone (Exits 2)"
proof (cases e)
  case ServerGets
  then show ?thesis using assms by (auto simp: en_server_gets_def server_gone_def split: if_splits)
next
  case ServerStep
  then show ?thesis using assms by (auto simp: en_server_step_def server_gone_def split: server_place.splits)
next
  case (ClientStarts j)
  then show ?thesis using assms by (auto simp: en_client_starts_def split: if_splits)
next
  case (ClientReads j)
  then have "cli_event j s s'" using assms(1) client_reads_event by (simp split: if_splits)
  then show ?thesis using assms by (cases "i = j") (auto simp: cli_event_def)
next
  case (ClientStep j)
  then have "cli_event j s s'" using assms(1) client_step_event by (simp split: if_splits)
  then show ?thesis using assms by (cases "i = j") (auto simp: cli_event_def)
next
  case (TermStarts k)
  then show ?thesis using assms by (auto simp: en_term_starts_def split: if_splits)
next
  case (TermStep k)
  then show ?thesis using assms by (auto simp: en_term_step_def split: if_splits)
qed

lemma gone_run:
  assumes "en_run spid pids m es s = Some s'" "server_gone (en_at s)"
    and "ec_at (en_cli s i) \<noteq> Absent" "ec_at (en_cli s i) \<noteq> Gone (Exits 2)"
  shows "en_out s' = en_out s \<and> ec_at (en_cli s' i) \<noteq> Absent \<and> ec_at (en_cli s' i) \<noteq> Gone (Exits 2)"
  using assms
proof (induction es arbitrary: s)
  case (Cons e es)
  then obtain s1 where s1: "en_step spid pids m e s = Some s1" "en_run spid pids m es s1 = Some s'" by (auto split: bind_splits)
  show ?case using Cons.IH[OF s1(2)] gone_step[OF s1(1) Cons.prems(2-4)] Cons.prems(2) by simp
qed simp

lemma unanswered_none:
  assumes "link spid so pc io [] ans c"
  shows "ec_replies c = []"
proof -
  have "length io = 0" using assms by (simp add: link_def)
  moreover have "mc_inv 1 ECHO_MSG_SIZE (ec_chan c)" using assms by (simp add: link_def)
  then have "length (received (ec_chan c)) \<le> length (sent (ec_chan c))" by (auto simp: mc_inv_def mc_tokens_def)
  ultimately show ?thesis using link_lengths(2,3)[OF assms] by simp
qed

end
