(* ===== verification/Echo_Network_Ends.thy ===== *)
theory Echo_Network_Ends
  imports Echo_Network_Live
begin

text \<open>
  The echo service of 19 stops by itself once the input of its clients is used up: every event takes
  one unit of the work that is left, of which a byte of input brings at most 22.
\<close>

section \<open>The work that is left\<close>

definition call_work :: "mc_pc \<Rightarrow> nat" where
  "call_work p = steps_left p + 11 * length (to_put p)"

definition cli_work :: "echo_cli \<Rightarrow> nat" where
  "cli_work c = (case ec_at c of
      Absent \<Rightarrow> 2 + 22 * length (ec_input c)
    | Reading \<Rightarrow> 1 + 22 * length (ec_input c)
    | Sending \<Rightarrow> 6 + 22 * length (ec_input c)
    | Receiving \<Rightarrow> 1 + steps_left (procs (ec_chan c) ! 0) + 22 * length (ec_input c)
    | Gone e \<Rightarrow> 0)"

definition srv_work :: "echo_net \<Rightarrow> nat" where
  "srv_work s = (case en_at s of
      Fetching \<Rightarrow> if procs (en_srv s) ! 0 = Away then 6 else 0
    | Answering i \<Rightarrow> 6 + steps_left (procs (ec_chan (en_cli s i)) ! 1)
    | Stopping \<Rightarrow> 1
    | Ended e \<Rightarrow> 0)"

definition term_work :: "place \<Rightarrow> nat" where
  "term_work a = (if a = Absent then 17 else 0)"

definition chan_work :: "mc_system \<Rightarrow> nat" where
  "chan_work S = sum_list (map call_work (procs S)) + 11 * length (sent S)"

definition all_work :: "nat \<Rightarrow> nat \<Rightarrow> echo_net \<Rightarrow> nat" where
  "all_work n m s = chan_work (en_srv s) + srv_work s + (\<Sum>i<n. cli_work (en_cli s i)) + (\<Sum>k<m. term_work (en_term s k))"

lemma sum_upd: "i < (n :: nat) \<Longrightarrow> (\<Sum>j<n. f ((g(i := y)) j)) + f (g i) = (\<Sum>j<n. f (g j)) + (f y :: nat)"
proof -
  assume i: "i < n"
  have "(\<Sum>j<n. f (h j)) = f (h i) + (\<Sum>j\<in>{..<n} - {i}. f (h j))" for h
    by (rule sum.remove) (use i in simp_all)
  moreover have "(\<Sum>j\<in>{..<n} - {i}. f ((g(i := y)) j)) = (\<Sum>j\<in>{..<n} - {i}. f (g j))" by (rule sum.cong) simp_all
  ultimately show ?thesis by simp
qed

lemma sum_list_upd: "t < length ps \<Longrightarrow> sum_list (map f (ps[t := p])) + f (ps ! t) = sum_list (map f ps) + (f p :: nat)"
proof (induction ps arbitrary: t)
  case (Cons q ps)
  then show ?case using Cons.IH[of "t - 1"] by (cases t) auto
qed simp

lemma chan_work_upd:
  assumes "procs ch = (procs S)[t := p']" "sent ch = sent S @ new" "t < length (procs S)" "length (to_put (procs S ! t)) = length new + length (to_put p')"
  shows "chan_work ch + steps_left (procs S ! t) = chan_work S + steps_left p'"
  using sum_list_upd[OF assms(3), of call_work p'] assms(1,2,4) by (simp add: chan_work_def call_work_def)

lemma chan_work_begin:
  assumes "procs ch = (procs S)[t := p]" "sent ch = sent S" "t < length (procs S)" "procs S ! t = Away"
  shows "chan_work ch = chan_work S + call_work p"
  using sum_list_upd[OF assms(3), of call_work p] assms(1,2,4) by (simp add: chan_work_def call_work_def)

section \<open>Every event takes some\<close>

lemma client_starts_work:
  assumes "en_client_starts i s = Some s'" "i < n"
  shows "all_work n m s' + 1 \<le> all_work n m s \<and> en_in s' = en_in s"
proof -
  define a where "a = (if server_gone (en_at s) then Gone (Exits 2) else Reading)"
  have at: "ec_at (en_cli s i) = Absent" and s': "s' = s\<lparr>en_cli := (en_cli s)(i := (en_cli s i)\<lparr>ec_at := a\<rparr>)\<rparr>"
    using assms(1) by (simp_all add: en_client_starts_def a_def split: if_splits)
  have "cli_work ((en_cli s i)\<lparr>ec_at := a\<rparr>) + 1 \<le> cli_work (en_cli s i)" using at by (simp add: cli_work_def a_def)
  moreover have "srv_work s' = srv_work s" by (cases "en_at s") (auto simp: srv_work_def s')
  ultimately show ?thesis
    using sum_upd[OF assms(2), of cli_work "en_cli s" "(en_cli s i)\<lparr>ec_at := a\<rparr>"] by (simp add: all_work_def s')
qed

lemma client_reads_work:
  assumes "en_client_reads i s = Some s'" "i < length pids" "en_ok spid pids m inputs s"
  shows "all_work (length pids) m s' + 1 \<le> all_work (length pids) m s \<and> en_in s' = en_in s"
proof -
  let ?c = "en_cli s i"
  have inv: "mc_inv 8 ECHO_MSG_SIZE (en_srv s)" using en_okD(1)[OF assms(3)] by (simp add: srv_ok_def)
  show ?thesis using assms(1)
  proof (cases rule: client_reads_cases)
    case (leaves e rest)
    have "srv_work s' = srv_work s" by (cases "en_at s") (auto simp: srv_work_def leaves(3))
    then show ?thesis using sum_upd[OF assms(2), of cli_work "en_cli s" "?c\<lparr>ec_at := Gone e, ec_input := rest\<rparr>"] leaves(1)
      by (simp add: all_work_def leaves(3) cli_work_def)
  next
    case (puts line rest buf x ch)
    have ch: "procs ch = (procs (en_srv s))[Suc i := PutWait (bytes_of_msg x)]" "sent ch = sent (en_srv s)"
      "Suc i < length (procs (en_srv s))" "procs (en_srv s) ! Suc i = Away"
      using begin_step[OF inv puts(7), of "Suc i" "bytes_of_msg x"] by auto
    have "length rest < length (ec_input ?c)"
      by (rule read_line_shrinks[OF puts(2), of 254 line]) (use puts(3) in \<open>simp add: ECHO_MSG_MAX_LEN_def\<close>)
    moreover have "srv_work s' = srv_work s" by (cases "en_at s") (auto simp: srv_work_def puts(8) ch(1))
    ultimately show ?thesis
      using sum_upd[OF assms(2), of cli_work "en_cli s" "?c\<lparr>ec_at := Sending, ec_input := rest, ec_smsg := x, ec_acts := ec_acts ?c @ [Sends x]\<rparr>"]
        puts(1) chan_work_begin[OF ch] by (simp add: all_work_def puts(8) cli_work_def call_work_def)
  qed
qed

lemma client_step_work:
  assumes "en_client_step i s = Some s'" "i < length pids" "en_ok spid pids m inputs s"
  shows "all_work (length pids) m s' + 1 \<le> all_work (length pids) m s \<and> en_in s' = en_in s"
proof -
  let ?c = "en_cli s i"
  have inv: "mc_inv 8 ECHO_MSG_SIZE (en_srv s)" using en_okD(1)[OF assms(3)] by (simp add: srv_ok_def)
  note link = link_pcs[OF en_okD(2)[OF assms(3,2), unfolded link_at_def]]
  show ?thesis
  proof (cases "ec_at ?c")
    case Sending
    then obtain ch where st: "mc_step (Step (Suc i)) (en_srv s) = Some ch"
      using assms(1) by (auto simp: en_client_step_def Let_def split: bind_splits)
    have pc: "putting (procs (en_srv s) ! Suc i)" using link(4) Sending by blast
    obtain p' where p: "Suc i < length (procs (en_srv s))" "procs ch = (procs (en_srv s))[Suc i := p']"
      "sent ch = sent (en_srv s) @ copied_in (procs (en_srv s) ! Suc i)"
      "to_put (procs (en_srv s) ! Suc i) = copied_in (procs (en_srv s) ! Suc i) @ to_put p'"
      "steps_left (procs (en_srv s) ! Suc i) = Suc (steps_left p')"
      by (rule put_step[OF inv st d8 pc]) blast
    have "length (to_put (procs (en_srv s) ! Suc i)) = length (copied_in (procs (en_srv s) ! Suc i)) + length (to_put p')"
      using arg_cong[OF p(4), of length] by simp
    then have w: "chan_work ch + 1 = chan_work (en_srv s)" using chan_work_upd[OF p(2,3,1)] p(5) by simp
    show ?thesis
    proof (cases "procs (en_srv s) ! Suc i = PutPost")
      case True
      then obtain new where b: "mc_step (BeginGet 0) (ec_chan ?c) = Some new"
          and s': "s' = s\<lparr>en_srv := ch, en_cli := (en_cli s)(i := ?c\<lparr>ec_chan := new, ec_at := Receiving\<rparr>)\<rparr>"
        using assms(1) Sending st by (auto simp: en_client_step_def Let_def)
      have new: "procs new = (procs (ec_chan ?c))[0 := GetWait]" using begin_step[OF link(1) b, of 0 _ GetWait] by auto
      have "srv_work s' = srv_work s" by (cases "en_at s") (auto simp: srv_work_def s' new p(2))
      moreover have "cli_work (?c\<lparr>ec_chan := new, ec_at := Receiving\<rparr>) = cli_work ?c" using Sending link(2) new by (simp add: cli_work_def)
      ultimately show ?thesis using sum_upd[OF assms(2), of cli_work "en_cli s" "?c\<lparr>ec_chan := new, ec_at := Receiving\<rparr>"] w
        by (simp add: all_work_def s')
    next
      case False
      then have s': "s' = s\<lparr>en_srv := ch\<rparr>" using assms(1) Sending st by (simp add: en_client_step_def Let_def)
      have "srv_work s' = srv_work s" by (cases "en_at s") (auto simp: srv_work_def s' p(2))
      then show ?thesis using w by (simp add: all_work_def s')
    qed
  next
    case Receiving
    then obtain ch where st: "mc_step (Step 0) (ec_chan ?c) = Some ch" and s': "s' = s\<lparr>en_cli := (en_cli s)(i := after_get ch ?c)\<rparr>"
      using assms(1) by (auto simp: en_client_step_def Let_def after_get_def)
    have d: "(1::nat) dvd 2 ^ 64" by simp
    have pc: "\<not> putting (procs (ec_chan ?c) ! 0)" using link(6) Receiving by blast
    obtain p' where p: "0 < length (procs (ec_chan ?c))" "procs ch = (procs (ec_chan ?c))[0 := p']"
      "p' = Away \<longleftrightarrow> (\<exists>x. procs (ec_chan ?c) ! 0 = GetPost x)" "steps_left (procs (ec_chan ?c) ! 0) = Suc (steps_left p')"
      by (rule get_step[OF link(1) st d pc]) blast
    have "ec_chan (after_get ch ?c) = ch" by (simp add: after_get_def Let_def split: mc_pc.splits)
    then have "srv_work s' = srv_work s" by (cases "en_at s") (auto simp: srv_work_def s' p(2))
    moreover have "cli_work (after_get ch ?c) + 1 = cli_work ?c"
      using Receiving p by (cases "procs (ec_chan ?c) ! 0") (auto simp: cli_work_def after_get_def Let_def)
    ultimately show ?thesis using sum_upd[OF assms(2), of cli_work "en_cli s" "after_get ch ?c"]
      by (simp add: all_work_def s')
  qed (use assms(1) in \<open>simp_all add: en_client_step_def Let_def\<close>)
qed

lemma term_starts_work:
  assumes "en_term_starts (length pids) k s = Some s'" "k < m" "en_ok spid pids m inputs s"
  shows "all_work (length pids) m s' + 1 \<le> all_work (length pids) m s \<and> en_in s' = en_in s"
proof -
  have inv: "mc_inv 8 ECHO_MSG_SIZE (en_srv s)" using en_okD(1)[OF assms(3)] by (simp add: srv_ok_def)
  have at: "en_term s k = Absent" using assms(1) by (auto simp: en_term_starts_def split: if_splits)
  note sum = sum_upd[OF assms(2), of term_work "en_term s"]
  show ?thesis
  proof (cases "server_gone (en_at s)")
    case True
    then have s': "s' = s\<lparr>en_term := (en_term s)(k := Gone (Exits 1))\<rparr>" using assms(1) at by (simp add: en_term_starts_def)
    have "srv_work s' = srv_work s" by (cases "en_at s") (auto simp: srv_work_def s')
    then show ?thesis using sum[of "Gone (Exits 1)"] at by (simp add: all_work_def s' term_work_def)
  next
    case False
    let ?t = "Suc (length pids + k)" and ?x = "bytes_of_msg stop_msg"
    obtain ch where b: "mc_step (BeginPut ?t ?x) (en_srv s) = Some ch" and s': "s' = s\<lparr>en_srv := ch, en_term := (en_term s)(k := Sending)\<rparr>"
      using assms(1) False at by (auto simp: en_term_starts_def)
    have ch: "procs ch = (procs (en_srv s))[?t := PutWait ?x]" "sent ch = sent (en_srv s)" "?t < length (procs (en_srv s))"
      "procs (en_srv s) ! ?t = Away"
      using begin_step[OF inv b, of ?t ?x] by auto
    have "srv_work s' = srv_work s" by (cases "en_at s") (auto simp: srv_work_def s' ch(1))
    then show ?thesis using sum[of Sending] at chan_work_begin[OF ch] by (simp add: all_work_def s' term_work_def call_work_def)
  qed
qed

lemma term_step_work:
  assumes "en_term_step (length pids) k s = Some s'" "k < m" "en_ok spid pids m inputs s"
  shows "all_work (length pids) m s' + 1 \<le> all_work (length pids) m s \<and> en_in s' = en_in s"
proof -
  let ?t = "Suc (length pids + k)"
  let ?pc = "procs (en_srv s) ! ?t"
  have inv: "mc_inv 8 ECHO_MSG_SIZE (en_srv s)" using en_okD(1)[OF assms(3)] by (simp add: srv_ok_def)
  define a where "a = (if ?pc = PutPost then Gone (Exits 0) else Sending)"
  obtain ch where at: "en_term s k = Sending" and st: "mc_step (Step ?t) (en_srv s) = Some ch"
    and s': "s' = s\<lparr>en_srv := ch, en_term := (en_term s)(k := a)\<rparr>"
    using assms(1) by (auto simp: en_term_step_def a_def split: if_splits)
  have pc: "putting ?pc" using en_okD(4)[OF assms(3,2)] at by (simp add: term_ok_def Let_def)
  obtain p' where p: "?t < length (procs (en_srv s))" "procs ch = (procs (en_srv s))[?t := p']"
    "sent ch = sent (en_srv s) @ copied_in ?pc" "to_put ?pc = copied_in ?pc @ to_put p'" "steps_left ?pc = Suc (steps_left p')"
    by (rule put_step[OF inv st d8 pc]) blast
  have "length (to_put ?pc) = length (copied_in ?pc) + length (to_put p')" using arg_cong[OF p(4), of length] by simp
  then have "chan_work ch + 1 = chan_work (en_srv s)" using chan_work_upd[OF p(2,3,1)] p(5) by simp
  moreover have "srv_work s' = srv_work s" by (cases "en_at s") (auto simp: srv_work_def s' p(2))
  moreover have "term_work a = term_work (en_term s k)" using at by (simp add: term_work_def a_def)
  ultimately show ?thesis using sum_upd[OF assms(2), of term_work "en_term s" a] by (simp add: all_work_def s')
qed

text \<open>The server may begin up to eleven steps more with a message it has got.\<close>

lemma server_gets_work:
  assumes "en_server_gets s = Some s'" "en_ok spid pids m inputs s"
  shows "all_work (length pids) m s' + 1 \<le> all_work (length pids) m s \<and> en_in s' = en_in s"
proof -
  have inv: "mc_inv 8 ECHO_MSG_SIZE (en_srv s)" using en_okD(1)[OF assms(2)] by (simp add: srv_ok_def)
  obtain ch where at: "en_at s = Fetching" and b: "mc_step (BeginGet 0) (en_srv s) = Some ch" and s': "s' = s\<lparr>en_srv := ch\<rparr>"
    using assms(1) by (auto simp: en_server_gets_def split: if_splits)
  have ch: "procs ch = (procs (en_srv s))[0 := GetWait]" "sent ch = sent (en_srv s)" "0 < length (procs (en_srv s))"
      "procs (en_srv s) ! 0 = Away"
    using begin_step[OF inv b, of 0 _ GetWait] by auto
  then have "srv_work s' + 6 = srv_work s" using at by (simp add: srv_work_def s')
  then show ?thesis using chan_work_begin[OF ch] by (simp add: all_work_def s' call_work_def)
qed

lemma turn_work:
  assumes "en_turn spid pids x s = Some s'" "en_at s = Fetching"
    and "\<forall>i<length pids. mc_inv 1 ECHO_MSG_SIZE (ec_chan (en_cli s i)) \<and> length (procs (ec_chan (en_cli s i))) = 2"
  shows "srv_work s' \<le> 11" "en_srv s' = en_srv s" "length (en_in s') = Suc (length (en_in s))"
    "(\<Sum>i<length pids. cli_work (en_cli s' i)) = (\<Sum>i<length pids. cli_work (en_cli s i))" "en_term s' = en_term s"
proof -
  let ?opens = "\<lambda>name. find_channel pids s name \<noteq> None"
  have "srv_work s' \<le> 11 \<and> en_srv s' = en_srv s \<and> length (en_in s') = Suc (length (en_in s))
    \<and> (\<Sum>i<length pids. cli_work (en_cli s' i)) = (\<Sum>i<length pids. cli_work (en_cli s i)) \<and> en_term s' = en_term s"
  proof (cases "server_turn spid ?opens x")
    case (Replied name r)
    then obtain i ch where f: "find_channel pids s name = Some i"
      and b: "mc_step (BeginPut 1 (bytes_of_msg r)) (ec_chan (en_cli s i)) = Some ch"
      and s': "s' = s\<lparr>en_in := en_in s @ [(x, ?opens)], en_out := en_out s @ [(name, r)], en_at := Answering i,
          en_cli := (en_cli s)(i := (en_cli s i)\<lparr>ec_chan := ch\<rparr>)\<rparr>"
      using assms(1) by (auto simp: en_turn_def Let_def split: option.splits)
    have i: "i < length pids" using f by (auto simp: find_channel_def find_Some_iff)
    then have inv: "mc_inv 1 ECHO_MSG_SIZE (ec_chan (en_cli s i))" "length (procs (ec_chan (en_cli s i))) = 2" using assms(3) by blast+
    have ch: "procs ch = (procs (ec_chan (en_cli s i)))[1 := PutWait (bytes_of_msg r)]"
      using begin_step[OF inv(1) b, of 1 "bytes_of_msg r"] by auto
    have "cli_work ((en_cli s i)\<lparr>ec_chan := ch\<rparr>) = cli_work (en_cli s i)"
      by (cases "ec_at (en_cli s i)") (simp_all add: cli_work_def ch)
    then have "(\<Sum>j<length pids. cli_work (en_cli s' j)) = (\<Sum>j<length pids. cli_work (en_cli s j))"
      using sum_upd[OF i, of cli_work "en_cli s" "(en_cli s i)\<lparr>ec_chan := ch\<rparr>"] by (simp add: s')
    then show ?thesis using inv(2) by (simp add: s' srv_work_def ch)
  qed (use assms(1,2) in \<open>auto simp: en_turn_def Let_def srv_work_def\<close>)
  then show "srv_work s' \<le> 11" "en_srv s' = en_srv s" "length (en_in s') = Suc (length (en_in s))"
    "(\<Sum>i<length pids. cli_work (en_cli s' i)) = (\<Sum>i<length pids. cli_work (en_cli s i))" "en_term s' = en_term s" by blast+
qed

lemma server_step_work:
  assumes "en_server_step spid pids s = Some s'" "en_ok spid pids m inputs s"
  shows "all_work (length pids) m s' + 11 * length (en_in s) + 1 \<le> all_work (length pids) m s + 11 * length (en_in s')"
proof (cases "en_at s")
  case Fetching
  note srv = en_okD(1)[OF assms(2), unfolded srv_ok_def]
  have inv: "mc_inv 8 ECHO_MSG_SIZE (en_srv s)" "\<not> putting (procs (en_srv s) ! 0)" using srv Fetching by auto
  obtain ch where ch: "mc_step (Step 0) (en_srv s) = Some ch"
    using assms(1) Fetching by (auto simp: en_server_step_def split: bind_splits)
  obtain p' where p: "0 < length (procs (en_srv s))" "procs ch = (procs (en_srv s))[0 := p']" "sent ch = sent (en_srv s)"
    "p' = Away \<longleftrightarrow> (\<exists>x. procs (en_srv s) ! 0 = GetPost x)" "\<not> putting p'" "steps_left (procs (en_srv s) ! 0) = Suc (steps_left p')"
    by (rule get_step[OF inv(1) ch d8 inv(2)]) blast
  have "to_put (procs (en_srv s) ! 0) = []" "to_put p' = []" using putting_shape(2) inv(2) p(5) by blast+
  then have w: "chan_work ch + 1 = chan_work (en_srv s)" using chan_work_upd[of ch "en_srv s" 0 p' "[]"] p(1-3,6) by simp
  have busy0: "srv_work s = 0" using Fetching p(6) by (auto simp: srv_work_def)
  show ?thesis
  proof (cases "p' = Away")
    case True
    then obtain b where b: "procs (en_srv s) ! 0 = GetPost b" using p(4) by blast
    have t: "en_turn spid pids (msg_of_bytes b) (s\<lparr>en_srv := ch\<rparr>) = Some s'"
      using assms(1) Fetching ch b by (simp add: en_server_step_def)
    have chans: "\<forall>i<length pids. mc_inv 1 ECHO_MSG_SIZE (ec_chan (en_cli (s\<lparr>en_srv := ch\<rparr>) i))
        \<and> length (procs (ec_chan (en_cli (s\<lparr>en_srv := ch\<rparr>) i))) = 2"
      using link_pcs(1,2)[OF en_okD(2)[OF assms(2), unfolded link_at_def]] by auto
    show ?thesis using turn_work[OF t _ chans] Fetching w busy0 by (simp add: all_work_def)
  next
    case False
    then have s': "s' = s\<lparr>en_srv := ch\<rparr>"
      using assms(1) Fetching ch p(4) by (auto simp: en_server_step_def split: mc_pc.splits)
    have "srv_work s' = 0" using Fetching False p(1,2) by (simp add: srv_work_def s')
    then show ?thesis using w busy0 by (simp add: all_work_def s')
  qed
next
  case (Answering i)
  let ?c = "en_cli s i"
  note srv = en_okD(1)[OF assms(2), unfolded srv_ok_def]
  have i: "i < length pids" and pc0: "procs (en_srv s) ! 0 = Away" using srv Answering by auto
  note link = link_pcs[OF en_okD(2)[OF assms(2) i, unfolded link_at_def Answering]]
  obtain ch where ch: "mc_step (Step 1) (ec_chan ?c) = Some ch"
      "s' = s\<lparr>en_cli := (en_cli s)(i := ?c\<lparr>ec_chan := ch\<rparr>), en_at := (if procs (ec_chan ?c) ! 1 = PutPost then Fetching else Answering i)\<rparr>"
    using assms(1) Answering by (auto simp: en_server_step_def)
  have d: "(1::nat) dvd 2 ^ 64" by simp
  have pc: "putting (procs (ec_chan ?c) ! 1)" using link(8) by blast
  obtain p' where p: "1 < length (procs (ec_chan ?c))" "procs ch = (procs (ec_chan ?c))[1 := p']"
    "p' = Away \<longleftrightarrow> procs (ec_chan ?c) ! 1 = PutPost" "steps_left (procs (ec_chan ?c) ! 1) = Suc (steps_left p')"
    by (rule put_step[OF link(1) ch(1) d pc]) blast
  have "srv_work s' + 1 = srv_work s"
    using p Answering pc0 by (cases "procs (ec_chan ?c) ! 1 = PutPost") (auto simp: srv_work_def ch(2))
  moreover have "cli_work (?c\<lparr>ec_chan := ch\<rparr>) = cli_work ?c" by (cases "ec_at ?c") (simp_all add: cli_work_def p(2))
  ultimately show ?thesis using sum_upd[OF i, of cli_work "en_cli s" "?c\<lparr>ec_chan := ch\<rparr>"] by (simp add: all_work_def ch(2))
next
  case Stopping
  then have "s' = s\<lparr>en_at := Ended (Exits 0)\<rparr>" using assms(1) by (simp add: en_server_step_def)
  then show ?thesis using Stopping by (simp add: all_work_def srv_work_def)
qed (use assms(1) in \<open>simp add: en_server_step_def\<close>)

lemma step_work:
  assumes "en_step spid pids m e s = Some s'" "en_ok spid pids m inputs s"
  shows "all_work (length pids) m s' + 11 * length (en_in s) + 1 \<le> all_work (length pids) m s + 11 * length (en_in s')"
proof (cases e)
  case ServerGets
  then show ?thesis using assms server_gets_work by fastforce
next
  case ServerStep
  then show ?thesis using assms server_step_work by simp
next
  case (ClientStarts i)
  then show ?thesis using assms client_starts_work[of i s s' "length pids" m] by (simp split: if_splits)
next
  case (ClientReads i)
  then show ?thesis using assms client_reads_work[of i s s' pids spid m inputs] by (simp split: if_splits)
next
  case (ClientStep i)
  then show ?thesis using assms client_step_work[of i s s' pids spid m inputs] by (simp split: if_splits)
next
  case (TermStarts k)
  then show ?thesis using assms term_starts_work[of pids k s s' m spid inputs] by (simp split: if_splits)
next
  case (TermStep k)
  then show ?thesis using assms term_step_work[of pids k s s' m spid inputs] by (simp split: if_splits)
qed

lemma run_work:
  assumes "en_run spid pids m es s = Some s'" "en_ok spid pids m inputs s" "pids_ok spid pids"
  shows "all_work (length pids) m s' + 11 * length (en_in s) + length es \<le> all_work (length pids) m s + 11 * length (en_in s')"
  using assms(1,2)
proof (induction es arbitrary: s)
  case (Cons e es)
  then obtain s1 where s1: "en_step spid pids m e s = Some s1" "en_run spid pids m es s1 = Some s'" by (auto split: bind_splits)
  note ok = en_step_ok[OF s1(1) Cons.prems(2) assms(3)]
  show ?case using Cons.IH[OF s1(2) ok] step_work[OF s1(1) Cons.prems(2)] by simp
qed simp

lemma got_at_most_sent:
  assumes "srv_ok spid pids m s"
  shows "length (en_in s) \<le> length (sent (en_srv s))"
proof -
  have "msgs (received (en_srv s)) = map fst (en_in s) @ msgs (got (procs (en_srv s) ! 0))" using assms by (simp add: srv_ok_def)
  from arg_cong[OF this, of length] have "length (en_in s) \<le> length (received (en_srv s))" by simp
  also have "\<dots> \<le> length (sent (en_srv s))"
  proof -
    have "received (en_srv s) = take (length (received (en_srv s))) (sent (en_srv s))" using assms by (simp add: srv_ok_def mc_inv_def mc_ring_def)
    from arg_cong[OF this, of length] show ?thesis by simp
  qed
  finally show ?thesis .
qed

lemma run_bounded:
  assumes "en_run spid pids m es s = Some s'" "en_ok spid pids m inputs s" "pids_ok spid pids"
  shows "length es \<le> all_work (length pids) m s"
proof -
  have "srv_ok spid pids m s'" using en_run_ok[OF assms] by (simp add: en_ok_def)
  then have "11 * length (en_in s') \<le> all_work (length pids) m s'"
    using got_at_most_sent by (fastforce simp: all_work_def chan_work_def)
  then show ?thesis using run_work[OF assms] by simp
qed

lemma start_work:
  "all_work (length pids) m (en_start offset pids inputs m)
    = 6 + (\<Sum>i<length pids. 2 + 22 * length (inputs i)) + 17 * m"
  by (simp add: all_work_def chan_work_def call_work_def srv_work_def cli_work_def term_work_def en_start_def mc_start_def
      sum_list_replicate nth_Cons' del: replicate.simps)

text \<open>So every run can be continued to where nobody can go on.\<close>

lemma goes_on_to_stuck:
  assumes "en_run spid pids m es0 s = Some s0" "en_ok spid pids m inputs s" "pids_ok spid pids"
  shows "\<exists>es s'. en_run spid pids m (es0 @ es) s = Some s' \<and> stuck spid pids m s'"
proof (rule ccontr)
  assume none: "\<not> ?thesis"
  have "\<exists>es s'. en_run spid pids m (es0 @ es) s = Some s' \<and> length es = k" for k
  proof (induction k)
    case 0
    then show ?case using assms(1) by (intro exI[of _ "[]"]) simp
  next
    case (Suc k)
    then obtain es s' where es: "en_run spid pids m (es0 @ es) s = Some s'" "length es = k" by blast
    then have "\<not> stuck spid pids m s'" using none by blast
    then obtain e s2 where "en_step spid pids m e s' = Some s2" by (auto simp: stuck_def)
    then have "en_run spid pids m (es0 @ (es @ [e])) s = Some s2"
      using es(1) en_run_snoc[of spid pids m "es0 @ es" e s] by simp
    then show ?case using es(2) by (intro exI[of _ "es @ [e]"]) simp
  qed
  then obtain es s' where es: "en_run spid pids m (es0 @ es) s = Some s'" "length es = Suc (all_work (length pids) m s)" by blast
  then show False using run_bounded[OF es(1) assms(2,3)] by simp
qed

end
