(* ===== verification/Echo_Network_Props.thy ===== *)
theory Echo_Network_Props
  imports Echo_Network_Ends
begin

text \<open>
  What the echo service of 19 does as a whole: the processes on their channels refine the loops of
  \<open>Echo_Ipc\<close> on whole messages, every reply is the client's own line, the number of events is
  bounded, and where it ends everything has been echoed, or the server has been stopped.
\<close>

text \<open>C19: The echo service of 19 on its channels, for any number of clients with any input, any number of
  terminators and every interleaving of the steps of their calls, implements the service on whole
  messages: no copy leaves a buffer, what the server has got and put is a run of its loop, what
  each client has done is a run of its program on the replies it has received, and the \<open>k\<close>-th reply of
  a client is the \<open>k\<close>-th message of that client with the server's number, at most one outstanding.\<close>

theorem echo_network_refines:
  assumes "pids_ok spid pids" "unat offset + 8 * ECHO_MSG_SIZE < 2 ^ 64"
    and "en_run spid pids m es (en_start offset pids inputs m) = Some s"
  shows "fault (en_srv s) = None \<and> echo_server True spid (en_in s) = (en_out s, server_ending (en_at s))
    \<and> (\<forall>i<length pids. fault (ec_chan (en_cli s i)) = None
      \<and> (ec_at (en_cli s i) \<noteq> Absent \<and> ec_at (en_cli s i) \<noteq> Reading \<longrightarrow>
          echo_client (pids ! i) True (ec_at (en_cli s i) \<noteq> Gone (Exits 2)) (inputs i) (ec_replies (en_cli s i))
            = (ec_acts (en_cli s i), client_ending (ec_at (en_cli s i))))
      \<and> ec_replies (en_cli s i)
          = map (\<lambda>x. x\<lparr>sender := spid\<rparr>) (take (length (ec_replies (en_cli s i))) (sends (ec_acts (en_cli s i))))
      \<and> length (sends (ec_acts (en_cli s i))) \<le> Suc (length (ec_replies (en_cli s i))))"
proof -
  have ok: "en_ok spid pids m inputs s" by (rule network_reach[OF assms])
  note srv = en_okD(1)[OF ok]
  have "fault (en_srv s) = None" "echo_server True spid (en_in s) = (en_out s, server_ending (en_at s))"
    using srv by (auto simp: srv_ok_def mc_inv_defs echo_server_def)
  moreover have "fault (ec_chan (en_cli s i)) = None \<and> length (sends (ec_acts (en_cli s i))) \<le> Suc (length (ec_replies (en_cli s i)))"
    if "i < length pids" for i
    using en_okD(2)[OF ok that] by (cases "ec_at (en_cli s i)") (auto simp: link_at_def link_def mc_inv_defs)
  moreover have "0 < pids ! i \<and> in_int (pids ! i)" if "i < length pids" for i using assms(1) that by (simp add: pids_ok_def)
  ultimately show ?thesis
    using client_refines[OF en_okD(3)[OF ok]] replies_are_echoes[OF srv en_okD(2)[OF ok]] by blast
qed

text \<open>C20: Where no process of the echo service of 19 can go on, every client has read all its input or waits in a
  call. If no terminator came, the server waits for messages and every client has ended with every
  line it sent echoed. If one came, the server has ended normally; a client that has ended has had all
  its lines echoed, but one that still waits for a reply, or for room in a channel nobody empties any more,
  waits for ever. (The ended server has destroyed the semaphores and mutex of its channel; calls on them
  go on here as on the target's library, POSIX leaves them open.)\<close>

theorem echo_network_progress:
  assumes "pids_ok spid pids" "unat offset + 8 * ECHO_MSG_SIZE < 2 ^ 64"
    and "en_run spid pids m es (en_start offset pids inputs m) = Some s"
    and "\<forall>e. en_step spid pids m e s = None"
  shows "en_at s = (if m = 0 then Fetching else Ended (Exits 0))
    \<and> (\<forall>i<length pids. (\<exists>e. ec_at (en_cli s i) = Gone e \<and> (m = 0 \<longrightarrow> e \<noteq> Exits 2) \<and> length (ec_replies (en_cli s i)) = length (sends (ec_acts (en_cli s i))))
      \<or> 0 < m \<and> ec_at (en_cli s i) = Receiving \<and> received (ec_chan (en_cli s i)) = sent (ec_chan (en_cli s i))
      \<or> 0 < m \<and> ec_at (en_cli s i) = Sending \<and> length (sent (en_srv s)) = length (received (en_srv s)) + 8)"
proof -
  have ok: "en_ok spid pids m inputs s" by (rule network_reach[OF assms(1-3)])
  have st: "stuck spid pids m s" using assms(4) by (simp add: stuck_def)
  have srv: "length (procs (en_srv s)) = Suc (length pids + m)" using en_okD(1)[OF ok] by (simp add: srv_ok_def)
  have "(\<exists>e. ec_at (en_cli s i) = Gone e \<and> (m = 0 \<longrightarrow> e \<noteq> Exits 2) \<and> length (ec_replies (en_cli s i)) = length (sends (ec_acts (en_cli s i))))
      \<or> 0 < m \<and> ec_at (en_cli s i) = Receiving \<and> received (ec_chan (en_cli s i)) = sent (ec_chan (en_cli s i))
      \<or> 0 < m \<and> ec_at (en_cli s i) = Sending \<and> length (sent (en_srv s)) = length (received (en_srv s)) + 8" if i: "i < length pids" for i
  proof (cases "ec_at (en_cli s i)")
    case Sending
    have "putting (procs (en_srv s) ! Suc i)" using link_pcs(4)[OF en_okD(2)[OF ok i, unfolded link_at_def]] Sending by blast
    then have "length (sent (en_srv s)) = length (received (en_srv s)) + 8" using server_stuck(3)[OF st ok assms(1), of "Suc i"] srv i by simp
    then show ?thesis using Sending stuck_ends(2)[OF st ok assms(1) _ i] by auto
  next
    case Receiving
    then show ?thesis using client_stuck(2)[OF st ok i] stuck_ends(2)[OF st ok assms(1) _ i] by auto
  next
    case (Gone e)
    have "m = 0 \<longrightarrow> e \<noteq> Exits 2"
      using refused_run[OF assms(3) refused_start] Gone stuck_ends(1)[OF st ok assms(1)] by (auto simp: refused_def server_gone_def)
    then show ?thesis using link_lengths(4)[OF en_okD(2)[OF ok i, unfolded link_at_def]] Gone by simp
  qed (use stuck_places(1)[OF st ok assms(1) i] in auto)
  then show ?thesis using stuck_ends(1)[OF st ok assms(1)] by blast
qed

text \<open>C21: No run of the echo service of 19 is longer than 6 events, 2 for each client, 22 for each byte of
  the input of the clients and 17 for each terminator, in any order of events: with clients whose input
  ends, it always comes to where no process can go on.\<close>

theorem echo_network_ends:
  assumes "pids_ok spid pids" "unat offset + 8 * ECHO_MSG_SIZE < 2 ^ 64"
    and "en_run spid pids m es (en_start offset pids inputs m) = Some s"
  shows "length es \<le> 6 + (\<Sum>i<length pids. 2 + 22 * length (inputs i)) + 17 * m"
  using run_bounded[OF assms(3) en_ok_start[OF assms(2)] assms(1)] by (simp add: start_work)

section \<open>Sessions\<close>

text \<open>What a client has printed is what its loop prints on the replies it has received.\<close>

lemma prints_so_far:
  assumes "cli_run p input c"
  shows "prints (ec_acts c) = prints (fst (client_loop (first_msg p) input (ec_replies c)))
    \<and> (\<exists>more. sends (fst (client_loop (first_msg p) input (ec_replies c))) = sends (ec_acts c) @ more)"
proof -
  have none: "prints (fst (client_loop m input' [])) = []" for m input'
    by (simp add: client_loop.simps(1) prints_Cons split: prod.split sum.split)
  show ?thesis
  proof (cases "ec_at c")
    case Reading
    then have "\<forall>rs. client_loop (first_msg p) input (ec_replies c @ rs) = before (ec_acts c) (client_loop (ec_smsg c) (ec_input c) rs)"
      using assms by (simp add: cli_run_def)
    from spec[OF this, of "[]"] show ?thesis using none[of "ec_smsg c" "ec_input c"]
      by (auto simp: before_def prints_def sends_def split: prod.splits)
  next
    case Absent
    then show ?thesis using assms none[of "first_msg p" input] by (simp add: cli_run_def)
  next
    case (Gone e)
    then show ?thesis using assms none[of "first_msg p" input] by (auto simp: cli_run_def)
  qed (use assms in \<open>auto simp: cli_run_def\<close>)
qed

text \<open>C36: A session with the echo service of 19, in the network of server and clients with every interleaving of
  the steps of their calls: a client whose input is lines of 1 to 254 characters without NUL
  followed by an empty line has at any time printed the first of its lines, in order, as coming from the
  server, one for each reply received. Where no process can go on and no terminator came, it has
  printed all of them and exited with 0, and the server waits for messages.\<close>

theorem network_session_echoes:
  assumes "pids_ok spid pids" "unat offset + 8 * ECHO_MSG_SIZE < 2 ^ 64"
    and "en_run spid pids m es (en_start offset pids inputs m) = Some s"
    and "i < length pids" "\<forall>t\<in>set ts. line_text t" "inputs i = concat (map (\<lambda>t. t @ [10]) ts) @ [10]"
  shows "prints (ec_acts (en_cli s i)) = map (\<lambda>t. (t, spid)) (take (length (ec_replies (en_cli s i))) ts)
    \<and> (m = 0 \<and> (\<forall>e. en_step spid pids m e s = None) \<longrightarrow>
        prints (ec_acts (en_cli s i)) = map (\<lambda>t. (t, spid)) ts
        \<and> ec_at (en_cli s i) = Gone (Exits 0) \<and> en_at s = Fetching)"
proof -
  let ?c = "en_cli s i"
  have ok: "en_ok spid pids m inputs s" by (rule network_reach[OF assms(1-3)])
  note echo = replies_are_echoes[OF en_okD(1)[OF ok] en_okD(2)[OF ok assms(4)]]
  obtain as e where l: "client_loop (first_msg (pids ! i)) (session_input ts) (ec_replies ?c) = (as, e)" by fastforce
  note far = prints_so_far[OF en_okD(3)[OF ok assms(4)], unfolded assms(6), folded session_input_def, unfolded l fst_conv]
  obtain more where more: "sends as = sends (ec_acts ?c) @ more" using far by blast
  have "length (ec_replies ?c) \<le> length (sends (ec_acts ?c))" using arg_cong[OF echo, of length] by simp
  then have "take (length (ec_replies ?c)) (sends as) = take (length (ec_replies ?c)) (sends (ec_acts ?c))" by (simp add: more)
  then have rs: "ec_replies ?c = map (\<lambda>x. x\<lparr>sender := spid\<rparr>) (take (length (ec_replies ?c)) (sends as))" using echo by simp
  note shape = loop_on_lines[OF assms(5) l[unfolded first_msg_def]]
  have pre: "prints (ec_acts ?c) = map (\<lambda>t. (t, spid)) (take (length (ec_replies ?c)) ts)" "length (ec_replies ?c) \<le> length ts"
    using echoed_lines[OF assms(5) l[unfolded first_msg_def] rs] far by simp_all
  have "prints (ec_acts ?c) = map (\<lambda>t. (t, spid)) ts \<and> ec_at ?c = Gone (Exits 0) \<and> en_at s = Fetching"
    if m: "m = 0" and stop: "\<forall>e. en_step spid pids m e s = None"
  proof -
    have st: "stuck spid pids m s" using stop by (simp add: stuck_def)
    have f: "en_at s = Fetching" using stuck_ends(1)[OF st ok assms(1)] m by simp
    obtain e' where e': "ec_at ?c = Gone e'" using stuck_ends(2)[OF st ok assms(1) _ assms(4)] m by auto
    have "e' \<noteq> Exits 2" using refused_run[OF assms(3) refused_start] e' f by (auto simp: refused_def server_gone_def)
    then have same: "as = ec_acts ?c" "e = e'"
      using en_okD(3)[OF ok assms(4)] e' l by (auto simp: cli_run_def assms(6) session_input_def)
    have "length (sends as) = length (ec_replies ?c)"
      using link_lengths(4)[OF en_okD(2)[OF ok assms(4), unfolded link_at_def]] e' same by simp
    then have "length (ec_replies ?c) = length ts" using shape pre(2) by (auto simp: sent_messages_length min_def split: if_splits)
    then show ?thesis using pre(1) shape same e' f by simp
  qed
  then show ?thesis using pre(1) by blast
qed

section \<open>One client\<close>

text \<open>A client that is given one line, ended by an empty one, and the network of that client alone.\<close>

definition demo_input :: "byte list" where "demo_input = [0x68, 0x69, 10, 10]"

lemma demo_world: "pids_ok 30 [41]" "unat (200 :: size_t) + 8 * ECHO_MSG_SIZE < 2 ^ 64"
  by (simp_all add: pids_ok_def c_int_bounds ECHO_MSG_SIZE_def ECHO_MSG_MAX_LEN_def)

definition demo_msg :: echomsg where
  "demo_msg = (first_msg 41)\<lparr>msg := [0x68, 0x69, 0, 0] @ replicate 252 0\<rparr>"

lemma demo_loop:
  "client_loop (first_msg 41) demo_input [] = ([Sends demo_msg], Waiting)"
  "client_loop (first_msg 41) demo_input (r # rs) = ([Sends demo_msg, Prints (msg_text r) (sender r)], Exits 0)"
proof -
  have rl: "read_line (ECHO_MSG_MAX_LEN - 1) demo_input = ([0x68, 0x69, 10], [10])"
    using read_line_line[of "[0x68, 0x69]" "ECHO_MSG_MAX_LEN - 1" "[10]"] by (simp add: demo_input_def ECHO_MSG_MAX_LEN_def)
  have ch: "chop [0x68, 0x69, 10] (msg (first_msg 41)) = Inr ([0x68, 0x69, 0, 0] @ replicate 252 0)"
    using chop_line[of "[0x68, 0x69]" "msg (first_msg 41)"] by (simp add: after_line_def first_msg_def ECHO_MSG_MAX_LEN_def)
  have rl2: "read_line (ECHO_MSG_MAX_LEN - 1) [10] = ([10], [])"
    using read_line_line[of "[]" "ECHO_MSG_MAX_LEN - 1" "[]"] by (simp add: ECHO_MSG_MAX_LEN_def)
  have ch2: "chop [10] (msg demo_msg) = Inr (0 # 0 # drop 2 (msg demo_msg))" using chop_line[of "[]" "msg demo_msg"] by (simp add: after_line_def numeral_2_eq_2)
  have ne: "demo_input \<noteq> []" by (simp add: demo_input_def)
  have "client_loop demo_msg [10] rs = ([], Exits 0)" using client_loop_turn[OF _ rl2, of demo_msg rs] ch2 by simp
  then show "client_loop (first_msg 41) demo_input [] = ([Sends demo_msg], Waiting)"
    "client_loop (first_msg 41) demo_input (r # rs) = ([Sends demo_msg, Prints (msg_text r) (sender r)], Exits 0)"
    using client_loop_turn[OF ne rl, of "first_msg 41" "[]"] client_loop_turn[OF ne rl, of "first_msg 41" "r # rs"] ch
    by (simp_all add: demo_msg_def)
qed

lemma demo_complete:
  "\<exists>es s. en_run 30 [41] 0 es (en_start 200 [41] (\<lambda>_. demo_input) 0) = Some s \<and> stuck 30 [41] 0 s"
  using goes_on_to_stuck[OF _ en_ok_start[OF demo_world(2)] demo_world(1), of 0 "[]"] by fastforce

lemma demo_session:
  assumes "echo_client 41 True found demo_input rs = (as, e)" "length (sends as) = length rs" "found"
    and "rs = map (\<lambda>x. x\<lparr>sender := 30\<rparr>) (take (length rs) (sends as))"
  shows "prints as = [([0x68, 0x69], 30)] \<and> e = Exits 0"
proof -
  have l: "client_loop (first_msg 41) demo_input rs = (as, e)"
    using assms(1,3) response_name_pid[of 41] by (simp add: echo_client_def first_msg_def c_int_bounds)
  show ?thesis
  proof (cases rs)
    case Nil
    then show ?thesis using l assms(2) demo_loop(1) by (auto simp: sends_def)
  next
    case (Cons r rs')
    then have as: "as = [Sends demo_msg, Prints (msg_text r) (sender r)]" "e = Exits 0" using l demo_loop(2) by auto
    then have "rs = [demo_msg\<lparr>sender := 30\<rparr>]" using assms(2,4) Cons by (simp add: sends_def)
    then show ?thesis using as Cons by (simp add: prints_def msg_text_def demo_msg_def cstr_def)
  qed
qed

lemma echo_network_progress_witness:
  "\<exists>es s e. en_run 30 [41] 0 es (en_start 200 [41] (\<lambda>_. demo_input) 0) = Some s \<and> en_at s = Fetching
    \<and> ec_at (en_cli s 0) = Gone e \<and> length (ec_replies (en_cli s 0)) = length (sends (ec_acts (en_cli s 0)))"
proof -
  obtain es s where s: "en_run 30 [41] 0 es (en_start 200 [41] (\<lambda>_. demo_input) 0) = Some s" "stuck 30 [41] 0 s"
    using demo_complete by blast
  from echo_network_progress[OF demo_world s(1)] s show ?thesis unfolding stuck_def by fastforce
qed

lemma echo_network_refines_witness:
  "\<exists>es s. en_run 30 [41] 0 es (en_start 200 [41] (\<lambda>_. demo_input) 0) = Some s
    \<and> ec_at (en_cli s 0) = Gone (Exits 0) \<and> prints (ec_acts (en_cli s 0)) = [([0x68, 0x69], 30)]"
proof -
  obtain es s where s: "en_run 30 [41] 0 es (en_start 200 [41] (\<lambda>_. demo_input) 0) = Some s" "stuck 30 [41] 0 s"
    using demo_complete by blast
  have ok: "en_ok 30 [41] 0 (\<lambda>_. demo_input) s" by (rule network_reach[OF demo_world s(1)])
  obtain e where e: "ec_at (en_cli s 0) = Gone e" using stuck_ends(2)[OF s(2) ok demo_world(1), of 0] by auto
  have "e \<noteq> Exits 2" using refused_run[OF s(1) refused_start] e stuck_ends(1)[OF s(2) ok demo_world(1)]
    by (auto simp: refused_def server_gone_def)
  then have "echo_client 41 True True demo_input (ec_replies (en_cli s 0)) = (ec_acts (en_cli s 0), e)"
    "ec_replies (en_cli s 0) = map (\<lambda>x. x\<lparr>sender := 30\<rparr>) (take (length (ec_replies (en_cli s 0))) (sends (ec_acts (en_cli s 0))))"
    using echo_network_refines[OF demo_world s(1)] e by auto
  moreover have "length (sends (ec_acts (en_cli s 0))) = length (ec_replies (en_cli s 0))"
    using link_lengths(4)[OF en_okD(2)[OF ok, unfolded link_at_def], of 0] e by simp
  ultimately show ?thesis using demo_session[of True "ec_replies (en_cli s 0)" "ec_acts (en_cli s 0)" e] s(1) e by blast
qed

lemma echo_network_ends_witness:
  "\<exists>es s. en_run 30 [41] 0 es (en_start 200 [41] (\<lambda>_. demo_input) 0) = Some s \<and> stuck 30 [41] 0 s \<and> length es \<le> 96"
proof -
  obtain es s where s: "en_run 30 [41] 0 es (en_start 200 [41] (\<lambda>_. demo_input) 0) = Some s" "stuck 30 [41] 0 s"
    using demo_complete by blast
  from echo_network_ends[OF demo_world s(1)] s show ?thesis by (auto simp: demo_input_def)
qed

lemma network_session_echoes_witness:
  "\<exists>es s. en_run 30 [41] 0 es (en_start 200 [41] (\<lambda>_. demo_input) 0) = Some s
    \<and> prints (ec_acts (en_cli s 0)) = [([0x68, 0x69], 30)] \<and> ec_at (en_cli s 0) = Gone (Exits 0) \<and> en_at s = Fetching"
proof -
  obtain es s where s: "en_run 30 [41] 0 es (en_start 200 [41] (\<lambda>_. demo_input) 0) = Some s" "stuck 30 [41] 0 s"
    using demo_complete by blast
  have t: "\<forall>t\<in>set [[0x68, 0x69]]. line_text t" "demo_input = concat (map (\<lambda>t. t @ [10]) [[0x68, 0x69]]) @ [10]"
    by (simp_all add: line_text_def ECHO_MSG_MAX_LEN_def demo_input_def)
  from network_session_echoes[OF demo_world s(1) _ t] s show ?thesis unfolding stuck_def by fastforce
qed

section \<open>A stop while a client is on its way\<close>

text \<open>The client has opened the channel; before it has read its line a terminator comes and the server
  ends.\<close>

definition stop_first :: "en_event list" where
  "stop_first = [ClientStarts 0, TermStarts 0] @ replicate 5 (TermStep 0) @ [ServerGets] @ replicate 6 ServerStep"
lemma stop_bytes: "bytes_of_msg stop_msg = replicate 260 0"
proof -
  have "bytes_of_int 0 = replicate 4 0" by (simp add: bytes_of_int_def map_replicate_const)
  then show ?thesis by (simp add: bytes_of_msg_def stop_msg_def ECHO_MSG_MAX_LEN_def replicate_add[symmetric])
qed
lemma stop_of_bytes: "msg_of_bytes (replicate 260 0) = stop_msg" using stop_roundtrip by (simp add: stop_bytes)
lemma stop_first_run:
  "\<exists>s. en_run 30 [41] 1 stop_first (en_start 200 [41] (\<lambda>_. demo_input) 1) = Some s
    \<and> server_gone (en_at s) \<and> en_out s = [] \<and> ec_at (en_cli s 0) = Reading \<and> ec_input (en_cli s 0) = demo_input
    \<and> ec_smsg (en_cli s 0) = first_msg 41 \<and> en_at s = Ended (Exits 0) \<and> length (procs (en_srv s)) = 3
    \<and> procs (en_srv s) ! 1 = Away \<and> 0 < mc_has_space (chan (en_srv s)) \<and> fault (en_srv s) = None
    \<and> mc_elem_size (chan (en_srv s)) = 260"
proof -
  have l: "replicate 5 x = [x,x,x,x,x]" "replicate 6 x = [x,x,x,x,x,x]" for x :: en_event by (simp_all add: numeral_eq_Suc)
  have procs: "replicate 3 Away = [Away, Away, Away]" by (simp add: numeral_eq_Suc)
  define items :: bytes where "items = replicate 2080 0"
  have sz: "ECHO_MSG_SIZE = 260" by (simp add: ECHO_MSG_SIZE_def ECHO_MSG_MAX_LEN_def)
  have ic: "init_channel 200 260 8 nm = \<lparr>mc_elem_size = 260, mc_capacity = 8, mc_total_size = 2280, mc_name = take 127 nm,
     mc_iput = 0, mc_iget = 0, mc_lock = None, mc_has_space = 8, mc_has_items = 0, mc_items = items\<rparr>" for nm
    by (simp add: init_channel_def Let_def posix_sem_init_def SEM_VALUE_MAX_def MEMCH_MAX_NAME_LEN_def items_def)
  have it: "length items = 2080" "take 260 (replicate 260 0 @ drop 260 items) = replicate 260 0" by (simp_all add: items_def)
  show ?thesis unfolding stop_first_def l
    by (simp add: mc_step.simps en_start_def en_client_starts_def en_term_starts_def en_term_step_def en_server_gets_def en_server_step_def
        server_gone_def stop_bytes mc_start_def sz ic procs pc_step_def note_copy_def mc_copy_in_def mc_copy_out_def
        it Let_def posix_sem_post_def SEM_VALUE_MAX_def en_turn_def stop_of_bytes server_turn_def) (simp add: stop_msg_def ECHO_MSG_MAX_LEN_def first_msg_def)
qed

lemma demo_line:
  "read_line (ECHO_MSG_MAX_LEN - 1) demo_input = ([0x68, 0x69, 10], [10])"
  "chop [0x68, 0x69, 10] (msg (first_msg 41)) = Inr (msg demo_msg)" "msg demo_msg ! 0 \<noteq> 0" "(first_msg 41)\<lparr>msg := msg demo_msg\<rparr> = demo_msg"
  using read_line_line[of "[0x68, 0x69]" "ECHO_MSG_MAX_LEN - 1" "[10]"] chop_line[of "[0x68, 0x69]" "msg (first_msg 41)"]
  by (simp_all add: demo_input_def demo_msg_def ECHO_MSG_MAX_LEN_def after_line_def first_msg_def)

text \<open>After that the client calls \<open>mc_put\<close> on the server's channel, whose semaphores and mutex the
  server's \<open>mc_destroy\<close> has destroyed: its \<open>sem_wait\<close>, which goes on here as on the target's library, is
  undefined in POSIX.\<close>

theorem destroyed_channel_in_use:
  "\<exists>es s s'. en_run 30 [41] 1 es (en_start 200 [41] (\<lambda>_. demo_input) 1) = Some s \<and> en_at s = Ended (Exits 0)
    \<and> procs (en_srv s) ! 1 = PutWait (bytes_of_msg demo_msg)
    \<and> en_step 30 [41] 1 (ClientStep 0) s = Some s' \<and> procs (en_srv s') ! 1 = PutLock (bytes_of_msg demo_msg)"
proof -
  obtain s1 where s1: "en_run 30 [41] 1 stop_first (en_start 200 [41] (\<lambda>_. demo_input) 1) = Some s1"
      "ec_at (en_cli s1 0) = Reading" "ec_input (en_cli s1 0) = demo_input" "ec_smsg (en_cli s1 0) = first_msg 41"
      "en_at s1 = Ended (Exits 0)" "length (procs (en_srv s1)) = 3" "procs (en_srv s1) ! 1 = Away"
      "0 < mc_has_space (chan (en_srv s1))" "fault (en_srv s1) = None" "mc_elem_size (chan (en_srv s1)) = 260"
    using stop_first_run by blast
  have ne: "demo_input \<noteq> []" "length (msg demo_msg) = 256" by (simp_all add: demo_input_def demo_msg_def)
  obtain s where s: "en_client_reads 0 s1 = Some s" "en_at s = Ended (Exits 0)" "ec_at (en_cli s 0) = Sending"
      "en_srv s = (en_srv s1)\<lparr>procs := (procs (en_srv s1))[1 := PutWait (bytes_of_msg demo_msg)]\<rparr>"
    using s1 ne by (simp add: en_client_reads_def Let_def demo_line[unfolded One_nat_def] mc_step.simps)
  have "en_run 30 [41] 1 (stop_first @ [ClientReads 0]) (en_start 200 [41] (\<lambda>_. demo_input) 1) = Some s"
    using s1(1) s(1) by (simp add: en_run_snoc)
  moreover have "procs (en_srv s) ! 1 = PutWait (bytes_of_msg demo_msg)" using s(4) s1(6) by simp
  moreover have "\<exists>s'. en_step 30 [41] 1 (ClientStep 0) s = Some s' \<and> procs (en_srv s') ! 1 = PutLock (bytes_of_msg demo_msg)"
    using s s1(6,8,9) by (simp add: en_client_step_def mc_step.simps pc_step_def note_copy_def)
  ultimately show ?thesis using s(2) by blast
qed

text \<open>No message is answered any more: the client sends its line and waits for ever.\<close>

theorem stopped_server_leaves_client:
  "\<exists>es s. en_run 30 [41] 1 es (en_start 200 [41] (\<lambda>_. demo_input) 1) = Some s
    \<and> (\<forall>e. en_step 30 [41] 1 e s = None) \<and> en_at s = Ended (Exits 0)
    \<and> (\<forall>e. ec_at (en_cli s 0) \<noteq> Gone e) \<and> ec_replies (en_cli s 0) = [] \<and> length (sends (ec_acts (en_cli s 0))) = 1"
proof -
  note start = en_ok_start[OF demo_world(2), of 30 "[41]" 1 "\<lambda>_. demo_input"]
  obtain s1 where s1: "en_run 30 [41] 1 stop_first (en_start 200 [41] (\<lambda>_. demo_input) 1) = Some s1" "server_gone (en_at s1)"
      "en_out s1 = []" "ec_at (en_cli s1 0) = Reading"
    using stop_first_run by blast
  obtain es s where s: "en_run 30 [41] 1 (stop_first @ es) (en_start 200 [41] (\<lambda>_. demo_input) 1) = Some s" "stuck 30 [41] 1 s"
    using goes_on_to_stuck[OF s1(1) start demo_world(1)] by blast
  have ok: "en_ok 30 [41] 1 (\<lambda>_. demo_input) s" by (rule network_reach[OF demo_world s(1)])
  have "en_run 30 [41] 1 es s1 = Some s" using s(1) s1(1) by (simp add: en_run_append)
  from gone_run[OF this s1(2), of 0] have g: "en_out s = []" "ec_at (en_cli s 0) \<noteq> Gone (Exits 2)" using s1(3,4) by simp_all
  have link: "link 30 (own 41 (msgs (sent (en_srv s)))) (procs (en_srv s) ! 1) (own 41 (map fst (en_in s))) []
      (en_at s = Answering 0) (en_cli s 0)"
    using en_okD(2)[OF ok, of 0] g(1) by (simp add: link_at_def)
  have r: "ec_replies (en_cli s 0) = []" by (rule unanswered_none[OF link])
  have "ec_at (en_cli s 0) \<noteq> Gone e" for e
  proof
    assume e: "ec_at (en_cli s 0) = Gone e"
    then have "ec_acts (en_cli s 0) = [Sends demo_msg]"
      using en_okD(3)[OF ok, of 0] g(2) r demo_loop(1) by (simp add: cli_run_def)
    then show False using link_lengths(4)[OF link] e r by (simp add: sends_def)
  qed
  moreover from this have "busy (ec_at (en_cli s 0)) = 1"
    using stuck_places(1)[OF s(2) ok demo_world(1), of 0] by (cases "ec_at (en_cli s 0)") auto
  ultimately show ?thesis using s r stuck_ends(1)[OF s(2) ok demo_world(1)] link_lengths(4)[OF link]
    unfolding stuck_def by auto
qed

end
