(* ===== verification/Scheduler_14.thy ===== *)
theory Scheduler_14
  imports List14_H
begin

text \<open>
  The cooperative scheduler of 14 (\<open>uthread.c\<close>), on the linked memory of its ready queue: the
  descriptors are pages from \<open>mmap\<close>, the main thread's is a local variable of \<open>ut_run\<close>. What a
  thread still has to do is the list of calls it has left, as in the model of 15. For threads
  that print and yield, the scheduler is a round robin over lists, and \<open>ut_run\<close> returns.
\<close>

section \<open>State and calls\<close>

datatype call = Say string | YieldCall | CreateCall ptr ptr ptr

record scheduler =
  fmem :: "ptr fmem"
  queue_head :: ptr
  current :: ptr
  main_desc :: ptr
  remaining :: "ptr \<rightharpoonup> call list"
  said :: "string list"
  complaints :: "string list"

text \<open>The entry of \<open>struct uthread\<close> follows three words.\<close>

definition entry14 :: "ptr \<Rightarrow> ptr" where "entry14 t = t + 24"

definition MAP_FAILED :: ptr where "MAP_FAILED = - 1"

section \<open>uthread.c\<close>

definition extract_next_ready_thread :: "scheduler \<Rightarrow> c_error + (scheduler \<times> ptr)" where
  "extract_next_ready_thread s =
     and_then (or_fail InvalidAccess (is_list_empty_14 (fmem s) (queue_head s))) (\<lambda>empty.
       if empty then Inr (s, main_desc s)
       else and_then (or_fail InvalidAccess (remove_head_list (fmem s) (queue_head s)))
         (\<lambda>(h, entry). Inr (s\<lparr>fmem := h\<rparr>, container_of entry 24)))"

definition schedule_14 :: "scheduler \<Rightarrow> c_error + scheduler" where
  "schedule_14 s = and_then (extract_next_ready_thread s) (\<lambda>(s1, next_thread).
     if remaining s1 next_thread = None then Inl InvalidAccess else Inr (s1\<lparr>current := next_thread\<rparr>))"

definition ut_init_14 :: "scheduler \<Rightarrow> c_error + scheduler" where
  "ut_init_14 s = and_then (or_fail InvalidAccess (init_list_head_14 (fmem s) (queue_head s))) (\<lambda>h. Inr (s\<lparr>fmem := h\<rparr>))"

definition ut_end_14 :: "scheduler \<Rightarrow> c_error + scheduler" where
  "ut_end_14 s = and_then (or_fail InvalidAccess (is_list_empty_14 (fmem s) (queue_head s))) (\<lambda>empty.
     Inr (if empty then s else s\<lparr>complaints := complaints s @ [''ERROR: ready queue not empty at exit'']\<rparr>))"

text \<open>\<open>ut_run\<close> to its switch; it returns when the main thread is current again. Its descriptor is
  on the stack, at \<open>the_main_thread\<close>.\<close>

definition ut_run_14 :: "scheduler \<Rightarrow> ptr \<Rightarrow> c_error + scheduler" where
  "ut_run_14 s the_main_thread =
     schedule_14 (s\<lparr>main_desc := the_main_thread, current := the_main_thread,
       remaining := (remaining s)(the_main_thread \<mapsto> [])\<rparr>)"

text \<open>The result of \<open>mmap\<close> is used as it is; the page gives the descriptor, its entry and the
  stack with the first context.\<close>

definition ut_create_14 :: "(ptr \<Rightarrow> ptr \<Rightarrow> call list) \<Rightarrow> scheduler \<Rightarrow> ptr \<Rightarrow> ptr \<Rightarrow> ptr \<Rightarrow> c_error + scheduler" where
  "ut_create_14 code s start_routine arg puthread =
     (if puthread = MAP_FAILED then Inl InvalidAccess
      else
        (let s1 = s\<lparr>remaining := (remaining s)(puthread \<mapsto> code start_routine arg),
               fmem := (fmem s)(entry14 puthread \<mapsto> \<lparr>flink = 0, blink = 0\<rparr>)\<rparr> in
         and_then (or_fail InvalidAccess (insert_tail_list (fmem s1) (queue_head s1) (entry14 puthread)))
           (\<lambda>h. Inr (s1\<lparr>fmem := h\<rparr>))))"

definition ut_yield_14 :: "scheduler \<Rightarrow> c_error + scheduler" where
  "ut_yield_14 s =
     and_then (or_fail InvalidAccess (is_list_empty_14 (fmem s) (queue_head s))) (\<lambda>empty.
       if empty then Inr s
       else and_then (or_fail InvalidAccess (insert_tail_list (fmem s) (queue_head s) (entry14 (current s))))
         (\<lambda>h. schedule_14 (s\<lparr>fmem := h\<rparr>)))"

text \<open>\<open>cleanup_thread\<close>, called by \<open>internal_exit\<close> on the stack of the next thread, unmaps the page.\<close>

definition cleanup_thread_14 :: "scheduler \<Rightarrow> ptr \<Rightarrow> scheduler" where
  "cleanup_thread_14 s puthread =
     s\<lparr>remaining := (remaining s)(puthread := None), fmem := (fmem s)(entry14 puthread := None)\<rparr>"

definition ut_exit_14 :: "scheduler \<Rightarrow> c_error + scheduler" where
  "ut_exit_14 s = and_then (extract_next_ready_thread s) (\<lambda>(s1, next_thread).
     if remaining s1 next_thread = None then Inl InvalidAccess
     else Inr (cleanup_thread_14 (s1\<lparr>current := next_thread\<rparr>) (current s)))"

section \<open>Running\<close>

text \<open>One call of the current thread; \<open>internal_start\<close> calls \<open>ut_exit\<close> when its function returns.\<close>

definition step_14 :: "(ptr \<Rightarrow> ptr \<Rightarrow> call list) \<Rightarrow> scheduler \<Rightarrow> c_error + scheduler" where
  "step_14 code s =
     (case remaining s (current s) of
        None \<Rightarrow> Inl InvalidAccess
      | Some [] \<Rightarrow> ut_exit_14 s
      | Some (c # cs) \<Rightarrow>
          (let s1 = s\<lparr>remaining := (remaining s)(current s \<mapsto> cs)\<rparr> in
           case c of
             Say x \<Rightarrow> Inr (s1\<lparr>said := said s @ [x]\<rparr>)
           | YieldCall \<Rightarrow> ut_yield_14 s1
           | CreateCall f a p \<Rightarrow> ut_create_14 code s1 f a p))"

fun run_14 :: "(ptr \<Rightarrow> ptr \<Rightarrow> call list) \<Rightarrow> nat \<Rightarrow> scheduler \<Rightarrow> c_error + scheduler" where
  "run_14 code fuel s =
     (if current s = main_desc s then Inr s
      else case fuel of
        0 \<Rightarrow> Inl NoReturn
      | Suc n \<Rightarrow> and_then (step_14 code s) (run_14 code n))"

declare run_14.simps [simp del]

section \<open>Round robin\<close>

text \<open>What the scheduler should do: the first of a list of threads runs; a yield sends it to the
  end.\<close>

function round_robin :: "call list list \<Rightarrow> string list" where
  "round_robin [] = []"
| "round_robin ([] # q) = round_robin q"
| "round_robin ((Say x # cs) # q) = x # round_robin (cs # q)"
| "round_robin ((YieldCall # cs) # q) = round_robin (q @ [cs])"
| "round_robin ((CreateCall f a p # cs) # q) = round_robin (cs # q)"
  by pat_completeness auto
termination by (relation "measure (\<lambda>q. sum_list (map (\<lambda>cs. Suc (length cs)) q))") auto

definition work_14 :: "call list list \<Rightarrow> nat" where
  "work_14 q = sum_list (map (\<lambda>cs. Suc (length cs)) q)"

definition plain_calls :: "call list \<Rightarrow> bool" where
  "plain_calls cs \<longleftrightarrow> (\<forall>c\<in>set cs. case c of CreateCall f a p \<Rightarrow> False | _ \<Rightarrow> True)"

section \<open>The linked scheduler and the lists\<close>

text \<open>\<open>ts\<close>: the current thread and the ready ones, in order; empty when the main thread runs.\<close>

definition conts :: "scheduler \<Rightarrow> ptr list \<Rightarrow> call list list" where
  "conts s ts = map (\<lambda>t. the (remaining s t)) ts"

definition rep_14 :: "scheduler \<Rightarrow> ptr list \<Rightarrow> bool" where
  "rep_14 s ts \<longleftrightarrow> flist (fmem s) (queue_head s) (map entry14 (tl ts))
     \<and> current s = (case ts of [] \<Rightarrow> main_desc s | t # us \<Rightarrow> t)
     \<and> distinct (main_desc s # ts) \<and> queue_head s \<notin> entry14 ` set ts
     \<and> (\<forall>t\<in>set ts. entry14 t \<in> dom (fmem s)) \<and> set ts \<subseteq> dom (remaining s) \<and> main_desc s \<in> dom (remaining s)
     \<and> (\<forall>t\<in>set ts. plain_calls (the (remaining s t)))"

lemma entry14_inj [simp]: "entry14 a = entry14 b \<longleftrightarrow> a = b"
  by (simp add: entry14_def)

lemma entry14_back [simp]: "container_of (entry14 t) 24 = t"
  by (simp add: entry14_def)

lemma entry14_image [simp]: "entry14 t \<in> entry14 ` A \<longleftrightarrow> t \<in> A"
  by auto

text \<open>Taking the next thread off the queue.\<close>

lemma extract_ok:
  assumes "flist (fmem s) (queue_head s) (map entry14 us)"
  shows "\<exists>h. extract_next_ready_thread s = Inr (s\<lparr>fmem := h\<rparr>, case us of [] \<Rightarrow> main_desc s | u # vs \<Rightarrow> u)
    \<and> flist h (queue_head s) (map entry14 (tl us)) \<and> dom h = dom (fmem s)"
proof (cases us)
  case Nil
  then show ?thesis using is_list_empty_14_ok[OF assms] assms
    by (intro exI[of _ "fmem s"]) (simp add: extract_next_ready_thread_def)
next
  case (Cons u vs)
  from remove_head_list_ok[of "fmem s" "queue_head s" "entry14 u" "map entry14 vs"] assms Cons obtain h where
    "remove_head_list (fmem s) (queue_head s) = Some (h, entry14 u)" "flist h (queue_head s) (map entry14 vs)"
    "dom h = dom (fmem s)" by (auto dest: agree_off_dom)
  then show ?thesis using is_list_empty_14_ok[OF assms] Cons
    by (intro exI[of _ h]) (simp add: extract_next_ready_thread_def)
qed

lemma exit_ok:
  assumes "rep_14 s (t # us)"
  shows "\<exists>s'. ut_exit_14 s = Inr s' \<and> rep_14 s' us \<and> conts s' us = conts s us \<and> said s' = said s
    \<and> main_desc s' = main_desc s \<and> complaints s' = complaints s"
proof -
  from assms have r: "flist (fmem s) (queue_head s) (map entry14 us)" "current s = t" "distinct (main_desc s # t # us)"
    "queue_head s \<notin> entry14 ` set (t # us)" "\<forall>u\<in>set (t # us). entry14 u \<in> dom (fmem s)"
    "set (t # us) \<subseteq> dom (remaining s)" "main_desc s \<in> dom (remaining s)"
    "\<forall>u\<in>set us. plain_calls (the (remaining s u))"
    by (auto simp: rep_14_def)
  from extract_ok[OF r(1)] obtain h where
    h: "extract_next_ready_thread s = Inr (s\<lparr>fmem := h\<rparr>, case us of [] \<Rightarrow> main_desc s | u # vs \<Rightarrow> u)"
    "flist h (queue_head s) (map entry14 (tl us))" "dom h = dom (fmem s)" by blast
  let ?n = "case us of [] \<Rightarrow> main_desc s | u # vs \<Rightarrow> u"
  have n: "remaining s ?n \<noteq> None" using r(6,7) by (cases us) auto
  have f: "flist (h(entry14 t := None)) (queue_head s) (map entry14 (tl us))"
    by (rule flist_local[OF h(2)]) (use r(3,4) in \<open>cases us; auto\<close>)
  let ?s = "cleanup_thread_14 (s\<lparr>fmem := h, current := ?n\<rparr>) t"
  have "rep_14 ?s us"
    unfolding rep_14_def cleanup_thread_14_def using f r h(3)
    by (auto split: list.splits)
  moreover have "conts ?s us = conts s us" using r(3) by (auto simp: conts_def cleanup_thread_14_def)
  moreover have "ut_exit_14 s = Inr ?s" using h(1) n r(2) by (simp add: ut_exit_14_def)
  ultimately show ?thesis by (auto simp: cleanup_thread_14_def)
qed

lemma yield_ok:
  assumes "rep_14 s (t # us)"
  shows "\<exists>s'. ut_yield_14 s = Inr s' \<and> rep_14 s' (us @ [t]) \<and> conts s' (us @ [t]) = conts s (us @ [t])
    \<and> said s' = said s \<and> main_desc s' = main_desc s \<and> complaints s' = complaints s"
proof -
  from assms have r: "flist (fmem s) (queue_head s) (map entry14 us)" "current s = t" "distinct (main_desc s # t # us)"
    "queue_head s \<notin> entry14 ` set (t # us)" "\<forall>u\<in>set (t # us). entry14 u \<in> dom (fmem s)"
    "set (t # us) \<subseteq> dom (remaining s)" "main_desc s \<in> dom (remaining s)"
    "\<forall>u\<in>set (t # us). plain_calls (the (remaining s u))"
    by (auto simp: rep_14_def)
  show ?thesis
  proof (cases us)
    case Nil
    then show ?thesis using assms is_list_empty_14_ok[OF r(1)] by (auto simp: ut_yield_14_def)
  next
    case (Cons u vs)
    have "entry14 t \<notin> set (queue_head s # map entry14 us)" using r(3,4) by auto
    from insert_tail_list_ok[OF r(1) _ this] r(5) obtain h where
      h: "insert_tail_list (fmem s) (queue_head s) (entry14 t) = Some h"
      "flist h (queue_head s) (map entry14 (us @ [t]))" "dom h = dom (fmem s)" by (auto dest: agree_off_dom)
    from extract_ok[of "s\<lparr>fmem := h\<rparr>" "us @ [t]"] h(2) Cons obtain h2 where
      h2: "extract_next_ready_thread (s\<lparr>fmem := h\<rparr>) = Inr (s\<lparr>fmem := h2\<rparr>, u)"
      "flist h2 (queue_head s) (map entry14 (vs @ [t]))" "dom h2 = dom h" by auto
    let ?s = "s\<lparr>fmem := h2, current := u\<rparr>"
    have "rep_14 ?s (us @ [t])"
      unfolding rep_14_def using h2 h(3) r Cons by auto
    moreover have "ut_yield_14 s = Inr ?s"
      using h(1) h2(1) r(2,6) is_list_empty_14_ok[OF r(1)] Cons by (auto simp: ut_yield_14_def schedule_14_def)
    ultimately show ?thesis by (auto simp: conts_def)
  qed
qed

lemma run_14_ok:
  assumes "rep_14 s ts" "work_14 (conts s ts) \<le> fuel"
  shows "\<exists>s'. run_14 code fuel s = Inr s' \<and> rep_14 s' [] \<and> said s' = said s @ round_robin (conts s ts)
    \<and> complaints s' = complaints s"
  using assms
proof (induction fuel arbitrary: s ts)
  case 0
  then have "ts = []" by (cases ts) (auto simp: work_14_def conts_def)
  then show ?case using 0 by (auto simp: run_14.simps rep_14_def conts_def)
next
  case (Suc n)
  show ?case
  proof (cases ts)
    case Nil
    then show ?thesis using Suc.prems by (auto simp: run_14.simps rep_14_def conts_def)
  next
    case (Cons t us)
    note rep = Suc.prems(1)[unfolded Cons]
    have cur: "current s = t" "current s \<noteq> main_desc s" using rep by (auto simp: rep_14_def)
    obtain cs where cs: "remaining s t = Some cs" using rep by (auto simp: rep_14_def)
    have run: "run_14 code (Suc n) s = and_then (step_14 code s) (run_14 code n)"
      using cur by (simp add: run_14.simps)
    have conts: "conts s ts = cs # conts s us" using cs Cons by (simp add: conts_def)
    show ?thesis
    proof (cases cs)
      case Nil
      from exit_ok[OF rep] obtain s1 where s1: "ut_exit_14 s = Inr s1" "rep_14 s1 us" "conts s1 us = conts s us"
        "said s1 = said s" "complaints s1 = complaints s" by blast
      have "work_14 (conts s1 us) \<le> n" using Suc.prems(2) conts s1(3) by (simp add: work_14_def)
      from Suc.IH[OF s1(2) this] show ?thesis using run s1 cs Nil cur(1) conts by (simp add: step_14_def)
    next
      case cons: (Cons c cs1)
      let ?s1 = "s\<lparr>remaining := (remaining s)(t \<mapsto> cs1)\<rparr>"
      have t: "t \<notin> set us" using rep by (auto simp: rep_14_def)
      have pl: "plain_calls cs" using rep cs by (auto simp: rep_14_def)
      then have rep1: "rep_14 ?s1 (t # us)"
        using rep cons cur(1) by (auto simp: rep_14_def plain_calls_def)
      have c1: "conts ?s1 us = conts s us" using t by (auto simp: conts_def)
      have w: "work_14 (cs1 # conts s us) \<le> n" using Suc.prems(2) conts cons by (simp add: work_14_def)
      show ?thesis
      proof (cases c)
        case (Say x)
        let ?s2 = "?s1\<lparr>said := said s @ [x]\<rparr>"
        have "rep_14 ?s2 (t # us)" "conts ?s2 (t # us) = cs1 # conts s us"
          using rep1 c1 by (auto simp: rep_14_def conts_def)
        with Suc.IH[of ?s2 "t # us"] w show ?thesis
          using run cs cons Say cur(1) conts by (auto simp: step_14_def Let_def)
      next
        case YieldCall
        from yield_ok[OF rep1] obtain s2 where s2: "ut_yield_14 ?s1 = Inr s2" "rep_14 s2 (us @ [t])"
          "conts s2 (us @ [t]) = conts ?s1 (us @ [t])" "said s2 = said s" "complaints s2 = complaints s" by auto
        have c2: "conts s2 (us @ [t]) = conts s us @ [cs1]" using s2(3) c1 by (simp add: conts_def)
        have "work_14 (conts s2 (us @ [t])) \<le> n" using w unfolding c2 by (simp add: work_14_def)
        from Suc.IH[OF s2(2) this] show ?thesis
          using run s2 cs cons YieldCall cur(1) conts c2 by (simp add: step_14_def Let_def)
      next
        case (CreateCall f a p)
        then show ?thesis using pl cons by (simp add: plain_calls_def)
      qed
    qed
  qed
qed

end
