(* ===== verification/Scheduler_14_Props.thy ===== *)
theory Scheduler_14_Props
  imports Scheduler_14
begin

text \<open>
  A whole program on the scheduler of 14: \<open>ut_init\<close>, some \<open>ut_create\<close>, \<open>ut_run\<close>, \<open>ut_end\<close>; and the
  one of \<open>test_uthread.c\<close>.
\<close>

fun create_all :: "(ptr \<Rightarrow> ptr \<Rightarrow> call list) \<Rightarrow> (ptr \<times> ptr \<times> ptr) list \<Rightarrow> scheduler \<Rightarrow> c_error + scheduler" where
  "create_all code [] s = Inr s"
| "create_all code ((f, a, p) # cs) s = and_then (ut_create_14 code s f a p) (create_all code cs)"

definition program_14 :: "(ptr \<Rightarrow> ptr \<Rightarrow> call list) \<Rightarrow> (ptr \<times> ptr \<times> ptr) list \<Rightarrow> ptr \<Rightarrow> nat \<Rightarrow> scheduler
    \<Rightarrow> c_error + scheduler" where
  "program_14 code creates the_main_thread fuel s =
     and_then (ut_init_14 s) (\<lambda>s1.
     and_then (create_all code creates s1) (\<lambda>s2.
     and_then (ut_run_14 s2 the_main_thread) (\<lambda>s3.
     and_then (run_14 code fuel s3) ut_end_14)))"

definition ready_14 :: "scheduler \<Rightarrow> ptr list \<Rightarrow> bool" where
  "ready_14 s ts \<longleftrightarrow> flist (fmem s) (queue_head s) (map entry14 ts) \<and> distinct ts
     \<and> (\<forall>t\<in>set ts. entry14 t \<in> dom (fmem s) \<and> entry14 t \<noteq> queue_head s \<and> t \<in> dom (remaining s)
          \<and> plain_calls (the (remaining s t)))"

lemma init_ready:
  assumes "queue_head s \<in> dom (fmem s)"
  shows "\<exists>s'. ut_init_14 s = Inr s' \<and> ready_14 s' [] \<and> queue_head s' = queue_head s \<and> said s' = said s
    \<and> complaints s' = complaints s"
  using init_list_head_14_ok[OF assms] by (auto simp: ut_init_14_def ready_14_def)

lemma create_ready:
  assumes "ready_14 s ts" "p \<notin> set ts" "entry14 p \<noteq> queue_head s" "p \<noteq> MAP_FAILED" "plain_calls (code f a)"
  shows "\<exists>s'. ut_create_14 code s f a p = Inr s' \<and> ready_14 s' (ts @ [p])
    \<and> conts s' (ts @ [p]) = conts s ts @ [code f a] \<and> queue_head s' = queue_head s \<and> said s' = said s
    \<and> complaints s' = complaints s"
proof -
  let ?h = "(fmem s)(entry14 p \<mapsto> \<lparr>flink = 0, blink = 0\<rparr>)"
  from assms(1) have r: "flist (fmem s) (queue_head s) (map entry14 ts)" "distinct ts"
    "\<forall>t\<in>set ts. entry14 t \<in> dom (fmem s) \<and> entry14 t \<noteq> queue_head s \<and> t \<in> dom (remaining s)
       \<and> plain_calls (the (remaining s t))" by (auto simp: ready_14_def)
  have f: "flist ?h (queue_head s) (map entry14 ts)"
    by (rule flist_local[OF r(1)]) (use assms(2,3) in auto)
  have "entry14 p \<notin> set (queue_head s # map entry14 ts)" using assms(2,3) by auto
  from insert_tail_list_ok[OF f _ this] obtain h where
    h: "insert_tail_list ?h (queue_head s) (entry14 p) = Some h" "flist h (queue_head s) (map entry14 (ts @ [p]))"
    "dom h = insert (entry14 p) (dom (fmem s))" by (auto dest: agree_off_dom)
  let ?s = "s\<lparr>remaining := (remaining s)(p \<mapsto> code f a), fmem := h\<rparr>"
  have "ut_create_14 code s f a p = Inr ?s"
    using h(1) assms(4) by (simp add: ut_create_14_def Let_def)
  moreover have "ready_14 ?s (ts @ [p])"
    using h(2,3) r assms by (auto simp: ready_14_def)
  moreover have "conts ?s (ts @ [p]) = conts s ts @ [code f a]"
    using assms(2) by (auto simp: conts_def)
  ultimately show ?thesis by auto
qed

lemma create_all_ready:
  assumes "ready_14 s ts" "distinct (ts @ map (\<lambda>(f, a, p). p) creates)"
    and "\<forall>(f, a, p)\<in>set creates. entry14 p \<noteq> queue_head s \<and> p \<noteq> MAP_FAILED \<and> plain_calls (code f a)"
  shows "\<exists>s'. create_all code creates s = Inr s' \<and> ready_14 s' (ts @ map (\<lambda>(f, a, p). p) creates)
    \<and> conts s' (ts @ map (\<lambda>(f, a, p). p) creates) = conts s ts @ map (\<lambda>(f, a, p). code f a) creates
    \<and> queue_head s' = queue_head s \<and> said s' = said s \<and> complaints s' = complaints s"
  using assms
proof (induction creates arbitrary: s ts)
  case (Cons x creates)
  obtain f a p where x: "x = (f, a, p)" by (cases x) auto
  have p: "p \<notin> set ts" "entry14 p \<noteq> queue_head s" "p \<noteq> MAP_FAILED" "plain_calls (code f a)"
    using Cons.prems(2,3) x by auto
  obtain s1 where s1: "ut_create_14 code s f a p = Inr s1" "ready_14 s1 (ts @ [p])"
    "conts s1 (ts @ [p]) = conts s ts @ [code f a]" "queue_head s1 = queue_head s" "said s1 = said s"
    "complaints s1 = complaints s"
    using create_ready[OF Cons.prems(1) p(1-3), where code = code and f = f and a = a] p(4) by auto
  from Cons.IH[OF s1(2)] Cons.prems(2,3) s1 x show ?case by auto
qed simp

lemma run_ready:
  assumes "ready_14 s ts" "m \<notin> set ts"
  shows "\<exists>s'. ut_run_14 s m = Inr s' \<and> rep_14 s' ts \<and> conts s' ts = conts s ts \<and> said s' = said s
    \<and> complaints s' = complaints s"
proof -
  let ?s = "s\<lparr>main_desc := m, current := m, remaining := (remaining s)(m \<mapsto> [])\<rparr>"
  have r: "flist (fmem s) (queue_head s) (map entry14 ts)" "distinct ts"
    "\<forall>t\<in>set ts. entry14 t \<in> dom (fmem s) \<and> entry14 t \<noteq> queue_head s \<and> t \<in> dom (remaining s)
       \<and> plain_calls (the (remaining s t))" using assms(1) by (auto simp: ready_14_def)
  from extract_ok[of ?s ts] r(1) obtain h where
    h: "extract_next_ready_thread ?s = Inr (?s\<lparr>fmem := h\<rparr>, case ts of [] \<Rightarrow> m | u # vs \<Rightarrow> u)"
    "flist h (queue_head s) (map entry14 (tl ts))" "dom h = dom (fmem s)" by (cases ts) auto
  let ?n = "case ts of [] \<Rightarrow> m | u # vs \<Rightarrow> u"
  let ?s2 = "?s\<lparr>fmem := h, current := ?n\<rparr>"
  have "remaining ?s ?n \<noteq> None" using r(3) by (cases ts) auto
  then have "ut_run_14 s m = Inr ?s2" using h(1) by (simp add: ut_run_14_def schedule_14_def)
  moreover have "rep_14 ?s2 ts"
    unfolding rep_14_def using h(2,3) r assms(2) by (auto split: list.splits)
  moreover have "conts ?s2 ts = conts s ts" using assms(2) by (auto simp: conts_def)
  ultimately show ?thesis by auto
qed

text \<open>C15: A program on the scheduler of 14 whose threads print and yield: \<open>ut_run\<close> returns after as
  many steps as there are calls and exits, with the ready queue empty, no store or load going
  wrong on the linked queue; what was printed is the round robin of the threads in the order of
  their creation.\<close>

theorem program_14_round_robin:
  assumes "queue_head s \<in> dom (fmem s)" "distinct (map (\<lambda>(f, a, p). p) creates)"
    and "\<forall>(f, a, p)\<in>set creates. entry14 p \<noteq> queue_head s \<and> p \<noteq> MAP_FAILED \<and> p \<noteq> m \<and> plain_calls (code f a)"
    and "work_14 (map (\<lambda>(f, a, p). code f a) creates) \<le> fuel"
  shows "\<exists>s'. program_14 code creates m fuel s = Inr s'
    \<and> said s' = said s @ round_robin (map (\<lambda>(f, a, p). code f a) creates) \<and> flist (fmem s') (queue_head s') []
    \<and> complaints s' = complaints s"
proof -
  from init_ready[OF assms(1)] obtain s1 where
    s1: "ut_init_14 s = Inr s1" "ready_14 s1 []" "queue_head s1 = queue_head s" "said s1 = said s"
    "complaints s1 = complaints s" by blast
  from create_all_ready[OF s1(2), of creates code] assms(2,3) s1(3) obtain s2 where
    s2: "create_all code creates s1 = Inr s2" "ready_14 s2 (map (\<lambda>(f, a, p). p) creates)"
    "conts s2 (map (\<lambda>(f, a, p). p) creates) = map (\<lambda>(f, a, p). code f a) creates" "said s2 = said s1"
    "complaints s2 = complaints s1"
    by (fastforce simp: conts_def)
  have "m \<notin> set (map (\<lambda>(f, a, p). p) creates)" using assms(3) by auto
  from run_ready[OF s2(2) this] obtain s3 where
    s3: "ut_run_14 s2 m = Inr s3" "rep_14 s3 (map (\<lambda>(f, a, p). p) creates)"
    "conts s3 (map (\<lambda>(f, a, p). p) creates) = conts s2 (map (\<lambda>(f, a, p). p) creates)" "said s3 = said s2"
    "complaints s3 = complaints s2" by blast
  from run_14_ok[OF s3(2), of fuel code] assms(4) s2(3) s3(3) obtain s4 where
    s4: "run_14 code fuel s3 = Inr s4" "rep_14 s4 []"
    "said s4 = said s3 @ round_robin (map (\<lambda>(f, a, p). code f a) creates)" "complaints s4 = complaints s3" by auto
  have q: "flist (fmem s4) (queue_head s4) []" using s4(2) by (simp add: rep_14_def)
  then have "ut_end_14 s4 = Inr s4" using is_list_empty_14_ok[OF q] by (simp add: ut_end_14_def)
  then show ?thesis using s1 s2 s3 s4 q by (simp add: program_14_def)
qed

section \<open>test_uthread.c\<close>

definition f1_14 :: "string \<Rightarrow> call list" where
  "f1_14 nm = [Say (nm @ '': step 1''), YieldCall, Say (nm @ '': step 2''), YieldCall, Say (nm @ '': step 3'')]"

definition f2_14 :: "call list" where
  "f2_14 = [Say ''T2: hello world'']"

text \<open>The functions are at 0x401000 and 0x402000, the strings at 0x500000 and 0x500008.\<close>

definition test_code_14 :: "ptr \<Rightarrow> ptr \<Rightarrow> call list" where
  "test_code_14 f a = (if f = 0x401000 then f1_14 (if a = 0x500000 then ''T1'' else ''T3'') else f2_14)"

definition test_creates_14 :: "(ptr \<times> ptr \<times> ptr) list" where
  "test_creates_14 = [(0x401000, 0x500000, 0x10000), (0x402000, 0, 0x20000), (0x401000, 0x500008, 0x30000)]"

definition boot_14 :: scheduler where
  "boot_14 = \<lparr>fmem = [0x600000 \<mapsto> \<lparr>flink = 0, blink = 0\<rparr>], queue_head = 0x600000, current = 0, main_desc = 0,
     remaining = Map.empty, said = [], complaints = []\<rparr>"

lemma program_14_round_robin_witness:
  "\<exists>s'. program_14 test_code_14 test_creates_14 0x7000 14 boot_14 = Inr s'
    \<and> said s' = [''T1: step 1'', ''T2: hello world'', ''T3: step 1'', ''T1: step 2'', ''T3: step 2'',
        ''T1: step 3'', ''T3: step 3''] \<and> complaints s' = []"
proof -
  have code: "map (\<lambda>(f, a, p). test_code_14 f a) test_creates_14 = [f1_14 ''T1'', f2_14, f1_14 ''T3'']"
    by (simp add: test_creates_14_def test_code_14_def)
  have rr: "round_robin [f1_14 ''T1'', f2_14, f1_14 ''T3''] =
    [''T1: step 1'', ''T2: hello world'', ''T3: step 1'', ''T1: step 2'', ''T3: step 2'', ''T1: step 3'', ''T3: step 3'']"
    by (simp add: f1_14_def f2_14_def)
  have p: "\<forall>(f, a, p)\<in>set test_creates_14. entry14 p \<noteq> queue_head boot_14 \<and> p \<noteq> MAP_FAILED \<and> p \<noteq> 0x7000
      \<and> plain_calls (test_code_14 f a)"
    by (simp add: test_creates_14_def test_code_14_def entry14_def boot_14_def MAP_FAILED_def plain_calls_def
        f1_14_def f2_14_def)
  have d: "queue_head boot_14 \<in> dom (fmem boot_14)" "distinct (map (\<lambda>(f, a, p). p) test_creates_14)"
    by (simp_all add: boot_14_def test_creates_14_def)
  have w: "work_14 (map (\<lambda>(f, a, p). test_code_14 f a) test_creates_14) \<le> 14"
    unfolding code by (simp add: work_14_def f1_14_def f2_14_def)
  from program_14_round_robin[OF d p w] show ?thesis
    unfolding code rr by (auto simp: boot_14_def)
qed

end
