(* ===== verification/Counters.thy ===== *)
theory Counters
  imports Prelude
begin

text \<open>
  The counters of 16: threads that increment a shared \<open>int\<close>, without a lock (\<open>pthreads02.c\<close>) and
  with one (\<open>pthreads03.c\<close>). \<open>++counter\<close> is a load and a store; the threads' steps interleave in
  any order. Numbers of threads and iterations are parameters, the programs' are given below.
\<close>

section \<open>Threads\<close>

text \<open>A thread has \<open>todo\<close> iterations left and is somewhere in the current one.\<close>

datatype place = AtTop | Holding | Loaded int | Stored

record counter_state =
  counter :: int
  cnt_lock :: "nat option"
  todo :: "nat list"
  place_of :: "place list"
  overflow :: bool

definition counters_start :: "nat \<Rightarrow> nat \<Rightarrow> counter_state" where
  "counters_start nthreads niterations =
     \<lparr>counter = 0, cnt_lock = None, todo = replicate nthreads niterations, place_of = replicate nthreads AtTop,
      overflow = False\<rparr>"

definition at_place :: "nat \<Rightarrow> place \<Rightarrow> counter_state \<Rightarrow> counter_state" where
  "at_place t p s = s\<lparr>place_of := (place_of s)[t := p]\<rparr>"

definition next_iteration :: "nat \<Rightarrow> counter_state \<Rightarrow> counter_state" where
  "next_iteration t s = s\<lparr>todo := (todo s)[t := todo s ! t - 1], place_of := (place_of s)[t := AtTop]\<rparr>"

definition store_counter :: "int \<Rightarrow> counter_state \<Rightarrow> counter_state" where
  "store_counter v s = (case c_int (v + 1) of Inl e \<Rightarrow> s\<lparr>overflow := True\<rparr> | Inr n \<Rightarrow> s\<lparr>counter := n\<rparr>)"

text \<open>One step of thread \<open>t\<close> of \<open>pthreads02.c\<close>.\<close>

definition thread_func_02 :: "nat \<Rightarrow> counter_state \<Rightarrow> counter_state option" where
  "thread_func_02 t s =
     (if t < length (todo s) \<and> 0 < todo s ! t then
        (case place_of s ! t of
           AtTop \<Rightarrow> Some (at_place t (Loaded (counter s)) s)
         | Loaded v \<Rightarrow> Some (next_iteration t (store_counter v s))
         | _ \<Rightarrow> None)
      else None)"

text \<open>One step of thread \<open>t\<close> of \<open>pthreads03.c\<close>: lock, load, store, unlock.\<close>

definition thread_func_03 :: "nat \<Rightarrow> counter_state \<Rightarrow> counter_state option" where
  "thread_func_03 t s =
     (if t < length (todo s) \<and> 0 < todo s ! t then
        (case place_of s ! t of
           AtTop \<Rightarrow> if cnt_lock s = None then Some (at_place t Holding (s\<lparr>cnt_lock := Some t\<rparr>)) else None
         | Holding \<Rightarrow> Some (at_place t (Loaded (counter s)) s)
         | Loaded v \<Rightarrow> Some (at_place t Stored (store_counter v s))
         | Stored \<Rightarrow> Some (next_iteration t (s\<lparr>cnt_lock := None\<rparr>)))
      else None)"

fun steps :: "(nat \<Rightarrow> counter_state \<Rightarrow> counter_state option) \<Rightarrow> nat list \<Rightarrow> counter_state \<Rightarrow> counter_state option" where
  "steps f [] s = Some s"
| "steps f (t # ts) s = Option.bind (f t s) (steps f ts)"

text \<open>\<open>main\<close> has joined all threads when each has done its iterations; then it prints.\<close>

definition joined :: "counter_state \<Rightarrow> bool" where
  "joined s \<longleftrightarrow> (\<forall>n\<in>set (todo s). n = 0)"

definition NTHREADS_16 :: nat where "NTHREADS_16 = 8"
definition NITERATIONS_02 :: nat where "NITERATIONS_02 = 10000"
definition NITERATIONS_03 :: nat where "NITERATIONS_03 = 200000"

definition main_02 :: "nat list \<Rightarrow> (string \<times> int) list option" where
  "main_02 schedule =
     (case steps thread_func_02 schedule (counters_start NTHREADS_16 NITERATIONS_02) of
        None \<Rightarrow> None
      | Some s \<Rightarrow> if joined s \<and> \<not> overflow s
                  then Some [(''Expected'', int (NTHREADS_16 * NITERATIONS_02)), (''Actual'', counter s)] else None)"

definition main_03 :: "nat list \<Rightarrow> (string \<times> int) list option" where
  "main_03 schedule =
     (case steps thread_func_03 schedule (counters_start NTHREADS_16 NITERATIONS_03) of
        None \<Rightarrow> None
      | Some s \<Rightarrow> if joined s \<and> \<not> overflow s
                  then Some [(''Expected'', int (NTHREADS_16 * NITERATIONS_03)), (''Actual'', counter s)] else None)"

section \<open>What has been done\<close>

definition finished :: "nat \<Rightarrow> counter_state \<Rightarrow> int" where
  "finished goal s = int goal - int (sum_list (todo s))"

lemma sum_list_dec:
  "t < length xs \<Longrightarrow> 0 < xs ! t \<Longrightarrow> Suc (sum_list (xs[t := xs ! t - 1 :: nat])) = sum_list xs"
proof (induction xs arbitrary: t)
  case (Cons x xs)
  then show ?case by (cases t) auto
qed simp

lemma finished_simps [simp]:
  "finished goal (at_place t p s) = finished goal s"
  "finished goal (s\<lparr>cnt_lock := l\<rparr>) = finished goal s"
  "finished goal (store_counter v s) = finished goal s"
  by (auto simp: finished_def at_place_def store_counter_def split: sum.splits)

lemma finished_next:
  "t < length (todo s) \<Longrightarrow> 0 < todo s ! t \<Longrightarrow> finished goal (next_iteration t s) = finished goal s + 1"
  using sum_list_dec[of t "todo s"] by (simp add: finished_def next_iteration_def)

lemma joined_finished: "joined s \<Longrightarrow> finished goal s = int goal"
  by (simp add: joined_def finished_def)

lemma steps_induct [consumes 1, case_names start step]:
  assumes "steps f ts s = Some s'" "P s" "\<And>t s1 s2. P s1 \<Longrightarrow> f t s1 = Some s2 \<Longrightarrow> P s2"
  shows "P s'"
  using assms(1,2) by (induction ts arbitrary: s) (auto split: bind_splits intro: assms(3))

lemma start_finished: "finished (n * k) (counters_start n k) = 0"
  by (simp add: finished_def counters_start_def sum_list_replicate)

section \<open>With the lock\<close>

text \<open>Only the thread that holds the lock is past the top, and the value it has loaded is current.\<close>

definition locked_inv :: "nat \<Rightarrow> counter_state \<Rightarrow> bool" where
  "locked_inv goal s \<longleftrightarrow> length (place_of s) = length (todo s) \<and> int goal \<le> INT_MAX \<and> \<not> overflow s
     \<and> (\<forall>t<length (place_of s). (place_of s ! t \<noteq> AtTop) = (cnt_lock s = Some t))
     \<and> (\<forall>t<length (place_of s). place_of s ! t \<noteq> AtTop \<longrightarrow> 0 < todo s ! t)
     \<and> (case cnt_lock s of
          None \<Rightarrow> counter s = finished goal s
        | Some t \<Rightarrow> t < length (place_of s) \<and>
            (case place_of s ! t of
               AtTop \<Rightarrow> False
             | Holding \<Rightarrow> counter s = finished goal s
             | Loaded v \<Rightarrow> v = finished goal s \<and> counter s = v
             | Stored \<Rightarrow> counter s = finished goal s + 1))"

lemma finished_bounds:
  assumes "t < length (todo s)" "0 < todo s ! t" "int (sum_list (todo s)) \<le> int goal" "int goal \<le> INT_MAX"
  shows "finished goal s < INT_MAX" "0 \<le> finished goal s"
proof -
  have "0 < sum_list (todo s)" using sum_list_dec[OF assms(1,2)] by linarith
  then show "finished goal s < INT_MAX" "0 \<le> finished goal s" using assms(3,4) by (simp_all add: finished_def)
qed

definition within :: "nat \<Rightarrow> counter_state \<Rightarrow> bool" where
  "within goal s \<longleftrightarrow> sum_list (todo s) \<le> goal"

lemma within_step:
  assumes "within goal s" "f = thread_func_02 \<or> f = thread_func_03" "f t s = Some s'"
  shows "within goal s'"
  using assms sum_list_dec[of t "todo s"]
  by (auto simp: within_def thread_func_02_def thread_func_03_def at_place_def next_iteration_def store_counter_def
      split: if_splits place.splits sum.splits)

lemma locked_step:
  assumes "locked_inv goal s" "within goal s" "thread_func_03 t s = Some s'"
  shows "locked_inv goal s'"
proof -
  have t: "t < length (todo s)" "0 < todo s ! t" using assms(3) by (auto simp: thread_func_03_def split: if_splits)
  have b: "finished goal s < INT_MAX" "0 \<le> finished goal s"
    using finished_bounds[OF t] assms(1,2) by (auto simp: locked_inv_def within_def)
  have l: "length (place_of s) = length (todo s)" using assms(1) by (simp add: locked_inv_def)
  show ?thesis
  proof (cases "place_of s ! t")
    case AtTop
    then show ?thesis using assms(1,3) t l
      by (auto simp: thread_func_03_def locked_inv_def at_place_def nth_list_update finished_def split: if_splits)
  next
    case Holding
    then have lk: "cnt_lock s = Some t" using assms(1) t l by (auto simp: locked_inv_def)
    then show ?thesis using assms(1,3) t l Holding
      by (auto simp: thread_func_03_def locked_inv_def at_place_def nth_list_update finished_def split: if_splits)
  next
    case (Loaded v)
    then have lk: "cnt_lock s = Some t" using assms(1) t l by (auto simp: locked_inv_def)
    then have v: "v = finished goal s" using assms(1) Loaded by (auto simp: locked_inv_def)
    then have "in_int (v + 1)" using b by (simp add: c_int_bounds)
    then have "store_counter v s = s\<lparr>counter := v + 1\<rparr>" by (simp add: store_counter_def c_int_def)
    then have s': "s' = at_place t Stored (s\<lparr>counter := v + 1\<rparr>)"
      using assms(3) t Loaded by (simp add: thread_func_03_def)
    have "finished goal s' = finished goal s" by (simp add: s' finished_def at_place_def)
    then show ?thesis using assms(1) t l Loaded lk v
      by (auto simp: s' locked_inv_def at_place_def nth_list_update)
  next
    case Stored
    then have lk: "cnt_lock s = Some t" using assms(1) t l by (auto simp: locked_inv_def)
    then have c: "counter s = finished goal s + 1" using assms(1) Stored by (auto simp: locked_inv_def)
    have s': "s' = next_iteration t (s\<lparr>cnt_lock := None\<rparr>)" using assms(3) t Stored by (simp add: thread_func_03_def)
    have "finished goal s' = finished goal s + 1" using finished_next[of t "s\<lparr>cnt_lock := None\<rparr>" goal] t s' by simp
    then show ?thesis using assms(1) t l lk c Stored
      by (auto simp: s' locked_inv_def next_iteration_def nth_list_update)
  qed
qed

lemma locked_run:
  assumes "steps thread_func_03 ts (counters_start n k) = Some s" "int (n * k) \<le> INT_MAX"
  shows "locked_inv (n * k) s \<and> within (n * k) s"
  using assms(1)
proof (induction rule: steps_induct)
  case start
  show ?case using assms(2) start_finished[of n k]
    by (auto simp: locked_inv_def within_def sum_list_replicate counters_start_def)
next
  case (step t s1 s2)
  then show ?case using locked_step within_step by blast
qed

lemma no_lock_when_done:
  assumes "locked_inv goal s" "joined s"
  shows "cnt_lock s = None"
proof (rule ccontr)
  assume "cnt_lock s \<noteq> None"
  then obtain t where t: "cnt_lock s = Some t" "t < length (place_of s)" using assms(1)
    by (auto simp: locked_inv_def split: option.splits)
  then have "0 < todo s ! t" using assms(1) by (auto simp: locked_inv_def split: place.splits)
  moreover have "todo s ! t \<in> set (todo s)" using t assms(1) by (auto simp: locked_inv_def)
  ultimately show False using assms(2) by (auto simp: joined_def)
qed

text \<open>C39: With the mutex every interleaving that lets the threads finish leaves exactly the number of
  threads times the number of iterations in the counter, for any numbers whose product is an
  \<open>int\<close>, as 1600000 for the program's; there is no overflow, and at most one thread is between
  lock and unlock.\<close>

theorem locked_counter_exact:
  assumes "steps thread_func_03 schedule (counters_start n k) = Some s" "int (n * k) \<le> INT_MAX"
  shows "\<not> overflow s \<and> (joined s \<longrightarrow> counter s = int (n * k))
    \<and> (\<forall>t<length (place_of s). \<forall>u<length (place_of s). place_of s ! t \<noteq> AtTop \<and> place_of s ! u \<noteq> AtTop \<longrightarrow> t = u)"
proof -
  have i: "locked_inv (n * k) s" using locked_run[OF assms] by blast
  have "counter s = int (n * k)" if "joined s"
    using i no_lock_when_done[OF i that] joined_finished[OF that] by (simp add: locked_inv_def)
  then show ?thesis using i by (auto simp: locked_inv_def)
qed

lemma locked_counter_exact_witness:
  "\<exists>s. steps thread_func_03 [1, 1, 1, 1, 0, 0, 0, 0] (counters_start 2 1) = Some s \<and> joined s \<and> counter s = 2"
proof -
  have "\<exists>s. steps thread_func_03 [1, 1, 1, 1, 0, 0, 0, 0] (counters_start 2 1) = Some s \<and> joined s"
    by (simp add: thread_func_03_def counters_start_def at_place_def next_iteration_def store_counter_def c_int_bounds
        c_int_def joined_def numeral_2_eq_2)
  then obtain s where s: "steps thread_func_03 [1, 1, 1, 1, 0, 0, 0, 0] (counters_start 2 1) = Some s" "joined s" by blast
  have "int (2 * 1) \<le> INT_MAX" by (simp add: INT_MAX_def)
  from locked_counter_exact[OF s(1) this] s show ?thesis by auto
qed

section \<open>Without the lock\<close>

definition racing_inv :: "nat \<Rightarrow> counter_state \<Rightarrow> bool" where
  "racing_inv goal s \<longleftrightarrow> length (place_of s) = length (todo s) \<and> int goal \<le> INT_MAX \<and> \<not> overflow s
     \<and> 0 \<le> counter s \<and> counter s \<le> finished goal s \<and> (0 < finished goal s \<longrightarrow> 0 < counter s)
     \<and> (\<forall>t<length (place_of s). \<forall>v. place_of s ! t = Loaded v \<longrightarrow> 0 \<le> v \<and> v \<le> finished goal s)"

lemma racing_step:
  assumes "racing_inv goal s" "within goal s" "thread_func_02 t s = Some s'"
  shows "racing_inv goal s'"
proof -
  have t: "t < length (todo s)" "0 < todo s ! t" using assms(3) by (auto simp: thread_func_02_def split: if_splits)
  have b: "finished goal s < INT_MAX" "0 \<le> finished goal s"
    using finished_bounds[OF t] assms(1,2) by (auto simp: racing_inv_def within_def)
  have l: "length (place_of s) = length (todo s)" using assms(1) by (simp add: racing_inv_def)
  show ?thesis
  proof (cases "place_of s ! t")
    case AtTop
    then have s': "s' = at_place t (Loaded (counter s)) s" using assms(3) t by (simp add: thread_func_02_def)
    have "finished goal s' = finished goal s" by (simp add: s')
    then show ?thesis using assms(1) t l
      by (auto simp: racing_inv_def s' at_place_def nth_list_update split: if_splits)
  next
    case (Loaded v)
    then have v: "0 \<le> v" "v \<le> finished goal s" using assms(1) t l by (auto simp: racing_inv_def)
    then have "in_int (v + 1)" using b by (simp add: c_int_bounds)
    then have c: "store_counter v s = s\<lparr>counter := v + 1\<rparr>" by (simp add: store_counter_def c_int_def)
    have s': "s' = next_iteration t (s\<lparr>counter := v + 1\<rparr>)"
      using assms(3) t Loaded c by (simp add: thread_func_02_def)
    have "finished goal s' = finished goal s + 1"
      using finished_next[of t "s\<lparr>counter := v + 1\<rparr>" goal] t s' by (simp add: finished_def)
    then show ?thesis using assms(1) t l v
      by (fastforce simp: racing_inv_def s' next_iteration_def nth_list_update split: if_splits)
  qed (use assms(3) t in \<open>simp_all add: thread_func_02_def\<close>)
qed

text \<open>Without the mutex the counter of the finished program is between 1 and the expected value,
  and that is all: two threads whose loads both come before their stores lose an increment.\<close>

theorem racing_counter_bounds:
  assumes "steps thread_func_02 schedule (counters_start n k) = Some s" "int (n * k) \<le> INT_MAX" "joined s" "0 < n * k"
  shows "1 \<le> counter s \<and> counter s \<le> int (n * k)
    \<and> steps thread_func_02 [0, 1, 0, 1] (counters_start 2 1) =
        Some \<lparr>counter = 1, cnt_lock = None, todo = [0, 0], place_of = [AtTop, AtTop], overflow = False\<rparr>"
proof -
  have "racing_inv (n * k) s \<and> within (n * k) s"
    using assms(1)
  proof (induction rule: steps_induct)
    case start
    show ?case using assms(2) start_finished[of n k]
      by (auto simp: racing_inv_def within_def sum_list_replicate counters_start_def)
  next
    case (step t s1 s2)
    then show ?case using racing_step within_step by blast
  qed
  then show ?thesis using joined_finished[OF assms(3), of "n * k"] assms(4)
    by (auto simp: racing_inv_def thread_func_02_def counters_start_def at_place_def next_iteration_def store_counter_def
        c_int_bounds c_int_def numeral_2_eq_2 simp del: of_nat_mult)
qed

lemma racing_counter_bounds_witness:
  "\<exists>s. steps thread_func_02 [0, 0, 1, 1] (counters_start 2 1) = Some s \<and> 1 \<le> counter s \<and> counter s \<le> 2"
proof -
  have "\<exists>s. steps thread_func_02 [0, 0, 1, 1] (counters_start 2 1) = Some s \<and> joined s"
    by (simp add: thread_func_02_def counters_start_def at_place_def next_iteration_def store_counter_def c_int_bounds
        c_int_def joined_def numeral_2_eq_2)
  then obtain s where s: "steps thread_func_02 [0, 0, 1, 1] (counters_start 2 1) = Some s" "joined s" by blast
  have "int (2 * 1) \<le> INT_MAX" by (simp add: INT_MAX_def)
  from racing_counter_bounds[OF s(1) this s(2)] s show ?thesis by auto
qed

end
