(* ===== verification/Processes.thy ===== *)
theory Processes
  imports Echo_Ipc
begin

text \<open>
  Processes with descriptors, pipes and buffered standard output, for the programs of 03 and 04:
  a program is the list of what it has left to do, and the kernel runs one call of any process at
  a time. What a process writes to the terminal or to a file is kept per process, because the
  order between processes is up to the scheduler; so the same state is reached on different ways,
  and a search through all states, layer by layer, covers every schedule.
\<close>

section \<open>Programs\<close>

datatype fdesc = Tty | ToFile string | Reads nat | Writes nat

datatype fdx = Fd nat | PipeRd | PipeWr

datatype fmt = Str string | ThePid | TheParent | PidVar | Nfd | Res | ExitStatus | Msg | Val

datatype test = InChild | CallFailed | WIfExited

text \<open>\<open>IfThen\<close> runs its first list when the test holds; \<open>WhileGets\<close> is a loop on \<open>fgets (msg, 256, stdin)\<close>.\<close>

datatype cmd = Printf "fmt list" | Perror1 string | WriteTo fdx string | Dup2 fdx nat | CloseFd fdx | PipeCall
  | ForkCall | ReadMsg fdx nat | IfThen test "cmd list" "cmd list" | WhileGets "cmd list" | ChopMsg | AddVal int
  | SleepCall | ExecProg string | WaitChild | ExitWith int

record locals =
  my_pid :: nat
  my_ppid :: nat
  pid_var :: nat
  pipe_var :: nat
  nfd_var :: int
  res_var :: int
  msg_var :: string
  val_var :: int

text \<open>The stream of standard output is line-buffered when descriptor 1 is a terminal at the first
  output, and fully buffered otherwise; the programs print less than a buffer.\<close>

record uproc =
  ufds :: "(nat \<times> fdesc) list"
  ubuf :: string
  umode :: "bool option"
  uin :: string
  uvars :: locals
  ucode :: "cmd list"
  uexit :: "int option"

record unix =
  procs :: "uproc list"
  pipe_data :: "string list"
  logs :: "(fdesc \<times> string) list list"
  next_pid :: nat

section \<open>Descriptors and streams\<close>

definition nl :: char where "nl = CHR 0x0A"

definition fd_of :: "locals \<Rightarrow> fdx \<Rightarrow> nat" where
  "fd_of v x = (case x of Fd n \<Rightarrow> n | PipeRd \<Rightarrow> pipe_var v | PipeWr \<Rightarrow> pipe_var v + 1)"

text \<open>\<open>getppid\<close>: a process whose parent has ended is a child of \<open>init\<close>, number 1; the shell does not end.\<close>

definition getppid :: "uproc list \<Rightarrow> locals \<Rightarrow> nat" where
  "getppid ps v = (if list_ex (\<lambda>p. my_pid (uvars p) = my_ppid v \<and> uexit p \<noteq> None) ps then 1 else my_ppid v)"

definition show_fmt :: "uproc list \<Rightarrow> locals \<Rightarrow> fmt \<Rightarrow> string" where
  "show_fmt ps v f =
     (case f of
        Str x \<Rightarrow> x
      | ThePid \<Rightarrow> show_nat (my_pid v)
      | TheParent \<Rightarrow> show_nat (getppid ps v)
      | PidVar \<Rightarrow> show_nat (pid_var v)
      | Nfd \<Rightarrow> show_int (nfd_var v)
      | Res \<Rightarrow> show_int (res_var v)
      | ExitStatus \<Rightarrow> show_int (res_var v div 256 mod 256)
      | Msg \<Rightarrow> takeWhile (\<lambda>c. c \<noteq> CHR 0x00) (msg_var v)
      | Val \<Rightarrow> show_int (val_var v))"

definition holds :: "locals \<Rightarrow> test \<Rightarrow> bool" where
  "holds v t = (case t of InChild \<Rightarrow> pid_var v = 0 | CallFailed \<Rightarrow> res_var v = - 1 | WIfExited \<Rightarrow> res_var v mod 128 = 0)"

definition has_end :: "fdesc \<Rightarrow> uproc list \<Rightarrow> bool" where
  "has_end d ps = list_ex (\<lambda>p. list_ex (\<lambda>(fd, e). e = d) (ufds p)) ps"

definition set_proc :: "nat \<Rightarrow> uproc \<Rightarrow> unix \<Rightarrow> unix" where
  "set_proc i p s = s\<lparr>procs := (procs s)[i := p]\<rparr>"

text \<open>The end of a process, with the status that \<open>waitpid\<close> gives.\<close>

definition finish :: "nat \<Rightarrow> int \<Rightarrow> unix \<Rightarrow> unix" where
  "finish i status s =
     set_proc i ((procs s ! i)\<lparr>ufds := [], ubuf := [], ucode := [], uexit := Some status\<rparr>) s"

text \<open>\<open>write\<close> of process \<open>i\<close>; a write to a pipe that nobody can read ends the process by
  SIGPIPE, number 13. The pipes never hold more than they can.\<close>

definition write_fd :: "nat \<Rightarrow> nat \<Rightarrow> string \<Rightarrow> unix \<Rightarrow> unix" where
  "write_fd i fd x s =
     (case map_of (ufds (procs s ! i)) fd of
        None \<Rightarrow> s
      | Some (Reads k) \<Rightarrow> s
      | Some (Writes k) \<Rightarrow>
          if has_end (Reads k) (procs s) then s\<lparr>pipe_data := (pipe_data s)[k := pipe_data s ! k @ x]\<rparr>
          else finish i 13 s
      | Some d \<Rightarrow> s\<lparr>logs := (logs s)[i := logs s ! i @ [(d, x)]]\<rparr>)"

definition write_result :: "nat \<Rightarrow> nat \<Rightarrow> string \<Rightarrow> unix \<Rightarrow> int" where
  "write_result i fd x s =
     (case map_of (ufds (procs s ! i)) fd of None \<Rightarrow> - 1 | Some (Reads k) \<Rightarrow> - 1 | Some d \<Rightarrow> int (length x))"

definition flush :: "nat \<Rightarrow> string \<Rightarrow> unix \<Rightarrow> unix" where
  "flush i x s = (if x = [] then s else write_fd i 1 x s)"

definition put_out :: "nat \<Rightarrow> string \<Rightarrow> unix \<Rightarrow> unix" where
  "put_out i x s =
     (let p = procs s ! i;
          m = (case umode p of Some m \<Rightarrow> m | None \<Rightarrow> map_of (ufds p) 1 = Some Tty);
          buf = ubuf p @ x;
          part = (if m then rev (takeWhile (\<lambda>c. c \<noteq> nl) (rev buf)) else buf);
          front = (if m then rev (dropWhile (\<lambda>c. c \<noteq> nl) (rev buf)) else []) in
      flush i front (set_proc i (p\<lparr>ubuf := part, umode := Some m\<rparr>) s))"

definition exit_proc :: "nat \<Rightarrow> int \<Rightarrow> unix \<Rightarrow> unix" where
  "exit_proc i code s =
     (let s1 = flush i (ubuf (procs s ! i)) s in
      if uexit (procs s1 ! i) = None then finish i (256 * (code mod 256)) s1 else s1)"

section \<open>Steps\<close>

definition fork :: "nat \<Rightarrow> uproc \<Rightarrow> unix \<Rightarrow> unix" where
  "fork i p s =
     (let n = next_pid s;
          parent = p\<lparr>uvars := (uvars p)\<lparr>pid_var := n\<rparr>\<rparr>;
          child = p\<lparr>uvars := (uvars p)\<lparr>pid_var := 0, my_pid := n, my_ppid := my_pid (uvars p)\<rparr>\<rparr> in
      s\<lparr>procs := (procs s)[i := parent] @ [child], logs := logs s @ [[]], next_pid := n + 1\<rparr>)"

text \<open>A read takes what there is; with nothing in the pipe it waits as long as someone can write.\<close>

definition read_msg :: "nat \<Rightarrow> uproc \<Rightarrow> nat \<Rightarrow> nat \<Rightarrow> unix \<Rightarrow> unix option" where
  "read_msg i p fd n s =
     (case map_of (ufds p) fd of
        Some (Reads k) \<Rightarrow>
          (let x = pipe_data s ! k in
           if x \<noteq> [] then
             Some (set_proc i (p\<lparr>uvars := (uvars p)\<lparr>msg_var := take n x, res_var := int (length (take n x))\<rparr>\<rparr>)
                     (s\<lparr>pipe_data := (pipe_data s)[k := drop n x]\<rparr>))
           else if has_end (Writes k) (procs s) then None
           else Some (set_proc i (p\<lparr>uvars := (uvars p)\<lparr>res_var := 0\<rparr>\<rparr>) s))
      | _ \<Rightarrow> None)"

text \<open>\<open>p\<close> is the process with the loop taken off its code; a line is at most 255 characters.\<close>

definition gets_loop :: "nat \<Rightarrow> uproc \<Rightarrow> cmd list \<Rightarrow> unix \<Rightarrow> unix option" where
  "gets_loop i p body s =
     (let x = takeWhile (\<lambda>c. c \<noteq> nl) (uin p);
          line = (if length x < length (uin p) then take 255 (x @ [nl]) else take 255 x);
          again = (\<lambda>l. p\<lparr>uvars := (uvars p)\<lparr>msg_var := l\<rparr>, uin := drop (length l) (uin p),
                         ucode := body @ WhileGets body # ucode p\<rparr>) in
      if length x < length (uin p) \<or> 255 \<le> length (uin p) then Some (set_proc i (again line) s)
      else (case map_of (ufds p) 0 of
          Some (Reads k) \<Rightarrow>
            if pipe_data s ! k \<noteq> [] then
              Some (set_proc i (p\<lparr>uin := uin p @ pipe_data s ! k, ucode := WhileGets body # ucode p\<rparr>)
                      (s\<lparr>pipe_data := (pipe_data s)[k := []]\<rparr>))
            else if has_end (Writes k) (procs s) then None
            else if uin p = [] then Some (set_proc i p s)
            else Some (set_proc i (again line) s)
        | _ \<Rightarrow> None))"

definition exec_prog :: "(string \<rightharpoonup> cmd list) \<Rightarrow> nat \<Rightarrow> uproc \<Rightarrow> string \<Rightarrow> unix \<Rightarrow> unix" where
  "exec_prog progs i p name s =
     (case progs name of
        None \<Rightarrow> set_proc i p s
      | Some code \<Rightarrow> set_proc i (p\<lparr>ubuf := [], umode := None, uin := [], ucode := code\<rparr>) s)"

definition child_status :: "nat \<Rightarrow> unix \<Rightarrow> int option" where
  "child_status pid s =
     (case filter (\<lambda>p. my_pid (uvars p) = pid) (procs s) of [] \<Rightarrow> None | p # ps \<Rightarrow> uexit p)"

text \<open>One call of process \<open>i\<close>; \<open>pipe\<close> is called with 3 and 4 free. \<open>None\<close> when it has ended or must wait.\<close>

definition proc_step :: "(string \<rightharpoonup> cmd list) \<Rightarrow> nat \<Rightarrow> unix \<Rightarrow> unix option" where
  "proc_step progs i s =
     (if length (procs s) \<le> i then None
      else (case ucode (procs s ! i) of
          [] \<Rightarrow> None
        | c # cs \<Rightarrow>
            (let p = (procs s ! i)\<lparr>ucode := cs\<rparr>; v = uvars p; s1 = set_proc i p s in
             case c of
               Printf fs \<Rightarrow> Some (put_out i (concat (map (show_fmt (procs s) v) fs)) s1)
             | Perror1 x \<Rightarrow> Some (write_fd i 2 x s1)
             | WriteTo x t \<Rightarrow>
                 (let r = write_result i (fd_of v x) t s; s2 = write_fd i (fd_of v x) t s1 in
                  Some (set_proc i ((procs s2 ! i)\<lparr>uvars := v\<lparr>res_var := r\<rparr>\<rparr>) s2))
             | Dup2 x n \<Rightarrow>
                 (case map_of (ufds p) (fd_of v x) of
                    None \<Rightarrow> Some (set_proc i (p\<lparr>uvars := v\<lparr>nfd_var := - 1\<rparr>\<rparr>) s)
                  | Some d \<Rightarrow>
                      Some (set_proc i (p\<lparr>ufds := (n, d) # filter (\<lambda>(fd, e). fd \<noteq> n) (ufds p),
                                          uvars := v\<lparr>nfd_var := int n\<rparr>\<rparr>) s))
             | CloseFd x \<Rightarrow> Some (set_proc i (p\<lparr>ufds := filter (\<lambda>(fd, e). fd \<noteq> fd_of v x) (ufds p)\<rparr>) s)
             | PipeCall \<Rightarrow>
                 (let k = length (pipe_data s) in
                  Some (set_proc i (p\<lparr>ufds := (3, Reads k) # (4, Writes k) # ufds p, uvars := v\<lparr>pipe_var := 3\<rparr>\<rparr>)
                          (s\<lparr>pipe_data := pipe_data s @ [[]]\<rparr>)))
             | ForkCall \<Rightarrow> Some (fork i p s)
             | ReadMsg x n \<Rightarrow> read_msg i p (fd_of v x) n s
             | IfThen t as bs \<Rightarrow> Some (set_proc i (p\<lparr>ucode := (if holds v t then as else bs) @ cs\<rparr>) s)
             | WhileGets body \<Rightarrow> gets_loop i p body s
             | ChopMsg \<Rightarrow>
                 (let m = msg_var v in
                  Some (set_proc i (p\<lparr>uvars := v\<lparr>msg_var := (if m \<noteq> [] \<and> last m = nl then butlast m else m)\<rparr>\<rparr>) s))
             | AddVal n \<Rightarrow> Some (set_proc i (p\<lparr>uvars := v\<lparr>val_var := val_var v + n\<rparr>\<rparr>) s)
             | SleepCall \<Rightarrow> Some s1
             | ExecProg name \<Rightarrow> Some (exec_prog progs i p name s)
             | WaitChild \<Rightarrow>
                 map_option (\<lambda>st. set_proc i (p\<lparr>uvars := v\<lparr>res_var := st\<rparr>\<rparr>) s) (child_status (pid_var v) s)
             | ExitWith n \<Rightarrow> Some (exit_proc i n s1))))"

fun run_procs :: "(string \<rightharpoonup> cmd list) \<Rightarrow> nat list \<Rightarrow> unix \<Rightarrow> unix option" where
  "run_procs progs [] s = Some s"
| "run_procs progs (i # is) s = Option.bind (proc_step progs i s) (run_procs progs is)"

text \<open>A shell with pid \<open>sh\<close> starts a program with pid \<open>n\<close>, standard output \<open>out\<close> and further
  descriptors \<open>extra\<close>.\<close>

definition shell_start :: "nat \<Rightarrow> nat \<Rightarrow> fdesc \<Rightarrow> (nat \<times> fdesc) list \<Rightarrow> cmd list \<Rightarrow> unix" where
  "shell_start sh n out extra code =
     \<lparr>procs = [\<lparr>ufds = (0, Tty) # (1, out) # (2, Tty) # extra, ubuf = [], umode = None, uin = [],
        uvars = \<lparr>my_pid = n, my_ppid = sh, pid_var = 0, pipe_var = 0, nfd_var = 0, res_var = 0, msg_var = [], val_var = 88\<rparr>,
        ucode = code, uexit = None\<rparr>],
      pipe_data = [], logs = [[]], next_pid = n + 1\<rparr>"

section \<open>A process has its own memory\<close>

definition logs_ok :: "unix \<Rightarrow> bool" where
  "logs_ok s \<longleftrightarrow> length (logs s) = length (procs s)"

text \<open>The states of the others and what they have written.\<close>

definition keeps :: "nat \<Rightarrow> unix \<Rightarrow> unix \<Rightarrow> bool" where
  "keeps j s t \<longleftrightarrow> length (procs s) \<le> length (procs t)
     \<and> (\<forall>i<length (procs s). i \<noteq> j \<longrightarrow> procs t ! i = procs s ! i \<and> logs t ! i = logs s ! i) \<and> (logs_ok s \<longrightarrow> logs_ok t)"

lemma keeps_refl [frame]: "keeps j s s"
  by (simp add: keeps_def)

lemma keeps_trans: "keeps j s t \<Longrightarrow> keeps j t u \<Longrightarrow> keeps j s u"
  by (auto simp: keeps_def)

lemma keeps_set_proc [frame]: "keeps j s t \<Longrightarrow> keeps j s (set_proc j p t)"
  by (auto simp: keeps_def set_proc_def logs_ok_def)

lemma keeps_pipes [frame]: "keeps j s t \<Longrightarrow> keeps j s (t\<lparr>pipe_data := d\<rparr>)"
  by (auto simp: keeps_def logs_ok_def)

lemma keeps_finish [frame]: "keeps j s t \<Longrightarrow> keeps j s (finish j st t)"
  by (simp add: finish_def keeps_set_proc)

lemma keeps_write [frame]: "keeps j s t \<Longrightarrow> keeps j s (write_fd j fd x t)"
  by (auto simp: write_fd_def keeps_pipes keeps_finish split: option.splits fdesc.splits)
     (auto simp: keeps_def logs_ok_def)

lemma keeps_flush [frame]: "keeps j s t \<Longrightarrow> keeps j s (flush j x t)"
  by (simp add: flush_def keeps_write)

lemma keeps_fork: "logs_ok s \<Longrightarrow> keeps j s (fork j p s)"
  by (auto simp: fork_def keeps_def logs_ok_def Let_def nth_append)

lemma keeps_put_out [frame]: "keeps j s t \<Longrightarrow> keeps j s (put_out j x t)"
  unfolding put_out_def Let_def by (intro frame)

lemma keeps_exit [frame]: "keeps j s t \<Longrightarrow> keeps j s (exit_proc j n t)"
  by (simp add: exit_proc_def Let_def keeps_finish keeps_flush)

text \<open>A call of one process, whatever program it runs, changes neither the memory, the
  descriptors or the buffers of another process nor what that one has written; the processes
  meet only in pipes, in \<open>waitpid\<close>, and in the number \<open>getppid\<close> gives.\<close>

theorem process_isolation:
  assumes "proc_step progs j s = Some t" "i < length (procs s)" "i \<noteq> j" "logs_ok s"
  shows "procs t ! i = procs s ! i \<and> logs t ! i = logs s ! i \<and> logs_ok t"
proof -
  have "keeps j s t"
    using assms(1)
    by (auto simp: proc_step_def read_msg_def gets_loop_def exec_prog_def Let_def
        intro!: keeps_refl keeps_set_proc intro: frame keeps_fork[OF assms(4)]
        split: if_splits list.splits cmd.splits option.splits fdesc.splits prod.splits)
  then show ?thesis using assms(2-4) by (simp add: keeps_def)
qed

lemma process_isolation_witness:
  "\<exists>s t. proc_step Map.empty 0 s = Some t \<and> length (procs s) = 2 \<and> procs t ! 0 \<noteq> procs s ! 0
    \<and> procs t ! 1 = procs s ! 1 \<and> logs t ! 1 = logs s ! 1"
proof -
  let ?s = "the (proc_step Map.empty 0 (shell_start 2 7 Tty [] [ForkCall, AddVal 5]))"
  obtain t where t: "proc_step Map.empty 0 ?s = Some t" "procs t ! 0 \<noteq> procs ?s ! 0"
    by (simp add: proc_step_def shell_start_def fork_def set_proc_def)
  have "length (procs ?s) = 2" "logs_ok ?s"
    by (simp_all add: proc_step_def shell_start_def fork_def logs_ok_def)
  then show ?thesis using process_isolation[OF t(1), of 1] t by auto
qed

section \<open>All schedules\<close>

text \<open>The states after any one step from the states of a list, and a search through all of them:
  every schedule has fewer than \<open>n\<close> steps, and where nobody can step \<open>P\<close> holds.\<close>

definition succs :: "(string \<rightharpoonup> cmd list) \<Rightarrow> unix \<Rightarrow> unix list" where
  "succs progs s = List.map_filter (\<lambda>i. proc_step progs i s) [0..<length (procs s)]"

definition stuck :: "(string \<rightharpoonup> cmd list) \<Rightarrow> unix \<Rightarrow> bool" where
  "stuck progs s \<longleftrightarrow> (\<forall>i. proc_step progs i s = None)"

fun all_end :: "(string \<rightharpoonup> cmd list) \<Rightarrow> nat \<Rightarrow> (unix \<Rightarrow> bool) \<Rightarrow> unix list \<Rightarrow> bool" where
  "all_end progs 0 P ss \<longleftrightarrow> ss = []"
| "all_end progs (Suc n) P ss \<longleftrightarrow>
     (let sts = map (\<lambda>s. (s, succs progs s)) ss in
      list_all (\<lambda>(s, ts). case ts of [] \<Rightarrow> P s | t # us \<Rightarrow> True) sts \<and> all_end progs n P (remdups (concat (map snd sts))))"

lemma succs_iff: "t \<in> set (succs progs s) \<longleftrightarrow> (\<exists>i. proc_step progs i s = Some t)"
proof -
  have "i < length (procs s)" if "proc_step progs i s = Some t" for i
    using that by (auto simp: proc_step_def split: if_splits)
  then show ?thesis by (force simp: succs_def List.map_filter_def)
qed

lemma stuck_iff [code]: "stuck progs s \<longleftrightarrow> succs progs s = []"
proof
  assume "stuck progs s"
  then have "t \<notin> set (succs progs s)" for t by (simp add: succs_iff stuck_def)
  then show "succs progs s = []" by (cases "succs progs s") auto
next
  assume "succs progs s = []"
  then have "\<not> (\<exists>i. proc_step progs i s = Some t)" for t using succs_iff[of t progs s] by simp
  then show "stuck progs s" by (auto simp: stuck_def not_Some_eq[symmetric])
qed

theorem every_schedule:
  assumes "all_end progs n P ss" "s \<in> set ss" "run_procs progs ws s = Some t"
  shows "length ws < n \<and> (stuck progs t \<longrightarrow> P t)"
  using assms
proof (induction n arbitrary: ss s ws)
  case (Suc n)
  have P: "P s" if "succs progs s = []" using Suc.prems(1,2) that by (auto simp: list_all_iff)
  have nxt: "all_end progs n P (remdups (concat (map (succs progs) ss)))"
    using Suc.prems(1) by (simp add: comp_def)
  show ?case
  proof (cases ws)
    case Nil
    then show ?thesis using Suc.prems(3) P by (simp add: stuck_iff)
  next
    case (Cons i js)
    then obtain s1 where s1: "proc_step progs i s = Some s1" "run_procs progs js s1 = Some t"
      using Suc.prems(3) by (auto split: bind_splits)
    have "s1 \<in> set (remdups (concat (map (succs progs) ss)))"
      using Suc.prems(2) s1(1) succs_iff[of s1 progs s] by auto
    from Suc.IH[OF nxt this s1(2)] show ?thesis using Cons by simp
  qed
qed simp

text \<open>A schedule that runs to the end exists, whatever has been run already.\<close>

lemma some_run_ends:
  assumes "all_end progs n P ss" "s \<in> set ss"
  shows "\<exists>ws t. run_procs progs ws s = Some t \<and> stuck progs t"
  using assms
proof (induction n arbitrary: ss s)
  case (Suc n)
  show ?case
  proof (cases "succs progs s")
    case Nil
    then show ?thesis by (intro exI[of _ "[]"] exI[of _ s]) (simp add: stuck_iff)
  next
    case (Cons t us)
    have nxt: "all_end progs n P (remdups (concat (map (succs progs) ss)))" using Suc.prems(1) by (simp add: comp_def)
    have "t \<in> set (remdups (concat (map (succs progs) ss)))" using Suc.prems(2) Cons by force
    from Suc.IH[OF nxt this] obtain ws u where "run_procs progs ws t = Some u" "stuck progs u" by blast
    moreover obtain i where "proc_step progs i s = Some t" using succs_iff[of t progs s] Cons by auto
    ultimately show ?thesis by (intro exI[of _ "i # ws"] exI[of _ u]) simp
  qed
qed simp

text \<open>For evaluation: digits without arithmetic on characters.\<close>

lemma show_nat_code [code]:
  "show_nat n = (if n < 10 then [''0123456789'' ! n] else show_nat (n div 10) @ [''0123456789'' ! (n mod 10)])"
proof -
  have "[char_of (48 + k)] = [''0123456789'' ! k]" if "k < 10" for k :: nat
  proof -
    have "k \<in> {0, 1, 2, 3, 4, 5, 6, 7, 8, 9}" using that by auto
    then show ?thesis by (elim insertE emptyE; hypsubst; code_simp)
  qed
  from this[of n] this[of "n mod 10"] show ?thesis by (subst show_nat.simps) simp
qed

end
