(* ===== verification/Process_Programs.thy ===== *)
theory Process_Programs
  imports Processes
begin

text \<open>
  The programs of 03 and 04 on processes, and what they do under every schedule: which lines
  each process prints, that the pipe programs end, and what \<open>fork\<close> and \<open>execlp\<close> do with output that is
  still in a buffer.
\<close>

section \<open>03: descriptors, fork and exec\<close>

definition line :: "string \<Rightarrow> fmt" where "line x = Str (x @ [nl])"

definition prog1 :: "cmd list" where
  "prog1 =
     [WriteTo (Fd 1) (''prog1 running'' @ [nl]),
      WriteTo (Fd 3) (''Hello, world!'' @ [nl]),
      IfThen CallFailed [Perror1 ''write failed''] [Printf [line ''prog1 successful'']],
      ExitWith 0]"

text \<open>\<open>prog2.c\<close> of 03, and of 04 where it returns 188.\<close>

definition prog2_code :: "int \<Rightarrow> cmd list" where
  "prog2_code code =
     [WriteTo (Fd 1) (''prog2 running'' @ [nl]),
      Dup2 (Fd 1) 88,
      Printf [Str ''nfd: '', Nfd, Str [nl]],
      WriteTo (Fd 88) (''Hello, world!'' @ [nl]),
      IfThen CallFailed [Perror1 ''write failed''] [Printf [line ''prog2 successful'']],
      ExitWith code]"

definition prog2 :: "cmd list" where "prog2 = prog2_code 0"

definition prog2_04 :: "cmd list" where "prog2_04 = prog2_code 188"

definition child_line :: "cmd" where
  "child_line = Printf [Str ''CHILD: pid='', ThePid, Str ''; ppid='', TheParent, Str [nl]]"

definition parent_line :: "cmd" where
  "parent_line = Printf [Str ''PARENT: pid='', ThePid, Str ''; child='', PidVar, Str [nl]]"

text \<open>The first lines of the programs that fork.\<close>

definition fork_intro :: "string \<Rightarrow> cmd list" where
  "fork_intro nm =
     [Printf [line (nm @ '' running'')],
      Printf [Str ''PARENT: pid='', ThePid, Str [nl]],
      Printf [line ''PARENT: fork''],
      ForkCall]"

definition prog3 :: "cmd list" where
  "prog3 = fork_intro ''prog3'' @
     [IfThen InChild [child_line] [parent_line],
      Printf [line ''SOME MESSAGE''],
      ExitWith 0]"

definition prog4 :: "cmd list" where
  "prog4 = fork_intro ''prog4'' @
     [IfThen InChild [child_line, AddVal 1000] [parent_line],
      Printf [line ''SOME MESSAGE'']] @
     concat (replicate 10 [Printf [Str ''['', ThePid, Str ''] value at & is '', Val, Str [nl]], AddVal 1, SleepCall]) @
     [ExitWith 0]"

definition prog5 :: "cmd list" where
  "prog5 = fork_intro ''prog5'' @
     [IfThen InChild
        [child_line, Printf [line ''CHILD: exec''], ExecProg ''./prog2'', Printf [line ''SHOULD NEVER GET HERE!'']]
        [parent_line],
      Printf [line ''SOME MESSAGE''],
      ExitWith 0]"

section \<open>04: waiting and pipes\<close>

definition wait_report :: "cmd list" where
  "wait_report =
     [WaitChild,
      Printf [Str ''PARENT: child process '', PidVar, Str '' terminated with '', Res, Str [nl]],
      IfThen WIfExited [Printf [Str ''PARENT: child returned '', ExitStatus, Str [nl]]]
        [Printf [line ''PARENT: child terminated abnormally'']]]"

definition prog5_04 :: "cmd list" where
  "prog5_04 = fork_intro ''prog5'' @
     [IfThen InChild
        [child_line, Printf [line ''CHILD: exec''], ExecProg ''./prog2'', Printf [line ''SHOULD NEVER GET HERE!'']]
        ([parent_line, ExitWith 1] @ wait_report),
      Printf [line ''SOME MESSAGE''],
      ExitWith 0]"

text \<open>The pipe programs make the pipe before they announce the fork.\<close>

definition pipe_intro :: "string \<Rightarrow> cmd list" where
  "pipe_intro nm =
     [Printf [line (nm @ '' running'')],
      Printf [Str ''PARENT: pid='', ThePid, Str [nl]],
      PipeCall,
      Printf [line ''PARENT: fork''],
      ForkCall]"

definition pipe1 :: "cmd list" where
  "pipe1 = pipe_intro ''pipe1'' @
     [IfThen InChild
        [child_line, CloseFd PipeRd, SleepCall, WriteTo PipeWr (''Hello, parent!'' @ [CHR 0x00])]
        ([parent_line, CloseFd PipeWr, Printf [line ''PARENT: waiting for message from child''],
          ReadMsg PipeRd 15,
          Printf [Str ''PARENT: child sent message '', Str [CHR 0x22], Msg, Str [CHR 0x22, nl]]] @ wait_report),
      ExitWith 0]"

definition pipe2 :: "cmd list" where
  "pipe2 = pipe_intro ''pipe2'' @
     [IfThen InChild
        [child_line, CloseFd PipeRd, Dup2 PipeWr 1, CloseFd PipeWr, Printf [line ''Hello, parent!'']]
        ([parent_line, CloseFd PipeWr, Dup2 PipeRd 0, CloseFd PipeRd,
          Printf [line ''PARENT: waiting for messages from child''],
          WhileGets [ChopMsg, Printf [Str ''PARENT: child sent message '', Str [CHR 0x22], Msg, Str [CHR 0x22, nl]]]] @
         wait_report),
      ExitWith 0]"

section \<open>What they do\<close>

text \<open>The programs in the directories, and a start from a shell with pid 2 as process 7.\<close>

definition dir_03 :: "string \<rightharpoonup> cmd list" where
  "dir_03 name = (if name = ''./prog2'' then Some prog2 else None)"

definition dir_04 :: "string \<rightharpoonup> cmd list" where
  "dir_04 name = (if name = ''./prog2'' then Some prog2_04 else None)"

definition start7 :: "fdesc \<Rightarrow> cmd list \<Rightarrow> unix" where
  "start7 out code = shell_start 2 7 out [] code"

definition said_by :: "unix \<Rightarrow> nat \<Rightarrow> string list" where
  "said_by s i = map snd (logs s ! i)"

definition exited :: "unix \<Rightarrow> int list \<Rightarrow> bool" where
  "exited s codes \<longleftrightarrow> map uexit (procs s) = map (\<lambda>c. Some (256 * c)) codes"

definition quoted :: "string \<Rightarrow> string" where
  "quoted x = [CHR 0x22] @ x @ [CHR 0x22]"

definition lines :: "string list \<Rightarrow> string list" where
  "lines xs = map (\<lambda>x. x @ [nl]) xs"

definition pipe1_end :: "unix \<Rightarrow> bool" where
  "pipe1_end s \<longleftrightarrow> exited s [0, 0]
     \<and> said_by s 0 = lines [''pipe1 running'', ''PARENT: pid=7'', ''PARENT: fork'', ''PARENT: pid=7; child=8'',
          ''PARENT: waiting for message from child'', ''PARENT: child sent message '' @ quoted ''Hello, parent!'',
          ''PARENT: child process 8 terminated with 0'', ''PARENT: child returned 0'']
     \<and> said_by s 1 = lines [''CHILD: pid=8; ppid=7'']"

lemma pipe1_search: "all_end dir_04 24 pipe1_end [start7 Tty pipe1]"
  by code_simp

text \<open>\<open>pipe1.c\<close> under every schedule of its two processes: it ends, within 23 calls, nobody waits
  for ever, and the parent has printed the child's message and its status.\<close>

theorem pipe1_every_schedule:
  assumes "run_procs dir_04 ws (start7 Tty pipe1) = Some t"
  shows "length ws < 24 \<and> (stuck dir_04 t \<longrightarrow> pipe1_end t)"
  by (rule every_schedule[OF pipe1_search _ assms]) simp

text \<open>\<open>pipe2.c\<close> on a terminal: the loop over the lines ends because both processes have closed the
  write end they do not use.\<close>

definition pipe2_end :: "unix \<Rightarrow> bool" where
  "pipe2_end s \<longleftrightarrow> exited s [0, 0]
     \<and> said_by s 0 = lines [''pipe2 running'', ''PARENT: pid=7'', ''PARENT: fork'', ''PARENT: pid=7; child=8'',
          ''PARENT: waiting for messages from child'', ''PARENT: child sent message '' @ quoted ''Hello, parent!'',
          ''PARENT: child process 8 terminated with 0'', ''PARENT: child returned 0'']
     \<and> said_by s 1 = lines [''CHILD: pid=8; ppid=7'']"

lemma pipe2_search: "all_end dir_04 30 pipe2_end [start7 Tty pipe2]"
  by code_simp

text \<open>With its output in a file the stream is not line-buffered: what the parent printed before
  \<open>fork\<close> is in the child's buffer too and comes back through the pipe with the child's own line and
  its message.\<close>

definition pipe2_file_end :: "unix \<Rightarrow> bool" where
  "pipe2_file_end s \<longleftrightarrow> exited s [0, 0] \<and> said_by s 1 = []
     \<and> said_by s 0 = [concat (lines ([''pipe2 running'', ''PARENT: pid=7'', ''PARENT: fork'', ''PARENT: pid=7; child=8'',
          ''PARENT: waiting for messages from child''] @
          map (\<lambda>x. ''PARENT: child sent message '' @ quoted x)
            [''pipe2 running'', ''PARENT: pid=7'', ''PARENT: fork'', ''CHILD: pid=8; ppid=7'', ''Hello, parent!''] @
          [''PARENT: child process 8 terminated with 0'', ''PARENT: child returned 0'']))]"

lemma pipe2_file_search: "all_end dir_04 42 pipe2_file_end [start7 (ToFile ''out.txt'') pipe2]"
  by code_simp

text \<open>C30: \<open>pipe2.c\<close> under every schedule: both processes end, after at most 29 calls on a terminal and
  41 into a file, and neither ever waits for ever. On a terminal the parent reports the one
  message of the child; into a file it reports five, four of which the child never meant to send.\<close>

theorem pipe2_every_schedule:
  assumes "run_procs dir_04 ws (start7 Tty pipe2) = Some t"
    and "run_procs dir_04 ws2 (start7 (ToFile ''out.txt'') pipe2) = Some t2"
  shows "length ws < 30 \<and> (stuck dir_04 t \<longrightarrow> pipe2_end t)
    \<and> length ws2 < 42 \<and> (stuck dir_04 t2 \<longrightarrow> pipe2_file_end t2)"
  using every_schedule[OF pipe2_search _ assms(1)] every_schedule[OF pipe2_file_search _ assms(2)] by simp

lemma pipe2_every_schedule_witness:
  "\<exists>ws t ws2 t2. run_procs dir_04 ws (start7 Tty pipe2) = Some t \<and> pipe2_end t
    \<and> run_procs dir_04 ws2 (start7 (ToFile ''out.txt'') pipe2) = Some t2 \<and> pipe2_file_end t2"
proof -
  obtain ws t where a: "run_procs dir_04 ws (start7 Tty pipe2) = Some t" "stuck dir_04 t"
    using some_run_ends[OF pipe2_search] by auto
  obtain ws2 t2 where b: "run_procs dir_04 ws2 (start7 (ToFile ''out.txt'') pipe2) = Some t2" "stuck dir_04 t2"
    using some_run_ends[OF pipe2_file_search] by auto
  from pipe2_every_schedule[OF a(1) b(1)] a b show ?thesis by blast
qed

text \<open>\<open>fork\<close> and \<open>execlp\<close>: \<open>prog3.c\<close> says everything before the fork twice when its output is a file, and
  \<open>prog5.c\<close> then loses all that the child had printed before it became \<open>prog2\<close>. The number of the
  parent is 1 in a child that prints after its parent's end.\<close>

definition intro_lines :: "string \<Rightarrow> string list" where
  "intro_lines nm = [nm @ '' running'', ''PARENT: pid=7'', ''PARENT: fork'']"

definition prog3_end :: "unix \<Rightarrow> bool" where
  "prog3_end s \<longleftrightarrow> exited s [0, 0]
     \<and> said_by s 0 = lines (intro_lines ''prog3'' @ [''PARENT: pid=7; child=8'', ''SOME MESSAGE''])
     \<and> (said_by s 1 = lines [''CHILD: pid=8; ppid=7'', ''SOME MESSAGE''] \<or>
        said_by s 1 = lines [''CHILD: pid=8; ppid=1'', ''SOME MESSAGE''])"

definition prog3_file_end :: "unix \<Rightarrow> bool" where
  "prog3_file_end s \<longleftrightarrow> exited s [0, 0]
     \<and> said_by s 0 = [concat (lines (intro_lines ''prog3'' @ [''PARENT: pid=7; child=8'', ''SOME MESSAGE'']))]
     \<and> (said_by s 1 = [concat (lines (intro_lines ''prog3'' @ [''CHILD: pid=8; ppid=7'', ''SOME MESSAGE'']))] \<or>
        said_by s 1 = [concat (lines (intro_lines ''prog3'' @ [''CHILD: pid=8; ppid=1'', ''SOME MESSAGE'']))])"

lemma prog3_search:
  "all_end dir_03 13 prog3_end [start7 Tty prog3]"
  "all_end dir_03 13 prog3_file_end [start7 (ToFile ''out.txt'') prog3]"
  by code_simp+

definition prog2_lines :: "string list" where
  "prog2_lines = [''prog2 running'', ''nfd: 88'', ''Hello, world!'', ''prog2 successful'']"

definition prog5_end :: "unix \<Rightarrow> bool" where
  "prog5_end s \<longleftrightarrow> exited s [0, 0]
     \<and> said_by s 0 = lines (intro_lines ''prog5'' @ [''PARENT: pid=7; child=8'', ''SOME MESSAGE''])
     \<and> (said_by s 1 = lines ([''CHILD: pid=8; ppid=7'', ''CHILD: exec''] @ prog2_lines) \<or>
        said_by s 1 = lines ([''CHILD: pid=8; ppid=1'', ''CHILD: exec''] @ prog2_lines))"

definition prog5_file_end :: "unix \<Rightarrow> bool" where
  "prog5_file_end s \<longleftrightarrow> exited s [0, 0]
     \<and> said_by s 0 = [concat (lines (intro_lines ''prog5'' @ [''PARENT: pid=7; child=8'', ''SOME MESSAGE'']))]
     \<and> said_by s 1 = lines [''prog2 running'', ''Hello, world!''] @ [concat (lines [''nfd: 88'', ''prog2 successful''])]"

lemma prog5_search:
  "all_end dir_03 20 prog5_end [start7 Tty prog5]"
  "all_end dir_03 20 prog5_file_end [start7 (ToFile ''out.txt'') prog5]"
  by code_simp+

text \<open>\<open>prog3.c\<close> and \<open>prog5.c\<close> of 03 under every schedule: both processes end with 0, within 12 and 19 calls.
  On a terminal each line comes once. Into a file the lines before the fork come from both
  processes of \<open>prog3\<close>, and the child of \<open>prog5\<close> writes only what \<open>prog2\<close> writes, its own lines lost, with
  \<open>prog2\<close>'s two direct writes first.\<close>

theorem fork_exec_every_schedule:
  assumes "run_procs dir_03 ws3 (start7 Tty prog3) = Some t3"
    and "run_procs dir_03 vs3 (start7 (ToFile ''out.txt'') prog3) = Some u3"
    and "run_procs dir_03 ws5 (start7 Tty prog5) = Some t5"
    and "run_procs dir_03 vs5 (start7 (ToFile ''out.txt'') prog5) = Some u5"
  shows "length ws3 < 13 \<and> (stuck dir_03 t3 \<longrightarrow> prog3_end t3) \<and> length vs3 < 13 \<and> (stuck dir_03 u3 \<longrightarrow> prog3_file_end u3)
    \<and> length ws5 < 20 \<and> (stuck dir_03 t5 \<longrightarrow> prog5_end t5) \<and> length vs5 < 20 \<and> (stuck dir_03 u5 \<longrightarrow> prog5_file_end u5)"
  using every_schedule[OF prog3_search(1) _ assms(1)] every_schedule[OF prog3_search(2) _ assms(2)]
    every_schedule[OF prog5_search(1) _ assms(3)] every_schedule[OF prog5_search(2) _ assms(4)] by simp

lemma fork_exec_every_schedule_witness:
  "\<exists>ws t vs u. run_procs dir_03 ws (start7 Tty prog3) = Some t \<and> prog3_end t
    \<and> run_procs dir_03 vs (start7 (ToFile ''out.txt'') prog5) = Some u \<and> prog5_file_end u"
proof -
  obtain w3 t3 where a: "run_procs dir_03 w3 (start7 Tty prog3) = Some t3" "stuck dir_03 t3"
    using some_run_ends[OF prog3_search(1)] by auto
  obtain v3 u3 where b: "run_procs dir_03 v3 (start7 (ToFile ''out.txt'') prog3) = Some u3" "stuck dir_03 u3"
    using some_run_ends[OF prog3_search(2)] by auto
  obtain w5 t5 where c: "run_procs dir_03 w5 (start7 Tty prog5) = Some t5" "stuck dir_03 t5"
    using some_run_ends[OF prog5_search(1)] by auto
  obtain v5 u5 where d: "run_procs dir_03 v5 (start7 (ToFile ''out.txt'') prog5) = Some u5" "stuck dir_03 u5"
    using some_run_ends[OF prog5_search(2)] by auto
  from fork_exec_every_schedule[OF a(1) b(1) c(1) d(1)] a d show ?thesis by blast
qed

text \<open>\<open>prog5.c\<close> of 04 ends before it waits: the parent's status is 1, nothing reports the child's 188.\<close>

definition prog5_04_end :: "unix \<Rightarrow> bool" where
  "prog5_04_end s \<longleftrightarrow> exited s [1, 188]
     \<and> said_by s 0 = lines (intro_lines ''prog5'' @ [''PARENT: pid=7; child=8''])
     \<and> (said_by s 1 = lines ([''CHILD: pid=8; ppid=7'', ''CHILD: exec''] @ prog2_lines) \<or>
        said_by s 1 = lines ([''CHILD: pid=8; ppid=1'', ''CHILD: exec''] @ prog2_lines))"

lemma prog5_04_search: "all_end dir_04 20 prog5_04_end [start7 Tty prog5_04]"
  by code_simp

section \<open>One schedule\<close>

definition logs_after :: "(string \<rightharpoonup> cmd list) \<Rightarrow> nat list \<Rightarrow> unix \<Rightarrow> (fdesc \<times> string) list list" where
  "logs_after progs ws s = (case run_procs progs ws s of None \<Rightarrow> [] | Some t \<Rightarrow> logs t)"

text \<open>\<open>prog1.c\<close> with and without descriptor 3.\<close>

lemma prog1_run:
  "logs_after dir_03 [0, 0, 0, 0, 0] (shell_start 2 7 Tty [(3, ToFile ''abc.txt'')] prog1) =
    [[(Tty, ''prog1 running'' @ [nl]), (ToFile ''abc.txt'', ''Hello, world!'' @ [nl]), (Tty, ''prog1 successful'' @ [nl])]]"
  "logs_after dir_03 [0, 0, 0, 0, 0] (start7 Tty prog1) = [[(Tty, ''prog1 running'' @ [nl]), (Tty, ''write failed'')]]"
  by code_simp+

text \<open>\<open>prog4.c\<close>: the child counts from 1088 and the parent from 88, here in turns.\<close>

definition value_line :: "string \<Rightarrow> string \<Rightarrow> string" where
  "value_line pid v = ''['' @ pid @ ''] value at & is '' @ v"

lemma prog4_run:
  "(let l = logs_after dir_03 (replicate 7 0 @ replicate 4 1 @ concat (replicate 30 [0, 1])) (start7 Tty prog4) in
     drop 5 (map snd (l ! 0)) = lines (map (value_line ''7'') [''88'', ''89'', ''90'', ''91'', ''92'', ''93'', ''94'', ''95'', ''96'', ''97''])
     \<and> drop 2 (map snd (l ! 1)) = lines (map (value_line ''8'')
          [''1088'', ''1089'', ''1090'', ''1091'', ''1092'', ''1093'', ''1094'', ''1095'', ''1096'', ''1097'']))"
  by code_simp

end
