(* ===== verification/Spec2Isabelle.thy ===== *)
theory Spec2Isabelle
  imports List_Props Ctxsw_Threads Uthread_Props Uthread_Ends Uthread_Test1 Queue_Test Latch_Monitor
    Pool_Test Pool_Server Par_Adder Memchannel_Test Test_Programs Echo_Props Uds_Session Echo_Overflow
    Poll_Props Epoll_Server Uv_Server
    Echo_Network_Props Scheduler_14_Props Counters Small_Programs Process_Programs
begin

text \<open>
  A verification library for the programs under \<open>src/\<close>: the examples of a course on operating
  systems, from user-level threads to asynchronous servers. Each theory opens with what it holds;
  this is the map.

  \<^bold>\<open>The programs and how they fit together.\<close> Intrusive lists (\<open>list.h\<close>) hold the ready and wait queues of
  the user threads library (14, 15) and the queues of the monitors (17, 18). The library switches
  contexts with two assembly routines (\<open>ctxswitch.s\<close>) and builds events and semaphores on its
  scheduler. The thread pool of 18 runs on the queue of 18; the parallel adder of 18 on the pool and
  on a countdown latch; the third echo server of 20 on a copy of the pool. The memory channel of
  19 lies in a shared memory object, and the echo service of 19 exchanges messages over such
  channels. The echo servers of 20, 21 and 22 are programs on sockets, with the same protocol.

  \<^bold>\<open>Conventions.\<close> \<open>Prelude\<close>: an operation returns \<open>c_error + 'a\<close>, where \<open>Inl\<close> is undefined behaviour, a
  failed assertion or a call that never returns, and \<open>Inr\<close> a normal result; \<open>and_then\<close> puts
  operations in sequence, \<open>c_int\<close> is signed arithmetic with its overflow an error, unsigned values
  are words. Memory is a partial map from addresses (64-bit words), so a load or store outside it
  is the error \<open>InvalidAccess\<close>. What \<open>malloc\<close>, the kernel or the network decide is an argument. A
  loop that may not end is a \<open>partial_function\<close>, a fuel with \<open>NoReturn\<close> when it is used up, or a
  script of events; then what returns is proved to return. \<open>size_t\<close> counters that only
  index small arrays are natural numbers where the text of a definition says so.

  \<^bold>\<open>Lists.\<close> \<open>Intrusive_List\<close> has the locale \<open>intrusive_list\<close>, the contract of a circular list over a
  linked memory, and the theory of chains and rings it needs. \<open>List_H\<close> (\<open>list.h\<close> of 15, the same in 17,
  18 and 20-03) and \<open>List14_H\<close> (14) translate the functions and interpret the locale;
  \<open>List_Props\<close> states first-in first-out order and removal in the middle.

  \<^bold>\<open>User threads.\<close> \<open>Ctxsw\<close>: the instructions of \<open>ctxswitch.s\<close> on a machine with registers and memory,
  the building of the first context (13, 14 and 15), that a switch and a switch back restore every
  callee-saved register, and the freeing of a thread's stack on another stack. \<open>Ctxsw_Threads\<close> puts any
  number of such threads on one machine, with creation, exit and what they compute in between, and
  refines it to coroutines. \<open>Uthread\<close>:
  \<open>uthread.c\<close>, \<open>event.c\<close> and \<open>semaphore.c\<close> of 15 on linked memory, where a saved context is the list of the
  library calls its thread has left. \<open>Uthread_Spec\<close> is the same library over plain
  lists. \<open>Uthread_Refine\<close>, \<open>Uthread_Sim\<close> and \<open>Uthread_Steps\<close> relate the two by \<open>um_inv s R W\<close> (ready list \<open>R\<close>, wait
  list \<open>W q\<close> of each synchronizer \<open>q\<close>) and prove one simulation lemma per call; \<open>Uthread_Reach\<close> has the
  reachable states of a program on the library and the invariant on them. \<open>Uthread_Props\<close> reads off the
  guarantees (order, broadcast, no overtaking, bounds, starvation), \<open>Uthread_Run\<close> that \<open>ut_run\<close>
  returns when the threads print and yield, with what output: its fuel is the number of calls and
  exits left, which each step reduces. \<open>Uthread_Ends\<close> has the same for threads with events and semaphores,
  where a blocking call counts twice: \<open>ut_run\<close> returns or its assertion reports a deadlock.
  \<open>Uthread_Test1\<close> is \<open>simpletest.c\<close>, for every sequence of random numbers.
  \<open>Scheduler_14\<close> and \<open>Scheduler_14_Props\<close> do this for the smaller library of 14: output and end of every
  program whose threads print and yield, equal to a round robin over lists.

  \<^bold>\<open>Monitors.\<close> \<open>Monitor\<close> is the semantics of a mutex with a condition variable: threads enter,
  wait, are woken (spuriously too) and leave, in any interleaving. \<open>Monitor_Contract\<close> has three locales:
  \<open>monitor_contract\<close> (the bodies implement a sequential specification, so that each history is a
  sequential one), \<open>token_monitor\<close> (signals are enough: nobody sleeps while there is something
  nobody awake will take) and \<open>gate_monitor\<close> (a broadcast opens for all). \<open>Queue_Monitor\<close> translates the
  queues of 17-01, 17-02 and 18 and interprets the first two locales, \<open>Latch_Monitor\<close> the latches of
  17 and 18 and the third; \<open>Queue_Props\<close> and \<open>Latch_Monitor\<close> state the results. \<open>Thread_Pool\<close> runs workers and clients on the
  queue of 18, \<open>Pool_Props\<close> shows that after \<open>thread_pool_cleanup\<close> every accepted item has run once,
  that cleanup never gets stuck, and that a stop racing with a submit can lose an item. \<open>Queue_Test\<close> and \<open>Pool_Test\<close> are the test programs of the
  queues and of the pool, in every schedule. \<open>Pool_Server\<close> composes the server of 20-03 with its pool:
  the accept loop submits, the workers run \<open>process_connection\<close>, and the whole refines the server of
  \<open>Echo_Servers\<close>, in which the pool is a list of waiting connections and eight places. \<open>Adder\<close>: the
  sequential adder, the regions of the parallel one, the stop watch and the loop that compares the two.
  \<open>Par_Adder\<close>: \<open>par_adder\<close> as the client of the pool, in one machine with the workers, where each task is
  unsent, in the queue, at a worker or finished, and the count of the latch is the number of tasks not finished; and \<open>main\<close>. \<open>Counters\<close>: the counters of 16, with
  and without a lock, where load and store of an increment are two steps.

  \<^bold>\<open>Shared memory.\<close> \<open>Shmem\<close>: \<open>shmem.c\<close> of 19 on the POSIX calls. \<open>Memchannel\<close>: \<open>memchannel.c\<close>, each process a program
  counter between its semaphore operations; \<open>Memchannel_Inv\<close> the invariant over all interleavings,
  \<open>Memchannel_Props\<close> order, capacity, mutual exclusion and the absence of deadlock; \<open>Memchannel_Test\<close> the test programs, one
  server and any number of clients, each a process with its own mapping; \<open>Memchannel_Steps\<close> has what
  programs on a channel share. \<open>Echo_Ipc\<close> and \<open>Echo_Ipc_Props\<close>: server, client and terminator of the echo service of 19
  on whole messages. \<open>Echo_Network\<close> composes them on their channels: the server, any number of clients and of terminators
  are processes that take the steps of \<open>mc_put\<close> and \<open>mc_get\<close> in any order, a message being the bytes of
  its struct. \<open>Echo_Network_Inv\<close> has the invariant (\<open>link\<close>: for each client the logs of both channels, up to the message
  that is under way), \<open>Echo_Network_Steps\<close> one lemma for each event, \<open>Echo_Network_Live\<close> what is left where
  nobody can go on, \<open>Echo_Network_Ends\<close> the work that is left, of which every event takes some, and
  \<open>Echo_Network_Props\<close> the results: the network refines \<open>Echo_Ipc\<close>, ends, and has then echoed every line,
  unless a terminator came while a client was on its way; and what a client with a given input prints.

  \<^bold>\<open>Servers.\<close> \<open>Sockets\<close>: C strings in buffers, the commands, and the calls, a run being driven by a script
  of what they return. \<open>Echo_Servers\<close>: the three servers of 20 and the one of 22, with \<open>Echo_Props\<close>, \<open>Echo_Threads\<close>
  (locale \<open>connection_server\<close>, interpreted for 20-02 and 22: connections that run at the same time
  are independent). \<open>Echo_Overflow\<close>: where the servers store behind their buffers, which have \<open>BUFSIZE\<close> bytes (\<open>stack_buffer\<close>)
  while a read takes as many (\<open>read_call\<close>). \<open>Echo_Client_Uds\<close>: the client of 22, between its calls of \<open>write\<close> and
  \<open>read\<close>; \<open>Uds_Session\<close>: client and server of 22 on one connection, each step when its call can return. \<open>Poll_Server\<close> and
  \<open>Poll_Props\<close>: 21-01, whose array of clients is compacted while it is traversed, and what \<open>revents\<close> left from
  an earlier client do to a new one. \<open>Epoll_Server\<close>: 21-02.
  \<open>Uv_Server\<close>: 21-03, callbacks and the memory they own; libuv is the order of the events. \<open>Small_Programs\<close>: the
  coroutines of 13, the mappings of 10 and the signal handlers of 04. \<open>Test_Programs\<close>: the small test
  programs of 12, 14, 16, 18 and 19. \<open>Processes\<close> has a kernel with
  descriptors, pipes and buffered standard output, in which a process is the list of calls it has
  left, the isolation of processes, and a search through all schedules; \<open>Process_Programs\<close> the
  programs of 03 and 04 on it.

  \<^bold>\<open>Bounds and fuel.\<close> \<open>run_threads\<close> and \<open>run_14\<close> take a fuel; theorems give one that is enough and prove that the
  run returns; the load of \<open>Uthread_Ends\<close> is such a fuel. The walk of \<open>test_list\<close> takes one more than the
  length of the list, the runs of \<open>Pool_Test\<close> have at most $6 n + 18$ steps, those of \<open>Echo_Network\<close> at most 22 for
  each byte of input besides a constant for each process, a session of \<open>Uds_Session\<close> three for each line and four more, a call of
  \<open>par_adder\<close> 34 and one for each worker. The loops of \<open>event_set\<close> and \<open>sem_post\<close> have no bound and are proved to end in every
  reachable state. The searches of
  \<open>Process_Programs\<close> have a bound on the number of calls, and the check includes that nothing is
  left to run there. The servers' loops follow finite scripts: a theorem about a script of any
  length is one about every finite part of a run. Waiting rooms are \<open>Asleep\<close> program counters;
  that they empty is proved as the absence of states where nobody can step.

  \<^bold>\<open>Not modelled.\<close> Thread code other than the calls of the libraries (except in \<open>Ctxsw\<close>), the text of most
  progress messages, signals that interrupt system calls, fairness of the kernel's scheduler, and memory orders weaker than
  sequential consistency. The assembly files of 14 are those of 15 but for one name; \<open>queue.c\<close> and \<open>list.h\<close> of
  20-03 and the \<open>list.h\<close> of 17 and 18 are copies of files modelled here; the other headers only declare.
  \<open>mc_create\<close> is one step in \<open>Memchannel_Test\<close>: that a client can open the object before its creator has
  initialised it is shown apart, in \<open>open_before_init\<close>. In \<open>Echo_Network\<close> every channel is created,
  process numbers are not used again, and opening, closing and destroying a channel is one step with what follows. \<open>mc_destroy\<close>
  notes that the semaphores and the mutex of the object are destroyed (\<open>destroyed_prims\<close>); what a call on
  them does then POSIX leaves open, here it goes on: \<open>destroyed_channel_in_use\<close> is such a call. In \<open>Par_Adder\<close> a call
  of the latch is one step, as the contract of its monitor allows. A round of a server's connection, from its read to its
  write or close, is one step also where connections run at the same time, so that the \<open>exit\<close> of one thread never
  comes between the two calls of another. \<open>internal_cleanup\<close> uses one word of the next
  thread's stack; the real frame and \<open>free\<close> use more words below it, all of them below the saved context and dead.
\<close>

end
